(* ===== verification/Prelude.thy ===== *)
theory Prelude
  imports Complex_Main "HOL-Library.Word" "HOL-Library.Multiset"
begin

text \<open>
  Shared vocabulary of the development: bytes, machine integers, the little-endian
  encoding behind the source's \<open>memcpy\<close> calls, strings as bytes, and the generic list
  and map lemmas the components use.  The broker runs on little-endian hosts (the comments
  of \<open>Message.cpp\<close> and \<open>ObjectMessage.cpp\<close> call the length fields ``LE''), so a
  \<open>memcpy\<close> of an integer of \<open>n\<close> bytes is \<open>le_bytes n\<close>.
\<close>

section \<open>Types\<close>

type_synonym byte = "8 word"
type_synonym int16 = "16 word"
type_synonym int32 = "32 word"
type_synonym int64 = "64 word"
type_synonym uint32 = "32 word"
type_synonym uint64 = "64 word"
type_synonym uuid = "128 word"

named_theorems wire_simps \<open>layout facts of the binary formats\<close>
named_theorems inv_intros \<open>an operation keeps its component's invariant\<close>

section \<open>Little-endian integers\<close>

fun le_bytes :: "nat \<Rightarrow> nat \<Rightarrow> byte list" where
  "le_bytes 0 x = []"
| "le_bytes (Suc n) x = of_nat (x mod 256) # le_bytes n (x div 256)"

fun le_nat :: "byte list \<Rightarrow> nat" where
  "le_nat [] = 0"
| "le_nat (b # bs) = unat b + 256 * le_nat bs"

lemma length_le_bytes [simp]: "length (le_bytes n x) = n"
  by (induction n arbitrary: x) auto

lemma le_nat_le_bytes: "le_nat (le_bytes n x) = x mod 256 ^ n"
proof (induction n arbitrary: x)
  case 0
  then show ?case by simp
next
  case (Suc n)
  have "unat (of_nat (x mod 256) :: byte) = x mod 256"
    by (simp add: unat_of_nat take_bit_eq_mod)
  then have "le_nat (le_bytes (Suc n) x) = x mod 256 + 256 * (x div 256 mod 256 ^ n)"
    by (simp add: Suc)
  also have "\<dots> = x mod (256 * 256 ^ n)"
    by (simp add: mod_mult2_eq)
  finally show ?case by simp
qed

lemma le_nat_bound: "le_nat bs < 256 ^ length bs"
proof (induction bs)
  case Nil
  then show ?case by simp
next
  case (Cons b bs)
  have "unat b < 256" using unsigned_less [of b] by simp
  with Cons show ?case by simp
qed

lemma le_bytes_le_nat: "le_bytes (length bs) (le_nat bs) = bs"
proof (induction bs)
  case Nil
  then show ?case by simp
next
  case (Cons b bs)
  have b: "unat b < 256" using unsigned_less [of b] by simp
  then have "(unat b + 256 * le_nat bs) mod 256 = unat b"
    and "(unat b + 256 * le_nat bs) div 256 = le_nat bs"
    by auto
  with Cons show ?case by simp
qed

text \<open>Reading an integer of a given width at an offset, and overwriting bytes in place.\<close>

definition read32 :: "byte list \<Rightarrow> nat \<Rightarrow> int32" where
  "read32 bs off = of_nat (le_nat (take 4 (drop off bs)))"

definition read64 :: "byte list \<Rightarrow> nat \<Rightarrow> int64" where
  "read64 bs off = of_nat (le_nat (take 8 (drop off bs)))"

definition bytes32 :: "int32 \<Rightarrow> byte list" where
  "bytes32 w = le_bytes 4 (unat w)"

definition bytes64 :: "int64 \<Rightarrow> byte list" where
  "bytes64 w = le_bytes 8 (unat w)"

definition memcpy_at :: "byte list \<Rightarrow> nat \<Rightarrow> byte list \<Rightarrow> byte list" where
  "memcpy_at dst off src = take off dst @ src @ drop (off + length src) dst"

lemma length_bytes32 [simp]: "length (bytes32 w) = 4"
  by (simp add: bytes32_def)

lemma length_bytes64 [simp]: "length (bytes64 w) = 8"
  by (simp add: bytes64_def)

lemma length_memcpy_at [simp]:
  "off + length src \<le> length dst \<Longrightarrow> length (memcpy_at dst off src) = length dst"
  by (simp add: memcpy_at_def)

lemma unat_less: "unat (w :: 'a::len word) < 2 ^ LENGTH('a)"
  by (rule unsigned_less)

lemma le_nat_bytes32 [simp]: "le_nat (bytes32 w) = unat w"
  using unat_less [of w] by (simp add: bytes32_def le_nat_le_bytes)

lemma le_nat_bytes64 [simp]: "le_nat (bytes64 w) = unat w"
  using unat_less [of w] by (simp add: bytes64_def le_nat_le_bytes)

lemma read32_at [wire_simps]: "length pre = off \<Longrightarrow> read32 (pre @ bytes32 w @ post) off = w"
  by (simp add: read32_def)

lemma read64_at [wire_simps]: "length pre = off \<Longrightarrow> read64 (pre @ bytes64 w @ post) off = w"
  by (simp add: read64_def)

lemma nth_at [wire_simps]: "length pre = off \<Longrightarrow> (pre @ [b] @ post) ! off = b"
  by (simp add: nth_append)

lemma memcpy_at_same [wire_simps]:
  "length pre = off \<Longrightarrow> length old = length src \<Longrightarrow>
     memcpy_at (pre @ old @ post) off src = pre @ src @ post"
  by (simp add: memcpy_at_def)

section \<open>Strings and UUIDs as bytes\<close>

definition byte_of_char :: "char \<Rightarrow> byte" where
  "byte_of_char c = of_nat (of_char c)"

definition char_of_byte :: "byte \<Rightarrow> char" where
  "char_of_byte b = char_of (unat b)"

definition bytes_of_string :: "string \<Rightarrow> byte list" where
  "bytes_of_string s = map byte_of_char s"

definition string_of_bytes :: "byte list \<Rightarrow> string" where
  "string_of_bytes bs = map char_of_byte bs"

lemma char_of_byte_of_char [simp]: "char_of_byte (byte_of_char c) = c"
  by (simp add: char_of_byte_def byte_of_char_def unat_of_nat)

lemma string_of_bytes_of_string [simp]: "string_of_bytes (bytes_of_string s) = s"
  by (simp add: string_of_bytes_def bytes_of_string_def comp_def)

lemma length_bytes_of_string [simp]: "length (bytes_of_string s) = length s"
  by (simp add: bytes_of_string_def)

lemma length_string_of_bytes [simp]: "length (string_of_bytes bs) = length bs"
  by (simp add: string_of_bytes_def)

lemma bytes_of_string_Nil [simp]: "bytes_of_string s = [] \<longleftrightarrow> s = []"
  by (simp add: bytes_of_string_def)

text \<open>
  \<open>Poco::UUID::copyTo\<close> and \<open>copyFrom\<close> write and read the sixteen bytes in network
  byte order; a null UUID is the one with all bits zero.
\<close>

definition uuid_bytes :: "uuid \<Rightarrow> byte list" where
  "uuid_bytes u = rev (le_bytes 16 (unat u))"

definition uuid_of_bytes :: "byte list \<Rightarrow> uuid" where
  "uuid_of_bytes bs = of_nat (le_nat (rev bs))"

lemma length_uuid_bytes [simp]: "length (uuid_bytes u) = 16"
  by (simp add: uuid_bytes_def)

lemma uuid_of_bytes_uuid_bytes [simp]: "uuid_of_bytes (uuid_bytes u) = u"
  using unat_less [of u] by (simp add: uuid_of_bytes_def uuid_bytes_def le_nat_le_bytes)

lemma uuid_bytes_inj [simp]: "uuid_bytes u = uuid_bytes v \<longleftrightarrow> u = v"
  using uuid_of_bytes_uuid_bytes by metis

section \<open>Signed readings\<close>

definition clamp_prio :: "int32 \<Rightarrow> nat" where
  "clamp_prio p = (if sint p < 0 then 0 else if sint p > 9 then 9 else nat (sint p))"

lemma clamp_prio_le [simp]: "clamp_prio p \<le> 9" and clamp_prio_less [simp]: "clamp_prio p < 10"
  by (auto simp: clamp_prio_def)

section \<open>Association lists\<close>

definition al_keys :: "('k \<times> 'v) list \<Rightarrow> 'k list" where
  "al_keys xs = map fst xs"

definition al_erase :: "'k \<Rightarrow> ('k \<times> 'v) list \<Rightarrow> ('k \<times> 'v) list" where
  "al_erase k xs = filter (\<lambda>p. fst p \<noteq> k) xs"

text \<open>\<open>emplace\<close> keeps an existing entry; \<open>operator[]\<close> replaces it in place.\<close>

definition al_emplace :: "'k \<Rightarrow> 'v \<Rightarrow> ('k \<times> 'v) list \<Rightarrow> ('k \<times> 'v) list" where
  "al_emplace k v xs = (if k \<in> set (al_keys xs) then xs else xs @ [(k, v)])"

definition al_update :: "'k \<Rightarrow> 'v \<Rightarrow> ('k \<times> 'v) list \<Rightarrow> ('k \<times> 'v) list" where
  "al_update k v xs =
     (if k \<in> set (al_keys xs) then map (\<lambda>p. if fst p = k then (k, v) else p) xs else xs @ [(k, v)])"

lemma al_keys_simps [simp]:
  "al_keys [] = []" "al_keys (p # xs) = fst p # al_keys xs" "al_keys (xs @ ys) = al_keys xs @ al_keys ys"
  by (simp_all add: al_keys_def)

lemma map_of_eq_None_keys: "map_of xs k = None \<longleftrightarrow> k \<notin> set (al_keys xs)"
  by (simp add: al_keys_def map_of_eq_None_iff)

lemma keys_dom: "set (al_keys xs) = dom (map_of xs)"
  by (auto simp: al_keys_def dom_map_of_conv_image_fst)

lemma map_of_al_erase [simp]: "map_of (al_erase k xs) = (map_of xs)(k := None)"
  by (induction xs) (auto simp: al_erase_def fun_eq_iff)

lemma map_of_al_emplace:
  "map_of (al_emplace k v xs) = (case map_of xs k of None \<Rightarrow> (map_of xs)(k \<mapsto> v) | Some _ \<Rightarrow> map_of xs)"
  by (auto simp: al_emplace_def map_of_eq_None_keys [symmetric] map_add_def fun_eq_iff
      split: option.splits)

lemma map_of_al_update [simp]: "map_of (al_update k v xs) = (map_of xs)(k \<mapsto> v)"
proof -
  have "map_of (map (\<lambda>p. if fst p = k then (k, v) else p) ys) =
      (if k \<in> set (al_keys ys) then (map_of ys)(k \<mapsto> v) else map_of ys)" for ys
    by (induction ys) (auto simp: fun_eq_iff)
  then show ?thesis
    by (auto simp: al_update_def map_of_eq_None_keys [symmetric] map_add_def fun_eq_iff
        split: option.splits)
qed

lemma keys_al_erase [simp]: "set (al_keys (al_erase k xs)) = set (al_keys xs) - {k}"
  by (auto simp: al_keys_def al_erase_def)

lemma keys_al_emplace [simp]: "set (al_keys (al_emplace k v xs)) = insert k (set (al_keys xs))"
  by (auto simp: al_emplace_def)

lemma keys_al_update [simp]: "set (al_keys (al_update k v xs)) = insert k (set (al_keys xs))"
  by (simp add: keys_dom)

lemma distinct_al_erase [intro]: "distinct (al_keys xs) \<Longrightarrow> distinct (al_keys (al_erase k xs))"
  by (simp add: al_keys_def al_erase_def distinct_map_filter)

lemma distinct_al_emplace [intro]: "distinct (al_keys xs) \<Longrightarrow> distinct (al_keys (al_emplace k v xs))"
  by (simp add: al_emplace_def)

lemma distinct_al_update [intro]: "distinct (al_keys xs) \<Longrightarrow> distinct (al_keys (al_update k v xs))"
proof -
  have "al_keys (map (\<lambda>p. if fst p = k then (k, v) else p) xs) = al_keys xs"
    by (induction xs) auto
  then show "distinct (al_keys xs) \<Longrightarrow> ?thesis" by (simp add: al_update_def)
qed

lemma al_split:
  assumes "map_of xs k = Some v" "distinct (al_keys xs)"
  obtains a b where "xs = a @ (k, v) # b" "k \<notin> set (al_keys a)" "k \<notin> set (al_keys b)"
    "\<And>w. al_update k w xs = a @ (k, w) # b"
proof -
  from assms(1) have "(k, v) \<in> set xs" by (rule map_of_SomeD)
  then obtain a b where xs: "xs = a @ (k, v) # b" by (auto simp: in_set_conv_decomp)
  with assms(2) have ab: "k \<notin> set (al_keys a)" "k \<notin> set (al_keys b)" by auto
  have rep: "map (\<lambda>p. if fst p = k then (k, w) else p) ys = ys" if "k \<notin> set (al_keys ys)" for ys w
    using that by (induction ys) auto
  have "al_update k w xs = a @ (k, w) # b" for w
    using xs rep [OF ab(1), of w] rep [OF ab(2), of w] by (simp add: al_update_def)
  with xs ab show ?thesis by (rule that)
qed

section \<open>Iterating a partial step\<close>

text \<open>A loop whose body may throw stops at the first exception.\<close>

fun fold_exn :: "('x \<Rightarrow> 's \<Rightarrow> 'e + 's) \<Rightarrow> 'x list \<Rightarrow> 's \<Rightarrow> 'e + 's" where
  "fold_exn f [] s = Inr s"
| "fold_exn f (x # xs) s = (case f x s of Inl e \<Rightarrow> Inl e | Inr s' \<Rightarrow> fold_exn f xs s')"

lemma fold_exn_append:
  "fold_exn f (xs @ ys) s = (case fold_exn f xs s of Inl e \<Rightarrow> Inl e | Inr s' \<Rightarrow> fold_exn f ys s')"
  by (induction xs arbitrary: s) (auto split: sum.splits)

section \<open>Runs\<close>

text \<open>Changing one entry of a list changes a sum over the list by the difference of the two entries.\<close>

lemma sum_list_at:
  fixes f :: "'b \<Rightarrow> 'm :: comm_monoid_add"
  assumes "i < length xs"
  shows "sum_list (map f (xs[i := y])) + f (xs ! i) = sum_list (map f xs) + f y"
  using assms by (induction xs arbitrary: i) (auto simp: ac_simps split: nat.splits)

text \<open>
  The contract of a run: initial states and an invariant that every step keeps.  The invariant then holds
  in every state of every run.
\<close>

locale invariant_run =
  fixes init :: "'s \<Rightarrow> bool" and step :: "'s \<Rightarrow> 's \<Rightarrow> bool" and inv :: "'s \<Rightarrow> bool"
  assumes init_inv: "init s \<Longrightarrow> inv s" and step_inv: "step s s' \<Longrightarrow> inv s \<Longrightarrow> inv s'"
begin

lemma run_inv: "step\<^sup>*\<^sup>* s s' \<Longrightarrow> inv s \<Longrightarrow> inv s'"
  by (induction rule: rtranclp_induct) (auto intro: step_inv)

lemma reachable_inv: "step\<^sup>*\<^sup>* s s' \<Longrightarrow> init s \<Longrightarrow> inv s'"
  by (blast intro: run_inv init_inv)

end

text \<open>Sizes and indices of 64 bits.\<close>

lemma unat_of_nat64: "n < 2 ^ 64 \<Longrightarrow> unat (of_nat n :: 64 word) = n"
  by (simp add: unat_of_nat)

end
