(* ===== verification/Linear_Storage.thy ===== *)
theory Linear_Storage
  imports Prelude "HOL-Library.Monad_Syntax"
begin

text \<open>
  The append-only store: \<open>LinearStorage.h\<close> and \<open>LinearStorage.cpp\<close>.  A tom is one
  file of records, each a 32-byte header (16 bytes UUID, 8 bytes data size, the deleted flag at
  offset 24, 7 bytes of padding) followed by the data.  The file is a byte list, and the
  \<open>iostream\<close> it is accessed through keeps its failure state: once a read or a write fails,
  \<open>good\<close> stays false and every later access fails, because the code never calls
  \<open>clear()\<close>.  Offsets and sizes are 64-bit and wrap.  Memory does not run out: for a data size beyond the end
  of the file, for which \<open>std::vector\<close> may throw \<open>std::bad_alloc\<close>, the model has the failed read.  The B-tree index is a map.  A loop over
  the records of a file need not end on a corrupt file (a data size of \<open>2^64 - 32\<close> leaves the
  offset where it is), so the loops are partial functions, and termination on well-formed files is
  proved.
\<close>

section \<open>Records and toms\<close>

record header =
  huuid :: uuid
  dataSize :: uint64
  deleted :: byte

record srecord =
  tomId :: uint32
  offset :: uint64
  rheader :: header

definition max32 :: uint32 where "max32 = - 1"
definition max64 :: uint64 where "max64 = - 1"

definition default_header :: header where
  "default_header = \<lparr>huuid = 0, dataSize = 0, deleted = 0\<rparr>"

definition default_record :: srecord where
  "default_record = \<lparr>tomId = max32, offset = max64, rheader = default_header\<rparr>"

record sweepCursor =
  cur_tomId :: uint32
  cur_offset :: uint64

definition start_cursor :: sweepCursor where
  "start_cursor = \<lparr>cur_tomId = 0, cur_offset = 0\<rparr>"

record tom =
  tom_id :: uint32
  tom_size :: uint64
  tom_file :: "byte list"
  good :: bool

datatype storage_error = InvalidArgument | WriteFailed | ReadFailed | LengthError | NoSuchTom | EmplaceFailed

definition sizeof_Header :: nat where "sizeof_Header = 32"

definition header_bytes :: "header \<Rightarrow> byte list" where
  "header_bytes h = uuid_bytes (huuid h) @ bytes64 (dataSize h) @ [deleted h] @ replicate 7 0"

definition header_of_bytes :: "byte list \<Rightarrow> header" where
  "header_of_bytes bs = \<lparr>huuid = uuid_of_bytes (take 16 bs), dataSize = read64 bs 16, deleted = bs ! 24\<rparr>"

text \<open>\<open>Tom(id, basePath)\<close> on an existing file, or on a new empty one.\<close>

definition tom_open :: "uint32 \<Rightarrow> byte list \<Rightarrow> tom" where
  "tom_open i f = \<lparr>tom_id = i, tom_size = of_nat (length f), tom_file = f, good = True\<rparr>"

text \<open>Stream access: \<open>seekg\<close> and \<open>read\<close> of \<open>n\<close> bytes; \<open>seekp\<close>, \<open>write\<close> and \<open>flush\<close>.\<close>

definition file_read :: "nat \<Rightarrow> nat \<Rightarrow> tom \<Rightarrow> byte list option \<times> tom" where
  "file_read off n t =
     (if good t \<and> off + n \<le> length (tom_file t) then (Some (take n (drop off (tom_file t))), t)
      else (None, t\<lparr>good := False\<rparr>))"

definition write_at :: "byte list \<Rightarrow> nat \<Rightarrow> byte list \<Rightarrow> byte list" where
  "write_at f off bs = take off (f @ replicate (off - length f) 0) @ bs @ drop (off + length bs) f"

definition file_write :: "bool \<Rightarrow> nat \<Rightarrow> byte list \<Rightarrow> tom \<Rightarrow> bool \<times> tom" where
  "file_write wok off bs t =
     (if good t \<and> wok then (True, t\<lparr>tom_file := write_at (tom_file t) off bs\<rparr>)
      else (False, t\<lparr>good := False\<rparr>))"

text \<open>The operations; \<open>wok\<close> is whether the operating system accepts the write.\<close>

definition tom_append :: "bool \<Rightarrow> uuid \<Rightarrow> byte list \<Rightarrow> tom \<Rightarrow> (storage_error + srecord) \<times> tom" where
  "tom_append wok u dat t =
     (if dat = [] then (Inl InvalidArgument, t)
      else
        let rec = \<lparr>tomId = tom_id t, offset = tom_size t,
                   rheader = \<lparr>huuid = u, dataSize = of_nat (length dat), deleted = 0\<rparr>\<rparr>;
            t1 = t\<lparr>tom_size := tom_size t + of_nat (sizeof_Header + length dat)\<rparr>
        in case file_write wok (unat (offset rec)) (header_bytes (rheader rec) @ dat) t1 of
             (True, t2) \<Rightarrow> (Inr rec, t2)
           | (False, t2) \<Rightarrow> (Inl WriteFailed, t2))"

definition tom_record :: "uint64 \<Rightarrow> tom \<Rightarrow> (storage_error + srecord) \<times> tom" where
  "tom_record off t =
     (if off < tom_size t
      then (case file_read (unat off) sizeof_Header t of
              (Some bs, t') \<Rightarrow> (Inr \<lparr>tomId = tom_id t, offset = off, rheader = header_of_bytes bs\<rparr>, t')
            | (None, t') \<Rightarrow> (Inl ReadFailed, t'))
      else (Inr default_record, t))"

definition data_offset :: "srecord \<Rightarrow> nat" where
  "data_offset r = unat (offset r + of_nat sizeof_Header)"

definition tom_data :: "srecord \<Rightarrow> tom \<Rightarrow> (storage_error + byte list) \<times> tom" where
  "tom_data r t =
     (if dataSize (rheader r) = 0 then (Inr [], t)
      else if unat (dataSize (rheader r)) \<ge> 2 ^ 63 then (Inl LengthError, t)
      else case file_read (data_offset r) (unat (dataSize (rheader r))) t of
             (Some bs, t') \<Rightarrow> (Inr bs, t')
           | (None, t') \<Rightarrow> (Inl ReadFailed, t'))"

definition tom_dataPrefix :: "srecord \<Rightarrow> nat \<Rightarrow> tom \<Rightarrow> byte list \<times> tom" where
  "tom_dataPrefix r len t =
     (let n = min len (unat (dataSize (rheader r)))
      in if n = 0 then ([], t)
         else case file_read (data_offset r) n t of
                (Some bs, t') \<Rightarrow> (bs, t')
              | (None, t') \<Rightarrow> ([], t'))"

definition tom_remove :: "bool \<Rightarrow> srecord \<Rightarrow> tom \<Rightarrow> bool \<times> srecord \<times> tom" where
  "tom_remove wok r t =
     (if deleted (rheader r) \<noteq> 0 then (True, r, t)
      else case file_write wok (unat (offset r + 24)) [1] t of
             (True, t') \<Rightarrow> (True, r\<lparr>rheader := (rheader r)\<lparr>deleted := 1\<rparr>\<rparr>, t')
           | (False, t') \<Rightarrow> (False, r\<lparr>rheader := (rheader r)\<lparr>deleted := 0\<rparr>\<rparr>, t'))"

text \<open>
  The loop over the records of a tom, shared by \<open>rebuildIndex\<close> and \<open>scan\<close>: \<open>f\<close>
  is what the loop does with a record before it moves on.
\<close>

partial_function (option) tom_walk ::
  "(srecord \<Rightarrow> tom \<Rightarrow> 's \<Rightarrow> tom \<times> 's) \<Rightarrow> uint64 \<Rightarrow> tom \<Rightarrow> 's \<Rightarrow> ((storage_error + 's) \<times> tom) option"
where
  "tom_walk f off t s =
     (case tom_record off t of
        (Inl e, t') \<Rightarrow> Some (Inl e, t')
      | (Inr r, t') \<Rightarrow>
          if tomId r = max32 then Some (Inr s, t')
          else if dataSize (rheader r) = 0 then Some (Inr s, t')
          else tom_walk f (off + of_nat sizeof_Header + dataSize (rheader r)) (fst (f r t' s)) (snd (f r t' s)))"

declare tom_walk.simps [code]

section \<open>Storage\<close>

type_synonym scan_result = "(srecord \<times> byte list) list"

record storage =
  currentTomId :: uint32
  toms :: "(uint32 \<times> tom) list"   \<comment> \<open>the \<open>unordered_map\<close>, in iteration order\<close>
  index :: "uuid \<rightharpoonup> srecord"

definition index_body :: "srecord \<Rightarrow> tom \<Rightarrow> (uuid \<rightharpoonup> srecord) \<Rightarrow> tom \<times> (uuid \<rightharpoonup> srecord)" where
  "index_body r t ix = (t, if deleted (rheader r) = 0 then ix(huuid (rheader r) \<mapsto> r) else ix)"

definition scan_body :: "srecord \<Rightarrow> tom \<Rightarrow> scan_result \<Rightarrow> tom \<times> scan_result" where
  "scan_body r t res =
     (if deleted (rheader r) = 0
      then (case tom_data r t of
              (Inr d, t') \<Rightarrow> (t', res @ [(r, d)])
            | (Inl _, t') \<Rightarrow> (t', res))
      else (t, res))"

fun walk_toms ::
  "(srecord \<Rightarrow> tom \<Rightarrow> 's \<Rightarrow> tom \<times> 's) \<Rightarrow> (uint32 \<times> tom) list \<Rightarrow> 's
     \<Rightarrow> ((storage_error + 's) \<times> (uint32 \<times> tom) list) option"
where
  "walk_toms f [] s = Some (Inr s, [])"
| "walk_toms f ((i, t) # ts) s =
     (case tom_walk f 0 t s of
        None \<Rightarrow> None
      | Some (Inl e, t') \<Rightarrow> Some (Inl e, (i, t') # ts)
      | Some (Inr s', t') \<Rightarrow>
          (case walk_toms f ts s' of
             None \<Rightarrow> None
           | Some (r, ts') \<Rightarrow> Some (r, (i, t') # ts')))"

definition rebuildIndex :: "storage \<Rightarrow> (storage_error + storage) option" where
  "rebuildIndex st =
     (case walk_toms index_body (toms st) (index st) of
        None \<Rightarrow> None
      | Some (Inl e, _) \<Rightarrow> Some (Inl e)
      | Some (Inr ix, ts) \<Rightarrow> Some (Inr (st\<lparr>toms := ts, index := ix\<rparr>)))"

definition storage_scan :: "storage \<Rightarrow> ((storage_error + scan_result) \<times> storage) option" where
  "storage_scan st =
     (case walk_toms scan_body (toms st) [] of
        None \<Rightarrow> None
      | Some (r, ts) \<Rightarrow> Some (r, st\<lparr>toms := ts\<rparr>))"

text \<open>\<open>Storage(id, basePath)\<close>: open the files that are there, then rebuild the index.\<close>

fun open_toms :: "(uint32 \<times> byte list) list \<Rightarrow> storage \<Rightarrow> storage" where
  "open_toms [] st = st"
| "open_toms ((i, f) # fs) st =
     open_toms fs
       (if i \<in> set (al_keys (toms st)) then st
        else st\<lparr>toms := toms st @ [(i, tom_open i f)],
                currentTomId := (if i > currentTomId st then i else currentTomId st)\<rparr>)"

definition storage_open :: "(uint32 \<times> byte list) list \<Rightarrow> (storage_error + storage) option" where
  "storage_open fs = rebuildIndex (open_toms fs \<lparr>currentTomId = 0, toms = [], index = Map.empty\<rparr>)"

definition currentTom :: "storage \<Rightarrow> (storage_error + uint32) \<times> storage" where
  "currentTom st =
     (let ctd = currentTomId st in
      if ctd \<in> set (al_keys (toms st)) then (Inr ctd, st)
      else let ctd' = ctd + 1; st' = st\<lparr>currentTomId := ctd'\<rparr> in
        if ctd' \<in> set (al_keys (toms st)) then (Inl EmplaceFailed, st')
        else (Inr ctd', st'\<lparr>toms := toms st @ [(ctd', tom_open ctd' [])]\<rparr>))"

definition set_tom :: "uint32 \<Rightarrow> tom \<Rightarrow> storage \<Rightarrow> storage" where
  "set_tom i t st = st\<lparr>toms := al_update i t (toms st)\<rparr>"

definition storage_append :: "bool \<Rightarrow> uuid \<Rightarrow> byte list \<Rightarrow> storage \<Rightarrow> (storage_error + srecord) \<times> storage" where
  "storage_append wok u dat st =
     (if dat = [] then (Inl InvalidArgument, st)
      else case currentTom st of
        (Inl e, st1) \<Rightarrow> (Inl e, st1)
      | (Inr i, st1) \<Rightarrow>
          (case map_of (toms st1) i of
             None \<Rightarrow> (Inl NoSuchTom, st1)
           | Some t \<Rightarrow>
               (case tom_append wok u dat t of
                  (Inl e, t') \<Rightarrow> (Inl e, set_tom i t' st1)
                | (Inr rec, t') \<Rightarrow>
                    (Inr rec, (set_tom i t' st1)\<lparr>index := (index st1)(huuid (rheader rec) \<mapsto> rec)\<rparr>))))"

definition storage_record_at :: "uint32 \<Rightarrow> uint64 \<Rightarrow> storage \<Rightarrow> (storage_error + srecord) \<times> storage" where
  "storage_record_at i off st =
     (case map_of (toms st) i of
        None \<Rightarrow> (Inl NoSuchTom, st)
      | Some t \<Rightarrow> (case tom_record off t of (r, t') \<Rightarrow> (r, set_tom i t' st)))"

definition storage_record :: "uuid \<Rightarrow> storage \<Rightarrow> srecord" where
  "storage_record u st = (case index st u of None \<Rightarrow> default_record | Some r \<Rightarrow> r)"

definition storage_data :: "srecord \<Rightarrow> storage \<Rightarrow> (storage_error + byte list) \<times> storage" where
  "storage_data r st =
     (case map_of (toms st) (tomId r) of
        None \<Rightarrow> (Inl NoSuchTom, st)
      | Some t \<Rightarrow> (case tom_data r t of (d, t') \<Rightarrow> (d, set_tom (tomId r) t' st)))"

text \<open>
  \<open>remove\<close> takes the UUID from the record, or from the file when the record carries none,
  and drops that index entry once the deleted flag is written.
\<close>

definition storage_remove :: "bool \<Rightarrow> srecord \<Rightarrow> storage \<Rightarrow> (storage_error + bool \<times> srecord) \<times> storage" where
  "storage_remove wok r st =
     (case map_of (toms st) (tomId r) of
        None \<Rightarrow> (Inl NoSuchTom, st)
      | Some t \<Rightarrow>
          (case (if huuid (rheader r) = 0
                 then (case tom_record (offset r) t of
                         (Inr x, t1) \<Rightarrow> (huuid (rheader x), t1)
                       | (Inl _, t1) \<Rightarrow> (0, t1))
                 else (huuid (rheader r), t)) of
             (u, t1) \<Rightarrow>
               (case tom_remove wok r t1 of
                  (ok, r', t2) \<Rightarrow>
                    (Inr (ok, r'),
                     (set_tom (tomId r) t2 st)\<lparr>index :=
                        (if ok \<and> u \<noteq> 0 then (index st)(u := None) else index st)\<rparr>))))"

text \<open>\<open>scanPrefix\<close>: at most \<open>maxRecords\<close> records per call, resuming at the cursor.\<close>

partial_function (option) prefix_walk ::
  "nat \<Rightarrow> nat \<Rightarrow> uint64 \<Rightarrow> nat \<Rightarrow> tom \<Rightarrow> scan_result
     \<Rightarrow> ((storage_error + uint64 option \<times> nat \<times> scan_result) \<times> tom) option"
where
  "prefix_walk len maxRecords off scanned t res =
     (if scanned \<ge> maxRecords then Some (Inr (Some off, scanned, res), t)
      else case tom_record off t of
        (Inl e, t') \<Rightarrow> Some (Inl e, t')
      | (Inr r, t') \<Rightarrow>
          if tomId r = max32 then Some (Inr (None, scanned, res), t')
          else if dataSize (rheader r) = 0 then Some (Inr (None, scanned, res), t')
          else
            let p = (if deleted (rheader r) = 0 then tom_dataPrefix r len t' else ([], t'))
            in prefix_walk len maxRecords (off + of_nat sizeof_Header + dataSize (rheader r)) (Suc scanned)
                 (snd p) (if fst p \<noteq> [] then res @ [(r, fst p)] else res))"

declare prefix_walk.simps [code]

text \<open>The outer loop, over the tom ids in ascending order; \<open>resuming\<close> skips ids below the cursor.\<close>

fun prefix_toms ::
  "nat \<Rightarrow> nat \<Rightarrow> sweepCursor \<Rightarrow> bool \<Rightarrow> uint32 list \<Rightarrow> nat \<Rightarrow> storage \<Rightarrow> scan_result
     \<Rightarrow> ((storage_error + scan_result \<times> sweepCursor) \<times> storage) option"
where
  "prefix_toms len mx cur resuming [] scanned st res = Some (Inr (res, start_cursor), st)"
| "prefix_toms len mx cur resuming (i # is) scanned st res =
     (if resuming \<and> i < cur_tomId cur then prefix_toms len mx cur resuming is scanned st res
      else
        case map_of (toms st) i of
          None \<Rightarrow> Some (Inl NoSuchTom, st)
        | Some t \<Rightarrow>
            (case prefix_walk len mx (if resuming \<and> i = cur_tomId cur then cur_offset cur else 0) scanned t res of
               None \<Rightarrow> None
             | Some (Inl e, t') \<Rightarrow> Some (Inl e, set_tom i t' st)
             | Some (Inr (Some off, n, res'), t') \<Rightarrow>
                 Some (Inr (res', \<lparr>cur_tomId = i, cur_offset = off\<rparr>), set_tom i t' st)
             | Some (Inr (None, n, res'), t') \<Rightarrow> prefix_toms len mx cur False is n (set_tom i t' st) res'))"

definition scanPrefix ::
  "nat \<Rightarrow> nat \<Rightarrow> sweepCursor \<Rightarrow> storage \<Rightarrow> ((storage_error + scan_result \<times> sweepCursor) \<times> storage) option" where
  "scanPrefix len mx cur st = prefix_toms len mx cur True (sort (al_keys (toms st))) 0 st []"

section \<open>A tom as a log of entries\<close>

record entry =
  e_uuid :: uuid
  e_data :: "byte list"
  e_deleted :: byte

definition entry_header :: "entry \<Rightarrow> header" where
  "entry_header e = \<lparr>huuid = e_uuid e, dataSize = of_nat (length (e_data e)), deleted = e_deleted e\<rparr>"

definition entry_bytes :: "entry \<Rightarrow> byte list" where
  "entry_bytes e = header_bytes (entry_header e) @ e_data e"

definition entry_size :: "entry \<Rightarrow> nat" where
  "entry_size e = sizeof_Header + length (e_data e)"

definition log_bytes :: "entry list \<Rightarrow> byte list" where
  "log_bytes es = concat (map entry_bytes es)"

definition log_size :: "entry list \<Rightarrow> nat" where
  "log_size es = sum_list (map entry_size es)"

text \<open>The tom holds exactly these entries, and its stream works.\<close>

definition tom_rep :: "tom \<Rightarrow> entry list \<Rightarrow> bool" where
  "tom_rep t es \<longleftrightarrow> good t \<and> tom_file t = log_bytes es \<and> tom_size t = of_nat (log_size es) \<and>
     log_size es < 2 ^ 63 \<and> (\<forall>e \<in> set es. e_data e \<noteq> []) \<and> tom_id t \<noteq> max32"

fun log_recs :: "uint32 \<Rightarrow> nat \<Rightarrow> entry list \<Rightarrow> (srecord \<times> entry) list" where
  "log_recs i pos [] = []"
| "log_recs i pos (e # es) =
     (\<lparr>tomId = i, offset = of_nat pos, rheader = entry_header e\<rparr>, e) # log_recs i (pos + entry_size e) es"

lemma length_header_bytes [simp]: "length (header_bytes h) = 32"
  by (simp add: header_bytes_def)

lemma header_of_bytes_header_bytes [simp]: "header_of_bytes (header_bytes h) = h"
  by (simp add: header_of_bytes_def header_bytes_def read64_def nth_append)

lemma log_simps [simp]:
  "log_bytes [] = []" "log_bytes (e # es) = entry_bytes e @ log_bytes es"
  "log_bytes (es @ fs) = log_bytes es @ log_bytes fs"
  "log_size [] = 0" "log_size (e # es) = entry_size e + log_size es"
  "log_size (es @ fs) = log_size es + log_size fs"
  by (simp_all add: log_bytes_def log_size_def)

lemma length_entry_bytes [simp]: "length (entry_bytes e) = entry_size e"
  by (simp add: entry_bytes_def entry_size_def sizeof_Header_def)

lemma length_log_bytes [simp]: "length (log_bytes es) = log_size es"
  by (induction es) auto

lemma entry_bytes_split: "take 32 (entry_bytes e) = header_bytes (entry_header e)"
  "drop 32 (entry_bytes e) = e_data e"
  by (simp_all add: entry_bytes_def)

lemma tom_rep_size: "tom_rep t es \<Longrightarrow> unat (tom_size t) = log_size es"
  by (simp add: tom_rep_def unat_of_nat64)

lemma tom_rep_bounds:
  assumes "tom_rep t (pre @ e # suf)"
  shows "log_size pre + entry_size e \<le> log_size (pre @ e # suf)" "log_size (pre @ e # suf) < 2 ^ 63"
    "entry_size e > 32" "e_data e \<noteq> []" "length (e_data e) < 2 ^ 63"
  using assms by (auto simp: tom_rep_def entry_size_def sizeof_Header_def)

lemma tom_record_at:
  assumes "tom_rep t (pre @ e # suf)"
  shows "tom_record (of_nat (log_size pre)) t =
    (Inr \<lparr>tomId = tom_id t, offset = of_nat (log_size pre), rheader = entry_header e\<rparr>, t)"
proof -
  note b = tom_rep_bounds [OF assms]
  have u: "unat (of_nat (log_size pre) :: uint64) = log_size pre"
    using b by (intro unat_of_nat64) simp
  have "unat (tom_size t) = log_size (pre @ e # suf)"
    using assms by (rule tom_rep_size)
  then have lt: "(of_nat (log_size pre) :: uint64) < tom_size t"
    using u b(1,3) by (simp add: word_less_nat_alt)
  have "file_read (log_size pre) 32 t = (Some (header_bytes (entry_header e)), t)"
    using assms b by (simp add: file_read_def tom_rep_def entry_bytes_split)
  with lt u show ?thesis by (simp add: tom_record_def sizeof_Header_def)
qed

lemma tom_record_end:
  assumes "tom_rep t es" shows "tom_record (of_nat (log_size es)) t = (Inr default_record, t)"
  using assms by (simp add: tom_record_def tom_rep_def)

definition rec_at :: "tom \<Rightarrow> entry list \<Rightarrow> entry \<Rightarrow> srecord" where
  "rec_at t pre e = \<lparr>tomId = tom_id t, offset = of_nat (log_size pre), rheader = entry_header e\<rparr>"

lemma data_offset_at:
  assumes "tom_rep t (pre @ e # suf)"
  shows "data_offset (rec_at t pre e) = log_size pre + 32"
proof -
  have "unat (of_nat (log_size pre + 32) :: uint64) = log_size pre + 32"
    using tom_rep_bounds [OF assms] by (intro unat_of_nat64) simp
  then show ?thesis by (simp add: data_offset_def rec_at_def sizeof_Header_def add.commute)
qed

lemma data_size_at:
  assumes "tom_rep t (pre @ e # suf)"
  shows "unat (dataSize (entry_header e)) = length (e_data e)" "dataSize (entry_header e) \<noteq> 0"
proof -
  show 1: "unat (dataSize (entry_header e)) = length (e_data e)"
    using tom_rep_bounds(5) [OF assms] by (simp add: entry_header_def unat_of_nat64)
  show "dataSize (entry_header e) \<noteq> 0"
    using 1 tom_rep_bounds(4) [OF assms] by (metis length_0_conv unat_0)
qed

lemma tom_data_at:
  assumes "tom_rep t (pre @ e # suf)"
  shows "tom_data (rec_at t pre e) t = (Inr (e_data e), t)"
proof -
  note b = tom_rep_bounds [OF assms] and d = data_size_at [OF assms]
  have "file_read (log_size pre + 32) (length (e_data e)) t = (Some (e_data e), t)"
    using assms b by (simp add: file_read_def tom_rep_def entry_bytes_def entry_size_def sizeof_Header_def)
  with d b(5) data_offset_at [OF assms] show ?thesis
    by (simp add: tom_data_def) (simp add: rec_at_def)
qed

lemma tom_dataPrefix_at:
  assumes "tom_rep t (pre @ e # suf)"
  shows "tom_dataPrefix (rec_at t pre e) len t = (take len (e_data e), t)"
proof -
  note b = tom_rep_bounds [OF assms] and d = data_size_at [OF assms]
  let ?n = "min len (length (e_data e))"
  have "file_read (log_size pre + 32) ?n t = (Some (take len (e_data e)), t)"
    using assms b by (simp add: file_read_def tom_rep_def entry_bytes_def entry_size_def sizeof_Header_def
        min_def)
  with d b(4) data_offset_at [OF assms] show ?thesis
    by (cases "len = 0") (auto simp: tom_dataPrefix_def Let_def rec_at_def min_def split: if_splits)
qed

section \<open>The operations on the log\<close>

lemma write_at_end: "write_at f (length f) bs = f @ bs"
  by (simp add: write_at_def)

lemma write_at_inside:
  "write_at (a @ x @ b) (length a) y = a @ y @ b" if "length x = length y"
  using that by (simp add: write_at_def)

theorem tom_append_rep:
  assumes "tom_rep t es" "dat \<noteq> []" "log_size es + 32 + length dat < 2 ^ 63"
    and e: "e = \<lparr>e_uuid = u, e_data = dat, e_deleted = 0\<rparr>"
  shows "\<exists>t'. tom_append True u dat t = (Inr (rec_at t es e), t') \<and> tom_rep t' (es @ [e]) \<and> tom_id t' = tom_id t"
proof -
  have u: "unat (tom_size t) = log_size es"
    using assms by (simp add: tom_rep_def unat_of_nat64)
  have "tom_file t = log_bytes es" using assms by (simp add: tom_rep_def)
  then have w: "write_at (tom_file t) (log_size es) (entry_bytes e) = log_bytes (es @ [e])"
    using write_at_end [of "log_bytes es" "entry_bytes e"] by simp
  define t' where "t' = t\<lparr>tom_size := tom_size t + of_nat (sizeof_Header + length dat),
      tom_file := log_bytes (es @ [e])\<rparr>"
  have "tom_append True u dat t = (Inr (rec_at t es e), t')"
    using assms u w
    by (simp add: tom_append_def Let_def file_write_def tom_rep_def rec_at_def entry_header_def
        entry_bytes_def t'_def)
  moreover have "tom_rep t' (es @ [e])"
    using assms by (auto simp: tom_rep_def t'_def entry_size_def sizeof_Header_def)
  ultimately show ?thesis by (auto simp: t'_def)
qed

lemma entry_bytes_flag:
  "entry_bytes e = (uuid_bytes (e_uuid e) @ bytes64 (of_nat (length (e_data e)))) @ [e_deleted e]
     @ replicate 7 0 @ e_data e"
  by (simp add: entry_bytes_def header_bytes_def entry_header_def)

theorem tom_remove_rep:
  assumes "tom_rep t (pre @ e # suf)" "offset r = of_nat (log_size pre)" "deleted (rheader r) = 0"
  shows "\<exists>t'. tom_remove True r t = (True, r\<lparr>rheader := (rheader r)\<lparr>deleted := 1\<rparr>\<rparr>, t') \<and>
     tom_rep t' (pre @ e\<lparr>e_deleted := 1\<rparr> # suf) \<and> tom_id t' = tom_id t"
proof -
  let ?e = "e\<lparr>e_deleted := 1\<rparr>"
  let ?a = "log_bytes pre @ uuid_bytes (e_uuid e) @ bytes64 (of_nat (length (e_data e)))"
  have "unat (of_nat (log_size pre + 24) :: uint64) = log_size pre + 24"
    using tom_rep_bounds [OF assms(1)] by (intro unat_of_nat64) simp
  then have off: "unat (offset r + 24) = log_size pre + 24"
    using assms(2) by (simp add: add.commute)
  have "tom_file t = log_bytes pre @ entry_bytes e @ log_bytes suf"
    using assms(1) by (simp add: tom_rep_def)
  then have f: "tom_file t = ?a @ [e_deleted e] @ replicate 7 0 @ e_data e @ log_bytes suf"
    by (simp add: entry_bytes_flag)
  have "write_at (tom_file t) (log_size pre + 24) [1] = ?a @ [1] @ replicate 7 0 @ e_data e @ log_bytes suf"
    using write_at_inside [of "[e_deleted e]" "[1]" ?a "replicate 7 0 @ e_data e @ log_bytes suf"]
    unfolding f by simp
  then have w: "write_at (tom_file t) (log_size pre + 24) [1] = log_bytes (pre @ ?e # suf)"
    by (simp add: entry_bytes_flag)
  have sz: "entry_size ?e = entry_size e" by (simp add: entry_size_def)
  show ?thesis
    using assms off w sz
    by (auto simp: tom_remove_def file_write_def tom_rep_def)
qed

section \<open>Walking a tom\<close>

lemma next_offset:
  assumes "tom_rep t (pre @ e # suf)"
  shows "of_nat (log_size pre) + of_nat sizeof_Header + dataSize (entry_header e) =
     (of_nat (log_size (pre @ [e])) :: uint64)"
  by (simp add: entry_header_def entry_size_def)

theorem tom_walk_rep:
  assumes "tom_rep t (pre @ suf)"
    and "\<And>r e s. (r, e) \<in> set (log_recs (tom_id t) (log_size pre) suf) \<Longrightarrow> f r t s = (t, g r e s)"
  shows "tom_walk f (of_nat (log_size pre)) t s =
     Some (Inr (fold (\<lambda>(r, e). g r e) (log_recs (tom_id t) (log_size pre) suf) s), t)"
  using assms
proof (induction suf arbitrary: pre s)
  case Nil
  then show ?case
    by (subst tom_walk.simps) (simp add: tom_record_end default_record_def)
next
  case (Cons e suf)
  have rep: "tom_rep t (pre @ e # suf)" using Cons.prems(1) .
  let ?r = "\<lparr>tomId = tom_id t, offset = of_nat (log_size pre), rheader = entry_header e\<rparr>"
  have f: "f ?r t s = (t, g ?r e s)" using Cons.prems(2) by simp
  have id: "tom_id t \<noteq> max32" using rep by (simp add: tom_rep_def)
  have rec: "tom_walk f (of_nat (log_size (pre @ [e]))) t (g ?r e s) =
      Some (Inr (fold (\<lambda>(r, e). g r e) (log_recs (tom_id t) (log_size (pre @ [e])) suf) (g ?r e s)), t)"
    using Cons.prems by (intro Cons.IH) auto
  have "tom_walk f (of_nat (log_size pre)) t s = tom_walk f (of_nat (log_size (pre @ [e]))) t (g ?r e s)"
    by (subst tom_walk.simps)
       (simp add: tom_record_at [OF rep] id data_size_at(2) [OF rep] f next_offset [OF rep] del: log_simps)
  with rec show ?case by simp
qed

definition live :: "(srecord \<times> entry) list \<Rightarrow> (srecord \<times> byte list) list" where
  "live rs = map (\<lambda>(r, e). (r, e_data e)) (filter (\<lambda>(r, e). e_deleted e = 0) rs)"

lemma live_simps [simp]: "live [] = []" "live (rs @ qs) = live rs @ live qs"
  "live ((r, e) # rs) = (if e_deleted e = 0 then (r, e_data e) # live rs else live rs)"
  by (simp_all add: live_def)

lemma log_recs_mem:
  "(r, e) \<in> set (log_recs i (log_size pre) suf) \<Longrightarrow>
     \<exists>a b. suf = a @ e # b \<and> r = \<lparr>tomId = i, offset = of_nat (log_size (pre @ a)), rheader = entry_header e\<rparr>"
proof (induction suf arbitrary: pre)
  case Nil
  then show ?case by simp
next
  case (Cons x suf)
  show ?case
  proof (cases "(r, e) \<in> set (log_recs i (log_size (pre @ [x])) suf)")
    case True
    with Cons.IH [of "pre @ [x]"] obtain a b where
      "suf = a @ e # b" "r = \<lparr>tomId = i, offset = of_nat (log_size ((pre @ [x]) @ a)), rheader = entry_header e\<rparr>"
      by blast
    then show ?thesis by (intro exI [of _ "x # a"] exI [of _ b]) simp
  next
    case False
    with Cons.prems show ?thesis by (intro exI [of _ "[]"] exI [of _ suf]) auto
  qed
qed

lemma scan_body_at:
  assumes "tom_rep t (pre @ e # suf)" "r = rec_at t pre e"
  shows "scan_body r t res = (t, if e_deleted e = 0 then res @ [(r, e_data e)] else res)"
  using tom_data_at [OF assms(1)] assms(2)
  by (auto simp: scan_body_def rec_at_def entry_header_def)

text \<open>\<open>scan\<close> on a well-formed tom ends, and returns the live entries in the order they were appended.\<close>

lemma tom_scan_rep:
  assumes "tom_rep t es"
  shows "tom_walk scan_body 0 t res = Some (Inr (res @ live (log_recs (tom_id t) 0 es)), t)"
proof -
  have "scan_body r t s = (t, if e_deleted e = 0 then s @ [(r, e_data e)] else s)"
    if "(r, e) \<in> set (log_recs (tom_id t) (log_size []) es)" for r e s
  proof -
    from log_recs_mem [OF that] obtain a b where "es = a @ e # b" "r = rec_at t a e"
      by (auto simp: rec_at_def)
    with assms show ?thesis by (simp add: scan_body_at)
  qed
  then have "tom_walk scan_body (of_nat (log_size [])) t res =
      Some (Inr (fold (\<lambda>(r, e). \<lambda>s. if e_deleted e = 0 then s @ [(r, e_data e)] else s)
        (log_recs (tom_id t) (log_size []) es) res), t)"
    using assms by (intro tom_walk_rep) auto
  moreover have "fold (\<lambda>(r, e). \<lambda>s. if e_deleted e = 0 then s @ [(r, e_data e)] else s) rs res = res @ live rs"
    for rs by (induction rs arbitrary: res) auto
  ultimately show ?thesis by simp
qed

section \<open>The whole storage\<close>

type_synonym logs = "(uint32 \<times> entry list) list"

definition storage_rep :: "storage \<Rightarrow> logs \<Rightarrow> bool" where
  "storage_rep st L \<longleftrightarrow> distinct (al_keys L) \<and>
     list_all2 (\<lambda>(i, t) (j, es). i = j \<and> tom_id t = i \<and> tom_rep t es) (toms st) L"

definition all_recs :: "logs \<Rightarrow> (srecord \<times> entry) list" where
  "all_recs L = concat (map (\<lambda>(i, es). log_recs i 0 es) L)"

lemma all_recs_simps [simp]: "all_recs [] = []" "all_recs ((i, es) # L) = log_recs i 0 es @ all_recs L"
  "all_recs (L @ M) = all_recs L @ all_recs M"
  by (simp_all add: all_recs_def)

lemma storage_rep_keys: "storage_rep st L \<Longrightarrow> al_keys (toms st) = al_keys L"
proof -
  have "list_all2 (\<lambda>(i, t) (j, es). i = j \<and> tom_id t = i \<and> tom_rep t es) ts M \<Longrightarrow> al_keys ts = al_keys M"
    for ts M by (induction rule: list_all2_induct) auto
  then show "storage_rep st L \<Longrightarrow> ?thesis" by (auto simp: storage_rep_def)
qed

lemma storage_rep_tom:
  assumes "storage_rep st L" "map_of (toms st) i = Some t"
  obtains A es B A' B' where "L = A @ (i, es) # B" "toms st = A' @ (i, t) # B'" "tom_rep t es" "tom_id t = i"
    "\<And>t' es'. tom_rep t' es' \<Longrightarrow> tom_id t' = i \<Longrightarrow> storage_rep (set_tom i t' st) (A @ (i, es') # B)"
    "set_tom i t st = st"
proof -
  let ?R = "\<lambda>(i, t) (j, es). i = j \<and> tom_id t = i \<and> tom_rep t es"
  have dist: "distinct (al_keys (toms st))"
    using assms(1) storage_rep_keys [OF assms(1)] by (simp add: storage_rep_def)
  obtain A' B' where
    ts: "toms st = A' @ (i, t) # B'" and upd: "\<And>w. al_update i w (toms st) = A' @ (i, w) # B'"
    by (rule al_split [OF assms(2) dist]) blast
  have "list_all2 ?R (A' @ (i, t) # B') L" using assms(1) ts by (simp add: storage_rep_def)
  then obtain A X where L: "L = A @ X" "list_all2 ?R A' A" "list_all2 ?R ((i, t) # B') X"
    by (auto simp: list_all2_append1)
  then obtain x B where X: "X = x # B" "?R (i, t) x" "list_all2 ?R B' B" by (cases X) auto
  obtain es where x: "x = (i, es)" "tom_id t = i" "tom_rep t es" using X(2) by (cases x) auto
  have st: "set_tom i t st = st" using upd ts by (cases st) (simp add: set_tom_def)
  show ?thesis
  proof (rule that [of A es B A' B'])
    show "L = A @ (i, es) # B" using L X x by simp
    show "storage_rep (set_tom i t' st) (A @ (i, es') # B)" if "tom_rep t' es'" "tom_id t' = i" for t' es'
      using assms(1) L X x upd that
      by (auto simp: storage_rep_def set_tom_def intro: list_all2_appendI)
  qed (use ts x st in auto)
qed

lemma walk_toms_rep:
  assumes "list_all2 (\<lambda>(i, t) (j, es). i = j \<and> tom_id t = i \<and> tom_rep t es) ts L"
    and step: "\<And>t es s. tom_rep t es \<Longrightarrow>
        tom_walk f 0 t s = Some (Inr (fold (\<lambda>(r, e). g r e) (log_recs (tom_id t) 0 es) s), t)"
  shows "walk_toms f ts s = Some (Inr (fold (\<lambda>(r, e). g r e) (all_recs L) s), ts)"
  using assms(1)
  by (induction arbitrary: s rule: list_all2_induct) (auto simp: step)

lemma fold_scan: "fold (\<lambda>(r, e). \<lambda>s. if e_deleted e = 0 then s @ [(r, e_data e)] else s) rs res = res @ live rs"
  by (induction rs arbitrary: res) auto

text \<open>\<open>Storage::scan\<close> ends and returns the live records of every tom, in file order.\<close>

theorem storage_scan_rep:
  assumes "storage_rep st L"
  shows "storage_scan st = Some (Inr (live (all_recs L)), st)"
proof -
  have "walk_toms scan_body (toms st) [] =
      Some (Inr (fold (\<lambda>(r, e). \<lambda>s. if e_deleted e = 0 then s @ [(r, e_data e)] else s) (all_recs L) []), toms st)"
    by (rule walk_toms_rep) (use assms in \<open>auto simp: storage_rep_def tom_scan_rep fold_scan\<close>)
  then show ?thesis by (simp add: storage_scan_def fold_scan)
qed

definition index_step :: "srecord \<Rightarrow> entry \<Rightarrow> (uuid \<rightharpoonup> srecord) \<Rightarrow> (uuid \<rightharpoonup> srecord)" where
  "index_step r e ix = (if e_deleted e = 0 then ix(e_uuid e \<mapsto> r) else ix)"

theorem rebuildIndex_rep:
  assumes "storage_rep st L"
  shows "rebuildIndex st = Some (Inr (st\<lparr>index := fold (\<lambda>(r, e). index_step r e) (all_recs L) (index st)\<rparr>))"
proof -
  have body: "index_body r t s = (t, index_step r e s)"
    if "(r, e) \<in> set (log_recs (tom_id t) (log_size []) es)" for r e s t es
    using log_recs_mem [OF that] by (auto simp: index_body_def index_step_def entry_header_def)
  have "walk_toms index_body (toms st) (index st) =
      Some (Inr (fold (\<lambda>(r, e). index_step r e) (all_recs L) (index st)), toms st)"
  proof (rule walk_toms_rep)
    show "list_all2 (\<lambda>(i, t) (j, es). i = j \<and> tom_id t = i \<and> tom_rep t es) (toms st) L"
      using assms by (simp add: storage_rep_def)
    show "tom_walk index_body 0 t s = Some (Inr (fold (\<lambda>(r, e). index_step r e) (log_recs (tom_id t) 0 es) s), t)"
      if "tom_rep t es" for t es s
      using tom_walk_rep [of t "[]" es index_body "\<lambda>r e. index_step r e" s] that body by simp
  qed
  then show ?thesis by (simp add: rebuildIndex_def)
qed

text \<open>
  The index never resolves a deleted record, and resolves an id to the last of the live records with
  that id (a topic appends one message under one id for every consumer).
\<close>

definition live_uuids :: "logs \<Rightarrow> uuid list" where
  "live_uuids L = map (\<lambda>(r, e). e_uuid e) (filter (\<lambda>(r, e). e_deleted e = 0) (all_recs L))"

definition index_sound :: "storage \<Rightarrow> logs \<Rightarrow> bool" where
  "index_sound st L \<longleftrightarrow> (\<forall>u r. index st u = Some r \<longrightarrow>
     (\<exists>e. (r, e) \<in> set (all_recs L) \<and> e_deleted e = 0 \<and> e_uuid e = u))"

lemma fold_index_sound:
  "fold (\<lambda>(r, e). index_step r e) rs ix u = Some r \<Longrightarrow>
     ix u = Some r \<or> (\<exists>e. (r, e) \<in> set rs \<and> e_deleted e = 0 \<and> e_uuid e = u)"
proof (induction rs arbitrary: ix)
  case Nil
  then show ?case by simp
next
  case (Cons p rs)
  obtain q e where p: "p = (q, e)" by fastforce
  from Cons.prems p have "fold (\<lambda>(r, e). index_step r e) rs (index_step q e ix) u = Some r" by simp
  from Cons.IH [OF this] p show ?case
    by (auto simp: index_step_def split: if_splits)
qed

definition last_record :: "uuid \<Rightarrow> scan_result \<Rightarrow> srecord" where
  "last_record u rs = (let ys = filter (\<lambda>(r, d). huuid (rheader r) = u) rs in if ys = [] then default_record else fst (last ys))"

lemma last_record_simps [simp]: "last_record u [] = default_record"
  "last_record u (rs @ [(r, d)]) = (if huuid (rheader r) = u then r else last_record u rs)"
  by (simp_all add: last_record_def Let_def)

lemma last_record_unique:
  assumes "distinct (map (\<lambda>(r, d). huuid (rheader r)) rs)" "(r, d) \<in> set rs"
  shows "last_record (huuid (rheader r)) rs = r"
  using assms by (induction rs rule: rev_induct) (auto simp: image_iff split: prod.splits)

lemma fold_index_last:
  assumes "\<forall>(r, e) \<in> set rs. huuid (rheader r) = e_uuid e"
  shows "(case fold (\<lambda>(r, e). index_step r e) rs Map.empty u of None \<Rightarrow> default_record | Some r \<Rightarrow> r) = last_record u (live rs)"
  using assms by (induction rs rule: rev_induct) (auto simp: index_step_def)

section \<open>Append and remove on the whole storage\<close>

lemma log_recs_append: "log_recs i pos (a @ b) = log_recs i pos a @ log_recs i (pos + log_size a) b"
  by (induction a arbitrary: pos) (simp_all add: add.assoc)

lemma log_recs_split:
  "log_recs i pos es = X @ p # Y \<Longrightarrow>
     \<exists>a e b. es = a @ e # b \<and> X = log_recs i pos a \<and>
       p = (\<lparr>tomId = i, offset = of_nat (pos + log_size a), rheader = entry_header e\<rparr>, e) \<and>
       Y = log_recs i (pos + log_size a + entry_size e) b"
proof (induction es arbitrary: pos X)
  case Nil
  then show ?case by simp
next
  case (Cons x es)
  show ?case
  proof (cases X)
    case Nil
    with Cons.prems show ?thesis by (intro exI [of _ "[]"] exI [of _ x] exI [of _ es]) auto
  next
    case (Cons y Z)
    with Cons.prems have "log_recs i (pos + entry_size x) es = Z @ p # Y" by simp
    from Cons.IH [OF this] obtain a e b where
      "es = a @ e # b" "Z = log_recs i (pos + entry_size x) a"
      "p = (\<lparr>tomId = i, offset = of_nat (pos + entry_size x + log_size a), rheader = entry_header e\<rparr>, e)"
      "Y = log_recs i (pos + entry_size x + log_size a + entry_size e) b" by blast
    with Cons Cons.prems show ?thesis
      by (intro exI [of _ "x # a"] exI [of _ e] exI [of _ b]) (auto simp: add.assoc)
  qed
qed

lemma all_recs_split:
  "all_recs L = X @ p # Y \<Longrightarrow>
     \<exists>A i a e b B. L = A @ (i, a @ e # b) # B \<and> X = all_recs A @ log_recs i 0 a \<and>
       p = (\<lparr>tomId = i, offset = of_nat (log_size a), rheader = entry_header e\<rparr>, e) \<and>
       Y = log_recs i (log_size a + entry_size e) b @ all_recs B"
proof (induction L arbitrary: X)
  case Nil
  then show ?case by simp
next
  case (Cons le L)
  obtain j es where le: "le = (j, es)" by fastforce
  from Cons.prems le have eq: "log_recs j 0 es @ all_recs L = X @ p # Y" by simp
  then consider (in_first) Z where "log_recs j 0 es = X @ p # Z" "Y = Z @ all_recs L"
    | (later) Z where "X = log_recs j 0 es @ Z" "all_recs L = Z @ p # Y"
    by (auto simp: append_eq_append_conv2 append_eq_Cons_conv Cons_eq_append_conv)
  then show ?case
  proof cases
    case in_first
    from log_recs_split [OF in_first(1)] obtain a e b where
      "es = a @ e # b" "X = log_recs j 0 a"
      "p = (\<lparr>tomId = j, offset = of_nat (log_size a), rheader = entry_header e\<rparr>, e)"
      "Z = log_recs j (log_size a + entry_size e) b" by auto
    with le in_first(2) show ?thesis
      by (intro exI [of _ "[]"] exI [of _ j] exI [of _ a] exI [of _ e] exI [of _ b] exI [of _ L]) simp
  next
    case later
    from Cons.IH [OF later(2)] obtain A i a e b B where
      "L = A @ (i, a @ e # b) # B" "Z = all_recs A @ log_recs i 0 a"
      "p = (\<lparr>tomId = i, offset = of_nat (log_size a), rheader = entry_header e\<rparr>, e)"
      "Y = log_recs i (log_size a + entry_size e) b @ all_recs B" by blast
    with later(1) le show ?thesis
      by (intro exI [of _ "le # A"] exI [of _ i] exI [of _ a] exI [of _ e] exI [of _ b] exI [of _ B]) simp
  qed
qed

lemma live_split:
  "live R = xs @ (r, d) # ys \<Longrightarrow>
     \<exists>X e Y. R = X @ (r, e) # Y \<and> live X = xs \<and> live Y = ys \<and> e_data e = d \<and> e_deleted e = 0"
proof (induction R arbitrary: xs)
  case Nil
  then show ?case by simp
next
  case (Cons p R)
  obtain q e where p: "p = (q, e)" by fastforce
  show ?case
  proof (cases "e_deleted e = 0 \<and> xs = []")
    case True
    with Cons.prems p show ?thesis
      by (intro exI [of _ "[]"] exI [of _ e] exI [of _ R]) auto
  next
    case False
    then obtain zs where zs: "live R = zs @ (r, d) # ys" "xs = (if e_deleted e = 0 then (q, e_data e) # zs else zs)"
      using Cons.prems p by (cases xs) (auto split: if_splits)
    from Cons.IH [OF zs(1)] obtain X e' Y where
      "R = X @ (r, e') # Y" "live X = zs" "live Y = ys" "e_data e' = d" "e_deleted e' = 0" by blast
    with p zs(2) show ?thesis
      by (intro exI [of _ "(q, e) # X"] exI [of _ e'] exI [of _ Y]) auto
  qed
qed

definition cur_ok :: "storage \<Rightarrow> bool" where
  "cur_ok st \<longleftrightarrow> currentTomId st \<in> set (al_keys (toms st)) \<or>
     (currentTomId st + 1 \<notin> set (al_keys (toms st)) \<and> currentTomId st + 1 \<noteq> max32)"

definition fits :: "byte list \<Rightarrow> storage \<Rightarrow> bool" where
  "fits dat st \<longleftrightarrow> (\<forall>(i, t) \<in> set (toms st). unat (tom_size t) + 32 + length dat < 2 ^ 63) \<and>
     32 + length dat < 2 ^ 63"

lemma tom_rep_open: "i \<noteq> max32 \<Longrightarrow> tom_rep (tom_open i []) []"
  by (simp add: tom_rep_def tom_open_def)

lemma currentTom_rep:
  assumes "storage_rep st L" "cur_ok st" "fits dat st"
  obtains i st1 L1 t where "currentTom st = (Inr i, st1)" "storage_rep st1 L1" "map_of (toms st1) i = Some t"
    "all_recs L1 = all_recs L" "index st1 = index st" "currentTomId st1 = i" "fits dat st1"
    "length (toms st) \<le> 1 \<Longrightarrow> fst (last (toms st1)) = i"
proof (cases "currentTomId st \<in> set (al_keys (toms st))")
  case True
  then obtain t where t: "map_of (toms st) (currentTomId st) = Some t"
    using map_of_eq_None_keys by fastforce
  moreover have "fst (last (toms st)) = currentTomId st" if "length (toms st) \<le> 1"
    using True that by (cases "toms st") (auto simp: al_keys_def)
  ultimately show ?thesis
    using assms True by (intro that [of "currentTomId st" st L t]) (auto simp: currentTom_def Let_def)
next
  case False
  let ?c = "currentTomId st + 1"
  let ?st = "st\<lparr>currentTomId := ?c, toms := toms st @ [(?c, tom_open ?c [])]\<rparr>"
  from False assms(2) have c: "?c \<notin> set (al_keys (toms st))" "?c \<noteq> max32" by (auto simp: cur_ok_def)
  have "storage_rep ?st (L @ [(?c, [])])"
    using assms(1) c storage_rep_keys [OF assms(1)] tom_rep_open [OF c(2)]
    by (auto simp: storage_rep_def tom_open_def intro: list_all2_appendI)
  moreover have "map_of (toms ?st) ?c = Some (tom_open ?c [])"
    using c(1) by (simp add: map_add_def map_of_eq_None_keys [symmetric])
  ultimately show ?thesis
    using False c assms(3)
    by (intro that [of ?c ?st "L @ [(?c, [])]" "tom_open ?c []"])
       (auto simp: currentTom_def Let_def fits_def tom_open_def)
qed

theorem storage_append_rep:
  assumes rep: "storage_rep st L" and cur: "cur_ok st" and fit: "fits dat st" and ne: "dat \<noteq> []"
  obtains r e st' L' X Y where "storage_append True u dat st = (Inr r, st')" "storage_rep st' L'" "cur_ok st'"
    "e = \<lparr>e_uuid = u, e_data = dat, e_deleted = 0\<rparr>" "huuid (rheader r) = u" "index st' = (index st)(u \<mapsto> r)"
    "all_recs L = X @ Y" "all_recs L' = X @ (r, e) # Y" "length (toms st) \<le> 1 \<Longrightarrow> Y = []"
proof -
  from currentTom_rep [OF rep cur fit] obtain i st1 L1 t where
    c: "currentTom st = (Inr i, st1)" "storage_rep st1 L1" "map_of (toms st1) i = Some t"
      "all_recs L1 = all_recs L" "index st1 = index st" "currentTomId st1 = i" "fits dat st1"
    and last: "length (toms st) \<le> 1 \<Longrightarrow> fst (last (toms st1)) = i" by metis
  from storage_rep_tom [OF c(2,3)] obtain A es B A' B' where
    L1: "L1 = A @ (i, es) # B" and ts: "toms st1 = A' @ (i, t) # B'" and t: "tom_rep t es" "tom_id t = i"
    and upd: "\<And>t' es'. tom_rep t' es' \<Longrightarrow> tom_id t' = i \<Longrightarrow> storage_rep (set_tom i t' st1) (A @ (i, es') # B)"
    by metis
  let ?e = "\<lparr>e_uuid = u, e_data = dat, e_deleted = 0\<rparr>"
  have "log_size es + 32 + length dat < 2 ^ 63"
    using c(7) ts tom_rep_size [OF t(1)] by (auto simp: fits_def)
  from tom_append_rep [OF t(1) ne this refl] obtain t' where
    t': "tom_append True u dat t = (Inr (rec_at t es ?e), t')" "tom_rep t' (es @ [?e])" "tom_id t' = i"
    using t(2) by metis
  let ?r = "rec_at t es ?e"
  let ?st' = "(set_tom i t' st1)\<lparr>index := (index st)(u \<mapsto> ?r)\<rparr>"
  let ?L' = "A @ (i, es @ [?e]) # B"
  have r: "huuid (rheader ?r) = u" by (simp add: rec_at_def entry_header_def)
  have B: "B = []" if one: "length (toms st) \<le> 1"
  proof -
    have "distinct (al_keys (toms st1))"
      using c(2) storage_rep_keys [OF c(2)] by (simp add: storage_rep_def)
    then have "B' = []"
      using last [OF one] ts by (cases B' rule: rev_cases) (auto split: if_splits)
    then have "length (toms st1) = Suc (length A')" using ts by simp
    with \<open>B' = []\<close> storage_rep_keys [OF c(2)] L1 ts \<open>distinct (al_keys (toms st1))\<close> show ?thesis
      by (cases B rule: rev_cases) auto
  qed
  show ?thesis
  proof (rule that [of ?r ?st' ?L' ?e "all_recs A @ log_recs i 0 es" "all_recs B"])
    show "storage_append True u dat st = (Inr ?r, ?st')"
      using c t'(1) ne r by (simp add: storage_append_def)
    show "storage_rep ?st' ?L'" using upd [OF t'(2,3)] by (simp add: storage_rep_def)
    show "cur_ok ?st'"
      using c(6) ts by (simp add: cur_ok_def set_tom_def)
    show "all_recs ?L' = (all_recs A @ log_recs i 0 es) @ (?r, ?e) # all_recs B"
      by (simp add: log_recs_append rec_at_def t(2))
  qed (use c(4) L1 r B in auto)
qed

lemma storage_rep_at:
  assumes "storage_rep st (A @ (i, es) # B)"
  obtains t where "map_of (toms st) i = Some t" "tom_rep t es" "tom_id t = i"
    "\<And>t' es'. tom_rep t' es' \<Longrightarrow> tom_id t' = i \<Longrightarrow> storage_rep (set_tom i t' st) (A @ (i, es') # B)"
proof -
  have "i \<in> set (al_keys (toms st))" using storage_rep_keys [OF assms] by simp
  then obtain t where t: "map_of (toms st) i = Some t" using map_of_eq_None_keys by fastforce
  from storage_rep_tom [OF assms t] obtain A1 fs B1 where
    eq: "A @ (i, es) # B = A1 @ (i, fs) # B1" and fs: "tom_rep t fs" "tom_id t = i"
    and upd: "\<And>t' es'. tom_rep t' es' \<Longrightarrow> tom_id t' = i \<Longrightarrow> storage_rep (set_tom i t' st) (A1 @ (i, es') # B1)"
    by metis
  have "distinct (al_keys (A @ (i, es) # B))" using assms by (simp add: storage_rep_def)
  with eq have "A1 = A \<and> fs = es \<and> B1 = B"
    by (auto simp: append_eq_append_conv2 append_eq_Cons_conv Cons_eq_append_conv)
  with t fs upd show ?thesis by (intro that) auto
qed

theorem storage_remove_rep:
  assumes rep: "storage_rep st L" and R: "all_recs L = X @ (r, e) # Y"
    and q: "tomId q = tomId r" "offset q = offset r" "deleted (rheader q) = 0"
      "huuid (rheader q) = 0 \<or> huuid (rheader q) = e_uuid e" and nz: "e_uuid e \<noteq> 0"
  obtains q' st' L' r' where "storage_remove True q st = (Inr (True, q'), st')" "storage_rep st' L'"
    "deleted (rheader q') = 1" "index st' = (index st)(e_uuid e := None)"
    "all_recs L' = X @ (r', e\<lparr>e_deleted := 1\<rparr>) # Y" "al_keys (toms st') = al_keys (toms st)"
    "currentTomId st' = currentTomId st"
proof -
  from all_recs_split [OF R] obtain A i a b B where
    L: "L = A @ (i, a @ e # b) # B" and X: "X = all_recs A @ log_recs i 0 a"
    and r: "r = \<lparr>tomId = i, offset = of_nat (log_size a), rheader = entry_header e\<rparr>"
    and Y: "Y = log_recs i (log_size a + entry_size e) b @ all_recs B" by blast
  from storage_rep_at [OF rep [unfolded L]] obtain t where
    t: "map_of (toms st) i = Some t" "tom_rep t (a @ e # b)" "tom_id t = i"
    and upd: "\<And>t' es'. tom_rep t' es' \<Longrightarrow> tom_id t' = i \<Longrightarrow> storage_rep (set_tom i t' st) (A @ (i, es') # B)"
    by metis
  have qi: "tomId q = i" "offset q = of_nat (log_size a)" using q r by auto
  from tom_remove_rep [OF t(2) qi(2) q(3)] obtain t' where
    t': "tom_remove True q t = (True, q\<lparr>rheader := (rheader q)\<lparr>deleted := 1\<rparr>\<rparr>, t')"
      "tom_rep t' (a @ e\<lparr>e_deleted := 1\<rparr> # b)" "tom_id t' = i"
    using t(3) by metis
  have u: "(if huuid (rheader q) = 0
       then (case tom_record (offset q) t of (Inr x, t1) \<Rightarrow> (huuid (rheader x), t1) | (Inl _, t1) \<Rightarrow> (0, t1))
       else (huuid (rheader q), t)) = (e_uuid e, t)"
    using q(4) tom_record_at [OF t(2)] qi(2) by (auto simp: entry_header_def)
  let ?q = "q\<lparr>rheader := (rheader q)\<lparr>deleted := 1\<rparr>\<rparr>"
  let ?st = "(set_tom i t' st)\<lparr>index := (index st)(e_uuid e := None)\<rparr>"
  let ?L = "A @ (i, a @ e\<lparr>e_deleted := 1\<rparr> # b) # B"
  have sz: "entry_size (e\<lparr>e_deleted := 1\<rparr>) = entry_size e" by (simp add: entry_size_def)
  show ?thesis
  proof (rule that)
    show "storage_remove True q st = (Inr (True, ?q), ?st)"
      using t(1) qi(1) u t'(1) nz by (simp add: storage_remove_def)
    show "storage_rep ?st ?L" using upd [OF t'(2,3)] by (simp add: storage_rep_def)
    show "all_recs ?L = X @ (\<lparr>tomId = i, offset = of_nat (log_size a),
        rheader = entry_header (e\<lparr>e_deleted := 1\<rparr>)\<rparr>, e\<lparr>e_deleted := 1\<rparr>) # Y"
      using X Y sz by (simp add: log_recs_append)
    show "al_keys (toms ?st) = al_keys (toms st)"
      using storage_rep_keys [OF \<open>storage_rep ?st ?L\<close>] storage_rep_keys [OF rep] L by simp
  qed (simp_all add: set_tom_def)
qed

section \<open>The interface of the store\<close>

text \<open>Well-formed storage: the files are logs, the index resolves live records only.\<close>

definition storage_inv :: "storage \<Rightarrow> bool" where
  "storage_inv st \<longleftrightarrow> (\<exists>L. storage_rep st L \<and> index_sound st L \<and> 0 \<notin> set (live_uuids L)) \<and> cur_ok st"

definition same_place :: "srecord \<Rightarrow> srecord \<Rightarrow> bool" where
  "same_place q r \<longleftrightarrow> tomId q = tomId r \<and> offset q = offset r \<and> deleted (rheader q) = 0 \<and>
     (huuid (rheader q) = 0 \<or> huuid (rheader q) = huuid (rheader r))"

locale record_store =
  fixes append :: "uuid \<Rightarrow> byte list \<Rightarrow> 's \<Rightarrow> (storage_error + srecord) \<times> 's"
    and remove :: "srecord \<Rightarrow> 's \<Rightarrow> (storage_error + bool \<times> srecord) \<times> 's"
    and scan :: "'s \<Rightarrow> ((storage_error + scan_result) \<times> 's) option"
    and lookup :: "uuid \<Rightarrow> 's \<Rightarrow> srecord"
    and invar :: "'s \<Rightarrow> bool"
    and room :: "byte list \<Rightarrow> 's \<Rightarrow> bool"
  assumes scan_total: "invar s \<Longrightarrow> \<exists>rs. scan s = Some (Inr rs, s)"
    and append_scan: "invar s \<Longrightarrow> room d s \<Longrightarrow> d \<noteq> [] \<Longrightarrow> u \<noteq> 0 \<Longrightarrow> scan s = Some (Inr rs, s) \<Longrightarrow>
      \<exists>r s' xs ys. append u d s = (Inr r, s') \<and> invar s' \<and> rs = xs @ ys \<and>
        scan s' = Some (Inr (xs @ (r, d) # ys), s') \<and> huuid (rheader r) = u \<and>
        deleted (rheader r) = 0 \<and> lookup u s' = r"
    and remove_scan: "invar s \<Longrightarrow> scan s = Some (Inr (xs @ (r, d) # ys), s) \<Longrightarrow> same_place q r \<Longrightarrow>
      \<exists>q' s'. remove q s = (Inr (True, q'), s') \<and> invar s' \<and> deleted (rheader q') = 1 \<and>
        scan s' = Some (Inr (xs @ ys), s') \<and> lookup (huuid (rheader r)) s' = default_record"
begin

text \<open>What is appended is there until it is removed, and removing it leaves the rest.\<close>

lemma append_remove:
  assumes "invar s" "room d s" "d \<noteq> []" "u \<noteq> 0" "scan s = Some (Inr rs, s)"
  shows "\<exists>r s' q' s''. append u d s = (Inr r, s') \<and> lookup u s' = r \<and> remove r s' = (Inr (True, q'), s'') \<and>
     scan s'' = Some (Inr rs, s'') \<and> lookup u s'' = default_record"
proof -
  from append_scan [OF assms] obtain r s' xs ys where
    a: "append u d s = (Inr r, s')" "invar s'" "rs = xs @ ys" "scan s' = Some (Inr (xs @ (r, d) # ys), s')"
      "huuid (rheader r) = u" "deleted (rheader r) = 0" "lookup u s' = r" by blast
  have "same_place r r" using a(6) by (simp add: same_place_def)
  from remove_scan [OF a(2,4) this] a show ?thesis by fastforce
qed

end

lemma live_uuids_iff: "u \<in> set (live_uuids L) \<longleftrightarrow> (\<exists>r e. (r, e) \<in> set (all_recs L) \<and> e_deleted e = 0 \<and> e_uuid e = u)"
  by (force simp: live_uuids_def image_iff)

lemma all_recs_header: "(r, e) \<in> set (all_recs L) \<Longrightarrow> rheader r = entry_header e"
proof -
  assume "(r, e) \<in> set (all_recs L)"
  then obtain i es where "(r, e) \<in> set (log_recs i (log_size []) es)" by (auto simp: all_recs_def)
  from log_recs_mem [OF this] show ?thesis by auto
qed

lemma storage_append_store:
  assumes "storage_inv st" "fits d st" "d \<noteq> []" "u \<noteq> 0" "storage_scan st = Some (Inr rs, st)"
  shows "\<exists>r st' xs ys. storage_append True u d st = (Inr r, st') \<and> storage_inv st' \<and> rs = xs @ ys \<and>
     storage_scan st' = Some (Inr (xs @ (r, d) # ys), st') \<and> huuid (rheader r) = u \<and>
     deleted (rheader r) = 0 \<and> storage_record u st' = r"
proof -
  from assms(1) obtain L where L: "storage_rep st L" "index_sound st L" "0 \<notin> set (live_uuids L)" "cur_ok st"
    by (auto simp: storage_inv_def)
  from storage_append_rep [OF L(1,4) assms(2,3), of u] obtain r e st' L' X Y where
    a: "storage_append True u d st = (Inr r, st')" "storage_rep st' L'" "cur_ok st'"
      "e = \<lparr>e_uuid = u, e_data = d, e_deleted = 0\<rparr>" "huuid (rheader r) = u" "index st' = (index st)(u \<mapsto> r)"
      "all_recs L = X @ Y" "all_recs L' = X @ (r, e) # Y" by metis
  have sound: "index_sound st' L'"
    using L(2) a(4,6,7,8) by (auto simp: index_sound_def)
  have "0 \<notin> set (live_uuids L')"
    using L(3) a(4,7,8) assms(4) by (auto simp: live_uuids_iff)
  with sound a(2,3) have "storage_inv st'" by (auto simp: storage_inv_def)
  moreover have "rs = live X @ live Y" "storage_scan st' = Some (Inr (live X @ (r, d) # live Y), st')"
    using storage_scan_rep [OF L(1)] storage_scan_rep [OF a(2)] assms(5) a(4,7,8) by auto
  moreover have "deleted (rheader r) = 0"
    using all_recs_header [of r e L'] a(4,8) by (simp add: entry_header_def)
  ultimately show ?thesis using a(1,5,6) by (auto simp: storage_record_def)
qed

lemma storage_remove_store:
  assumes "storage_inv st" "storage_scan st = Some (Inr (xs @ (r, d) # ys), st)" "same_place q r"
  shows "\<exists>q' st'. storage_remove True q st = (Inr (True, q'), st') \<and> storage_inv st' \<and>
     deleted (rheader q') = 1 \<and> storage_scan st' = Some (Inr (xs @ ys), st') \<and>
     storage_record (huuid (rheader r)) st' = default_record"
proof -
  from assms(1) obtain L where L: "storage_rep st L" "index_sound st L" "0 \<notin> set (live_uuids L)" "cur_ok st"
    by (auto simp: storage_inv_def)
  have "live (all_recs L) = xs @ (r, d) # ys" using storage_scan_rep [OF L(1)] assms(2) by simp
  from live_split [OF this] obtain X e Y where
    R: "all_recs L = X @ (r, e) # Y" and live: "live X = xs" "live Y = ys" and e: "e_deleted e = 0" by blast
  have nz: "e_uuid e \<noteq> 0" using L(3) R e by (auto simp: live_uuids_iff)
  have u: "huuid (rheader r) = e_uuid e"
    using all_recs_header [of r e L] R by (simp add: entry_header_def)
  from assms(3) u have q: "tomId q = tomId r" "offset q = offset r" "deleted (rheader q) = 0"
      "huuid (rheader q) = 0 \<or> huuid (rheader q) = e_uuid e"
    by (auto simp: same_place_def)
  from storage_remove_rep [OF L(1) R q nz] obtain q' st' L' r' where
    s: "storage_remove True q st = (Inr (True, q'), st')" "storage_rep st' L'" "deleted (rheader q') = 1"
      "index st' = (index st)(e_uuid e := None)" "all_recs L' = X @ (r', e\<lparr>e_deleted := 1\<rparr>) # Y"
      "al_keys (toms st') = al_keys (toms st)" "currentTomId st' = currentTomId st" by metis
  have "index_sound st' L'"
    unfolding index_sound_def
  proof (intro allI impI)
    fix v p assume "index st' v = Some p"
    with s(4) have v: "v \<noteq> e_uuid e" "index st v = Some p" by (auto split: if_splits)
    with L(2) obtain f where "(p, f) \<in> set (all_recs L)" "e_deleted f = 0" "e_uuid f = v"
      by (auto simp: index_sound_def)
    with R s(5) v(1) show "\<exists>f. (p, f) \<in> set (all_recs L') \<and> e_deleted f = 0 \<and> e_uuid f = v" by auto
  qed
  moreover have "0 \<notin> set (live_uuids L')" using L(3) R s(5) by (auto simp: live_uuids_iff)
  moreover have "cur_ok st'" using L(4) s(6,7) by (simp add: cur_ok_def)
  ultimately have "storage_inv st'" using s(2) by (auto simp: storage_inv_def)
  moreover have "storage_scan st' = Some (Inr (xs @ ys), st')"
    using storage_scan_rep [OF s(2)] s(5) live by simp
  ultimately show ?thesis using s(1,3,4) u by (auto simp: storage_record_def)
qed

interpretation store: record_store "storage_append True" "storage_remove True" storage_scan storage_record
  storage_inv fits
proof unfold_locales
  show "\<exists>rs. storage_scan s = Some (Inr rs, s)" if "storage_inv s" for s
    using that storage_scan_rep by (auto simp: storage_inv_def)
qed (use storage_append_store storage_remove_store in blast)+

section \<open>Reopening the files\<close>

text \<open>The files as the next process finds them.\<close>

definition disk :: "storage \<Rightarrow> (uint32 \<times> byte list) list" where
  "disk st = map (\<lambda>(i, t). (i, tom_file t)) (toms st)"

lemma open_toms_eq:
  "distinct (al_keys (toms st) @ al_keys fs) \<Longrightarrow>
     open_toms fs st = st\<lparr>toms := toms st @ map (\<lambda>(i, f). (i, tom_open i f)) fs,
       currentTomId := fold max (al_keys fs) (currentTomId st)\<rparr>"
proof (induction fs arbitrary: st)
  case Nil
  then show ?case by simp
next
  case (Cons p fs)
  obtain i f where p: "p = (i, f)" by fastforce
  have "(if i > currentTomId st then i else currentTomId st) = max i (currentTomId st)"
    by (auto simp: max_def)
  with p Cons.prems Cons.IH [of "st\<lparr>toms := toms st @ [(i, tom_open i f)], currentTomId := max i (currentTomId st)\<rparr>"]
  show ?case by auto
qed

lemma fold_max_mem: "fold max (ks :: 'a::linorder list) c \<in> insert c (set ks)"
proof (induction ks arbitrary: c)
  case (Cons k ks)
  from Cons [of "max k c"] show ?case by (auto simp: max_def split: if_splits)
qed simp

lemma fold_max_zero: "ks \<noteq> [] \<Longrightarrow> fold max ks (0 :: 'a::len word) \<in> set ks"
proof (cases ks)
  case (Cons k ks')
  have "max k 0 = k" by (simp add: max_def)
  with Cons fold_max_mem [of ks' k] show ?thesis by auto
qed simp

lemma tom_rep_reopen: "tom_rep t es \<Longrightarrow> tom_id t = i \<Longrightarrow> tom_rep (tom_open i (tom_file t)) es"
  by (simp add: tom_rep_def tom_open_def)

definition reopen_logs :: "logs \<Rightarrow> (uint32 \<times> byte list) list \<Rightarrow> logs" where
  "reopen_logs L fs = map (\<lambda>(i, f). (i, the (map_of L i))) fs"

lemma storage_rep_mem:
  assumes "storage_rep st L" "(i, f) \<in> set (disk st)"
  shows "tom_rep (tom_open i f) (the (map_of L i))"
proof -
  from assms(2) obtain t where t: "(i, t) \<in> set (toms st)" "f = tom_file t" by (auto simp: disk_def)
  have d: "distinct (al_keys (toms st))" using assms(1) storage_rep_keys [OF assms(1)] by (simp add: storage_rep_def)
  then have "map_of (toms st) i = Some t" using t(1) by (simp add: al_keys_def)
  from storage_rep_tom [OF assms(1) this] obtain A es B where
    L: "L = A @ (i, es) # B" "tom_rep t es" "tom_id t = i" by metis
  have "distinct (al_keys L)" using assms(1) by (simp add: storage_rep_def)
  then have "map_of L i = Some es" using L(1) by (simp add: map_of_eq_Some_iff al_keys_def del: map_of_append)
  with t L tom_rep_reopen show ?thesis by simp
qed

lemma storage_open_rep:
  assumes rep: "storage_rep st L" and fs: "mset fs = mset (disk st)"
  obtains st' where "storage_open fs = Some (Inr st')" "storage_rep st' (reopen_logs L fs)" "cur_ok st'"
    "index st' = fold (\<lambda>(r, e). index_step r e) (all_recs (reopen_logs L fs)) Map.empty"
    "mset (reopen_logs L fs) = mset L"
proof -
  let ?L = "reopen_logs L fs"
  have keys: "al_keys (disk st) = al_keys L"
    using storage_rep_keys [OF rep] by (simp add: disk_def al_keys_def case_prod_unfold comp_def)
  have dL: "distinct (al_keys L)" using rep by (simp add: storage_rep_def)
  have "mset (al_keys fs) = mset (al_keys (disk st))" using fs by (simp add: al_keys_def)
  then have dfs: "distinct (al_keys fs)" using dL keys by (metis mset_eq_imp_distinct_iff)
  have kL: "al_keys ?L = al_keys fs" by (simp add: reopen_logs_def al_keys_def case_prod_unfold)
  define st1 where "st1 = open_toms fs \<lparr>currentTomId = 0, toms = [], index = Map.empty\<rparr>"
  have st1: "st1 = \<lparr>currentTomId = fold max (al_keys fs) 0, toms = map (\<lambda>(i, f). (i, tom_open i f)) fs, index = Map.empty\<rparr>"
    using dfs by (simp add: st1_def open_toms_eq)
  have mem: "tom_rep (tom_open i f) (the (map_of L i))" if "(i, f) \<in> set fs" for i f
    using that fs storage_rep_mem [OF rep] by (metis set_mset_mset)
  have id: "tom_id (tom_open i f) = i" for i f by (simp add: tom_open_def)
  have rep1: "storage_rep st1 ?L"
    using dfs kL mem id by (auto simp: storage_rep_def st1 reopen_logs_def list_all2_map1 list_all2_map2
        intro!: list.rel_refl_strong)
  have cur: "cur_ok st1"
  proof (cases "fs = []")
    case True
    then show ?thesis by (simp add: cur_ok_def st1 max32_def)
  next
    case False
    then have "fold max (al_keys fs) 0 \<in> set (al_keys fs)" by (intro fold_max_zero) (simp add: al_keys_def)
    moreover have "al_keys (toms st1) = al_keys fs" by (simp add: st1 al_keys_def case_prod_unfold)
    ultimately show ?thesis by (simp add: cur_ok_def st1)
  qed
  have "mset ?L = image_mset (\<lambda>(i, f). (i, the (map_of L i))) (mset (disk st))"
    by (simp add: reopen_logs_def flip: fs)
  also have "\<dots> = mset (map (\<lambda>i. (i, the (map_of L i))) (al_keys L))"
    using keys [symmetric] by (simp add: al_keys_def case_prod_unfold multiset.map_comp comp_def)
  also have "map (\<lambda>i. (i, the (map_of L i))) (al_keys L) = L"
    using dL by (auto simp: al_keys_def comp_def intro!: map_idI)
  finally have ms: "mset ?L = mset L" .
  have "storage_open fs = Some (Inr (st1\<lparr>index := fold (\<lambda>(r, e). index_step r e) (all_recs ?L) Map.empty\<rparr>))"
    using rebuildIndex_rep [OF rep1] by (simp add: storage_open_def st1_def [symmetric]) (simp add: st1)
  moreover have "storage_rep (st1\<lparr>index := x\<rparr>) ?L" "cur_ok (st1\<lparr>index := x\<rparr>)" for x
    using rep1 cur by (simp_all add: storage_rep_def cur_ok_def)
  ultimately show thesis using that ms by simp
qed

lemma live_all_recs_mset: "mset L = mset M \<Longrightarrow> mset (live (all_recs L)) = mset (live (all_recs M))"
proof -
  have eq: "mset (all_recs L) = sum_mset (image_mset (\<lambda>(i, es). mset (log_recs i 0 es)) (mset L))" for L
    by (induction L) auto
  assume "mset L = mset M"
  then have "mset (all_recs L) = mset (all_recs M)" by (simp add: eq)
  then show ?thesis by (simp add: live_def)
qed

lemma index_lookup_live:
  assumes "index st = fold (\<lambda>(r, e). index_step r e) (all_recs L) Map.empty"
  shows "storage_record u st = last_record u (live (all_recs L))"
proof -
  have "\<forall>(r, e) \<in> set (all_recs L). huuid (rheader r) = e_uuid e" using all_recs_header by (fastforce simp: entry_header_def)
  from fold_index_last [OF this] assms show ?thesis by (simp add: storage_record_def)
qed

lemma storage_data_live:
  assumes rep: "storage_rep st L" and mem: "(r, d) \<in> set (live (all_recs L))"
  shows "storage_data r st = (Inr d, st)"
proof -
  from mem obtain e where e: "(r, e) \<in> set (all_recs L)" "e_data e = d" by (auto simp: live_def)
  then obtain X Y where "all_recs L = X @ (r, e) # Y" by (meson split_list)
  from all_recs_split [OF this] obtain A i a b B where
    L: "L = A @ (i, a @ e # b) # B" and r: "r = \<lparr>tomId = i, offset = of_nat (log_size a), rheader = entry_header e\<rparr>"
    by auto
  from storage_rep_at [OF rep [unfolded L]] obtain t where t: "map_of (toms st) i = Some t" "tom_rep t (a @ e # b)" "tom_id t = i"
    by metis
  from storage_rep_tom [OF rep t(1)] have "set_tom i t st = st" by metis
  with t r tom_data_at [OF t(2)] e(2) show ?thesis by (simp add: storage_data_def rec_at_def)
qed

lemma reopen_store:
  assumes inv: "storage_inv st" and scan: "storage_scan st = Some (Inr rs, st)"
    and fs: "mset fs = mset (disk st)"
  shows "\<exists>st' rs'. storage_open fs = Some (Inr st') \<and> storage_inv st' \<and> storage_scan st' = Some (Inr rs', st') \<and>
     mset rs' = mset rs \<and> (\<forall>(r, d) \<in> set rs. storage_data r st' = (Inr d, st')) \<and> (\<forall>u. storage_record u st' = last_record u rs')"
proof -
  from inv obtain L where L: "storage_rep st L" "0 \<notin> set (live_uuids L)" by (auto simp: storage_inv_def)
  let ?M = "reopen_logs L fs"
  from storage_open_rep [OF L(1) fs] obtain st' where
    o: "storage_open fs = Some (Inr st')" "storage_rep st' ?M" "cur_ok st'"
      "index st' = fold (\<lambda>(r, e). index_step r e) (all_recs ?M) Map.empty" "mset ?M = mset L" by metis
  have rs: "rs = live (all_recs L)" using storage_scan_rep [OF L(1)] scan by simp
  have ms: "mset (live (all_recs ?M)) = mset rs" using live_all_recs_mset [OF o(5)] rs by simp
  have "set ?M = set L" using o(5) by (metis set_mset_mset)
  then have "set (all_recs ?M) = set (all_recs L)" by (auto simp: all_recs_def)
  then have z: "0 \<notin> set (live_uuids ?M)" using L(2) by (auto simp: live_uuids_iff)
  have "index_sound st' ?M" using fold_index_sound [of "all_recs ?M" Map.empty] o(4) by (fastforce simp: index_sound_def)
  with o z have "storage_inv st'" by (auto simp: storage_inv_def)
  moreover have "set rs = set (live (all_recs ?M))" using ms by (metis set_mset_mset)
  ultimately show ?thesis
    using o(1) storage_scan_rep [OF o(2)] ms index_lookup_live [OF o(4)] storage_data_live [OF o(2)] by auto
qed

section \<open>The budgeted prefix scan\<close>

definition live_prefix :: "nat \<Rightarrow> (srecord \<times> entry) list \<Rightarrow> scan_result" where
  "live_prefix len rs = map (\<lambda>(r, d). (r, take len d)) (live rs)"

lemma live_prefix_simps [simp]: "live_prefix len [] = []" "live_prefix len (rs @ qs) = live_prefix len rs @ live_prefix len qs"
  "live_prefix len ((r, e) # rs) = (if e_deleted e = 0 then (r, take len (e_data e)) # live_prefix len rs else live_prefix len rs)"
  by (simp_all add: live_prefix_def)

lemma length_log_recs [simp]: "length (log_recs i pos es) = length es"
  by (induction es arbitrary: pos) auto

lemma prefix_walk_rep:
  assumes "tom_rep t (pre @ suf)" "scanned \<le> mx" "len > 0"
  shows "prefix_walk len mx (of_nat (log_size pre)) scanned t res =
    Some (Inr (if mx \<le> scanned + length suf
                then (Some (of_nat (log_size (pre @ take (mx - scanned) suf))), mx,
                      res @ live_prefix len (take (mx - scanned) (log_recs (tom_id t) (log_size pre) suf)))
                else (None, scanned + length suf, res @ live_prefix len (log_recs (tom_id t) (log_size pre) suf))), t)"
  using assms
proof (induction suf arbitrary: pre scanned res)
  case Nil
  show ?case
  proof (cases "mx \<le> scanned")
    case True
    with Nil show ?thesis by (simp add: prefix_walk.simps)
  next
    case False
    with Nil tom_record_end [of t pre] show ?thesis
      by (simp add: prefix_walk.simps default_record_def)
  qed
next
  case (Cons e suf)
  show ?case
  proof (cases "mx \<le> scanned")
    case True
    with Cons.prems show ?thesis by (simp add: prefix_walk.simps)
  next
    case False
    let ?r = "\<lparr>tomId = tom_id t, offset = of_nat (log_size pre), rheader = entry_header e\<rparr>"
    have rep: "tom_rep t (pre @ e # suf)" and rep': "tom_rep t ((pre @ [e]) @ suf)" using Cons.prems by simp_all
    have ne: "e_data e \<noteq> []" "tom_id t \<noteq> max32" using rep by (auto simp: tom_rep_def)
    have px: "tom_dataPrefix ?r len t = (take len (e_data e), t)"
      using tom_dataPrefix_at [OF rep] by (simp add: rec_at_def)
    have suc: "mx - scanned = Suc (mx - Suc scanned)" using False by simp
    have "prefix_walk len mx (of_nat (log_size pre)) scanned t res =
        prefix_walk len mx (of_nat (log_size (pre @ [e]))) (Suc scanned) t (res @ live_prefix len [(?r, e)])"
      using False tom_record_at [OF rep] data_size_at(2) [OF rep] px ne Cons.prems(3) next_offset [OF rep]
      by (subst prefix_walk.simps) (auto simp: Let_def entry_header_def add.assoc)
    also have "\<dots> = Some (Inr (if mx \<le> Suc scanned + length suf
                then (Some (of_nat (log_size ((pre @ [e]) @ take (mx - Suc scanned) suf))), mx,
                      (res @ live_prefix len [(?r, e)]) @ live_prefix len (take (mx - Suc scanned) (log_recs (tom_id t) (log_size (pre @ [e])) suf)))
                else (None, Suc scanned + length suf, (res @ live_prefix len [(?r, e)]) @ live_prefix len (log_recs (tom_id t) (log_size (pre @ [e])) suf))), t)"
      using Cons.IH [OF rep', of "Suc scanned"] False Cons.prems(3) by simp
    finally show ?thesis using suc by (simp add: add.assoc)
  qed
qed

text \<open>The records that the cursor has not passed yet, in the order of the scan.\<close>

definition sorted_logs :: "logs \<Rightarrow> logs" where
  "sorted_logs L = sort_key fst L"

definition cursor_at :: "logs \<Rightarrow> sweepCursor \<Rightarrow> (srecord \<times> entry) list \<Rightarrow> bool" where
  "cursor_at L c R \<longleftrightarrow> c = start_cursor \<and> R = all_recs (sorted_logs L) \<or>
     (\<exists>A i pre suf B. sorted_logs L = A @ (i, pre @ suf) # B \<and> c = \<lparr>cur_tomId = i, cur_offset = of_nat (log_size pre)\<rparr> \<and>
        R = log_recs i (log_size pre) suf @ all_recs B)"

lemma set_tom_same: "storage_rep st L \<Longrightarrow> map_of (toms st) i = Some t \<Longrightarrow> set_tom i t st = st"
  by (erule storage_rep_tom)

lemma storage_rep_log:
  assumes "storage_rep st L" "(i, es) \<in> set L"
  obtains t where "map_of (toms st) i = Some t" "tom_rep t es" "tom_id t = i" "set_tom i t st = st"
proof -
  from assms(2) obtain A B where "L = A @ (i, es) # B" by (meson split_list)
  with assms(1) storage_rep_at obtain t where "map_of (toms st) i = Some t" "tom_rep t es" "tom_id t = i" by metis
  with set_tom_same [OF assms(1)] that show thesis by blast
qed

lemma prefix_toms_rep:
  assumes rep: "storage_rep st L" and M: "set M \<subseteq> set L" and "scanned < mx" "len > 0"
  shows "\<exists>c. prefix_toms len mx cur False (al_keys M) scanned st res =
       Some (Inr (res @ live_prefix len (take (mx - scanned) (all_recs M)), c), st) \<and>
     (if length (all_recs M) < mx - scanned then c = start_cursor
      else \<exists>A i pre suf B. M = A @ (i, pre @ suf) # B \<and> c = \<lparr>cur_tomId = i, cur_offset = of_nat (log_size pre)\<rparr> \<and>
        drop (mx - scanned) (all_recs M) = log_recs i (log_size pre) suf @ all_recs B)"
  using M \<open>scanned < mx\<close>
proof (induction M arbitrary: scanned res)
  case Nil
  then show ?case by simp
next
  case (Cons p M)
  obtain i es where p: "p = (i, es)" by fastforce
  with Cons.prems storage_rep_log [OF rep, of i es] obtain t where
    t: "map_of (toms st) i = Some t" "tom_rep t es" "tom_id t = i" "set_tom i t st = st" by auto
  let ?n = "mx - scanned"
  note w = prefix_walk_rep [of t "[]" es scanned mx len res, simplified, OF t(2)]
  show ?case
  proof (cases "mx \<le> scanned + length es")
    case True
    have "log_recs i 0 es = log_recs i 0 (take ?n es @ drop ?n es)" by simp
    also have "\<dots> = log_recs i 0 (take ?n es) @ log_recs i (log_size (take ?n es)) (drop ?n es)"
      by (simp only: log_recs_append) simp
    finally have "drop ?n (log_recs i 0 es) = log_recs i (log_size (take ?n es)) (drop ?n es)"
      using True by simp
    moreover have "prefix_toms len mx cur False (al_keys (p # M)) scanned st res =
        Some (Inr (res @ live_prefix len (take ?n (log_recs i 0 es)), \<lparr>cur_tomId = i, cur_offset = of_nat (log_size (take ?n es))\<rparr>), st)"
      using True w t p Cons.prems \<open>len > 0\<close> by simp
    moreover have "\<exists>A j pre suf B. p # M = A @ (j, pre @ suf) # B \<and>
        \<lparr>cur_tomId = i, cur_offset = of_nat (log_size (take ?n es))\<rparr> = \<lparr>cur_tomId = j, cur_offset = of_nat (log_size pre)\<rparr> \<and>
        drop ?n (all_recs (p # M)) = log_recs j (log_size pre) suf @ all_recs B"
      by (rule exI [of _ "[]"], rule exI [of _ i], rule exI [of _ "take ?n es"], rule exI [of _ "drop ?n es"], rule exI [of _ M])
        (use calculation True p in simp)
    moreover have "take ?n (all_recs (p # M)) = take ?n (log_recs i 0 es)" "\<not> length (all_recs (p # M)) < ?n"
      using True p by simp_all
    ultimately show ?thesis by (simp only: if_False) blast
  next
    case False
    have "prefix_toms len mx cur False (al_keys (p # M)) scanned st res =
        prefix_toms len mx cur False (al_keys M) (scanned + length es) st (res @ live_prefix len (log_recs i 0 es))"
      using False w t p Cons.prems \<open>len > 0\<close> by simp
    moreover from Cons.IH [of "scanned + length es" "res @ live_prefix len (log_recs i 0 es)"] Cons.prems False obtain c where
      c: "prefix_toms len mx cur False (al_keys M) (scanned + length es) st (res @ live_prefix len (log_recs i 0 es)) =
       Some (Inr ((res @ live_prefix len (log_recs i 0 es)) @ live_prefix len (take (mx - (scanned + length es)) (all_recs M)), c), st)"
      "if length (all_recs M) < mx - (scanned + length es) then c = start_cursor
      else \<exists>A i pre suf B. M = A @ (i, pre @ suf) # B \<and> c = \<lparr>cur_tomId = i, cur_offset = of_nat (log_size pre)\<rparr> \<and>
        drop (mx - (scanned + length es)) (all_recs M) = log_recs i (log_size pre) suf @ all_recs B" by auto
    moreover have n: "?n - length es = mx - (scanned + length es)" by simp
    moreover have "\<exists>A j pre suf B. p # M = A @ (j, pre @ suf) # B \<and> c = \<lparr>cur_tomId = j, cur_offset = of_nat (log_size pre)\<rparr> \<and>
        drop ?n (all_recs (p # M)) = log_recs j (log_size pre) suf @ all_recs B"
      if "\<not> length (all_recs (p # M)) < ?n"
    proof -
      from that c(2) p obtain A j pre suf B where "M = A @ (j, pre @ suf) # B"
        "c = \<lparr>cur_tomId = j, cur_offset = of_nat (log_size pre)\<rparr>"
        "drop (mx - (scanned + length es)) (all_recs M) = log_recs j (log_size pre) suf @ all_recs B"
        by (auto split: if_splits)
      with p False n show ?thesis
        by (intro exI [of _ "p # A"] exI [of _ j] exI [of _ pre] exI [of _ suf] exI [of _ B]) simp
    qed
    moreover have "c = start_cursor" if "length (all_recs (p # M)) < ?n"
      using that c(2) p by (auto split: if_splits)
    moreover have "take ?n (all_recs (p # M)) = log_recs i 0 es @ take (mx - (scanned + length es)) (all_recs M)"
      using p False by simp
    ultimately show ?thesis by (intro exI [of _ c]) simp
  qed
qed


lemma prefix_toms_skip:
  "\<forall>i \<in> set ks. i < cur_tomId cur \<Longrightarrow>
     prefix_toms len mx cur True (ks @ is) scanned st res = prefix_toms len mx cur True is scanned st res"
  by (induction ks) auto

lemma al_keys_sorted_logs: "sort (al_keys L) = al_keys (sorted_logs L)"
  by (rule properties_for_sort) (simp_all add: sorted_logs_def al_keys_def)

lemma set_sorted_logs [simp]: "set (sorted_logs L) = set L"
  by (simp add: sorted_logs_def)

lemma sorted_logs_less:
  assumes "distinct (al_keys L)" "sorted_logs L = A @ (i, es) # B"
  shows "\<forall>k \<in> set (al_keys A). k < i"
proof -
  have "sorted (al_keys (sorted_logs L))" by (simp add: al_keys_sorted_logs [symmetric])
  moreover have "distinct (al_keys (sorted_logs L))" using assms(1) by (simp add: al_keys_sorted_logs [symmetric])
  ultimately show ?thesis using assms(2) by (auto simp: sorted_append order_less_le)
qed

text \<open>
  One call looks at the next \<open>mx\<close> records behind the cursor and returns the prefixes of the live
  ones; the cursor then stands before the rest, or at the start once everything was seen.
\<close>

lemma scanPrefix_chunk:
  assumes rep: "storage_rep st L" and cur: "cursor_at L c R" and mx: "0 < mx" "0 < len"
  shows "\<exists>c'. scanPrefix len mx c st = Some (Inr (live_prefix len (take mx R), c'), st) \<and>
     (if length R < mx then c' = start_cursor else cursor_at L c' (drop mx R))"
proof -
  have keys: "sort (al_keys (toms st)) = al_keys (sorted_logs L)"
    using storage_rep_keys [OF rep] al_keys_sorted_logs by simp
  have dL: "distinct (al_keys L)" using rep by (simp add: storage_rep_def)
  note all = prefix_toms_rep [OF rep _ mx(1) mx(2), where res = "[]" and cur = c, simplified]
  consider (start) "c = start_cursor" "R = all_recs (sorted_logs L)"
    | (at) A i pre suf B where "sorted_logs L = A @ (i, pre @ suf) # B"
        "c = \<lparr>cur_tomId = i, cur_offset = of_nat (log_size pre)\<rparr>" "R = log_recs i (log_size pre) suf @ all_recs B"
    using cur by (auto simp: cursor_at_def)
  then show ?thesis
  proof cases
    case start
    have "prefix_toms len mx c True (al_keys (sorted_logs L)) 0 st [] =
        prefix_toms len mx c False (al_keys (sorted_logs L)) 0 st []"
    proof (cases "sorted_logs L")
      case (Cons p M)
      have "cur_tomId c = 0" "cur_offset c = 0"
        using start(1) by (simp_all add: start_cursor_def)
      with Cons show ?thesis by (cases "map_of (toms st) (fst p)") simp_all
    qed simp
    then have "scanPrefix len mx c st = prefix_toms len mx c False (al_keys (sorted_logs L)) 0 st []"
      by (simp add: scanPrefix_def keys)
    moreover have "drop (mx - 0) R = drop mx R" by simp
    ultimately show ?thesis
      using all [of "sorted_logs L"] unfolding cursor_at_def start(2) set_sorted_logs by (metis (no_types, lifting) order_refl)
  next
    case at
    from at(1) have "(i, pre @ suf) \<in> set L" by (metis in_set_conv_decomp set_sorted_logs)
    from storage_rep_log [OF rep this] obtain t where
      t: "map_of (toms st) i = Some t" "tom_rep t (pre @ suf)" "tom_id t = i" "set_tom i t st = st" by blast
    have BL: "set B \<subseteq> set L" using at(1) by (metis set_sorted_logs set_append list.set(2) le_supI2 subset_insertI order_trans sup_ge2)
    have "scanPrefix len mx c st = prefix_toms len mx c True (i # al_keys B) 0 st []"
      using sorted_logs_less [OF dL at(1)] keys at(1,2) prefix_toms_skip [of "al_keys A" c]
      by (simp add: scanPrefix_def)
    then have eq: "scanPrefix len mx c st =
        (if mx \<le> length suf
         then Some (Inr (live_prefix len (take mx (log_recs i (log_size pre) suf)),
                \<lparr>cur_tomId = i, cur_offset = of_nat (log_size (pre @ take mx suf))\<rparr>), st)
         else prefix_toms len mx c False (al_keys B) (length suf) st (live_prefix len (log_recs i (log_size pre) suf)))"
      using t at(2) prefix_walk_rep [OF t(2), of 0 mx len "[]"] mx by simp
    show ?thesis
    proof (cases "mx \<le> length suf")
      case True
      have "drop mx (log_recs i (log_size pre) suf) = log_recs i (log_size (pre @ take mx suf)) (drop mx suf)"
        using log_recs_append [of i "log_size pre" "take mx suf" "drop mx suf"] True by simp
      with True have "cursor_at L \<lparr>cur_tomId = i, cur_offset = of_nat (log_size (pre @ take mx suf))\<rparr> (drop mx R)"
        using at(1,3) unfolding cursor_at_def
        by (intro disjI2 exI [of _ A] exI [of _ i] exI [of _ "pre @ take mx suf"] exI [of _ "drop mx suf"] exI [of _ B]) simp
      with True eq at(3) show ?thesis by simp
    next
      case False
      from prefix_toms_rep [OF rep BL, of "length suf" mx len c "live_prefix len (log_recs i (log_size pre) suf)"] False mx obtain c' where
        c': "prefix_toms len mx c False (al_keys B) (length suf) st (live_prefix len (log_recs i (log_size pre) suf)) =
          Some (Inr (live_prefix len (log_recs i (log_size pre) suf) @ live_prefix len (take (mx - length suf) (all_recs B)), c'), st)"
        "if length (all_recs B) < mx - length suf then c' = start_cursor
         else \<exists>A i pre suf' B'. B = A @ (i, pre @ suf') # B' \<and> c' = \<lparr>cur_tomId = i, cur_offset = of_nat (log_size pre)\<rparr> \<and>
          drop (mx - length suf) (all_recs B) = log_recs i (log_size pre) suf' @ all_recs B'" by auto
      have "cursor_at L c' (drop mx R)" if "\<not> length R < mx"
      proof -
        from c'(2) that at(3) obtain A' j pre' suf' B' where
          "B = A' @ (j, pre' @ suf') # B'" "c' = \<lparr>cur_tomId = j, cur_offset = of_nat (log_size pre')\<rparr>"
          "drop (mx - length suf) (all_recs B) = log_recs j (log_size pre') suf' @ all_recs B'" by (auto split: if_splits)
        with at(1,3) False show ?thesis unfolding cursor_at_def
          by (intro disjI2 exI [of _ "A @ (i, pre @ suf) # A'"] exI [of _ j] exI [of _ pre'] exI [of _ suf'] exI [of _ B']) simp
      qed
      with c' eq at(3) False show ?thesis by (auto split: if_splits)
    qed
  qed
qed

section \<open>A torn last header\<close>

text \<open>The process died while it wrote the header of the next record: \<open>junk\<close> is what reached the file.\<close>

lemma tom_record_torn:
  assumes "good t" "tom_file t = log_bytes (pre @ e # suf) @ junk" "tom_size t = of_nat (length (tom_file t))"
    "length (tom_file t) < 2 ^ 63"
  shows "tom_record (of_nat (log_size pre)) t =
    (Inr \<lparr>tomId = tom_id t, offset = of_nat (log_size pre), rheader = entry_header e\<rparr>, t)"
proof -
  have es: "entry_size e \<ge> 32" by (simp add: entry_size_def sizeof_Header_def)
  have u: "unat (of_nat (log_size pre) :: uint64) = log_size pre"
    using assms(2,4) by (intro unat_of_nat64) simp
  have "unat (tom_size t) = length (tom_file t)" using assms(3,4) by (simp add: unat_of_nat64)
  then have "(of_nat (log_size pre) :: uint64) < tom_size t"
    using assms(2) u es by (simp add: word_less_nat_alt)
  moreover have "file_read (log_size pre) sizeof_Header t = (Some (header_bytes (entry_header e)), t)"
    using assms(1,2) es by (simp add: file_read_def sizeof_Header_def entry_bytes_split)
  ultimately show ?thesis using u by (simp add: tom_record_def)
qed

lemma tom_walk_torn:
  assumes "good t" "tom_file t = log_bytes (pre @ suf) @ junk" "tom_size t = of_nat (length (tom_file t))"
    "length (tom_file t) < 2 ^ 63" "0 < length junk" "length junk < 32" "\<forall>e \<in> set suf. e_data e \<noteq> []" "tom_id t \<noteq> max32"
  shows "\<exists>t'. tom_walk index_body (of_nat (log_size pre)) t ix = Some (Inl ReadFailed, t')"
  using assms(2,7)
proof (induction suf arbitrary: pre ix)
  case Nil
  have u: "unat (of_nat (log_size pre) :: uint64) = log_size pre"
    using Nil assms(4) by (intro unat_of_nat64) simp
  have "unat (tom_size t) = length (tom_file t)" using assms(3,4) by (simp add: unat_of_nat64)
  then have "(of_nat (log_size pre) :: uint64) < tom_size t"
    using Nil u assms(5) by (simp add: word_less_nat_alt)
  then have "tom_record (of_nat (log_size pre)) t = (Inl ReadFailed, t\<lparr>good := False\<rparr>)"
    using Nil u assms(6) by (simp add: tom_record_def file_read_def sizeof_Header_def)
  then show ?case by (subst tom_walk.simps) simp
next
  case (Cons e suf)
  have r: "tom_record (of_nat (log_size pre)) t =
      (Inr \<lparr>tomId = tom_id t, offset = of_nat (log_size pre), rheader = entry_header e\<rparr>, t)"
    using tom_record_torn [OF assms(1) Cons.prems(1) assms(3,4)] .
  have "length (e_data e) < 2 ^ 64"
    using Cons.prems(1) assms(4) by (simp add: entry_size_def)
  then have "unat (dataSize (entry_header e)) \<noteq> 0"
    using Cons.prems(2) by (simp add: entry_header_def unat_of_nat64)
  then have "dataSize (entry_header e) \<noteq> 0" by auto
  moreover have "of_nat (log_size pre) + of_nat sizeof_Header + dataSize (entry_header e) =
     (of_nat (log_size (pre @ [e])) :: uint64)"
    by (simp add: entry_header_def entry_size_def)
  moreover have "\<exists>t'. tom_walk index_body (of_nat (log_size (pre @ [e]))) t ix' = Some (Inl ReadFailed, t')" for ix'
    using Cons.IH [of "pre @ [e]"] Cons.prems by simp
  ultimately show ?case
    using r assms(8) by (subst tom_walk.simps) (simp add: index_body_def add.assoc)
qed

lemma storage_open_torn:
  assumes "0 < length junk" "length junk < 32" "\<forall>e \<in> set es. e_data e \<noteq> []" "i \<noteq> max32"
    "log_size es + length junk < 2 ^ 63"
  shows "storage_open [(i, log_bytes es @ junk)] = Some (Inl ReadFailed)"
proof -
  let ?t = "tom_open i (log_bytes es @ junk)"
  have "\<exists>t'. tom_walk index_body (of_nat (log_size [])) ?t Map.empty = Some (Inl ReadFailed, t')"
    by (rule tom_walk_torn [where suf = es and junk = junk]) (use assms in \<open>simp_all add: tom_open_def\<close>)
  then show ?thesis by (auto simp: storage_open_def rebuildIndex_def)
qed

section \<open>A store to try the properties on\<close>

definition empty_storage :: storage where
  "empty_storage = \<lparr>currentTomId = 0, toms = [], index = Map.empty\<rparr>"

lemma empty_storage_inv: "storage_inv empty_storage"
  unfolding storage_inv_def
  by (auto simp: empty_storage_def storage_rep_def index_sound_def live_uuids_def cur_ok_def max32_def
      intro!: exI [of _ "[]"])

lemma empty_storage_scan: "storage_scan empty_storage = Some (Inr [], empty_storage)"
  by (simp add: storage_scan_def empty_storage_def)

lemma empty_storage_fits: "length d < 2 ^ 32 \<Longrightarrow> fits d empty_storage"
  by (simp add: fits_def empty_storage_def)

definition one_record_store :: storage where
  "one_record_store = snd (storage_append True 7 [10, 20, 30] empty_storage)"

definition the_record :: srecord where
  "the_record = \<lparr>tomId = 1, offset = 0, rheader = \<lparr>huuid = 7, dataSize = 3, deleted = 0\<rparr>\<rparr>"

lemma append_to_empty: "fst (storage_append True 7 [10, 20, 30] empty_storage) = Inr the_record"
  by (simp add: storage_append_def empty_storage_def currentTom_def Let_def tom_append_def tom_open_def
      file_write_def the_record_def set_tom_def)

lemma one_record_store_ok: "storage_inv one_record_store"
  "storage_scan one_record_store = Some (Inr [(the_record, [10, 20, 30])], one_record_store)"
  using storage_append_store [OF empty_storage_inv empty_storage_fits _ _ empty_storage_scan, of "[10, 20, 30]" 7]
    append_to_empty by (auto simp: one_record_store_def)

definition one_entry_log :: "entry list" where
  "one_entry_log = [\<lparr>e_uuid = 7, e_data = [10, 20, 30], e_deleted = 0\<rparr>]"

lemma one_record_store_rep: "storage_rep one_record_store [(1, one_entry_log)]"
  by (simp add: storage_rep_def one_record_store_def storage_append_def empty_storage_def currentTom_def Let_def
      tom_append_def tom_open_def file_write_def set_tom_def al_update_def tom_rep_def one_entry_log_def
      write_at_def entry_bytes_def entry_header_def entry_size_def sizeof_Header_def max32_def)

section \<open>What the broker relies on\<close>

text \<open>C15: appending a non-empty record to a well-formed store succeeds, keeps the store well formed,
  adds exactly that record to what \<open>scan\<close> returns and makes it the record found under its id.\<close>

theorem append_is_scanned:
  assumes "storage_inv st" "fits d st" "d \<noteq> []" "u \<noteq> 0" "storage_scan st = Some (Inr rs, st)"
  shows "\<exists>r st' xs ys. storage_append True u d st = (Inr r, st') \<and> storage_inv st' \<and> rs = xs @ ys \<and>
     storage_scan st' = Some (Inr (xs @ (r, d) # ys), st') \<and> huuid (rheader r) = u \<and>
     deleted (rheader r) = 0 \<and> storage_record u st' = r"
  using store.append_scan [OF assms] .

theorem append_is_scanned_witness:
  "\<exists>r st' xs ys. storage_append True 7 [10, 20, 30] empty_storage = (Inr r, st') \<and> storage_inv st' \<and> [] = xs @ ys \<and>
     storage_scan st' = Some (Inr (xs @ (r, [10, 20, 30]) # ys), st') \<and> huuid (rheader r) = 7 \<and>
     deleted (rheader r) = 0 \<and> storage_record 7 st' = r"
  by (rule append_is_scanned [OF empty_storage_inv empty_storage_fits _ _ empty_storage_scan]) simp_all

text \<open>C16: removing a live record, given its place and either its id or no id at all, marks that record
  and no other: \<open>scan\<close> returns the rest in the same order, and the id is no longer found.\<close>

theorem remove_is_exact:
  assumes "storage_inv st" "storage_scan st = Some (Inr (xs @ (r, d) # ys), st)" "same_place q r"
  shows "\<exists>q' st'. storage_remove True q st = (Inr (True, q'), st') \<and> storage_inv st' \<and>
     deleted (rheader q') = 1 \<and> storage_scan st' = Some (Inr (xs @ ys), st') \<and>
     storage_record (huuid (rheader r)) st' = default_record"
  using store.remove_scan [OF assms] .

theorem remove_is_exact_witness:
  "\<exists>q' st'. storage_remove True (default_record\<lparr>tomId := 1, offset := 0\<rparr>) one_record_store = (Inr (True, q'), st') \<and>
     storage_inv st' \<and> deleted (rheader q') = 1 \<and> storage_scan st' = Some (Inr ([] @ []), st') \<and>
     storage_record (huuid (rheader the_record)) st' = default_record"
proof (rule remove_is_exact [OF one_record_store_ok(1), where d = "[10, 20, 30]"])
  show "storage_scan one_record_store = Some (Inr ([] @ (the_record, [10, 20, 30]) # []), one_record_store)"
    using one_record_store_ok(2) by simp
  show "same_place (default_record\<lparr>tomId := 1, offset := 0\<rparr>) the_record"
    by (simp add: same_place_def default_record_def default_header_def the_record_def)
qed

text \<open>C14: opening the files of a well-formed store again, in whatever order the directory lists them,
  succeeds: the same live records are scanned, the data of each of them is read back, and the rebuilt index resolves every id
  to the last live record, in the order of the scan, that has this id, and to no record when there is none.  So each record
  is found under its id when no other live record has it (several have one when a topic stored a message for several consumers).\<close>

theorem reopen_recovers:
  assumes "storage_inv st" "storage_scan st = Some (Inr rs, st)" "mset fs = mset (disk st)"
  shows "\<exists>st' rs'. storage_open fs = Some (Inr st') \<and> storage_inv st' \<and>
     storage_scan st' = Some (Inr rs', st') \<and> mset rs' = mset rs \<and>
     (\<forall>(r, d) \<in> set rs. storage_data r st' = (Inr d, st')) \<and>
     (\<forall>u. storage_record u st' = last_record u rs') \<and>
     (distinct (map (\<lambda>(r, d). huuid (rheader r)) rs) \<longrightarrow> (\<forall>(r, d) \<in> set rs. storage_record (huuid (rheader r)) st' = r))"
proof -
  from reopen_store [OF assms] obtain st' rs' where
    st': "storage_open fs = Some (Inr st')" "storage_inv st'" "storage_scan st' = Some (Inr rs', st')" "mset rs' = mset rs"
      "\<forall>(r, d) \<in> set rs. storage_data r st' = (Inr d, st')" "\<forall>u. storage_record u st' = last_record u rs'" by blast
  have "storage_record (huuid (rheader r)) st' = r" if "distinct (map (\<lambda>(r, d). huuid (rheader r)) rs)" "(r, d) \<in> set rs" for r d
  proof -
    have "distinct (map (\<lambda>(r, d). huuid (rheader r)) rs')" "(r, d) \<in> set rs'"
      using that st'(4) mset_eq_setD [OF st'(4)] by (simp_all, metis mset_eq_imp_distinct_iff mset_map)
    then show ?thesis using last_record_unique st'(6) by simp
  qed
  with st' show ?thesis by (intro exI [of _ st'] exI [of _ rs']) auto
qed

theorem reopen_recovers_witness:
  "\<exists>st' rs'. storage_open (disk one_record_store) = Some (Inr st') \<and> storage_inv st' \<and>
     storage_scan st' = Some (Inr rs', st') \<and> mset rs' = mset [(the_record, [10, 20, 30])] \<and>
     storage_record (huuid (rheader the_record)) st' = the_record \<and> storage_data the_record st' = (Inr [10, 20, 30], st')"
  using reopen_recovers [OF one_record_store_ok refl] by auto

text \<open>C31: a file that ends inside the header of its last record, as a crash during an append leaves it,
  cannot be opened: rebuilding the index throws, whatever well-formed records precede the torn one.\<close>

theorem torn_header_blocks_open:
  assumes "0 < length junk" "length junk < 32" "\<forall>e \<in> set es. e_data e \<noteq> []" "i \<noteq> max32"
    "log_size es + length junk < 2 ^ 63"
  shows "storage_open [(i, log_bytes es @ junk)] = Some (Inl ReadFailed)"
  by (rule storage_open_torn [OF assms])

theorem torn_header_blocks_open_witness:
  "storage_open [(1, log_bytes one_entry_log @ [0, 0])] = Some (Inl ReadFailed)"
  by (rule torn_header_blocks_open) (simp_all add: one_entry_log_def max32_def entry_size_def sizeof_Header_def)

text \<open>Once a read or a write on a file has failed, every later append to it is refused, whether or
  not the disk would accept it, and the size it reserves grows all the same.\<close>

lemma failed_stream_refuses_appends:
  assumes "\<not> good t" "dat \<noteq> []"
  shows "tom_append wok u dat t =
    (Inl WriteFailed, t\<lparr>tom_size := tom_size t + of_nat (32 + length dat), good := False\<rparr>)"
  using assms by (simp add: tom_append_def file_write_def sizeof_Header_def Let_def)

end
