(* ===== verification/Message_Property.thy ===== *)
theory Message_Property
  imports Prelude
begin

text \<open>
  Typed message properties: \<open>MessageProperty.h\<close> and \<open>MessageProperty.cpp\<close>.
  \<open>Properties\<close> is the name/value map of a message (and the body of a map message),
  \<open>PropertiesStream\<close> the body of a stream message with its read position.  Both are
  stored as JSON text.  The JSON library (Poco) is not part of the repository: its
  \<open>stringify\<close>, \<open>parse\<close> and typed \<open>getValue\<close> conversions are fields of the
  parameter record \<open>poco\<close>.  What a theorem relies on is stated for the document that is written, by the
  predicates \<open>props_text_ok\<close> and \<open>stream_text_ok\<close>: Poco reads its own text as a document with the same names, and
  \<open>getValue\<close> gives for every entry the type name and the value that were written.  The document itself may
  differ (other order of the names, a character read as a text).
\<close>

section \<open>Values\<close>

text \<open>A \<open>float\<close> or \<open>double\<close> by the number it denotes; the sign of zero is not kept.\<close>

datatype fp = FNaN | FNegInf | FPosInf | FFin rat

datatype valueType = NULL_TYPE | BOOLEAN_TYPE | BYTE_TYPE | CHAR_TYPE | SHORT_TYPE | INTEGER_TYPE
  | LONG_TYPE | DOUBLE_TYPE | FLOAT_TYPE | STRING_TYPE | BYTE_ARRAY_TYPE | UNKNOWN_TYPE

text \<open>A \<open>Poco::Any\<close> that holds a \<open>Poco::Nullable\<close> of one of the ten types.\<close>

datatype prop_value = PBool "bool option" | PChar "char option" | PString "string option"
  | PByte "byte option" | PShort "int16 option" | PInt "int32 option" | PLong "int64 option"
  | PFloat "fp option" | PDouble "fp option" | PBytes "byte list option"

text \<open>A \<open>Poco::Any\<close> of the stream, which holds the raw type.\<close>

datatype stream_value = SBool bool | SChar char | SString string | SByte byte | SShort int16
  | SInt int32 | SLong int64 | SFloat fp | SDouble fp | SBytes "byte list"

fun getValueType :: "prop_value \<Rightarrow> valueType" where
  "getValueType (PBool _) = BOOLEAN_TYPE"
| "getValueType (PByte _) = BYTE_TYPE"
| "getValueType (PChar _) = CHAR_TYPE"
| "getValueType (PShort _) = SHORT_TYPE"
| "getValueType (PInt _) = INTEGER_TYPE"
| "getValueType (PLong _) = LONG_TYPE"
| "getValueType (PFloat _) = FLOAT_TYPE"
| "getValueType (PDouble _) = DOUBLE_TYPE"
| "getValueType (PString _) = STRING_TYPE"
| "getValueType (PBytes _) = BYTE_ARRAY_TYPE"

fun getRawValueType :: "stream_value \<Rightarrow> valueType" where
  "getRawValueType (SBool _) = BOOLEAN_TYPE"
| "getRawValueType (SByte _) = BYTE_TYPE"
| "getRawValueType (SChar _) = CHAR_TYPE"
| "getRawValueType (SShort _) = SHORT_TYPE"
| "getRawValueType (SInt _) = INTEGER_TYPE"
| "getRawValueType (SLong _) = LONG_TYPE"
| "getRawValueType (SFloat _) = FLOAT_TYPE"
| "getRawValueType (SDouble _) = DOUBLE_TYPE"
| "getRawValueType (SString _) = STRING_TYPE"
| "getRawValueType (SBytes _) = BYTE_ARRAY_TYPE"

fun getValueTypeName :: "valueType \<Rightarrow> string" where
  "getValueTypeName NULL_TYPE = ''NULL''"
| "getValueTypeName BOOLEAN_TYPE = ''BOOLEAN''"
| "getValueTypeName BYTE_TYPE = ''BYTE''"
| "getValueTypeName CHAR_TYPE = ''CHAR''"
| "getValueTypeName SHORT_TYPE = ''SHORT''"
| "getValueTypeName INTEGER_TYPE = ''INTEGER''"
| "getValueTypeName LONG_TYPE = ''LONG''"
| "getValueTypeName DOUBLE_TYPE = ''DOUBLE''"
| "getValueTypeName FLOAT_TYPE = ''FLOAT''"
| "getValueTypeName STRING_TYPE = ''STRING''"
| "getValueTypeName BYTE_ARRAY_TYPE = ''BYTE_ARRAY''"
| "getValueTypeName UNKNOWN_TYPE = ''UNKNOWN''"

definition getValueTypeFromString :: "string \<Rightarrow> valueType" where
  "getValueTypeFromString s =
     (if s = ''NULL'' then NULL_TYPE
      else if s = ''BOOLEAN'' then BOOLEAN_TYPE
      else if s = ''BYTE'' then BYTE_TYPE
      else if s = ''CHAR'' then CHAR_TYPE
      else if s = ''SHORT'' then SHORT_TYPE
      else if s = ''INTEGER'' then INTEGER_TYPE
      else if s = ''LONG'' then LONG_TYPE
      else if s = ''DOUBLE'' then DOUBLE_TYPE
      else if s = ''FLOAT'' then FLOAT_TYPE
      else if s = ''STRING'' then STRING_TYPE
      else if s = ''BYTE_ARRAY'' then BYTE_ARRAY_TYPE
      else UNKNOWN_TYPE)"

lemma getValueTypeFromString_name [simp]: "getValueTypeFromString (getValueTypeName t) = t"
  by (cases t) (simp_all add: getValueTypeFromString_def)

section \<open>The JSON library as a parameter\<close>

datatype json = JNull | JBool bool | JChar char | JNum int | JReal fp | JString string
  | JArray "json list" | JObject "(string \<times> json) list"

record poco =
  stringify :: "json \<Rightarrow> string"
  parse_json :: "string \<Rightarrow> json option"
  conv_bool :: "json \<Rightarrow> bool option"
  conv_char :: "json \<Rightarrow> char option"
  conv_int :: "nat \<Rightarrow> json \<Rightarrow> int option"   \<comment> \<open>conversion to a signed integer of that many bits\<close>
  conv_float :: "json \<Rightarrow> fp option"
  conv_double :: "json \<Rightarrow> fp option"
  conv_string :: "json \<Rightarrow> string option"
  uuid_toString :: "uuid \<Rightarrow> string"
  uuid_parse :: "string \<Rightarrow> uuid option"

datatype prop_error = OutOfRange | BadCast | JsonError | StreamEnd | ForeignIterator

section \<open>Properties\<close>

text \<open>The \<open>unordered_map\<close> as the association list in iteration order.\<close>

type_synonym properties = "(string \<times> prop_value) list"

definition setProperty :: "properties \<Rightarrow> string \<Rightarrow> prop_value \<Rightarrow> properties" where
  "setProperty ps name v = al_emplace name v ps"

definition hasProperty :: "properties \<Rightarrow> string \<Rightarrow> bool" where
  "hasProperty ps name \<longleftrightarrow> map_of ps name \<noteq> None"

definition property :: "valueType \<Rightarrow> properties \<Rightarrow> string \<Rightarrow> prop_error + prop_value" where
  "property t ps name =
     (case map_of ps name of
        None \<Rightarrow> Inl OutOfRange
      | Some v \<Rightarrow> if getValueType v = t then Inr v else Inl BadCast)"

definition propertyValueType :: "properties \<Rightarrow> string \<Rightarrow> prop_error + valueType" where
  "propertyValueType ps name =
     (case map_of ps name of None \<Rightarrow> Inl OutOfRange | Some v \<Rightarrow> Inr (getValueType v))"

definition properties_clear :: "properties \<Rightarrow> properties" where
  "properties_clear ps = []"

fun prop_json :: "prop_value \<Rightarrow> json" where
  "prop_json (PBool v) = (case v of None \<Rightarrow> JNull | Some b \<Rightarrow> JBool b)"
| "prop_json (PChar v) = (case v of None \<Rightarrow> JNull | Some c \<Rightarrow> JChar c)"
| "prop_json (PString v) = (case v of None \<Rightarrow> JNull | Some s \<Rightarrow> JString s)"
| "prop_json (PByte v) = (case v of None \<Rightarrow> JNull | Some x \<Rightarrow> JNum (sint x))"
| "prop_json (PShort v) = (case v of None \<Rightarrow> JNull | Some x \<Rightarrow> JNum (sint x))"
| "prop_json (PInt v) = (case v of None \<Rightarrow> JNull | Some x \<Rightarrow> JNum (sint x))"
| "prop_json (PLong v) = (case v of None \<Rightarrow> JNull | Some x \<Rightarrow> JNum (sint x))"
| "prop_json (PFloat v) = (case v of None \<Rightarrow> JNull | Some x \<Rightarrow> JReal x)"
| "prop_json (PDouble v) = (case v of None \<Rightarrow> JNull | Some x \<Rightarrow> JReal x)"
| "prop_json (PBytes v) = (case v of None \<Rightarrow> JNull | Some bs \<Rightarrow> JArray (map (\<lambda>b. JNum (sint b)) bs))"

definition json_entry :: "valueType \<Rightarrow> json \<Rightarrow> json" where
  "json_entry t v = JObject [(''type'', JString (getValueTypeName t)), (''value'', v)]"

definition properties_toJSON :: "properties \<Rightarrow> json" where
  "properties_toJSON ps = JObject (map (\<lambda>(n, v). (n, json_entry (getValueType v) (prop_json v))) ps)"

text \<open>\<open>Object::get\<close>, \<open>getObject\<close>, \<open>getArray\<close>: a missing name or another shape is a null pointer.\<close>

fun json_get :: "json \<Rightarrow> string \<Rightarrow> json" where
  "json_get (JObject fs) n = (case map_of fs n of None \<Rightarrow> JNull | Some j \<Rightarrow> j)"
| "json_get _ n = JNull"

fun json_object :: "json \<Rightarrow> (string \<times> json) list option" where
  "json_object (JObject fs) = Some fs"
| "json_object _ = None"

fun json_array :: "json \<Rightarrow> json list option" where
  "json_array (JArray xs) = Some xs"
| "json_array _ = None"

definition or_throw :: "'a option \<Rightarrow> prop_error + 'a" where
  "or_throw x = (case x of None \<Rightarrow> Inl JsonError | Some v \<Rightarrow> Inr v)"

fun json_bytes :: "poco \<Rightarrow> json list \<Rightarrow> prop_error + byte list" where
  "json_bytes P [] = Inr []"
| "json_bytes P (j # js) =
     (case conv_int P 8 j of
        None \<Rightarrow> Inl JsonError
      | Some i \<Rightarrow> (case json_bytes P js of Inl e \<Rightarrow> Inl e | Inr bs \<Rightarrow> Inr (of_int i # bs)))"

text \<open>
  One step of \<open>Properties::fromJSON\<close>: \<open>Inr None\<close> is an entry that is skipped (not an
  object, an unknown type name, an empty or missing byte array); a conversion that fails throws.
\<close>

definition prop_fromJSON :: "poco \<Rightarrow> json \<Rightarrow> prop_error + prop_value option" where
  "prop_fromJSON P j =
     (case json_object j of
        None \<Rightarrow> Inr None
      | Some _ \<Rightarrow>
        (case conv_string P (json_get j ''type'') of
           None \<Rightarrow> Inl JsonError
         | Some tn \<Rightarrow>
           (let v = json_get j ''value'' in
            case getValueTypeFromString tn of
              BOOLEAN_TYPE \<Rightarrow> map_sum id (\<lambda>b. Some (PBool (Some b))) (or_throw (conv_bool P v))
            | BYTE_TYPE \<Rightarrow> map_sum id (\<lambda>i. Some (PByte (Some (of_int i)))) (or_throw (conv_int P 8 v))
            | CHAR_TYPE \<Rightarrow> map_sum id (\<lambda>c. Some (PChar (Some c))) (or_throw (conv_char P v))
            | SHORT_TYPE \<Rightarrow> map_sum id (\<lambda>i. Some (PShort (Some (of_int i)))) (or_throw (conv_int P 16 v))
            | INTEGER_TYPE \<Rightarrow> map_sum id (\<lambda>i. Some (PInt (Some (of_int i)))) (or_throw (conv_int P 32 v))
            | LONG_TYPE \<Rightarrow> map_sum id (\<lambda>i. Some (PLong (Some (of_int i)))) (or_throw (conv_int P 64 v))
            | STRING_TYPE \<Rightarrow> map_sum id (\<lambda>s. Some (PString (Some s))) (or_throw (conv_string P v))
            | FLOAT_TYPE \<Rightarrow> map_sum id (\<lambda>x. Some (PFloat (Some x))) (or_throw (conv_float P v))
            | DOUBLE_TYPE \<Rightarrow> map_sum id (\<lambda>x. Some (PDouble (Some x))) (or_throw (conv_double P v))
            | BYTE_ARRAY_TYPE \<Rightarrow>
                (case json_array v of
                   None \<Rightarrow> Inr None
                 | Some js \<Rightarrow> map_sum id (\<lambda>bs. if bs = [] then None else Some (PBytes (Some bs)))
                                (json_bytes P js))
            | _ \<Rightarrow> Inr None)))"

definition properties_fromJSON :: "poco \<Rightarrow> json \<Rightarrow> properties \<Rightarrow> prop_error + properties" where
  "properties_fromJSON P j ps =
     (case json_object j of
        None \<Rightarrow> Inl JsonError
      | Some fs \<Rightarrow>
          fold_exn (\<lambda>(n, e) acc.
             case prop_fromJSON P e of
               Inl x \<Rightarrow> Inl x
             | Inr None \<Rightarrow> Inr acc
             | Inr (Some v) \<Rightarrow> Inr (setProperty acc n v)) fs ps)"

section \<open>PropertiesStream\<close>

text \<open>
  The list iterator \<open>offset\<close> is \<open>AtItem i\<close> at element \<open>i\<close> and \<open>AtEnd\<close> at
  \<open>end()\<close>; \<open>push_back\<close> does not move an iterator that is at \<open>end()\<close>.  The class has the default
  copy, which copies the iterator as it is: in a copy it points into the list of the source
  (\<open>AtForeign\<close>) until \<open>reset\<close> or \<open>clear\<close> sets it.  Using an iterator that is at the end or of another
  list has no defined result in C++; the operations return an error value there.
\<close>

datatype stream_pos = AtItem nat | AtEnd | AtForeign

record pstream =
  items :: "stream_value list"
  str_offset :: stream_pos

definition stream_begin :: "stream_value list \<Rightarrow> stream_pos" where
  "stream_begin xs = (if xs = [] then AtEnd else AtItem 0)"

definition empty_stream :: pstream where
  "empty_stream = \<lparr>items = [], str_offset = stream_begin []\<rparr>"

definition stream_write :: "pstream \<Rightarrow> stream_value \<Rightarrow> pstream" where
  "stream_write s v = s\<lparr>items := items s @ [v]\<rparr>"

definition stream_copy :: "pstream \<Rightarrow> pstream" where
  "stream_copy s = s\<lparr>str_offset := AtForeign\<rparr>"

definition stream_next :: "pstream \<Rightarrow> stream_pos" where
  "stream_next s = (case str_offset s of
      AtItem i \<Rightarrow> if Suc i < length (items s) then AtItem (Suc i) else AtEnd
    | p \<Rightarrow> p)"

definition nextValue :: "valueType \<Rightarrow> pstream \<Rightarrow> prop_error + (stream_value \<times> pstream)" where
  "nextValue t s =
     (case str_offset s of
        AtForeign \<Rightarrow> Inl ForeignIterator
      | AtEnd \<Rightarrow> Inl StreamEnd
      | AtItem i \<Rightarrow> let v = items s ! i in
          if getRawValueType v = t then Inr (v, s\<lparr>str_offset := stream_next s\<rparr>) else Inl BadCast)"

definition nextValueType :: "pstream \<Rightarrow> prop_error + valueType" where
  "nextValueType s =
     (case str_offset s of AtForeign \<Rightarrow> Inl ForeignIterator | AtEnd \<Rightarrow> Inl StreamEnd | AtItem i \<Rightarrow> Inr (getRawValueType (items s ! i)))"

definition stream_reset :: "pstream \<Rightarrow> pstream" where
  "stream_reset s = s\<lparr>str_offset := stream_begin (items s)\<rparr>"

definition stream_eof :: "pstream \<Rightarrow> prop_error + bool" where
  "stream_eof s = (if str_offset s = AtForeign then Inl ForeignIterator else Inr (str_offset s = AtEnd))"

definition stream_empty :: "pstream \<Rightarrow> bool" where
  "stream_empty s \<longleftrightarrow> items s = []"

definition stream_clear :: "pstream \<Rightarrow> pstream" where
  "stream_clear s = s\<lparr>items := [], str_offset := stream_begin []\<rparr>"

fun stream_json :: "stream_value \<Rightarrow> json" where
  "stream_json (SBool b) = JBool b"
| "stream_json (SChar c) = JChar c"
| "stream_json (SString s) = JString s"
| "stream_json (SByte x) = JNum (sint x)"
| "stream_json (SShort x) = JNum (sint x)"
| "stream_json (SInt x) = JNum (sint x)"
| "stream_json (SLong x) = JNum (sint x)"
| "stream_json (SFloat x) = JReal x"
| "stream_json (SDouble x) = JReal x"
| "stream_json (SBytes bs) = JArray (map (\<lambda>b. JNum (sint b)) bs)"

definition stream_toJSON :: "pstream \<Rightarrow> json" where
  "stream_toJSON s =
     JObject [(''stream'', JArray (map (\<lambda>v. json_entry (getRawValueType v) (stream_json v)) (items s)))]"

definition stream_entry_fromJSON :: "poco \<Rightarrow> json \<Rightarrow> prop_error + stream_value option" where
  "stream_entry_fromJSON P j =
     (case json_object j of
        None \<Rightarrow> Inl JsonError
      | Some _ \<Rightarrow>
        (case conv_string P (json_get j ''type'') of
           None \<Rightarrow> Inl JsonError
         | Some tn \<Rightarrow>
           (let v = json_get j ''value'' in
            case getValueTypeFromString tn of
              BOOLEAN_TYPE \<Rightarrow> map_sum id (\<lambda>b. Some (SBool b)) (or_throw (conv_bool P v))
            | BYTE_TYPE \<Rightarrow> map_sum id (\<lambda>i. Some (SByte (of_int i))) (or_throw (conv_int P 8 v))
            | CHAR_TYPE \<Rightarrow> map_sum id (\<lambda>c. Some (SChar c)) (or_throw (conv_char P v))
            | SHORT_TYPE \<Rightarrow> map_sum id (\<lambda>i. Some (SShort (of_int i))) (or_throw (conv_int P 16 v))
            | INTEGER_TYPE \<Rightarrow> map_sum id (\<lambda>i. Some (SInt (of_int i))) (or_throw (conv_int P 32 v))
            | LONG_TYPE \<Rightarrow> map_sum id (\<lambda>i. Some (SLong (of_int i))) (or_throw (conv_int P 64 v))
            | STRING_TYPE \<Rightarrow> map_sum id (\<lambda>s. Some (SString s)) (or_throw (conv_string P v))
            | FLOAT_TYPE \<Rightarrow> map_sum id (\<lambda>x. Some (SFloat x)) (or_throw (conv_float P v))
            | DOUBLE_TYPE \<Rightarrow> map_sum id (\<lambda>x. Some (SDouble x)) (or_throw (conv_double P v))
            | BYTE_ARRAY_TYPE \<Rightarrow>
                (case json_array v of
                   None \<Rightarrow> Inr None
                 | Some js \<Rightarrow> map_sum id (\<lambda>bs. if bs = [] then None else Some (SBytes bs))
                                (json_bytes P js))
            | _ \<Rightarrow> Inr None)))"

definition stream_fromJSON :: "poco \<Rightarrow> json \<Rightarrow> pstream \<Rightarrow> prop_error + pstream" where
  "stream_fromJSON P j s =
     (case json_array (json_get j ''stream'') of
        None \<Rightarrow> Inr s
      | Some es \<Rightarrow>
          fold_exn (\<lambda>e acc.
             case stream_entry_fromJSON P e of
               Inl x \<Rightarrow> Inl x
             | Inr None \<Rightarrow> Inr acc
             | Inr (Some v) \<Rightarrow> Inr (stream_write acc v)) es s)"

section \<open>Round trips through JSON\<close>

text \<open>
  A null value is written as JSON \<open>null\<close>.  \<open>getValue\<close> throws for it, except that a null byte array is
  skipped, and so is an empty one.
\<close>

fun prop_null :: "prop_value \<Rightarrow> bool" where
  "prop_null (PBool v) = (v = None)"
| "prop_null (PChar v) = (v = None)"
| "prop_null (PString v) = (v = None)"
| "prop_null (PByte v) = (v = None)"
| "prop_null (PShort v) = (v = None)"
| "prop_null (PInt v) = (v = None)"
| "prop_null (PLong v) = (v = None)"
| "prop_null (PFloat v) = (v = None)"
| "prop_null (PDouble v) = (v = None)"
| "prop_null (PBytes v) = False"

fun prop_dropped :: "prop_value \<Rightarrow> bool" where
  "prop_dropped (PBytes v) = (v = None \<or> v = Some [])"
| "prop_dropped _ = False"

fun stream_dropped :: "stream_value \<Rightarrow> bool" where
  "stream_dropped (SBytes bs) = (bs = [])"
| "stream_dropped _ = False"

definition null_free :: "properties \<Rightarrow> bool" where
  "null_free ps \<longleftrightarrow> list_all (\<lambda>p. \<not> prop_null (snd p)) ps"

definition kept_props :: "properties \<Rightarrow> properties" where
  "kept_props ps = filter (\<lambda>p. \<not> prop_dropped (snd p)) ps"

text \<open>\<open>getValue\<close> of the type of the property gives the value that was written; it throws for null.\<close>

fun value_reads :: "poco \<Rightarrow> prop_value \<Rightarrow> json \<Rightarrow> bool" where
  "value_reads P (PBool v) j = (conv_bool P j = v)"
| "value_reads P (PChar v) j = (conv_char P j = v)"
| "value_reads P (PString v) j = (conv_string P j = v)"
| "value_reads P (PByte v) j = (map_option of_int (conv_int P 8 j) = v)"
| "value_reads P (PShort v) j = (map_option of_int (conv_int P 16 j) = v)"
| "value_reads P (PInt v) j = (map_option of_int (conv_int P 32 j) = v)"
| "value_reads P (PLong v) j = (map_option of_int (conv_int P 64 j) = v)"
| "value_reads P (PFloat v) j = (conv_float P j = v)"
| "value_reads P (PDouble v) j = (conv_double P j = v)"
| "value_reads P (PBytes v) j =
     (case v of
        None \<Rightarrow> json_array j = None
      | Some bs \<Rightarrow> (case json_array j of None \<Rightarrow> False | Some js \<Rightarrow> json_bytes P js = Inr bs))"

fun stream_as_prop :: "stream_value \<Rightarrow> prop_value" where
  "stream_as_prop (SBool b) = PBool (Some b)"
| "stream_as_prop (SChar c) = PChar (Some c)"
| "stream_as_prop (SString s) = PString (Some s)"
| "stream_as_prop (SByte x) = PByte (Some x)"
| "stream_as_prop (SShort x) = PShort (Some x)"
| "stream_as_prop (SInt x) = PInt (Some x)"
| "stream_as_prop (SLong x) = PLong (Some x)"
| "stream_as_prop (SFloat x) = PFloat (Some x)"
| "stream_as_prop (SDouble x) = PDouble (Some x)"
| "stream_as_prop (SBytes bs) = PBytes (Some bs)"

definition entry_reads :: "poco \<Rightarrow> prop_value \<Rightarrow> json \<Rightarrow> bool" where
  "entry_reads P v e \<longleftrightarrow> json_object e \<noteq> None \<and>
     conv_string P (json_get e ''type'') = Some (getValueTypeName (getValueType v)) \<and>
     value_reads P v (json_get e ''value'')"

text \<open>What the code relies on when it reads the text of these properties, or of this stream.\<close>

definition props_text_ok :: "poco \<Rightarrow> properties \<Rightarrow> bool" where
  "props_text_ok P ps \<longleftrightarrow> stringify P (properties_toJSON ps) \<noteq> [] \<and> distinct (al_keys ps) \<and>
     (case parse_json P (stringify P (properties_toJSON ps)) of
        Some (JObject fs) \<Rightarrow> distinct (al_keys fs) \<and> set (al_keys fs) = set (al_keys ps) \<and>
          list_all (\<lambda>(n, v). case map_of fs n of None \<Rightarrow> False | Some e \<Rightarrow> entry_reads P v e) ps
      | _ \<Rightarrow> False)"

definition stream_text_ok :: "poco \<Rightarrow> pstream \<Rightarrow> bool" where
  "stream_text_ok P s \<longleftrightarrow> stringify P (stream_toJSON s) \<noteq> [] \<and>
     (case parse_json P (stringify P (stream_toJSON s)) of
        Some (JObject fs) \<Rightarrow> (case json_get (JObject fs) ''stream'' of
            JArray es \<Rightarrow> list_all2 (\<lambda>v e. entry_reads P (stream_as_prop v) e) (items s) es
          | _ \<Rightarrow> False)
      | _ \<Rightarrow> False)"

lemma json_get_entry [simp]:
  "json_get (json_entry t v) ''type'' = JString (getValueTypeName t)"
  "json_get (json_entry t v) ''value'' = v"
  "json_object (json_entry t v) = Some [(''type'', JString (getValueTypeName t)), (''value'', v)]"
  by (simp_all add: json_entry_def)

lemma getValueTypeFromString_lit [simp]:
  "getValueTypeFromString ''BOOLEAN'' = BOOLEAN_TYPE" "getValueTypeFromString ''BYTE'' = BYTE_TYPE"
  "getValueTypeFromString ''CHAR'' = CHAR_TYPE" "getValueTypeFromString ''SHORT'' = SHORT_TYPE"
  "getValueTypeFromString ''INTEGER'' = INTEGER_TYPE" "getValueTypeFromString ''LONG'' = LONG_TYPE"
  "getValueTypeFromString ''DOUBLE'' = DOUBLE_TYPE" "getValueTypeFromString ''FLOAT'' = FLOAT_TYPE"
  "getValueTypeFromString ''STRING'' = STRING_TYPE"
  "getValueTypeFromString ''BYTE_ARRAY'' = BYTE_ARRAY_TYPE"
  by (simp_all add: getValueTypeFromString_def)

lemma entry_reads_prop:
  assumes "entry_reads P v e"
  shows "prop_fromJSON P e = (if prop_null v then Inl JsonError else if prop_dropped v then Inr None else Inr (Some v))"
  using assms by (cases v) (auto simp: entry_reads_def prop_fromJSON_def or_throw_def Let_def split: option.splits)

lemma entry_reads_stream:
  assumes "entry_reads P (stream_as_prop v) e"
  shows "stream_entry_fromJSON P e = (if stream_dropped v then Inr None else Inr (Some v))"
  using assms by (cases v) (auto simp: entry_reads_def stream_entry_fromJSON_def or_throw_def Let_def split: option.splits)

text \<open>The loop of \<open>Properties::fromJSON\<close>, on entries that carry the properties \<open>qs\<close>.\<close>

definition prop_step :: "poco \<Rightarrow> string \<times> json \<Rightarrow> properties \<Rightarrow> prop_error + properties" where
  "prop_step P = (\<lambda>(n, e) acc.
     case prop_fromJSON P e of
       Inl x \<Rightarrow> Inl x
     | Inr None \<Rightarrow> Inr acc
     | Inr (Some v) \<Rightarrow> Inr (setProperty acc n v))"

lemma properties_fromJSON_object: "properties_fromJSON P (JObject fs) ps = fold_exn (prop_step P) fs ps"
  by (simp add: properties_fromJSON_def prop_step_def)

lemma setProperty_new: "n \<notin> set (al_keys acc) \<Longrightarrow> setProperty acc n v = acc @ [(n, v)]"
  by (simp add: setProperty_def al_emplace_def)

lemma setProperty_old: "n \<in> set (al_keys acc) \<Longrightarrow> setProperty acc n v = acc"
  by (simp add: setProperty_def al_emplace_def)

lemma prop_steps:
  assumes "list_all2 (\<lambda>(n, v) (n', e). n = n' \<and> entry_reads P v e) qs fs"
  shows "null_free qs \<Longrightarrow> distinct (al_keys (acc @ qs)) \<Longrightarrow> fold_exn (prop_step P) fs acc = Inr (acc @ kept_props qs)"
    "null_free qs \<Longrightarrow> set (al_keys qs) \<subseteq> set (al_keys acc) \<Longrightarrow> fold_exn (prop_step P) fs acc = Inr acc"
    "\<not> null_free qs \<Longrightarrow> \<exists>e. fold_exn (prop_step P) fs acc = Inl e"
  using assms
proof (induction arbitrary: acc rule: list_all2_induct)
  case (Cons q qs f fs)
  obtain n v e where q: "q = (n, v)" "f = (n, e)" and e: "entry_reads P v e" using Cons.hyps(1) by (cases q, cases f) auto
  { case 1
    then have "prop_step P f acc = Inr (if prop_dropped v then acc else acc @ [(n, v)])"
      using entry_reads_prop [OF e] by (auto simp: q prop_step_def null_free_def setProperty_new)
    with 1 Cons.IH(1) show ?case by (simp add: q null_free_def kept_props_def)
  next
    case 2
    then have "prop_step P f acc = Inr acc"
      using entry_reads_prop [OF e] by (auto simp: q prop_step_def null_free_def setProperty_old)
    with 2 Cons.IH(2) show ?case by (simp add: q null_free_def)
  next
    case 3
    then show ?case using entry_reads_prop [OF e] Cons.IH(3)
      by (cases "prop_null v") (auto simp: q prop_step_def null_free_def split: sum.splits)
  }
qed (simp_all add: null_free_def kept_props_def)

text \<open>The entries in the order in which the parser lists the names.\<close>

lemma list_all2_aligned:
  assumes "distinct (al_keys ps)" "distinct (al_keys fs)" "set (al_keys fs) = set (al_keys ps)"
    "list_all (\<lambda>(n, v). case map_of fs n of None \<Rightarrow> False | Some e \<Rightarrow> R v e) ps"
  defines "qs \<equiv> map (\<lambda>n. (n, the (map_of ps n))) (al_keys fs)"
  shows "list_all2 (\<lambda>(n, v) (n', e). n = n' \<and> R v e) qs fs" "al_keys qs = al_keys fs" "set qs = set ps" "map_of qs = map_of ps"
proof -
  show k: "al_keys qs = al_keys fs" by (simp add: qs_def al_keys_def comp_def)
  have v: "(n, the (map_of ps n)) \<in> set ps \<and> R (the (map_of ps n)) e" if "(n, e) \<in> set fs" for n e
  proof -
    have "n \<in> set (al_keys ps)" using that assms(3) by (force simp: al_keys_def)
    then obtain v where v: "(n, v) \<in> set ps" by (auto simp: al_keys_def)
    then have "map_of ps n = Some v" using assms(1) by (simp add: al_keys_def)
    moreover have "map_of fs n = Some e" using that assms(2) by (simp add: al_keys_def)
    ultimately show ?thesis using v assms(4) by (auto simp: list_all_iff)
  qed
  then show "list_all2 (\<lambda>(n, v) (n', e). n = n' \<and> R v e) qs fs"
    by (auto simp: qs_def al_keys_def list_all2_conv_all_nth split: prod.splits) (metis fst_conv nth_mem snd_conv)
  have sub: "set qs \<subseteq> set ps" using v by (force simp: qs_def al_keys_def)
  have d: "distinct (map fst qs)" "distinct (map fst ps)" "fst ` set qs = fst ` set ps" using k assms(1-3) by (simp_all add: al_keys_def flip: set_map)
  have "x \<in> set qs" if "x \<in> set ps" for x
  proof -
    have "fst x \<in> fst ` set qs" using that d(3) by blast
    then obtain y where y: "y \<in> set qs" "fst y = fst x" by (auto simp: image_iff)
    moreover from y(1) sub have "y \<in> set ps" by blast
    ultimately have "y = x" using that d(2) inj_onD [of fst "set ps" y x] by (simp add: distinct_map)
    with y(1) show ?thesis by simp
  qed
  with sub show s: "set qs = set ps" by blast
  show "map_of qs = map_of ps" using map_of_inject_set [OF d(1,2)] s by simp
qed

lemma kept_props_map_of:
  assumes "distinct (al_keys ps)" "distinct (al_keys qs)" "set qs = set ps"
  shows "map_of (kept_props qs) = map_of (kept_props ps)" "null_free qs = null_free ps"
proof -
  have "distinct (map fst (kept_props xs))" if "distinct (al_keys xs)" for xs :: properties
    using that by (simp add: kept_props_def al_keys_def distinct_map_filter)
  then show "map_of (kept_props qs) = map_of (kept_props ps)"
    using assms map_of_inject_set [of "kept_props qs" "kept_props ps"] by (simp add: kept_props_def)
qed (simp add: null_free_def list_all_iff assms(3))

text \<open>
  Reading the text of properties into no properties gives the properties but the empty byte arrays;
  properties that are there already stay as they are; a null value throws.
\<close>

lemma properties_read:
  assumes "props_text_ok P ps"
  obtains j where "parse_json P (stringify P (properties_toJSON ps)) = Some j" "json_object j \<noteq> None"
    "null_free ps \<longrightarrow> (\<exists>qs. properties_fromJSON P j [] = Inr qs \<and> map_of qs = map_of (kept_props ps))"
    "null_free ps \<longrightarrow> properties_fromJSON P j ps = Inr ps"
    "\<not> null_free ps \<longrightarrow> (\<forall>acc. \<exists>e. properties_fromJSON P j acc = Inl e)"
proof -
  from assms obtain fs where fs: "parse_json P (stringify P (properties_toJSON ps)) = Some (JObject fs)" "distinct (al_keys ps)"
    "distinct (al_keys fs)" "set (al_keys fs) = set (al_keys ps)"
    "list_all (\<lambda>(n, v). case map_of fs n of None \<Rightarrow> False | Some e \<Rightarrow> entry_reads P v e) ps"
    by (auto simp: props_text_ok_def split: option.splits json.splits)
  define qs where "qs = map (\<lambda>n. (n, the (map_of ps n))) (al_keys fs)"
  note al = list_all2_aligned [OF fs(2-5), folded qs_def]
  note st = prop_steps [OF al(1)]
  note kp = kept_props_map_of [OF fs(2) _ al(3)]
  have d: "distinct (al_keys qs)" "set (al_keys qs) \<subseteq> set (al_keys ps)" using al(2) fs(3,4) by simp_all
  show ?thesis
    by (rule that [of "JObject fs"]) (use fs(1) st(1) [of "[]"] st(2) [of ps] st(3) kp [OF d(1)] d in
      \<open>auto simp: properties_fromJSON_object simp del: al_keys_simps(3)\<close>)
qed

lemma stream_steps:
  assumes "list_all2 (\<lambda>v e. entry_reads P (stream_as_prop v) e) vs es"
  shows "fold_exn (\<lambda>e acc.
             case stream_entry_fromJSON P e of
               Inl x \<Rightarrow> Inl x
             | Inr None \<Rightarrow> Inr acc
             | Inr (Some v) \<Rightarrow> Inr (stream_write acc v)) es s
         = Inr (s\<lparr>items := items s @ filter (\<lambda>v. \<not> stream_dropped v) vs\<rparr>)"
  using assms
  by (induction arbitrary: s rule: list_all2_induct) (simp_all add: entry_reads_stream stream_write_def)

lemma stream_read:
  assumes "stream_text_ok P s"
  obtains j where "parse_json P (stringify P (stream_toJSON s)) = Some j" "json_object j \<noteq> None"
    "stream_fromJSON P j empty_stream = Inr \<lparr>items = filter (\<lambda>v. \<not> stream_dropped v) (items s), str_offset = AtEnd\<rparr>"
proof -
  from assms obtain fs es where fs: "parse_json P (stringify P (stream_toJSON s)) = Some (JObject fs)"
    "json_get (JObject fs) ''stream'' = JArray es" "list_all2 (\<lambda>v e. entry_reads P (stream_as_prop v) e) (items s) es"
    by (auto simp: stream_text_ok_def simp del: json_get.simps split: option.splits json.splits)
  show ?thesis
    by (rule that [of "JObject fs"]) (use fs stream_steps [OF fs(3), of empty_stream] in
      \<open>simp_all add: stream_fromJSON_def empty_stream_def stream_begin_def del: json_get.simps\<close>)
qed

text \<open>Draining a stream after \<open>reset\<close> returns every value that was written, in order.\<close>

fun stream_drain :: "nat \<Rightarrow> pstream \<Rightarrow> stream_value list" where
  "stream_drain 0 s = []"
| "stream_drain (Suc n) s =
     (case nextValueType s of
        Inl _ \<Rightarrow> []
      | Inr t \<Rightarrow> (case nextValue t s of
          Inl _ \<Rightarrow> []
        | Inr (v, s') \<Rightarrow> v # stream_drain n s'))"

lemma stream_drain_from:
  "i < length (items s) \<Longrightarrow> str_offset s = AtItem i \<Longrightarrow> length (items s) - i \<le> n \<Longrightarrow>
     stream_drain n s = drop i (items s)"
proof (induction n arbitrary: s i)
  case 0
  then show ?case by simp
next
  case (Suc n)
  have hd: "drop i (items s) = items s ! i # drop (Suc i) (items s)"
    using Suc.prems(1) by (simp add: Cons_nth_drop_Suc)
  show ?case
  proof (cases "Suc i < length (items s)")
    case True
    with Suc show ?thesis by (simp add: nextValue_def nextValueType_def stream_next_def hd Suc.IH [of "Suc i"])
  next
    case False
    have "stream_drain n (s\<lparr>str_offset := AtEnd\<rparr>) = []" by (cases n) (simp_all add: nextValueType_def)
    with False Suc.prems show ?thesis by (simp add: nextValue_def nextValueType_def stream_next_def hd)
  qed
qed

lemma stream_drain_reset: "stream_drain (length (items s)) (stream_reset s) = items s"
proof (cases "items s = []")
  case True
  then show ?thesis by simp
next
  case False
  then show ?thesis
    using stream_drain_from [of 0 "stream_reset s" "length (items s)"]
    by (simp add: stream_reset_def stream_begin_def)
qed

section \<open>A concrete instance of the JSON and UUID services\<close>

text \<open>\<open>sample_poco j\<close> writes every document as one text and reads that text back as \<open>j\<close>; like Poco's, its
  conversion to a character takes the first one of a text.  It shows that the assumptions can hold.\<close>

definition sample_poco :: "json \<Rightarrow> poco" where
  "sample_poco j = \<lparr>stringify = (\<lambda>_. ''{}''), parse_json = (\<lambda>s. if s = ''{}'' then Some j else None),
     conv_bool = (\<lambda>v. case v of JBool b \<Rightarrow> Some b | _ \<Rightarrow> None),
     conv_char = (\<lambda>v. case v of JChar c \<Rightarrow> Some c | JString (c # _) \<Rightarrow> Some c | _ \<Rightarrow> None),
     conv_int = (\<lambda>n v. case v of JNum i \<Rightarrow> if - (2 ^ (n - 1)) \<le> i \<and> i < 2 ^ (n - 1) then Some i else None | _ \<Rightarrow> None),
     conv_float = (\<lambda>v. case v of JReal x \<Rightarrow> Some x | _ \<Rightarrow> None),
     conv_double = (\<lambda>v. case v of JReal x \<Rightarrow> Some x | _ \<Rightarrow> None),
     conv_string = (\<lambda>v. case v of JString x \<Rightarrow> Some x | _ \<Rightarrow> None),
     uuid_toString = (\<lambda>u. map (\<lambda>i. if bit u i then CHR ''1'' else CHR ''0'') [0..<128]),
     uuid_parse = (\<lambda>s. if length s = 128 then Some (horner_sum of_bool 2 (map (\<lambda>c. c = CHR ''1'') s)) else None)\<rparr>"

lemma sample_poco_uuid [simp]: "uuid_parse (sample_poco j) (uuid_toString (sample_poco j) u) = Some u"
proof -
  have "horner_sum of_bool 2 (map (bit u) [0..<128]) = u"
    by (simp add: horner_sum_bit_eq_take_bit take_bit_word_eq_self)
  moreover have "map (\<lambda>c. c = CHR ''1'') (map (\<lambda>i. if bit u i then CHR ''1'' else CHR ''0'') [0..<128]) = map (bit u) [0..<128]"
    by simp
  ultimately show ?thesis by (simp add: sample_poco_def del: map_map)
qed

end
