(* ===== verification/Message.thy ===== *)
theory Message
  imports Message_Property
begin

text \<open>
  Messages: \<open>Message.h\<close>, \<open>Message.cpp\<close> and the five message classes, with the
  binary wire format that goes to storage, and the two readers of \<open>Destination.cpp\<close> that
  pick the priority and the delivery time out of a stored record by offset.  A message is a record;
  messages that are shared through \<open>Message::Ptr\<close> live in the broker's store (theory
  \<open>Broker_State\<close>), so the in-flight links are store addresses.
\<close>

section \<open>Data\<close>

record headers =
  messageId :: string
  timestamp :: int64
  expiration :: int64
  deliveryTime :: int64
  priority :: int32
  deliveryCount :: int32
  redelivered :: bool
  replyTo :: string
  correlationId :: string
  jmsType :: string

definition default_headers :: headers where
  "default_headers = \<lparr>messageId = [], timestamp = 0, expiration = 0, deliveryTime = 0, priority = 4,
     deliveryCount = 0, redelivered = False, replyTo = [], correlationId = [], jmsType = []\<rparr>"

datatype reliability_mode = NOT_PERSISTENT | PERSISTENT

datatype msg_type = UNDEFINED | TEXT_MESSAGE | STREAM_MESSAGE | BYTES_MESSAGE | MAP_MESSAGE | OBJECT_MESSAGE

fun type_code :: "msg_type \<Rightarrow> byte" where
  "type_code UNDEFINED = 0"
| "type_code TEXT_MESSAGE = 1"
| "type_code STREAM_MESSAGE = 2"
| "type_code BYTES_MESSAGE = 3"
| "type_code MAP_MESSAGE = 4"
| "type_code OBJECT_MESSAGE = 5"

text \<open>The data of the five subclasses.\<close>

datatype msg_body = TextBody string | BytesBody "byte list" | MapBody properties
  | StreamBody pstream | ObjectBody "byte list" string

record persistent_info =
  transaction_dataPath :: string
  transaction_propertiesPath :: string
  payload_dataPath :: string
  payload_propertiesPath :: string
  sent_dataPath :: string
  sent_propertiesPath :: string

definition empty_persistent_info :: persistent_info where
  "empty_persistent_info = \<lparr>transaction_dataPath = [], transaction_propertiesPath = [],
     payload_dataPath = [], payload_propertiesPath = [], sent_dataPath = [], sent_propertiesPath = []\<rparr>"

type_synonym maddr = nat

record inFlightLink =
  link_next :: "maddr option"
  link_prev :: "maddr option"
  link_owner :: "nat option"   \<comment> \<open>the consumer, by its address\<close>

definition no_link :: inFlightLink where
  "no_link = \<lparr>link_next = None, link_prev = None, link_owner = None\<rparr>"

record message =
  number :: int64
  props :: properties
  cachedStorageBytes :: "byte list"
  storageTomId :: uint32
  storageOffset :: uint64
  pendingDeliveryDelay :: int64
  link :: inFlightLink
  uuid :: uuid
  reliability :: reliability_mode
  jmsHeaders :: headers
  persistentInfo :: persistent_info
  body :: msg_body

definition uint32_max :: uint32 where
  "uint32_max = - 1"

definition new_message :: "msg_body \<Rightarrow> uuid \<Rightarrow> reliability_mode \<Rightarrow> message" where
  "new_message b u r = \<lparr>number = 0, props = [], cachedStorageBytes = [], storageTomId = uint32_max,
     storageOffset = 0, pendingDeliveryDelay = 0, link = no_link, uuid = u, reliability = r,
     jmsHeaders = default_headers, persistentInfo = empty_persistent_info, body = b\<rparr>"

fun message_type :: "msg_body \<Rightarrow> msg_type" where
  "message_type (TextBody _) = TEXT_MESSAGE"
| "message_type (BytesBody _) = BYTES_MESSAGE"
| "message_type (MapBody _) = MAP_MESSAGE"
| "message_type (StreamBody _) = STREAM_MESSAGE"
| "message_type (ObjectBody _ _) = OBJECT_MESSAGE"

text \<open>\<open>makeMessageShell\<close>: the empty message of the class whose code is stored.\<close>

definition makeMessageShell :: "byte \<Rightarrow> message option" where
  "makeMessageShell c =
     (if c = 1 then Some (new_message (TextBody []) 0 NOT_PERSISTENT)
      else if c = 3 then Some (new_message (BytesBody []) 0 NOT_PERSISTENT)
      else if c = 4 then Some (new_message (MapBody []) 0 NOT_PERSISTENT)
      else if c = 2 then Some (new_message (StreamBody empty_stream) 0 NOT_PERSISTENT)
      else if c = 5 then Some (new_message (ObjectBody [] []) 0 NOT_PERSISTENT)
      else None)"

text \<open>A copy is in no in-flight chain, and the read position of a stream is not its own; every other
  field is copied.\<close>

fun body_copy :: "msg_body \<Rightarrow> msg_body" where
  "body_copy (StreamBody s) = StreamBody (stream_copy s)"
| "body_copy (TextBody t) = TextBody t"
| "body_copy (BytesBody d) = BytesBody d"
| "body_copy (MapBody ps) = MapBody ps"
| "body_copy (ObjectBody d n) = ObjectBody d n"

definition message_copy :: "message \<Rightarrow> message" where
  "message_copy m = m\<lparr>link := no_link, body := body_copy (body m)\<rparr>"

definition isPersistent :: "message \<Rightarrow> bool" where
  "isPersistent m \<longleftrightarrow> reliability m = PERSISTENT"

definition isExpired :: "message \<Rightarrow> int64 \<Rightarrow> bool" where
  "isExpired m nowMs \<longleftrightarrow>
     expiration (jmsHeaders m) \<noteq> 0 \<and> sint nowMs \<ge> sint (expiration (jmsHeaders m))"

definition kMaxFutureHeaderMs :: int64 where
  "kMaxFutureHeaderMs = 315360000000"

definition message_setProperty :: "string \<Rightarrow> prop_value \<Rightarrow> message \<Rightarrow> message" where
  "message_setProperty n v m = m\<lparr>props := setProperty (props m) n v\<rparr>"

section \<open>Bodies as bytes\<close>

definition json_text :: "poco \<Rightarrow> json \<Rightarrow> byte list" where
  "json_text P j = bytes_of_string (stringify P j)"

definition ObjectMessage_dataAsBytes :: "byte list \<Rightarrow> string \<Rightarrow> byte list" where
  "ObjectMessage_dataAsBytes d n =
     (let nameLen = (of_nat (length n) :: uint32)
      in bytes32 nameLen @ take (unat nameLen) (bytes_of_string n) @ d)"

definition ObjectMessage_setDataFromBytes :: "byte list \<Rightarrow> byte list \<times> string" where
  "ObjectMessage_setDataFromBytes bs =
     (if length bs < 4 then ([], [])
      else let nameLen = unat (read32 bs 0) in
        if 4 + nameLen > length bs then ([], [])
        else (drop (4 + nameLen) bs, string_of_bytes (take nameLen (drop 4 bs))))"

definition MapMessage_dataAsBytes :: "poco \<Rightarrow> properties \<Rightarrow> byte list" where
  "MapMessage_dataAsBytes P ps = (if ps = [] then [] else json_text P (properties_toJSON ps))"

definition MapMessage_setDataFromBytes :: "poco \<Rightarrow> properties \<Rightarrow> byte list \<Rightarrow> prop_error + properties" where
  "MapMessage_setDataFromBytes P ps bs =
     (let cleared = properties_clear ps in
      if bs = [] then Inr cleared
      else case parse_json P (string_of_bytes bs) of
          None \<Rightarrow> Inl JsonError
        | Some j \<Rightarrow> (case json_object j of
            None \<Rightarrow> Inl BadCast
          | Some _ \<Rightarrow> properties_fromJSON P j cleared))"

definition StreamMessage_dataAsBytes :: "poco \<Rightarrow> pstream \<Rightarrow> byte list" where
  "StreamMessage_dataAsBytes P s = (if stream_empty s then [] else json_text P (stream_toJSON s))"

definition StreamMessage_setDataFromBytes :: "poco \<Rightarrow> pstream \<Rightarrow> byte list \<Rightarrow> prop_error + pstream" where
  "StreamMessage_setDataFromBytes P s bs =
     (let cleared = stream_clear s in
      if bs = [] then Inr cleared
      else case parse_json P (string_of_bytes bs) of
          None \<Rightarrow> Inl JsonError
        | Some j \<Rightarrow> (case json_object j of
            None \<Rightarrow> Inl BadCast
          | Some _ \<Rightarrow> stream_fromJSON P j cleared))"

lemmas body_class_defs [simp] =
  ObjectMessage_dataAsBytes_def ObjectMessage_setDataFromBytes_def MapMessage_dataAsBytes_def
  MapMessage_setDataFromBytes_def StreamMessage_dataAsBytes_def StreamMessage_setDataFromBytes_def

text \<open>The virtual functions of \<open>Message\<close>, by the class of the body.\<close>

fun dataAsBytes :: "poco \<Rightarrow> msg_body \<Rightarrow> byte list" where
  "dataAsBytes P (TextBody t) = bytes_of_string t"
| "dataAsBytes P (BytesBody d) = d"
| "dataAsBytes P (MapBody ps) = MapMessage_dataAsBytes P ps"
| "dataAsBytes P (StreamBody s) = StreamMessage_dataAsBytes P s"
| "dataAsBytes P (ObjectBody d n) = ObjectMessage_dataAsBytes d n"

fun setDataFromBytes :: "poco \<Rightarrow> msg_body \<Rightarrow> byte list \<Rightarrow> prop_error + msg_body" where
  "setDataFromBytes P (TextBody t) bs = Inr (TextBody (string_of_bytes bs))"
| "setDataFromBytes P (BytesBody d) bs = Inr (BytesBody bs)"
| "setDataFromBytes P (MapBody ps) bs = map_sum id MapBody (MapMessage_setDataFromBytes P ps bs)"
| "setDataFromBytes P (StreamBody s) bs = map_sum id StreamBody (StreamMessage_setDataFromBytes P s bs)"
| "setDataFromBytes P (ObjectBody d n) bs =
     (case ObjectMessage_setDataFromBytes bs of (d', n') \<Rightarrow> Inr (ObjectBody d' n'))"

fun clearData :: "msg_body \<Rightarrow> msg_body" where
  "clearData (TextBody t) = TextBody []"
| "clearData (BytesBody d) = BytesBody []"
| "clearData (MapBody ps) = MapBody (properties_clear ps)"
| "clearData (StreamBody s) = StreamBody (stream_clear s)"
| "clearData (ObjectBody d n) = ObjectBody [] []"

section \<open>The wire format\<close>

definition writeString :: "string \<Rightarrow> byte list" where
  "writeString s =
     (let len = (of_nat (length s) :: uint32)
      in bytes32 len @ take (unat len) (bytes_of_string s))"

definition readString :: "byte list \<Rightarrow> nat \<Rightarrow> (string \<times> nat) option" where
  "readString bs off =
     (if off + 4 > length bs then None
      else let len = unat (read32 bs off) in
        if off + 4 + len > length bs then None
        else Some (string_of_bytes (take len (drop (off + 4) bs)), off + 4 + len))"

fun reliability_byte :: "reliability_mode \<Rightarrow> byte" where
  "reliability_byte NOT_PERSISTENT = 0"
| "reliability_byte PERSISTENT = 1"

definition kFixed :: nat where "kFixed = 1 + 8 + 16 + 1"
definition kHdrNums :: nat where "kHdrNums = 8 * 3 + 4 * 2 + 1"

definition propsJson :: "poco \<Rightarrow> properties \<Rightarrow> string" where
  "propsJson P ps = (if ps = [] then [] else stringify P (properties_toJSON ps))"

text \<open>The bytes up to the header strings: magic, number, UUID, reliability and the numeric headers.\<close>

definition fixed_block :: "message \<Rightarrow> byte list" where
  "fixed_block m =
     [2] @ bytes64 (number m) @ uuid_bytes (uuid m) @ [reliability_byte (reliability m)]
     @ bytes64 (timestamp (jmsHeaders m)) @ bytes64 (expiration (jmsHeaders m))
     @ bytes64 (deliveryTime (jmsHeaders m)) @ bytes32 (priority (jmsHeaders m))
     @ bytes32 (deliveryCount (jmsHeaders m)) @ [if redelivered (jmsHeaders m) then 1 else 0]"

definition toBytes :: "poco \<Rightarrow> message \<Rightarrow> byte list" where
  "toBytes P m =
     (let dat = dataAsBytes P (body m);
          h = jmsHeaders m;
          pj = propsJson P (props m);
          propsLen = (of_nat (length pj) :: uint32);
          kHdrStrs = 4 * 4 + length (messageId h) + length (replyTo h) + length (correlationId h)
                     + length (jmsType h);
          total = kFixed + kHdrNums + kHdrStrs + 4 + unat propsLen + length dat;
          out = fixed_block m
                @ writeString (messageId h) @ writeString (replyTo h)
                @ writeString (correlationId h) @ writeString (jmsType h)
                @ bytes32 propsLen @ take (unat propsLen) (bytes_of_string pj) @ dat
      in out @ replicate (total - length out) 0)"

text \<open>\<open>setPropertiesFromBytes\<close>, the reader of the JSON blob of the oldest format.\<close>

definition json_str :: "poco \<Rightarrow> json \<Rightarrow> string \<Rightarrow> prop_error + string" where
  "json_str P j n = or_throw (conv_string P (json_get j n))"

definition setPropertiesFromBytes :: "poco \<Rightarrow> message \<Rightarrow> byte list \<Rightarrow> prop_error + message" where
  "setPropertiesFromBytes P m bs =
     (if bs = [] then Inr (m\<lparr>props := []\<rparr>)
      else case parse_json P (string_of_bytes bs) of
        None \<Rightarrow> Inl JsonError
      | Some j \<Rightarrow>
        (case (conv_int P 64 (json_get j ''number''), Option.bind (conv_string P (json_get j ''uuid'')) (uuid_parse P),
               conv_string P (json_get j ''reliability'')) of
           (Some n, Some u, Some r) \<Rightarrow>
             (let pi = json_get j ''persistentInfo'';
                  s = (\<lambda>sec n. conv_string P (json_get (json_get pi sec) n))
              in case (s ''payload'' ''dataPath'', s ''payload'' ''propertiesPath'',
                       s ''sent'' ''dataPath'', s ''sent'' ''propertiesPath'',
                       s ''transaction'' ''dataPath'', s ''transaction'' ''propertiesPath'') of
                   (Some pd, Some pp, Some sd, Some sp, Some td, Some tp) \<Rightarrow>
                     (case properties_fromJSON P (json_get j ''properties'') [] of
                        Inl e \<Rightarrow> Inl e
                      | Inr ps \<Rightarrow> Inr (m\<lparr>number := of_int n, uuid := u,
                          reliability := (if r = ''PERSISTENT'' then PERSISTENT else NOT_PERSISTENT),
                          persistentInfo := \<lparr>transaction_dataPath = td, transaction_propertiesPath = tp,
                            payload_dataPath = pd, payload_propertiesPath = pp,
                            sent_dataPath = sd, sent_propertiesPath = sp\<rparr>,
                          props := ps\<rparr>))
                 | _ \<Rightarrow> Inl JsonError)
         | _ \<Rightarrow> Inl JsonError))"

text \<open>\<open>propertiesToJSON\<close> and \<open>propertiesAsBytes\<close>, its writer.\<close>

definition message_propertiesToJSON :: "poco \<Rightarrow> message \<Rightarrow> json" where
  "message_propertiesToJSON P m =
     (let pi = persistentInfo m in
      JObject
       [(''properties'', properties_toJSON (props m)),
        (''number'', JNum (sint (number m))),
        (''uuid'', JString (uuid_toString P (uuid m))),
        (''reliability'', JString (if reliability m = NOT_PERSISTENT then ''NOT_PERSISTENT'' else ''PERSISTENT'')),
        (''persistentInfo'', JObject
          [(''transaction'', JObject [(''dataPath'', JString (transaction_dataPath pi)),
                                      (''propertiesPath'', JString (transaction_propertiesPath pi))]),
           (''payload'', JObject [(''dataPath'', JString (payload_dataPath pi)),
                                  (''propertiesPath'', JString (payload_propertiesPath pi))]),
           (''sent'', JObject [(''dataPath'', JString (sent_dataPath pi)),
                               (''propertiesPath'', JString (sent_propertiesPath pi))])])])"

definition propertiesAsBytes :: "poco \<Rightarrow> message \<Rightarrow> byte list" where
  "propertiesAsBytes P m = (if props m = [] then [] else json_text P (message_propertiesToJSON P m))"

text \<open>\<open>fromBytes\<close>: an early \<open>return\<close> keeps what was read so far.\<close>

definition set_data :: "poco \<Rightarrow> message \<Rightarrow> byte list \<Rightarrow> prop_error + message" where
  "set_data P m bs = map_sum id (\<lambda>b. m\<lparr>body := b\<rparr>) (setDataFromBytes P (body m) bs)"

definition fromBytes_tail :: "poco \<Rightarrow> message \<Rightarrow> byte list \<Rightarrow> nat \<Rightarrow> prop_error + message" where
  "fromBytes_tail P m bs off =
     (if off + 4 > length bs then Inr m
      else
        let propsLen = unat (read32 bs off); off1 = off + 4;
            rest = (\<lambda>m' off'. if off' < length bs then set_data P m' (drop off' bs) else Inr m')
        in if propsLen > 0 \<and> off1 + propsLen \<le> length bs
           then (case parse_json P (string_of_bytes (take propsLen (drop off1 bs))) of
                   None \<Rightarrow> Inl JsonError
                 | Some j \<Rightarrow>
                     (case properties_fromJSON P j (props m) of
                        Inl e \<Rightarrow> Inl e
                      | Inr ps \<Rightarrow> rest (m\<lparr>props := ps\<rparr>) (off1 + propsLen)))
           else rest m off1)"

definition read_numeric_headers :: "headers \<Rightarrow> byte list \<Rightarrow> nat \<Rightarrow> headers" where
  "read_numeric_headers h bs off = h\<lparr>timestamp := read64 bs off, expiration := read64 bs (off + 8),
     deliveryTime := read64 bs (off + 16), priority := read32 bs (off + 24),
     deliveryCount := read32 bs (off + 28), redelivered := bs ! (off + 32) \<noteq> 0\<rparr>"

text \<open>The four header strings; \<open>Inl\<close> is the truncated case with the headers read so far.\<close>

definition read_string_headers :: "headers \<Rightarrow> byte list \<Rightarrow> nat \<Rightarrow> headers + headers \<times> nat" where
  "read_string_headers h bs off =
     (case readString bs off of None \<Rightarrow> Inl h | Some (s1, o1) \<Rightarrow>
      let h1 = h\<lparr>messageId := s1\<rparr> in
      (case readString bs o1 of None \<Rightarrow> Inl h1 | Some (s2, o2) \<Rightarrow>
       let h2 = h1\<lparr>replyTo := s2\<rparr> in
       (case readString bs o2 of None \<Rightarrow> Inl h2 | Some (s3, o3) \<Rightarrow>
        let h3 = h2\<lparr>correlationId := s3\<rparr> in
        (case readString bs o3 of None \<Rightarrow> Inl h3 | Some (s4, o4) \<Rightarrow>
         Inr (h3\<lparr>jmsType := s4\<rparr>, o4)))))"

definition fromBytes_legacy :: "poco \<Rightarrow> message \<Rightarrow> byte list \<Rightarrow> prop_error + message" where
  "fromBytes_legacy P m bs =
     (if length bs < 8 then Inr m
      else let propsSize = unat (read64 bs 0) in
        if propsSize \<ge> 2 ^ 63 then Inl OutOfRange \<comment> \<open>\<open>std::length_error\<close> of the vector\<close>
        else
          let blob = (if propsSize > 0 \<and> 8 + propsSize \<le> length bs then take propsSize (drop 8 bs)
                      else replicate propsSize 0)
          in case setPropertiesFromBytes P m blob of
               Inl e \<Rightarrow> Inl e
             | Inr m' \<Rightarrow> if 8 + propsSize < length bs then set_data P m' (drop (8 + propsSize) bs) else Inr m')"

definition fromBytes :: "poco \<Rightarrow> message \<Rightarrow> byte list \<Rightarrow> prop_error + message" where
  "fromBytes P m bs =
     (if bs = [] then Inr m
      else if bs ! 0 = 1 \<or> bs ! 0 = 2 then
        if length bs < kFixed then Inr m
        else
          let m1 = m\<lparr>number := read64 bs 1, uuid := uuid_of_bytes (take 16 (drop 9 bs)),
                     reliability := (if bs ! 25 \<noteq> 0 then PERSISTENT else NOT_PERSISTENT)\<rparr>
          in if bs ! 0 = 2 then
               if kFixed + kHdrNums > length bs then Inr m1
               else (case read_string_headers (read_numeric_headers (jmsHeaders m1) bs kFixed) bs
                            (kFixed + kHdrNums) of
                       Inl h \<Rightarrow> Inr (m1\<lparr>jmsHeaders := h\<rparr>)
                     | Inr (h, off) \<Rightarrow> fromBytes_tail P (m1\<lparr>jmsHeaders := h\<rparr>) bs off)
             else fromBytes_tail P (m1\<lparr>jmsHeaders := default_headers\<rparr>) bs kFixed
      else fromBytes_legacy P m bs)"

section \<open>Stored records\<close>

text \<open>The layout of a stored record: the type byte, then \<open>toBytes\<close>.\<close>

definition storage_bytes :: "poco \<Rightarrow> message \<Rightarrow> byte list" where
  "storage_bytes P m = type_code (message_type (body m)) # toBytes P m"

definition patchDeliveryTimeInBytes :: "byte list \<Rightarrow> int64 \<Rightarrow> byte list" where
  "patchDeliveryTimeInBytes dat t =
     (if length dat < 43 + 8 then dat
      else if dat ! 1 \<noteq> 2 then dat
      else memcpy_at dat 43 (bytes64 t))"

definition patchCachedDeliveryTime :: "int64 \<Rightarrow> message \<Rightarrow> message" where
  "patchCachedDeliveryTime t m =
     (if length (cachedStorageBytes m) < 43 + 8 then m
      else if cachedStorageBytes m ! 1 \<noteq> 2 then m
      else m\<lparr>cachedStorageBytes := memcpy_at (cachedStorageBytes m) 43 (bytes64 t)\<rparr>)"

definition refreshCachedStorageBytes :: "poco \<Rightarrow> message \<Rightarrow> message" where
  "refreshCachedStorageBytes P m =
     (if \<not> isPersistent m then m else m\<lparr>cachedStorageBytes := storage_bytes P m\<rparr>)"

definition priorityFromStorageBytes :: "byte list \<Rightarrow> int32" where
  "priorityFromStorageBytes dat =
     (if length dat < 51 + 4 then 4
      else if dat ! 1 \<noteq> 2 then 4
      else of_nat (clamp_prio (read32 dat 51)))"

definition deliveryTimeFromStorageBytes :: "int64 \<Rightarrow> byte list \<Rightarrow> int64" where
  "deliveryTimeFromStorageBytes nowMs dat =
     (if length dat < 43 + 8 then 0
      else if dat ! 1 \<noteq> 2 then 0
      else let t = read64 dat 43 in
        if sint t < 0 \<or> sint t > sint (nowMs + kMaxFutureHeaderMs) then 0 else t)"

section \<open>Layout of the wire format\<close>

lemma length_fixed_block [simp]: "length (fixed_block m) = 59"
  by (simp add: fixed_block_def)

lemma fixed_block_fields [wire_simps]:
  "(fixed_block m @ r) ! 0 = 2"
  "read64 (fixed_block m @ r) 1 = number m"
  "uuid_of_bytes (take 16 (drop 9 (fixed_block m @ r))) = uuid m"
  "(fixed_block m @ r) ! 25 = reliability_byte (reliability m)"
  "read64 (fixed_block m @ r) 26 = timestamp (jmsHeaders m)"
  "read64 (fixed_block m @ r) 34 = expiration (jmsHeaders m)"
  "read64 (fixed_block m @ r) 42 = deliveryTime (jmsHeaders m)"
  "read32 (fixed_block m @ r) 50 = priority (jmsHeaders m)"
  "read32 (fixed_block m @ r) 54 = deliveryCount (jmsHeaders m)"
  "(fixed_block m @ r) ! 58 = (if redelivered (jmsHeaders m) then 1 else 0)"
  by (simp_all add: fixed_block_def read64_def read32_def nth_append)

lemma read_numeric_headers_block:
  "read_numeric_headers h (fixed_block m @ r) 26 =
     h\<lparr>timestamp := timestamp (jmsHeaders m), expiration := expiration (jmsHeaders m),
       deliveryTime := deliveryTime (jmsHeaders m), priority := priority (jmsHeaders m),
       deliveryCount := deliveryCount (jmsHeaders m), redelivered := redelivered (jmsHeaders m)\<rparr>"
  using fixed_block_fields [of m r] by (simp add: read_numeric_headers_def)

lemma unat_of_nat32: "n < 2 ^ 32 \<Longrightarrow> unat (of_nat n :: 32 word) = n"
  by (simp add: unat_of_nat)

lemma writeString_eq:
  "length s < 2 ^ 32 \<Longrightarrow> writeString s = bytes32 (of_nat (length s)) @ bytes_of_string s"
  by (simp add: writeString_def unat_of_nat32)

lemma length_writeString: "length s < 2 ^ 32 \<Longrightarrow> length (writeString s) = 4 + length s"
  by (simp add: writeString_eq)

lemma readString_at:
  assumes "length s < 2 ^ 32"
  shows "readString (pre @ writeString s @ post) (length pre) = Some (s, length pre + 4 + length s)"
  using assms by (simp add: readString_def writeString_eq read32_def unat_of_nat32 Let_def)

definition headers_ok :: "headers \<Rightarrow> bool" where
  "headers_ok h \<longleftrightarrow> length (messageId h) < 2 ^ 32 \<and> length (replyTo h) < 2 ^ 32 \<and>
     length (correlationId h) < 2 ^ 32 \<and> length (jmsType h) < 2 ^ 32"

definition props_ok :: "poco \<Rightarrow> properties \<Rightarrow> bool" where
  "props_ok P ps \<longleftrightarrow> ps \<noteq> [] \<longrightarrow> props_text_ok P ps \<and> length (stringify P (properties_toJSON ps)) < 2 ^ 32"

fun body_ok :: "poco \<Rightarrow> msg_body \<Rightarrow> bool" where
  "body_ok P (TextBody t) = True"
| "body_ok P (BytesBody d) = True"
| "body_ok P (MapBody ps) = (ps \<noteq> [] \<longrightarrow> props_text_ok P ps)"
| "body_ok P (StreamBody s) = (\<not> stream_empty s \<longrightarrow> stream_text_ok P s)"
| "body_ok P (ObjectBody b n) = (length n < 2 ^ 32)"

text \<open>The four header strings, the JSON text of the properties and a type name have lengths below \<open>2 ^ 32\<close>, and
  Poco's text of the properties and of the body gives back the values that were written.\<close>

definition wire_ok :: "poco \<Rightarrow> message \<Rightarrow> bool" where
  "wire_ok P m \<longleftrightarrow> headers_ok (jmsHeaders m) \<and> props_ok P (props m) \<and> body_ok P (body m)"

text \<open>No property and no entry of a map body is null, byte arrays excepted.\<close>

fun body_null_free :: "msg_body \<Rightarrow> bool" where
  "body_null_free (MapBody ps) = null_free ps"
| "body_null_free _ = True"

definition readable :: "message \<Rightarrow> bool" where
  "readable m \<longleftrightarrow> null_free (props m) \<and> body_null_free (body m)"

definition string_block :: "headers \<Rightarrow> byte list" where
  "string_block h = writeString (messageId h) @ writeString (replyTo h)
     @ writeString (correlationId h) @ writeString (jmsType h)"

lemma length_string_block:
  "headers_ok h \<Longrightarrow> length (string_block h) =
     16 + length (messageId h) + length (replyTo h) + length (correlationId h) + length (jmsType h)"
  by (simp add: string_block_def headers_ok_def length_writeString)

lemma length_propsJson: "props_ok P ps \<Longrightarrow> length (propsJson P ps) < 2 ^ 32"
  by (auto simp: props_ok_def propsJson_def)

lemma toBytes_eq:
  assumes "wire_ok P m"
  shows "toBytes P m = fixed_block m @ string_block (jmsHeaders m)
     @ bytes32 (of_nat (length (propsJson P (props m)))) @ bytes_of_string (propsJson P (props m))
     @ dataAsBytes P (body m)"
proof -
  have h: "headers_ok (jmsHeaders m)" and pl: "length (propsJson P (props m)) < 2 ^ 32"
    using assms length_propsJson by (auto simp: wire_ok_def)
  note sb = length_string_block [OF h]
  from pl have "unat (of_nat (length (propsJson P (props m))) :: uint32) = length (propsJson P (props m))"
    by (rule unat_of_nat32)
  with sb show ?thesis
    by (simp add: toBytes_def Let_def kFixed_def kHdrNums_def string_block_def)
qed

text \<open>Whatever the message, the serialised form starts with the fixed block.\<close>

lemma toBytes_starts: "\<exists>r. toBytes P m = fixed_block m @ r"
  by (simp add: toBytes_def Let_def)

lemma read_string_headers_block:
  assumes "headers_ok k" "length pre = off"
  shows "read_string_headers h (pre @ string_block k @ post) off =
     Inr (h\<lparr>messageId := messageId k, replyTo := replyTo k, correlationId := correlationId k,
            jmsType := jmsType k\<rparr>, off + length (string_block k))"
proof -
  let ?w1 = "writeString (messageId k)" and ?w2 = "writeString (replyTo k)"
  let ?w3 = "writeString (correlationId k)" and ?w4 = "writeString (jmsType k)"
  let ?bs = "pre @ ?w1 @ ?w2 @ ?w3 @ ?w4 @ post"
  have l: "length (messageId k) < 2 ^ 32" "length (replyTo k) < 2 ^ 32"
      "length (correlationId k) < 2 ^ 32" "length (jmsType k) < 2 ^ 32"
    using assms(1) by (auto simp: headers_ok_def)
  note w = length_writeString [OF l(1)] length_writeString [OF l(2)] length_writeString [OF l(3)]
    length_writeString [OF l(4)]
  have 1: "readString ?bs off = Some (messageId k, off + 4 + length (messageId k))"
    using readString_at [OF l(1), of pre "?w2 @ ?w3 @ ?w4 @ post"] assms(2) by simp
  have 2: "readString ?bs (off + 4 + length (messageId k)) =
      Some (replyTo k, off + 4 + length (messageId k) + 4 + length (replyTo k))"
    using readString_at [OF l(2), of "pre @ ?w1" "?w3 @ ?w4 @ post"] assms(2) w by (simp add: add.assoc)
  have 3: "readString ?bs (off + 4 + length (messageId k) + 4 + length (replyTo k)) =
      Some (correlationId k, off + 4 + length (messageId k) + 4 + length (replyTo k) + 4 + length (correlationId k))"
    using readString_at [OF l(3), of "pre @ ?w1 @ ?w2" "?w4 @ post"] assms(2) w by (simp add: add.assoc)
  have 4: "readString ?bs (off + 4 + length (messageId k) + 4 + length (replyTo k) + 4 + length (correlationId k)) =
      Some (jmsType k, off + 4 + length (messageId k) + 4 + length (replyTo k) + 4 + length (correlationId k)
        + 4 + length (jmsType k))"
    using readString_at [OF l(4), of "pre @ ?w1 @ ?w2 @ ?w3" post] assms(2) w by (simp add: add.assoc)
  have bs: "pre @ string_block k @ post = ?bs"
    by (simp add: string_block_def)
  show ?thesis
    unfolding bs read_string_headers_def 1 option.case prod.case Let_def 2 3 4
    using length_string_block [OF assms(1)] by simp
qed

section \<open>The body round trip\<close>

text \<open>What the reader makes of a body: empty byte arrays are not kept, and a stream is positioned at its end.\<close>

fun stored_body :: "msg_body \<Rightarrow> msg_body" where
  "stored_body (StreamBody s) = StreamBody (s\<lparr>items := filter (\<lambda>v. \<not> stream_dropped v) (items s), str_offset := AtEnd\<rparr>)"
| "stored_body (MapBody ps) = MapBody (kept_props ps)"
| "stored_body b = b"

text \<open>The same body, whatever the order of the entries of a map.\<close>

fun same_body :: "msg_body \<Rightarrow> msg_body \<Rightarrow> bool" where
  "same_body (MapBody ps) (MapBody qs) \<longleftrightarrow> map_of ps = map_of qs"
| "same_body b b' \<longleftrightarrow> b = b'"

lemma same_body_refl [simp]: "same_body b b"
  by (cases b) simp_all

fun shell_body :: "msg_body \<Rightarrow> msg_body" where
  "shell_body (TextBody _) = TextBody []"
| "shell_body (BytesBody _) = BytesBody []"
| "shell_body (MapBody _) = MapBody []"
| "shell_body (StreamBody _) = StreamBody empty_stream"
| "shell_body (ObjectBody _ _) = ObjectBody [] []"

lemma stream_copy_simps [simp]:
  "items (stream_copy s) = items s" "stream_toJSON (stream_copy s) = stream_toJSON s" "stream_empty (stream_copy s) = stream_empty s"
  "(stream_copy s)\<lparr>items := xs, str_offset := p\<rparr> = s\<lparr>items := xs, str_offset := p\<rparr>" "stream_copy (stream_copy s) = stream_copy s"
  by (simp_all add: stream_copy_def stream_toJSON_def stream_empty_def)

lemma stream_text_ok_copy [simp]: "stream_text_ok P (stream_copy s) = stream_text_ok P s"
  by (simp only: stream_text_ok_def stream_copy_simps)

lemma body_copy_simps [simp]:
  "dataAsBytes P (body_copy b) = dataAsBytes P b" "message_type (body_copy b) = message_type b"
  "shell_body (body_copy b) = shell_body b" "stored_body (body_copy b) = stored_body b"
  "body_ok P (body_copy b) = body_ok P b" "body_copy (body_copy b) = body_copy b" "body_null_free (body_copy b) = body_null_free b"
  by (cases b; simp)+

lemma message_copy_fields [simp]:
  "uuid (message_copy m) = uuid m" "reliability (message_copy m) = reliability m" "number (message_copy m) = number m"
  "jmsHeaders (message_copy m) = jmsHeaders m" "props (message_copy m) = props m" "link (message_copy m) = no_link"
  "body (message_copy m) = body_copy (body m)" "isPersistent (message_copy m) = isPersistent m"
  by (simp_all add: message_copy_def isPersistent_def)

lemma stream_clear_shell [simp]: "stream_clear empty_stream = empty_stream"
  by (simp add: stream_clear_def empty_stream_def)

lemma pstream_items_eq: "items s = [] \<Longrightarrow> empty_stream = s\<lparr>str_offset := AtEnd\<rparr>"
  by (cases s) (simp add: empty_stream_def stream_begin_def)

text \<open>What reading the bytes of \<open>m\<close> does to the properties and to the body of the object it is read into.\<close>

definition props_back :: "poco \<Rightarrow> properties \<Rightarrow> properties \<Rightarrow> prop_error + properties" where
  "props_back P ps qs =
     (if ps = [] then Inr qs
      else case parse_json P (stringify P (properties_toJSON ps)) of
          None \<Rightarrow> Inl JsonError
        | Some j \<Rightarrow> properties_fromJSON P j qs)"

definition body_back :: "poco \<Rightarrow> msg_body \<Rightarrow> msg_body \<Rightarrow> prop_error + msg_body" where
  "body_back P b b' = (if dataAsBytes P b = [] then Inr b' else setDataFromBytes P b' (dataAsBytes P b))"

lemma props_back_eq:
  assumes "props_ok P ps"
  shows "null_free ps \<Longrightarrow> \<exists>qs. props_back P ps [] = Inr qs \<and> map_of qs = map_of (kept_props ps)"
    "null_free ps \<Longrightarrow> props_back P ps ps = Inr ps"
    "\<not> null_free ps \<Longrightarrow> \<exists>e. props_back P ps acc = Inl e"
proof -
  have "(null_free ps \<longrightarrow> (\<exists>qs. props_back P ps [] = Inr qs \<and> map_of qs = map_of (kept_props ps)) \<and> props_back P ps ps = Inr ps) \<and>
    (\<not> null_free ps \<longrightarrow> (\<exists>e. props_back P ps acc = Inl e))"
  proof (cases "ps = []")
    case True
    then show ?thesis by (simp add: props_back_def null_free_def kept_props_def)
  next
    case False
    with assms have "props_text_ok P ps" by (simp add: props_ok_def)
    then obtain j where "parse_json P (stringify P (properties_toJSON ps)) = Some j"
      "null_free ps \<longrightarrow> (\<exists>qs. properties_fromJSON P j [] = Inr qs \<and> map_of qs = map_of (kept_props ps))"
      "null_free ps \<longrightarrow> properties_fromJSON P j ps = Inr ps"
      "\<not> null_free ps \<longrightarrow> (\<forall>acc. \<exists>e. properties_fromJSON P j acc = Inl e)" by (rule properties_read)
    with False show ?thesis by (simp add: props_back_def)
  qed
  then show "null_free ps \<Longrightarrow> \<exists>qs. props_back P ps [] = Inr qs \<and> map_of qs = map_of (kept_props ps)"
    "null_free ps \<Longrightarrow> props_back P ps ps = Inr ps" "\<not> null_free ps \<Longrightarrow> \<exists>e. props_back P ps acc = Inl e" by blast+
qed

text \<open>The readers of a body clear it first, so what was there does not matter.\<close>

lemma setDataFromBytes_shell: "setDataFromBytes P b bs = setDataFromBytes P (shell_body b) bs"
proof (cases b)
  case (StreamBody s)
  have "stream_clear s = stream_clear empty_stream" by (simp add: stream_clear_def)
  with StreamBody show ?thesis by (simp cong: option.case_cong)
qed (simp_all add: properties_clear_def)

lemma setDataFromBytes_dataAsBytes:
  assumes "body_ok P b" "dataAsBytes P b \<noteq> []"
  shows "body_null_free b \<Longrightarrow> \<exists>B. setDataFromBytes P b (dataAsBytes P b) = Inr B \<and> same_body B (stored_body b)"
    "\<not> body_null_free b \<Longrightarrow> \<exists>e. setDataFromBytes P b (dataAsBytes P b) = Inl e"
proof -
  have "if body_null_free b then \<exists>B. setDataFromBytes P b (dataAsBytes P b) = Inr B \<and> same_body B (stored_body b)
    else \<exists>e. setDataFromBytes P b (dataAsBytes P b) = Inl e"
  proof (cases b)
    case (MapBody ps)
    with assms have t: "props_text_ok P ps" "ps \<noteq> []" by auto
    from t(1) obtain j where "parse_json P (stringify P (properties_toJSON ps)) = Some j" "json_object j \<noteq> None"
      "null_free ps \<longrightarrow> (\<exists>qs. properties_fromJSON P j [] = Inr qs \<and> map_of qs = map_of (kept_props ps))"
      "\<not> null_free ps \<longrightarrow> (\<forall>acc. \<exists>e. properties_fromJSON P j acc = Inl e)" by (rule properties_read)
    moreover from this(4) have "\<not> null_free ps \<longrightarrow> (\<exists>e. properties_fromJSON P j [] = Inl e)" by blast
    ultimately show ?thesis using MapBody t(2) assms(2) by (cases "null_free ps") (fastforce simp: json_text_def properties_clear_def)+
  next
    case (StreamBody s)
    with assms have t: "stream_text_ok P s" "\<not> stream_empty s" by (auto split: if_splits)
    have "stream_clear s = empty_stream" by (cases s) (simp add: stream_clear_def empty_stream_def)
    moreover have "s\<lparr>items := xs, str_offset := AtEnd\<rparr> = \<lparr>items = xs, str_offset = AtEnd\<rparr>" for xs by (cases s) simp
    moreover obtain j where "parse_json P (stringify P (stream_toJSON s)) = Some j" "json_object j \<noteq> None"
      "stream_fromJSON P j empty_stream = Inr \<lparr>items = filter (\<lambda>v. \<not> stream_dropped v) (items s), str_offset = AtEnd\<rparr>"
      using t(1) by (rule stream_read)
    ultimately show ?thesis using StreamBody t(2) assms(2) by (auto simp: json_text_def)
  next
    case (ObjectBody d n)
    with assms show ?thesis by (auto simp: Let_def unat_of_nat32 read32_def)
  qed auto
  then show "body_null_free b \<Longrightarrow> \<exists>B. setDataFromBytes P b (dataAsBytes P b) = Inr B \<and> same_body B (stored_body b)"
    "\<not> body_null_free b \<Longrightarrow> \<exists>e. setDataFromBytes P b (dataAsBytes P b) = Inl e" by auto
qed

text \<open>A body that is written as no bytes is not read: the object keeps the body it has.\<close>

lemma no_data_body: "body_ok P b \<Longrightarrow> dataAsBytes P b = [] \<Longrightarrow> body_null_free b \<and> same_body (shell_body b) (stored_body b)"
proof (cases b)
  case (ObjectBody d n)
  have "length (bytes32 w @ xs) \<noteq> 0" for w :: uint32 and xs by simp
  moreover assume "dataAsBytes P b = []"
  ultimately show ?thesis using ObjectBody by (metis ObjectMessage_dataAsBytes_def dataAsBytes.simps(5) length_0_conv)
qed (auto simp: json_text_def props_text_ok_def stream_text_ok_def null_free_def kept_props_def stream_empty_def
      pstream_items_eq [symmetric] split: if_splits)

text \<open>The body of an object that is read again over itself.\<close>

definition reread_body :: "poco \<Rightarrow> msg_body \<Rightarrow> msg_body" where
  "reread_body P b = (if dataAsBytes P b = [] then b else stored_body b)"

lemma body_back_eq:
  assumes "body_ok P b"
  shows "body_null_free b \<Longrightarrow> \<exists>B. body_back P b (shell_body b) = Inr B \<and> same_body B (stored_body b)"
    "body_null_free b \<Longrightarrow> \<exists>B. body_back P b b = Inr B \<and> same_body B (reread_body P b)"
    "\<not> body_null_free b \<Longrightarrow> \<exists>e. body_back P b (shell_body b) = Inl e"
  using no_data_body [OF assms] setDataFromBytes_dataAsBytes [OF assms] setDataFromBytes_shell [of P b]
  by (auto simp: body_back_def reread_body_def)

text \<open>Reading the bytes of \<open>m\<close> into \<open>k\<close> leaves the properties \<open>Q\<close> and the body \<open>B\<close>.\<close>

definition reads_into :: "poco \<Rightarrow> message \<Rightarrow> message \<Rightarrow> properties \<Rightarrow> msg_body \<Rightarrow> bool" where
  "reads_into P m k Q B \<longleftrightarrow> props_back P (props m) (props k) = Inr Q \<and> body_back P (body m) (body k) = Inr B"

lemma reads_into_shell:
  assumes "wire_ok P m" "readable m" "props k = []" "body k = shell_body (body m)"
  obtains Q B where "reads_into P m k Q B" "map_of Q = map_of (kept_props (props m))" "same_body B (stored_body (body m))"
  using assms props_back_eq(1) [of P "props m"] body_back_eq(1) [of P "body m"]
  by (force simp: reads_into_def wire_ok_def readable_def)

lemma reads_into_self:
  assumes "wire_ok P m" "readable m" "props k = props m" "body k = body m"
  obtains B where "reads_into P m k (props m) B" "same_body B (reread_body P (body m))"
  using assms props_back_eq(2) [of P "props m"] body_back_eq(2) [of P "body m"]
  by (force simp: reads_into_def wire_ok_def readable_def)

lemma fromBytes_tail_eq:
  assumes ok: "wire_ok P m" and pre: "length pre = off"
  shows "fromBytes_tail P k (pre @ bytes32 (of_nat (length (propsJson P (props m))))
            @ bytes_of_string (propsJson P (props m)) @ dataAsBytes P (body m)) off
         = (case props_back P (props m) (props k) of
              Inl e \<Rightarrow> Inl e
            | Inr Q \<Rightarrow> map_sum id (\<lambda>B. k\<lparr>props := Q, body := B\<rparr>) (body_back P (body m) (body k)))"
proof -
  define pj where "pj = propsJson P (props m)"
  define bs where "bs = pre @ bytes32 (of_nat (length pj)) @ bytes_of_string pj @ dataAsBytes P (body m)"
  have pok: "props_ok P (props m)" using ok by (simp add: wire_ok_def)
  have "unat (of_nat (length pj) :: uint32) = length pj"
    using length_propsJson [OF pok] unfolding pj_def by (rule unat_of_nat32)
  then have len: "unat (read32 bs off) = length pj"
    using pre by (simp add: bs_def wire_simps)
  have dr: "drop (off + 4 + length pj) bs = dataAsBytes P (body m)"
    and lb: "length bs = off + 4 + length pj + length (dataAsBytes P (body m))"
    and rd: "string_of_bytes (take (length pj) (drop (off + 4) bs)) = pj"
    using pre by (simp_all add: bs_def)
  have rest: "(if off + 4 + length pj < length bs
       then set_data P (k\<lparr>props := q\<rparr>) (drop (off + 4 + length pj) bs) else Inr (k\<lparr>props := q\<rparr>))
       = map_sum id (\<lambda>B. k\<lparr>props := q, body := B\<rparr>) (body_back P (body m) (body k))" for q
    by (auto simp: body_back_def set_data_def dr lb)
  have "fromBytes_tail P k bs off = (case props_back P (props m) (props k) of
      Inl e \<Rightarrow> Inl e | Inr Q \<Rightarrow> map_sum id (\<lambda>B. k\<lparr>props := Q, body := B\<rparr>) (body_back P (body m) (body k)))"
  proof (cases "props m = []")
    case True
    then have "pj = []" by (simp add: pj_def propsJson_def)
    then show ?thesis using True dr
      unfolding fromBytes_tail_def Let_def len by (auto simp: lb props_back_def body_back_def set_data_def)
  next
    case False
    with pok have "props_text_ok P (props m)" by (simp add: props_ok_def)
    with False have pj: "pj = stringify P (properties_toJSON (props m))" "pj \<noteq> []"
      by (auto simp: pj_def propsJson_def props_text_ok_def)
    with rest False lb show ?thesis
      unfolding fromBytes_tail_def Let_def len rd by (simp add: props_back_def split: option.split sum.split)
  qed
  then show ?thesis by (simp add: bs_def pj_def)
qed

text \<open>What reading the bytes of a message into any object gives, errors included.\<close>

lemma fromBytes_eq:
  assumes ok: "wire_ok P m"
  shows "fromBytes P k (toBytes P m) =
    (case props_back P (props m) (props k) of
       Inl e \<Rightarrow> Inl e
     | Inr Q \<Rightarrow> map_sum id (\<lambda>B. k\<lparr>number := number m, uuid := uuid m, reliability := reliability m,
           jmsHeaders := jmsHeaders m, props := Q, body := B\<rparr>) (body_back P (body m) (body k)))"
proof -
  let ?t = "bytes32 (of_nat (length (propsJson P (props m)))) @ bytes_of_string (propsJson P (props m))
     @ dataAsBytes P (body m)"
  let ?r = "string_block (jmsHeaders m) @ ?t"
  let ?bs = "fixed_block m @ ?r"
  have eq: "toBytes P m = ?bs" using toBytes_eq [OF ok] by simp
  have h: "headers_ok (jmsHeaders m)" using ok by (simp add: wire_ok_def)
  have hdr: "read_string_headers (read_numeric_headers (jmsHeaders k) ?bs 26) ?bs 59 =
      Inr (jmsHeaders m, 59 + length (string_block (jmsHeaders m)))"
    using read_string_headers_block [OF h, of "fixed_block m" 59 _ ?t]
    by (simp add: read_numeric_headers_block)
  have rel: "(if reliability_byte (reliability m) \<noteq> 0 then PERSISTENT else NOT_PERSISTENT) = reliability m"
    by (cases "reliability m") simp_all
  let ?k = "k\<lparr>number := number m, uuid := uuid m, reliability := reliability m, jmsHeaders := jmsHeaders m\<rparr>"
  have tail: "fromBytes_tail P ?k ?bs (59 + length (string_block (jmsHeaders m))) =
      (case props_back P (props m) (props k) of
         Inl e \<Rightarrow> Inl e
       | Inr Q \<Rightarrow> map_sum id (\<lambda>B. ?k\<lparr>props := Q, body := B\<rparr>) (body_back P (body m) (body k)))"
    using fromBytes_tail_eq [OF ok, of "fixed_block m @ string_block (jmsHeaders m)"
        "59 + length (string_block (jmsHeaders m))" ?k] by (simp cong: sum.case_cong)
  define bs where "bs = ?bs"
  have ne: "bs \<noteq> []" "\<not> length bs < 26" "\<not> 59 > length bs" by (auto simp: bs_def fixed_block_def)
  show ?thesis
    unfolding eq fromBytes_def Let_def kFixed_def kHdrNums_def
    using ne fixed_block_fields [of m ?r] rel hdr tail
    unfolding bs_def [symmetric] by simp
qed

lemma fromBytes_into:
  assumes "wire_ok P m" "reads_into P m k Q B"
  shows "fromBytes P k (toBytes P m) =
    Inr (k\<lparr>number := number m, uuid := uuid m, reliability := reliability m,
           jmsHeaders := jmsHeaders m, props := Q, body := B\<rparr>)"
  using assms by (simp add: fromBytes_eq reads_into_def)

lemma new_message_read:
  "(new_message b 0 NOT_PERSISTENT)\<lparr>number := n, uuid := u, reliability := r, jmsHeaders := h, props := ps, body := B\<rparr> =
   (new_message B u r)\<lparr>number := n, jmsHeaders := h, props := ps\<rparr>"
  by (simp add: new_message_def)

lemma fromBytes_unreadable:
  assumes "wire_ok P m" "\<not> readable m" "body k = shell_body (body m)"
  shows "\<exists>e. fromBytes P k (toBytes P m) = Inl e"
proof (cases "props_back P (props m) (props k)")
  case (Inr Q)
  with assms have "null_free (props m)" using props_back_eq(3) [of P "props m" "props k"] by (auto simp: wire_ok_def)
  with assms obtain e where "body_back P (body m) (body k) = Inl e"
    using body_back_eq(3) [of P "body m"] by (auto simp: wire_ok_def readable_def)
  with Inr assms(1) show ?thesis by (simp add: fromBytes_eq)
qed (use assms(1) in \<open>simp add: fromBytes_eq\<close>)

lemma storage_bytes_starts: "\<exists>r. storage_bytes P m = type_code (message_type (body m)) # fixed_block m @ r"
  using toBytes_starts [of P m] by (auto simp: storage_bytes_def)

text \<open>The offset tables of the stored record, for every message.\<close>

lemma storage_bytes_offsets [wire_simps]:
  "length (storage_bytes P m) \<ge> 60"
  "storage_bytes P m ! 1 = 2"
  "read64 (storage_bytes P m) 35 = expiration (jmsHeaders m)"
  "read64 (storage_bytes P m) 43 = deliveryTime (jmsHeaders m)"
  "read32 (storage_bytes P m) 51 = priority (jmsHeaders m)"
  using storage_bytes_starts [of P m] fixed_block_fields [of m]
  by (auto simp: read64_def read32_def)

lemma makeMessageShell_type:
  "makeMessageShell (type_code (message_type b)) = Some (new_message (shell_body b) 0 NOT_PERSISTENT)"
  by (cases b) (simp_all add: makeMessageShell_def)

lemma fixed_block_patch:
  "memcpy_at (fixed_block m @ r) 42 (bytes64 t) =
     fixed_block (m\<lparr>jmsHeaders := (jmsHeaders m)\<lparr>deliveryTime := t\<rparr>\<rparr>) @ r"
  by (simp add: fixed_block_def memcpy_at_def)

lemma toBytes_patch:
  "memcpy_at (toBytes P m) 42 (bytes64 t) =
     toBytes P (m\<lparr>jmsHeaders := (jmsHeaders m)\<lparr>deliveryTime := t\<rparr>\<rparr>)"
  by (simp add: toBytes_def Let_def fixed_block_patch)

lemma memcpy_storage_bytes:
  "memcpy_at (storage_bytes P m) 43 (bytes64 t) =
     storage_bytes P (m\<lparr>jmsHeaders := (jmsHeaders m)\<lparr>deliveryTime := t\<rparr>\<rparr>)"
  using toBytes_patch [of P m t] by (simp add: storage_bytes_def memcpy_at_def)

section \<open>What the storage relies on\<close>


text \<open>A message with a character, an integer and an empty byte array as properties.  The services read the names
  in another order and the character as a text.\<close>

definition sample_message :: message where
  "sample_message = (new_message (TextBody ''hi'') 99 PERSISTENT)
     \<lparr>number := 5, props := [(''k'', PInt (Some 7)), (''c'', PChar (Some CHR ''x'')), (''e'', PBytes (Some []))],
      jmsHeaders := default_headers\<lparr>messageId := ''ID:x'', priority := 8, expiration := 1000\<rparr>\<rparr>"

definition sample_services :: poco where
  "sample_services = sample_poco (JObject [(''c'', json_entry CHAR_TYPE (JString ''x'')),
     (''e'', json_entry BYTE_ARRAY_TYPE (JArray [])), (''k'', json_entry INTEGER_TYPE (JNum 7))])"

lemma sample_wire_ok: "wire_ok sample_services sample_message"
  by (auto simp: wire_ok_def sample_message_def new_message_def headers_ok_def default_headers_def props_ok_def
      props_text_ok_def sample_services_def sample_poco_def entry_reads_def)


text \<open>A null value of a property is written to the storage, and the record can then not be read: \<open>fromBytes\<close>
  throws.  A null or empty byte array is written, and reads back as no property.\<close>

lemma null_property_cannot_be_read:
  assumes "wire_ok P m" "(n, v) \<in> set (props m)" "prop_null v"
  shows "\<exists>k e. makeMessageShell (hd (storage_bytes P m)) = Some k \<and> fromBytes P k (tl (storage_bytes P m)) = Inl e"
proof -
  have "\<not> readable m" using assms(2,3) by (fastforce simp: readable_def null_free_def list_all_iff)
  then show ?thesis using fromBytes_unreadable [OF assms(1), of "new_message (shell_body (body m)) 0 NOT_PERSISTENT"]
    by (simp add: storage_bytes_def makeMessageShell_type new_message_def)
qed

lemma empty_bytes_property_is_dropped:
  assumes "wire_ok P m" "readable m" "map_of (props m) n = Some (PBytes (Some []))" "distinct (al_keys (props m))"
  shows "\<exists>k m'. makeMessageShell (hd (storage_bytes P m)) = Some k \<and> fromBytes P k (tl (storage_bytes P m)) = Inr m' \<and>
    map_of (props m') n = None"
proof -
  let ?k = "new_message (shell_body (body m)) 0 NOT_PERSISTENT"
  have "props ?k = []" "body ?k = shell_body (body m)" by (simp_all add: new_message_def)
  with assms(1,2) obtain ps B where r: "reads_into P m ?k ps B" "map_of ps = map_of (kept_props (props m))" by (rule reads_into_shell)
  have "n \<notin> fst ` set (kept_props (props m))"
  proof
    assume "n \<in> fst ` set (kept_props (props m))"
    then obtain v where "(n, v) \<in> set (props m)" "\<not> prop_dropped v" by (auto simp: kept_props_def)
    moreover from this(1) have "map_of (props m) n = Some v" using assms(4) by (simp add: al_keys_def)
    ultimately show False using assms(3) by auto
  qed
  then have "map_of (kept_props (props m)) n = None" unfolding map_of_eq_None_iff .
  then show ?thesis using fromBytes_into [OF assms(1) r(1)] r(2)
    by (simp add: storage_bytes_def makeMessageShell_type)
qed

text \<open>The fixed offsets at which the recovery scan and the expiry sweep read a stored record agree
  with the layout \<open>toBytes\<close> writes, for every message: the priority is read clamped to 0..9, the
  delivery time is read as written unless it lies outside the accepted window, and the expiration is
  found at offset 35 behind the version byte.\<close>

lemma storage_offsets_agree:
  "priorityFromStorageBytes (storage_bytes P m) = of_nat (clamp_prio (priority (jmsHeaders m))) \<and>
   deliveryTimeFromStorageBytes nowMs (storage_bytes P m) =
     (let t = deliveryTime (jmsHeaders m) in
      if sint t < 0 \<or> sint t > sint (nowMs + kMaxFutureHeaderMs) then 0 else t) \<and>
   storage_bytes P m ! 1 = 2 \<and> read64 (storage_bytes P m) 35 = expiration (jmsHeaders m)"
  using storage_bytes_offsets [of P m]
  by (simp add: priorityFromStorageBytes_def deliveryTimeFromStorageBytes_def)

text \<open>Patching the delivery time in place, in the message's cache or in the transaction buffer's
  copy, gives the bytes that serialising the message with that delivery time would give.\<close>

lemma patch_is_reserialise:
  "patchDeliveryTimeInBytes (storage_bytes P m) t =
     storage_bytes P (m\<lparr>jmsHeaders := (jmsHeaders m)\<lparr>deliveryTime := t\<rparr>\<rparr>) \<and>
   cachedStorageBytes (patchCachedDeliveryTime t (m\<lparr>cachedStorageBytes := storage_bytes P m\<rparr>)) =
     storage_bytes P (m\<lparr>jmsHeaders := (jmsHeaders m)\<lparr>deliveryTime := t\<rparr>\<rparr>)"
  using storage_bytes_offsets(1,2) [of P m] 
  by (simp add: patchDeliveryTimeInBytes_def patchCachedDeliveryTime_def memcpy_storage_bytes)

end
