(* ===== verification/Concurrent_Storage.thy ===== *)
theory Concurrent_Storage
  imports Linear_Storage Message
begin

text \<open>
  The storage worker: \<open>ConcurrentLinearStorage.h\<close> and \<open>ConcurrentLinearStorage.cpp\<close>.
  Clients put operations into a queue; one worker thread takes them out in order and runs them on the
  linear storage, logging and swallowing what they throw, so that a failed operation answers with the
  fields its \<open>Operation\<close> started with.  A synchronous call enqueues its operation and waits for it: it
  sees the effect of everything queued before.  \<open>removeAsync\<close> only enqueues.  Between two operations the
  worker may run the expiry sweep; the sweep is a step of its own here, with the clock readings as its
  arguments.  A call to a worker that does not run waits forever, which is the value \<open>None\<close>, as is a
  scan that never ends.  The order of the queue is the order of \<open>enqueue\<close> calls, which the queue
  promises for the calls of one thread.
\<close>

section \<open>Operations\<close>

datatype operationId = GET_RECORD_BY_TOM_OFFSET | GET_RECORD_BY_UUID | GET_DATA_BY_RECORD
  | APPEND | REMOVE | STOP | SCAN | APPEND_BATCH

record operation =
  op_id :: operationId
  op_uuid :: uuid
  op_tomId :: uint32
  op_offset :: uint64
  op_data :: "byte list"
  op_record :: srecord
  op_scanResult :: scan_result
  op_batchItems :: "(uuid \<times> byte list) list"
  op_async :: bool

definition new_operation :: "operationId \<Rightarrow> operation" where
  "new_operation i = \<lparr>op_id = i, op_uuid = 0, op_tomId = 0, op_offset = 0, op_data = [],
     op_record = default_record, op_scanResult = [], op_batchItems = [], op_async = False\<rparr>"

record cstorage =
  linearStorage :: storage
  operations :: "operation list"
  isRunning :: bool
  started :: bool
  stopRequested :: bool
  sweepIntervalUs :: int64
  lastSweepUs :: int64
  sweepCursor :: sweepCursor

definition new_cstorage :: "storage \<Rightarrow> cstorage" where
  "new_cstorage st = \<lparr>linearStorage = st, operations = [], isRunning = False, started = False,
     stopRequested = False, sweepIntervalUs = 1000000, lastSweepUs = 0, sweepCursor = start_cursor\<rparr>"

text \<open>The loop of \<open>APPEND_BATCH\<close>: an exception ends it.\<close>

fun append_items :: "bool \<Rightarrow> (uuid \<times> byte list) list \<Rightarrow> storage \<Rightarrow> storage" where
  "append_items wok [] st = st"
| "append_items wok ((u, d) # is) st =
     (case storage_append wok u d st of
        (Inl _, st') \<Rightarrow> st'
      | (Inr _, st') \<Rightarrow> append_items wok is st')"

text \<open>The switch of the worker loop, with its \<open>catch\<close> clauses.\<close>

definition run_operation :: "bool \<Rightarrow> operation \<Rightarrow> storage \<Rightarrow> (operation \<times> storage) option" where
  "run_operation wok opn st =
     (case op_id opn of
        GET_RECORD_BY_TOM_OFFSET \<Rightarrow>
          (case storage_record_at (op_tomId opn) (op_offset opn) st of
             (Inr r, st') \<Rightarrow> Some (opn\<lparr>op_record := r\<rparr>, st')
           | (Inl _, st') \<Rightarrow> Some (opn, st'))
      | GET_RECORD_BY_UUID \<Rightarrow> Some (opn\<lparr>op_record := storage_record (op_uuid opn) st\<rparr>, st)
      | GET_DATA_BY_RECORD \<Rightarrow>
          (case storage_data (op_record opn) st of
             (Inr d, st') \<Rightarrow> Some (opn\<lparr>op_data := d\<rparr>, st')
           | (Inl _, st') \<Rightarrow> Some (opn, st'))
      | APPEND \<Rightarrow>
          (case storage_append wok (op_uuid opn) (op_data opn) st of
             (Inr r, st') \<Rightarrow> Some (opn\<lparr>op_record := r\<rparr>, st')
           | (Inl _, st') \<Rightarrow> Some (opn, st'))
      | REMOVE \<Rightarrow>
          (case storage_remove wok (op_record opn) st of
             (Inr (_, r'), st') \<Rightarrow> Some (opn\<lparr>op_record := r'\<rparr>, st')
           | (Inl _, st') \<Rightarrow> Some (opn, st'))
      | APPEND_BATCH \<Rightarrow> Some (opn, append_items wok (op_batchItems opn) st)
      | SCAN \<Rightarrow>
          (case storage_scan st of
             None \<Rightarrow> None
           | Some (Inr rs, st') \<Rightarrow> Some (opn\<lparr>op_scanResult := rs\<rparr>, st')
           | Some (Inl _, st') \<Rightarrow> Some (opn, st'))
      | STOP \<Rightarrow> Some (opn, st))"

text \<open>One turn of the worker loop that finds an operation.\<close>

definition worker_turn :: "bool \<Rightarrow> cstorage \<Rightarrow> (operation option \<times> cstorage) option" where
  "worker_turn wok cs =
     (case operations cs of
        [] \<Rightarrow> Some (None, cs)
      | opn # ops \<Rightarrow>
          if op_id opn = STOP then Some (Some opn, cs\<lparr>operations := ops, isRunning := False\<rparr>)
          else
            (case run_operation wok opn (linearStorage cs) of
               None \<Rightarrow> None
             | Some (opn', st') \<Rightarrow> Some (Some opn', cs\<lparr>operations := ops, linearStorage := st'\<rparr>)))"

text \<open>Turns until \<open>n\<close> operations are done, or the worker stops; the last one is the answer.\<close>

fun worker_turns :: "bool \<Rightarrow> nat \<Rightarrow> operation option \<Rightarrow> cstorage \<Rightarrow> (operation option \<times> cstorage) option" where
  "worker_turns wok 0 lst cs = Some (lst, cs)"
| "worker_turns wok (Suc n) lst cs =
     (if \<not> isRunning cs then Some (None, cs)
      else
        (case worker_turn wok cs of
           None \<Rightarrow> None
         | Some (lst', cs') \<Rightarrow> worker_turns wok n lst' cs'))"

text \<open>\<open>_operations.enqueue(&operation); operation.event.wait();\<close>\<close>

definition call :: "bool \<Rightarrow> operation \<Rightarrow> cstorage \<Rightarrow> (operation \<times> cstorage) option" where
  "call wok opn cs =
     (case worker_turns wok (Suc (length (operations cs))) None (cs\<lparr>operations := operations cs @ [opn]\<rparr>) of
        None \<Rightarrow> None
      | Some (None, _) \<Rightarrow> None
      | Some (Some opn', cs') \<Rightarrow> Some (opn', cs'))"

definition cs_append :: "bool \<Rightarrow> uuid \<Rightarrow> byte list \<Rightarrow> cstorage \<Rightarrow> (srecord \<times> cstorage) option" where
  "cs_append wok u d cs =
     map_option (\<lambda>(opn, cs'). (op_record opn, cs')) (call wok ((new_operation APPEND)\<lparr>op_uuid := u, op_data := d\<rparr>) cs)"

definition cs_record_at :: "bool \<Rightarrow> uint32 \<Rightarrow> uint64 \<Rightarrow> cstorage \<Rightarrow> (srecord \<times> cstorage) option" where
  "cs_record_at wok i off cs =
     map_option (\<lambda>(opn, cs'). (op_record opn, cs'))
       (call wok ((new_operation GET_RECORD_BY_TOM_OFFSET)\<lparr>op_tomId := i, op_offset := off\<rparr>) cs)"

definition cs_record :: "bool \<Rightarrow> uuid \<Rightarrow> cstorage \<Rightarrow> (srecord \<times> cstorage) option" where
  "cs_record wok u cs =
     map_option (\<lambda>(opn, cs'). (op_record opn, cs')) (call wok ((new_operation GET_RECORD_BY_UUID)\<lparr>op_uuid := u\<rparr>) cs)"

definition cs_data :: "bool \<Rightarrow> srecord \<Rightarrow> cstorage \<Rightarrow> (byte list \<times> cstorage) option" where
  "cs_data wok r cs =
     map_option (\<lambda>(opn, cs'). (op_data opn, cs')) (call wok ((new_operation GET_DATA_BY_RECORD)\<lparr>op_record := r\<rparr>) cs)"

definition cs_remove :: "bool \<Rightarrow> srecord \<Rightarrow> cstorage \<Rightarrow> (bool \<times> cstorage) option" where
  "cs_remove wok r cs =
     map_option (\<lambda>(opn, cs'). (deleted (rheader (op_record opn)) \<noteq> 0, cs'))
       (call wok ((new_operation REMOVE)\<lparr>op_record := r\<rparr>) cs)"

definition removeAsync :: "srecord \<Rightarrow> cstorage \<Rightarrow> cstorage" where
  "removeAsync r cs =
     (if tomId r = max32 then cs
      else cs\<lparr>operations := operations cs @ [(new_operation REMOVE)\<lparr>op_record := r, op_async := True\<rparr>]\<rparr>)"

definition appendBatch :: "bool \<Rightarrow> (uuid \<times> byte list) list \<Rightarrow> cstorage \<Rightarrow> cstorage option" where
  "appendBatch wok is cs =
     (if is = [] then Some cs
      else map_option snd (call wok ((new_operation APPEND_BATCH)\<lparr>op_batchItems := is\<rparr>) cs))"

definition cs_scan :: "bool \<Rightarrow> cstorage \<Rightarrow> (scan_result \<times> cstorage) option" where
  "cs_scan wok cs =
     map_option (\<lambda>(opn, cs'). (op_scanResult opn, cs')) (call wok (new_operation SCAN) cs)"

section \<open>Life cycle and sweep\<close>

text \<open>\<open>start\<close>, with the beginning of \<open>run\<close> on the new thread.\<close>

definition cs_start :: "int64 \<Rightarrow> cstorage \<Rightarrow> cstorage" where
  "cs_start nowUs cs =
     (if \<not> isRunning cs then cs\<lparr>isRunning := True, lastSweepUs := nowUs, started := True\<rparr> else cs)"

definition cs_stop :: "bool \<Rightarrow> cstorage \<Rightarrow> cstorage option" where
  "cs_stop wok cs =
     (if stopRequested cs then Some cs
      else
        let cs1 = cs\<lparr>stopRequested := True\<rparr> in
        if \<not> started cs1 then Some cs1
        else if isRunning cs1 then map_option snd (call wok (new_operation STOP) cs1)
        else Some cs1)"

definition setSweepIntervalMicros :: "int64 \<Rightarrow> cstorage \<Rightarrow> cstorage" where
  "setSweepIntervalMicros us cs = (if sint us > 0 then cs\<lparr>sweepIntervalUs := us\<rparr> else cs)"

definition kPrefixLen :: nat where "kPrefixLen = 1 + 1 + 8 + 16 + 1 + 8 + 8"
definition kSweepBudget :: nat where "kSweepBudget = 4096"

text \<open>What the sweep decides from the first bytes of a record.\<close>

definition prefix_expired :: "int64 \<Rightarrow> byte list \<Rightarrow> bool" where
  "prefix_expired nowMs p \<longleftrightarrow>
     length p \<ge> kPrefixLen \<and> p ! 1 = 2 \<and>
     (let expiration = read64 p 35 in expiration \<noteq> 0 \<and> sint nowMs \<ge> sint expiration)"

text \<open>The loop over the batch; an exception of \<open>remove\<close> ends the sweep.\<close>

fun sweep_batch :: "bool \<Rightarrow> int64 \<Rightarrow> scan_result \<Rightarrow> storage \<Rightarrow> storage" where
  "sweep_batch wok nowMs [] st = st"
| "sweep_batch wok nowMs ((r, p) # ps) st =
     (if prefix_expired nowMs p
      then (case storage_remove wok r st of
              (Inl _, st') \<Rightarrow> st'
            | (Inr _, st') \<Rightarrow> sweep_batch wok nowMs ps st')
      else sweep_batch wok nowMs ps st)"

definition sweepExpired :: "bool \<Rightarrow> int64 \<Rightarrow> cstorage \<Rightarrow> cstorage option" where
  "sweepExpired wok nowMs cs =
     (case scanPrefix kPrefixLen kSweepBudget (sweepCursor cs) (linearStorage cs) of
        None \<Rightarrow> None
      | Some (Inl _, st) \<Rightarrow> Some (cs\<lparr>linearStorage := st\<rparr>)
      | Some (Inr (batch, cur), st) \<Rightarrow>
          Some (cs\<lparr>sweepCursor := cur, linearStorage := sweep_batch wok nowMs batch st\<rparr>))"

text \<open>The end of a turn of the worker loop: sweep when the interval has passed.\<close>

definition sweep_tick :: "bool \<Rightarrow> int64 \<Rightarrow> int64 \<Rightarrow> cstorage \<Rightarrow> cstorage option" where
  "sweep_tick wok nowUs nowMs cs =
     (if isRunning cs \<and> sint (nowUs - lastSweepUs cs) \<ge> sint (sweepIntervalUs cs)
      then map_option (\<lambda>cs'. cs'\<lparr>lastSweepUs := nowUs\<rparr>) (sweepExpired wok nowMs cs)
      else Some cs)"

section \<open>What a call sees\<close>

text \<open>The pending operations of a client that has only queued removes.\<close>

definition only_removes :: "operation list \<Rightarrow> bool" where
  "only_removes ops \<longleftrightarrow> list_all (\<lambda>opn. op_id opn = REMOVE) ops"

fun flush :: "bool \<Rightarrow> operation list \<Rightarrow> storage \<Rightarrow> storage" where
  "flush wok [] st = st"
| "flush wok (opn # ops) st = flush wok ops (snd (storage_remove wok (op_record opn) st))"

lemma run_remove: "op_id opn = REMOVE \<Longrightarrow>
   \<exists>opn'. run_operation wok opn st = Some (opn', snd (storage_remove wok (op_record opn) st))"
  by (auto simp: run_operation_def split: prod.splits sum.splits)

lemma worker_turns_flush:
  assumes "only_removes ops" "isRunning cs" "operations cs = ops @ rest"
  shows "\<exists>lst'. worker_turns wok (length ops + n) lst cs =
     worker_turns wok n lst' (cs\<lparr>operations := rest, linearStorage := flush wok ops (linearStorage cs)\<rparr>)"
  using assms
proof (induction ops arbitrary: cs lst)
  case Nil
  then have "cs\<lparr>operations := rest, linearStorage := linearStorage cs\<rparr> = cs" by (cases cs) simp
  then show ?case by auto
next
  case (Cons opn ops)
  have id: "op_id opn = REMOVE" using Cons.prems by (simp add: only_removes_def)
  from run_remove [OF id] obtain opn' where
    r: "run_operation wok opn (linearStorage cs) = Some (opn', snd (storage_remove wok (op_record opn) (linearStorage cs)))" by blast
  let ?cs = "cs\<lparr>operations := ops @ rest, linearStorage := snd (storage_remove wok (op_record opn) (linearStorage cs))\<rparr>"
  have "worker_turn wok cs = Some (Some opn', ?cs)"
    using Cons.prems(3) id r by (simp add: worker_turn_def)
  then have "worker_turns wok (length (opn # ops) + n) lst cs = worker_turns wok (length ops + n) (Some opn') ?cs"
    using Cons.prems(2) by simp
  moreover have "\<exists>lst'. worker_turns wok (length ops + n) (Some opn') ?cs =
      worker_turns wok n lst' (?cs\<lparr>operations := rest, linearStorage := flush wok ops (linearStorage ?cs)\<rparr>)"
    by (rule Cons.IH) (use Cons.prems in \<open>simp_all add: only_removes_def\<close>)
  ultimately show ?case by simp
qed

lemma call_flush:
  assumes "isRunning cs" "only_removes (operations cs)" "op_id opn \<noteq> STOP"
  shows "call wok opn cs =
    (case run_operation wok opn (flush wok (operations cs) (linearStorage cs)) of
       None \<Rightarrow> None
     | Some (opn', st') \<Rightarrow> Some (opn', cs\<lparr>operations := [], linearStorage := st'\<rparr>))"
proof -
  let ?c = "cs\<lparr>operations := operations cs @ [opn]\<rparr>"
  from worker_turns_flush [OF assms(2), of ?c "[opn]" wok 1 None] assms(1) obtain lst where
    "worker_turns wok (Suc (length (operations cs))) None ?c =
     worker_turns wok 1 lst (?c\<lparr>operations := [opn], linearStorage := flush wok (operations cs) (linearStorage cs)\<rparr>)"
    by auto
  then show ?thesis
    using assms by (auto simp: call_def worker_turn_def split: option.splits)
qed


section \<open>Records have places of their own\<close>

lemma log_recs_place:
  "(r, e) \<in> set (log_recs i pos es) \<Longrightarrow> tomId r = i \<and> (\<exists>k. offset r = of_nat k \<and> pos \<le> k \<and> k < pos + log_size es)"
proof (induction es arbitrary: pos)
  case (Cons x es)
  have "entry_size x > 0" by (simp add: entry_size_def sizeof_Header_def)
  with Cons.prems Cons.IH [of "pos + entry_size x"] show ?case by fastforce
qed simp

lemma distinct_log_recs:
  "pos + log_size es < 2 ^ 64 \<Longrightarrow> distinct (map fst (log_recs i pos es))"
proof (induction es arbitrary: pos)
  case (Cons x es)
  have "offset r \<noteq> of_nat pos" if "(r, e) \<in> set (log_recs i (pos + entry_size x) es)" for r e
  proof -
    from log_recs_place [OF that] obtain k where k: "offset r = of_nat k" "pos + entry_size x \<le> k" "k < 2 ^ 64"
      using Cons.prems by fastforce
    have "entry_size x > 0" by (simp add: entry_size_def sizeof_Header_def)
    with k unat_of_nat64 [of k] unat_of_nat64 [of pos] show ?thesis by (metis leD le_add1 less_add_same_cancel1 order.strict_trans2 order_le_less_trans)
  qed
  with Cons show ?case by force
qed simp

lemma distinct_all_recs: "storage_rep st L \<Longrightarrow> distinct (map fst (all_recs L))"
proof -
  have "list_all2 (\<lambda>(i, t) (j, es). i = j \<and> tom_id t = i \<and> tom_rep t es) ts M \<Longrightarrow> distinct (al_keys M) \<Longrightarrow>
      distinct (map fst (all_recs M)) \<and> (\<forall>(r, e) \<in> set (all_recs M). tomId r \<in> set (al_keys M))" for ts M
  proof (induction rule: list_all2_induct)
    case (Cons p ts q M)
    obtain i t es where eq: "p = (i, t)" "q = (i, es)" using Cons.hyps(1) by (cases p; cases q) auto
    have "log_size es < 2 ^ 63" using Cons.hyps(1) eq by (simp add: tom_rep_def)
    then have "distinct (map fst (log_recs i 0 es))" by (intro distinct_log_recs) simp
    moreover have "tomId r = i" if "(r, e) \<in> set (log_recs i 0 es)" for r e
      using log_recs_place [OF that] by simp
    ultimately show ?case using Cons eq by fastforce
  qed simp
  then show "storage_rep st L \<Longrightarrow> ?thesis" by (auto simp: storage_rep_def)
qed

lemma live_facts:
  assumes "storage_rep st L"
  shows "distinct (map fst (live (all_recs L)))" "(r, d) \<in> set (live (all_recs L)) \<Longrightarrow> deleted (rheader r) = 0"
proof -
  have "map fst (live R) = map fst (filter (\<lambda>(r, e). e_deleted e = 0) R)" for R by (induction R) auto
  then show "distinct (map fst (live (all_recs L)))"
    using distinct_all_recs [OF assms] by (simp add: distinct_map_filter)
  show "deleted (rheader r) = 0" if "(r, d) \<in> set (live (all_recs L))"
    using that all_recs_header by (fastforce simp: live_def entry_header_def)
qed

lemma scan_facts:
  assumes "storage_inv st" "storage_scan st = Some (Inr rs, st)"
  shows "distinct (map fst rs)" "(r, d) \<in> set rs \<Longrightarrow> deleted (rheader r) = 0"
proof -
  from assms(1) obtain L where L: "storage_rep st L" by (auto simp: storage_inv_def)
  with assms(2) storage_scan_rep have "rs = live (all_recs L)" by simp
  with live_facts [OF L] show "distinct (map fst rs)" "(r, d) \<in> set rs \<Longrightarrow> deleted (rheader r) = 0" by auto
qed

section \<open>The sweep\<close>

lemma sweep_batch_scan:
  assumes "storage_inv st" "storage_scan st = Some (Inr rs, st)" "fst ` set ps \<subseteq> fst ` set rs" "distinct (map fst ps)"
  shows "storage_inv (sweep_batch True nowMs ps st) \<and>
    storage_scan (sweep_batch True nowMs ps st) =
      Some (Inr (filter (\<lambda>(r, d). \<not> (\<exists>p. (r, p) \<in> set ps \<and> prefix_expired nowMs p)) rs), sweep_batch True nowMs ps st)"
  using assms
proof (induction ps arbitrary: st rs)
  case Nil
  then show ?case by simp
next
  case (Cons x ps)
  obtain r p where x: "x = (r, p)" by fastforce
  show ?case
  proof (cases "prefix_expired nowMs p")
    case False
    have eq: "filter (\<lambda>(q, d). \<not> (\<exists>p. (q, p) \<in> set (x # ps) \<and> prefix_expired nowMs p)) rs =
        filter (\<lambda>(q, d). \<not> (\<exists>p. (q, p) \<in> set ps \<and> prefix_expired nowMs p)) rs"
      by (rule filter_cong) (use False x in auto)
    have "fst ` set ps \<subseteq> fst ` set rs" "distinct (map fst ps)" using Cons.prems by auto
    from Cons.IH [OF Cons.prems(1,2) this] False x show ?thesis unfolding eq by simp
  next
    case True
    from Cons.prems(3) x obtain d where "(r, d) \<in> set rs" by force
    then obtain xs ys where rs: "rs = xs @ (r, d) # ys" by (meson split_list)
    have "same_place r r" using scan_facts(2) [OF Cons.prems(1,2), of r d] rs by (simp add: same_place_def)
    from store.remove_scan [OF Cons.prems(1) Cons.prems(2) [unfolded rs] this] obtain q st' where
      s: "storage_remove True r st = (Inr (True, q), st')" "storage_inv st'" "storage_scan st' = Some (Inr (xs @ ys), st')" by blast
    have d: "r \<notin> fst ` set xs" "r \<notin> fst ` set ys" using scan_facts(1) [OF Cons.prems(1,2)] rs by auto
    have "fst ` set ps \<subseteq> fst ` set (xs @ ys)" "distinct (map fst ps)" using Cons.prems(3,4) rs x by auto
    from Cons.IH [OF s(2,3) this] have ih: "storage_inv (sweep_batch True nowMs ps st')"
      "storage_scan (sweep_batch True nowMs ps st') =
       Some (Inr (filter (\<lambda>(r, d). \<not> (\<exists>p. (r, p) \<in> set ps \<and> prefix_expired nowMs p)) (xs @ ys)), sweep_batch True nowMs ps st')" by auto
    have "filter (\<lambda>(q, d). \<not> (\<exists>p. (q, p) \<in> set (x # ps) \<and> prefix_expired nowMs p)) rs =
        filter (\<lambda>(q, d). \<not> (\<exists>p. (q, p) \<in> set (x # ps) \<and> prefix_expired nowMs p)) (xs @ ys)"
      using rs x True by auto
    also have "\<dots> = filter (\<lambda>(r, d). \<not> (\<exists>p. (r, p) \<in> set ps \<and> prefix_expired nowMs p)) (xs @ ys)"
      by (rule filter_cong) (use d x in force)+
    finally show ?thesis using ih s(1) x True by simp
  qed
qed

lemma prefix_expired_take: "prefix_expired nowMs (take kPrefixLen d) \<longleftrightarrow> prefix_expired nowMs d"
  by (auto simp: prefix_expired_def kPrefixLen_def read64_def Let_def min_def take_drop)

lemma prefix_expired_storage_bytes: "prefix_expired nowMs (storage_bytes P m) \<longleftrightarrow> isExpired m nowMs"
  using storage_bytes_offsets [of P m] by (simp add: prefix_expired_def kPrefixLen_def isExpired_def Let_def)

lemma sweepExpired_chunk:
  assumes inv: "storage_inv (linearStorage cs)" and rep: "storage_rep (linearStorage cs) L"
    and cur: "cursor_at L (sweepCursor cs) R" and sc: "storage_scan (linearStorage cs) = Some (Inr rs, linearStorage cs)"
    and sub: "set R \<subseteq> set (all_recs L)" "distinct (map fst R)"
  shows "\<exists>cs'. sweepExpired True nowMs cs = Some cs' \<and> storage_inv (linearStorage cs') \<and>
    storage_scan (linearStorage cs') =
      Some (Inr (filter (\<lambda>(r, d). \<not> (r \<in> fst ` set (take kSweepBudget R) \<and> prefix_expired nowMs d)) rs), linearStorage cs')"
proof -
  let ?ps = "live_prefix kPrefixLen (take kSweepBudget R)"
  from scanPrefix_chunk [OF rep cur, of kSweepBudget kPrefixLen] obtain c' where
    s: "scanPrefix kPrefixLen kSweepBudget (sweepCursor cs) (linearStorage cs) = Some (Inr (?ps, c'), linearStorage cs)"
    by (auto simp: kPrefixLen_def kSweepBudget_def)
  have rs: "rs = live (all_recs L)" using storage_scan_rep [OF rep] sc by simp
  have map_fst: "map fst (live_prefix n Q) = map fst (filter (\<lambda>(r, e). e_deleted e = 0) Q)" for n Q
    by (induction Q) auto
  have lp: "(r, p) \<in> set (live_prefix n Q) \<longleftrightarrow> (\<exists>e. (r, e) \<in> set Q \<and> e_deleted e = 0 \<and> p = take n (e_data e))" for r p n Q
    by (induction Q) (auto split: if_splits)
  have "distinct (map fst (take kSweepBudget R))" using sub(2) by (simp add: take_map [symmetric])
  then have d: "distinct (map fst ?ps)" by (simp add: map_fst distinct_map_filter)
  have mem: "(r, e) \<in> set (all_recs L)" if "(r, e) \<in> set (take kSweepBudget R)" for r e
    using that sub(1) by (meson in_set_takeD subsetD)
  have "fst ` set ?ps \<subseteq> fst ` set rs"
    using mem by (force simp: live_prefix_def rs live_def)
  note b = sweep_batch_scan [OF inv sc this d, of nowMs]
  have uniq: "e = f" if "(r, e) \<in> set (all_recs L)" "(r, f) \<in> set (all_recs L)" for r e f
    using distinct_all_recs [OF rep] that by (metis eq_key_imp_eq_value)
  have "(\<exists>p. (r, p) \<in> set ?ps \<and> prefix_expired nowMs p) \<longleftrightarrow> r \<in> fst ` set (take kSweepBudget R) \<and> prefix_expired nowMs d"
    if "(r, d) \<in> set rs" for r d
  proof -
    from that obtain e where e: "(r, e) \<in> set (all_recs L)" "e_deleted e = 0" "d = e_data e" by (auto simp: rs live_def)
    have "f = e" if "(r, f) \<in> set (take kSweepBudget R)" for f using mem [OF that] e(1) uniq by blast
    then have "(\<exists>p. (r, p) \<in> set ?ps \<and> prefix_expired nowMs p) \<longleftrightarrow>
        (r, e) \<in> set (take kSweepBudget R) \<and> prefix_expired nowMs (take kPrefixLen d)"
      using e unfolding lp by blast
    moreover have "(r, e) \<in> set (take kSweepBudget R) \<longleftrightarrow> r \<in> fst ` set (take kSweepBudget R)"
      using \<open>\<And>f. (r, f) \<in> set (take kSweepBudget R) \<Longrightarrow> f = e\<close> by force
    ultimately show ?thesis by (simp add: prefix_expired_take)
  qed
  then have "filter (\<lambda>(r, d). \<not> (\<exists>p. (r, p) \<in> set ?ps \<and> prefix_expired nowMs p)) rs =
      filter (\<lambda>(r, d). \<not> (r \<in> fst ` set (take kSweepBudget R) \<and> prefix_expired nowMs d)) rs"
    by (intro filter_cong) auto
  with b s show ?thesis by (simp add: sweepExpired_def)
qed


section \<open>Batches\<close>

definition room_for :: "nat \<Rightarrow> storage \<Rightarrow> bool" where
  "room_for n st \<longleftrightarrow> (\<forall>(i, t) \<in> set (toms st). unat (tom_size t) + n < 2 ^ 63) \<and> n < 2 ^ 63"

definition item_room :: "(uuid \<times> byte list) list \<Rightarrow> nat" where
  "item_room is = sum_list (map (\<lambda>(u, d). 32 + length d) is)"

lemma fits_room: "fits d st \<longleftrightarrow> room_for (32 + length d) st"
  by (simp add: fits_def room_for_def add.assoc)

lemma tom_append_size:
  assumes "tom_append True u d t = (Inr r, t')" "unat (tom_size t) + (32 + length d) < 2 ^ 63"
  shows "unat (tom_size t') = unat (tom_size t) + (32 + length d)"
proof -
  have "tom_size t' = tom_size t + of_nat (32 + length d)"
    using assms(1) by (auto simp: tom_append_def file_write_def Let_def sizeof_Header_def split: if_splits prod.splits)
  also have "tom_size t = of_nat (unat (tom_size t))" by simp
  finally have "tom_size t' = of_nat (unat (tom_size t) + (32 + length d))" by (simp only: of_nat_add)
  moreover have "unat (of_nat (unat (tom_size t) + (32 + length d)) :: uint64) = unat (tom_size t) + (32 + length d)"
    by (rule unat_of_nat64) (use assms(2) in simp)
  ultimately show ?thesis by (simp only:)
qed

lemma set_al_update: "(i, t) \<in> set (al_update j t' ts) \<Longrightarrow> (i, t) \<in> set ts \<or> i = j \<and> t = t'"
  by (auto simp: al_update_def split: if_splits)

lemma storage_append_room:
  assumes "storage_append True u d st = (Inr r, st')" "room_for (32 + length d + n) st"
  shows "room_for n st'"
proof -
  obtain i st1 t t' where a: "currentTom st = (Inr i, st1)" "map_of (toms st1) i = Some t"
    "tom_append True u d t = (Inr r, t')" "toms st' = al_update i t' (toms st1)"
    using assms(1) by (auto simp: storage_append_def set_tom_def split: if_splits prod.splits sum.splits option.splits)
  have r1: "room_for (32 + length d + n) st1"
    using a(1) assms(2) by (auto simp: currentTom_def Let_def room_for_def tom_open_def split: if_splits)
  have "(i, t) \<in> set (toms st1)" using a(2) by (rule map_of_SomeD)
  with r1 have "unat (tom_size t) + (32 + length d + n) < 2 ^ 63" by (auto simp: room_for_def)
  with tom_append_size [OF a(3)] have "unat (tom_size t') + n < 2 ^ 63" by simp
  with r1 a(4) show ?thesis by (auto simp: room_for_def dest!: set_al_update)
qed

definition record_item :: "srecord \<times> byte list \<Rightarrow> uuid \<times> byte list" where
  "record_item p = (huuid (rheader (fst p)), snd p)"

lemma append_items_scan:
  assumes "storage_inv st" "storage_scan st = Some (Inr rs, st)" "room_for (item_room bs) st"
    "list_all (\<lambda>(u, d). u \<noteq> 0 \<and> d \<noteq> []) bs"
  shows "\<exists>rs'. storage_inv (append_items True bs st) \<and>
    storage_scan (append_items True bs st) = Some (Inr rs', append_items True bs st) \<and>
    mset (map record_item rs') = mset (map record_item rs) + mset bs"
  using assms
proof (induction bs arbitrary: st rs)
  case Nil
  then show ?case by simp
next
  case (Cons x bs)
  obtain u d where x: "x = (u, d)" by fastforce
  have "room_for (32 + length d + item_room bs) st" using Cons.prems(3) x by (simp add: item_room_def)
  note room = this
  then have "fits d st" unfolding fits_room by (auto simp: room_for_def)
  from store.append_scan [OF Cons.prems(1) this _ _ Cons.prems(2), of u] Cons.prems(4) x obtain r st' xs ys where
    a: "storage_append True u d st = (Inr r, st')" "storage_inv st'" "rs = xs @ ys"
      "storage_scan st' = Some (Inr (xs @ (r, d) # ys), st')" "huuid (rheader r) = u" by auto
  have "list_all (\<lambda>(u, d). u \<noteq> 0 \<and> d \<noteq> []) bs" using Cons.prems(4) by simp
  from Cons.IH [OF a(2,4) storage_append_room [OF a(1) room] this] a(1,3,5) x show ?case
    by (auto simp: record_item_def)
qed

lemma flush_append: "flush wok (ops @ qs) st = flush wok qs (flush wok ops st)"
  by (induction ops arbitrary: st) auto

lemma scan_tomId:
  assumes "storage_inv st" "storage_scan st = Some (Inr rs, st)" "(r, d) \<in> set rs"
  shows "tomId r \<noteq> max32"
proof -
  from assms(1) obtain L where L: "storage_rep st L" by (auto simp: storage_inv_def)
  with assms(2,3) storage_scan_rep have "(r, d) \<in> set (live (all_recs L))" by simp
  then obtain i es e where e: "(i, es) \<in> set L" "(r, e) \<in> set (log_recs i 0 es)" by (auto simp: live_def all_recs_def)
  from storage_rep_log [OF L e(1)] obtain t where "tom_rep t es" "tom_id t = i" by metis
  with log_recs_place [OF e(2)] show ?thesis by (auto simp: tom_rep_def)
qed

lemma mset_all_recs: "mset L = mset M \<Longrightarrow> mset (all_recs L) = mset (all_recs M)"
proof -
  have "mset (all_recs L) = sum_mset (image_mset (\<lambda>(i, es). mset (log_recs i 0 es)) (mset L))" for L
    by (induction L) auto
  then show "mset L = mset M \<Longrightarrow> ?thesis" by simp
qed

lemma cursor_at_suffix:
  assumes "cursor_at L c R" shows "\<exists>X. all_recs (sorted_logs L) = X @ R"
  using assms unfolding cursor_at_def
proof (elim disjE exE conjE)
  fix A i pre suf B
  assume "sorted_logs L = A @ (i, pre @ suf) # B" "R = log_recs i (log_size pre) suf @ all_recs B"
  then have "all_recs (sorted_logs L) = (all_recs A @ log_recs i 0 pre) @ R" by (simp add: log_recs_append)
  then show ?thesis by blast
qed auto

lemma cursor_at_recs:
  assumes "storage_rep st L" "cursor_at L c R"
  shows "set R \<subseteq> set (all_recs L)" "distinct (map fst R)"
proof -
  obtain X where X: "all_recs (sorted_logs L) = X @ R" using cursor_at_suffix [OF assms(2)] by blast
  have m: "mset (all_recs (sorted_logs L)) = mset (all_recs L)" by (rule mset_all_recs) (simp add: sorted_logs_def)
  then have "mset (map fst (X @ R)) = mset (map fst (all_recs L))" by (simp only: X [symmetric] mset_map)
  then have "distinct (map fst (X @ R))" using distinct_all_recs [OF assms(1)] mset_eq_imp_distinct_iff by blast
  then show "distinct (map fst R)" by simp
  have "set (X @ R) = set (all_recs L)" using m X by (metis set_mset_mset)
  then show "set R \<subseteq> set (all_recs L)" by auto
qed

lemma appendBatch_stores:
  assumes "isRunning cs" "only_removes (operations cs)" "st = flush True (operations cs) (linearStorage cs)"
    "storage_inv st" "storage_scan st = Some (Inr rs, st)" "room_for (item_room bs) st"
    "list_all (\<lambda>(u, d). u \<noteq> 0 \<and> d \<noteq> []) bs" "bs \<noteq> []"
  shows "\<exists>cs' rs'. appendBatch True bs cs = Some cs' \<and> storage_inv (linearStorage cs') \<and>
     storage_scan (linearStorage cs') = Some (Inr rs', linearStorage cs') \<and>
     mset (map record_item rs') = mset (map record_item rs) + mset bs \<and> isRunning cs' \<and> operations cs' = []"
  using append_items_scan [OF assms(4,5,6,7)] call_flush [OF assms(1,2), of "(new_operation APPEND_BATCH)\<lparr>op_batchItems := bs\<rparr>" True]
    assms(1,3,8)
  by (auto simp: appendBatch_def run_operation_def new_operation_def)

lemma removed_before_scan:
  assumes "isRunning cs" "only_removes (operations cs)" "st = flush True (operations cs) (linearStorage cs)"
    "storage_inv st" "storage_scan st = Some (Inr (xs @ (r, d) # ys), st)" "same_place q r"
  shows "\<exists>cs'. cs_scan True (removeAsync q cs) = Some (xs @ ys, cs') \<and> storage_inv (linearStorage cs') \<and>
     operations cs' = []"
proof -
  have "tomId q \<noteq> max32" using scan_tomId [OF assms(4,5), of r d] assms(6) by (simp add: same_place_def)
  then have q: "operations (removeAsync q cs) = operations cs @ [(new_operation REMOVE)\<lparr>op_record := q, op_async := True\<rparr>]"
    "linearStorage (removeAsync q cs) = linearStorage cs" "isRunning (removeAsync q cs)"
    using assms(1) by (simp_all add: removeAsync_def)
  from store.remove_scan [OF assms(4,5,6)] obtain q' st' where
    s: "storage_remove True q st = (Inr (True, q'), st')" "storage_inv st'" "storage_scan st' = Some (Inr (xs @ ys), st')" by blast
  have "only_removes (operations (removeAsync q cs))"
    using assms(2) q(1) by (simp add: only_removes_def new_operation_def)
  from call_flush [OF q(3) this, of "new_operation SCAN"] q(1,2) s assms(3) show ?thesis
    by (auto simp: cs_scan_def flush_append run_operation_def new_operation_def)
qed

section \<open>The store behind the worker\<close>

text \<open>
  What a client of the worker sees: the records that the calls return once the removals that are still
  queued have run.
\<close>

definition cs_holds :: "cstorage \<Rightarrow> scan_result \<Rightarrow> bool" where
  "cs_holds cs rs \<longleftrightarrow> isRunning cs \<and> only_removes (operations cs) \<and>
     (let st = flush True (operations cs) (linearStorage cs) in storage_inv st \<and> storage_scan st = Some (Inr rs, st))"

definition cs_room :: "byte list \<Rightarrow> cstorage \<Rightarrow> bool" where
  "cs_room d cs \<longleftrightarrow> fits d (flush True (operations cs) (linearStorage cs))"

lemma cs_holds_idle: "isRunning cs \<Longrightarrow> operations cs = [] \<Longrightarrow>
    cs_holds cs rs \<longleftrightarrow> storage_inv (linearStorage cs) \<and> storage_scan (linearStorage cs) = Some (Inr rs, linearStorage cs)"
  by (simp add: cs_holds_def only_removes_def Let_def)

lemma cs_holds_tomId: "cs_holds cs rs \<Longrightarrow> (r, d) \<in> set rs \<Longrightarrow> tomId r \<noteq> max32"
  using scan_tomId [of "flush True (operations cs) (linearStorage cs)" rs r d] by (simp add: cs_holds_def Let_def)

lemma cs_scan_holds: "cs_holds cs rs \<Longrightarrow> \<exists>cs'. cs_scan True cs = Some (rs, cs') \<and> cs_holds cs' rs"
  using call_flush [of cs "new_operation SCAN" True]
  by (auto simp: cs_holds_def cs_scan_def run_operation_def new_operation_def Let_def only_removes_def)

lemma cs_append_holds:
  assumes "cs_holds cs rs" "cs_room d cs" "d \<noteq> []" "u \<noteq> 0"
  shows "\<exists>r cs' xs ys. cs_append True u d cs = Some (r, cs') \<and> rs = xs @ ys \<and> cs_holds cs' (xs @ (r, d) # ys) \<and>
    huuid (rheader r) = u \<and> deleted (rheader r) = 0"
proof -
  let ?st = "flush True (operations cs) (linearStorage cs)"
  from assms have "storage_inv ?st" "fits d ?st" "storage_scan ?st = Some (Inr rs, ?st)" "isRunning cs" "only_removes (operations cs)"
    by (simp_all add: cs_holds_def cs_room_def Let_def)
  with store.append_scan [OF this(1,2) assms(3,4) this(3)] call_flush [of cs "(new_operation APPEND)\<lparr>op_uuid := u, op_data := d\<rparr>" True]
  show ?thesis by (auto simp: cs_append_def run_operation_def new_operation_def cs_holds_idle) blast
qed

lemma removeAsync_holds:
  assumes "cs_holds cs (xs @ (r, d) # ys)" "same_place q r"
  shows "cs_holds (removeAsync q cs) (xs @ ys)"
proof -
  let ?st = "flush True (operations cs) (linearStorage cs)"
  from assms(1) have st: "storage_inv ?st" "storage_scan ?st = Some (Inr (xs @ (r, d) # ys), ?st)" "isRunning cs" "only_removes (operations cs)"
    by (simp_all add: cs_holds_def Let_def)
  have "tomId q \<noteq> max32" using scan_tomId [OF st(1,2), of r d] assms(2) by (simp add: same_place_def)
  then have "operations (removeAsync q cs) = operations cs @ [(new_operation REMOVE)\<lparr>op_record := q, op_async := True\<rparr>]"
    "linearStorage (removeAsync q cs) = linearStorage cs" "isRunning (removeAsync q cs)"
    using st(3) by (simp_all add: removeAsync_def)
  with store.remove_scan [OF st(1,2) assms(2)] st(4) show ?thesis
    by (auto simp: cs_holds_def only_removes_def new_operation_def flush_append Let_def)
qed

text \<open>The contract the broker uses, whatever is behind it: a store of records that a client appends to,
  scans, and removes from without waiting.\<close>

locale durable_store =
  fixes append :: "uuid \<Rightarrow> byte list \<Rightarrow> 's \<Rightarrow> (srecord \<times> 's) option"
    and remove :: "srecord \<Rightarrow> 's \<Rightarrow> 's"
    and scan :: "'s \<Rightarrow> (scan_result \<times> 's) option"
    and holds :: "'s \<Rightarrow> scan_result \<Rightarrow> bool"
    and room :: "byte list \<Rightarrow> 's \<Rightarrow> bool"
  assumes scan_holds: "holds s rs \<Longrightarrow> \<exists>s'. scan s = Some (rs, s') \<and> holds s' rs"
    and append_holds: "holds s rs \<Longrightarrow> room d s \<Longrightarrow> d \<noteq> [] \<Longrightarrow> u \<noteq> 0 \<Longrightarrow>
      \<exists>r s' xs ys. append u d s = Some (r, s') \<and> rs = xs @ ys \<and> holds s' (xs @ (r, d) # ys) \<and>
        huuid (rheader r) = u \<and> deleted (rheader r) = 0"
    and remove_holds: "holds s (xs @ (r, d) # ys) \<Longrightarrow> same_place q r \<Longrightarrow> holds (remove q s) (xs @ ys)"
begin

text \<open>A record that was appended and removed is not seen by any later scan, and the others are.\<close>

lemma append_remove_scan:
  assumes "holds s rs" "room d s" "d \<noteq> []" "u \<noteq> 0"
  shows "\<exists>r s' s''. append u d s = Some (r, s') \<and> scan (remove r s') = Some (rs, s'')"
proof -
  from append_holds [OF assms] obtain r s' xs ys where
    a: "append u d s = Some (r, s')" "rs = xs @ ys" "holds s' (xs @ (r, d) # ys)" "deleted (rheader r) = 0" by blast
  from remove_holds [OF a(3), of r] a(2,4) have "holds (remove r s') rs" by (simp add: same_place_def)
  with scan_holds a(1) show ?thesis by blast
qed

text \<open>Removing one record and then another leaves the rest, in either order of the calls.\<close>

lemma remove_two:
  assumes "holds s (xs @ (r, d) # ys @ (r', d') # zs)" "same_place q r" "same_place q' r'"
  shows "holds (remove q' (remove q s)) (xs @ ys @ zs)" "holds (remove q (remove q' s)) (xs @ ys @ zs)"
proof -
  from remove_holds [OF assms(1,2)] have "holds (remove q s) ((xs @ ys) @ (r', d') # zs)" by simp
  from remove_holds [OF this assms(3)] show "holds (remove q' (remove q s)) (xs @ ys @ zs)" by simp
  from assms(1) have "holds s ((xs @ (r, d) # ys) @ (r', d') # zs)" by simp
  from remove_holds [OF this assms(3)] have "holds (remove q' s) (xs @ (r, d) # (ys @ zs))" by simp
  from remove_holds [OF this assms(2)] show "holds (remove q (remove q' s)) (xs @ ys @ zs)" by simp
qed

end

interpretation worker: durable_store "cs_append True" removeAsync "cs_scan True" cs_holds cs_room
  by unfold_locales (use cs_scan_holds cs_append_holds removeAsync_holds in auto)

section \<open>What the broker relies on\<close>

text \<open>A remove that was only queued takes effect before any later call is answered: a scan after
  \<open>removeAsync\<close> does not return the record any more, and returns all the others.\<close>

lemma async_remove_before_scan:
  assumes "isRunning cs" "only_removes (operations cs)" "st = flush True (operations cs) (linearStorage cs)"
    "storage_inv st" "storage_scan st = Some (Inr (xs @ (r, d) # ys), st)" "same_place q r"
  shows "\<exists>cs'. cs_scan True (removeAsync q cs) = Some (xs @ ys, cs') \<and> storage_inv (linearStorage cs') \<and>
     operations cs' = []"
  using assms by (rule removed_before_scan)

definition sample_worker :: cstorage where
  "sample_worker = cs_start 0 (new_cstorage one_record_store)"

lemma sample_worker_simps [simp]: "isRunning sample_worker" "operations sample_worker = []"
  "linearStorage sample_worker = one_record_store" "sweepCursor sample_worker = start_cursor"
  by (simp_all add: sample_worker_def cs_start_def new_cstorage_def)

lemma async_remove_before_scan_example:
  "\<exists>cs'. cs_scan True (removeAsync the_record sample_worker) = Some ([] @ [], cs') \<and>
     storage_inv (linearStorage cs') \<and> operations cs' = []"
  by (rule async_remove_before_scan [where r = the_record and d = "[10, 20, 30]" and st = one_record_store])
    (simp_all add: one_record_store_ok only_removes_def same_place_def the_record_def)

text \<open>C32: one run of the expiry sweep on a well-formed store whose records were written by the broker
  removes exactly the expired messages among the next 4096 records behind its cursor, and no other
  message; an expiration of 0 never expires.\<close>

theorem sweep_removes_exactly_expired:
  assumes "storage_inv (linearStorage cs)" "storage_rep (linearStorage cs) L" "cursor_at L (sweepCursor cs) R"
    "storage_scan (linearStorage cs) = Some (Inr rs, linearStorage cs)"
    "\<forall>(r, d) \<in> set rs. d = storage_bytes P (msg r)"
  shows "\<exists>cs'. sweepExpired True nowMs cs = Some cs' \<and> storage_inv (linearStorage cs') \<and>
    storage_scan (linearStorage cs') =
      Some (Inr (filter (\<lambda>(r, d). \<not> (r \<in> fst ` set (take 4096 R) \<and> isExpired (msg r) nowMs)) rs), linearStorage cs')"
proof -
  have "filter (\<lambda>(r, d). \<not> (r \<in> fst ` set (take kSweepBudget R) \<and> prefix_expired nowMs d)) rs =
      filter (\<lambda>(r, d). \<not> (r \<in> fst ` set (take 4096 R) \<and> isExpired (msg r) nowMs)) rs"
    using assms(5) by (intro filter_cong) (auto simp: kSweepBudget_def prefix_expired_storage_bytes)
  with sweepExpired_chunk [OF assms(1,2,3,4) cursor_at_recs [OF assms(2,3)], of nowMs] show ?thesis by simp
qed

definition expiring_message :: message where
  "expiring_message = (new_message (TextBody ''hi'') 99 PERSISTENT)\<lparr>jmsHeaders := default_headers\<lparr>expiration := 1000\<rparr>\<rparr>"

definition expiring_bytes :: "byte list" where
  "expiring_bytes = storage_bytes (sample_poco JNull) expiring_message"

definition expiring_record :: srecord where
  "expiring_record = \<lparr>tomId = 1, offset = 0, rheader = \<lparr>huuid = 99, dataSize = of_nat (length expiring_bytes), deleted = 0\<rparr>\<rparr>"

definition expiring_worker :: cstorage where
  "expiring_worker = cs_start 0 (new_cstorage (snd (storage_append True 99 expiring_bytes empty_storage)))"

lemma expiring_bytes_length: "length expiring_bytes < 2 ^ 32" "expiring_bytes \<noteq> []"
  by (simp_all add: expiring_bytes_def storage_bytes_def toBytes_def expiring_message_def new_message_def
      default_headers_def propsJson_def Let_def writeString_def kFixed_def kHdrNums_def)

lemma expiring_append: "fst (storage_append True 99 expiring_bytes empty_storage) = Inr expiring_record"
  using expiring_bytes_length
  by (simp add: storage_append_def empty_storage_def currentTom_def Let_def tom_append_def tom_open_def
      file_write_def expiring_record_def set_tom_def)

lemma expiring_worker_ok:
  "storage_inv (linearStorage expiring_worker)"
  "storage_scan (linearStorage expiring_worker) = Some (Inr [(expiring_record, expiring_bytes)], linearStorage expiring_worker)"
  "sweepCursor expiring_worker = start_cursor"
  using storage_append_store [OF empty_storage_inv empty_storage_fits _ _ empty_storage_scan, of expiring_bytes 99]
    expiring_append expiring_bytes_length
  by (auto simp: expiring_worker_def cs_start_def new_cstorage_def)

lemma expiring_worker_rep:
  "storage_rep (linearStorage expiring_worker) [(1, [\<lparr>e_uuid = 99, e_data = expiring_bytes, e_deleted = 0\<rparr>])]"
  using expiring_bytes_length
  by (simp add: expiring_worker_def cs_start_def new_cstorage_def storage_rep_def storage_append_def empty_storage_def
      currentTom_def Let_def tom_append_def tom_open_def file_write_def set_tom_def al_update_def tom_rep_def
      write_at_def entry_bytes_def entry_header_def entry_size_def sizeof_Header_def max32_def)

theorem sweep_removes_exactly_expired_witness:
  "\<exists>cs'. sweepExpired True 2000 expiring_worker = Some cs' \<and> storage_inv (linearStorage cs') \<and>
    storage_scan (linearStorage cs') =
      Some (Inr (filter (\<lambda>(r, d). \<not> (r \<in> fst ` set (take 4096
          (all_recs (sorted_logs [(1, [\<lparr>e_uuid = 99, e_data = expiring_bytes, e_deleted = 0\<rparr>])]))) \<and>
          isExpired expiring_message 2000)) [(expiring_record, expiring_bytes)]), linearStorage cs')"
  by (rule sweep_removes_exactly_expired [OF expiring_worker_ok(1) expiring_worker_rep _ expiring_worker_ok(2),
        where msg = "\<lambda>_. expiring_message" and P = "sample_poco JNull"])
    (simp_all add: expiring_worker_ok(3) cursor_at_def expiring_bytes_def)

text \<open>A failed append is not reported to the caller as a failure: the worker swallows the exception
  and the call answers with the default record, whose tom id is the maximum.\<close>

lemma failed_append_answers_default:
  assumes "isRunning cs" "only_removes (operations cs)"
    "storage_append wok u d (flush wok (operations cs) (linearStorage cs)) = (Inl e, st')"
  shows "cs_append wok u d cs = Some (default_record, cs\<lparr>operations := [], linearStorage := st'\<rparr>)"
  using call_flush [OF assms(1,2), of "(new_operation APPEND)\<lparr>op_uuid := u, op_data := d\<rparr>" wok] assms(3)
  by (simp add: cs_append_def run_operation_def new_operation_def)

end
