(* ===== verification/Transaction_Buffer.thy ===== *)
theory Transaction_Buffer
  imports Concurrent_Storage
begin

text \<open>
  The buffer of uncommitted sends: \<open>TransactionBuffer.h\<close> and \<open>TransactionBuffer.cpp\<close>.
  The three maps, and the transaction log as the text of its file; a line is
  \<open>time|operation|transaction|message\<close>.  The time stamp is an argument.  \<open>std::getline\<close> is
  modelled; Poco's \<open>StringTokenizer\<close> is the parameter \<open>tk\<close>, of which the log relies on the documented
  splitting at the separator (\<open>tokenizer_ok\<close>).  \<open>ok\<close> is whether the log file can be opened; when it
  cannot, the operation throws where the code does.
\<close>

record txBuffer =
  transactionMessages :: "(string \<times> uuid list) list"   \<comment> \<open>the \<open>unordered_map\<close>, in iteration order\<close>
  messageToTransaction :: "uuid \<rightharpoonup> string"
  bufferedData :: "uuid \<rightharpoonup> byte list"
  logFile :: "string option"   \<comment> \<open>the file's text, once it exists\<close>
  logOpen :: bool

type_synonym tokenizer = "string \<Rightarrow> string list"

section \<open>The log\<close>

definition newline :: char where
  "newline = CHR 0x0A"

definition ensureLogOpenLocked :: "bool \<Rightarrow> txBuffer \<Rightarrow> bool \<times> txBuffer" where
  "ensureLogOpenLocked ok b =
     (if logOpen b then (True, b)
      else if ok then (True, b\<lparr>logOpen := True, logFile := Some (case logFile b of None \<Rightarrow> [] | Some s \<Rightarrow> s)\<rparr>)
      else (False, b))"

definition log_line :: "poco \<Rightarrow> string \<Rightarrow> string \<Rightarrow> string \<Rightarrow> uuid \<Rightarrow> string" where
  "log_line P ts operation tx u = ts @ ''|'' @ operation @ ''|'' @ tx @ ''|'' @ uuid_toString P u"

definition logOperationLocked ::
  "poco \<Rightarrow> bool \<Rightarrow> string \<Rightarrow> string \<Rightarrow> string \<Rightarrow> uuid \<Rightarrow> txBuffer \<Rightarrow> bool \<times> txBuffer" where
  "logOperationLocked P ok ts operation tx u b =
     (case ensureLogOpenLocked ok b of
        (False, b') \<Rightarrow> (False, b')
      | (True, b') \<Rightarrow>
          (True, b'\<lparr>logFile := Some ((case logFile b' of None \<Rightarrow> [] | Some s \<Rightarrow> s) @ log_line P ts operation tx u @ [newline])\<rparr>))"

text \<open>\<open>std::getline\<close> until it fails: the lines, the last one also without a newline.\<close>

fun getlines :: "string \<Rightarrow> string \<Rightarrow> string list" where
  "getlines acc [] = (if acc = [] then [] else [rev acc])"
| "getlines acc (c # cs) = (if c = newline then rev acc # getlines [] cs else getlines (c # acc) cs)"

type_synonym txMaps = "(string \<times> uuid list) list \<times> (uuid \<rightharpoonup> string)"

definition load_line :: "tokenizer \<Rightarrow> poco \<Rightarrow> string \<Rightarrow> txMaps \<Rightarrow> txMaps" where
  "load_line tk P line s =
     (case s of (tm, m2t) \<Rightarrow>
        if line = [] then s
        else
          let tok = tk line in
          if length tok < 3 then s
          else
            let operation = tok ! 1; tx = tok ! 2 in
            if operation = ''BEGIN'' then (al_update tx [] tm, m2t)
            else if operation = ''ADD'' \<and> length tok \<ge> 4 then
              (case uuid_parse P (tok ! 3) of
                 None \<Rightarrow> s
               | Some u \<Rightarrow>
                   (case map_of tm tx of
                      None \<Rightarrow> s
                    | Some us \<Rightarrow> (al_update tx (us @ [u]) tm, m2t(u \<mapsto> tx))))
            else if operation = ''COMMIT'' \<or> operation = ''ROLLBACK'' then (al_erase tx tm, m2t)
            else s)"

definition load_text :: "tokenizer \<Rightarrow> poco \<Rightarrow> string \<Rightarrow> txMaps" where
  "load_text tk P txt = fold (load_line tk P) (getlines [] txt) ([], Map.empty)"

definition loadTransactionLog :: "tokenizer \<Rightarrow> poco \<Rightarrow> txBuffer \<Rightarrow> txBuffer" where
  "loadTransactionLog tk P b =
     (let b0 = b\<lparr>transactionMessages := [], messageToTransaction := Map.empty, bufferedData := Map.empty\<rparr> in
      case logFile b of
        None \<Rightarrow> b0
      | Some txt \<Rightarrow>
          (case load_text tk P txt of (tm, m2t) \<Rightarrow> b0\<lparr>transactionMessages := tm, messageToTransaction := m2t\<rparr>))"

text \<open>The constructor, on the log file that is there.\<close>

definition new_txBuffer :: "tokenizer \<Rightarrow> poco \<Rightarrow> string option \<Rightarrow> txBuffer" where
  "new_txBuffer tk P txt =
     loadTransactionLog tk P \<lparr>transactionMessages = [], messageToTransaction = Map.empty,
       bufferedData = Map.empty, logFile = txt, logOpen = False\<rparr>"

section \<open>Transactions\<close>

definition addMessage ::
  "poco \<Rightarrow> bool \<Rightarrow> string \<Rightarrow> string \<Rightarrow> uuid \<Rightarrow> byte list \<Rightarrow> txBuffer \<Rightarrow> bool \<times> txBuffer" where
  "addMessage P ok ts tx u dat b =
     (case (if map_of (transactionMessages b) tx = None
            then logOperationLocked P ok ts ''BEGIN'' tx 0
                   (b\<lparr>transactionMessages := al_update tx [] (transactionMessages b)\<rparr>)
            else (True, b)) of
        (False, b1) \<Rightarrow> (False, b1)
      | (True, b1) \<Rightarrow>
          (case map_of (transactionMessages b1) tx of
             None \<Rightarrow> (False, b1)
           | Some us \<Rightarrow>
               logOperationLocked P ok ts ''ADD'' tx u
                 (b1\<lparr>bufferedData := (bufferedData b1)(u \<mapsto> dat),
                     messageToTransaction := (messageToTransaction b1)(u \<mapsto> tx),
                     transactionMessages := al_update tx (us @ [u]) (transactionMessages b1)\<rparr>)))"

definition patchDeliveryTime :: "uuid \<Rightarrow> int64 \<Rightarrow> txBuffer \<Rightarrow> txBuffer" where
  "patchDeliveryTime u t b =
     (case bufferedData b u of
        None \<Rightarrow> b
      | Some dat \<Rightarrow> b\<lparr>bufferedData := (bufferedData b)(u \<mapsto> patchDeliveryTimeInBytes dat t)\<rparr>)"

text \<open>The loop of \<open>commitTransaction\<close> that moves the buffered data into the batch.\<close>

fun take_buffered ::
  "uuid list \<Rightarrow> (uuid \<rightharpoonup> byte list) \<Rightarrow> (uuid \<rightharpoonup> string)
     \<Rightarrow> (uuid \<times> byte list) list \<times> (uuid \<rightharpoonup> byte list) \<times> (uuid \<rightharpoonup> string)" where
  "take_buffered [] bd m2t = ([], bd, m2t)"
| "take_buffered (u # us) bd m2t =
     (case bd u of
        Some d \<Rightarrow> (case take_buffered us (bd(u := None)) (m2t(u := None)) of (batch, r) \<Rightarrow> ((u, d) # batch, r))
      | None \<Rightarrow> take_buffered us bd m2t)"

text \<open>The part under the lock: \<open>None\<close> when there is no such transaction.\<close>

definition commit_locked ::
  "poco \<Rightarrow> bool \<Rightarrow> string \<Rightarrow> string \<Rightarrow> txBuffer \<Rightarrow> ((uuid \<times> byte list) list option \<times> bool) \<times> txBuffer" where
  "commit_locked P ok ts tx b =
     (case map_of (transactionMessages b) tx of
        None \<Rightarrow> ((None, True), b)
      | Some us \<Rightarrow>
          (case take_buffered us (bufferedData b) (messageToTransaction b) of
             (batch, bd, m2t) \<Rightarrow>
               (case logOperationLocked P ok ts ''COMMIT'' tx 0
                       (b\<lparr>bufferedData := bd, messageToTransaction := m2t,
                          transactionMessages := al_erase tx (transactionMessages b)\<rparr>) of
                  (r, b') \<Rightarrow> ((Some batch, r), b'))))"

text \<open>\<open>commitTransaction\<close>; \<open>None\<close> when the storage worker never answers.\<close>

definition commitTransaction ::
  "poco \<Rightarrow> bool \<Rightarrow> bool \<Rightarrow> string \<Rightarrow> string \<Rightarrow> txBuffer \<times> cstorage option \<Rightarrow> (bool \<times> txBuffer \<times> cstorage option) option" where
  "commitTransaction P ok wok ts tx s =
     (case s of (b, sto) \<Rightarrow>
        (case commit_locked P ok ts tx b of
           ((None, _), b') \<Rightarrow> Some (True, b', sto)
         | ((Some batch, False), b') \<Rightarrow> Some (False, b', sto)
         | ((Some batch, True), b') \<Rightarrow>
             (case sto of
                None \<Rightarrow> Some (True, b', None)
              | Some cs \<Rightarrow>
                  if batch = [] then Some (True, b', sto)
                  else (case appendBatch wok batch cs of
                          None \<Rightarrow> None
                        | Some cs' \<Rightarrow> Some (True, b', Some cs')))))"

fun erase_all :: "'k list \<Rightarrow> ('k \<rightharpoonup> 'v) \<Rightarrow> ('k \<rightharpoonup> 'v)" where
  "erase_all [] m = m"
| "erase_all (k # ks) m = erase_all ks (m(k := None))"

definition drop_transaction :: "string \<Rightarrow> uuid list \<Rightarrow> txBuffer \<Rightarrow> txBuffer" where
  "drop_transaction tx us b =
     b\<lparr>bufferedData := erase_all us (bufferedData b), messageToTransaction := erase_all us (messageToTransaction b),
       transactionMessages := al_erase tx (transactionMessages b)\<rparr>"

definition rollbackTransaction :: "poco \<Rightarrow> bool \<Rightarrow> string \<Rightarrow> string \<Rightarrow> txBuffer \<Rightarrow> bool \<times> txBuffer" where
  "rollbackTransaction P ok ts tx b =
     (case map_of (transactionMessages b) tx of
        None \<Rightarrow> (True, b)
      | Some us \<Rightarrow> logOperationLocked P ok ts ''ROLLBACK'' tx 0 (drop_transaction tx us b))"

definition getIncompleteTransactionsLocked :: "txBuffer \<Rightarrow> string list" where
  "getIncompleteTransactionsLocked b = al_keys (transactionMessages b)"

fun recover_loop :: "poco \<Rightarrow> bool \<Rightarrow> string \<Rightarrow> string list \<Rightarrow> txBuffer \<Rightarrow> bool \<times> txBuffer" where
  "recover_loop P ok ts [] b = (True, b)"
| "recover_loop P ok ts (tx # txs) b =
     (let b1 = (case map_of (transactionMessages b) tx of
                  None \<Rightarrow> b
                | Some us \<Rightarrow> drop_transaction tx us b)
      in case logOperationLocked P ok ts ''ROLLBACK'' tx 0 b1 of
           (False, b2) \<Rightarrow> (False, b2)
         | (True, b2) \<Rightarrow> recover_loop P ok ts txs b2)"

definition recover :: "poco \<Rightarrow> bool \<Rightarrow> string \<Rightarrow> txBuffer \<Rightarrow> bool \<times> txBuffer" where
  "recover P ok ts b = recover_loop P ok ts (getIncompleteTransactionsLocked b) b"

section \<open>The log mirrors the open transactions\<close>

definition is_space :: "char \<Rightarrow> bool" where
  "is_space c \<longleftrightarrow> c \<in> {CHR '' '', CHR 0x09, CHR 0x0A, CHR 0x0B, CHR 0x0C, CHR 0x0D}"

text \<open>Text that a field of a log line can carry.\<close>

definition field_ok :: "string \<Rightarrow> bool" where
  "field_ok s \<longleftrightarrow> CHR ''|'' \<notin> set s \<and> newline \<notin> set s \<and> (s \<noteq> [] \<longrightarrow> \<not> is_space (hd s) \<and> \<not> is_space (last s))"

definition tokenizer_ok :: "tokenizer \<Rightarrow> bool" where
  "tokenizer_ok tk \<longleftrightarrow> (\<forall>a b c d. field_ok a \<longrightarrow> field_ok b \<longrightarrow> field_ok c \<longrightarrow> field_ok d \<longrightarrow>
     tk (a @ ''|'' @ b @ ''|'' @ c @ ''|'' @ d) = [a, b, c, d])"

definition uuid_text_ok :: "poco \<Rightarrow> bool" where
  "uuid_text_ok P \<longleftrightarrow> (\<forall>u. field_ok (uuid_toString P u) \<and> uuid_parse P (uuid_toString P u) = Some u)"

definition lines_end :: "string \<Rightarrow> bool" where
  "lines_end s \<longleftrightarrow> s = [] \<or> last s = newline"

lemma getlines_newline: "getlines acc (xs @ newline # ys) = getlines acc (xs @ [newline]) @ getlines [] ys"
  by (induction acc xs rule: getlines.induct) auto

lemma getlines_line: "newline \<notin> set l \<Longrightarrow> getlines acc (l @ [newline]) = [rev acc @ l]"
  by (induction l arbitrary: acc) auto

lemma getlines_snoc:
  assumes "lines_end txt" "newline \<notin> set l"
  shows "getlines [] (txt @ l @ [newline]) = getlines [] txt @ [l]"
proof (cases "txt = []")
  case True
  with getlines_line [OF assms(2), of "[]"] show ?thesis by simp
next
  case False
  with assms(1) obtain xs where "txt = xs @ [newline]" by (metis lines_end_def append_butlast_last_id)
  with getlines_newline [of "[]" xs "l @ [newline]"] getlines_line [OF assms(2), of "[]"] show ?thesis by simp
qed

definition loaded :: "tokenizer \<Rightarrow> poco \<Rightarrow> txBuffer \<Rightarrow> txMaps" where
  "loaded tk P b = (case logFile b of None \<Rightarrow> ([], Map.empty) | Some txt \<Rightarrow> load_text tk P txt)"

definition log_ends :: "txBuffer \<Rightarrow> bool" where
  "log_ends b \<longleftrightarrow> (\<forall>txt. logFile b = Some txt \<longrightarrow> lines_end txt) \<and> (logOpen b \<longrightarrow> logFile b \<noteq> None)"

lemma logOperation_loaded:
  assumes "logOperationLocked P ok ts opr tx u b = (True, b')" "log_ends b" "newline \<notin> set (log_line P ts opr tx u)"
  shows "loaded tk P b' = load_line tk P (log_line P ts opr tx u) (loaded tk P b)" "log_ends b'"
    "transactionMessages b' = transactionMessages b" "bufferedData b' = bufferedData b"
    "messageToTransaction b' = messageToTransaction b"
proof -
  define l where "l = log_line P ts opr tx u"
  obtain tt where t: "tt = (case logFile b of None \<Rightarrow> [] | Some s \<Rightarrow> s)" by simp
  from assms(1) have b': "b' = b\<lparr>logOpen := True, logFile := Some (tt @ l @ [newline])\<rparr>"
    using assms(2) t by (cases b; cases "logFile b")
      (auto simp: logOperationLocked_def ensureLogOpenLocked_def log_ends_def l_def split: if_splits)
  have "lines_end tt" using assms(2) t by (auto simp: log_ends_def lines_end_def split: option.splits)
  moreover have "load_text tk P tt = loaded tk P b"
    using t by (auto simp: loaded_def load_text_def split: option.splits)
  ultimately show "loaded tk P b' = load_line tk P (log_line P ts opr tx u) (loaded tk P b)"
    using getlines_snoc [of tt l] assms(3) b' by (simp add: loaded_def load_text_def l_def)
  show "log_ends b'" using b' by (simp add: log_ends_def lines_end_def)
  show "transactionMessages b' = transactionMessages b" "bufferedData b' = bufferedData b"
    "messageToTransaction b' = messageToTransaction b" using b' by simp_all
qed

lemma tokens:
  assumes tk_ok: "tokenizer_ok tk" and uuid_ok: "uuid_text_ok P" and "field_ok ts" "field_ok opr" "field_ok tx"
  shows "tk (log_line P ts opr tx u) = [ts, opr, tx, uuid_toString P u]" "newline \<notin> set (log_line P ts opr tx u)"
    "log_line P ts opr tx u \<noteq> []"
  using assms tk_ok uuid_ok by (auto simp: tokenizer_ok_def uuid_text_ok_def log_line_def field_ok_def newline_def)

lemma load_line_ops:
  assumes tk_ok: "tokenizer_ok tk" and uuid_ok: "uuid_text_ok P" and ts: "field_ok ts" and tx: "field_ok tx"
  shows "load_line tk P (log_line P ts ''BEGIN'' tx u) (tm, m) = (al_update tx [] tm, m)"
    "load_line tk P (log_line P ts ''ADD'' tx u) (tm, m) =
       (case map_of tm tx of None \<Rightarrow> (tm, m) | Some us \<Rightarrow> (al_update tx (us @ [u]) tm, m(u \<mapsto> tx)))"
    "opr \<in> {''COMMIT'', ''ROLLBACK''} \<Longrightarrow> load_line tk P (log_line P ts opr tx u) (tm, m) = (al_erase tx tm, m)"
proof -
  have f: "field_ok ''BEGIN''" "field_ok ''ADD''" "field_ok ''COMMIT''" "field_ok ''ROLLBACK''"
    by (simp_all add: field_ok_def is_space_def newline_def)
  note t = tokens [OF tk_ok uuid_ok ts _ tx]
  show "load_line tk P (log_line P ts ''BEGIN'' tx u) (tm, m) = (al_update tx [] tm, m)"
    using t [OF f(1)] by (simp add: load_line_def)
  show "load_line tk P (log_line P ts ''ADD'' tx u) (tm, m) =
       (case map_of tm tx of None \<Rightarrow> (tm, m) | Some us \<Rightarrow> (al_update tx (us @ [u]) tm, m(u \<mapsto> tx)))"
    using t [OF f(2)] uuid_ok by (simp add: load_line_def uuid_text_ok_def split: option.splits)
  show "opr \<in> {''COMMIT'', ''ROLLBACK''} \<Longrightarrow> load_line tk P (log_line P ts opr tx u) (tm, m) = (al_erase tx tm, m)"
    using t [OF f(3)] t [OF f(4)] by (auto simp: load_line_def)
qed

definition log_inv :: "tokenizer \<Rightarrow> poco \<Rightarrow> txBuffer \<Rightarrow> bool" where
  "log_inv tk P b \<longleftrightarrow> log_ends b \<and> distinct (al_keys (transactionMessages b)) \<and>
     map_of (fst (loaded tk P b)) = map_of (transactionMessages b) \<and>
     (\<forall>tx \<in> set (al_keys (transactionMessages b)). field_ok tx)"

lemma log_op_inv:
  assumes env: "tokenizer_ok tk" "uuid_text_ok P" and "field_ok ts" "field_ok tx"
    and lo: "logOperationLocked P ok ts opr tx u b = (True, b')" and ends: "log_ends b"
    and d: "distinct (al_keys (transactionMessages b))" "\<forall>tx \<in> set (al_keys (transactionMessages b)). field_ok tx"
    and opr: "field_ok opr"
    and eff: "map_of (fst (load_line tk P (log_line P ts opr tx u) (loaded tk P b))) = map_of (transactionMessages b)"
  shows "log_inv tk P b'"
  using logOperation_loaded [OF lo ends tokens(2) [OF env assms(3) opr assms(4)]] d eff
  by (simp add: log_inv_def)

lemma field_ok_ops: "field_ok ''BEGIN''" "field_ok ''ADD''" "field_ok ''COMMIT''" "field_ok ''ROLLBACK''"
  by (simp_all add: field_ok_def is_space_def newline_def)

lemma log_inv_begin:
  assumes env: "tokenizer_ok tk" "uuid_text_ok P" and ts: "field_ok ts" and tx: "field_ok tx" and inv: "log_inv tk P b"
    and lo: "logOperationLocked P ok ts ''BEGIN'' tx u (b\<lparr>transactionMessages := al_update tx [] (transactionMessages b)\<rparr>) = (True, b')"
  shows "log_inv tk P b'"
proof (rule log_op_inv [OF env ts tx lo _ _ _ field_ok_ops(1)])
  obtain tm m where l: "loaded tk P b = (tm, m)" by fastforce
  have "loaded tk P (b\<lparr>transactionMessages := al_update tx [] (transactionMessages b)\<rparr>) = (tm, m)"
    using l by (simp add: loaded_def)
  then show "map_of (fst (load_line tk P (log_line P ts ''BEGIN'' tx u)
      (loaded tk P (b\<lparr>transactionMessages := al_update tx [] (transactionMessages b)\<rparr>)))) =
      map_of (transactionMessages (b\<lparr>transactionMessages := al_update tx [] (transactionMessages b)\<rparr>))"
    using load_line_ops(1) [OF env ts tx] inv l by (simp add: log_inv_def)
qed (use inv tx in \<open>auto simp: log_inv_def log_ends_def\<close>)

lemma log_inv_add:
  assumes env: "tokenizer_ok tk" "uuid_text_ok P" and ts: "field_ok ts" and tx: "field_ok tx" and inv: "log_inv tk P b"
    and us: "map_of (transactionMessages b) tx = Some us"
    and lo: "logOperationLocked P ok ts ''ADD'' tx u (b\<lparr>bufferedData := bd, messageToTransaction := m2t,
        transactionMessages := al_update tx (us @ [u]) (transactionMessages b)\<rparr>) = (True, b')"
  shows "log_inv tk P b'"
proof (rule log_op_inv [OF env ts tx lo _ _ _ field_ok_ops(2)])
  let ?b = "b\<lparr>bufferedData := bd, messageToTransaction := m2t,
        transactionMessages := al_update tx (us @ [u]) (transactionMessages b)\<rparr>"
  obtain tm m where l: "loaded tk P b = (tm, m)" by fastforce
  have "loaded tk P ?b = (tm, m)" using l by (simp add: loaded_def)
  moreover have "map_of tm = map_of (transactionMessages b)" using inv l by (simp add: log_inv_def)
  ultimately show "map_of (fst (load_line tk P (log_line P ts ''ADD'' tx u) (loaded tk P ?b))) =
      map_of (transactionMessages ?b)"
    using load_line_ops(2) [OF env ts tx] us by simp
qed (use inv tx in \<open>auto simp: log_inv_def log_ends_def\<close>)

lemma log_inv_close:
  assumes env: "tokenizer_ok tk" "uuid_text_ok P" and ts: "field_ok ts" and tx: "field_ok tx" and inv: "log_inv tk P b"
    and opr: "opr \<in> {''COMMIT'', ''ROLLBACK''}"
    and lo: "logOperationLocked P ok ts opr tx u (b\<lparr>bufferedData := bd, messageToTransaction := m2t,
        transactionMessages := al_erase tx (transactionMessages b)\<rparr>) = (True, b')"
  shows "log_inv tk P b'"
proof (rule log_op_inv [OF env ts tx lo])
  let ?b = "b\<lparr>bufferedData := bd, messageToTransaction := m2t,
        transactionMessages := al_erase tx (transactionMessages b)\<rparr>"
  obtain tm m where l: "loaded tk P b = (tm, m)" by fastforce
  have "loaded tk P ?b = (tm, m)" using l by (simp add: loaded_def)
  moreover have "map_of tm = map_of (transactionMessages b)" using inv l by (simp add: log_inv_def)
  ultimately show "map_of (fst (load_line tk P (log_line P ts opr tx u) (loaded tk P ?b))) =
      map_of (transactionMessages ?b)"
    using load_line_ops(3) [OF env ts tx opr] by simp
  show "field_ok opr" using opr field_ok_ops by auto
qed (use inv tx in \<open>auto simp: log_inv_def log_ends_def\<close>)

lemma addMessage_inv:
  assumes env: "tokenizer_ok tk" "uuid_text_ok P" and ts: "field_ok ts" and tx: "field_ok tx" and inv: "log_inv tk P b"
    and add: "addMessage P ok ts tx u dat b = (True, b')"
  shows "log_inv tk P b'"
proof -
  from add obtain b1 us where b1: "log_inv tk P b1" "map_of (transactionMessages b1) tx = Some us"
    "logOperationLocked P ok ts ''ADD'' tx u
       (b1\<lparr>bufferedData := (bufferedData b1)(u \<mapsto> dat), messageToTransaction := (messageToTransaction b1)(u \<mapsto> tx),
           transactionMessages := al_update tx (us @ [u]) (transactionMessages b1)\<rparr>) = (True, b')"
    using inv log_inv_begin [OF env ts tx inv, of ok 0]
    by (fastforce simp: addMessage_def split: if_splits prod.splits bool.splits option.splits)
  then show ?thesis by (intro log_inv_add [OF env ts tx b1(1,2)])
qed

lemma drop_transaction_eq:
  "drop_transaction tx us b = b\<lparr>bufferedData := erase_all us (bufferedData b),
     messageToTransaction := erase_all us (messageToTransaction b),
     transactionMessages := al_erase tx (transactionMessages b)\<rparr>"
  by (simp add: drop_transaction_def)

lemma log_inv_key: "log_inv tk P b \<Longrightarrow> map_of (transactionMessages b) tx = Some us \<Longrightarrow> field_ok tx"
  using map_of_eq_None_keys [of "transactionMessages b" tx] by (simp add: log_inv_def)

lemma rollbackTransaction_inv:
  assumes env: "tokenizer_ok tk" "uuid_text_ok P" and ts: "field_ok ts" and inv: "log_inv tk P b"
    and r: "rollbackTransaction P ok ts tx b = (True, b')"
  shows "log_inv tk P b'"
proof (cases "map_of (transactionMessages b) tx")
  case (Some us)
  with r log_inv_close [OF env ts log_inv_key [OF inv Some] inv, of "''ROLLBACK''"] show ?thesis
    by (simp add: rollbackTransaction_def drop_transaction_eq)
qed (use r inv in \<open>simp add: rollbackTransaction_def\<close>)

lemma commit_locked_inv:
  assumes env: "tokenizer_ok tk" "uuid_text_ok P" and ts: "field_ok ts" and inv: "log_inv tk P b"
    and c: "commit_locked P ok ts tx b = ((batch, True), b')"
  shows "log_inv tk P b'"
proof (cases "map_of (transactionMessages b) tx")
  case (Some us)
  with c log_inv_close [OF env ts log_inv_key [OF inv Some] inv, of "''COMMIT''"] show ?thesis
    by (auto simp: commit_locked_def split: prod.splits)
qed (use c inv in \<open>simp add: commit_locked_def\<close>)

lemma patchDeliveryTime_inv: "log_inv tk P b \<Longrightarrow> log_inv tk P (patchDeliveryTime u t b)"
  by (simp add: patchDeliveryTime_def log_inv_def loaded_def log_ends_def split: option.splits)

lemma load_line_distinct: "distinct (al_keys (fst s)) \<Longrightarrow> distinct (al_keys (fst (load_line tk P l s)))"
  by (auto simp: load_line_def Let_def split: prod.splits option.splits)

lemma loaded_distinct: "distinct (al_keys (fst (loaded tk P b)))"
proof -
  have "distinct (al_keys (fst s)) \<Longrightarrow> distinct (al_keys (fst (fold (load_line tk P) ls s)))" for ls s
    by (induction ls arbitrary: s) (simp_all add: load_line_distinct)
  then show ?thesis by (simp add: loaded_def load_text_def split: option.splits)
qed

lemma new_txBuffer_eq:
  "transactionMessages (new_txBuffer tk P (logFile b)) = fst (loaded tk P b)"
  "messageToTransaction (new_txBuffer tk P (logFile b)) = snd (loaded tk P b)"
  "bufferedData (new_txBuffer tk P (logFile b)) = Map.empty"
  "logFile (new_txBuffer tk P (logFile b)) = logFile b" "\<not> logOpen (new_txBuffer tk P (logFile b))"
  by (simp_all add: new_txBuffer_def loadTransactionLog_def loaded_def Let_def split: option.splits prod.splits)

lemma restart_inv:
  assumes "log_inv tk P b" shows "log_inv tk P (new_txBuffer tk P (logFile b))"
proof -
  have "loaded tk P (new_txBuffer tk P (logFile b)) = loaded tk P b" by (simp add: loaded_def new_txBuffer_eq)
  moreover have "set (al_keys (fst (loaded tk P b))) = set (al_keys (transactionMessages b))"
    using assms by (simp add: keys_dom log_inv_def)
  ultimately show ?thesis
    using assms loaded_distinct [of tk P b]
    by (simp add: log_inv_def new_txBuffer_eq) (simp add: log_ends_def new_txBuffer_eq)
qed

lemma recover_loop_inv:
  assumes env: "tokenizer_ok tk" "uuid_text_ok P" and ts: "field_ok ts"
  shows "log_inv tk P b \<Longrightarrow> distinct txs \<Longrightarrow> set txs \<subseteq> set (al_keys (transactionMessages b)) \<Longrightarrow>
    recover_loop P ok ts txs b = (True, b') \<Longrightarrow>
    log_inv tk P b' \<and> transactionMessages b' = filter (\<lambda>p. fst p \<notin> set txs) (transactionMessages b)"
proof (induction txs arbitrary: b)
  case Nil
  then show ?case by simp
next
  case (Cons tx txs)
  from Cons.prems(3) obtain us where us: "map_of (transactionMessages b) tx = Some us"
    using map_of_eq_None_keys [of "transactionMessages b" tx] by auto
  with Cons.prems(4) obtain b2 where
    b2: "logOperationLocked P ok ts ''ROLLBACK'' tx 0 (drop_transaction tx us b) = (True, b2)" "recover_loop P ok ts txs b2 = (True, b')"
    by (auto simp: Let_def split: prod.splits bool.splits)
  have inv2: "log_inv tk P b2"
    using log_inv_close [OF env ts log_inv_key [OF Cons.prems(1) us] Cons.prems(1), of "''ROLLBACK''"] b2(1)
    by (simp add: drop_transaction_eq)
  have "log_ends (drop_transaction tx us b)"
    using Cons.prems(1) by (simp add: drop_transaction_eq log_inv_def log_ends_def)
  from logOperation_loaded(3) [OF b2(1) this tokens(2) [OF env ts field_ok_ops(4) log_inv_key [OF Cons.prems(1) us]]]
  have tm: "transactionMessages b2 = al_erase tx (transactionMessages b)" by (simp add: drop_transaction_eq)
  have "set txs \<subseteq> set (al_keys (transactionMessages b2))" "distinct txs"
    using Cons.prems(2,3) unfolding tm by auto
  from Cons.IH [OF inv2 this(2,1) b2(2)] show ?case by (auto simp: tm al_erase_def intro: filter_cong)
qed

lemma recover_inv:
  assumes env: "tokenizer_ok tk" "uuid_text_ok P" and ts: "field_ok ts" and inv: "log_inv tk P b"
    and r: "recover P ok ts b = (True, b')"
  shows "log_inv tk P b'" "transactionMessages b' = []"
proof -
  have "distinct (al_keys (transactionMessages b))" using inv by (simp add: log_inv_def)
  from recover_loop_inv [OF env ts inv this _ r [unfolded recover_def getIncompleteTransactionsLocked_def]]
  show "log_inv tk P b'" "transactionMessages b' = []" by (auto simp: al_keys_def)
qed

section \<open>Runs of the buffer\<close>

text \<open>One operation that completes (the log can be opened, and its lines are written whole), or a crash after which
  the buffer is constructed anew from its log: between operations, between the two lines of the first \<open>addMessage\<close> of a
  transaction, or between the lines of \<open>recover\<close>.\<close>

inductive tx_step :: "tokenizer \<Rightarrow> poco \<Rightarrow> txBuffer \<Rightarrow> txBuffer \<Rightarrow> bool" for tk P where
  add: "addMessage P ok ts tx u dat b = (True, b') \<Longrightarrow> field_ok ts \<Longrightarrow> field_ok tx \<Longrightarrow> tx_step tk P b b'"
| patch: "tx_step tk P b (patchDeliveryTime u t b)"
| commit: "commit_locked P ok ts tx b = ((batch, True), b') \<Longrightarrow> field_ok ts \<Longrightarrow> tx_step tk P b b'"
| rollback: "rollbackTransaction P ok ts tx b = (True, b') \<Longrightarrow> field_ok ts \<Longrightarrow> tx_step tk P b b'"
| recover: "recover P ok ts b = (True, b') \<Longrightarrow> field_ok ts \<Longrightarrow> tx_step tk P b b'"
| restart: "tx_step tk P b (new_txBuffer tk P (logFile b))"
| crash_begin: "logOperationLocked P ok ts ''BEGIN'' tx 0 (b\<lparr>transactionMessages := al_update tx [] (transactionMessages b)\<rparr>) = (True, b1) \<Longrightarrow>
    map_of (transactionMessages b) tx = None \<Longrightarrow> field_ok ts \<Longrightarrow> field_ok tx \<Longrightarrow> tx_step tk P b (new_txBuffer tk P (logFile b1))"
| crash_recover: "recover_loop P ok ts (take n (getIncompleteTransactionsLocked b)) b = (True, b1) \<Longrightarrow> field_ok ts \<Longrightarrow>
    tx_step tk P b (new_txBuffer tk P (logFile b1))"

lemma recover_part_inv:
  assumes "tokenizer_ok tk" "uuid_text_ok P" "field_ok ts" "log_inv tk P b"
    "recover_loop P ok ts (take n (getIncompleteTransactionsLocked b)) b = (True, b1)"
  shows "log_inv tk P b1"
proof -
  have "distinct (al_keys (transactionMessages b))" using assms(4) by (simp add: log_inv_def)
  then show ?thesis using recover_loop_inv [OF assms(1-4) _ _ assms(5)] set_take_subset [of n "al_keys (transactionMessages b)"]
    by (auto simp: getIncompleteTransactionsLocked_def)
qed

lemma tx_step_inv:
  assumes "tx_step tk P b b'" "tokenizer_ok tk" "uuid_text_ok P" "log_inv tk P b" shows "log_inv tk P b'"
  using assms
  by (induction rule: tx_step.induct) (auto intro: addMessage_inv commit_locked_inv rollbackTransaction_inv recover_inv
      patchDeliveryTime_inv restart_inv [OF log_inv_begin] restart_inv [OF recover_part_inv] restart_inv)

lemma new_txBuffer_inv: "log_inv tk P (new_txBuffer tk P None)"
  by (simp add: log_inv_def new_txBuffer_def loadTransactionLog_def log_ends_def loaded_def)

interpretation tx_run: invariant_run "\<lambda>b. b = new_txBuffer tk P None" "tx_step tk P"
    "\<lambda>b. tokenizer_ok tk \<longrightarrow> uuid_text_ok P \<longrightarrow> log_inv tk P b" for tk P
  by unfold_locales (auto intro: new_txBuffer_inv tx_step_inv)

lemma tx_run_inv:
  "(tx_step tk P)\<^sup>*\<^sup>* (new_txBuffer tk P None) b \<Longrightarrow> tokenizer_ok tk \<Longrightarrow> uuid_text_ok P \<Longrightarrow> log_inv tk P b"
  using tx_run.reachable_inv by blast

section \<open>Commit\<close>

lemma erase_all_eq: "erase_all ks m k = (if k \<in> set ks then None else m k)"
  by (induction ks arbitrary: m) auto

text \<open>What a commit hands to the storage: every message of the transaction whose data are buffered, once,
  also when its id was added more than once.\<close>

definition batch_of :: "txBuffer \<Rightarrow> uuid list \<Rightarrow> (uuid \<times> byte list) list" where
  "batch_of B us = map (\<lambda>u. (u, the (bufferedData B u))) (remdups (filter (\<lambda>u. bufferedData B u \<noteq> None) us))"

lemma mset_map_remdups: "mset (map f (remdups xs)) = image_mset f (mset_set (set xs))"
  by (simp add: mset_set_set [of "remdups xs", symmetric, simplified])

lemma take_buffered_all:
  "\<exists>batch m'. take_buffered us bd m = (batch, erase_all us bd, m') \<and>
     mset batch = image_mset (\<lambda>u. (u, the (bd u))) (mset_set (set us \<inter> dom bd))"
proof (induction us arbitrary: bd m)
  case (Cons u us)
  show ?case
  proof (cases "bd u")
    case None
    moreover from this have "bd(u := None) = bd" "insert u (set us) \<inter> dom bd = set us \<inter> dom bd" by auto
    ultimately show ?thesis using Cons.IH [of bd m] by simp
  next
    case (Some d)
    let ?A = "set us \<inter> dom bd - {u}"
    have A: "set us \<inter> dom (bd(u := None)) = ?A" "insert u (set us) \<inter> dom bd = insert u ?A" using Some by auto
    have "image_mset (\<lambda>v. (v, the ((bd(u := None)) v))) (mset_set ?A) = image_mset (\<lambda>v. (v, the (bd v))) (mset_set ?A)"
      by (rule image_mset_cong) auto
    moreover from Cons.IH [of "bd(u := None)" "m(u := None)"] obtain batch m' where
      "take_buffered us (bd(u := None)) (m(u := None)) = (batch, erase_all us (bd(u := None)), m')"
      "mset batch = image_mset (\<lambda>v. (v, the ((bd(u := None)) v))) (mset_set ?A)" unfolding A(1) by blast
    moreover have "mset_set (insert u (set us) \<inter> dom bd) = add_mset u (mset_set ?A)" unfolding A(2) by (rule mset_set.insert) auto
    ultimately show ?thesis using Some
      by (intro exI [of _ "(u, d) # batch"] exI [of _ m']) (simp del: fun_upd_apply)
  qed
qed simp

lemma mset_batch_of: "mset (batch_of B us) = image_mset (\<lambda>u. (u, the (bufferedData B u))) (mset_set (set us \<inter> dom (bufferedData B)))"
proof -
  have "set (filter (\<lambda>u. bufferedData B u \<noteq> None) us) = set us \<inter> dom (bufferedData B)" by auto
  then show ?thesis unfolding batch_of_def mset_map_remdups by simp
qed

lemma item_room_mset: "mset xs = mset ys \<Longrightarrow> item_room xs = item_room ys"
proof -
  assume "mset xs = mset ys"
  then have "mset (map (\<lambda>(u, d). 32 + length d) xs) = mset (map (\<lambda>(u, d). 32 + length d) ys)" by simp
  then show ?thesis unfolding item_room_def sum_mset_sum_list [symmetric] by simp
qed

lemma logOperation_maps:
  assumes "logOperationLocked P ok ts opr tx u b = (r, b')"
  shows "transactionMessages b' = transactionMessages b \<and> bufferedData b' = bufferedData b \<and>
     messageToTransaction b' = messageToTransaction b"
  using assms by (auto simp: logOperationLocked_def ensureLogOpenLocked_def split: if_splits)

lemma logOperation_succeeds: "ok \<or> logOpen b \<Longrightarrow> \<exists>b'. logOperationLocked P ok ts opr tx u b = (True, b')"
  by (auto simp: logOperationLocked_def ensureLogOpenLocked_def)

section \<open>What the sessions rely on\<close>

text \<open>C33: in every run of \<open>addMessage\<close>, \<open>patchDeliveryTime\<close>, commits, rollbacks and recoveries, in any order, in which the log can be opened and
  its lines are written whole, with crashes and restarts between any two lines of the log, the transaction log tells exactly
  which transactions are open and which messages they
  hold, in order: a buffer constructed from the log finds the same transactions.  (Transaction ids and time stamps have no separator, no line
  break and no blank at their ends.  When the log cannot be opened the call throws after it has changed the memory, and when a line is cut
  off in the middle the reader takes what is there; then log and memory differ, see the last lemmas.)\<close>

theorem log_reflects_open_transactions:
  assumes "tokenizer_ok tk" "uuid_text_ok P" "(tx_step tk P)\<^sup>*\<^sup>* (new_txBuffer tk P None) b"
  shows "map_of (transactionMessages (new_txBuffer tk P (logFile b))) = map_of (transactionMessages b)"
  using tx_run_inv [OF assms(3,1,2)] by (simp add: log_inv_def new_txBuffer_eq)

text \<open>A tokenizer and a time stamp to try the properties on.\<close>

fun sample_tokenizer :: "string \<Rightarrow> string list" where
  "sample_tokenizer [] = [[]]"
| "sample_tokenizer (c # cs) =
     (if c = CHR ''|'' then [] # sample_tokenizer cs
      else case sample_tokenizer cs of [] \<Rightarrow> [[c]] | t # ts \<Rightarrow> (c # t) # ts)"

lemma sample_tokenizer_end: "CHR ''|'' \<notin> set a \<Longrightarrow> sample_tokenizer a = [a]"
  by (induction a) auto

lemma sample_tokenizer_sep: "CHR ''|'' \<notin> set a \<Longrightarrow> sample_tokenizer (a @ ''|'' @ b) = a # sample_tokenizer b"
  by (induction a) auto

lemma sample_tokenizer_ok [simp]: "tokenizer_ok sample_tokenizer"
  using sample_tokenizer_sep sample_tokenizer_end by (simp add: tokenizer_ok_def field_ok_def)

lemma field_ok_digits: "set s \<subseteq> {CHR ''0'', CHR ''1''} \<Longrightarrow> field_ok s"
proof -
  assume s: "set s \<subseteq> {CHR ''0'', CHR ''1''}"
  then have "s \<noteq> [] \<Longrightarrow> hd s \<in> {CHR ''0'', CHR ''1''} \<and> last s \<in> {CHR ''0'', CHR ''1''}"
    using hd_in_set last_in_set by blast
  with s show ?thesis by (fastforce simp: field_ok_def is_space_def newline_def)
qed

lemma sample_uuid_text_ok [simp]: "uuid_text_ok (sample_poco j)"
proof -
  have "uuid_toString (sample_poco j) u = map (\<lambda>i. if bit u i then CHR ''1'' else CHR ''0'') [0..<128]" for u
    by (simp add: sample_poco_def del: upt_Suc)
  then have "set (uuid_toString (sample_poco j) u) \<subseteq> {CHR ''0'', CHR ''1''}" for u by (simp add: image_subset_iff)
  then show ?thesis by (simp add: uuid_text_ok_def field_ok_digits)
qed

definition sample_txBuffer :: txBuffer where
  "sample_txBuffer = snd (addMessage (sample_poco JNull) True ''now'' ''tx1'' 7 [1, 2]
     (new_txBuffer sample_tokenizer (sample_poco JNull) None))"

lemma sample_txBuffer_add:
  "addMessage (sample_poco JNull) True ''now'' ''tx1'' 7 [1, 2] (new_txBuffer sample_tokenizer (sample_poco JNull) None) =
     (True, sample_txBuffer)"
  by (simp add: sample_txBuffer_def addMessage_def new_txBuffer_def loadTransactionLog_def logOperationLocked_def
      ensureLogOpenLocked_def al_update_def)

lemma sample_txBuffer_run:
  "(tx_step sample_tokenizer (sample_poco JNull))\<^sup>*\<^sup>* (new_txBuffer sample_tokenizer (sample_poco JNull) None) sample_txBuffer"
  using tx_step.add [OF sample_txBuffer_add] by (auto simp: field_ok_def is_space_def newline_def)

lemma sample_txBuffer_maps: "transactionMessages sample_txBuffer = [(''tx1'', [7])]"
  "bufferedData sample_txBuffer = [7 \<mapsto> [1, 2]]" "messageToTransaction sample_txBuffer = [7 \<mapsto> ''tx1'']" "logOpen sample_txBuffer"
  by (simp_all add: sample_txBuffer_def addMessage_def new_txBuffer_def loadTransactionLog_def logOperationLocked_def
      ensureLogOpenLocked_def al_update_def)

theorem log_reflects_open_transactions_witness:
  "map_of (transactionMessages (new_txBuffer sample_tokenizer (sample_poco JNull) (logFile sample_txBuffer))) =
     map_of (transactionMessages sample_txBuffer)"
  by (rule log_reflects_open_transactions [OF _ _ sample_txBuffer_run]) simp_all

text \<open>Recovery rolls back every open transaction: afterwards none is open in memory, and a further
  restart finds none in the log.\<close>

lemma recover_closes_all:
  assumes "tokenizer_ok tk" "uuid_text_ok P" "(tx_step tk P)\<^sup>*\<^sup>* (new_txBuffer tk P None) b"
    "field_ok ts" "recover P ok ts b = (True, b')"
  shows "transactionMessages b' = [] \<and> transactionMessages (new_txBuffer tk P (logFile b')) = []"
proof -
  note r = recover_inv [OF assms(1,2,4) tx_run_inv [OF assms(3,1,2)] assms(5)]
  then have "map_of (fst (loaded tk P b')) = Map.empty" by (simp add: log_inv_def)
  with r(2) show ?thesis by (simp add: new_txBuffer_eq)
qed

text \<open>Committing an open transaction hands all its buffered messages to the storage in
  one batch: afterwards the store holds what it held and each message of the transaction, and the
  transaction and its data are gone from the buffer, while every other buffered message stays.\<close>

lemma commitTransaction_stores:
  assumes "map_of (transactionMessages b) tx = Some us"
    "\<forall>u \<in> set us. u \<noteq> 0 \<and> bufferedData b u \<noteq> Some []" "ok \<or> logOpen b" "cs_holds cs rs"
    "room_for (item_room (batch_of b us)) (flush True (operations cs) (linearStorage cs))"
  shows "\<exists>b' cs' rs'. commitTransaction P ok True ts tx (b, Some cs) = Some (True, b', Some cs') \<and> cs_holds cs' rs' \<and>
    mset (map record_item rs') = mset (map record_item rs) + mset (batch_of b us) \<and>
    map_of (transactionMessages b') = (map_of (transactionMessages b))(tx := None) \<and>
    (\<forall>u. bufferedData b' u = (if u \<in> set us then None else bufferedData b u))"
proof -
  from take_buffered_all [of us "bufferedData b" "messageToTransaction b"] obtain batch m' where
    tk: "take_buffered us (bufferedData b) (messageToTransaction b) = (batch, erase_all us (bufferedData b), m')" and
    mb: "mset batch = mset (batch_of b us)" unfolding mset_batch_of by blast
  have "set batch = set (batch_of b us)" using mset_eq_setD [OF mb] .
  then have la: "list_all (\<lambda>(u, d). u \<noteq> 0 \<and> d \<noteq> []) batch" using assms(2) by (fastforce simp: list_all_iff batch_of_def)
  have room: "room_for (item_room batch) (flush True (operations cs) (linearStorage cs))"
    using assms(5) item_room_mset [OF mb] by simp
  have "\<exists>cs' rs'. (if batch = [] then Some cs else appendBatch True batch cs) = Some cs' \<and> cs_holds cs' rs' \<and>
      mset (map record_item rs') = mset (map record_item rs) + mset batch"
  proof (cases "batch = []")
    case False
    from appendBatch_stores [OF _ _ refl _ _ room la False] assms(4) show ?thesis
      using False by (auto simp: cs_holds_def Let_def only_removes_def)
  qed (use assms(4) in auto)
  then obtain cs' rs' where s: "(if batch = [] then Some cs else appendBatch True batch cs) = Some cs'" "cs_holds cs' rs'"
    "mset (map record_item rs') = mset (map record_item rs) + mset batch" by blast
  let ?b = "b\<lparr>bufferedData := erase_all us (bufferedData b), messageToTransaction := m', transactionMessages := al_erase tx (transactionMessages b)\<rparr>"
  obtain b' where l: "logOperationLocked P ok ts ''COMMIT'' tx 0 ?b = (True, b')"
    using logOperation_succeeds [of ok ?b P ts "''COMMIT''" tx 0] assms(3) by auto
  have "commitTransaction P ok True ts tx (b, Some cs) = Some (True, b', Some cs')"
    using assms(1) tk l s(1) by (auto simp: commitTransaction_def commit_locked_def split: if_splits)
  with logOperation_maps [OF l] s(2,3) mb show ?thesis by (auto simp: erase_all_eq)
qed

text \<open>Adding a message to a transaction, which begins with its first message.\<close>

lemma logOperation_open: "logOperationLocked P ok ts opr tx u b = (True, b') \<Longrightarrow> logOpen b'"
  by (auto simp: logOperationLocked_def ensureLogOpenLocked_def split: if_splits)

lemma addMessage_adds:
  assumes "ok \<or> logOpen b"
  shows "\<exists>b'. addMessage P ok ts tx u dat b = (True, b') \<and> logOpen b' \<and> bufferedData b' = (bufferedData b)(u \<mapsto> dat) \<and>
    map_of (transactionMessages b') = (map_of (transactionMessages b))(tx \<mapsto> case_option [] id (map_of (transactionMessages b) tx) @ [u])"
proof -
  define C where "C c us = c\<lparr>bufferedData := (bufferedData c)(u \<mapsto> dat), messageToTransaction := (messageToTransaction c)(u \<mapsto> tx),
      transactionMessages := al_update tx us (transactionMessages c)\<rparr>" for c :: txBuffer and us
  have add: "\<exists>b'. logOperationLocked P ok ts ''ADD'' tx u (C c us) = (True, b') \<and> logOpen b' \<and>
      bufferedData b' = (bufferedData c)(u \<mapsto> dat) \<and> map_of (transactionMessages b') = (map_of (transactionMessages c))(tx \<mapsto> us)"
    if opened: "ok \<or> logOpen c" for c us
  proof -
    obtain b' where l: "logOperationLocked P ok ts ''ADD'' tx u (C c us) = (True, b')"
      using logOperation_succeeds [of ok "C c us" P ts "''ADD''" tx u] opened by (auto simp: C_def)
    with logOperation_maps [OF l] logOperation_open [OF l] show ?thesis by (simp add: C_def)
  qed
  show ?thesis
  proof (cases "map_of (transactionMessages b) tx")
    case None
    let ?c = "b\<lparr>transactionMessages := al_update tx [] (transactionMessages b)\<rparr>"
    obtain b1 where b1: "logOperationLocked P ok ts ''BEGIN'' tx 0 ?c = (True, b1)"
      using logOperation_succeeds [of ok ?c P ts "''BEGIN''" tx 0] assms by auto
    with logOperation_maps [OF b1] logOperation_open [OF b1] None add [of b1 "[u]"] show ?thesis
      by (auto simp: addMessage_def C_def)
  next
    case (Some us)
    with add [of b "us @ [u]"] assms show ?thesis by (auto simp: addMessage_def C_def)
  qed
qed

text \<open>Rolling a transaction back discards its messages and only those; a transaction that is not
  open is left alone.\<close>

lemma rollbackTransaction_discards:
  assumes "ok \<or> logOpen b"
  shows "\<exists>b'. rollbackTransaction P ok ts tx b = (True, b') \<and>
     map_of (transactionMessages b') = (map_of (transactionMessages b))(tx := None) \<and>
     (\<forall>u. bufferedData b' u =
        (if \<exists>us. map_of (transactionMessages b) tx = Some us \<and> u \<in> set us then None else bufferedData b u))"
proof (cases "map_of (transactionMessages b) tx")
  case None
  then show ?thesis by (auto simp: rollbackTransaction_def fun_eq_iff)
next
  case (Some us)
  obtain b' where l: "logOperationLocked P ok ts ''ROLLBACK'' tx 0 (drop_transaction tx us b) = (True, b')"
    using logOperation_succeeds [of ok "drop_transaction tx us b" P ts "''ROLLBACK''" tx 0] assms by (auto simp: drop_transaction_def)
  with logOperation_maps [OF l] Some show ?thesis
    by (auto simp: rollbackTransaction_def drop_transaction_def erase_all_eq)
qed

text \<open>The commit is logged before the batch reaches the storage: a crash between the two leaves no
  trace of the transaction, neither in the log nor in the buffer, while the storage was not touched.\<close>

lemma crash_after_commit_record_loses_batch:
  assumes "tokenizer_ok tk" "uuid_text_ok P" "(tx_step tk P)\<^sup>*\<^sup>* (new_txBuffer tk P None) b" "field_ok ts"
    "commit_locked P ok ts tx b = ((Some batch, True), b')"
  shows "map_of (transactionMessages (new_txBuffer tk P (logFile b'))) tx = None \<and>
    bufferedData (new_txBuffer tk P (logFile b')) = Map.empty"
proof -
  have "log_inv tk P b'"
    using commit_locked_inv [OF assms(1,2,4) tx_run_inv [OF assms(3,1,2)] assms(5)] .
  moreover have "map_of (transactionMessages b') tx = None"
    using assms(5) logOperation_maps by (fastforce simp: commit_locked_def split: option.splits prod.splits)
  ultimately show ?thesis by (simp add: log_inv_def new_txBuffer_eq)
qed

lemma crash_after_commit_record_loses_batch_example:
  "map_of (transactionMessages (new_txBuffer sample_tokenizer (sample_poco JNull)
      (logFile (snd (commit_locked (sample_poco JNull) True ''t'' ''tx1'' sample_txBuffer))))) ''tx1'' = None \<and>
   bufferedData (new_txBuffer sample_tokenizer (sample_poco JNull)
      (logFile (snd (commit_locked (sample_poco JNull) True ''t'' ''tx1'' sample_txBuffer)))) = Map.empty"
proof (rule crash_after_commit_record_loses_batch [OF _ _ sample_txBuffer_run])
  show "commit_locked (sample_poco JNull) True ''t'' ''tx1'' sample_txBuffer =
      ((Some [(7, [1, 2])], True), snd (commit_locked (sample_poco JNull) True ''t'' ''tx1'' sample_txBuffer))"
    by (simp add: commit_locked_def sample_txBuffer_maps logOperationLocked_def ensureLogOpenLocked_def)
qed (simp_all add: field_ok_def is_space_def newline_def)

section \<open>When the log cannot be written\<close>

text \<open>\<open>addMessage\<close> opens the transaction in memory before it writes the log: when the log cannot be opened, the
  call throws and the transaction stays, and the log knows nothing of it.  \<open>commitTransaction\<close> removes the
  transaction and its data before it writes: when the log cannot be opened, the data are lost, and the log has the transaction still open.\<close>

lemma unopenable_log_leaves_memory_ahead:
  assumes "\<not> logOpen b" "map_of (transactionMessages b) tx = None"
  shows "\<exists>b'. addMessage P False ts tx u dat b = (False, b') \<and> map_of (transactionMessages b') tx = Some [] \<and> logFile b' = logFile b"
  using assms by (simp add: addMessage_def logOperationLocked_def ensureLogOpenLocked_def)

lemma unopenable_log_loses_commit:
  assumes "\<not> logOpen b" "map_of (transactionMessages b) tx = Some us"
  shows "\<exists>b'. commitTransaction P False wok ts tx (b, Some cs) = Some (False, b', Some cs) \<and>
    map_of (transactionMessages b') tx = None \<and> (\<forall>u \<in> set us. bufferedData b' u = None) \<and> logFile b' = logFile b"
proof -
  from take_buffered_all [of us "bufferedData b" "messageToTransaction b"] obtain batch m' where
    "take_buffered us (bufferedData b) (messageToTransaction b) = (batch, erase_all us (bufferedData b), m')" by blast
  then show ?thesis using assms
    by (simp add: commitTransaction_def commit_locked_def logOperationLocked_def ensureLogOpenLocked_def erase_all_eq)
qed

text \<open>A line that is cut off inside the transaction id is read as a line of a shorter id: the first bytes of the
  \<open>COMMIT\<close> of \<open>tx10\<close> close \<open>tx1\<close>.\<close>

lemma getlines_last: "newline \<notin> set l \<Longrightarrow> rev acc @ l \<noteq> [] \<Longrightarrow> getlines acc l = [rev acc @ l]"
  by (induction l arbitrary: acc) auto

lemma getlines_torn:
  assumes "lines_end txt" "newline \<notin> set l" "l \<noteq> []"
  shows "getlines [] (txt @ l) = getlines [] txt @ [l]"
proof (cases "txt = []")
  case False
  with assms(1) obtain xs where "txt = xs @ [newline]" by (metis lines_end_def append_butlast_last_id)
  with getlines_newline [of "[]" xs l] getlines_last [of l "[]"] assms(2,3) show ?thesis by simp
qed (use getlines_last [of l "[]"] assms in simp)

lemma torn_log_line_closes_another_transaction:
  fixes ts tx :: string
  defines "torn \<equiv> ts @ ''|COMMIT|'' @ tx"
  assumes "lines_end txt" "field_ok ts" "field_ok tx" "tk torn = [ts, ''COMMIT'', tx]"
  shows "(\<exists>ys. log_line P ts ''COMMIT'' (tx @ rest) u = torn @ ys) \<and>
    map_of (transactionMessages (new_txBuffer tk P (Some (txt @ torn)))) = (map_of (transactionMessages (new_txBuffer tk P (Some txt))))(tx := None)"
proof -
  have "torn \<noteq> []" "newline \<notin> set torn" using assms(3,4) by (auto simp: torn_def field_ok_def newline_def)
  then have "load_text tk P (txt @ torn) = load_line tk P torn (load_text tk P txt)"
    using getlines_torn [OF assms(2)] by (simp add: load_text_def)
  moreover have "load_line tk P torn (tm, m) = (al_erase tx tm, m)" for tm m
    using assms(5) \<open>torn \<noteq> []\<close> by (simp add: load_line_def)
  ultimately show ?thesis
    by (auto simp: new_txBuffer_def loadTransactionLog_def log_line_def torn_def split: prod.split)
qed

lemma torn_log_line_example:
  "sample_tokenizer (''t'' @ ''|COMMIT|'' @ ''tx1'') = [''t'', ''COMMIT'', ''tx1''] \<and> field_ok ''t'' \<and> field_ok ''tx1'' \<and> lines_end (''t|BEGIN|tx1|'' @ [newline])"
  by (simp add: field_ok_def is_space_def newline_def lines_end_def)

end
