(* ===== verification/Priority_Queue.thy ===== *)
theory Priority_Queue
  imports Prelude
begin

text \<open>
  The ten-band priority queue of \<open>Message.h\<close> (\<open>PriorityQueueT\<close>): ten FIFO bands, a
  bit mask of bands that may be non-empty, and a counting semaphore with one token per message.
  A band is a \<open>moodycamel::ConcurrentQueue\<close>, modelled as the list of its elements, oldest
  first; an operation runs to completion before the next one starts.  The interface
  \<open>priority_fifo\<close> states what the clients rely on, and is interpreted on the band queue.
\<close>

section \<open>The band queue\<close>

record 'a pqueue =
  bands :: "'a list list"
  nonEmpty :: "16 word"
  sema :: nat

definition kBands :: nat where "kBands = 10"

definition pq_empty :: "'a pqueue" where
  "pq_empty = \<lparr>bands = replicate kBands [], nonEmpty = 0, sema = 0\<rparr>"

text \<open>\<open>prio\<close> is \<open>None\<close> for a null pointer, which goes to band 4.\<close>

definition pq_enqueue :: "int32 option \<Rightarrow> 'a \<Rightarrow> 'a pqueue \<Rightarrow> 'a pqueue" where
  "pq_enqueue prio x q =
     (let b = (case prio of None \<Rightarrow> 4 | Some p \<Rightarrow> clamp_prio p)
      in q\<lparr>bands := (bands q)[b := bands q ! b @ [x]],
           nonEmpty := set_bit b (nonEmpty q), sema := Suc (sema q)\<rparr>)"

text \<open>Index of the highest set bit: \<open>15 - countl_zero(mask)\<close>.\<close>

definition top_band :: "16 word \<Rightarrow> nat" where
  "top_band w = hd (filter (bit w) (rev [0..<16]))"

definition band_at :: "'a pqueue \<Rightarrow> nat \<Rightarrow> 'a list" where
  "band_at q b = (if b < length (bands q) then bands q ! b else [])"

fun pq_scan :: "nat \<Rightarrow> 'a pqueue \<Rightarrow> 'a option \<times> 'a pqueue" where
  "pq_scan 0 q = (None, q)"
| "pq_scan (Suc b) q =
     (case band_at q b of
        x # xs \<Rightarrow> (Some x, q\<lparr>bands := (bands q)[b := xs]\<rparr>)
      | [] \<Rightarrow> pq_scan b q)"

lemma set_bits_nonempty: "w \<noteq> 0 \<Longrightarrow> filter (bit w) (rev [0..<16]) \<noteq> []" for w :: "16 word"
proof
  assume "w \<noteq> 0" and "filter (bit w) (rev [0..<16]) = []"
  then have "\<forall>i < 16. \<not> bit w i" by (auto simp: filter_empty_conv)
  then have "w = 0" by (auto simp: bit_eq_iff)
  with \<open>w \<noteq> 0\<close> show False by simp
qed

lemma top_band_bit: "w \<noteq> 0 \<Longrightarrow> bit w (top_band w)"
proof -
  assume "w \<noteq> 0"
  then have "top_band w \<in> set (filter (bit w) (rev [0..<16]))"
    unfolding top_band_def by (intro hd_in_set set_bits_nonempty)
  then show ?thesis by simp
qed

lemma top_band_max: assumes "bit w i" shows "i \<le> top_band w"
proof -
  have "i < 16" using assms bit_imp_le_length [of w i] by simp
  then have "i \<in> set (filter (bit w) (rev [0..<16]))" using assms by simp
  moreover have "sorted_wrt (\<ge>) (filter (bit w) (rev [0..<16]))"
    by (rule sorted_wrt_filter) (simp add: sorted_wrt_rev)
  ultimately show ?thesis
    unfolding top_band_def by (cases "filter (bit w) (rev [0..<16])") auto
qed

lemma clear_top_decreases:
  assumes "w \<noteq> 0"
  shows "length (filter (bit (unset_bit (top_band w) w)) [0..<16]) < length (filter (bit w) [0..<16])"
proof -
  let ?t = "top_band w"
  have t: "bit w ?t" using assms by (rule top_band_bit)
  then have "?t < 16" using bit_imp_le_length [of w ?t] by simp
  have "set (filter (bit (unset_bit ?t w)) [0..<16]) \<subset> set (filter (bit w) [0..<16])"
    using t \<open>?t < 16\<close> by (auto simp: bit_unset_bit_iff)
  then show ?thesis
    by (metis (no_types) psubset_card_mono distinct_card distinct_filter distinct_upt finite_set)
qed

text \<open>\<open>dequeueFromBands\<close>: the walk guided by the mask, then the full scan as a safety net.\<close>

function dequeueFromBands :: "'a pqueue \<Rightarrow> 'a option \<times> 'a pqueue" where
  "dequeueFromBands q =
     (if nonEmpty q = 0 then pq_scan kBands q
      else let b = top_band (nonEmpty q) in
        case band_at q b of
          x # xs \<Rightarrow> (Some x, q\<lparr>bands := (bands q)[b := xs]\<rparr>)
        | [] \<Rightarrow> dequeueFromBands (q\<lparr>nonEmpty := unset_bit b (nonEmpty q)\<rparr>))"
  by pat_completeness auto
termination
  by (relation "measure (\<lambda>q. length (filter (bit (nonEmpty q)) [0..<16]))")
     (auto simp: clear_top_decreases)

declare dequeueFromBands.simps [simp del]

text \<open>A token whose message is not found is handed back.\<close>

definition dequeueFromBandsOrReturnToken :: "'a pqueue \<Rightarrow> 'a option \<times> 'a pqueue" where
  "dequeueFromBandsOrReturnToken q =
     (case dequeueFromBands q of
        (Some x, q') \<Rightarrow> (Some x, q')
      | (None, q') \<Rightarrow> (None, q'\<lparr>sema := Suc (sema q')\<rparr>))"

definition try_dequeue :: "'a pqueue \<Rightarrow> 'a option \<times> 'a pqueue" where
  "try_dequeue q =
     (if sema q = 0 then (None, q)
      else dequeueFromBandsOrReturnToken (q\<lparr>sema := sema q - 1\<rparr>))"

text \<open>
  The blocking form, for a wait in which no other thread enqueues: without a token it times out.
\<close>

definition wait_dequeue_timed :: "'a pqueue \<Rightarrow> 'a option \<times> 'a pqueue" where
  "wait_dequeue_timed q =
     (if sema q = 0 then (None, q)
      else dequeueFromBandsOrReturnToken (q\<lparr>sema := sema q - 1\<rparr>))"

section \<open>Invariant and abstraction\<close>

definition pq_inv :: "'a pqueue \<Rightarrow> bool" where
  "pq_inv q \<longleftrightarrow> length (bands q) = kBands \<and>
     (\<forall>b < kBands. bands q ! b \<noteq> [] \<longrightarrow> bit (nonEmpty q) b) \<and>
     (\<forall>b. bit (nonEmpty q) b \<longrightarrow> b < kBands) \<and>
     sema q = length (concat (bands q))"

text \<open>The elements with their band, in delivery order: band 9 first, oldest first in a band.\<close>

fun abs_bands :: "nat \<Rightarrow> 'a list list \<Rightarrow> (nat \<times> 'a) list" where
  "abs_bands i [] = []"
| "abs_bands i (b # bs) = abs_bands (Suc i) bs @ map (Pair i) b"

definition pq_abs :: "'a pqueue \<Rightarrow> (nat \<times> 'a) list" where
  "pq_abs q = abs_bands 0 (bands q)"

text \<open>The specification: stable insertion behind every element of the same or a higher priority.\<close>

definition spec_enqueue :: "nat \<Rightarrow> 'a \<Rightarrow> (nat \<times> 'a) list \<Rightarrow> (nat \<times> 'a) list" where
  "spec_enqueue p x l = filter (\<lambda>e. fst e \<ge> p) l @ [(p, x)] @ filter (\<lambda>e. fst e < p) l"

definition band_of :: "int32 option \<Rightarrow> nat" where
  "band_of prio = (case prio of None \<Rightarrow> 4 | Some p \<Rightarrow> clamp_prio p)"

lemma band_of_less [simp]: "band_of prio < kBands"
  by (auto simp: band_of_def kBands_def split: option.splits)

lemma filter_spec_enqueue:
  "filter (\<lambda>e. fst e = c) (spec_enqueue p x l) =
     filter (\<lambda>e. fst e = c) l @ (if p = c then [(c, x)] else [])"
proof (cases "p \<le> c")
  case True
  then have "filter (\<lambda>e. p \<le> fst e \<and> fst e = c) l = filter (\<lambda>e. fst e = c) l"
    "filter (\<lambda>e. fst e < p \<and> fst e = c) l = []"
    by (auto intro: filter_cong simp: filter_empty_conv)
  then show ?thesis by (simp add: spec_enqueue_def)
next
  case False
  then have "filter (\<lambda>e. fst e < p \<and> fst e = c) l = filter (\<lambda>e. fst e = c) l"
    "filter (\<lambda>e. p \<le> fst e \<and> fst e = c) l = []"
    by (auto intro: filter_cong simp: filter_empty_conv)
  with False show ?thesis by (simp add: spec_enqueue_def)
qed

lemma fst_abs_bands: "e \<in> set (abs_bands i bs) \<Longrightarrow> i \<le> fst e \<and> fst e < i + length bs"
  by (induction bs arbitrary: i) fastforce+

lemma abs_bands_sorted: "sorted_wrt (\<lambda>d e. fst d \<ge> fst e) (abs_bands i bs)"
proof (induction bs arbitrary: i)
  case Nil
  then show ?case by simp
next
  case (Cons b bs)
  then show ?case
    by (auto simp: sorted_wrt_append sorted_wrt_map dest: fst_abs_bands)
qed

lemma length_abs_bands: "length (abs_bands i bs) = length (concat bs)"
  by (induction bs arbitrary: i) auto

lemma abs_bands_enqueue:
  "b < length bs \<Longrightarrow> abs_bands i (bs[b := bs ! b @ [x]]) = spec_enqueue (i + b) x (abs_bands i bs)"
proof (induction bs arbitrary: i b)
  case Nil
  then show ?case by simp
next
  case (Cons c bs)
  have hi: "filter (\<lambda>e. fst e \<ge> i) (abs_bands (Suc i) bs) = abs_bands (Suc i) bs"
      "filter (\<lambda>e. fst e < i) (abs_bands (Suc i) bs) = []"
    by (auto simp: filter_id_conv filter_empty_conv dest: fst_abs_bands)
  show ?case
  proof (cases b)
    case 0
    with hi show ?thesis by (simp add: spec_enqueue_def filter_map comp_def)
  next
    case (Suc b')
    with Cons show ?thesis by (simp add: spec_enqueue_def filter_map comp_def)
  qed
qed

lemma pq_abs_enqueue:
  "pq_inv q \<Longrightarrow> pq_abs (pq_enqueue prio x q) = spec_enqueue (band_of prio) x (pq_abs q)"
  using abs_bands_enqueue [of "band_of prio" "bands q" 0 x]
  by (simp add: pq_abs_def pq_enqueue_def band_of_def [symmetric] pq_inv_def Let_def)

lemma length_concat_update:
  "b < length bs \<Longrightarrow> length (concat (bs[b := bs ! b @ [x]])) = Suc (length (concat bs))"
  by (induction bs arbitrary: b) (auto split: nat.splits)

lemma pq_inv_empty [inv_intros]: "pq_inv pq_empty"
  by (simp add: pq_inv_def pq_empty_def kBands_def)

lemma pq_abs_empty [simp]: "pq_abs pq_empty = []"
  by (simp add: pq_abs_def pq_empty_def kBands_def numeral_eq_Suc)

lemma pq_inv_enqueue [inv_intros]: "pq_inv q \<Longrightarrow> pq_inv (pq_enqueue prio x q)"
  using band_of_less [of prio]
  by (auto simp: pq_inv_def pq_enqueue_def band_of_def [symmetric] bit_set_bit_iff length_concat_update
      kBands_def nth_list_update Let_def split: if_splits)

section \<open>Dequeue takes the head of the abstraction\<close>

lemma abs_bands_Nil_iff: "abs_bands i bs = [] \<longleftrightarrow> (\<forall>b < length bs. bs ! b = [])"
proof (induction bs arbitrary: i)
  case Nil
  then show ?case by simp
next
  case (Cons c bs)
  then show ?case by (auto simp: nth_Cons split: nat.splits)
qed

lemma abs_bands_pop:
  assumes "b < length bs" "bs ! b = x # xs" "\<forall>c. b < c \<and> c < length bs \<longrightarrow> bs ! c = []"
  shows "abs_bands i bs = (i + b, x) # abs_bands i (bs[b := xs])"
  using assms
proof (induction bs arbitrary: i b)
  case Nil
  then show ?case by simp
next
  case (Cons c bs)
  show ?case
  proof (cases b)
    case 0
    with Cons.prems have "abs_bands (Suc i) bs = []"
      by (force simp: abs_bands_Nil_iff)
    with 0 Cons.prems show ?thesis by simp
  next
    case (Suc b')
    with Cons.prems have "\<forall>d. b' < d \<and> d < length bs \<longrightarrow> bs ! d = []" by force
    with Cons Suc show ?thesis by simp
  qed
qed

lemma length_concat_pop:
  "b < length bs \<Longrightarrow> bs ! b = x # xs \<Longrightarrow> length (concat bs) = Suc (length (concat (bs[b := xs])))"
  by (induction bs arbitrary: b) (auto split: nat.splits)

text \<open>The shape of the queue while a walk is under way: the semaphore token is already taken.\<close>

definition pq_mid :: "'a pqueue \<Rightarrow> bool" where
  "pq_mid q \<longleftrightarrow> length (bands q) = kBands \<and>
     (\<forall>b < kBands. bands q ! b \<noteq> [] \<longrightarrow> bit (nonEmpty q) b) \<and>
     (\<forall>b. bit (nonEmpty q) b \<longrightarrow> b < kBands)"

lemma pq_mid_band_empty:
  assumes "pq_mid q" "nonEmpty q = 0" "b < kBands" shows "bands q ! b = []"
  using assms by (auto simp: pq_mid_def)

lemma dequeueFromBands_correct:
  assumes "pq_mid q" "pq_abs q = (p, x) # l"
  shows "\<exists>q'. dequeueFromBands q = (Some x, q') \<and> pq_mid q' \<and> pq_abs q' = l \<and> sema q' = sema q \<and>
     length (concat (bands q)) = Suc (length (concat (bands q')))"
  using assms
proof (induction q rule: dequeueFromBands.induct)
  case (1 q)
  have ne: "nonEmpty q \<noteq> 0"
  proof
    assume z: "nonEmpty q = 0"
    have "\<forall>b < length (bands q). bands q ! b = []"
      using pq_mid_band_empty [OF 1(2) z] 1(2) by (simp add: pq_mid_def)
    then have "pq_abs q = []" by (simp add: pq_abs_def abs_bands_Nil_iff)
    with 1(3) show False by simp
  qed
  let ?b = "top_band (nonEmpty q)"
  have b: "bit (nonEmpty q) ?b" using ne by (rule top_band_bit)
  with 1(2) have bl: "?b < length (bands q)" by (auto simp: pq_mid_def)
  then have at: "band_at q ?b = bands q ! ?b" by (simp add: band_at_def)
  show ?case
  proof (cases "bands q ! ?b")
    case (Cons y ys)
    have hi: "\<forall>c. ?b < c \<and> c < length (bands q) \<longrightarrow> bands q ! c = []"
      using 1(2) top_band_max [of "nonEmpty q"] by (fastforce simp: pq_mid_def)
    have "pq_abs q = (?b, y) # abs_bands 0 ((bands q)[?b := ys])"
      using abs_bands_pop [OF bl Cons hi, of 0] by (simp add: pq_abs_def)
    with 1(3) have xy: "y = x" "l = abs_bands 0 ((bands q)[?b := ys])" by auto
    have "dequeueFromBands q = (Some x, q\<lparr>bands := (bands q)[?b := ys]\<rparr>)"
      using ne Cons at xy by (simp add: dequeueFromBands.simps [of q] Let_def)
    moreover have "pq_mid (q\<lparr>bands := (bands q)[?b := ys]\<rparr>)"
      using 1(2) b by (auto simp: pq_mid_def nth_list_update split: if_splits)
    ultimately show ?thesis
      using xy length_concat_pop [OF bl Cons] by (simp add: pq_abs_def)
  next
    case Nil
    let ?q = "q\<lparr>nonEmpty := unset_bit ?b (nonEmpty q)\<rparr>"
    have "pq_mid ?q"
      using 1(2) Nil by (auto simp: pq_mid_def bit_unset_bit_iff)
    moreover have "pq_abs ?q = (p, x) # l" using 1(3) by (simp add: pq_abs_def)
    ultimately obtain q' where "dequeueFromBands ?q = (Some x, q')" "pq_mid q'" "pq_abs q' = l"
        "sema q' = sema q" "length (concat (bands q)) = Suc (length (concat (bands q')))"
      using 1(1) [OF ne refl] at Nil by auto
    moreover have "dequeueFromBands q = dequeueFromBands ?q"
      using ne Nil at by (subst dequeueFromBands.simps) (simp add: Let_def)
    ultimately show ?thesis by auto
  qed
qed

lemma pq_inv_mid: "pq_inv q \<longleftrightarrow> pq_mid q \<and> sema q = length (pq_abs q)"
  by (auto simp: pq_inv_def pq_mid_def pq_abs_def length_abs_bands)

lemma try_dequeue_empty:
  assumes "pq_inv q" "pq_abs q = []" shows "try_dequeue q = (None, q)"
  using assms by (simp add: pq_inv_mid try_dequeue_def)

lemma try_dequeue_Cons:
  assumes "pq_inv q" "pq_abs q = (p, x) # l"
  shows "\<exists>q'. try_dequeue q = (Some x, q') \<and> pq_inv q' \<and> pq_abs q' = l"
proof -
  let ?q = "q\<lparr>sema := sema q - 1\<rparr>"
  have s: "sema q = Suc (length l)" and mid: "pq_mid ?q" and abs: "pq_abs ?q = (p, x) # l"
    using assms by (auto simp: pq_inv_mid pq_mid_def pq_abs_def)
  from dequeueFromBands_correct [OF mid abs] obtain q' where
    "dequeueFromBands ?q = (Some x, q')" "pq_mid q'" "pq_abs q' = l" "sema q' = length l"
    using s by auto
  with s show ?thesis
    by (simp add: try_dequeue_def dequeueFromBandsOrReturnToken_def pq_inv_mid)
qed

lemma wait_dequeue_timed_eq: "wait_dequeue_timed q = try_dequeue q"
  by (simp add: wait_dequeue_timed_def try_dequeue_def)

section \<open>The interface the clients use\<close>

locale priority_fifo =
  fixes empty :: "'q"
    and enq :: "int32 option \<Rightarrow> 'a \<Rightarrow> 'q \<Rightarrow> 'q"
    and deq :: "'q \<Rightarrow> 'a option \<times> 'q"
    and invar :: "'q \<Rightarrow> bool"
    and abs :: "'q \<Rightarrow> (nat \<times> 'a) list"
  assumes invar_empty: "invar empty"
    and abs_empty: "abs empty = []"
    and invar_enq: "invar q \<Longrightarrow> invar (enq p x q)"
    and abs_enq: "invar q \<Longrightarrow> abs (enq p x q) = spec_enqueue (band_of p) x (abs q)"
    and deq_none: "invar q \<Longrightarrow> abs q = [] \<Longrightarrow> deq q = (None, q)"
    and deq_some: "invar q \<Longrightarrow> abs q = (b, x) # l \<Longrightarrow> \<exists>q'. deq q = (Some x, q') \<and> invar q' \<and> abs q' = l"
    and abs_sorted: "invar q \<Longrightarrow> sorted_wrt (\<lambda>d e. fst d \<ge> fst e) (abs q)"
begin

text \<open>The elements that \<open>n\<close> dequeues return, and the queue they leave.\<close>

fun deq_n :: "nat \<Rightarrow> 'q \<Rightarrow> 'a list \<times> 'q" where
  "deq_n 0 q = ([], q)"
| "deq_n (Suc n) q =
     (case deq q of (None, q') \<Rightarrow> ([], q') | (Some x, q') \<Rightarrow> (case deq_n n q' of (xs, q'') \<Rightarrow> (x # xs, q'')))"

lemma deq_n_all:
  "invar q \<Longrightarrow> length (abs q) < n \<Longrightarrow>
     \<exists>q'. deq_n n q = (map snd (abs q), q') \<and> invar q' \<and> abs q' = []"
proof (induction n arbitrary: q)
  case 0
  then show ?case by simp
next
  case (Suc n)
  show ?case
  proof (cases "abs q")
    case Nil
    with Suc.prems deq_none show ?thesis by simp
  next
    case (Cons e l)
    obtain b x where e: "e = (b, x)" by fastforce
    with Cons Suc.prems obtain q' where "deq q = (Some x, q')" "invar q'" "abs q' = l"
      using deq_some by blast
    with Suc.IH [of q'] Suc.prems Cons e show ?thesis by auto
  qed
qed

text \<open>Nobody overtakes a message of a higher or equal priority.\<close>

lemma enq_keeps_order:
  assumes "invar q"
  shows "filter (\<lambda>e. fst e = c) (abs (enq p x q)) =
     filter (\<lambda>e. fst e = c) (abs q) @ (if band_of p = c then [(c, x)] else [])"
  using assms by (simp add: abs_enq filter_spec_enqueue)

lemma deq_max:
  assumes "invar q" "deq q = (Some x, q')"
  shows "\<exists>b. abs q = (b, x) # abs q' \<and> (\<forall>e \<in> set (abs q'). fst e \<le> b)"
proof (cases "abs q")
  case Nil
  with assms deq_none show ?thesis by simp
next
  case (Cons e l)
  obtain b y where e: "e = (b, y)" by fastforce
  with Cons assms deq_some have "y = x" "abs q' = l" by fastforce+
  with Cons e abs_sorted [OF assms(1)] show ?thesis by auto
qed

end

interpretation pq: priority_fifo pq_empty pq_enqueue try_dequeue pq_inv pq_abs
proof unfold_locales
  show "pq_inv q \<Longrightarrow> sorted_wrt (\<lambda>d e. fst d \<ge> fst e) (pq_abs q)" for q :: "'a pqueue"
    unfolding pq_abs_def by (rule abs_bands_sorted)
qed (auto intro: inv_intros simp: pq_abs_enqueue try_dequeue_empty try_dequeue_Cons)

section \<open>Draining a queue\<close>

lemma sema_pq_scan: "sema (snd (pq_scan n q)) = sema q"
  by (induction n) (auto split: list.splits)

lemma sema_dequeueFromBands: "sema (snd (dequeueFromBands q)) = sema q"
proof (induction q rule: dequeueFromBands.induct)
  case (1 q)
  show ?case
  proof (cases "nonEmpty q = 0")
    case True
    then show ?thesis by (simp add: dequeueFromBands.simps [of q] sema_pq_scan)
  next
    case False
    with 1 show ?thesis by (subst dequeueFromBands.simps) (auto simp: Let_def split: list.splits)
  qed
qed

lemma try_dequeue_sema: "try_dequeue q = (Some x, q') \<Longrightarrow> sema q' < sema q"
  using sema_dequeueFromBands [of "q\<lparr>sema := sema q - 1\<rparr>"]
  by (auto simp: try_dequeue_def dequeueFromBandsOrReturnToken_def split: if_splits prod.splits option.splits)

text \<open>\<open>while (queue.try_dequeue(msg)) ...\<close>: what the loop body sees, and the queue it leaves.\<close>

function pq_drain :: "'a pqueue \<Rightarrow> 'a list \<times> 'a pqueue" where
  "pq_drain q =
     (case try_dequeue q of
        (None, q') \<Rightarrow> ([], q')
      | (Some x, q') \<Rightarrow> (case pq_drain q' of (xs, q'') \<Rightarrow> (x # xs, q'')))"
  by pat_completeness auto
termination
  by (relation "measure sema") (auto dest: try_dequeue_sema [OF sym])

declare pq_drain.simps [simp del]

lemma pq_drain_eq:
  "pq_inv q \<Longrightarrow> \<exists>q'. pq_drain q = (map snd (pq_abs q), q') \<and> pq_inv q' \<and> pq_abs q' = []"
proof (induction "length (pq_abs q)" arbitrary: q)
  case 0
  then show ?case by (simp add: pq_drain.simps [of q] try_dequeue_empty)
next
  case (Suc n)
  then obtain b x l where "pq_abs q = (b, x) # l" by (metis length_Suc_conv surj_pair)
  with Suc pq.deq_some [of q b x l] show ?case
    by (fastforce simp: pq_drain.simps [of q])
qed

section \<open>What the consumers rely on\<close>

text \<open>Enqueueing a message puts it behind every queued message of its own or a higher band and
  before every message of a lower band, keeps the mask and semaphore invariant, and leaves the order
  within each band as it was.\<close>

lemma enqueue_refines:
  assumes "pq_inv q"
  shows "pq_inv (pq_enqueue p x q) \<and> pq_abs (pq_enqueue p x q) = spec_enqueue (band_of p) x (pq_abs q) \<and>
     filter (\<lambda>e. fst e = c) (pq_abs (pq_enqueue p x q)) =
       filter (\<lambda>e. fst e = c) (pq_abs q) @ (if band_of p = c then [(c, x)] else [])"
  using pq.invar_enq [OF assms] pq.abs_enq [OF assms] pq.enq_keeps_order [OF assms] by blast

lemma enqueue_refines_example:
  "pq_inv (pq_enqueue (Some 9) ''b'' (pq_enqueue (Some 4) ''a'' pq_empty)) \<and>
   pq_abs (pq_enqueue (Some 9) ''b'' (pq_enqueue (Some 4) ''a'' pq_empty)) =
     spec_enqueue (band_of (Some 9)) ''b'' (pq_abs (pq_enqueue (Some 4) ''a'' pq_empty)) \<and>
   filter (\<lambda>e. fst e = 4) (pq_abs (pq_enqueue (Some 9) ''b'' (pq_enqueue (Some 4) ''a'' pq_empty))) =
     filter (\<lambda>e. fst e = 4) (pq_abs (pq_enqueue (Some 4) ''a'' pq_empty)) @
       (if band_of (Some 9) = 4 then [(4, ''b'')] else [])"
  by (rule enqueue_refines) (intro inv_intros)

text \<open>Calls of the queue one after the other, as the state changes and with the answers of the dequeues, and
  the same calls of the list that is sorted by priority.\<close>

datatype 'a queue_call = CallEnqueue "int32 option" 'a | CallTryDequeue | CallWaitDequeueTimed

fun pq_calls :: "'a queue_call list \<Rightarrow> 'a pqueue \<Rightarrow> 'a option list \<times> 'a pqueue" where
  "pq_calls [] q = ([], q)"
| "pq_calls (CallEnqueue p x # cs) q = pq_calls cs (pq_enqueue p x q)"
| "pq_calls (CallTryDequeue # cs) q =
     (case try_dequeue q of (a, q') \<Rightarrow> (case pq_calls cs q' of (as, q'') \<Rightarrow> (a # as, q'')))"
| "pq_calls (CallWaitDequeueTimed # cs) q =
     (case wait_dequeue_timed q of (a, q') \<Rightarrow> (case pq_calls cs q' of (as, q'') \<Rightarrow> (a # as, q'')))"

definition spec_dequeue :: "(nat \<times> 'a) list \<Rightarrow> 'a option \<times> (nat \<times> 'a) list" where
  "spec_dequeue l = (case l of [] \<Rightarrow> (None, []) | (b, x) # l' \<Rightarrow> (Some x, l'))"

fun spec_calls :: "'a queue_call list \<Rightarrow> (nat \<times> 'a) list \<Rightarrow> 'a option list \<times> (nat \<times> 'a) list" where
  "spec_calls [] l = ([], l)"
| "spec_calls (CallEnqueue p x # cs) l = spec_calls cs (spec_enqueue (band_of p) x l)"
| "spec_calls (_ # cs) l = (case spec_dequeue l of (a, l') \<Rightarrow> (case spec_calls cs l' of (as, l'') \<Rightarrow> (a # as, l'')))"

lemma try_dequeue_spec:
  assumes "pq_inv q" shows "\<exists>q'. try_dequeue q = (fst (spec_dequeue (pq_abs q)), q') \<and> pq_inv q' \<and> pq_abs q' = snd (spec_dequeue (pq_abs q))"
proof (cases "pq_abs q")
  case Nil
  with pq.deq_none [OF assms] assms show ?thesis by (simp add: spec_dequeue_def)
next
  case (Cons e l)
  obtain b x where "e = (b, x)" by fastforce
  with Cons pq.deq_some [OF assms, of b x l] show ?thesis by (simp add: spec_dequeue_def)
qed

lemma pq_calls_refine:
  "pq_inv q \<Longrightarrow> \<exists>q'. pq_calls cs q = (fst (spec_calls cs (pq_abs q)), q') \<and> pq_inv q' \<and> pq_abs q' = snd (spec_calls cs (pq_abs q))"
proof (induction cs arbitrary: q)
  case (Cons c cs)
  show ?case
  proof (cases c)
    case (CallEnqueue p x)
    with Cons.IH [OF pq.invar_enq [OF Cons.prems]] pq.abs_enq [OF Cons.prems] show ?thesis by simp
  next
    case CallTryDequeue
    from try_dequeue_spec [OF Cons.prems] obtain q1 where "try_dequeue q = (fst (spec_dequeue (pq_abs q)), q1)" "pq_inv q1"
      "pq_abs q1 = snd (spec_dequeue (pq_abs q))" by blast
    with Cons.IH [of q1] CallTryDequeue show ?thesis by (auto split: prod.splits)
  next
    case CallWaitDequeueTimed
    from try_dequeue_spec [OF Cons.prems] obtain q1 where "wait_dequeue_timed q = (fst (spec_dequeue (pq_abs q)), q1)" "pq_inv q1"
      "pq_abs q1 = snd (spec_dequeue (pq_abs q))" unfolding wait_dequeue_timed_eq by blast
    with Cons.IH [of q1] CallWaitDequeueTimed show ?thesis by (auto split: prod.splits)
  qed
qed simp

text \<open>C18: any sequence of calls of a new queue that do not overlap behaves as on a list sorted by priority: an enqueue puts
  the message behind all of its own and of higher bands; a dequeue (also the timed one, at the end of its wait) returns the oldest message of the highest non-empty band and
  removes only that one, and it finds none exactly when the queue is empty.  All answers are those of the list, and the
  messages left are the list's, in its order, higher bands first.  (For calls that overlap see \<open>threads_conserve_messages\<close> and \<open>mask_can_hide_message\<close> of
  \<open>Queue_Threads\<close>.)\<close>

theorem dequeue_refines:
  "\<exists>q. pq_calls cs pq_empty = (fst (spec_calls cs []), q) \<and> pq_abs q = snd (spec_calls cs []) \<and>
     sorted_wrt (\<lambda>d e. fst d \<ge> fst e) (pq_abs q)"
  using pq_calls_refine [OF pq_inv_empty, of cs] pq.abs_sorted by fastforce

lemma dequeue_refines_example:
  "fst (pq_calls [CallEnqueue (Some 4) ''a'', CallEnqueue (Some 9) ''b'', CallEnqueue (Some 9) ''c'', CallTryDequeue, CallTryDequeue] pq_empty) =
     [Some ''b'', Some ''c'']"
  by code_simp

end
