(* ===== verification/Delivery_Scheduler.thy ===== *)
theory Delivery_Scheduler
  imports Message Priority_Queue
begin

text \<open>
  Delayed delivery: \<open>DeliveryScheduler.h\<close> and \<open>DeliveryScheduler.cpp\<close>.  Messages and
  queues are shared objects, so they live in a heap: \<open>msg_at\<close> and \<open>queue_at\<close> give the object behind a
  (non-null) pointer.  The pending deliveries are the multimap in its key order.  Every reading of the
  clock is an argument of the operation, in the order of the readings.  The worker's waiting is the
  subject of theory \<open>Scheduler_Threads\<close>; here its wake-up at a deadline is the operation \<open>deliver_due\<close>, which may run at any time.
\<close>

section \<open>Shared objects\<close>

type_synonym qaddr = nat

record mheap =
  msg_at :: "maddr \<Rightarrow> message"
  queue_at :: "qaddr \<Rightarrow> maddr pqueue"

definition set_msg :: "maddr \<Rightarrow> message \<Rightarrow> mheap \<Rightarrow> mheap" where
  "set_msg a m h = h\<lparr>msg_at := (msg_at h)(a := m)\<rparr>"

definition set_queue :: "qaddr \<Rightarrow> maddr pqueue \<Rightarrow> mheap \<Rightarrow> mheap" where
  "set_queue q x h = h\<lparr>queue_at := (queue_at h)(q := x)\<rparr>"

definition msg_priority :: "mheap \<Rightarrow> maddr \<Rightarrow> int32" where
  "msg_priority h a = priority (jmsHeaders (msg_at h a))"

text \<open>\<open>queue->enqueue(msg)\<close>\<close>

definition enqueue_msg :: "qaddr \<Rightarrow> maddr \<Rightarrow> mheap \<Rightarrow> mheap" where
  "enqueue_msg q a h = set_queue q (pq_enqueue (Some (msg_priority h a)) a (queue_at h q)) h"

lemma heap_simps [simp]:
  "msg_at (set_msg a m h) = (msg_at h)(a := m)" "queue_at (set_msg a m h) = queue_at h"
  "msg_at (set_queue q x h) = msg_at h" "queue_at (set_queue q x h) = (queue_at h)(q := x)"
  "msg_at (enqueue_msg q a h) = msg_at h"
  by (simp_all add: set_msg_def set_queue_def enqueue_msg_def)

section \<open>The scheduler\<close>

record sched_entry =
  entry_queue :: qaddr
  entry_msg :: maddr

record scheduler =
  sched_pending :: "(int64 \<times> sched_entry) list"
  threadStarted :: bool
  stop_flag :: bool
  stopped :: bool
  sched_version :: uint64

definition new_scheduler :: scheduler where
  "new_scheduler = \<lparr>sched_pending = [], threadStarted = False, stop_flag = False, stopped = False, sched_version = 0\<rparr>"

definition kMaxWaitMs :: int64 where
  "kMaxWaitMs = 24 * 60 * 60 * 1000"

text \<open>\<open>multimap::emplace\<close>: behind the entries of the same key.\<close>

definition mm_emplace :: "int64 \<Rightarrow> 'e \<Rightarrow> (int64 \<times> 'e) list \<Rightarrow> (int64 \<times> 'e) list" where
  "mm_emplace k e xs = takeWhile (\<lambda>p. sint (fst p) \<le> sint k) xs @ (k, e) # dropWhile (\<lambda>p. sint (fst p) \<le> sint k) xs"

text \<open>The clamp of an absurd delivery time, in the header and in the cached bytes.\<close>

definition clamp_delivery :: "int64 \<Rightarrow> maddr \<Rightarrow> mheap \<Rightarrow> int64 \<times> mheap" where
  "clamp_delivery now a h =
     (let m = msg_at h a; t = deliveryTime (jmsHeaders m) in
      if sint t > 0 \<and> sint t - sint now > sint kMaxFutureHeaderMs
      then (0, set_msg a (patchCachedDeliveryTime 0 (m\<lparr>jmsHeaders := (jmsHeaders m)\<lparr>deliveryTime := 0\<rparr>\<rparr>)) h)
      else (t, h))"

definition enqueueOrSchedule :: "int64 \<Rightarrow> int64 \<Rightarrow> qaddr \<Rightarrow> maddr \<Rightarrow> scheduler \<times> mheap \<Rightarrow> scheduler \<times> mheap" where
  "enqueueOrSchedule now1 now2 q a s =
     (case s of (sch, h) \<Rightarrow>
        (case clamp_delivery now1 a h of
           (t, h1) \<Rightarrow>
             if t = 0 \<or> sint t \<le> sint now2 then (sch, enqueue_msg q a h1)
             else if stopped sch then
               if isPersistent (msg_at h1 a) then (sch, h1) else (sch, enqueue_msg q a h1)
             else
               (sch\<lparr>threadStarted := True,
                    sched_pending := mm_emplace t \<lparr>entry_queue = q, entry_msg = a\<rparr> (sched_pending sch),
                    sched_version := sched_version sch + 1\<rparr>, h1)))"

definition cappedWaitDeltaMs :: "int64 \<Rightarrow> int64 \<Rightarrow> int64" where
  "cappedWaitDeltaMs deadlineMs nowMs =
     (if sint deadlineMs \<le> sint nowMs then 0
      else if sint deadlineMs \<ge> sint (nowMs + kMaxWaitMs) then kMaxWaitMs
      else deadlineMs - nowMs)"

text \<open>The inner loop of \<open>run\<close>: deliver every entry that is due.\<close>

fun deliver_loop :: "int64 \<Rightarrow> (int64 \<times> sched_entry) list \<Rightarrow> mheap \<Rightarrow> (int64 \<times> sched_entry) list \<times> mheap" where
  "deliver_loop upTo [] h = ([], h)"
| "deliver_loop upTo ((t, e) # es) h =
     (if sint t \<le> sint upTo then deliver_loop upTo es (enqueue_msg (entry_queue e) (entry_msg e) h)
      else ((t, e) # es, h))"

definition deliver_due :: "int64 \<Rightarrow> scheduler \<times> mheap \<Rightarrow> scheduler \<times> mheap" where
  "deliver_due now s =
     (case s of (sch, h) \<Rightarrow>
        if stop_flag sch \<or> \<not> threadStarted sch then (sch, h)
        else (case deliver_loop now (sched_pending sch) h of
                (es, h') \<Rightarrow> (sch\<lparr>sched_pending := es\<rparr>, h')))"

definition sched_stop :: "scheduler \<Rightarrow> scheduler" where
  "sched_stop sch = (if stopped sch then sch else sch\<lparr>stop_flag := True, stopped := True\<rparr>)"

section \<open>The order of the pending deliveries\<close>

definition sched_inv :: "scheduler \<Rightarrow> bool" where
  "sched_inv sch \<longleftrightarrow> sorted_wrt (\<lambda>p q. sint (fst p) \<le> sint (fst q)) (sched_pending sch) \<and>
     (sched_pending sch \<noteq> [] \<longrightarrow> threadStarted sch) \<and> (stop_flag sch \<longleftrightarrow> stopped sch)"

lemma set_mm_emplace [simp]: "set (mm_emplace k e xs) = insert (k, e) (set xs)"
proof -
  have "set xs = set (takeWhile (\<lambda>p. sint (fst p) \<le> sint k) xs) \<union> set (dropWhile (\<lambda>p. sint (fst p) \<le> sint k) xs)"
    by (metis set_append takeWhile_dropWhile_id)
  then show ?thesis by (auto simp: mm_emplace_def)
qed

lemma sorted_mm_emplace:
  "sorted_wrt (\<lambda>p q. sint (fst p) \<le> sint (fst q)) xs \<Longrightarrow>
     sorted_wrt (\<lambda>p q. sint (fst p) \<le> sint (fst q)) (mm_emplace k e xs)"
proof (induction xs)
  case Nil
  then show ?case by (simp add: mm_emplace_def)
next
  case (Cons p xs)
  show ?case
  proof (cases "sint (fst p) \<le> sint k")
    case True
    then have "mm_emplace k e (p # xs) = p # mm_emplace k e xs" by (simp add: mm_emplace_def)
    with Cons True show ?thesis by auto
  next
    case False
    then have "mm_emplace k e (p # xs) = (k, e) # p # xs" by (simp add: mm_emplace_def)
    with Cons.prems False show ?thesis by auto
  qed
qed

lemma sched_inv_new: "sched_inv new_scheduler"
  by (simp add: sched_inv_def new_scheduler_def)

lemma sched_inv_enqueueOrSchedule: "sched_inv sch \<Longrightarrow> sched_inv (fst (enqueueOrSchedule n1 n2 q a (sch, h)))"
  by (auto simp: enqueueOrSchedule_def sched_inv_def sorted_mm_emplace split: prod.splits)

definition enqueue_entries :: "(int64 \<times> sched_entry) list \<Rightarrow> mheap \<Rightarrow> mheap" where
  "enqueue_entries es h = fold (\<lambda>(t, e). enqueue_msg (entry_queue e) (entry_msg e)) es h"

lemma deliver_loop_eq:
  "sorted_wrt (\<lambda>p q. sint (fst p) \<le> sint (fst q)) es \<Longrightarrow>
     deliver_loop upTo es h = (filter (\<lambda>p. \<not> sint (fst p) \<le> sint upTo) es,
       enqueue_entries (filter (\<lambda>p. sint (fst p) \<le> sint upTo) es) h)"
proof (induction upTo es h rule: deliver_loop.induct)
  case (1 upTo h)
  then show ?case by (simp add: enqueue_entries_def)
next
  case (2 upTo t e es h)
  show ?case
  proof (cases "sint t \<le> sint upTo")
    case True
    with 2 show ?thesis by (simp add: enqueue_entries_def)
  next
    case False
    with "2.prems" have "\<forall>p \<in> set es. \<not> sint (fst p) \<le> sint upTo" by auto
    then have "filter (\<lambda>p. sint (fst p) \<le> sint upTo) es = []" "filter (\<lambda>p. \<not> sint (fst p) \<le> sint upTo) es = es"
      by (simp_all add: filter_empty_conv)
    with False show ?thesis by (simp add: enqueue_entries_def)
  qed
qed

lemma sched_inv_deliver_due: "sched_inv sch \<Longrightarrow> sched_inv (fst (deliver_due now (sch, h)))"
  by (auto simp: deliver_due_def sched_inv_def deliver_loop_eq sorted_wrt_filter split: prod.splits)

lemma sched_inv_stop: "sched_inv sch \<Longrightarrow> sched_inv (sched_stop sch)"
  by (simp add: sched_stop_def sched_inv_def)

section \<open>What the destination relies on\<close>

definition queues_ok :: "mheap \<Rightarrow> bool" where
  "queues_ok h \<longleftrightarrow> (\<forall>q. pq_inv (queue_at h q))"

text \<open>The order in which a queue will hand out its messages.\<close>

definition queue_abs :: "mheap \<Rightarrow> qaddr \<Rightarrow> (nat \<times> maddr) list" where
  "queue_abs h q = pq_abs (queue_at h q)"

lemma queues_ok_enqueue: "queues_ok h \<Longrightarrow> queues_ok (enqueue_msg q a h)"
  by (simp add: queues_ok_def enqueue_msg_def pq_inv_enqueue)

lemma queue_abs_enqueue:
  "queues_ok h \<Longrightarrow> queue_abs (enqueue_msg q a h) q' =
     (if q' = q then spec_enqueue (band_of (Some (msg_priority h a))) a (queue_abs h q) else queue_abs h q')"
  by (simp add: queues_ok_def queue_abs_def enqueue_msg_def pq_abs_enqueue)

lemma enqueue_entries_msgs: "msg_at (enqueue_entries es h) = msg_at h"
  by (induction es arbitrary: h) (auto simp: enqueue_entries_def)

lemma enqueue_entries_abs:
  "queues_ok h \<Longrightarrow> queues_ok (enqueue_entries es h) \<and>
     queue_abs (enqueue_entries es h) q =
       fold (\<lambda>a. spec_enqueue (band_of (Some (msg_priority h a))) a)
         (map (\<lambda>(t, e). entry_msg e) (filter (\<lambda>(t, e). entry_queue e = q) es)) (queue_abs h q)"
proof (induction es arbitrary: h)
  case Nil
  then show ?case by (simp add: enqueue_entries_def)
next
  case (Cons p es)
  obtain t e where p: "p = (t, e)" by fastforce
  let ?h = "enqueue_msg (entry_queue e) (entry_msg e) h"
  have "msg_priority ?h = msg_priority h" by (simp add: msg_priority_def fun_eq_iff)
  with Cons.IH [OF queues_ok_enqueue [OF Cons.prems], of "entry_queue e" "entry_msg e"]
    queue_abs_enqueue [OF Cons.prems, of "entry_queue e" "entry_msg e" q] p
  show ?case by (auto simp: enqueue_entries_def)
qed

lemma kMax_sint: "sint kMaxFutureHeaderMs = 315360000000" "sint kMaxWaitMs = 86400000"
  by (simp_all add: kMaxFutureHeaderMs_def kMaxWaitMs_def)

lemma sint_plus_small:
  fixes a b :: int64
  assumes "- (2 ^ 63) \<le> sint a + sint b" "sint a + sint b < 2 ^ 63"
  shows "sint (a + b) = sint a + sint b"
  using assms by (simp add: sint_word_ariths signed_take_bit_int_eq_self)

lemma sint_minus_small:
  fixes a b :: int64
  assumes "- (2 ^ 63) \<le> sint a - sint b" "sint a - sint b < 2 ^ 63"
  shows "sint (a - b) = sint a - sint b"
  using assms by (simp add: sint_word_ariths signed_take_bit_int_eq_self)

lemma mset_mm_emplace: "mset (mm_emplace k e xs) = add_mset (k, e) (mset xs)"
proof -
  let ?P = "\<lambda>p :: int64 \<times> 'a. sint (fst p) \<le> sint k"
  have "mset xs = mset (takeWhile ?P xs) + mset (dropWhile ?P xs)"
    by (metis mset_append takeWhile_dropWhile_id)
  then show ?thesis by (simp add: mm_emplace_def)
qed

text \<open>A message whose delivery time lies ahead is kept away from every queue: it is added to the
  pending deliveries, which stay ordered by delivery time, and no queue and no message changes.\<close>

lemma delayed_message_waits:
  assumes "sched_inv sch" "\<not> stopped sch" "t = deliveryTime (jmsHeaders (msg_at h a))"
    "sint now2 < sint t" "0 < sint t" "sint t - sint now1 \<le> 315360000000"
  shows "\<exists>sch'. enqueueOrSchedule now1 now2 q a (sch, h) = (sch', h) \<and> sched_inv sch' \<and> threadStarted sch' \<and>
    set (sched_pending sch') = insert (t, \<lparr>entry_queue = q, entry_msg = a\<rparr>) (set (sched_pending sch))"
proof -
  have "t \<noteq> 0" using assms(5) by auto
  with assms have "enqueueOrSchedule now1 now2 q a (sch, h) =
     (sch\<lparr>threadStarted := True, sched_pending := mm_emplace t \<lparr>entry_queue = q, entry_msg = a\<rparr> (sched_pending sch),
          sched_version := sched_version sch + 1\<rparr>, h)"
    by (simp add: enqueueOrSchedule_def clamp_delivery_def kMax_sint)
  moreover from this sched_inv_enqueueOrSchedule [OF assms(1), of now1 now2 q a h]
  have "sched_inv (sch\<lparr>threadStarted := True, sched_pending := mm_emplace t \<lparr>entry_queue = q, entry_msg = a\<rparr> (sched_pending sch),
          sched_version := sched_version sch + 1\<rparr>)" by simp
  ultimately show ?thesis by simp
qed

definition sample_heap_at :: "int64 \<Rightarrow> mheap" where
  "sample_heap_at t = \<lparr>msg_at = (\<lambda>_. (new_message (TextBody ''x'') 1 PERSISTENT)\<lparr>jmsHeaders := default_headers\<lparr>deliveryTime := t\<rparr>\<rparr>),
     queue_at = (\<lambda>_. pq_empty)\<rparr>"

abbreviation sample_heap :: mheap where
  "sample_heap \<equiv> sample_heap_at 5000"

lemma sample_heap_time: "deliveryTime (jmsHeaders (msg_at (sample_heap_at t) a)) = t"
  by (simp add: sample_heap_at_def)

lemma delayed_message_waits_example:
  "\<exists>sch'. enqueueOrSchedule 1000 1000 0 3 (new_scheduler, sample_heap) = (sch', sample_heap) \<and> sched_inv sch' \<and>
    threadStarted sch' \<and>
    set (sched_pending sch') = insert (5000, \<lparr>entry_queue = 0, entry_msg = 3\<rparr>) (set (sched_pending new_scheduler))"
  by (rule delayed_message_waits [OF sched_inv_new])
    (simp_all add: sample_heap_time new_scheduler_def)

text \<open>When the worker wakes up, exactly the pending messages whose delivery time has come are put
  into their queues, earliest delivery time first and in the order of scheduling within one time; each
  queue places them by priority, and all the others stay pending.\<close>

lemma due_messages_are_delivered:
  assumes "sched_inv sch" "\<not> stopped sch" "queues_ok h"
  shows "\<exists>sch' h'. deliver_due now (sch, h) = (sch', h') \<and> sched_inv sch' \<and> queues_ok h' \<and> msg_at h' = msg_at h \<and>
    sched_pending sch' = filter (\<lambda>(t, e). \<not> sint t \<le> sint now) (sched_pending sch) \<and>
    (\<forall>q. queue_abs h' q =
       fold (\<lambda>a. spec_enqueue (band_of (Some (msg_priority h a))) a)
         (map (\<lambda>(t, e). entry_msg e)
           (filter (\<lambda>(t, e). sint t \<le> sint now \<and> entry_queue e = q) (sched_pending sch))) (queue_abs h q))"
proof -
  let ?due = "filter (\<lambda>p. sint (fst p) \<le> sint now) (sched_pending sch)"
  have eq: "deliver_due now (sch, h) =
      (sch\<lparr>sched_pending := filter (\<lambda>p. \<not> sint (fst p) \<le> sint now) (sched_pending sch)\<rparr>, enqueue_entries ?due h)"
  proof (cases "sched_pending sch = []")
    case True
    then have "sch\<lparr>sched_pending := []\<rparr> = sch" by (cases sch) simp
    with True show ?thesis by (auto simp: deliver_due_def enqueue_entries_def)
  next
    case False
    with assms(1,2) show ?thesis by (simp add: deliver_due_def sched_inv_def deliver_loop_eq)
  qed
  have f: "filter (\<lambda>(t, e). entry_queue e = q) ?due =
      filter (\<lambda>(t, e). sint t \<le> sint now \<and> entry_queue e = q) (sched_pending sch)" for q
    by (simp add: case_prod_unfold conj_commute)
  show ?thesis
    using eq sched_inv_deliver_due [OF assms(1), of now h] enqueue_entries_abs [OF assms(3), of ?due]
    by (simp add: enqueue_entries_msgs f) (simp add: case_prod_unfold)
qed

definition one_pending :: scheduler where
  "one_pending = fst (enqueueOrSchedule 1000 1000 0 3 (new_scheduler, sample_heap))"

lemma one_pending_ok: "sched_inv one_pending" "\<not> stopped one_pending" "queues_ok sample_heap"
  using sched_inv_enqueueOrSchedule [OF sched_inv_new, of 1000 1000 0 3 sample_heap]
  by (simp_all add: one_pending_def queues_ok_def sample_heap_at_def pq_inv_empty)
    (simp add: enqueueOrSchedule_def new_scheduler_def split: prod.splits)

lemma due_messages_are_delivered_example:
  "\<exists>sch' h'. deliver_due 6000 (one_pending, sample_heap) = (sch', h') \<and> sched_inv sch' \<and> queues_ok h' \<and>
    msg_at h' = msg_at sample_heap \<and>
    sched_pending sch' = filter (\<lambda>(t, e). \<not> sint t \<le> sint (6000 :: int64)) (sched_pending one_pending) \<and>
    (\<forall>q. queue_abs h' q =
       fold (\<lambda>a. spec_enqueue (band_of (Some (msg_priority sample_heap a))) a)
         (map (\<lambda>(t, e). entry_msg e)
           (filter (\<lambda>(t, e). sint t \<le> sint (6000 :: int64) \<and> entry_queue e = q) (sched_pending one_pending)))
         (queue_abs sample_heap q))"
  by (rule due_messages_are_delivered [OF one_pending_ok])

text \<open>The sleep of the worker is the distance to the next deadline, cut to between 0 and one day,
  and the computation does not overflow for any deadline at all.\<close>

lemma capped_wait_is_clamped_distance:
  assumes "0 \<le> sint now" "sint now + 86400000 < 2 ^ 63"
  shows "sint (cappedWaitDeltaMs deadline now) = max 0 (min (sint deadline - sint now) 86400000)"
proof -
  have p: "sint (now + kMaxWaitMs) = sint now + 86400000"
    using sint_plus_small [of now kMaxWaitMs] assms by (simp add: kMax_sint)
  have "sint (deadline - now) = sint deadline - sint now"
    if "sint now < sint deadline" "sint deadline < sint now + 86400000"
    using that by (intro sint_minus_small) simp_all
  with p show ?thesis by (simp add: cappedWaitDeltaMs_def kMax_sint)
qed

text \<open>A delivery time more than ten years ahead is treated as absent: the message is visible at
  once, and both its header and its cached bytes say so.\<close>

lemma absurd_delay_is_immediate:
  assumes "t = deliveryTime (jmsHeaders (msg_at h a))" "0 < sint t" "sint t - sint now1 > 315360000000"
  shows "\<exists>h'. enqueueOrSchedule now1 now2 q a (sch, h) = (sch, enqueue_msg q a h') \<and>
    deliveryTime (jmsHeaders (msg_at h' a)) = 0 \<and>
    (\<forall>P. cachedStorageBytes (msg_at h a) = storage_bytes P (msg_at h a) \<longrightarrow>
       cachedStorageBytes (msg_at h' a) = storage_bytes P (msg_at h' a))"
proof -
  define m where "m = msg_at h a"
  define m0 where "m0 = m\<lparr>jmsHeaders := (jmsHeaders m)\<lparr>deliveryTime := 0\<rparr>\<rparr>"
  define m1 where "m1 = patchCachedDeliveryTime 0 m0"
  have "enqueueOrSchedule now1 now2 q a (sch, h) = (sch, enqueue_msg q a (set_msg a m1 h))"
    using assms by (simp add: enqueueOrSchedule_def clamp_delivery_def kMax_sint Let_def m_def m0_def m1_def)
  moreover have "jmsHeaders m1 = jmsHeaders m0" "storage_bytes P m1 = storage_bytes P m0" for P
    by (simp_all add: m1_def patchCachedDeliveryTime_def storage_bytes_def toBytes_def fixed_block_def)
  moreover have "cachedStorageBytes m1 = storage_bytes P m0" if "cachedStorageBytes m = storage_bytes P m" for P
    using that storage_bytes_offsets(1,2) [of P m] memcpy_storage_bytes [of P m 0]
    by (simp add: m1_def m0_def patchCachedDeliveryTime_def)
  moreover have "deliveryTime (jmsHeaders m0) = 0" by (simp add: m0_def)
  ultimately show ?thesis
    by (intro exI [of _ "set_msg a m1 h"]) (simp add: m_def [symmetric])
qed

text \<open>After \<open>stop\<close> nothing is scheduled and nothing pending is delivered any more; a message that is
  not yet due is dropped in memory when it is persistent, so that its record stays for the next start,
  and is delivered at once when it is not.\<close>

lemma stopped_scheduler_policy:
  assumes "stopped sch" "sched_inv sch"
  shows "deliver_due now (sch, h) = (sch, h) \<and> sched_stop sch = sch \<and>
    fst (enqueueOrSchedule now1 now2 q a (sch, h)) = sch \<and>
    (let (t, h1) = clamp_delivery now1 a h in
       snd (enqueueOrSchedule now1 now2 q a (sch, h)) =
         (if t \<noteq> 0 \<and> sint now2 < sint t \<and> isPersistent (msg_at h1 a) then h1 else enqueue_msg q a h1))"
  using assms
  by (auto simp: deliver_due_def sched_stop_def sched_inv_def enqueueOrSchedule_def split: prod.splits)

end
