(* ===== verification/Message_Body.thy ===== *)
theory Message_Body
  imports Message
begin

text \<open>
  What a client calls on a message: the casts of \<open>Message::As\<close>, the typed property setters and getters
  of \<open>Message\<close>, the accessors of the five message classes over their data, and the JSON dump.  The data
  of a class is the argument of the constructor of \<open>msg_body\<close>, so an accessor of a class takes that
  data and a mutator returns it changed; \<open>on_body\<close> lifts a mutator to the message.
\<close>

section \<open>Constructors and casts\<close>

definition TextMessage_new :: "uuid \<Rightarrow> string \<Rightarrow> reliability_mode \<Rightarrow> message" where
  "TextMessage_new u t r = new_message (TextBody t) u r"

definition BytesMessage_new :: "uuid \<Rightarrow> byte list \<Rightarrow> reliability_mode \<Rightarrow> message" where
  "BytesMessage_new u d r = new_message (BytesBody d) u r"

definition MapMessage_new :: "uuid \<Rightarrow> reliability_mode \<Rightarrow> message" where
  "MapMessage_new u r = new_message (MapBody []) u r"

definition StreamMessage_new :: "uuid \<Rightarrow> reliability_mode \<Rightarrow> message" where
  "StreamMessage_new u r = new_message (StreamBody empty_stream) u r"

definition ObjectMessage_new :: "uuid \<Rightarrow> byte list \<Rightarrow> string \<Rightarrow> reliability_mode \<Rightarrow> message" where
  "ObjectMessage_new u d n r = new_message (ObjectBody d n) u r"

text \<open>\<open>Message::As\<close> is a dynamic cast: a null pointer for a message of another class.\<close>

fun As_TextMessage :: "msg_body \<Rightarrow> string option" where
  "As_TextMessage (TextBody t) = Some t" | "As_TextMessage _ = None"

fun As_BytesMessage :: "msg_body \<Rightarrow> byte list option" where
  "As_BytesMessage (BytesBody d) = Some d" | "As_BytesMessage _ = None"

fun As_MapMessage :: "msg_body \<Rightarrow> properties option" where
  "As_MapMessage (MapBody ps) = Some ps" | "As_MapMessage _ = None"

fun As_StreamMessage :: "msg_body \<Rightarrow> pstream option" where
  "As_StreamMessage (StreamBody s) = Some s" | "As_StreamMessage _ = None"

fun As_ObjectMessage :: "msg_body \<Rightarrow> (byte list \<times> string) option" where
  "As_ObjectMessage (ObjectBody d n) = Some (d, n)" | "As_ObjectMessage _ = None"

definition on_body :: "('d \<Rightarrow> msg_body) \<Rightarrow> 'd \<Rightarrow> message \<Rightarrow> message" where
  "on_body C d m = m\<lparr>body := C d\<rparr>"

section \<open>Typed properties of a message\<close>

definition setBoolProperty :: "string \<Rightarrow> bool \<Rightarrow> message \<Rightarrow> message" where
  "setBoolProperty n v = message_setProperty n (PBool (Some v))"

definition setCharProperty :: "string \<Rightarrow> char \<Rightarrow> message \<Rightarrow> message" where
  "setCharProperty n v = message_setProperty n (PChar (Some v))"

definition setStringProperty :: "string \<Rightarrow> string \<Rightarrow> message \<Rightarrow> message" where
  "setStringProperty n v = message_setProperty n (PString (Some v))"

definition setByteProperty :: "string \<Rightarrow> byte \<Rightarrow> message \<Rightarrow> message" where
  "setByteProperty n v = message_setProperty n (PByte (Some v))"

definition setShortProperty :: "string \<Rightarrow> int16 \<Rightarrow> message \<Rightarrow> message" where
  "setShortProperty n v = message_setProperty n (PShort (Some v))"

definition setIntProperty :: "string \<Rightarrow> int32 \<Rightarrow> message \<Rightarrow> message" where
  "setIntProperty n v = message_setProperty n (PInt (Some v))"

definition setLongProperty :: "string \<Rightarrow> int64 \<Rightarrow> message \<Rightarrow> message" where
  "setLongProperty n v = message_setProperty n (PLong (Some v))"

definition setFloatProperty :: "string \<Rightarrow> fp \<Rightarrow> message \<Rightarrow> message" where
  "setFloatProperty n v = message_setProperty n (PFloat (Some v))"

definition setDoubleProperty :: "string \<Rightarrow> fp \<Rightarrow> message \<Rightarrow> message" where
  "setDoubleProperty n v = message_setProperty n (PDouble (Some v))"

definition setBytesProperty :: "string \<Rightarrow> byte list \<Rightarrow> message \<Rightarrow> message" where
  "setBytesProperty n v = message_setProperty n (PBytes (Some v))"

definition message_property :: "valueType \<Rightarrow> message \<Rightarrow> string \<Rightarrow> prop_error + prop_value" where
  "message_property t m n = property t (props m) n"

definition message_hasProperty :: "message \<Rightarrow> string \<Rightarrow> bool" where
  "message_hasProperty m n = hasProperty (props m) n"

definition message_propertyValueType :: "message \<Rightarrow> string \<Rightarrow> prop_error + valueType" where
  "message_propertyValueType m n = propertyValueType (props m) n"

declare setStringProperty_def [simp]

section \<open>Text, object and map messages\<close>

definition TextMessage_setText :: "string \<Rightarrow> string \<Rightarrow> string" where
  "TextMessage_setText new t = new"

definition ObjectMessage_setBody :: "byte list \<Rightarrow> string \<Rightarrow> byte list \<times> string \<Rightarrow> byte list \<times> string" where
  "ObjectMessage_setBody serialized cls d = (serialized, cls)"

definition MapMessage_set :: "string \<Rightarrow> prop_value \<Rightarrow> properties \<Rightarrow> properties" where
  "MapMessage_set n v ps = setProperty ps n v"

definition MapMessage_get :: "valueType \<Rightarrow> properties \<Rightarrow> string \<Rightarrow> prop_error + prop_value" where
  "MapMessage_get t ps n = property t ps n"

definition MapMessage_has :: "properties \<Rightarrow> string \<Rightarrow> bool" where
  "MapMessage_has ps n = hasProperty ps n"

definition MapMessage_empty :: "properties \<Rightarrow> bool" where
  "MapMessage_empty ps = (ps = [])"

fun MapMessage_names :: "properties \<Rightarrow> string list" where
  "MapMessage_names [] = []"
| "MapMessage_names ((n, v) # ps) = n # MapMessage_names ps"

definition MapMessage_valueType :: "properties \<Rightarrow> string \<Rightarrow> prop_error + valueType" where
  "MapMessage_valueType ps n = propertyValueType ps n"

section \<open>Stream messages\<close>

definition StreamMessage_write :: "stream_value \<Rightarrow> pstream \<Rightarrow> pstream" where
  "StreamMessage_write v s = stream_write s v"

definition StreamMessage_read :: "valueType \<Rightarrow> pstream \<Rightarrow> prop_error + (stream_value \<times> pstream)" where
  "StreamMessage_read t s = nextValue t s"

definition StreamMessage_nextValueType :: "pstream \<Rightarrow> prop_error + valueType" where
  "StreamMessage_nextValueType s = nextValueType s"

definition StreamMessage_empty :: "pstream \<Rightarrow> bool" where
  "StreamMessage_empty s = stream_empty s"

definition StreamMessage_reset :: "pstream \<Rightarrow> pstream" where
  "StreamMessage_reset s = stream_reset s"

definition StreamMessage_eof :: "pstream \<Rightarrow> prop_error + bool" where
  "StreamMessage_eof s = stream_eof s"

section \<open>Bytes messages\<close>

text \<open>An access outside the vector, or outside the bytes the caller passes, has no defined result.\<close>

datatype bytes_error = OutOfBounds

definition setBytes :: "byte list \<Rightarrow> byte list \<Rightarrow> byte list" where
  "setBytes new d = new"

definition setBytes_size :: "byte list \<Rightarrow> nat \<Rightarrow> byte list \<Rightarrow> bytes_error + byte list" where
  "setBytes_size src sz d = (if sz \<le> length src then Inr (take sz src) else Inl OutOfBounds)"

text \<open>The loop of \<open>writeBytes\<close>: \<open>vec[i] = bytes[i - offset]\<close> for \<open>i\<close> up to \<open>dataSize\<close>.\<close>

function write_loop :: "byte list \<Rightarrow> nat \<Rightarrow> nat \<Rightarrow> nat \<Rightarrow> byte list \<Rightarrow> bytes_error + byte list" where
  "write_loop src off dataSize i vec =
     (if i < dataSize
      then if i < length vec \<and> i - off < length src
           then write_loop src off dataSize (Suc i) (vec[i := src ! (i - off)])
           else Inl OutOfBounds
      else Inr vec)"
  by auto
termination by (relation "measure (\<lambda>(src, off, dataSize, i, vec). dataSize - i)") auto

declare write_loop.simps [simp del]

text \<open>The sizes are \<open>size_t\<close>, so \<open>offset + size\<close> wraps.  The branch for a vector that is too short
  reserves capacity, which leaves its size as it is, and clears from \<open>offset\<close> to the old end.\<close>

definition writeBytes :: "byte list \<Rightarrow> uint64 \<Rightarrow> uint64 \<Rightarrow> byte list \<Rightarrow> bytes_error + byte list" where
  "writeBytes src off sz data =
     (let dataSize = unat (off + sz);
          vec = (if data = [] then replicate dataSize 0 else data) in
      if length vec < dataSize
      then if unat off \<le> length vec
           then write_loop src (unat off) dataSize (unat off) (take (unat off) vec @ replicate (length vec - unat off) 0)
           else Inl OutOfBounds
      else write_loop src (unat off) dataSize (unat off) vec)"

definition readBytes :: "nat \<Rightarrow> nat \<Rightarrow> byte list \<Rightarrow> bytes_error + byte list" where
  "readBytes off sz data = (if off + sz \<le> length data then Inr (take sz (drop off data)) else Inl OutOfBounds)"

definition dataSize :: "byte list \<Rightarrow> nat" where
  "dataSize data = length data"

section \<open>JSON dumps\<close>

text \<open>\<open>Object::set\<close> replaces the value of a name or adds it; \<open>Poco::Base64Encoder\<close> is the parameter
  \<open>base64\<close>, the indented printer of \<open>dump\<close> the parameter \<open>pretty\<close>.\<close>

fun json_set :: "string \<Rightarrow> json \<Rightarrow> json \<Rightarrow> json" where
  "json_set n v (JObject fs) = JObject (al_update n v fs)"
| "json_set n v j = j"

fun message_toJSON_body :: "(byte list \<Rightarrow> string) \<Rightarrow> msg_body \<Rightarrow> json \<Rightarrow> json" where
  "message_toJSON_body base64 (TextBody t) json = json_set ''data'' (JString t) json"
| "message_toJSON_body base64 (BytesBody d) json = json_set ''data'' (JString (base64 d)) json"
| "message_toJSON_body base64 (MapBody ps) json = json_set ''data'' (properties_toJSON ps) json"
| "message_toJSON_body base64 (StreamBody s) json = json_set ''data'' (stream_toJSON s) json"
| "message_toJSON_body base64 (ObjectBody d n) json =
     json_set ''data'' (JString (base64 d)) (json_set ''className'' (JString n) json)"

definition message_toJSON :: "poco \<Rightarrow> (byte list \<Rightarrow> string) \<Rightarrow> message \<Rightarrow> json" where
  "message_toJSON P base64 m = message_toJSON_body base64 (body m) (message_propertiesToJSON P m)"

definition dump :: "poco \<Rightarrow> (byte list \<Rightarrow> string) \<Rightarrow> (json \<Rightarrow> string) \<Rightarrow> message \<Rightarrow> string" where
  "dump P base64 pretty m = pretty (message_toJSON P base64 m)"


section \<open>Properties\<close>

text \<open>A property that is new can be read back at its type and at no other; other names keep theirs.\<close>

lemma property_setProperty:
  assumes "\<not> hasProperty ps n"
  shows "property t (setProperty ps n v) n = (if t = getValueType v then Inr v else Inl BadCast)"
    "n' \<noteq> n \<Longrightarrow> property t (setProperty ps n v) n' = property t ps n'"
    "propertyValueType (setProperty ps n v) n = Inr (getValueType v)" "hasProperty (setProperty ps n v) n"
  using assms by (auto simp: setProperty_def hasProperty_def property_def propertyValueType_def map_of_al_emplace)

text \<open>A property that exists keeps its value: \<open>emplace\<close> does not overwrite.\<close>

lemma setProperty_keeps_old_value: "hasProperty ps n \<Longrightarrow> setProperty ps n v = ps"
  by (auto simp: setProperty_def hasProperty_def al_emplace_def map_of_eq_None_keys)

lemmas typed_property_defs =
  setBoolProperty_def setCharProperty_def setStringProperty_def setByteProperty_def setShortProperty_def
  setIntProperty_def setLongProperty_def setFloatProperty_def setDoubleProperty_def setBytesProperty_def
  message_property_def message_hasProperty_def message_propertyValueType_def message_setProperty_def

lemma typed_property_setters_keep:
  "link (message_setProperty n v m) = link m" "body (message_setProperty n v m) = body m"
  "jmsHeaders (message_setProperty n v m) = jmsHeaders m" "link (on_body C d m) = link m" "props (on_body C d m) = props m"
  by (simp_all add: message_setProperty_def on_body_def)

lemma second_setIntProperty_is_ignored:
  "message_property INTEGER_TYPE (setIntProperty n w (setIntProperty n v m)) n =
   message_property INTEGER_TYPE (setIntProperty n v m) n"
proof -
  have "hasProperty (setProperty (props m) n (PInt (Some v))) n"
    by (cases "hasProperty (props m) n") (simp_all add: property_setProperty setProperty_keeps_old_value)
  then show ?thesis by (simp add: typed_property_defs setProperty_keeps_old_value)
qed

lemma MapMessage_names_keys: "MapMessage_names ps = al_keys ps"
  by (induction ps rule: MapMessage_names.induct) simp_all

lemma MapMessage_has_names: "MapMessage_has ps n \<longleftrightarrow> n \<in> set (MapMessage_names ps)"
  using map_of_eq_None_keys [of ps n] by (auto simp: MapMessage_has_def hasProperty_def MapMessage_names_keys)

text \<open>A dynamic cast succeeds for the class of the message only.\<close>

lemma As_succeeds:
  "As_TextMessage b \<noteq> None \<longleftrightarrow> message_type b = TEXT_MESSAGE" "As_BytesMessage b \<noteq> None \<longleftrightarrow> message_type b = BYTES_MESSAGE"
  "As_MapMessage b \<noteq> None \<longleftrightarrow> message_type b = MAP_MESSAGE" "As_StreamMessage b \<noteq> None \<longleftrightarrow> message_type b = STREAM_MESSAGE"
  "As_ObjectMessage b \<noteq> None \<longleftrightarrow> message_type b = OBJECT_MESSAGE"
  by (cases b; simp)+

section \<open>Streams\<close>

text \<open>What was written comes back in order after \<open>reset\<close>; a copy of the message has the values, but can
  not be read before \<open>reset\<close>.\<close>

lemma written_stream_drains:
  "stream_drain (length vs) (StreamMessage_reset (fold StreamMessage_write vs empty_stream)) = vs"
proof -
  have "items (fold StreamMessage_write vs s) = items s @ vs" for s
    by (induction vs arbitrary: s) (simp_all add: StreamMessage_write_def stream_write_def)
  then have "items (fold StreamMessage_write vs empty_stream) = vs" by (simp add: empty_stream_def)
  then show ?thesis using stream_drain_reset [of "fold StreamMessage_write vs empty_stream"]
    by (simp add: StreamMessage_reset_def)
qed

lemma copied_stream_needs_reset:
  "StreamMessage_read t (stream_copy s) = Inl ForeignIterator" "StreamMessage_eof (stream_copy s) = Inl ForeignIterator"
  "StreamMessage_reset (stream_copy s) = StreamMessage_reset s"
  by (simp_all add: StreamMessage_read_def nextValue_def stream_copy_def StreamMessage_eof_def stream_eof_def StreamMessage_reset_def stream_reset_def)

section \<open>Writing bytes\<close>

lemma write_loop_ok:
  "off \<le> i \<Longrightarrow> i \<le> n \<Longrightarrow> n \<le> length vec \<Longrightarrow> n - off \<le> length src \<Longrightarrow>
     write_loop src off n i vec = Inr (take i vec @ drop (i - off) (take (n - off) src) @ drop n vec)"
proof (induction src off n i vec rule: write_loop.induct)
  case (1 src off n i vec)
  show ?case
  proof (cases "i < n")
    case True
    have "drop (i - off) (take (n - off) src) = src ! (i - off) # drop (Suc i - off) (take (n - off) src)"
      using True 1 by (simp add: Cons_nth_drop_Suc [symmetric] Suc_diff_le)
    with True 1 show ?thesis by (subst write_loop.simps) (simp add: take_Suc_conv_app_nth)
  next
    case False
    with 1 show ?thesis by (subst write_loop.simps) simp
  qed
qed

lemma write_loop_out:
  "i < n \<Longrightarrow> length vec < n \<Longrightarrow> write_loop src off n i vec = Inl OutOfBounds"
proof (induction src off n i vec rule: write_loop.induct)
  case (1 src off n i vec)
  then show ?case by (subst write_loop.simps) (cases "Suc i < n"; auto)
qed

text \<open>Every outcome of \<open>writeBytes\<close>: the bytes replace those at the offset, or fill an empty message
  behind zeros; a message that has bytes, but too few, is not extended.\<close>

lemma writeBytes_outcome:
  assumes "unat off + unat sz < 2 ^ 64" "length src = unat sz"
  shows "writeBytes src off sz data =
    (if data = [] then Inr (replicate (unat off) 0 @ src)
     else if unat off + unat sz \<le> length data then Inr (take (unat off) data @ src @ drop (unat off + unat sz) data)
     else Inl OutOfBounds)"
proof -
  have n: "unat (off + sz) = unat off + unat sz" using assms(1) by (simp add: unat_add_lem [symmetric])
  have short: "writeBytes src off sz data = Inl OutOfBounds" if "data \<noteq> []" "length data < unat off + unat sz"
    using that write_loop_out [of "unat off" "unat off + unat sz"]
    by (cases "unat sz = 0") (auto simp: writeBytes_def Let_def n)
  show ?thesis using short assms(2) by (auto simp: writeBytes_def Let_def n write_loop_ok)
qed

lemma written_bytes_read_back:
  assumes "unat off + unat sz < 2 ^ 64" "length src = unat sz" "writeBytes src off sz data = Inr data'"
  shows "readBytes (unat off) (unat sz) data' = Inr src"
  using assms writeBytes_outcome [OF assms(1,2), of data] by (auto simp: readBytes_def split: if_splits)

lemma writeBytes_past_end_is_undefined: "writeBytes [1, 2] 1 2 [7, 8] = Inl OutOfBounds"
  using writeBytes_outcome [of 1 2 "[1, 2]" "[7, 8]"] by simp

section \<open>Dumps\<close>

lemma json_get_set: "json_object j \<noteq> None \<Longrightarrow> json_get (json_set n v j) n' = (if n' = n then v else json_get j n')"
  by (cases j) auto

lemma dump_has_data:
  "json_get (message_toJSON P base64 m) ''data'' =
     (case body m of TextBody t \<Rightarrow> JString t | BytesBody d \<Rightarrow> JString (base64 d) | MapBody ps \<Rightarrow> properties_toJSON ps
      | StreamBody s \<Rightarrow> stream_toJSON s | ObjectBody d n \<Rightarrow> JString (base64 d))"
  "n \<noteq> ''data'' \<Longrightarrow> n \<noteq> ''className'' \<Longrightarrow> json_get (message_toJSON P base64 m) n = json_get (message_propertiesToJSON P m) n"
proof -
  have "json_object (message_propertiesToJSON P m) \<noteq> None" by (simp add: message_propertiesToJSON_def Let_def)
  moreover have "json_object j \<noteq> None \<Longrightarrow> json_object (json_set n v j) \<noteq> None" for n v j by (cases j) simp_all
  ultimately show
    "json_get (message_toJSON P base64 m) ''data'' =
     (case body m of TextBody t \<Rightarrow> JString t | BytesBody d \<Rightarrow> JString (base64 d) | MapBody ps \<Rightarrow> properties_toJSON ps
      | StreamBody s \<Rightarrow> stream_toJSON s | ObjectBody d n \<Rightarrow> JString (base64 d))"
    "n \<noteq> ''data'' \<Longrightarrow> n \<noteq> ''className'' \<Longrightarrow> json_get (message_toJSON P base64 m) n = json_get (message_propertiesToJSON P m) n"
    by (cases "body m"; simp add: message_toJSON_def json_get_set)+
qed

end
