(* ===== verification/Selector.thy ===== *)
theory Selector
  imports Message_Body
begin

text \<open>
  Message selectors: \<open>Selector.h\<close> and \<open>Selector.cpp\<close>.  The tokenizer reads one token at a
  time from the rest of the input; the recursive-descent parser keeps the current token and that rest.
  The closures the parser builds are values of the datatype \<open>sel_expr\<close>, one constructor per lambda of
  the source, and \<open>eval\<close> is their bodies.  The recursion of the parser is bounded by fuel, and enough
  fuel is shown to be there.  Of the standard library, \<open>stoll\<close>, \<open>stod\<close>, the conversion from
  \<open>int64_t\<close> to \<open>double\<close> (round to nearest, ties to even), the comparison of doubles and
  \<open>std::regex_match\<close> on the expressions that \<open>likeToRegex\<close> produces are modelled.
\<close>

section \<open>Tokenizer\<close>

datatype tokenType = TOK_IDENT | TOK_STRING | TOK_INT_LIT | TOK_FLOAT_LIT | TOK_TRUE_LIT | TOK_FALSE_LIT
  | TOK_NULL_LIT | TOK_AND | TOK_OR | TOK_NOT | TOK_LIKE | TOK_BETWEEN | TOK_IN | TOK_IS
  | TOK_EQ | TOK_NEQ | TOK_LT | TOK_LTE | TOK_GT | TOK_GTE | TOK_LPAREN | TOK_RPAREN | TOK_COMMA | TOK_EOF

type_synonym token = "tokenType \<times> string"

datatype sel_error = InvalidSelector | StdOutOfRange | OutOfFuel

definition isspace :: "char \<Rightarrow> bool" where
  "isspace c \<longleftrightarrow> c = CHR '' '' \<or> c = CHR 0x09 \<or> c = CHR 0x0A \<or> c = CHR 0x0B \<or> c = CHR 0x0C \<or> c = CHR 0x0D"

definition char_in :: "char \<Rightarrow> char \<Rightarrow> char \<Rightarrow> bool" where
  "char_in lo hi c \<longleftrightarrow> (of_char lo :: nat) \<le> of_char c \<and> (of_char c :: nat) \<le> of_char hi"

definition isdigit :: "char \<Rightarrow> bool" where
  "isdigit c \<longleftrightarrow> char_in CHR ''0'' CHR ''9'' c"

definition isalpha :: "char \<Rightarrow> bool" where
  "isalpha c \<longleftrightarrow> char_in CHR ''a'' CHR ''z'' c \<or> char_in CHR ''A'' CHR ''Z'' c"

definition isalnum :: "char \<Rightarrow> bool" where
  "isalnum c \<longleftrightarrow> isalpha c \<or> isdigit c"

definition toupper :: "char \<Rightarrow> char" where
  "toupper c = (if char_in CHR ''a'' CHR ''z'' c then char_of ((of_char c :: nat) - 32) else c)"

definition skipWhitespace :: "string \<Rightarrow> string" where
  "skipWhitespace s = dropWhile isspace s"

text \<open>\<open>readString\<close>, behind the opening quote; two quotes stand for one, and the end of the input
  also ends the literal.\<close>

fun readString_loop :: "string \<Rightarrow> string \<Rightarrow> string \<times> string" where
  "readString_loop acc [] = (rev acc, [])"
| "readString_loop acc (c # cs) =
     (if c = CHR 0x27
      then (case cs of
              [] \<Rightarrow> (rev acc, [])
            | d # ds \<Rightarrow> if d = CHR 0x27 then readString_loop (CHR 0x27 # acc) ds else (rev acc, cs))
      else readString_loop (c # acc) cs)"

definition readString_token :: "string \<Rightarrow> token \<times> string" where
  "readString_token s = (case readString_loop [] s of (t, r) \<Rightarrow> ((TOK_STRING, t), r))"

definition readNumber_digits :: "string \<Rightarrow> string \<Rightarrow> token \<times> string" where
  "readNumber_digits sign s =
     (let ip = takeWhile isdigit s; s2 = dropWhile isdigit s
      in case s2 of
           [] \<Rightarrow> ((TOK_INT_LIT, sign @ ip), s2)
         | c # s3 \<Rightarrow>
             if c = CHR ''.'' then ((TOK_FLOAT_LIT, sign @ ip @ c # takeWhile isdigit s3), dropWhile isdigit s3)
             else ((TOK_INT_LIT, sign @ ip), s2))"

definition readNumber :: "string \<Rightarrow> token \<times> string" where
  "readNumber s =
     (if s \<noteq> [] \<and> hd s = CHR ''-'' then readNumber_digits [hd s] (tl s) else readNumber_digits [] s)"

definition ident_char :: "char \<Rightarrow> bool" where
  "ident_char c \<longleftrightarrow> isalnum c \<or> c = CHR ''_'' \<or> c = CHR ''.''"

definition keyword_type :: "string \<Rightarrow> tokenType" where
  "keyword_type upper =
     (if upper = ''AND'' then TOK_AND
      else if upper = ''OR'' then TOK_OR
      else if upper = ''NOT'' then TOK_NOT
      else if upper = ''LIKE'' then TOK_LIKE
      else if upper = ''BETWEEN'' then TOK_BETWEEN
      else if upper = ''IN'' then TOK_IN
      else if upper = ''IS'' then TOK_IS
      else if upper = ''TRUE'' then TOK_TRUE_LIT
      else if upper = ''FALSE'' then TOK_FALSE_LIT
      else if upper = ''NULL'' then TOK_NULL_LIT
      else TOK_IDENT)"

definition readIdent :: "string \<Rightarrow> token \<times> string" where
  "readIdent s =
     (let txt = takeWhile ident_char s
      in ((keyword_type (map toupper txt), txt), dropWhile ident_char s))"

definition tok_next :: "string \<Rightarrow> sel_error + token \<times> string" where
  "tok_next s =
     (case skipWhitespace s of
        [] \<Rightarrow> Inr ((TOK_EOF, []), [])
      | c # cs \<Rightarrow>
          if c = CHR 0x27 then Inr (readString_token cs)
          else if isdigit c \<or> (c = CHR ''-'' \<and> cs \<noteq> [] \<and> isdigit (hd cs)) then Inr (readNumber (c # cs))
          else if isalpha c \<or> c = CHR ''_'' then Inr (readIdent (c # cs))
          else if c = CHR ''='' then Inr ((TOK_EQ, ''=''), cs)
          else if c = CHR ''('' then Inr ((TOK_LPAREN, ''(''), cs)
          else if c = CHR '')'' then Inr ((TOK_RPAREN, '')''), cs)
          else if c = CHR '','' then Inr ((TOK_COMMA, '',''), cs)
          else if c = CHR ''<'' then
            (if cs \<noteq> [] \<and> hd cs = CHR ''>'' then Inr ((TOK_NEQ, ''<>''), tl cs)
             else if cs \<noteq> [] \<and> hd cs = CHR ''='' then Inr ((TOK_LTE, ''<=''), tl cs)
             else Inr ((TOK_LT, ''<''), cs))
          else if c = CHR ''>'' then
            (if cs \<noteq> [] \<and> hd cs = CHR ''='' then Inr ((TOK_GTE, ''>=''), tl cs)
             else Inr ((TOK_GT, ''>''), cs))
          else Inl InvalidSelector)"

section \<open>Values\<close>

datatype selectorValue = VNull | VBool bool | VInt int64 | VDouble fp | VString string

text \<open>The number of binary digits, and rounding to the nearest double.\<close>

fun bit_length :: "nat \<Rightarrow> nat" where
  "bit_length n = (if n = 0 then 0 else Suc (bit_length (n div 2)))"

declare bit_length.simps [simp del]

definition log2_floor :: "rat \<Rightarrow> int" where
  "log2_floor x =
     (case quotient_of x of (p, q) \<Rightarrow>
        let e = int (bit_length (nat p)) - int (bit_length (nat q))
        in if x \<ge> 2 powi e then e else e - 1)"

definition round_half_even :: "rat \<Rightarrow> int" where
  "round_half_even x =
     (let f = \<lfloor>x\<rfloor>; r = x - of_int f
      in if r < 1 / 2 then f
         else if r > 1 / 2 then f + 1
         else if even f then f else f + 1)"

text \<open>The unit in the last place of a double of this magnitude, and the rounded value.\<close>

definition ulp_exp :: "rat \<Rightarrow> int" where
  "ulp_exp x = max (log2_floor \<bar>x\<bar> - 52) (- 1074)"

definition round_double :: "rat \<Rightarrow> rat" where
  "round_double x = (if x = 0 then 0 else of_int (round_half_even (x / 2 powi ulp_exp x)) * 2 powi ulp_exp x)"

definition double_of_int :: "int \<Rightarrow> fp" where
  "double_of_int i = FFin (round_double (of_int i))"

fun digits_value :: "nat \<Rightarrow> string \<Rightarrow> nat" where
  "digits_value acc [] = acc"
| "digits_value acc (c # cs) = digits_value (10 * acc + ((of_char c :: nat) - 48)) cs"

definition split_sign :: "string \<Rightarrow> int \<times> string" where
  "split_sign s = (case s of c # cs \<Rightarrow> if c = CHR ''-'' then (- 1, cs) else (1, s) | [] \<Rightarrow> (1, s))"

text \<open>\<open>std::stoll\<close> and \<open>std::stod\<close> on the text of a number token.\<close>

definition stoll :: "string \<Rightarrow> sel_error + int64" where
  "stoll s =
     (case split_sign s of (sg, ds) \<Rightarrow>
        let v = sg * int (digits_value 0 ds)
        in if v < - (2 ^ 63) \<or> v \<ge> 2 ^ 63 then Inl StdOutOfRange else Inr (of_int v))"

definition stod :: "string \<Rightarrow> sel_error + fp" where
  "stod s =
     (case split_sign s of (sg, ds) \<Rightarrow>
        let ip = takeWhile (\<lambda>c. c \<noteq> CHR ''.'') ds;
            fr = drop (Suc (length ip)) ds;
            x = of_int sg * (of_nat (digits_value 0 (ip @ fr)) / 10 ^ length fr :: rat);
            y = round_double x
        in if \<bar>y\<bar> \<ge> 2 ^ 1024 then Inl StdOutOfRange
           else if x \<noteq> 0 \<and> \<bar>y\<bar> < 2 powi (- 1022) \<and> y \<noteq> x then Inl StdOutOfRange
           else Inr (FFin y))"

fun fp_less :: "fp \<Rightarrow> fp \<Rightarrow> bool" where
  "fp_less FNaN _ = False"
| "fp_less _ FNaN = False"
| "fp_less FNegInf y = (y \<noteq> FNegInf)"
| "fp_less x FNegInf = False"
| "fp_less FPosInf y = False"
| "fp_less x FPosInf = (x \<noteq> FPosInf)"
| "fp_less (FFin x) (FFin y) = (x < y)"

definition fp_eq :: "fp \<Rightarrow> fp \<Rightarrow> bool" where
  "fp_eq x y \<longleftrightarrow> x = y \<and> x \<noteq> FNaN"

definition extractProperty :: "message \<Rightarrow> string \<Rightarrow> selectorValue" where
  "extractProperty m name =
     (case map_of (props m) name of
        None \<Rightarrow> VNull
      | Some (PBool v) \<Rightarrow> (case v of None \<Rightarrow> VNull | Some b \<Rightarrow> VBool b)
      | Some (PString v) \<Rightarrow> (case v of None \<Rightarrow> VNull | Some s \<Rightarrow> VString s)
      | Some (PInt v) \<Rightarrow> (case v of None \<Rightarrow> VNull | Some i \<Rightarrow> VInt (signed i))
      | Some (PLong v) \<Rightarrow> (case v of None \<Rightarrow> VNull | Some i \<Rightarrow> VInt i)
      | Some (PShort v) \<Rightarrow> (case v of None \<Rightarrow> VNull | Some i \<Rightarrow> VInt (signed i))
      | Some (PByte v) \<Rightarrow> (case v of None \<Rightarrow> VNull | Some i \<Rightarrow> VInt (signed i))
      | Some (PDouble v) \<Rightarrow> (case v of None \<Rightarrow> VNull | Some d \<Rightarrow> VDouble d)
      | Some (PFloat v) \<Rightarrow> (case v of None \<Rightarrow> VNull | Some d \<Rightarrow> VDouble d)
      | Some (PChar v) \<Rightarrow> (case v of None \<Rightarrow> VNull | Some c \<Rightarrow> VString [c])
      | Some (PBytes v) \<Rightarrow> VNull)"

fun isNumeric :: "selectorValue \<Rightarrow> bool" where
  "isNumeric (VInt _) = True"
| "isNumeric (VDouble _) = True"
| "isNumeric _ = False"

fun toDouble :: "selectorValue \<Rightarrow> fp" where
  "toDouble (VInt i) = double_of_int (sint i)"
| "toDouble (VDouble d) = d"
| "toDouble _ = FNaN"   \<comment> \<open>\<open>std::get\<close> throws; only numeric values get here\<close>

definition selEQ :: "selectorValue \<Rightarrow> selectorValue \<Rightarrow> bool" where
  "selEQ a b =
     (if a = VNull \<or> b = VNull then False
      else if isNumeric a \<and> isNumeric b then fp_eq (toDouble a) (toDouble b)
      else a = b)"

definition selLT :: "selectorValue \<Rightarrow> selectorValue \<Rightarrow> bool" where
  "selLT a b = (if \<not> isNumeric a \<or> \<not> isNumeric b then False else fp_less (toDouble a) (toDouble b))"

definition selGT :: "selectorValue \<Rightarrow> selectorValue \<Rightarrow> bool" where
  "selGT a b = selLT b a"

definition selLTE :: "selectorValue \<Rightarrow> selectorValue \<Rightarrow> bool" where
  "selLTE a b \<longleftrightarrow> selEQ a b \<or> selLT a b"

definition selGTE :: "selectorValue \<Rightarrow> selectorValue \<Rightarrow> bool" where
  "selGTE a b \<longleftrightarrow> selEQ a b \<or> selGT a b"

section \<open>LIKE\<close>

definition regex_special :: "char \<Rightarrow> bool" where
  "regex_special c \<longleftrightarrow> c \<in> set ''.^$*+?()[]{}|'' \<or> c = CHR 0x5C"

fun like_body :: "string \<Rightarrow> string" where
  "like_body [] = []"
| "like_body (c # cs) =
     (if c = CHR ''%'' then ''.*'' @ like_body cs
      else if c = CHR ''_'' then ''.'' @ like_body cs
      else if regex_special c then CHR 0x5C # c # like_body cs
      else c # like_body cs)"

definition likeToRegex :: "string \<Rightarrow> string" where
  "likeToRegex pat = ''^'' @ like_body pat @ ''$''"

text \<open>
  \<open>std::regex_match\<close> (ECMAScript) on a fragment of the regular expressions: \<open>^\<close> and \<open>$\<close> hold at the ends of the text, a dot
  matches any character but a line terminator, \<open>.*\<close> any sequence of those, a syntax character of ECMAScript matches
  itself when it is escaped, and a character that is none matches itself.  Expressions with another syntax (quantifiers, groups,
  classes, alternatives, other escapes) are outside the fragment, \<open>None\<close>, and match nothing here; \<open>likeToRegex\<close> makes
  none, see \<open>likeToRegex_in_fragment\<close>.
\<close>

definition syntax_character :: "char \<Rightarrow> bool" where
  "syntax_character c \<longleftrightarrow> c \<in> {CHR ''^'', CHR ''$'', CHR 0x5C, CHR ''.'', CHR ''*'', CHR ''+'', CHR ''?'', CHR ''('', CHR '')'',
     CHR ''['', CHR '']'', CHR ''{'', CHR ''}'', CHR ''|''}"

definition line_terminator :: "char \<Rightarrow> bool" where
  "line_terminator c \<longleftrightarrow> c = CHR 0x0A \<or> c = CHR 0x0D"

datatype regex_item = RBegin | REnd | RAny | RStar | RChar char

fun regex_items :: "string \<Rightarrow> regex_item list option" where
  "regex_items [] = Some []"
| "regex_items (c # cs) =
     (if c = CHR ''^'' then map_option (Cons RBegin) (regex_items cs)
      else if c = CHR ''$'' then map_option (Cons REnd) (regex_items cs)
      else if c = CHR 0x5C then
        (case cs of [] \<Rightarrow> None | d # ds \<Rightarrow> if syntax_character d then map_option (Cons (RChar d)) (regex_items ds) else None)
      else if c = CHR ''.'' then
        (case cs of
           [] \<Rightarrow> Some [RAny]
         | d # ds \<Rightarrow> if d = CHR ''*'' then map_option (Cons RStar) (regex_items ds) else map_option (Cons RAny) (regex_items cs))
      else if syntax_character c then None
      else map_option (Cons (RChar c)) (regex_items cs))"

fun items_match :: "bool \<Rightarrow> regex_item list \<Rightarrow> string \<Rightarrow> bool" where
  "items_match start [] s = (s = [])"
| "items_match start (RBegin # rs) s = (start \<and> items_match start rs s)"
| "items_match start (REnd # rs) s = (s = [] \<and> items_match start rs s)"
| "items_match start (RAny # rs) s = (case s of [] \<Rightarrow> False | c # cs \<Rightarrow> \<not> line_terminator c \<and> items_match False rs cs)"
| "items_match start (RChar d # rs) s = (case s of [] \<Rightarrow> False | c # cs \<Rightarrow> c = d \<and> items_match False rs cs)"
| "items_match start (RStar # rs) s =
     (items_match start rs s \<or>
      (case s of [] \<Rightarrow> False | c # cs \<Rightarrow> \<not> line_terminator c \<and> items_match False (RStar # rs) cs))"

definition regex_match :: "string \<Rightarrow> string \<Rightarrow> bool" where
  "regex_match s re = (case regex_items re of None \<Rightarrow> False | Some its \<Rightarrow> items_match True its s)"

section \<open>Expressions\<close>

datatype sel_expr = ELit selectorValue | EIdent string | EOr sel_expr sel_expr | EAnd sel_expr sel_expr
  | ENot sel_expr | EIsNull sel_expr bool | EBetween sel_expr sel_expr sel_expr bool
  | EIn sel_expr "sel_expr list" bool | ELike sel_expr string bool | ERel tokenType sel_expr sel_expr

fun holds_bool :: "selectorValue \<Rightarrow> bool" where
  "holds_bool (VBool _) = True"
| "holds_bool _ = False"

fun eval :: "message \<Rightarrow> sel_expr \<Rightarrow> selectorValue" where
  "eval m (ELit v) = v"
| "eval m (EIdent n) = extractProperty m n"
| "eval m (EOr l r) =
     (let lv = eval m l in
      if lv = VBool True then VBool True
      else let rv = eval m r in
        if rv = VBool True then VBool True
        else if holds_bool lv \<and> holds_bool rv then VBool False
        else VNull)"
| "eval m (EAnd l r) =
     (let lv = eval m l in
      if lv = VBool False then VBool False
      else let rv = eval m r in
        if rv = VBool False then VBool False
        else if holds_bool lv \<and> holds_bool rv then VBool True
        else VNull)"
| "eval m (ENot e) = (case eval m e of VBool b \<Rightarrow> VBool (\<not> b) | _ \<Rightarrow> VNull)"
| "eval m (EIsNull e negated) =
     (let isNull = (eval m e = VNull) in VBool (if negated then \<not> isNull else isNull))"
| "eval m (EBetween l lo hi negated) =
     (let lv = eval m l; lov = eval m lo; hiv = eval m hi; result = (selGTE lv lov \<and> selLTE lv hiv)
      in VBool (if negated then \<not> result else result))"
| "eval m (EIn l its negated) =
     (let lv = eval m l in
      if lv = VNull then VNull
      else if list_ex (\<lambda>x. selEQ lv (eval m x)) its then VBool (\<not> negated)
      else VBool negated)"
| "eval m (ELike l regex negated) =
     (case eval m l of
        VString s \<Rightarrow> (let result = regex_match s regex in VBool (if negated then \<not> result else result))
      | _ \<Rightarrow> VNull)"
| "eval m (ERel opr l r) =
     (let lv = eval m l; rv = eval m r in
      case opr of
        TOK_EQ \<Rightarrow> VBool (selEQ lv rv)
      | TOK_NEQ \<Rightarrow> VBool (\<not> selEQ lv rv)
      | TOK_LT \<Rightarrow> VBool (selLT lv rv)
      | TOK_LTE \<Rightarrow> VBool (selLTE lv rv)
      | TOK_GT \<Rightarrow> VBool (selGT lv rv)
      | TOK_GTE \<Rightarrow> VBool (selGTE lv rv)
      | _ \<Rightarrow> VNull)"

section \<open>Parser\<close>

type_synonym parser_state = "token \<times> string"
type_synonym 'a parsed = "sel_error + 'a \<times> parser_state"

definition try_bind :: "sel_error + 'a \<Rightarrow> ('a \<Rightarrow> sel_error + 'b) \<Rightarrow> sel_error + 'b" where
  "try_bind r f = (case r of Inl e \<Rightarrow> Inl e | Inr x \<Rightarrow> f x)"

lemma try_bind_simps [simp]: "try_bind (Inl e) f = Inl e" "try_bind (Inr x) f = f x"
  by (simp_all add: try_bind_def)

definition advance :: "parser_state \<Rightarrow> sel_error + parser_state" where
  "advance s = tok_next (snd s)"

definition check :: "tokenType \<Rightarrow> parser_state \<Rightarrow> bool" where
  "check t s \<longleftrightarrow> fst (fst s) = t"

definition consume :: "tokenType \<Rightarrow> parser_state \<Rightarrow> token parsed" where
  "consume t s =
     (if \<not> check t s then Inl InvalidSelector
      else try_bind (advance s) (\<lambda>s'. Inr (fst s, s')))"

definition relational :: "tokenType \<Rightarrow> bool" where
  "relational t \<longleftrightarrow> t \<in> {TOK_EQ, TOK_NEQ, TOK_LT, TOK_LTE, TOK_GT, TOK_GTE}"

definition parse_literal :: "parser_state \<Rightarrow> sel_expr parsed" where
  "parse_literal s =
     (let lit = (\<lambda>v. try_bind (advance s) (\<lambda>s'. Inr (ELit v, s'))) in
      if check TOK_NULL_LIT s then lit VNull
      else if check TOK_TRUE_LIT s then lit (VBool True)
      else if check TOK_FALSE_LIT s then lit (VBool False)
      else if check TOK_STRING s then lit (VString (snd (fst s)))
      else if check TOK_INT_LIT s then try_bind (stoll (snd (fst s))) (\<lambda>v. lit (VInt v))
      else if check TOK_FLOAT_LIT s then try_bind (stod (snd (fst s))) (\<lambda>v. lit (VDouble v))
      else if check TOK_IDENT s then try_bind (advance s) (\<lambda>s'. Inr (EIdent (snd (fst s)), s'))
      else Inl InvalidSelector)"

text \<open>\<open>IS [NOT] NULL\<close> and \<open>[NOT] LIKE pattern\<close>, behind their operand.\<close>

definition parse_is_null :: "sel_expr \<Rightarrow> parser_state \<Rightarrow> sel_expr parsed" where
  "parse_is_null left s =
     try_bind (advance s) (\<lambda>s1.
       let negated = check TOK_NOT s1 in
       try_bind (if negated then advance s1 else Inr s1) (\<lambda>s2.
         try_bind (consume TOK_NULL_LIT s2) (\<lambda>(_, s3). Inr (EIsNull left negated, s3))))"

definition parse_like :: "sel_expr \<Rightarrow> bool \<Rightarrow> parser_state \<Rightarrow> sel_expr parsed" where
  "parse_like left negated s =
     try_bind (advance s) (\<lambda>s1.
       try_bind (consume TOK_STRING s1) (\<lambda>(patTok, s2). Inr (ELike left (likeToRegex (snd patTok)) negated, s2)))"

text \<open>
  The grammar's functions.  \<open>prim\<close> is the function for a primary, which is where the recursion through
  parentheses happens; a number bounds the turns of a loop.
\<close>

primrec parseItems :: "(parser_state \<Rightarrow> sel_expr parsed) \<Rightarrow> nat \<Rightarrow> sel_expr list \<Rightarrow> parser_state \<Rightarrow> sel_expr list parsed" where
  "parseItems prim 0 its s = Inl OutOfFuel"
| "parseItems prim (Suc n) its s =
     (if check TOK_COMMA s
      then try_bind (advance s) (\<lambda>s1. try_bind (prim s1) (\<lambda>(item, s2). parseItems prim n (its @ [item]) s2))
      else Inr (its, s))"

definition parse_between :: "(parser_state \<Rightarrow> sel_expr parsed) \<Rightarrow> sel_expr \<Rightarrow> bool \<Rightarrow> parser_state \<Rightarrow> sel_expr parsed" where
  "parse_between prim left negated s =
     try_bind (advance s) (\<lambda>s1.
     try_bind (prim s1) (\<lambda>(low, s2).
     try_bind (consume TOK_AND s2) (\<lambda>(_, s3).
     try_bind (prim s3) (\<lambda>(high, s4). Inr (EBetween left low high negated, s4)))))"

definition parse_in :: "(parser_state \<Rightarrow> sel_expr parsed) \<Rightarrow> nat \<Rightarrow> sel_expr \<Rightarrow> bool \<Rightarrow> parser_state \<Rightarrow> sel_expr parsed" where
  "parse_in prim n left negated s =
     try_bind (advance s) (\<lambda>s1.
     try_bind (consume TOK_LPAREN s1) (\<lambda>(_, s2).
     try_bind (prim s2) (\<lambda>(item, s3).
     try_bind (parseItems prim n [item] s3) (\<lambda>(its, s4).
     try_bind (consume TOK_RPAREN s4) (\<lambda>(_, s5). Inr (EIn left its negated, s5))))))"

definition parse_relational :: "(parser_state \<Rightarrow> sel_expr parsed) \<Rightarrow> sel_expr \<Rightarrow> parser_state \<Rightarrow> sel_expr parsed" where
  "parse_relational prim left s =
     try_bind (advance s) (\<lambda>s1. try_bind (prim s1) (\<lambda>(right, s2). Inr (ERel (fst (fst s)) left right, s2)))"

definition parseComparison :: "(parser_state \<Rightarrow> sel_expr parsed) \<Rightarrow> nat \<Rightarrow> parser_state \<Rightarrow> sel_expr parsed" where
  "parseComparison prim n s =
     try_bind (prim s) (\<lambda>(left, s1).
       if check TOK_IS s1 then parse_is_null left s1
       else
         let negated = check TOK_NOT s1 in
         try_bind (if negated then advance s1 else Inr s1) (\<lambda>s2.
           if check TOK_BETWEEN s2 then parse_between prim left negated s2
           else if check TOK_IN s2 then parse_in prim n left negated s2
           else if check TOK_LIKE s2 then parse_like left negated s2
           else if negated then Inl InvalidSelector
           else if relational (fst (fst s2)) then parse_relational prim left s2
           else Inr (left, s2)))"

primrec parseNot :: "(parser_state \<Rightarrow> sel_expr parsed) \<Rightarrow> nat \<Rightarrow> parser_state \<Rightarrow> sel_expr parsed" where
  "parseNot prim 0 s = Inl OutOfFuel"
| "parseNot prim (Suc n) s =
     (if check TOK_NOT s
      then try_bind (advance s) (\<lambda>s1. try_bind (parseNot prim n s1) (\<lambda>(e, s2). Inr (ENot e, s2)))
      else parseComparison prim n s)"

primrec andLoop :: "(parser_state \<Rightarrow> sel_expr parsed) \<Rightarrow> nat \<Rightarrow> sel_expr \<Rightarrow> parser_state \<Rightarrow> sel_expr parsed" where
  "andLoop prim 0 left s = Inl OutOfFuel"
| "andLoop prim (Suc n) left s =
     (if check TOK_AND s
      then try_bind (advance s) (\<lambda>s1. try_bind (parseNot prim n s1) (\<lambda>(right, s2). andLoop prim n (EAnd left right) s2))
      else Inr (left, s))"

definition parseAnd :: "(parser_state \<Rightarrow> sel_expr parsed) \<Rightarrow> nat \<Rightarrow> parser_state \<Rightarrow> sel_expr parsed" where
  "parseAnd prim n s = try_bind (parseNot prim n s) (\<lambda>(left, s1). andLoop prim n left s1)"

primrec orLoop :: "(parser_state \<Rightarrow> sel_expr parsed) \<Rightarrow> nat \<Rightarrow> sel_expr \<Rightarrow> parser_state \<Rightarrow> sel_expr parsed" where
  "orLoop prim 0 left s = Inl OutOfFuel"
| "orLoop prim (Suc n) left s =
     (if check TOK_OR s
      then try_bind (advance s) (\<lambda>s1. try_bind (parseAnd prim n s1) (\<lambda>(right, s2). orLoop prim n (EOr left right) s2))
      else Inr (left, s))"

definition parseOr :: "(parser_state \<Rightarrow> sel_expr parsed) \<Rightarrow> nat \<Rightarrow> parser_state \<Rightarrow> sel_expr parsed" where
  "parseOr prim n s = try_bind (parseAnd prim n s) (\<lambda>(left, s1). orLoop prim n left s1)"

primrec parsePrimary :: "nat \<Rightarrow> parser_state \<Rightarrow> sel_expr parsed" where
  "parsePrimary 0 s = Inl OutOfFuel"
| "parsePrimary (Suc n) s =
     (if check TOK_LPAREN s
      then try_bind (advance s) (\<lambda>s1. try_bind (parseOr (parsePrimary n) n s1) (\<lambda>(e, s2).
             try_bind (consume TOK_RPAREN s2) (\<lambda>(_, s3). Inr (e, s3))))
      else parse_literal s)"

text \<open>\<open>Selector::parse\<close>; every turn of a loop and every level of parentheses uses up input.\<close>

definition parser_fuel :: "string \<Rightarrow> nat" where
  "parser_fuel s = length s + 5"

definition selector_parse :: "string \<Rightarrow> sel_error + sel_expr" where
  "selector_parse expression =
     (if expression = [] then Inr (ELit (VBool True))
      else
        try_bind (tok_next expression) (\<lambda>s.
        try_bind (parseOr (parsePrimary (parser_fuel expression)) (parser_fuel expression) s) (\<lambda>(e, s').
          if \<not> check TOK_EOF s' then Inl InvalidSelector else Inr e)))"

definition selector_matches :: "sel_expr \<Rightarrow> message \<Rightarrow> bool" where
  "selector_matches e m \<longleftrightarrow> eval m e = VBool True"

section \<open>The parser ends\<close>

lemma readString_loop_length: "length (snd (readString_loop acc s)) \<le> length s"
proof (induction acc s rule: readString_loop.induct)
  case (2 acc c cs)
  show ?case
  proof (cases "c = CHR 0x27")
    case True
    show ?thesis
    proof (cases cs)
      case (Cons d ds)
      with True "2.IH"(1) [OF True Cons] show ?thesis by (auto intro: le_SucI)
    qed (use True in simp)
  next
    case False
    with "2.IH"(2) show ?thesis by simp
  qed
qed simp

lemma readNumber_digits_progress:
  "length (snd (readNumber_digits sg s)) \<le> length (dropWhile isdigit s)"
  "fst (fst (readNumber_digits sg s)) \<noteq> TOK_EOF"
proof -
  show "length (snd (readNumber_digits sg s)) \<le> length (dropWhile isdigit s)"
  proof (cases "dropWhile isdigit s")
    case (Cons c cs)
    then show ?thesis using length_dropWhile_le [of isdigit cs] by (simp add: readNumber_digits_def Let_def)
  next
    case Nil
    show ?thesis unfolding readNumber_digits_def Let_def Nil list.case snd_conv by simp
  qed
  show "fst (fst (readNumber_digits sg s)) \<noteq> TOK_EOF"
    by (simp add: readNumber_digits_def Let_def split: list.split)
qed

lemma readNumber_progress:
  assumes "isdigit c \<or> c = CHR ''-''"
  shows "length (snd (readNumber (c # cs))) \<le> length cs" "fst (fst (readNumber (c # cs))) \<noteq> TOK_EOF"
proof -
  have "length (dropWhile isdigit (c # cs)) \<le> length cs" if "isdigit c"
    using that by (simp add: length_dropWhile_le)
  with assms show "length (snd (readNumber (c # cs))) \<le> length cs"
    using readNumber_digits_progress(1) [of "[c]" cs] readNumber_digits_progress(1) [of "[]" "c # cs"]
      length_dropWhile_le [of isdigit cs] by (cases "c = CHR ''-''") (auto simp: readNumber_def simp del: dropWhile.simps)
  show "fst (fst (readNumber (c # cs))) \<noteq> TOK_EOF"
    by (simp add: readNumber_def readNumber_digits_progress(2))
qed

lemma keyword_type_not_eof: "keyword_type u \<noteq> TOK_EOF"
  by (simp add: keyword_type_def)

lemma readIdent_progress:
  assumes "isalpha c \<or> c = CHR ''_''"
  shows "length (snd (readIdent (c # cs))) \<le> length cs" "fst (fst (readIdent (c # cs))) \<noteq> TOK_EOF"
proof -
  have "ident_char c" using assms by (auto simp: ident_char_def isalnum_def)
  then show "length (snd (readIdent (c # cs))) \<le> length cs"
    by (simp add: readIdent_def Let_def length_dropWhile_le)
  show "fst (fst (readIdent (c # cs))) \<noteq> TOK_EOF"
    by (simp add: readIdent_def Let_def keyword_type_not_eof)
qed

definition psize :: "parser_state \<Rightarrow> nat" where
  "psize s = length (snd s) + (if fst (fst s) = TOK_EOF then 0 else 1)"

text \<open>A result that is not for lack of fuel, and leaves at most \<open>k\<close> of the input.\<close>

definition leaves :: "nat \<Rightarrow> 'a parsed \<Rightarrow> bool" where
  "leaves k r \<longleftrightarrow> (case r of Inl e \<Rightarrow> e \<noteq> OutOfFuel | Inr (x, s) \<Rightarrow> psize s \<le> k)"

definition leaves_state :: "nat \<Rightarrow> sel_error + parser_state \<Rightarrow> bool" where
  "leaves_state k r \<longleftrightarrow> (case r of Inl e \<Rightarrow> e \<noteq> OutOfFuel | Inr s \<Rightarrow> psize s \<le> k)"

lemma leaves_state_if: "(b \<Longrightarrow> leaves_state k x) \<Longrightarrow> leaves_state k y \<Longrightarrow> leaves_state k (if b then x else y)"
  by simp

lemma leaves_state_Inr: "psize s \<le> k \<Longrightarrow> leaves_state k (Inr s)"
  by (simp add: leaves_state_def)

lemma leaves_state_Inl: "leaves_state k (Inl InvalidSelector)"
  by (simp add: leaves_state_def)

lemma tok_next_leaves: "leaves_state (length s) (tok_next s)"
proof (cases "skipWhitespace s")
  case Nil
  then show ?thesis by (simp add: tok_next_def leaves_state_def psize_def)
next
  case (Cons c cs)
  have len: "Suc (length cs) \<le> length s"
    using length_dropWhile_le [of isspace s] Cons by (simp add: skipWhitespace_def)
  have str: "psize (readString_token cs) \<le> length s"
    using readString_loop_length [of "[]" cs] len
    by (auto simp: readString_token_def psize_def split: prod.splits)
  have num: "psize (readNumber (c # cs)) \<le> length s" if "isdigit c \<or> c = CHR ''-''"
    using readNumber_progress [OF that, of cs] len by (simp add: psize_def)
  have idn: "psize (readIdent (c # cs)) \<le> length s" if "isalpha c \<or> c = CHR ''_''"
    using readIdent_progress [OF that, of cs] len by (simp add: psize_def)
  have tok: "psize ((t, x), cs) \<le> length s" "psize ((t, x), tl cs) \<le> length s" for t x
    using len by (auto simp: psize_def)
  show ?thesis
    unfolding tok_next_def Cons list.case
    by (intro leaves_state_if leaves_state_Inr leaves_state_Inl str tok) (erule disjE conjE | rule num idn | simp)+
qed

lemma leaves_mono: "leaves k r \<Longrightarrow> k \<le> l \<Longrightarrow> leaves l r"
  by (auto simp: leaves_def split: sum.splits)

lemma leaves_bind:
  assumes "leaves k r" "\<And>x s. psize s \<le> k \<Longrightarrow> leaves l (f (x, s))"
  shows "leaves l (try_bind r f)"
proof (cases r)
  case (Inr y)
  obtain x s where "y = (x, s)" by (cases y)
  with Inr assms(1) assms(2) [of s x] show ?thesis by (simp add: leaves_def)
qed (use assms in \<open>simp add: leaves_def\<close>)

lemma leaves_bind_state:
  assumes "leaves_state k r" "\<And>s. psize s \<le> k \<Longrightarrow> leaves l (f s)"
  shows "leaves l (try_bind r f)"
proof (cases r)
  case (Inr s)
  with assms(1) assms(2) [of s] show ?thesis by (simp add: leaves_state_def)
qed (use assms(1) in \<open>simp add: leaves_def leaves_state_def\<close>)

lemma leaves_Inr [simp]: "leaves k (Inr (x, s)) \<longleftrightarrow> psize s \<le> k"
  by (simp add: leaves_def)

lemma leaves_Inl [simp]: "leaves k (Inl e) \<longleftrightarrow> e \<noteq> OutOfFuel"
  by (simp add: leaves_def)

lemma advance_leaves:
  assumes "\<not> check TOK_EOF s" "psize s \<le> Suc k" shows "leaves_state k (advance s)"
proof -
  have "length (snd s) \<le> k" using assms by (simp add: check_def psize_def)
  with tok_next_leaves [of "snd s"] show ?thesis
    by (auto simp: advance_def leaves_state_def split: sum.splits)
qed

lemma advance_leaves_le: "psize s \<le> k \<Longrightarrow> leaves_state k (advance s)"
  using tok_next_leaves [of "snd s"]
  by (auto simp: advance_def leaves_state_def psize_def split: sum.splits)

lemma check_other: "check t s \<Longrightarrow> t \<noteq> u \<Longrightarrow> \<not> check u s"
  by (simp add: check_def)

lemma psize_pos: "check t s \<Longrightarrow> t \<noteq> TOK_EOF \<Longrightarrow> 0 < psize s"
  by (simp add: check_def psize_def)

lemma consume_leaves:
  assumes "psize s \<le> Suc k" "t \<noteq> TOK_EOF" shows "leaves k (consume t s)"
proof (cases "check t s")
  case True
  with assms check_other have "leaves_state k (advance s)" by (intro advance_leaves) auto
  with True show ?thesis by (auto simp: consume_def intro: leaves_bind_state)
qed (simp add: consume_def)

lemma stoll_not_fuel: "stoll x \<noteq> Inl OutOfFuel"
  by (auto simp: stoll_def Let_def split: prod.splits)

lemma stod_not_fuel: "stod x \<noteq> Inl OutOfFuel"
  by (auto simp: stod_def Let_def split: prod.splits)

lemma parse_literal_leaves:
  assumes "psize s \<le> Suc k" shows "leaves k (parse_literal s)"
proof -
  have a: "leaves k (try_bind (advance s) (\<lambda>s'. Inr (x, s')))" if "\<not> check TOK_EOF s" for x :: sel_expr
    by (rule leaves_bind_state [OF advance_leaves [OF that assms]]) simp
  have i: "leaves k (try_bind (stoll x) f)" if "\<And>v. leaves k (f v)" for x and f :: "int64 \<Rightarrow> sel_expr parsed"
    using that stoll_not_fuel [of x] by (cases "stoll x") auto
  have d: "leaves k (try_bind (stod x) f)" if "\<And>v. leaves k (f v)" for x and f :: "fp \<Rightarrow> sel_expr parsed"
    using that stod_not_fuel [of x] by (cases "stod x") auto
  show ?thesis
  proof (cases "check TOK_EOF s")
    case True
    then show ?thesis by (simp add: parse_literal_def Let_def check_def)
  next
    case False
    with a i d show ?thesis by (simp add: parse_literal_def Let_def)
  qed
qed

definition prim_ok :: "nat \<Rightarrow> (parser_state \<Rightarrow> sel_expr parsed) \<Rightarrow> bool" where
  "prim_ok N prim \<longleftrightarrow> (\<forall>s k. psize s \<le> Suc k \<longrightarrow> k < N \<longrightarrow> leaves k (prim s))"


lemma prim_okD: "prim_ok N prim \<Longrightarrow> psize s \<le> Suc k \<Longrightarrow> k < N \<Longrightarrow> leaves k (prim s)"
  unfolding prim_ok_def by blast

text \<open>Each function leaves less than it got, given enough turns.\<close>

lemma parse_is_null_leaves:
  assumes "psize s \<le> k" "check TOK_IS s" shows "leaves k (parse_is_null left s)"
  unfolding parse_is_null_def Let_def
proof (rule leaves_bind_state [OF advance_leaves_le [OF assms(1)]])
  fix s1 assume s1: "psize s1 \<le> k"
  have "leaves_state k (if check TOK_NOT s1 then advance s1 else Inr s1)"
    using s1 advance_leaves_le [OF s1] by (simp add: leaves_state_def)
  then show "leaves k (try_bind (if check TOK_NOT s1 then advance s1 else Inr s1)
      (\<lambda>s2. try_bind (consume TOK_NULL_LIT s2) (\<lambda>(_, s3). Inr (EIsNull left (check TOK_NOT s1), s3))))"
    by (rule leaves_bind_state) (rule leaves_bind [OF consume_leaves [where k = k]], simp_all)
qed

lemma parse_like_leaves: "psize s \<le> k \<Longrightarrow> leaves k (parse_like left neg s)"
  unfolding parse_like_def
  by (rule leaves_bind_state [OF advance_leaves_le], assumption)
    (rule leaves_bind [OF consume_leaves [where k = k]], simp_all)

lemma parse_between_leaves:
  assumes "prim_ok N prim" "psize s \<le> k" "k < N" shows "leaves k (parse_between prim left neg s)"
  unfolding parse_between_def
proof (rule leaves_bind_state [OF advance_leaves_le [OF assms(2)]])
  fix s1 assume "psize s1 \<le> k"
  then have "leaves k (prim s1)" using assms(1,3) by (intro prim_okD) auto
  then show "leaves k (try_bind (prim s1) (\<lambda>(low, s2). try_bind (consume TOK_AND s2)
      (\<lambda>(_, s3). try_bind (prim s3) (\<lambda>(high, s4). Inr (EBetween left low high neg, s4)))))"
  proof (rule leaves_bind, clarify)
    fix low t x r assume "psize ((t, x), r) \<le> k"
    then show "leaves k (try_bind (consume TOK_AND ((t, x), r))
        (\<lambda>(_, s3). try_bind (prim s3) (\<lambda>(high, s4). Inr (EBetween left low high neg, s4))))"
      by (intro leaves_bind [OF consume_leaves [where k = k]], simp_all)
        (rule leaves_bind [OF prim_okD [OF assms(1)]], use assms(3) in auto)
  qed
qed

lemma advance_step:
  assumes "check t s" "t \<noteq> TOK_EOF" "psize s \<le> k"
  obtains j where "k = Suc j" "leaves_state j (advance s)"
proof -
  have "0 < k" using psize_pos [OF assms(1,2)] assms(3) by simp
  then obtain j where j: "k = Suc j" by (cases k) auto
  have "leaves_state j (advance s)"
    using assms j by (intro advance_leaves) (auto simp: check_def)
  with j that show thesis by blast
qed

lemma parseItems_leaves:
  assumes ok: "prim_ok N prim"
  shows "psize s \<le> k \<Longrightarrow> k < N \<Longrightarrow> k < n \<Longrightarrow> leaves k (parseItems prim n its s)"
proof (induction n arbitrary: its s k)
  case (Suc n)
  show ?case
  proof (cases "check TOK_COMMA s")
    case True
    from advance_step [OF True _ Suc.prems(1)] obtain j where j: "k = Suc j" "leaves_state j (advance s)" by blast
    have "leaves j (try_bind (prim s1) (\<lambda>(item, s2). parseItems prim n (its @ [item]) s2))" if "psize s1 \<le> j" for s1
    proof (rule leaves_bind [OF prim_okD [OF ok, of s1 j]])
      show "leaves j (case (item, s2) of (item, s2) \<Rightarrow> parseItems prim n (its @ [item]) s2)" if "psize s2 \<le> j" for item s2
        using Suc.IH [OF that] Suc.prems j by simp
    qed (use that Suc.prems j in auto)
    then have "leaves j (parseItems prim (Suc n) its s)" using True by (simp add: leaves_bind_state [OF j(2)])
    then show ?thesis by (rule leaves_mono) (simp add: j)
  qed (use Suc.prems in simp)
qed simp

lemma parse_in_leaves:
  assumes ok: "prim_ok N prim" and k: "psize s \<le> k" "k < N" "k < n"
  shows "leaves k (parse_in prim n left neg s)"
  unfolding parse_in_def
proof (rule leaves_bind_state [OF advance_leaves_le [OF k(1)]], rule leaves_bind [OF consume_leaves [where k = k]])
  fix tk s2 assume "psize s2 \<le> k"
  show "leaves k (case (tk, s2) of (_, s2) \<Rightarrow> try_bind (prim s2) (\<lambda>(item, s3). try_bind (parseItems prim n [item] s3)
      (\<lambda>(its, s4). try_bind (consume TOK_RPAREN s4) (\<lambda>(_, s5). Inr (EIn left its neg, s5)))))"
    unfolding prod.case
  proof (rule leaves_bind [OF prim_okD [OF ok, of s2 k]], unfold prod.case)
    fix item s3 assume "psize s3 \<le> k"
    from parseItems_leaves [OF ok this k(2,3)]
    show "leaves k (try_bind (parseItems prim n [item] s3)
      (\<lambda>(its, s4). try_bind (consume TOK_RPAREN s4) (\<lambda>(_, s5). Inr (EIn left its neg, s5))))"
      by (rule leaves_bind) (simp add: leaves_bind [OF consume_leaves [where k = k]] case_prod_unfold)
  qed (use \<open>psize s2 \<le> k\<close> k in auto)
qed auto

lemma parse_relational_leaves:
  assumes ok: "prim_ok N prim" and k: "psize s \<le> k" "k < N"
  shows "leaves k (parse_relational prim left s)"
  unfolding parse_relational_def
proof (rule leaves_bind_state [OF advance_leaves_le [OF k(1)]])
  fix s1 assume "psize s1 \<le> k"
  then have "leaves k (prim s1)" using k(2) by (intro prim_okD [OF ok]) auto
  then show "leaves k (try_bind (prim s1) (\<lambda>(right, s2). Inr (ERel (fst (fst s)) left right, s2)))"
    by (rule leaves_bind) simp
qed

lemma parseComparison_leaves:
  assumes ok: "prim_ok N prim" and k: "psize s \<le> Suc k" "k < N" "k < n"
  shows "leaves k (parseComparison prim n s)"
  unfolding parseComparison_def
proof (rule leaves_bind [OF prim_okD [OF ok k(1,2)]], unfold prod.case)
  fix left s1 assume s1: "psize s1 \<le> k"
  have "leaves_state k (if check TOK_NOT s1 then advance s1 else Inr s1)"
    using s1 advance_leaves_le [OF s1] by (simp add: leaves_state_def)
  note b = leaves_bind_state [OF this]
  have "leaves k (if check TOK_BETWEEN s2 then parse_between prim left neg s2
           else if check TOK_IN s2 then parse_in prim n left neg s2
           else if check TOK_LIKE s2 then parse_like left neg s2
           else if neg then Inl InvalidSelector
           else if relational (fst (fst s2)) then parse_relational prim left s2
           else Inr (left, s2))" if "psize s2 \<le> k" for s2 neg
    using parse_between_leaves [OF ok that k(2)] parse_in_leaves [OF ok that k(2,3)] parse_like_leaves [OF that]
      parse_relational_leaves [OF ok that k(2)] that by simp
  note c = b [OF this]
  show "leaves k (if check TOK_IS s1 then parse_is_null left s1
       else let negated = check TOK_NOT s1 in
         try_bind (if negated then advance s1 else Inr s1) (\<lambda>s2.
           if check TOK_BETWEEN s2 then parse_between prim left negated s2
           else if check TOK_IN s2 then parse_in prim n left negated s2
           else if check TOK_LIKE s2 then parse_like left negated s2
           else if negated then Inl InvalidSelector
           else if relational (fst (fst s2)) then parse_relational prim left s2
           else Inr (left, s2)))"
    unfolding Let_def using parse_is_null_leaves [OF s1] c by (simp only: if_True if_False split: if_split) blast
qed

lemma parseNot_leaves:
  assumes ok: "prim_ok N prim"
  shows "psize s - 1 < N \<Longrightarrow> psize s + 1 < n \<Longrightarrow> leaves (psize s - 1) (parseNot prim n s)"
proof (induction n arbitrary: s)
  case (Suc n)
  show ?case
  proof (cases "check TOK_NOT s")
    case True
    from advance_step [OF True _ order_refl] obtain j where j: "psize s = Suc j" "leaves_state j (advance s)" by auto
    have "leaves j (try_bind (parseNot prim n s1) (\<lambda>(e, s2). Inr (ENot e, s2)))" if s1: "psize s1 \<le> j" for s1
    proof -
      have "leaves (psize s1 - 1) (parseNot prim n s1)" using s1 j Suc.prems by (intro Suc.IH) auto
      then show ?thesis by (rule leaves_bind) (use s1 in simp)
    qed
    with True j show ?thesis by (simp add: leaves_bind_state [OF j(2)])
  next
    case False
    with parseComparison_leaves [OF ok, of s "psize s - 1" n] Suc.prems show ?thesis by simp
  qed
qed simp

lemma andLoop_leaves:
  assumes ok: "prim_ok N prim"
  shows "psize s < N \<Longrightarrow> psize s + 2 < n \<Longrightarrow> leaves (psize s) (andLoop prim n left s)"
proof (induction n arbitrary: s left)
  case (Suc n)
  show ?case
  proof (cases "check TOK_AND s")
    case True
    from advance_step [OF True _ order_refl] obtain j where j: "psize s = Suc j" "leaves_state j (advance s)" by auto
    have "leaves j (try_bind (parseNot prim n s1) (\<lambda>(right, s2). andLoop prim n (EAnd left right) s2))" if s1: "psize s1 \<le> j" for s1
    proof (rule leaves_bind [OF parseNot_leaves [OF ok]], unfold prod.case)
      fix right s2 assume "psize s2 \<le> psize s1 - 1"
      then have "leaves (psize s2) (andLoop prim n (EAnd left right) s2)" "psize s2 \<le> j"
        using s1 j Suc.prems by (auto intro!: Suc.IH)
      then show "leaves j (andLoop prim n (EAnd left right) s2)" by (rule leaves_mono)
    qed (use s1 j Suc.prems in auto)
    then have "leaves j (andLoop prim (Suc n) left s)" using True by (simp add: leaves_bind_state [OF j(2)])
    then show ?thesis by (rule leaves_mono) (simp add: j)
  qed simp
qed simp

lemma parseAnd_leaves:
  assumes ok: "prim_ok N prim" and "psize s - 1 < N" "psize s + 2 < n"
  shows "leaves (psize s - 1) (parseAnd prim n s)"
  unfolding parseAnd_def
proof (rule leaves_bind [OF parseNot_leaves [OF ok]], unfold prod.case)
  fix left s1 assume "psize s1 \<le> psize s - 1"
  then have "leaves (psize s1) (andLoop prim n left s1)" using assms by (intro andLoop_leaves) auto
  then show "leaves (psize s - 1) (andLoop prim n left s1)" by (rule leaves_mono) fact
qed (use assms in auto)

lemma orLoop_leaves:
  assumes ok: "prim_ok N prim"
  shows "psize s < N \<Longrightarrow> psize s + 3 < n \<Longrightarrow> leaves (psize s) (orLoop prim n left s)"
proof (induction n arbitrary: s left)
  case (Suc n)
  show ?case
  proof (cases "check TOK_OR s")
    case True
    from advance_step [OF True _ order_refl] obtain j where j: "psize s = Suc j" "leaves_state j (advance s)" by auto
    have "leaves j (try_bind (parseAnd prim n s1) (\<lambda>(right, s2). orLoop prim n (EOr left right) s2))" if s1: "psize s1 \<le> j" for s1
    proof (rule leaves_bind [OF parseAnd_leaves [OF ok]], unfold prod.case)
      fix right s2 assume "psize s2 \<le> psize s1 - 1"
      then have "leaves (psize s2) (orLoop prim n (EOr left right) s2)" "psize s2 \<le> j"
        using s1 j Suc.prems by (auto intro!: Suc.IH)
      then show "leaves j (orLoop prim n (EOr left right) s2)" by (rule leaves_mono)
    qed (use s1 j Suc.prems in auto)
    then have "leaves j (orLoop prim (Suc n) left s)" using True by (simp add: leaves_bind_state [OF j(2)])
    then show ?thesis by (rule leaves_mono) (simp add: j)
  qed simp
qed simp

lemma parseOr_leaves:
  assumes ok: "prim_ok N prim" and "psize s - 1 < N" "psize s + 3 < n"
  shows "leaves (psize s - 1) (parseOr prim n s)"
  unfolding parseOr_def
proof (rule leaves_bind [OF parseAnd_leaves [OF ok]], unfold prod.case)
  fix left s1 assume "psize s1 \<le> psize s - 1"
  then have "leaves (psize s1) (orLoop prim n left s1)" using assms by (intro orLoop_leaves) auto
  then show "leaves (psize s - 1) (orLoop prim n left s1)" by (rule leaves_mono) fact
qed (use assms in auto)

lemma parsePrimary_ok: "prim_ok n (parsePrimary (n + 4))"
proof (induction n)
  case 0
  then show ?case by (simp add: prim_ok_def)
next
  case (Suc n)
  have "leaves k (parsePrimary (Suc n + 4) s)" if k: "psize s \<le> Suc k" "k < Suc n" for s k
  proof (cases "check TOK_LPAREN s")
    case True
    from advance_step [OF True _ k(1)] have a: "leaves_state k (advance s)" by auto
    have "leaves k (try_bind (parseOr (parsePrimary (n + 4)) (n + 4) s1) (\<lambda>(e, s2).
             try_bind (consume TOK_RPAREN s2) (\<lambda>(_, s3). Inr (e, s3))))" if s1: "psize s1 \<le> k" for s1
    proof (cases "n = 0")
      case True
      then have z: "k = 0" "psize s1 = 0" using s1 k by auto
      then have "fst (fst s1) = TOK_EOF" by (simp add: psize_def split: if_splits)
      then have "parsePrimary 4 s1 = Inl InvalidSelector"
        by (simp add: numeral_eq_Suc check_def parse_literal_def Let_def)
      then show ?thesis using True \<open>fst (fst s1) = TOK_EOF\<close>
        by (simp add: parseOr_def parseAnd_def numeral_eq_Suc check_def parseComparison_def)
    next
      case False
      show ?thesis
      proof (rule leaves_bind [OF parseOr_leaves [OF Suc.IH]], unfold prod.case)
        fix e s2 assume "psize s2 \<le> psize s1 - 1"
        then have "leaves k (consume TOK_RPAREN s2)" using s1 by (intro consume_leaves) auto
        then show "leaves k (try_bind (consume TOK_RPAREN s2) (\<lambda>(_, s3). Inr (e, s3)))"
          by (rule leaves_bind) simp
      qed (use s1 k False in auto)
    qed
    with True show ?thesis unfolding add_Suc parsePrimary.simps by (simp add: leaves_bind_state [OF a])
  next
    case False
    with parse_literal_leaves [OF k(1)] show ?thesis unfolding add_Suc parsePrimary.simps by simp
  qed
  then show ?case by (auto simp: prim_ok_def)
qed

text \<open>The fuel of \<open>selector_parse\<close> is enough for every input.\<close>

lemma selector_parse_total: "selector_parse x \<noteq> Inl OutOfFuel"
proof -
  let ?n = "parser_fuel x"
  have "leaves_state (length x) (tok_next x)" by (rule tok_next_leaves)
  then have "leaves (length x) (try_bind (tok_next x) (parseOr (parsePrimary ?n) ?n))"
  proof (rule leaves_bind_state)
    fix s assume s: "psize s \<le> length x"
    have "leaves (psize s - 1) (parseOr (parsePrimary ?n) ?n s)"
      using parseOr_leaves [OF parsePrimary_ok [of "Suc (length x)"], of s ?n] s by (simp add: parser_fuel_def add.commute)
    then show "leaves (length x) (parseOr (parsePrimary ?n) ?n s)" by (rule leaves_mono) (use s in simp)
  qed
  then show ?thesis
    by (auto simp: selector_parse_def leaves_def try_bind_def split: sum.splits)
qed

section \<open>Rounding\<close>

lemma bit_length_le: "n < 2 ^ k \<Longrightarrow> bit_length n \<le> k"
proof (induction k arbitrary: n)
  case 0
  then show ?case by (simp add: bit_length.simps)
next
  case (Suc k)
  then have "bit_length (n div 2) \<le> k" by (intro Suc.IH) simp
  then show ?case by (simp add: bit_length.simps [of n])
qed

lemma round_half_even_int: "round_half_even (of_int i) = i"
  by (simp add: round_half_even_def)

text \<open>A double holds every integer of less than 54 bits, times any power of two.\<close>

lemma ulp_exp_scaled:
  assumes "\<bar>i\<bar> < 2 ^ 53" "i \<noteq> 0"
  shows "- 1074 \<le> ulp_exp (of_int (i * 2 ^ n))" "ulp_exp (of_int (i * 2 ^ n)) \<le> int n"
proof -
  let ?j = "\<bar>i * 2 ^ n\<bar>"
  have q: "quotient_of (of_int ?j :: rat) = (?j, 1)" using quotient_of_int [of ?j] unfolding Rat.of_int_def .
  have "?j < 2 ^ 53 * 2 ^ n" using assms(1) by (simp add: abs_mult)
  then have "nat ?j < 2 ^ (53 + n)" by (simp add: nat_less_iff power_add)
  then have b: "bit_length (nat ?j) \<le> 53 + n" by (rule bit_length_le)
  have one: "bit_length (nat 1) = 1" by (simp add: bit_length.simps)
  have "log2_floor (of_int ?j) \<le> 52 + int n" using b one unfolding log2_floor_def q by (simp add: Let_def)
  then show "ulp_exp (of_int (i * 2 ^ n)) \<le> int n" unfolding ulp_exp_def of_int_abs by simp
  show "- 1074 \<le> ulp_exp (of_int (i * 2 ^ n))" by (simp add: ulp_exp_def)
qed

lemma round_double_scaled: "\<bar>i\<bar> < 2 ^ 53 \<Longrightarrow> round_double (of_int (i * 2 ^ n)) = of_int (i * 2 ^ n)"
proof (cases "i = 0")
  case False
  assume i: "\<bar>i\<bar> < 2 ^ 53"
  define X where "X = rat_of_int (i * 2 ^ n)"
  have "ulp_exp X \<le> int n" using ulp_exp_scaled(2) [OF i False, of n] unfolding X_def .
  then obtain k where k: "int n = ulp_exp X + int k" by (metis add.commute zle_iff_zadd)
  have "(2 :: rat) ^ n = 2 powi int n" by simp
  also have "\<dots> = 2 powi ulp_exp X * 2 ^ k" unfolding k by (simp add: power_int_add)
  finally have "(2 :: rat) ^ n = 2 powi ulp_exp X * 2 ^ k" .
  then have "X = of_int (i * 2 ^ k) * 2 powi ulp_exp X" unfolding X_def by (metis mult.assoc mult.commute of_int_mult of_int_numeral of_int_power)
  moreover from this have "X / 2 powi ulp_exp X = of_int (i * 2 ^ k)" by (metis nonzero_mult_div_cancel_right power_int_not_zero zero_neq_numeral)
  moreover have "X \<noteq> 0" using False by (simp add: X_def)
  ultimately have "round_double X = X" unfolding round_double_def using round_half_even_int by metis
  then show ?thesis unfolding X_def .
qed (simp add: round_double_def)

lemma round_double_int: "\<bar>i\<bar> < 2 ^ 53 \<Longrightarrow> round_double (of_int i) = of_int i"
  using round_double_scaled [of i 0] by simp

section \<open>LIKE\<close>

text \<open>The SQL reading of a pattern.\<close>

fun like_spec :: "string \<Rightarrow> string \<Rightarrow> bool" where
  "like_spec [] s = (s = [])"
| "like_spec (p # ps) s =
     (if p = CHR ''%'' then like_spec ps s \<or> (case s of [] \<Rightarrow> False | _ # cs \<Rightarrow> like_spec (p # ps) cs)
      else if p = CHR ''_'' then (case s of [] \<Rightarrow> False | _ # cs \<Rightarrow> like_spec ps cs)
      else (case s of [] \<Rightarrow> False | c # cs \<Rightarrow> c = p \<and> like_spec ps cs))"

fun like_items :: "string \<Rightarrow> regex_item list" where
  "like_items [] = []"
| "like_items (p # ps) =
     (if p = CHR ''%'' then RStar else if p = CHR ''_'' then RAny else RChar p) # like_items ps"

lemma regex_items_like: "regex_items (like_body p @ ''$'') = Some (like_items p @ [REnd])"
proof (induction p)
  case (Cons c p)
  have any: "regex_items (CHR ''.'' # like_body p @ ''$'') = map_option (Cons RAny) (regex_items (like_body p @ ''$''))"
  proof (cases "like_body p @ ''$''")
    case (Cons d ds)
    have "hd (like_body p @ ''$'') \<noteq> CHR ''*''"
      by (cases p) (auto simp: regex_special_def)
    with Cons show ?thesis by simp
  qed simp
  have special: "regex_special c \<longleftrightarrow> syntax_character c" by (auto simp: regex_special_def syntax_character_def)
  consider "c = CHR ''%''" | "c = CHR ''_''" | "c \<noteq> CHR ''%''" "c \<noteq> CHR ''_''" "regex_special c"
    | "c \<noteq> CHR ''%''" "c \<noteq> CHR ''_''" "\<not> regex_special c" by blast
  then show ?case
  proof cases
    case 2
    with any Cons show ?thesis by simp
  next
    case 3
    with Cons special show ?thesis by simp
  next
    case 4
    then have "c \<noteq> CHR ''^''" "c \<noteq> CHR ''$''" "c \<noteq> CHR 0x5C" "c \<noteq> CHR ''.''" by (auto simp: regex_special_def)
    with 4 special Cons show ?thesis by simp
  qed (use Cons in simp_all)
qed simp

lemma likeToRegex_in_fragment: "regex_items (likeToRegex p) = Some (RBegin # like_items p @ [REnd])"
  by (simp add: likeToRegex_def regex_items_like)

lemma items_match_like:
  "list_all (\<lambda>c. \<not> line_terminator c) s \<Longrightarrow> items_match b (like_items p @ [REnd]) s = like_spec p s"
proof (induction p s arbitrary: b rule: like_spec.induct)
  case (1 s)
  then show ?case by (auto split: list.splits)
next
  case (2 p ps s)
  consider "p = CHR ''%''" | "p = CHR ''_''" | "p \<noteq> CHR ''%''" "p \<noteq> CHR ''_''" by blast
  then show ?case
  proof cases
    case 1
    with 2 show ?thesis by (cases s) auto
  next
    case 2
    with "2.IH" "2.prems" show ?thesis by (cases s) auto
  next
    case 3
    with "2.IH" "2.prems" show ?thesis by (cases s) auto
  qed
qed

lemma like_correct: "list_all (\<lambda>c. \<not> line_terminator c) s \<Longrightarrow> regex_match s (likeToRegex p) = like_spec p s"
  by (simp add: regex_match_def likeToRegex_in_fragment items_match_like)


section \<open>What the consumers rely on\<close>

text \<open>C36: parsing ends for every input text: the parser either returns an expression or reports an
  invalid selector or a number out of range, and never runs out of its bound.\<close>

theorem selector_parse_ends:
  "(\<exists>e. selector_parse x = Inr e) \<or> selector_parse x = Inl InvalidSelector \<or> selector_parse x = Inl StdOutOfRange"
  using selector_parse_total [of x] by (cases "selector_parse x") (auto intro: sel_error.exhaust)

definition truth :: "selectorValue \<Rightarrow> bool option" where
  "truth v = (case v of VBool b \<Rightarrow> Some b | _ \<Rightarrow> None)"

definition kleene_and :: "bool option \<Rightarrow> bool option \<Rightarrow> bool option" where
  "kleene_and a b =
     (if a = Some False \<or> b = Some False then Some False
      else if a = Some True \<and> b = Some True then Some True else None)"

definition kleene_not :: "bool option \<Rightarrow> bool option" where
  "kleene_not a = map_option Not a"

definition kleene_or :: "bool option \<Rightarrow> bool option \<Rightarrow> bool option" where
  "kleene_or a b = kleene_not (kleene_and (kleene_not a) (kleene_not b))"

lemma truth_and: "truth (eval m (EAnd l r)) = kleene_and (truth (eval m l)) (truth (eval m r))"
  by (cases "eval m l"; cases "eval m r") (simp_all add: truth_def kleene_and_def)

lemma truth_or: "truth (eval m (EOr l r)) = kleene_or (truth (eval m l)) (truth (eval m r))"
  by (cases "eval m l"; cases "eval m r") (simp_all add: truth_def kleene_and_def kleene_or_def kleene_not_def)

lemma truth_not: "truth (eval m (ENot e)) = kleene_not (truth (eval m e))"
  by (cases "eval m e") (simp_all add: truth_def kleene_not_def)

text \<open>C39: AND, OR and NOT follow SQL's three-valued logic, with everything that is not a boolean as
  unknown, although the right operand is not looked at when the left one decides; a selector matches
  only when it is true, so an unknown result filters the message out.\<close>

theorem logic_is_three_valued:
  "truth (eval m (EAnd l r)) = kleene_and (truth (eval m l)) (truth (eval m r)) \<and>
   truth (eval m (EOr l r)) = kleene_or (truth (eval m l)) (truth (eval m r)) \<and>
   truth (eval m (ENot e)) = kleene_not (truth (eval m e)) \<and>
   (selector_matches e m \<longleftrightarrow> truth (eval m e) = Some True)"
  using truth_and truth_or truth_not
  by (cases "eval m e") (simp_all add: truth_def selector_matches_def del: eval.simps)

text \<open>C40: on texts without line breaks, the regular expression that LIKE is translated to accepts
  exactly the texts the SQL pattern describes: \<open>%\<close> any sequence, \<open>_\<close> any one character, every other
  character, including each of the fourteen syntax characters of regular expressions, only itself.  (An expression in which
  one of them is left unescaped is outside the modelled fragment of \<open>std::regex\<close> and matches nothing in the model.)\<close>

theorem like_is_sql_like:
  assumes "list_all (\<lambda>c. \<not> line_terminator c) s"
  shows "regex_match s (likeToRegex p) = like_spec p s"
  by (rule like_correct [OF assms])

theorem like_is_sql_like_witness:
  "regex_match ''a+(b)c'' (likeToRegex ''a+(%)_'') = like_spec ''a+(%)_'' ''a+(b)c'' \<and> like_spec ''a+(%)_'' ''a+(b)c''"
  using like_is_sql_like [of "''a+(b)c''" "''a+(%)_''"] by (simp add: line_terminator_def)

lemma double_of_int_compare:
  assumes "\<bar>x\<bar> < 2 ^ 53" "\<bar>y\<bar> < 2 ^ 53"
  shows "fp_eq (double_of_int x) (double_of_int y) \<longleftrightarrow> x = y" "fp_less (double_of_int x) (double_of_int y) \<longleftrightarrow> x < y"
  by (simp_all add: double_of_int_def round_double_int [OF assms(1)] round_double_int [OF assms(2)] fp_eq_def)

text \<open>Numbers are compared as doubles, which is exact for integers of less than 54 bits: on those,
  the comparison operators agree with the comparison of the integers.\<close>

lemma integer_comparison_exact:
  assumes "\<bar>sint a\<bar> < 2 ^ 53" "\<bar>sint b\<bar> < 2 ^ 53"
  shows "(selEQ (VInt a) (VInt b) \<longleftrightarrow> sint a = sint b) \<and> (selLT (VInt a) (VInt b) \<longleftrightarrow> sint a < sint b) \<and>
    (selLTE (VInt a) (VInt b) \<longleftrightarrow> sint a \<le> sint b) \<and> (selGTE (VInt a) (VInt b) \<longleftrightarrow> sint a \<ge> sint b)"
proof -
  have "selEQ (VInt a) (VInt b) \<longleftrightarrow> sint a = sint b"
    unfolding selEQ_def toDouble.simps double_of_int_compare [OF assms] by simp
  moreover have "selLT (VInt a) (VInt b) \<longleftrightarrow> sint a < sint b"
    unfolding selLT_def toDouble.simps double_of_int_compare [OF assms] by simp
  moreover have "selLT (VInt b) (VInt a) \<longleftrightarrow> sint b < sint a"
    unfolding selLT_def toDouble.simps double_of_int_compare [OF assms(2,1)] by simp
  ultimately show ?thesis unfolding selLTE_def selGTE_def selGT_def by linarith
qed

text \<open>A property that the message does not carry is not matched by equality, by an order comparison,
  by IN, by LIKE or by BETWEEN, but the inequality operator and NOT BETWEEN do match it.\<close>

lemma missing_property_comparisons:
  assumes "map_of (props m) n = None"
  shows "\<not> selector_matches (ERel TOK_EQ (EIdent n) r) m \<and> \<not> selector_matches (ERel TOK_LT (EIdent n) r) m \<and>
    \<not> selector_matches (EIn (EIdent n) its neg) m \<and> \<not> selector_matches (ELike (EIdent n) re neg) m \<and>
    \<not> selector_matches (EBetween (EIdent n) lo hi False) m \<and>
    selector_matches (ERel TOK_NEQ (EIdent n) r) m \<and> selector_matches (EBetween (EIdent n) lo hi True) m"
  using assms
  by (simp add: selector_matches_def extractProperty_def selEQ_def selLT_def selGTE_def selGT_def selLTE_def Let_def)

end
