(* ===== verification/Broker_State.thy ===== *)
theory Broker_State
  imports Transaction_Buffer Delivery_Scheduler Selector "HOL-Library.Signed_Division"
begin

text \<open>
  The objects of the broker and the actions on them.  The classes \<open>Destination\<close>, \<open>Consumer\<close>,
  \<open>Producer\<close>, \<open>Session\<close>, \<open>Connection\<close>, \<open>Exchange\<close> and \<open>RedeliveryPolicy\<close> hold references to each other, so their objects live in one
  store, the record \<open>broker\<close>: \<open>dest_at\<close>, \<open>consumer_at\<close>, \<open>producer_at\<close>, \<open>session_at\<close> and \<open>storage_at\<close> give
  the object behind an address, beside the message and queue heap of the scheduler.  An operation is an
  action: a function of the store that returns a value or throws, with the new store in both cases, or
  never returns (\<open>None\<close>), which only a wait on the storage worker or on a queue can do.

  The clock and the random UUIDs are streams in the store, read one after the other.  What the broker
  takes from elsewhere is the record \<open>io\<close>: the Poco services, the iteration order of the hash maps, the
  string hash, and whether files can be written; the theorems name what they rely on.  Log output and the
  \<open>meta.info\<close> files are not modelled, nor are the lock-free details of the hash maps.
\<close>

section \<open>Objects\<close>

type_synonym caddr = nat
type_synonym paddr = nat
type_synonym daddr = nat
type_synonym saddr = nat
type_synonym sessaddr = nat
type_synonym connaddr = nat

datatype dest_type = Queue | Topic | TemporaryQueue | TemporaryTopic

fun TypeName :: "dest_type \<Rightarrow> string" where
  "TypeName Queue = ''queue''"
| "TypeName Topic = ''topic''"
| "TypeName TemporaryQueue = ''temp-queue''"
| "TypeName TemporaryTopic = ''temp-topic''"

datatype acknowledgeMode = SESSION_TRANSACTED | AUTO_ACKNOWLEDGE | CLIENT_ACKNOWLEDGE
  | INDIVIDUAL_ACKNOWLEDGE | DUPS_OK_ACKNOWLEDGE

record redeliveryPolicy =
  maxRedeliveries :: int32
  backoffMs :: int64
  maxBackoffMs :: int64
  deadLetterQueue :: "daddr option"

definition default_policy :: redeliveryPolicy where
  "default_policy = \<lparr>maxRedeliveries = 6, backoffMs = 0, maxBackoffMs = 60000, deadLetterQueue = None\<rparr>"

record sendOptions =
  opt_deliveryMode :: reliability_mode
  opt_priority :: int32
  opt_timeToLive :: int64
  opt_deliveryDelay :: int64

record consumer =
  con_uuid :: uuid
  con_destination :: daddr
  con_queue :: qaddr
  con_session :: sessaddr
  con_transactQueue :: "qaddr option"
  con_storage :: saddr
  con_selector :: "sel_expr option"
  pendingAcks :: "srecord list"
  inFlightHead :: "maddr option"
  inFlightTail :: "maddr option"

record producer =
  prod_uuid :: uuid
  prod_destination :: daddr
  prod_session :: sessaddr
  prod_token :: bool
  prod_transactQueue :: "qaddr option"
  disableMessageID :: bool
  disableMessageTimestamp :: bool
  prod_default :: "sendOptions option"

record durableSubState =
  sub_name :: string
  sub_path :: string
  sub_storage :: saddr
  activeConsumerUuid :: uuid
  sub_selector :: "sel_expr option"

record destination =
  dest_type :: dest_type
  dest_name :: string
  dest_path :: string
  dest_uri :: string
  dest_hash :: uint64
  messageCounter :: int64
  dest_consumers :: "(uuid \<times> caddr) list"
  dest_producers :: "(uuid \<times> paddr) list"
  dest_queue :: "qaddr option"
  defaultConsumer :: "caddr option"
  dest_storage :: saddr
  transactionBuffer :: txBuffer
  dest_scheduler :: scheduler
  durableSubs :: "(string \<times> durableSubState) list"
  consumerToSubName :: "(uuid \<times> string) list"
  redelivery_policy :: redeliveryPolicy

record session =
  sess_mode :: acknowledgeMode
  sess_connection :: connaddr
  suffix :: string
  sess_id :: string
  sess_destinations :: "(uint64 \<times> daddr) list"
  sess_producers :: "(uuid \<times> paddr) list"
  sess_consumers :: "(uuid \<times> caddr) list"

text \<open>The exception listener is a function object, known by a number here.\<close>

record connection =
  clientID :: string
  conn_started :: bool
  conn_closed :: bool
  exceptionListener :: "nat option"
  conn_sessions :: "sessaddr list"

record broker =
  heap :: mheap
  next_msg :: maddr
  next_queue :: qaddr
  storage_at :: "saddr \<Rightarrow> cstorage"
  next_storage :: saddr
  consumer_at :: "caddr \<Rightarrow> consumer"
  next_consumer :: caddr
  producer_at :: "paddr \<Rightarrow> producer"
  next_producer :: paddr
  dest_at :: "daddr \<Rightarrow> destination"
  next_dest :: daddr
  session_at :: "sessaddr \<Rightarrow> session"
  next_session :: sessaddr
  connection_at :: "connaddr \<Rightarrow> connection"
  next_connection :: connaddr
  exch_destinations :: "(uint64 \<times> daddr) list"   \<comment> \<open>the \<open>Exchange\<close>\<close>
  exch_path :: string
  disk :: "string \<Rightarrow> (uint32 \<times> byte list) list"   \<comment> \<open>the tom files of a directory when it is opened\<close>
  disk_log :: "string \<Rightarrow> string option"   \<comment> \<open>its transaction log\<close>
  clock :: "nat \<Rightarrow> int64"   \<comment> \<open>the readings of \<open>Poco::Timestamp().epochMicroseconds()\<close>\<close>
  clock_reads :: nat
  randoms :: "nat \<Rightarrow> uuid"   \<comment> \<open>the random UUIDs\<close>
  random_reads :: nat

section \<open>The surroundings\<close>

record io =
  services :: poco
  log_tokens :: tokenizer
  log_ok :: bool   \<comment> \<open>the transaction log can be opened\<close>
  write_ok :: bool   \<comment> \<open>the storage files can be written\<close>
  stamp :: string   \<comment> \<open>the time stamp of a log line\<close>
  iter_ids :: "uuid list \<Rightarrow> uuid list"   \<comment> \<open>iteration order of a hash map with these keys\<close>
  iter_names :: "string list \<Rightarrow> string list"
  poco_hash :: "string \<Rightarrow> uint64"
  nat_string :: "uint64 \<Rightarrow> string"   \<comment> \<open>\<open>std::to_string\<close>\<close>

text \<open>What a loop over a hash map relies on: every entry is visited exactly once.\<close>

definition iter_ok :: "io \<Rightarrow> bool" where
  "iter_ok io \<longleftrightarrow> (\<forall>ks. mset (iter_ids io ks) = mset ks) \<and> (\<forall>ks. mset (iter_names io ks) = mset ks)"

definition iter_map :: "('k list \<Rightarrow> 'k list) \<Rightarrow> ('k \<times> 'v) list \<Rightarrow> 'v list" where
  "iter_map it m = List.map_filter (map_of m) (it (al_keys m))"

section \<open>Actions\<close>

datatype broker_error = IllegalStateException | InvalidArgumentException | StdInvalidArgument | RuntimeException
  | BadMessage prop_error | LogFailure | StorageFailure storage_error | BadSelector sel_error
  | UndefinedBehaviour   \<comment> \<open>a null pointer or an end iterator is dereferenced\<close>

type_synonym 'a action = "broker \<Rightarrow> ((broker_error + 'a) \<times> broker) option"

definition ret :: "'a \<Rightarrow> 'a action" where
  "ret x b = Some (Inr x, b)"

definition throw :: "broker_error \<Rightarrow> 'a action" where
  "throw e b = Some (Inl e, b)"

definition andThen :: "'a action \<Rightarrow> ('a \<Rightarrow> 'b action) \<Rightarrow> 'b action" where
  "andThen f g b =
     (case f b of
        None \<Rightarrow> None
      | Some (Inl e, b') \<Rightarrow> Some (Inl e, b')
      | Some (Inr x, b') \<Rightarrow> g x b')"

definition reads :: "(broker \<Rightarrow> 'a) \<Rightarrow> 'a action" where
  "reads f b = Some (Inr (f b), b)"

definition modify :: "(broker \<Rightarrow> broker) \<Rightarrow> unit action" where
  "modify f b = Some (Inr (), f b)"

definition whenever :: "bool \<Rightarrow> unit action \<Rightarrow> unit action" where
  "whenever c f = (if c then f else ret ())"

fun each :: "'a list \<Rightarrow> ('a \<Rightarrow> unit action) \<Rightarrow> unit action" where
  "each [] f = ret ()"
| "each (x # xs) f = andThen (f x) (\<lambda>_. each xs f)"

text \<open>\<open>try { f } catch (...) { log }\<close>\<close>

definition swallow :: "unit action \<Rightarrow> unit action" where
  "swallow f b = (case f b of None \<Rightarrow> None | Some (_, b') \<Rightarrow> Some (Inr (), b'))"

text \<open>The clock, in microseconds and in milliseconds, and the random UUIDs.\<close>

definition to_ms :: "int64 \<Rightarrow> int64" where
  "to_ms t = of_int (sint t sdiv 1000)"

definition epochMicroseconds :: "int64 action" where
  "epochMicroseconds b = Some (Inr (clock b (clock_reads b)), b\<lparr>clock_reads := Suc (clock_reads b)\<rparr>)"

definition nowMs :: "int64 action" where
  "nowMs = andThen epochMicroseconds (\<lambda>t. ret (to_ms t))"

definition createRandomUUID :: "uuid action" where
  "createRandomUUID b = Some (Inr (randoms b (random_reads b)), b\<lparr>random_reads := Suc (random_reads b)\<rparr>)"

text \<open>Objects: dereference, update, \<open>make_shared\<close>.\<close>

definition msg :: "broker \<Rightarrow> maddr \<Rightarrow> message" where
  "msg b a = msg_at (heap b) a"

definition upd_msg :: "maddr \<Rightarrow> (message \<Rightarrow> message) \<Rightarrow> broker \<Rightarrow> broker" where
  "upd_msg a f b = b\<lparr>heap := set_msg a (f (msg b a)) (heap b)\<rparr>"

definition upd_link :: "maddr \<Rightarrow> (inFlightLink \<Rightarrow> inFlightLink) \<Rightarrow> broker \<Rightarrow> broker" where
  "upd_link a f = upd_msg a (\<lambda>m. m\<lparr>link := f (link m)\<rparr>)"

definition upd_headers :: "maddr \<Rightarrow> (headers \<Rightarrow> headers) \<Rightarrow> broker \<Rightarrow> broker" where
  "upd_headers a f = upd_msg a (\<lambda>m. m\<lparr>jmsHeaders := f (jmsHeaders m)\<rparr>)"

definition upd_consumer :: "caddr \<Rightarrow> (consumer \<Rightarrow> consumer) \<Rightarrow> broker \<Rightarrow> broker" where
  "upd_consumer c f b = b\<lparr>consumer_at := (consumer_at b)(c := f (consumer_at b c))\<rparr>"

definition upd_producer :: "paddr \<Rightarrow> (producer \<Rightarrow> producer) \<Rightarrow> broker \<Rightarrow> broker" where
  "upd_producer p f b = b\<lparr>producer_at := (producer_at b)(p := f (producer_at b p))\<rparr>"

definition upd_dest :: "daddr \<Rightarrow> (destination \<Rightarrow> destination) \<Rightarrow> broker \<Rightarrow> broker" where
  "upd_dest d f b = b\<lparr>dest_at := (dest_at b)(d := f (dest_at b d))\<rparr>"

definition upd_session :: "sessaddr \<Rightarrow> (session \<Rightarrow> session) \<Rightarrow> broker \<Rightarrow> broker" where
  "upd_session s f b = b\<lparr>session_at := (session_at b)(s := f (session_at b s))\<rparr>"

definition new_msg :: "message \<Rightarrow> maddr action" where
  "new_msg m b = Some (Inr (next_msg b), b\<lparr>heap := set_msg (next_msg b) m (heap b), next_msg := Suc (next_msg b)\<rparr>)"

definition new_queue :: "qaddr action" where
  "new_queue b = Some (Inr (next_queue b), b\<lparr>heap := set_queue (next_queue b) pq_empty (heap b), next_queue := Suc (next_queue b)\<rparr>)"

text \<open>\<open>queue->enqueue(msg)\<close>, \<open>queue->try_dequeue(msg)\<close>; a wait that finds the queue empty times out.\<close>

definition enqueue :: "qaddr \<Rightarrow> maddr \<Rightarrow> unit action" where
  "enqueue q a = modify (\<lambda>b. b\<lparr>heap := enqueue_msg q a (heap b)\<rparr>)"

definition dequeue :: "qaddr \<Rightarrow> maddr option action" where
  "dequeue q b =
     (case try_dequeue (queue_at (heap b) q) of
        (r, x) \<Rightarrow> Some (Inr r, b\<lparr>heap := set_queue q x (heap b)\<rparr>))"

text \<open>\<open>while (queue->try_dequeue(msg)) { body }\<close>; a loop that does not end is \<open>None\<close>.\<close>

partial_function (option) drain ::
  "qaddr \<Rightarrow> (maddr \<Rightarrow> unit action) \<Rightarrow> broker \<Rightarrow> ((broker_error + unit) \<times> broker) option" where
  "drain q act b =
     Option.bind (dequeue q b) (\<lambda>(r, b1).
       case r of
         Inl e \<Rightarrow> Some (Inl e, b1)
       | Inr m \<Rightarrow>
           (case m of
              None \<Rightarrow> Some (Inr (), b1)
            | Some a \<Rightarrow>
                Option.bind (act a b1) (\<lambda>(r2, b2).
                  case r2 of
                    Inl e \<Rightarrow> Some (Inl e, b2)
                  | Inr _ \<Rightarrow> drain q act b2)))"

declare drain.simps [code]

text \<open>A call of a storage, which waits for the worker.\<close>

definition on_storage :: "saddr \<Rightarrow> (cstorage \<Rightarrow> ('a \<times> cstorage) option) \<Rightarrow> 'a action" where
  "on_storage s f b =
     (case f (storage_at b s) of
        None \<Rightarrow> None
      | Some (x, cs) \<Rightarrow> Some (Inr x, b\<lparr>storage_at := (storage_at b)(s := cs)\<rparr>))"

definition remove_async :: "saddr \<Rightarrow> srecord \<Rightarrow> unit action" where
  "remove_async s r = modify (\<lambda>b. b\<lparr>storage_at := (storage_at b)(s := removeAsync r (storage_at b s))\<rparr>)"

text \<open>Open the storage of a directory and start its worker.\<close>

definition new_storage :: "string \<Rightarrow> saddr action" where
  "new_storage path =
     andThen (reads (\<lambda>b. storage_open (disk b path))) (\<lambda>r.
       case r of
         None \<Rightarrow> (\<lambda>b. None)
       | Some (Inl e) \<Rightarrow> throw (StorageFailure e)
       | Some (Inr st) \<Rightarrow>
           andThen epochMicroseconds (\<lambda>t.
           andThen (reads next_storage) (\<lambda>s.
           andThen (modify (\<lambda>b. b\<lparr>next_storage := Suc s, storage_at := (storage_at b)(s := cs_start t (new_cstorage st))\<rparr>)) (\<lambda>_.
             ret s))))"

text \<open>A call of the transaction buffer of a destination, which may throw.\<close>

definition on_buffer :: "daddr \<Rightarrow> (txBuffer \<Rightarrow> bool \<times> txBuffer) \<Rightarrow> unit action" where
  "on_buffer d f b =
     (case f (transactionBuffer (dest_at b d)) of
        (ok, tb) \<Rightarrow> Some (if ok then Inr () else Inl LogFailure, upd_dest d (\<lambda>x. x\<lparr>transactionBuffer := tb\<rparr>) b))"

lemmas action_defs = ret_def throw_def andThen_def reads_def modify_def whenever_def

section \<open>Running actions\<close>

text \<open>An action whose first part is known runs on to the rest.\<close>

lemma run_simps:
  "andThen (ret x1) g1 b = g1 x1 b" "andThen (throw e) g2 b = Some (Inl e, b)" "andThen (reads f3) g3 b = g3 (f3 b) b"
  "andThen (modify h) g4 b = g4 () (h b)" "andThen (andThen f5 k5) g5 = andThen f5 (\<lambda>x. andThen (k5 x) g5)"
  "ret x6 b = Some (Inr x6, b)" "reads f7 b = Some (Inr (f7 b), b)" "modify h b = Some (Inr (), h b)" "throw e b = Some (Inl e, b)"
  "whenever True u = u" "whenever False u = ret ()"
  by (simp_all add: action_defs fun_eq_iff split: option.splits sum.splits)

section \<open>Reasoning about actions\<close>

text \<open>
  Partial correctness: from a store with \<open>P\<close>, an answer satisfies \<open>Q\<close> and an exception leaves \<open>E\<close>.
\<close>

definition triple :: "(broker \<Rightarrow> bool) \<Rightarrow> 'a action \<Rightarrow> ('a \<Rightarrow> broker \<Rightarrow> bool) \<Rightarrow> (broker \<Rightarrow> bool) \<Rightarrow> bool" where
  "triple P f Q E \<longleftrightarrow> (\<forall>b r b'. P b \<longrightarrow> f b = Some (r, b') \<longrightarrow> (case r of Inl _ \<Rightarrow> E b' | Inr x \<Rightarrow> Q x b'))"

named_theorems triple_rules \<open>rules of partial correctness for the action combinators\<close>

lemma tripleI:
  "(\<And>b r b'. P b \<Longrightarrow> f b = Some (r, b') \<Longrightarrow> (case r of Inl _ \<Rightarrow> E b' | Inr x \<Rightarrow> Q x b')) \<Longrightarrow> triple P f Q E"
  by (simp add: triple_def)

lemma tripleD: "triple P f Q E \<Longrightarrow> P b \<Longrightarrow> f b = Some (r, b') \<Longrightarrow> (case r of Inl _ \<Rightarrow> E b' | Inr x \<Rightarrow> Q x b')"
  by (simp add: triple_def)

lemma triple_weaken: "triple P' f Q' E \<Longrightarrow> (\<And>b. P b \<Longrightarrow> P' b) \<Longrightarrow> (\<And>x b. Q' x b \<Longrightarrow> Q x b) \<Longrightarrow> triple P f Q E"
  unfolding triple_def by (fastforce split: sum.splits)

lemma triple_pre: "triple P' f Q E \<Longrightarrow> (\<And>b. P b \<Longrightarrow> P' b) \<Longrightarrow> triple P f Q E"
  by (rule triple_weaken)

lemma triple_andThen [triple_rules]:
  "triple P f Q E \<Longrightarrow> (\<And>x. triple (Q x) (g x) R E) \<Longrightarrow> triple P (andThen f g) R E"
  unfolding triple_def andThen_def by (fastforce split: option.splits sum.splits)

lemma triple_ret [triple_rules]: "(\<And>b. P b \<Longrightarrow> Q x b) \<Longrightarrow> triple P (ret x) Q E"
  by (simp add: triple_def ret_def)

lemma triple_throw [triple_rules]: "(\<And>b. P b \<Longrightarrow> E b) \<Longrightarrow> triple P (throw e) Q E"
  by (simp add: triple_def throw_def)

lemma triple_reads [triple_rules]: "(\<And>b. P b \<Longrightarrow> Q (f b) b) \<Longrightarrow> triple P (reads f) Q E"
  by (simp add: triple_def reads_def)

lemma triple_modify [triple_rules]: "(\<And>b. P b \<Longrightarrow> Q () (f b)) \<Longrightarrow> triple P (modify f) Q E"
  by (simp add: triple_def modify_def)

lemma triple_diverge [triple_rules]: "triple P (\<lambda>b. None) Q E"
  by (simp add: triple_def)

lemma triple_if [triple_rules]: "(c \<Longrightarrow> triple P f Q E) \<Longrightarrow> (\<not> c \<Longrightarrow> triple P g Q E) \<Longrightarrow> triple P (if c then f else g) Q E"
  by simp

lemma triple_option [triple_rules]:
  "triple P f Q E \<Longrightarrow> (\<And>x. o' = Some x \<Longrightarrow> triple P (g x) Q E) \<Longrightarrow> triple P (case o' of None \<Rightarrow> f | Some x \<Rightarrow> g x) Q E"
  by (cases o') simp_all

lemma triple_whenever [triple_rules]:
  "(c \<Longrightarrow> triple P f (\<lambda>_. Q) E) \<Longrightarrow> (\<And>b. P b \<Longrightarrow> Q b) \<Longrightarrow> triple P (whenever c f) (\<lambda>_. Q) E"
  by (simp add: whenever_def triple_ret)

lemma triple_each [triple_rules]:
  "(\<And>x. x \<in> set xs \<Longrightarrow> triple P (f x) (\<lambda>_. P) E) \<Longrightarrow> triple P (each xs f) (\<lambda>_. P) E"
proof (induction xs)
  case (Cons x xs)
  then show ?case by (auto intro!: triple_andThen [where Q = "\<lambda>_. P"])
qed (simp add: triple_ret)

lemma triple_swallow [triple_rules]: "triple P f (\<lambda>_. Q) Q \<Longrightarrow> triple P (swallow f) (\<lambda>_. Q) E"
  unfolding triple_def swallow_def by (fastforce split: option.splits sum.splits)

text \<open>An action that leaves what an invariant depends on alone.\<close>

lemma triple_frame:
  assumes "\<And>b r b'. f b = Some (r, b') \<Longrightarrow> P b \<Longrightarrow> P b'" shows "triple P f (\<lambda>_. P) P"
  using assms by (fastforce simp: triple_def split: sum.splits)

end
