(* ===== verification/Dead_Letter.thy ===== *)
theory Dead_Letter
  imports Broker_State
begin

text \<open>
  The part of \<open>Destination.cpp\<close> that the consumer calls back: the delivery scheduler of the destination,
  the redelivery policy and the dead-letter queue.
\<close>

section \<open>Operations\<close>

definition isQueueFamily :: "destination \<Rightarrow> bool" where
  "isQueueFamily d \<longleftrightarrow> dest_type d = Queue \<or> dest_type d = TemporaryQueue"

definition isTopicFamily :: "destination \<Rightarrow> bool" where
  "isTopicFamily d \<longleftrightarrow> dest_type d = Topic \<or> dest_type d = TemporaryTopic"

text \<open>
  \<open>Destination::enqueueOrSchedule\<close>: the scheduler reads the clock once when a delivery time is set, and
  again when it has not been dropped.
\<close>

definition dest_enqueueOrSchedule :: "daddr \<Rightarrow> qaddr \<Rightarrow> maddr \<Rightarrow> unit action" where
  "dest_enqueueOrSchedule d q a b =
     (let t = deliveryTime (jmsHeaders (msg b a));
          now1 = to_ms (clock b (clock_reads b));
          n1 = (if sint t > 0 then Suc (clock_reads b) else clock_reads b);
          t' = fst (clamp_delivery now1 a (heap b));
          now2 = to_ms (clock b n1);
          n2 = (if t' = 0 then n1 else Suc n1)
      in case enqueueOrSchedule now1 now2 q a (dest_scheduler (dest_at b d), heap b) of
           (sch, h) \<Rightarrow>
             Some (Inr (), (upd_dest d (\<lambda>x. x\<lparr>dest_scheduler := sch\<rparr>) b)\<lparr>heap := h, clock_reads := n2\<rparr>))"

definition setRedeliveryPolicy :: "daddr \<Rightarrow> redeliveryPolicy \<Rightarrow> unit action" where
  "setRedeliveryPolicy d p b =
     (case deadLetterQueue p of
        Some q \<Rightarrow>
          if q = d \<or> \<not> isQueueFamily (dest_at b q) then throw InvalidArgumentException b
          else modify (upd_dest d (\<lambda>x. x\<lparr>redelivery_policy := p\<rparr>)) b
      | None \<Rightarrow> modify (upd_dest d (\<lambda>x. x\<lparr>redelivery_policy := p\<rparr>)) b)"

text \<open>The copy that goes to the dead-letter queue.\<close>

definition dead_copy :: "string \<Rightarrow> message \<Rightarrow> message" where
  "dead_copy reason m =
     setStringProperty ''JMSXDeadLetterReason'' reason
       ((message_copy m)\<lparr>jmsHeaders := (jmsHeaders m)\<lparr>deliveryTime := 0\<rparr>\<rparr>)"

text \<open>Append the message behind \<open>a\<close> to a storage, and keep its bytes and its location.\<close>

definition store_message :: "io \<Rightarrow> saddr \<Rightarrow> maddr \<Rightarrow> unit action" where
  "store_message io s a =
     andThen (reads (\<lambda>b. msg b a)) (\<lambda>m.
       let dat = storage_bytes (services io) m in
       andThen (on_storage s (cs_append (write_ok io) (uuid m) dat)) (\<lambda>rec.
         modify (upd_msg a (\<lambda>m. m\<lparr>cachedStorageBytes := dat, storageTomId := tomId rec, storageOffset := offset rec\<rparr>))))"

definition deadLetter :: "io \<Rightarrow> daddr \<Rightarrow> maddr \<Rightarrow> string \<Rightarrow> unit action" where
  "deadLetter io d a reason =
     swallow (andThen (reads (\<lambda>b. deadLetterQueue (redelivery_policy (dest_at b d)))) (\<lambda>dlq.
       case dlq of
         None \<Rightarrow> ret ()
       | Some q \<Rightarrow>
           andThen (reads (\<lambda>b. msg b a)) (\<lambda>m.
           andThen (new_msg (dead_copy reason m)) (\<lambda>c.
           andThen (reads (\<lambda>b. dest_at b q)) (\<lambda>Q.
           andThen (whenever (isPersistent m) (store_message io (dest_storage Q) c)) (\<lambda>_.
             case dest_queue Q of
               None \<Rightarrow> ret ()
             | Some qq \<Rightarrow> dest_enqueueOrSchedule q qq c))))))"

end
