(* ===== verification/Consumer.thy ===== *)
theory Consumer
  imports Dead_Letter
begin

text \<open>
  Consumers: \<open>Consumer.h\<close> and \<open>Consumer.cpp\<close>.  \<open>recv\<close> with its expiry check and in-flight tracking,
  acknowledgement, the redelivery path of \<open>recover\<close> and \<open>rollback\<close>, and the push side that copies and
  persists.  Delivered and unacknowledged messages form the intrusive doubly linked list of
  \<open>Message::InFlightLink\<close>, here the links in the messages of the heap.  The loops are partial functions,
  so that a loop that does not end is \<open>None\<close>.
\<close>

section \<open>Storage locations\<close>

text \<open>The record of a message: its cached location, else a lookup by UUID.\<close>

definition located_record :: "message \<Rightarrow> srecord" where
  "located_record m =
     default_record\<lparr>tomId := storageTomId m, offset := storageOffset m,
       rheader := (rheader default_record)\<lparr>huuid := uuid m\<rparr>\<rparr>"

definition resolve_record :: "io \<Rightarrow> caddr \<Rightarrow> maddr \<Rightarrow> srecord action" where
  "resolve_record io c a =
     andThen (reads (\<lambda>b. (msg b a, con_storage (consumer_at b c)))) (\<lambda>(m, s).
       if storageTomId m \<noteq> uint32_max then ret (located_record m)
       else on_storage s (cs_record (write_ok io) (uuid m)))"

definition remove_stored :: "io \<Rightarrow> caddr \<Rightarrow> maddr \<Rightarrow> unit action" where
  "remove_stored io c a =
     andThen (resolve_record io c a) (\<lambda>rec.
     andThen (reads (\<lambda>b. con_storage (consumer_at b c))) (\<lambda>s.
       whenever (tomId rec \<noteq> uint32_max) (remove_async s rec)))"

section \<open>Receiving\<close>

text \<open>When \<open>fromBytes\<close> throws half way the code leaves the message with the fields read so far; here it keeps those it had.  \<open>recv\<close>
  has taken the message from its queue by then and held the only pointer to it, so no later call sees the difference.\<close>

definition read_message :: "io \<Rightarrow> maddr \<Rightarrow> byte list \<Rightarrow> unit action" where
  "read_message io a bs b =
     (case fromBytes (services io) (msg b a) (drop 1 bs) of
        Inl e \<Rightarrow> throw (BadMessage e) b
      | Inr m \<Rightarrow> modify (upd_msg a (\<lambda>_. m)) b)"

text \<open>Restore a persistent message from its cached bytes, else from storage.\<close>

definition rehydrate :: "io \<Rightarrow> caddr \<Rightarrow> maddr \<Rightarrow> unit action" where
  "rehydrate io c a =
     andThen (reads (\<lambda>b. (msg b a, con_storage (consumer_at b c)))) (\<lambda>(m, s).
       if \<not> isPersistent m then ret ()
       else if cachedStorageBytes m \<noteq> [] then
         andThen (read_message io a (cachedStorageBytes m)) (\<lambda>_.
           modify (upd_msg a (\<lambda>m. m\<lparr>cachedStorageBytes := []\<rparr>)))
       else
         andThen (on_storage s (cs_record (write_ok io) (uuid m))) (\<lambda>rec.
           if tomId rec = uint32_max then ret ()
           else andThen (on_storage s (cs_data (write_ok io) rec)) (read_message io a)))"

definition check_expired :: "maddr \<Rightarrow> bool action" where
  "check_expired a =
     andThen (reads (\<lambda>b. msg b a)) (\<lambda>m.
       if expiration (jmsHeaders m) \<noteq> 0 then andThen nowMs (\<lambda>t. ret (isExpired m t)) else ret False)"

text \<open>Append at the tail of the in-flight chain.\<close>

definition link_inFlight :: "caddr \<Rightarrow> maddr \<Rightarrow> broker \<Rightarrow> broker" where
  "link_inFlight c a b =
     (let b1 = (case inFlightTail (consumer_at b c) of
                  Some t \<Rightarrow> upd_link a (\<lambda>l. l\<lparr>link_prev := Some t\<rparr>) (upd_link t (\<lambda>l. l\<lparr>link_next := Some a\<rparr>) b)
                | None \<Rightarrow> upd_consumer c (\<lambda>x. x\<lparr>inFlightHead := Some a\<rparr>) (upd_link a (\<lambda>l. l\<lparr>link_prev := None\<rparr>) b))
      in upd_link a (\<lambda>l. l\<lparr>link_owner := Some c\<rparr>) (upd_consumer c (\<lambda>x. x\<lparr>inFlightTail := Some a\<rparr>) b1))"

definition con_mode :: "broker \<Rightarrow> caddr \<Rightarrow> acknowledgeMode" where
  "con_mode b c = sess_mode (session_at b (con_session (consumer_at b c)))"

definition track :: "caddr \<Rightarrow> maddr \<Rightarrow> unit action" where
  "track c a b =
     (case con_transactQueue (consumer_at b c) of
        Some tq \<Rightarrow>
          if con_mode b c = SESSION_TRANSACTED then enqueue tq a b
          else if con_mode b c \<noteq> AUTO_ACKNOWLEDGE then modify (link_inFlight c a) b else ret () b
      | None \<Rightarrow>
          if con_mode b c \<noteq> AUTO_ACKNOWLEDGE then modify (link_inFlight c a) b else ret () b)"

datatype recv_result = Done "maddr option" | Again "int64 option" int64

text \<open>The remaining timeout after an expired message was dropped; the first drop starts the budget.\<close>

definition spend_budget :: "int64 \<Rightarrow> int64 option \<Rightarrow> int64 \<Rightarrow> recv_result action" where
  "spend_budget usec_timeout begun remaining =
     (if sint usec_timeout < 0 then ret (Again begun remaining)
      else
        andThen (case begun of None \<Rightarrow> epochMicroseconds | Some t \<Rightarrow> ret t) (\<lambda>t0.
        andThen epochMicroseconds (\<lambda>t.
          let remaining' = usec_timeout - (t - t0) in
          if sint remaining' \<le> 0 then ret (Done None) else ret (Again (Some t0) remaining'))))"

definition recv_step :: "io \<Rightarrow> caddr \<Rightarrow> int64 \<Rightarrow> int64 option \<Rightarrow> int64 \<Rightarrow> recv_result action" where
  "recv_step io c usec_timeout begun remaining =
     andThen (reads (\<lambda>b. con_queue (consumer_at b c))) (\<lambda>q.
     andThen (dequeue q) (\<lambda>r.
       case r of
         None \<Rightarrow> if sint remaining < 0 then (\<lambda>b. None) else ret (Done None)
       | Some a \<Rightarrow>
           andThen (rehydrate io c a) (\<lambda>_.
           andThen (check_expired a) (\<lambda>expired.
             if expired then
               andThen (reads (\<lambda>b. isPersistent (msg b a))) (\<lambda>p.
               andThen (whenever p (remove_stored io c a)) (\<lambda>_.
                 spend_budget usec_timeout begun remaining))
             else andThen (track c a) (\<lambda>_. ret (Done (Some a)))))))"

partial_function (option) recv_loop ::
  "io \<Rightarrow> caddr \<Rightarrow> int64 \<Rightarrow> int64 option \<Rightarrow> int64 \<Rightarrow> broker \<Rightarrow> ((broker_error + maddr option) \<times> broker) option" where
  "recv_loop io c usec_timeout begun remaining b =
     Option.bind (recv_step io c usec_timeout begun remaining b) (\<lambda>(r, b').
       case r of
         Inl e \<Rightarrow> Some (Inl e, b')
       | Inr res \<Rightarrow>
           (case res of
              Done a \<Rightarrow> Some (Inr a, b')
            | Again begun' remaining' \<Rightarrow> recv_loop io c usec_timeout begun' remaining' b'))"

declare recv_loop.simps [code]

definition recv :: "io \<Rightarrow> caddr \<Rightarrow> int64 \<Rightarrow> maddr option action" where
  "recv io c usec_timeout = recv_loop io c usec_timeout None usec_timeout"

section \<open>Acknowledging\<close>

definition flushPendingAcks :: "caddr \<Rightarrow> unit action" where
  "flushPendingAcks c =
     andThen (reads (\<lambda>b. consumer_at b c)) (\<lambda>x.
     andThen (each (pendingAcks x) (remove_async (con_storage x))) (\<lambda>_.
       modify (upd_consumer c (\<lambda>x. x\<lparr>pendingAcks := []\<rparr>))))"

text \<open>Splice a message out of this consumer's chain.\<close>

definition unlink_inFlight :: "caddr \<Rightarrow> maddr \<Rightarrow> broker \<Rightarrow> broker" where
  "unlink_inFlight c a b =
     (let prevPtr = link_prev (link (msg b a));
          nextPtr = link_next (link (msg b a));
          b1 = upd_link a (\<lambda>l. l\<lparr>link_next := None\<rparr>) b;
          b2 = (case prevPtr of
                  Some p \<Rightarrow> upd_link p (\<lambda>l. l\<lparr>link_next := nextPtr\<rparr>) b1
                | None \<Rightarrow> upd_consumer c (\<lambda>x. x\<lparr>inFlightHead := nextPtr\<rparr>) b1);
          b3 = (case nextPtr of
                  Some n \<Rightarrow> upd_link n (\<lambda>l. l\<lparr>link_prev := prevPtr\<rparr>) b2
                | None \<Rightarrow> upd_consumer c (\<lambda>x. x\<lparr>inFlightTail := prevPtr\<rparr>) b2)
      in upd_link a (\<lambda>l. l\<lparr>link_prev := None, link_owner := None\<rparr>) b3)"

definition kDupsOkBatch :: nat where
  "kDupsOkBatch = 100"

definition acknowledgeOn :: "io \<Rightarrow> caddr \<Rightarrow> maddr \<Rightarrow> unit action" where
  "acknowledgeOn io c a =
     andThen (reads (\<lambda>b. con_mode b c)) (\<lambda>mode.
       if mode = SESSION_TRANSACTED then ret ()
       else
         andThen (reads (\<lambda>b. link_owner (link (msg b a)) = Some c)) (\<lambda>mine.
         andThen (whenever mine (modify (unlink_inFlight c a))) (\<lambda>_.
         andThen (reads (\<lambda>b. isPersistent (msg b a))) (\<lambda>p.
           if \<not> p then ret ()
           else
             andThen (resolve_record io c a) (\<lambda>rec.
               if tomId rec = uint32_max then ret ()
               else if mode = DUPS_OK_ACKNOWLEDGE then
                 andThen (modify (upd_consumer c (\<lambda>x. x\<lparr>pendingAcks := pendingAcks x @ [rec]\<rparr>))) (\<lambda>_.
                 andThen (reads (\<lambda>b. length (pendingAcks (consumer_at b c)))) (\<lambda>n.
                   whenever (n \<ge> kDupsOkBatch) (flushPendingAcks c)))
               else andThen (reads (\<lambda>b. con_storage (consumer_at b c))) (\<lambda>s. remove_async s rec))))))"

section \<open>Redelivering\<close>

text \<open>\<open>std::pow(2.0, n)\<close> and the product of two non-negative doubles.\<close>

definition pow2_double :: "int \<Rightarrow> fp" where
  "pow2_double n = (if n > 1023 then FPosInf else if n < - 1074 then FFin 0 else FFin (2 powi n))"

fun mult_double :: "fp \<Rightarrow> fp \<Rightarrow> fp" where
  "mult_double (FFin x) (FFin y) = (let r = round_double (x * y) in if r \<ge> 2 ^ 1024 then FPosInf else FFin r)"
| "mult_double (FFin x) FPosInf = (if x = 0 then FNaN else FPosInf)"
| "mult_double _ _ = FNaN"

text \<open>\<open>static_cast<int64_t>\<close> of a double that is in range.\<close>

fun int64_of_double :: "fp \<Rightarrow> int64" where
  "int64_of_double (FFin x) = of_int (if x \<ge> 0 then floor x else ceiling x)"
| "int64_of_double _ = 0"

definition backoff_delay :: "redeliveryPolicy \<Rightarrow> int32 \<Rightarrow> int64" where
  "backoff_delay p dc =
     (let rawDelayMs = mult_double (double_of_int (sint (backoffMs p))) (pow2_double (sint (dc - 1)))
      in if fp_less rawDelayMs (double_of_int (sint (maxBackoffMs p))) then int64_of_double rawDelayMs
         else maxBackoffMs p)"

definition redeliver :: "io \<Rightarrow> caddr \<Rightarrow> maddr \<Rightarrow> bool \<Rightarrow> unit action" where
  "redeliver io c a sessionClosing =
     andThen (modify (upd_headers a (\<lambda>h. h\<lparr>redelivered := True, deliveryCount := deliveryCount h + 1\<rparr>))) (\<lambda>_.
     andThen (reads (\<lambda>b. (deliveryCount (jmsHeaders (msg b a)), consumer_at b c,
                          redelivery_policy (dest_at b (con_destination (consumer_at b c)))))) (\<lambda>(dc, x, policy).
       if sint (maxRedeliveries policy) \<ge> 0 \<and> sint dc > sint (maxRedeliveries policy) then
         andThen (deadLetter io (con_destination x) a ''maxRedeliveries exceeded'') (\<lambda>_.
         andThen (reads (\<lambda>b. isPersistent (msg b a))) (\<lambda>p.
           whenever p (remove_stored io c a)))
       else
         let applyBackoff = (\<not> sessionClosing \<and> sint (backoffMs policy) > 0) in
         andThen (if applyBackoff then andThen nowMs (\<lambda>t. ret (t + backoff_delay policy dc)) else ret 0) (\<lambda>t.
         andThen (modify (upd_headers a (\<lambda>h. h\<lparr>deliveryTime := t\<rparr>))) (\<lambda>_.
         andThen (modify (upd_msg a (refreshCachedStorageBytes (services io)))) (\<lambda>_.
           if applyBackoff then dest_enqueueOrSchedule (con_destination x) (con_queue x) a
           else enqueue (con_queue x) a)))))"

text \<open>\<open>recover\<close>: detach the chain, then walk it.\<close>

definition clear_link :: "maddr \<Rightarrow> broker \<Rightarrow> broker" where
  "clear_link a = upd_link a (\<lambda>_. no_link)"

partial_function (option) recover_nodes ::
  "io \<Rightarrow> caddr \<Rightarrow> maddr option \<Rightarrow> broker \<Rightarrow> ((broker_error + unit) \<times> broker) option" where
  "recover_nodes io c node b =
     (case node of
        None \<Rightarrow> Some (Inr (), b)
      | Some a \<Rightarrow>
          Option.bind (redeliver io c a False (clear_link a b)) (\<lambda>(r, b').
            case r of
              Inl e \<Rightarrow> Some (Inl e, b')
            | Inr _ \<Rightarrow> recover_nodes io c (link_next (link (msg b a))) b'))"

declare recover_nodes.simps [code]

definition detach_chain :: "caddr \<Rightarrow> broker \<Rightarrow> broker" where
  "detach_chain c = upd_consumer c (\<lambda>x. x\<lparr>inFlightHead := None, inFlightTail := None\<rparr>)"

definition consumer_recover :: "io \<Rightarrow> caddr \<Rightarrow> unit action" where
  "consumer_recover io c b = recover_nodes io c (inFlightHead (consumer_at b c)) (detach_chain c b)"

partial_function (option) clear_nodes :: "maddr option \<Rightarrow> broker \<Rightarrow> broker option" where
  "clear_nodes node b =
     (case node of
        None \<Rightarrow> Some b
      | Some a \<Rightarrow> clear_nodes (link_next (link (msg b a))) (clear_link a b))"

declare clear_nodes.simps [code]

definition clearInFlight :: "caddr \<Rightarrow> unit action" where
  "clearInFlight c b =
     map_option (\<lambda>b'. (Inr (), b')) (clear_nodes (inFlightHead (consumer_at b c)) (detach_chain c b))"

text \<open>\<open>rollback\<close> drains the messages of the open transaction; \<open>commit\<close> removes their records.\<close>

definition consumer_rollback :: "io \<Rightarrow> caddr \<Rightarrow> bool \<Rightarrow> unit action" where
  "consumer_rollback io c sessionClosing b =
     (case con_transactQueue (consumer_at b c) of
        None \<Rightarrow> ret () b
      | Some tq \<Rightarrow> drain tq (\<lambda>a. redeliver io c a sessionClosing) b)"

definition consumer_commit :: "io \<Rightarrow> caddr \<Rightarrow> unit action" where
  "consumer_commit io c b =
     (case con_transactQueue (consumer_at b c) of
        None \<Rightarrow> ret () b
      | Some tq \<Rightarrow> drain tq (\<lambda>a b. whenever (isPersistent (msg b a)) (remove_stored io c a) b) b)"

text \<open>The destructor.\<close>

definition destroy_consumer :: "io \<Rightarrow> caddr \<Rightarrow> unit action" where
  "destroy_consumer io c =
     andThen (flushPendingAcks c) (\<lambda>_.
     andThen (swallow (consumer_rollback io c False)) (\<lambda>_.
       clearInFlight c))"

section \<open>Creating and pushing\<close>

definition new_consumer ::
  "daddr \<Rightarrow> sessaddr \<Rightarrow> qaddr \<Rightarrow> uuid \<Rightarrow> saddr \<Rightarrow> sel_expr option \<Rightarrow> caddr action" where
  "new_consumer d s q u sto sel =
     andThen (reads (\<lambda>b. sess_mode (session_at b s))) (\<lambda>mode.
     andThen (if mode = SESSION_TRANSACTED then andThen new_queue (\<lambda>tq. ret (Some tq)) else ret None) (\<lambda>tq.
     andThen (reads next_consumer) (\<lambda>c.
     andThen (modify (\<lambda>b. b\<lparr>next_consumer := Suc c, consumer_at := (consumer_at b)(c :=
         \<lparr>con_uuid = u, con_destination = d, con_queue = q, con_session = s, con_transactQueue = tq,
          con_storage = sto, con_selector = sel, pendingAcks = [], inFlightHead = None, inFlightTail = None\<rparr>)\<rparr>)) (\<lambda>_.
       ret c))))"

definition transactionId :: "broker \<Rightarrow> paddr \<Rightarrow> string" where
  "transactionId b p = suffix (session_at b (prod_session (producer_at b p)))"

definition preparePush :: "io \<Rightarrow> caddr \<Rightarrow> int64 \<Rightarrow> paddr \<Rightarrow> maddr \<Rightarrow> maddr action" where
  "preparePush io c n p a =
     andThen (reads (\<lambda>b. message_copy (msg b a))) (\<lambda>m.
     andThen (if uuid m = 0 then createRandomUUID else ret (uuid m)) (\<lambda>u.
     andThen (new_msg (m\<lparr>uuid := u, number := n\<rparr>)) (\<lambda>k.
     andThen (reads (\<lambda>b. (transactionId b p, consumer_at b c))) (\<lambda>(tx, x).
       if \<not> isPersistent m then ret k
       else if tx \<noteq> [] then
         andThen (modify (upd_msg k (\<lambda>m. m\<lparr>cachedStorageBytes := storage_bytes (services io) m\<rparr>))) (\<lambda>_.
         andThen (reads (\<lambda>b. cachedStorageBytes (msg b k))) (\<lambda>dat.
         andThen (on_buffer (con_destination x) (addMessage (services io) (log_ok io) (stamp io) tx u dat)) (\<lambda>_.
           ret k)))
       else andThen (store_message io (con_storage x) k) (\<lambda>_. ret k)))))"

definition push :: "io \<Rightarrow> caddr \<Rightarrow> int64 \<Rightarrow> paddr \<Rightarrow> maddr \<Rightarrow> unit action" where
  "push io c n p a =
     andThen (reads (\<lambda>b. (con_selector (consumer_at b c), msg b a))) (\<lambda>(sel, m).
       if (case sel of None \<Rightarrow> False | Some e \<Rightarrow> \<not> selector_matches e m) then ret ()
       else
         andThen (preparePush io c n p a) (\<lambda>k.
         andThen (reads (\<lambda>b. (transactionId b p, consumer_at b c, deliveryTime (jmsHeaders (msg b k)),
                              prod_transactQueue (producer_at b p)))) (\<lambda>(tx, x, t, ptq).
           if tx = [] then
             (if t \<noteq> 0 then dest_enqueueOrSchedule (con_destination x) (con_queue x) k else enqueue (con_queue x) k)
           else
             (case ptq of None \<Rightarrow> throw UndefinedBehaviour | Some tq \<Rightarrow> enqueue tq k))))"

section \<open>The in-flight chain\<close>

definition lk :: "broker \<Rightarrow> maddr \<Rightarrow> inFlightLink" where
  "lk b a = link (msg b a)"

text \<open>A segment of a doubly linked list: \<open>p\<close> is before its first element and \<open>e\<close> behind its last.\<close>

fun seg :: "(maddr \<Rightarrow> inFlightLink) \<Rightarrow> caddr \<Rightarrow> maddr option \<Rightarrow> maddr list \<Rightarrow> maddr option \<Rightarrow> bool" where
  "seg l c p [] e = True"
| "seg l c p (a # as) e =
     (l a = \<lparr>link_next = (case as of [] \<Rightarrow> e | x # _ \<Rightarrow> Some x), link_prev = p, link_owner = Some c\<rparr> \<and> seg l c (Some a) as e)"

definition last_or :: "maddr option \<Rightarrow> maddr list \<Rightarrow> maddr option" where
  "last_or p as = (if as = [] then p else Some (last as))"

definition head_or :: "maddr list \<Rightarrow> maddr option \<Rightarrow> maddr option" where
  "head_or as e = (case as of [] \<Rightarrow> e | x # _ \<Rightarrow> Some x)"

lemma ends [simp]: "last_or p [] = p" "last_or p (as @ [a]) = Some a" "head_or [] e = e" "head_or (a # as) e = Some a"
  "last_or p (a # as) = last_or (Some a) as"
  by (simp_all add: last_or_def head_or_def)

lemma last_or_append: "last_or p (xs @ ys) = last_or (last_or p xs) ys"
  by (simp add: last_or_def)

lemma head_or_append: "head_or (xs @ ys) e = head_or xs (head_or ys e)"
  by (cases xs) simp_all

lemma seg_append: "seg l c p (xs @ ys) e \<longleftrightarrow> seg l c p xs (head_or ys e) \<and> seg l c (last_or p xs) ys e"
proof (induction xs arbitrary: p)
  case (Cons a as)
  have "(case as @ ys of [] \<Rightarrow> e | x # _ \<Rightarrow> Some x) = (case as of [] \<Rightarrow> head_or ys e | x # _ \<Rightarrow> Some x)"
    by (cases as; cases ys) (simp_all add: head_or_def)
  with Cons show ?case by simp
qed simp

lemma seg_other: "a \<notin> set as \<Longrightarrow> seg (l(a := v)) c p as e = seg l c p as e"
  by (induction as arbitrary: p) auto

lemma seg_cong: "(\<And>a. a \<in> set as \<Longrightarrow> l a = l' a) \<Longrightarrow> seg l c p as e = seg l' c p as e"
  by (induction as arbitrary: p) auto

lemma seg_owner: "seg l c p as e \<Longrightarrow> a \<in> set as \<Longrightarrow> link_owner (l a) = Some c"
  by (induction as arbitrary: p) auto

text \<open>The messages in flight at a consumer, in the order of their receipt.\<close>

definition in_flight :: "broker \<Rightarrow> caddr \<Rightarrow> maddr list \<Rightarrow> bool" where
  "in_flight b c as \<longleftrightarrow>
     distinct as \<and> inFlightHead (consumer_at b c) = head_or as None \<and> inFlightTail (consumer_at b c) = last_or None as \<and>
     seg (lk b) c None as None \<and> (\<forall>a. link_owner (lk b a) = Some c \<longrightarrow> a \<in> set as)"

lemma msg_upd_msg [simp]: "msg (upd_msg a f b) x = (if x = a then f (msg b a) else msg b x)"
  by (simp add: msg_def upd_msg_def)

lemma consumer_upd [simp]:
  "consumer_at (upd_msg a f b) = consumer_at b" "consumer_at (upd_link a g b) = consumer_at b"
  "consumer_at (upd_consumer c h b) = (consumer_at b)(c := h (consumer_at b c))"
  by (simp_all add: upd_link_def upd_msg_def upd_consumer_def)

lemma lk_upd [simp]:
  "lk (upd_link a g b) = (lk b)(a := g (lk b a))" "lk (upd_consumer c h b) = lk b"
  by (auto simp: lk_def upd_link_def fun_eq_iff) (simp add: upd_consumer_def msg_def)

lemma in_flight_owner: "in_flight b c as \<Longrightarrow> link_owner (lk b a) = Some c \<longleftrightarrow> a \<in> set as"
  by (auto simp: in_flight_def dest: seg_owner)

lemma in_flight_cong:
  assumes "inFlightHead (consumer_at b' c) = inFlightHead (consumer_at b c)"
    "inFlightTail (consumer_at b' c) = inFlightTail (consumer_at b c)" "lk b' = lk b"
  shows "in_flight b' c as = in_flight b c as"
  using assms by (simp add: in_flight_def)

lemma link_inFlight_state:
  "lk (link_inFlight c a b) =
     (let t = inFlightTail (consumer_at b c);
          l1 = (case t of None \<Rightarrow> lk b | Some x \<Rightarrow> (lk b)(x := (lk b x)\<lparr>link_next := Some a\<rparr>))
      in l1(a := (l1 a)\<lparr>link_prev := t, link_owner := Some c\<rparr>))"
  "consumer_at (link_inFlight c a b) =
     (consumer_at b)(c := (case inFlightTail (consumer_at b c) of
         None \<Rightarrow> consumer_at b c\<lparr>inFlightHead := Some a, inFlightTail := Some a\<rparr>
       | Some _ \<Rightarrow> consumer_at b c\<lparr>inFlightTail := Some a\<rparr>))"
  by (auto simp: link_inFlight_def Let_def split: option.splits)

lemma link_inFlight_chain:
  assumes "in_flight b c as" "lk b a = no_link"
  shows "in_flight (link_inFlight c a b) c (as @ [a])"
proof -
  have a: "a \<notin> set as" using in_flight_owner [OF assms(1), of a] assms(2) by (simp add: no_link_def)
  note f = assms(1) [unfolded in_flight_def]
  show ?thesis
  proof (cases as rule: rev_cases)
    case Nil
    with f a assms(2) show ?thesis
      by (auto simp: in_flight_def link_inFlight_state Let_def no_link_def)
  next
    case (snoc xs t)
    with f a assms(2) show ?thesis
      by (auto simp: in_flight_def link_inFlight_state Let_def no_link_def seg_append seg_other head_or_append last_or_append)
  qed
qed

lemma link_inFlight_other:
  assumes "in_flight b c as" "in_flight b d xs" "lk b a = no_link" "d \<noteq> c"
  shows "in_flight (link_inFlight c a b) d xs"
proof -
  have a: "a \<notin> set xs" using in_flight_owner [OF assms(2), of a] assms(3) by (simp add: no_link_def)
  have t: "t \<notin> set xs" if "inFlightTail (consumer_at b c) = Some t" for t
  proof -
    have "t \<in> set as" using that assms(1) by (auto simp: in_flight_def last_or_def split: if_splits)
    then have "link_owner (lk b t) = Some c" using in_flight_owner [OF assms(1)] by blast
    with in_flight_owner [OF assms(2), of t] assms(4) show ?thesis by auto
  qed
  have o: "link_owner (lk (link_inFlight c a b) x) = Some d \<longrightarrow> link_owner (lk b x) = Some d" for x
    using assms(4) by (auto simp: link_inFlight_state Let_def split: option.splits)
  have "seg (lk (link_inFlight c a b)) d None xs None = seg (lk b) d None xs None"
    using a t by (intro seg_cong) (auto simp: link_inFlight_state Let_def split: option.splits)
  with assms(2,4) o show ?thesis by (auto simp: in_flight_def link_inFlight_state)
qed

lemma seg_set_next:
  "seg l c q (ws @ [p]) e \<Longrightarrow> p \<notin> set ws \<Longrightarrow> seg (l(p := (l p)\<lparr>link_next := e'\<rparr>)) c q (ws @ [p]) e'"
  by (simp add: seg_append seg_other)

lemma seg_set_prev:
  "seg l c q (n # zs) e \<Longrightarrow> n \<notin> set zs \<Longrightarrow> seg (l(n := (l n)\<lparr>link_prev := q'\<rparr>)) c q' (n # zs) e"
  by (simp add: seg_other)

text \<open>What a splice does to the links: the neighbours are joined, the element itself is untracked.\<close>

definition join_next :: "maddr option \<Rightarrow> maddr option \<Rightarrow> (maddr \<Rightarrow> inFlightLink) \<Rightarrow> maddr \<Rightarrow> inFlightLink" where
  "join_next p n l = (case p of None \<Rightarrow> l | Some x \<Rightarrow> l(x := (l x)\<lparr>link_next := n\<rparr>))"

definition join_prev :: "maddr option \<Rightarrow> maddr option \<Rightarrow> (maddr \<Rightarrow> inFlightLink) \<Rightarrow> maddr \<Rightarrow> inFlightLink" where
  "join_prev p n l = (case n of None \<Rightarrow> l | Some x \<Rightarrow> l(x := (l x)\<lparr>link_prev := p\<rparr>))"

lemma unlink_inFlight_state:
  assumes "link_prev (lk b a) = p" "link_next (lk b a) = n" "p \<noteq> Some a" "n \<noteq> Some a"
  shows "lk (unlink_inFlight c a b) = (join_prev p n (join_next p n (lk b)))(a := no_link)"
    "inFlightHead (consumer_at (unlink_inFlight c a b) c) = (if p = None then n else inFlightHead (consumer_at b c))"
    "inFlightTail (consumer_at (unlink_inFlight c a b) c) = (if n = None then p else inFlightTail (consumer_at b c))"
    "d \<noteq> c \<Longrightarrow> consumer_at (unlink_inFlight c a b) d = consumer_at b d"
  using assms
  by (auto simp: unlink_inFlight_def join_prev_def join_next_def lk_def [symmetric] no_link_def Let_def fun_eq_iff
      split: option.splits)

lemma join_other:
  "x \<noteq> a \<Longrightarrow> p \<noteq> Some x \<Longrightarrow> n \<noteq> Some x \<Longrightarrow> ((join_prev p n (join_next p n l))(a := v)) x = l x"
  by (auto simp: join_prev_def join_next_def split: option.splits)

lemma join_owner: "x \<noteq> a \<Longrightarrow> link_owner (((join_prev p n (join_next p n l))(a := v)) x) = link_owner (l x)"
  by (auto simp: join_prev_def join_next_def split: option.splits)

lemma seg_join:
  assumes "seg l c None (xs @ a # ys) None" "distinct (xs @ a # ys)"
  shows "seg ((join_prev (last_or None xs) (head_or ys None) (join_next (last_or None xs) (head_or ys None) l))(a := v))
    c None (xs @ ys) None"
proof -
  have s: "seg l c None xs (Some a)" "seg l c (Some a) ys None"
    using assms(1) by (simp_all add: seg_append)
  let ?l1 = "join_next (last_or None xs) (head_or ys None) l"
  let ?l2 = "join_prev (last_or None xs) (head_or ys None) ?l1"
  have a1: "seg ?l1 c None xs (head_or ys None)"
    using s(1) assms(2) by (cases xs rule: rev_cases) (simp_all add: join_next_def seg_set_next)
  have a2: "seg ?l1 c (Some a) ys None"
    using s(2) assms(2) by (cases xs rule: rev_cases) (auto simp: join_next_def seg_other)
  have "seg ?l2 c None xs (head_or ys None)"
    using a1 assms(2) by (cases ys) (auto simp: join_prev_def seg_other)
  moreover have "seg ?l2 c (last_or None xs) ys None"
  proof (cases ys)
    case (Cons n zs)
    then show ?thesis using seg_set_prev [of ?l1 c "Some a" n zs None] a2 assms(2) by (simp add: join_prev_def)
  qed simp
  ultimately show ?thesis using assms(2) by (simp add: seg_append seg_other)
qed

lemma unlink_inFlight_chain:
  assumes "in_flight b c (xs @ a # ys)"
  shows "in_flight (unlink_inFlight c a b) c (xs @ ys)" "lk (unlink_inFlight c a b) a = no_link"
    "in_flight b d zs \<Longrightarrow> d \<noteq> c \<Longrightarrow> in_flight (unlink_inFlight c a b) d zs"
proof -
  note f = assms [unfolded in_flight_def]
  let ?p = "last_or None xs" let ?n = "head_or ys None"
  have l: "link_next (lk b a) = ?n" "link_prev (lk b a) = ?p"
    using f by (simp_all add: seg_append head_or_def)
  have ne: "?p \<noteq> Some a" "?n \<noteq> Some a"
    using f by (auto simp add: last_or_def, auto simp add: head_or_def split: list.splits)
  note st = unlink_inFlight_state [OF l(2,1) ne]
  show "lk (unlink_inFlight c a b) a = no_link" by (simp add: st(1))
  have ends: "(if ?p = None then ?n else head_or (xs @ a # ys) None) = head_or (xs @ ys) None"
    by (cases xs) (simp_all add: last_or_def)
  have ends2: "(if ?n = None then ?p else last_or None (xs @ a # ys)) = last_or None (xs @ ys)"
    by (cases ys) (simp_all add: last_or_def)
  have own: "link_owner (lk (unlink_inFlight c a b) x) = Some c \<longrightarrow> x \<in> set (xs @ ys)" for x
  proof (cases "x = a")
    case False
    then have "link_owner (lk (unlink_inFlight c a b) x) = link_owner (lk b x)" unfolding st(1) by (rule join_owner)
    with in_flight_owner [OF assms, of x] False show ?thesis by auto
  qed (simp add: st(1) no_link_def)
  have "seg (lk (unlink_inFlight c a b)) c None (xs @ ys) None"
    unfolding st(1) using f by (intro seg_join) simp_all
  moreover have h: "inFlightHead (consumer_at b c) = head_or (xs @ a # ys) None"
    "inFlightTail (consumer_at b c) = last_or None (xs @ a # ys)" using f by blast+
  moreover have "inFlightHead (consumer_at (unlink_inFlight c a b) c) = head_or (xs @ ys) None"
    unfolding st(2) h by (rule ends)
  moreover have "inFlightTail (consumer_at (unlink_inFlight c a b) c) = last_or None (xs @ ys)"
    unfolding st(3) h by (rule ends2)
  moreover have "distinct (xs @ ys)" using f by simp
  ultimately show "in_flight (unlink_inFlight c a b) c (xs @ ys)"
    using own by (simp add: in_flight_def)
  assume d: "in_flight b d zs" "d \<noteq> c"
  have nb: "x \<noteq> a" "?p \<noteq> Some x" "?n \<noteq> Some x" if "x \<in> set zs" for x
  proof -
    have "link_owner (lk b x) = Some d" using in_flight_owner [OF d(1)] that by blast
    then have "x \<notin> set (xs @ a # ys)" using in_flight_owner [OF assms, of x] d(2) by auto
    then show "x \<noteq> a" "?p \<noteq> Some x" "?n \<noteq> Some x" by (auto simp: last_or_def head_or_def split: list.splits)
  qed
  have "seg (lk (unlink_inFlight c a b)) d None zs None = seg (lk b) d None zs None"
    unfolding st(1) using nb by (intro seg_cong join_other)
  moreover have "link_owner (lk (unlink_inFlight c a b) x) = Some d \<longrightarrow> x \<in> set zs" for x
  proof (cases "x = a")
    case False
    then have "link_owner (lk (unlink_inFlight c a b) x) = link_owner (lk b x)" unfolding st(1) by (rule join_owner)
    with in_flight_owner [OF d(1), of x] show ?thesis by simp
  qed (simp add: st(1) no_link_def)
  ultimately show "in_flight (unlink_inFlight c a b) d zs" using d by (simp add: in_flight_def st)
qed

end
