(* ===== verification/Destination.thy ===== *)
theory Destination
  imports Consumer
begin

text \<open>
  Destinations: \<open>Destination.h\<close> and \<open>Destination.cpp\<close>.  Routing of sent and of committed messages to the
  consumers and to the storages of offline durable subscriptions, the replay of stored messages, and the
  registries of consumers, producers and durable subscriptions.
\<close>

section \<open>Construction\<close>

definition uri_of :: "dest_type \<Rightarrow> string \<Rightarrow> string" where
  "uri_of t n = TypeName t @ ''://'' @ n"

definition dest_hash_of :: "io \<Rightarrow> dest_type \<Rightarrow> string \<Rightarrow> uint64" where
  "dest_hash_of io t n = poco_hash io (uri_of t n)"

definition new_destination :: "io \<Rightarrow> dest_type \<Rightarrow> string \<Rightarrow> string \<Rightarrow> daddr action" where
  "new_destination io t n path =
     andThen (new_storage path) (\<lambda>sto.
     andThen (reads (\<lambda>b. (disk_log b path, next_dest b))) (\<lambda>(txt, d).
       case recover (services io) (log_ok io) (stamp io) (new_txBuffer (log_tokens io) (services io) txt) of
         (False, _) \<Rightarrow> throw LogFailure
       | (True, tb) \<Rightarrow>
           andThen (modify (\<lambda>b. b\<lparr>next_dest := Suc d, dest_at := (dest_at b)(d :=
             \<lparr>dest_type = t, dest_name = n, dest_path = path, dest_uri = uri_of t n, dest_hash = dest_hash_of io t n,
              messageCounter = 0, dest_consumers = [], dest_producers = [], dest_queue = None, defaultConsumer = None,
              dest_storage = sto, transactionBuffer = tb, dest_scheduler = new_scheduler, durableSubs = [],
              consumerToSubName = [], redelivery_policy = default_policy\<rparr>)\<rparr>)) (\<lambda>_.
             ret d)))"

text \<open>The destructor: the consumers and producers are released, and the scheduler stops.\<close>

definition destroy_destination :: "daddr \<Rightarrow> unit action" where
  "destroy_destination d =
     modify (upd_dest d (\<lambda>x. x\<lparr>dest_consumers := [], dest_producers := [], dest_scheduler := sched_stop (dest_scheduler x)\<rparr>))"

section \<open>Routing\<close>

definition persistToOfflineSub :: "io \<Rightarrow> durableSubState \<Rightarrow> maddr \<Rightarrow> unit action" where
  "persistToOfflineSub io sub a =
     andThen (reads (\<lambda>b. message_copy (msg b a))) (\<lambda>m.
     andThen (if uuid m = 0 then createRandomUUID else ret (uuid m)) (\<lambda>u.
     andThen (on_storage (sub_storage sub) (cs_append (write_ok io) u (storage_bytes (services io) (m\<lparr>uuid := u\<rparr>)))) (\<lambda>_.
       ret ())))"

definition sub_wants :: "message \<Rightarrow> durableSubState \<Rightarrow> bool" where
  "sub_wants m sub \<longleftrightarrow>
     activeConsumerUuid sub = 0 \<and> (case sub_selector sub of None \<Rightarrow> True | Some e \<Rightarrow> selector_matches e m)"

definition buffer_offline :: "io \<Rightarrow> daddr \<Rightarrow> maddr \<Rightarrow> unit action" where
  "buffer_offline io d a =
     andThen (reads (\<lambda>b. iter_map (iter_names io) (durableSubs (dest_at b d)))) (\<lambda>subs.
       each subs (\<lambda>sub.
         andThen (reads (\<lambda>b. msg b a)) (\<lambda>m. whenever (sub_wants m sub) (persistToOfflineSub io sub a))))"

definition dest_targets :: "io \<Rightarrow> daddr \<Rightarrow> broker \<Rightarrow> caddr list" where
  "dest_targets io d b =
     (let cs = iter_map (iter_ids io) (dest_consumers (dest_at b d))
      in if isQueueFamily (dest_at b d) then take 1 cs else cs)"

definition save :: "io \<Rightarrow> daddr \<Rightarrow> paddr \<Rightarrow> maddr \<Rightarrow> unit action" where
  "save io d p a =
     andThen (reads (\<lambda>b. messageCounter (dest_at b d))) (\<lambda>n.
     andThen (modify (upd_dest d (\<lambda>x. x\<lparr>messageCounter := n + 1\<rparr>))) (\<lambda>_.
     andThen (reads (dest_targets io d)) (\<lambda>cs.
     andThen (each cs (\<lambda>c. push io c n p a)) (\<lambda>_.
     andThen (reads (\<lambda>b. isTopicFamily (dest_at b d) \<and> isPersistent (msg b a) \<and> transactionId b p = [])) (\<lambda>off.
       whenever off (buffer_offline io d a))))))"

definition deliverCommitted :: "io \<Rightarrow> daddr \<Rightarrow> maddr \<Rightarrow> unit action" where
  "deliverCommitted io d a =
     andThen (reads (\<lambda>b. (isQueueFamily (dest_at b d), dest_targets io d b))) (\<lambda>(queueFamily, cs).
     andThen (each cs (\<lambda>c.
       andThen (reads (\<lambda>b. (con_queue (consumer_at b c), message_copy (msg b a)))) (\<lambda>(q, m).
         if queueFamily then dest_enqueueOrSchedule d q a
         else andThen (new_msg m) (dest_enqueueOrSchedule d q)))) (\<lambda>_.
     andThen (reads (\<lambda>b. isTopicFamily (dest_at b d) \<and> isPersistent (msg b a))) (\<lambda>off.
       whenever off (buffer_offline io d a))))"

definition dest_commitTransaction :: "io \<Rightarrow> daddr \<Rightarrow> string \<Rightarrow> unit action" where
  "dest_commitTransaction io d tx b =
     (if tx = [] then ret () b
      else
        let s = dest_storage (dest_at b d) in
        case commitTransaction (services io) (log_ok io) (write_ok io) (stamp io) tx
               (transactionBuffer (dest_at b d), Some (storage_at b s)) of
          None \<Rightarrow> None
        | Some (ok, tb, sto) \<Rightarrow>
            Some (if ok then Inr () else Inl LogFailure,
              (upd_dest d (\<lambda>x. x\<lparr>transactionBuffer := tb\<rparr>) b)
                \<lparr>storage_at := (case sto of None \<Rightarrow> storage_at b | Some cs \<Rightarrow> (storage_at b)(s := cs))\<rparr>))"

definition dest_rollbackTransaction :: "io \<Rightarrow> daddr \<Rightarrow> string \<Rightarrow> unit action" where
  "dest_rollbackTransaction io d tx =
     whenever (tx \<noteq> []) (on_buffer d (rollbackTransaction (services io) (log_ok io) (stamp io) tx))"

definition patchPendingDeliveryTime :: "daddr \<Rightarrow> uuid \<Rightarrow> int64 \<Rightarrow> unit action" where
  "patchPendingDeliveryTime d u t =
     modify (upd_dest d (\<lambda>x. x\<lparr>transactionBuffer := patchDeliveryTime u t (transactionBuffer x)\<rparr>))"

section \<open>Replay\<close>

text \<open>\<open>deliveryTimeFromStorageBytes\<close> reads the clock only for a well-formed, non-negative time.\<close>

definition replayed_time :: "byte list \<Rightarrow> int64 action" where
  "replayed_time dat =
     (if length dat \<ge> 51 \<and> dat ! 1 = 2 \<and> sint (read64 dat 43) \<ge> 0
      then andThen nowMs (\<lambda>t. ret (deliveryTimeFromStorageBytes t dat))
      else ret (deliveryTimeFromStorageBytes 0 dat))"

definition replayed_message :: "srecord \<Rightarrow> byte list \<Rightarrow> int64 \<Rightarrow> message \<Rightarrow> message" where
  "replayed_message rec dat t shell =
     (patchCachedDeliveryTime t
       (shell\<lparr>uuid := huuid (rheader rec), reliability := PERSISTENT, cachedStorageBytes := dat,
         jmsHeaders := (jmsHeaders shell)\<lparr>priority := priorityFromStorageBytes dat, deliveryTime := t\<rparr>\<rparr>))
       \<lparr>storageTomId := tomId rec, storageOffset := offset rec\<rparr>"

definition replay_record :: "qaddr \<Rightarrow> daddr \<Rightarrow> srecord \<times> byte list \<Rightarrow> unit action" where
  "replay_record q d = (\<lambda>(rec, dat).
     case dat of
       [] \<Rightarrow> ret ()
     | ty # _ \<Rightarrow>
         (case makeMessageShell ty of
            None \<Rightarrow> ret ()
          | Some shell \<Rightarrow>
              andThen (replayed_time dat) (\<lambda>t.
              andThen (new_msg (replayed_message rec dat t shell)) (\<lambda>k.
                dest_enqueueOrSchedule d q k))))"

definition replayFromStorage :: "io \<Rightarrow> qaddr \<Rightarrow> saddr \<Rightarrow> daddr \<Rightarrow> unit action" where
  "replayFromStorage io q s d =
     andThen (on_storage s (cs_scan (write_ok io))) (\<lambda>records. each records (replay_record q d))"

definition replayStoredMessages :: "io \<Rightarrow> daddr \<Rightarrow> qaddr \<Rightarrow> unit action" where
  "replayStoredMessages io d q =
     andThen (reads (\<lambda>b. dest_storage (dest_at b d))) (\<lambda>s. replayFromStorage io q s d)"

section \<open>Consumers and producers\<close>

definition createDefaultConsumer :: "daddr \<Rightarrow> sessaddr \<Rightarrow> caddr option action" where
  "createDefaultConsumer d s =
     andThen (reads (\<lambda>b. dest_at b d)) (\<lambda>D.
     andThen (whenever (isQueueFamily D)
       (andThen (case dest_queue D of
           Some q \<Rightarrow> ret q
         | None \<Rightarrow> andThen new_queue (\<lambda>q. andThen (modify (upd_dest d (\<lambda>x. x\<lparr>dest_queue := Some q\<rparr>))) (\<lambda>_. ret q))) (\<lambda>q.
       andThen createRandomUUID (\<lambda>u.
       andThen (new_consumer d s q u (dest_storage D) None) (\<lambda>c.
         modify (upd_dest d (\<lambda>x. x\<lparr>defaultConsumer := Some c, dest_consumers := al_emplace u c (dest_consumers x)\<rparr>))))))) (\<lambda>_.
       reads (\<lambda>b. defaultConsumer (dest_at b d))))"

text \<open>\<open>_consumers.emplace\<close>, which answers null when the id is taken.\<close>

definition add_consumer :: "daddr \<Rightarrow> uuid \<Rightarrow> caddr \<Rightarrow> caddr option action" where
  "add_consumer d u c =
     andThen (reads (\<lambda>b. u \<in> set (al_keys (dest_consumers (dest_at b d))))) (\<lambda>taken.
       if taken then ret None
       else andThen (modify (upd_dest d (\<lambda>x. x\<lparr>dest_consumers := al_emplace u c (dest_consumers x)\<rparr>))) (\<lambda>_. ret (Some c)))"

definition drop_default_consumer :: "daddr \<Rightarrow> unit action" where
  "drop_default_consumer d b =
     (case defaultConsumer (dest_at b d) of
        None \<Rightarrow> ret () b
      | Some c \<Rightarrow>
          modify (upd_dest d (\<lambda>x. x\<lparr>defaultConsumer := None,
            dest_consumers := al_erase (con_uuid (consumer_at b c)) (dest_consumers x)\<rparr>)) b)"

definition createConsumer :: "io \<Rightarrow> daddr \<Rightarrow> sessaddr \<Rightarrow> sel_expr option \<Rightarrow> caddr option action" where
  "createConsumer io d s sel =
     andThen createRandomUUID (\<lambda>u.
     andThen (reads (\<lambda>b. dest_at b d)) (\<lambda>D.
     andThen (if isQueueFamily D then
         andThen (drop_default_consumer d) (\<lambda>_.
           case dest_queue D of
             None \<Rightarrow> throw UndefinedBehaviour
           | Some q \<Rightarrow>
               andThen (new_consumer d s q u (dest_storage D) sel) (\<lambda>c.
               andThen (replayStoredMessages io d q) (\<lambda>_. ret c)))
       else andThen new_queue (\<lambda>q. new_consumer d s q u (dest_storage D) sel)) (\<lambda>c.
       add_consumer d u c)))"

definition deleteConsumer :: "daddr \<Rightarrow> uuid \<Rightarrow> unit action" where
  "deleteConsumer d u =
     modify (upd_dest d (\<lambda>x.
       let x1 = x\<lparr>dest_consumers := al_erase u (dest_consumers x)\<rparr> in
       case map_of (consumerToSubName x1) u of
         None \<Rightarrow> x1
       | Some key \<Rightarrow>
           (case map_of (durableSubs x1) key of
              None \<Rightarrow> x1
            | Some sub \<Rightarrow> x1\<lparr>durableSubs := al_update key (sub\<lparr>activeConsumerUuid := 0\<rparr>) (durableSubs x1)\<rparr>)
             \<lparr>consumerToSubName := al_erase u (consumerToSubName x1)\<rparr>))"

definition new_producer :: "daddr \<Rightarrow> sessaddr \<Rightarrow> uuid \<Rightarrow> bool \<Rightarrow> paddr action" where
  "new_producer d s u tok =
     andThen (reads (\<lambda>b. sess_mode (session_at b s))) (\<lambda>mode.
     andThen (if mode = SESSION_TRANSACTED then andThen new_queue (\<lambda>tq. ret (Some tq)) else ret None) (\<lambda>tq.
     andThen (reads next_producer) (\<lambda>p.
     andThen (modify (\<lambda>b. b\<lparr>next_producer := Suc p, producer_at := (producer_at b)(p :=
         \<lparr>prod_uuid = u, prod_destination = d, prod_session = s, prod_token = tok, prod_transactQueue = tq,
          disableMessageID = False, disableMessageTimestamp = False, prod_default = None\<rparr>)\<rparr>)) (\<lambda>_.
       ret p))))"

definition createProducer :: "io \<Rightarrow> daddr \<Rightarrow> sessaddr \<Rightarrow> paddr option action" where
  "createProducer io d s =
     andThen (reads (\<lambda>b. dest_at b d)) (\<lambda>D.
       if isQueueFamily D \<and> dest_consumers D = [] then throw UndefinedBehaviour
       else
         andThen createRandomUUID (\<lambda>u.
         andThen (new_producer d s u (isQueueFamily D)) (\<lambda>p.
           if u \<in> set (al_keys (dest_producers D)) then ret None
           else andThen (modify (upd_dest d (\<lambda>x. x\<lparr>dest_producers := al_emplace u p (dest_producers x)\<rparr>))) (\<lambda>_. ret (Some p)))))"

definition deleteProducer :: "daddr \<Rightarrow> uuid \<Rightarrow> unit action" where
  "deleteProducer d u = modify (upd_dest d (\<lambda>x. x\<lparr>dest_producers := al_erase u (dest_producers x)\<rparr>))"

section \<open>Durable subscriptions\<close>

definition unit_separator :: char where
  "unit_separator = CHR 0x1F"

definition durableKey :: "string \<Rightarrow> string \<Rightarrow> string" where
  "durableKey cid name = (if cid = [] then name else cid @ [unit_separator] @ name)"

definition durable_dir :: "string \<Rightarrow> string \<Rightarrow> string" where
  "durable_dir cid name = (if cid = [] then ''durable-'' @ name else ''durable-'' @ cid @ ''-'' @ name)"

text \<open>Find or create the subscription.\<close>

definition open_subscription :: "daddr \<Rightarrow> string \<Rightarrow> string \<Rightarrow> sel_expr option \<Rightarrow> unit action" where
  "open_subscription d cid name sel =
     andThen (reads (\<lambda>b. dest_at b d)) (\<lambda>D.
       let key = durableKey cid name in
       case map_of (durableSubs D) key of
         None \<Rightarrow>
           let path = dest_path D @ durable_dir cid name @ ''/'' in
           andThen (new_storage path) (\<lambda>sto.
             modify (upd_dest d (\<lambda>x. x\<lparr>durableSubs := al_emplace key
               \<lparr>sub_name = name, sub_path = path, sub_storage = sto, activeConsumerUuid = 0, sub_selector = sel\<rparr> (durableSubs x)\<rparr>)))
       | Some sub \<Rightarrow> if activeConsumerUuid sub \<noteq> 0 then throw RuntimeException else ret ())"

definition upd_sub :: "daddr \<Rightarrow> string \<Rightarrow> (durableSubState \<Rightarrow> durableSubState) \<Rightarrow> broker \<Rightarrow> broker" where
  "upd_sub d key f =
     upd_dest d (\<lambda>x. case map_of (durableSubs x) key of
        None \<Rightarrow> x
      | Some sub \<Rightarrow> x\<lparr>durableSubs := al_update key (f sub) (durableSubs x)\<rparr>)"

definition dest_createDurableConsumer ::
  "io \<Rightarrow> daddr \<Rightarrow> sessaddr \<Rightarrow> string \<Rightarrow> string \<Rightarrow> sel_expr option \<Rightarrow> caddr option action" where
  "dest_createDurableConsumer io d s cid name sel =
     andThen (reads (\<lambda>b. isTopicFamily (dest_at b d))) (\<lambda>topic.
       if \<not> topic then throw RuntimeException
       else
         let key = durableKey cid name in
         andThen (open_subscription d cid name sel) (\<lambda>_.
         andThen (modify (upd_sub d key (\<lambda>sub. sub\<lparr>sub_selector := sel\<rparr>))) (\<lambda>_.
         andThen createRandomUUID (\<lambda>u.
         andThen new_queue (\<lambda>q.
         andThen (reads (\<lambda>b. map_of (durableSubs (dest_at b d)) key)) (\<lambda>r.
           case r of
             None \<Rightarrow> throw UndefinedBehaviour
           | Some sub \<Rightarrow>
               andThen (new_consumer d s q u (sub_storage sub) sel) (\<lambda>c.
               andThen (replayFromStorage io q (sub_storage sub) d) (\<lambda>_.
               andThen (add_consumer d u c) (\<lambda>res.
                 if res = None then ret None
                 else
                   andThen (modify (upd_sub d key (\<lambda>sub. sub\<lparr>activeConsumerUuid := u\<rparr>))) (\<lambda>_.
                   andThen (modify (upd_dest d (\<lambda>x. x\<lparr>consumerToSubName := al_emplace u key (consumerToSubName x)\<rparr>))) (\<lambda>_.
                     ret res)))))))))))"

text \<open>\<open>deleteSubscription\<close> wipes the directory, so a later subscription of the same name starts empty.\<close>

definition deleteSubscription :: "io \<Rightarrow> daddr \<Rightarrow> string \<Rightarrow> string \<Rightarrow> unit action" where
  "deleteSubscription io d cid name =
     andThen (reads (\<lambda>b. map_of (durableSubs (dest_at b d)) (durableKey cid name))) (\<lambda>r.
       case r of
         None \<Rightarrow> ret ()
       | Some sub \<Rightarrow>
           andThen (whenever (activeConsumerUuid sub \<noteq> 0) (deleteConsumer d (activeConsumerUuid sub))) (\<lambda>_.
           andThen (on_storage (sub_storage sub) (\<lambda>cs. map_option (Pair ()) (cs_stop (write_ok io) cs))) (\<lambda>_.
             modify (\<lambda>b. (upd_dest d (\<lambda>x. x\<lparr>durableSubs := al_erase (durableKey cid name) (durableSubs x)\<rparr>) b)
               \<lparr>disk := (disk b)(sub_path sub := [])\<rparr>))))"

end
