(* ===== verification/Producer.thy ===== *)
theory Producer
  imports Destination
begin

text \<open>
  Producers: \<open>Producer.h\<close> and \<open>Producer.cpp\<close>.  Send options and their validation, the headers the
  provider fills in, and the two ends of a transacted send.  The message a client passes to \<open>send\<close> is an
  object of the heap, because \<open>send\<close> writes its headers.
\<close>

definition default_sendOptions :: sendOptions where
  "default_sendOptions = \<lparr>opt_deliveryMode = NOT_PERSISTENT, opt_priority = 4, opt_timeToLive = 0, opt_deliveryDelay = 0\<rparr>"

definition setDisableMessageID :: "paddr \<Rightarrow> bool \<Rightarrow> unit action" where
  "setDisableMessageID p v = modify (upd_producer p (\<lambda>x. x\<lparr>disableMessageID := v\<rparr>))"

definition setDisableMessageTimestamp :: "paddr \<Rightarrow> bool \<Rightarrow> unit action" where
  "setDisableMessageTimestamp p v = modify (upd_producer p (\<lambda>x. x\<lparr>disableMessageTimestamp := v\<rparr>))"

definition with_options :: "sendOptions \<Rightarrow> bool \<Rightarrow> int64 \<Rightarrow> message \<Rightarrow> message" where
  "with_options opts transactional now m =
     (let h = (jmsHeaders m)\<lparr>priority := opt_priority opts,
                 expiration := (if sint (opt_timeToLive opts) > 0 then now + opt_timeToLive opts else 0)\<rparr>
      in if transactional
         then m\<lparr>reliability := opt_deliveryMode opts, jmsHeaders := h\<lparr>deliveryTime := 0\<rparr>,
                pendingDeliveryDelay := opt_deliveryDelay opts\<rparr>
         else m\<lparr>reliability := opt_deliveryMode opts,
                jmsHeaders := h\<lparr>deliveryTime := (if sint (opt_deliveryDelay opts) > 0 then now + opt_deliveryDelay opts else 0)\<rparr>,
                pendingDeliveryDelay := 0\<rparr>)"

definition applyOptions :: "maddr \<Rightarrow> sendOptions \<Rightarrow> bool \<Rightarrow> unit action" where
  "applyOptions a opts transactional =
     andThen nowMs (\<lambda>now. modify (upd_msg a (with_options opts transactional now)))"

definition validateSendOptions :: "sendOptions \<Rightarrow> bool" where
  "validateSendOptions opts \<longleftrightarrow>
     \<not> (sint (opt_priority opts) < 0 \<or> sint (opt_priority opts) > 9) \<and>
     \<not> (sint (opt_timeToLive opts) < 0 \<or> sint (opt_deliveryDelay opts) < 0) \<and>
     \<not> (sint (opt_timeToLive opts) > sint kMaxFutureHeaderMs \<or> sint (opt_deliveryDelay opts) > sint kMaxFutureHeaderMs)"

definition setDefault :: "paddr \<Rightarrow> sendOptions \<Rightarrow> unit action" where
  "setDefault p opts =
     (if validateSendOptions opts then modify (upd_producer p (\<lambda>x. x\<lparr>prod_default := Some opts\<rparr>))
      else throw StdInvalidArgument)"

text \<open>The provider headers of \<open>dispatch\<close>.\<close>

definition fill_messageId :: "io \<Rightarrow> producer \<Rightarrow> message \<Rightarrow> message" where
  "fill_messageId io x m =
     (if disableMessageID x then m\<lparr>jmsHeaders := (jmsHeaders m)\<lparr>messageId := []\<rparr>\<rparr>
      else if messageId (jmsHeaders m) = []
        then m\<lparr>jmsHeaders := (jmsHeaders m)\<lparr>messageId := ''ID:'' @ uuid_toString (services io) (uuid m)\<rparr>\<rparr>
      else m)"

definition fill_timestamp :: "paddr \<Rightarrow> maddr \<Rightarrow> unit action" where
  "fill_timestamp p a =
     andThen (reads (\<lambda>b. (disableMessageTimestamp (producer_at b p), timestamp (jmsHeaders (msg b a))))) (\<lambda>(off, t).
       if off then modify (upd_headers a (\<lambda>h. h\<lparr>timestamp := 0\<rparr>))
       else if t = 0 then andThen nowMs (\<lambda>now. modify (upd_headers a (\<lambda>h. h\<lparr>timestamp := now\<rparr>)))
       else ret ())"

definition dispatch :: "io \<Rightarrow> paddr \<Rightarrow> maddr \<Rightarrow> unit action" where
  "dispatch io p a =
     andThen (reads (\<lambda>b. producer_at b p)) (\<lambda>x.
     andThen (modify (upd_msg a (fill_messageId io x))) (\<lambda>_.
     andThen (fill_timestamp p a) (\<lambda>_.
       save io (prod_destination x) p a)))"

definition send :: "io \<Rightarrow> paddr \<Rightarrow> maddr \<Rightarrow> unit action" where
  "send io p a =
     andThen (reads (\<lambda>b. (prod_default (producer_at b p), transactionId b p \<noteq> []))) (\<lambda>(dflt, transactional).
     andThen (case dflt of None \<Rightarrow> ret () | Some opts \<Rightarrow> applyOptions a opts transactional) (\<lambda>_.
       dispatch io p a))"

definition send_with :: "io \<Rightarrow> paddr \<Rightarrow> maddr \<Rightarrow> sendOptions \<Rightarrow> unit action" where
  "send_with io p a opts =
     (if validateSendOptions opts
      then andThen (reads (\<lambda>b. transactionId b p \<noteq> [])) (\<lambda>transactional.
           andThen (applyOptions a opts transactional) (\<lambda>_.
             dispatch io p a))
      else throw StdInvalidArgument)"

section \<open>The end of a transaction\<close>

text \<open>Resolve the delay of a staged message: the clock starts at the commit.\<close>

definition resolve_delay :: "paddr \<Rightarrow> int64 \<Rightarrow> maddr \<Rightarrow> unit action" where
  "resolve_delay p now a =
     andThen (reads (\<lambda>b. (msg b a, prod_destination (producer_at b p)))) (\<lambda>(m, d).
       whenever (sint (pendingDeliveryDelay m) > 0)
         (let t = now + pendingDeliveryDelay m in
          andThen (modify (upd_msg a (\<lambda>m. m\<lparr>jmsHeaders := (jmsHeaders m)\<lparr>deliveryTime := t\<rparr>, pendingDeliveryDelay := 0\<rparr>))) (\<lambda>_.
            whenever (isPersistent m)
              (andThen (patchPendingDeliveryTime d (uuid m) t) (\<lambda>_.
                modify (upd_msg a (patchCachedDeliveryTime t)))))))"

partial_function (option) stage_messages ::
  "paddr \<Rightarrow> qaddr \<Rightarrow> int64 \<Rightarrow> maddr list \<Rightarrow> broker \<Rightarrow> ((broker_error + maddr list) \<times> broker) option" where
  "stage_messages p tq now staged b =
     Option.bind (dequeue tq b) (\<lambda>(r, b1).
       case r of
         Inl e \<Rightarrow> Some (Inl e, b1)
       | Inr m \<Rightarrow>
           (case m of
              None \<Rightarrow> Some (Inr staged, b1)
            | Some a \<Rightarrow>
                Option.bind (resolve_delay p now a b1) (\<lambda>(r2, b2).
                  case r2 of
                    Inl e \<Rightarrow> Some (Inl e, b2)
                  | Inr _ \<Rightarrow> stage_messages p tq now (staged @ [a]) b2)))"

declare stage_messages.simps [code]

definition producer_commit :: "io \<Rightarrow> paddr \<Rightarrow> string \<Rightarrow> unit action" where
  "producer_commit io p tx =
     andThen (reads (\<lambda>b. producer_at b p)) (\<lambda>x.
       case prod_transactQueue x of
         None \<Rightarrow> ret ()
       | Some tq \<Rightarrow>
           andThen nowMs (\<lambda>now.
           andThen (stage_messages p tq now []) (\<lambda>staged.
           andThen (dest_commitTransaction io (prod_destination x) tx) (\<lambda>_.
             each staged (deliverCommitted io (prod_destination x))))))"

definition producer_rollback :: "io \<Rightarrow> paddr \<Rightarrow> string \<Rightarrow> unit action" where
  "producer_rollback io p tx =
     andThen (reads (\<lambda>b. producer_at b p)) (\<lambda>x.
       case prod_transactQueue x of
         None \<Rightarrow> ret ()
       | Some tq \<Rightarrow>
           andThen (dest_rollbackTransaction io (prod_destination x) tx) (\<lambda>_. drain tq (\<lambda>_. ret ())))"

text \<open>The destructor rolls back what the session's current transaction still holds.\<close>

definition destroy_producer :: "io \<Rightarrow> paddr \<Rightarrow> unit action" where
  "destroy_producer io p =
     andThen (reads (\<lambda>b. (prod_transactQueue (producer_at b p), transactionId b p))) (\<lambda>(tq, tx).
       if tq = None then ret () else producer_rollback io p tx)"

end
