(* ===== verification/Session.thy ===== *)
theory Session
  imports Producer
begin

text \<open>
  Sessions, the exchange and connections: \<open>Session.h\<close>, \<open>Session.cpp\<close>, \<open>Exchange.cpp\<close>, \<open>Connection.h\<close>,
  \<open>Connection.cpp\<close>, \<open>ConnectionFactory.cpp\<close> and \<open>ConnectionMetaData.h\<close>.  The mutexes of the exchange and
  the connection make their operations atomic, as they are here.  A destructor runs when the last
  reference to its object goes, which is in the client's hands: the destructors are operations of their
  own, except that of a session, which its connection owns.
\<close>

section \<open>The exchange\<close>

definition exchange_create :: "io \<Rightarrow> dest_type \<Rightarrow> string \<Rightarrow> daddr option action" where
  "exchange_create io t n =
     andThen (reads (\<lambda>b. (exch_destinations b, exch_path b))) (\<lambda>(ds, path).
       let h = dest_hash_of io t n in
       case map_of ds h of
         Some d \<Rightarrow> ret (Some d)
       | None \<Rightarrow>
           andThen (new_destination io t n (path @ nat_string io h @ ''/'')) (\<lambda>d.
           andThen (modify (\<lambda>b. b\<lparr>exch_destinations := al_emplace h d (exch_destinations b)\<rparr>)) (\<lambda>_.
             ret (Some d))))"

section \<open>Sessions\<close>

fun getAcknowledgeModeName :: "acknowledgeMode \<Rightarrow> string" where
  "getAcknowledgeModeName AUTO_ACKNOWLEDGE = ''AUTO_ACKNOWLEDGE''"
| "getAcknowledgeModeName SESSION_TRANSACTED = ''SESSION_TRANSACTED''"
| "getAcknowledgeModeName CLIENT_ACKNOWLEDGE = ''CLIENT_ACKNOWLEDGE''"
| "getAcknowledgeModeName INDIVIDUAL_ACKNOWLEDGE = ''INDIVIDUAL_ACKNOWLEDGE''"
| "getAcknowledgeModeName DUPS_OK_ACKNOWLEDGE = ''DUPS_OK_ACKNOWLEDGE''"

definition random_text :: "io \<Rightarrow> string action" where
  "random_text io = andThen createRandomUUID (\<lambda>u. ret (uuid_toString (services io) u))"

definition new_session :: "io \<Rightarrow> connaddr \<Rightarrow> acknowledgeMode \<Rightarrow> sessaddr action" where
  "new_session io cn mode =
     andThen (random_text io) (\<lambda>i.
     andThen (if mode = SESSION_TRANSACTED then random_text io else ret []) (\<lambda>sfx.
     andThen (reads next_session) (\<lambda>s.
     andThen (modify (\<lambda>b. b\<lparr>next_session := Suc s, session_at := (session_at b)(s :=
         \<lparr>sess_mode = mode, sess_connection = cn, suffix = sfx, sess_id = i, sess_destinations = [],
          sess_producers = [], sess_consumers = []\<rparr>)\<rparr>)) (\<lambda>_.
       ret s))))"

definition createDestination :: "io \<Rightarrow> sessaddr \<Rightarrow> dest_type \<Rightarrow> string \<Rightarrow> daddr option action" where
  "createDestination io s t n =
     andThen (exchange_create io t n) (\<lambda>r.
       case r of
         None \<Rightarrow> ret None
       | Some d \<Rightarrow>
           andThen (createDefaultConsumer d s) (\<lambda>_.
           andThen (reads (\<lambda>b. dest_hash (dest_at b d))) (\<lambda>h.
           andThen (modify (upd_session s (\<lambda>x. x\<lparr>sess_destinations := al_emplace h d (sess_destinations x)\<rparr>))) (\<lambda>_.
             ret (Some d)))))"

definition add_session_consumer :: "sessaddr \<Rightarrow> caddr option \<Rightarrow> caddr option action" where
  "add_session_consumer s r =
     (case r of
        None \<Rightarrow> ret None
      | Some c \<Rightarrow>
          andThen (reads (\<lambda>b. con_uuid (consumer_at b c))) (\<lambda>u.
          andThen (modify (upd_session s (\<lambda>x. x\<lparr>sess_consumers := al_emplace u c (sess_consumers x)\<rparr>))) (\<lambda>_.
            ret r)))"

text \<open>An expression in a call is parsed before anything else happens.\<close>

definition parse_selector :: "string option \<Rightarrow> sel_expr option action" where
  "parse_selector expr =
     (case expr of
        None \<Rightarrow> ret None
      | Some e \<Rightarrow> (case selector_parse e of Inl err \<Rightarrow> throw (BadSelector err) | Inr x \<Rightarrow> ret (Some x)))"

definition session_createConsumer :: "io \<Rightarrow> sessaddr \<Rightarrow> daddr \<Rightarrow> string option \<Rightarrow> caddr option action" where
  "session_createConsumer io s d expr =
     andThen (parse_selector expr) (\<lambda>sel.
     andThen (createConsumer io d s sel) (add_session_consumer s))"

definition session_clientID :: "broker \<Rightarrow> sessaddr \<Rightarrow> string" where
  "session_clientID b s = clientID (connection_at b (sess_connection (session_at b s)))"

definition createDurableConsumer :: "io \<Rightarrow> sessaddr \<Rightarrow> daddr \<Rightarrow> string \<Rightarrow> string option \<Rightarrow> caddr option action" where
  "createDurableConsumer io s d name expr =
     andThen (parse_selector expr) (\<lambda>sel.
     andThen (reads (\<lambda>b. session_clientID b s)) (\<lambda>cid.
     andThen (dest_createDurableConsumer io d s cid name sel) (add_session_consumer s)))"

definition unsubscribe :: "io \<Rightarrow> sessaddr \<Rightarrow> daddr \<Rightarrow> string \<Rightarrow> unit action" where
  "unsubscribe io s d name =
     andThen (reads (\<lambda>b. session_clientID b s)) (\<lambda>cid. deleteSubscription io d cid name)"

definition session_createProducer :: "io \<Rightarrow> sessaddr \<Rightarrow> daddr \<Rightarrow> paddr option action" where
  "session_createProducer io s d =
     andThen (createProducer io d s) (\<lambda>r.
       case r of
         None \<Rightarrow> ret None
       | Some p \<Rightarrow>
           andThen (reads (\<lambda>b. prod_uuid (producer_at b p))) (\<lambda>u.
           andThen (modify (upd_session s (\<lambda>x. x\<lparr>sess_producers := al_emplace u p (sess_producers x)\<rparr>))) (\<lambda>_.
             ret r)))"

definition session_deleteConsumer :: "sessaddr \<Rightarrow> uuid \<Rightarrow> unit action" where
  "session_deleteConsumer s u =
     andThen (reads (\<lambda>b. map_of (sess_consumers (session_at b s)) u)) (\<lambda>r.
       case r of
         None \<Rightarrow> ret ()
       | Some c \<Rightarrow>
           andThen (reads (\<lambda>b. con_destination (consumer_at b c))) (\<lambda>d.
           andThen (deleteConsumer d u) (\<lambda>_.
             modify (upd_session s (\<lambda>x. x\<lparr>sess_consumers := al_erase u (sess_consumers x)\<rparr>)))))"

definition session_deleteProducer :: "sessaddr \<Rightarrow> uuid \<Rightarrow> unit action" where
  "session_deleteProducer s u =
     andThen (reads (\<lambda>b. map_of (sess_producers (session_at b s)) u)) (\<lambda>r.
       case r of
         None \<Rightarrow> ret ()
       | Some p \<Rightarrow>
           andThen (reads (\<lambda>b. prod_destination (producer_at b p))) (\<lambda>d.
           andThen (deleteProducer d u) (\<lambda>_.
             modify (upd_session s (\<lambda>x. x\<lparr>sess_producers := al_erase u (sess_producers x)\<rparr>)))))"

text \<open>\<open>createTextMessage\<close> and its siblings, on the body the class constructor makes.\<close>

definition create_message :: "msg_body \<Rightarrow> reliability_mode \<Rightarrow> maddr action" where
  "create_message bd r = andThen createRandomUUID (\<lambda>u. new_msg (new_message bd u r))"

definition session_commit :: "io \<Rightarrow> sessaddr \<Rightarrow> unit action" where
  "session_commit io s =
     andThen (reads (\<lambda>b. session_at b s)) (\<lambda>S.
     andThen (modify (upd_session s (\<lambda>x. x\<lparr>suffix := []\<rparr>))) (\<lambda>_.
     andThen (each (iter_map (iter_ids io) (sess_producers S)) (\<lambda>p. producer_commit io p (suffix S))) (\<lambda>_.
     andThen (each (iter_map (iter_ids io) (sess_consumers S)) (consumer_commit io)) (\<lambda>_.
     andThen (random_text io) (\<lambda>sfx.
       modify (upd_session s (\<lambda>x. x\<lparr>suffix := sfx\<rparr>)))))))"

definition session_rollback :: "io \<Rightarrow> sessaddr \<Rightarrow> bool \<Rightarrow> unit action" where
  "session_rollback io s sessionClosing =
     andThen (reads (\<lambda>b. session_at b s)) (\<lambda>S.
     andThen (modify (upd_session s (\<lambda>x. x\<lparr>suffix := []\<rparr>))) (\<lambda>_.
     andThen (each (iter_map (iter_ids io) (sess_producers S)) (\<lambda>p. producer_rollback io p (suffix S))) (\<lambda>_.
     andThen (each (iter_map (iter_ids io) (sess_consumers S)) (\<lambda>c. consumer_rollback io c sessionClosing)) (\<lambda>_.
     andThen (random_text io) (\<lambda>sfx.
       modify (upd_session s (\<lambda>x. x\<lparr>suffix := sfx\<rparr>)))))))"

definition session_recover :: "io \<Rightarrow> sessaddr \<Rightarrow> unit action" where
  "session_recover io s =
     andThen (reads (\<lambda>b. session_at b s)) (\<lambda>S.
       if sess_mode S = SESSION_TRANSACTED then throw IllegalStateException
       else each (iter_map (iter_ids io) (sess_consumers S)) (consumer_recover io))"

definition destroy_session :: "io \<Rightarrow> sessaddr \<Rightarrow> unit action" where
  "destroy_session io s =
     andThen (swallow (session_rollback io s True)) (\<lambda>_.
     andThen (reads (\<lambda>b. session_at b s)) (\<lambda>S.
     andThen (each (iter_map (iter_ids io) (sess_consumers S)) (\<lambda>c.
       andThen (reads (\<lambda>b. consumer_at b c)) (\<lambda>x. deleteConsumer (con_destination x) (con_uuid x)))) (\<lambda>_.
       each (iter_map (iter_ids io) (sess_producers S)) (\<lambda>p.
         andThen (reads (\<lambda>b. producer_at b p)) (\<lambda>x. deleteProducer (prod_destination x) (prod_uuid x))))))"

section \<open>Connections\<close>

definition createConnection :: "connaddr action" where
  "createConnection =
     andThen (reads next_connection) (\<lambda>cn.
     andThen (modify (\<lambda>b. b\<lparr>next_connection := Suc cn, connection_at := (connection_at b)(cn :=
         \<lparr>clientID = [], conn_started = False, conn_closed = False, exceptionListener = None, conn_sessions = []\<rparr>)\<rparr>)) (\<lambda>_.
       ret cn))"

definition upd_connection :: "connaddr \<Rightarrow> (connection \<Rightarrow> connection) \<Rightarrow> broker \<Rightarrow> broker" where
  "upd_connection cn f b = b\<lparr>connection_at := (connection_at b)(cn := f (connection_at b cn))\<rparr>"

definition ensureOpen :: "connaddr \<Rightarrow> unit action" where
  "ensureOpen cn = andThen (reads (\<lambda>b. conn_closed (connection_at b cn))) (\<lambda>c. if c then throw IllegalStateException else ret ())"

definition createSession :: "io \<Rightarrow> connaddr \<Rightarrow> acknowledgeMode \<Rightarrow> sessaddr action" where
  "createSession io cn mode =
     andThen (ensureOpen cn) (\<lambda>_.
     andThen (new_session io cn mode) (\<lambda>s.
     andThen (modify (upd_connection cn (\<lambda>x. x\<lparr>conn_sessions := conn_sessions x @ [s]\<rparr>))) (\<lambda>_.
       ret s)))"

definition conn_start :: "connaddr \<Rightarrow> unit action" where
  "conn_start cn = andThen (ensureOpen cn) (\<lambda>_. modify (upd_connection cn (\<lambda>x. x\<lparr>conn_started := True\<rparr>)))"

definition conn_stop :: "connaddr \<Rightarrow> unit action" where
  "conn_stop cn = andThen (ensureOpen cn) (\<lambda>_. modify (upd_connection cn (\<lambda>x. x\<lparr>conn_started := False\<rparr>)))"

definition setClientID :: "connaddr \<Rightarrow> string \<Rightarrow> unit action" where
  "setClientID cn cid =
     andThen (ensureOpen cn) (\<lambda>_.
     andThen (reads (\<lambda>b. connection_at b cn)) (\<lambda>x.
       if clientID x \<noteq> [] then throw IllegalStateException
       else if conn_sessions x \<noteq> [] \<or> conn_started x then throw IllegalStateException
       else modify (upd_connection cn (\<lambda>x. x\<lparr>clientID := cid\<rparr>))))"

definition setExceptionListener :: "connaddr \<Rightarrow> nat option \<Rightarrow> unit action" where
  "setExceptionListener cn l = andThen (ensureOpen cn) (\<lambda>_. modify (upd_connection cn (\<lambda>x. x\<lparr>exceptionListener := l\<rparr>)))"

text \<open>The listener that is called, if any.\<close>

definition onException :: "connaddr \<Rightarrow> nat option action" where
  "onException cn = reads (\<lambda>b. exceptionListener (connection_at b cn))"

definition conn_close :: "io \<Rightarrow> connaddr \<Rightarrow> unit action" where
  "conn_close io cn =
     andThen (reads (\<lambda>b. connection_at b cn)) (\<lambda>x.
       if conn_closed x then ret ()
       else
         andThen (modify (upd_connection cn (\<lambda>x. x\<lparr>conn_closed := True\<rparr>))) (\<lambda>_.
         andThen (each (conn_sessions x) (destroy_session io)) (\<lambda>_.
           modify (upd_connection cn (\<lambda>x. x\<lparr>conn_sessions := [], conn_started := False\<rparr>)))))"

record connectionMetaData =
  providerName :: string
  providerVersion :: string
  providerMajorVersion :: int
  providerMinorVersion :: int
  jmsVersion :: string
  jmsMajorVersion :: int
  jmsMinorVersion :: int
  jmsxPropertyNames :: "string list"

definition metadata :: connectionMetaData where
  "metadata = \<lparr>providerName = ''tiny-mq'', providerVersion = ''0.1'', providerMajorVersion = 0, providerMinorVersion = 1,
     jmsVersion = ''2.0'', jmsMajorVersion = 2, jmsMinorVersion = 0,
     jmsxPropertyNames = [''JMSXDeliveryCount'', ''JMSXDeadLetterReason'']\<rparr>"

end
