(* ===== verification/Ownership.thy ===== *)
theory Ownership
  imports Session
begin

text \<open>
  Where a message is.  Every message object is in at most one place: one queue, one list of pending
  deliveries, or the in-flight chain of one consumer; and every chain is a well-formed doubly linked
  list.  The invariant is shown for the building blocks with a set \<open>A\<close> of messages that are in no place
  at all (just created, or just taken out of a queue), and then for every operation of the broker.
\<close>

section \<open>The invariant\<close>

definition heads :: "broker \<Rightarrow> caddr \<Rightarrow> maddr option \<times> maddr option" where
  "heads b c = (inFlightHead (consumer_at b c), inFlightTail (consumer_at b c))"

definition held :: "broker \<Rightarrow> qaddr + daddr \<Rightarrow> maddr multiset" where
  "held b h = (case h of
      Inl q \<Rightarrow> mset (map snd (queue_abs (heap b) q))
    | Inr d \<Rightarrow> mset (map (\<lambda>(t, e). entry_msg e) (sched_pending (dest_scheduler (dest_at b d)))))"

definition free :: "broker \<Rightarrow> maddr \<Rightarrow> bool" where
  "free b a \<longleftrightarrow> a < next_msg b \<and> lk b a = no_link \<and> (\<forall>h. a \<notin># held b h)"

definition base :: "nat \<Rightarrow> (maddr \<Rightarrow> inFlightLink) \<Rightarrow> (caddr \<Rightarrow> maddr option \<times> maddr option) \<Rightarrow> maddr set \<Rightarrow> broker \<Rightarrow> bool" where
  "base N L H A b \<longleftrightarrow>
     queues_ok (heap b) \<and>
     (\<forall>h a. a \<in># held b h \<longrightarrow> count (held b h) a = 1 \<and> a < next_msg b \<and> lk b a = no_link) \<and>
     (\<forall>h h' a. a \<in># held b h \<longrightarrow> a \<in># held b h' \<longrightarrow> h = h') \<and>
     (\<forall>a \<ge> next_msg b. lk b a = no_link) \<and> (\<forall>c \<ge> next_consumer b. heads b c = (None, None)) \<and>
     N \<le> next_consumer b \<and> lk b = L \<and> heads b = H \<and> (\<forall>a \<in> A. free b a)"

definition own :: "broker \<Rightarrow> bool" where
  "own b \<longleftrightarrow> (\<exists>N L H. base N L H {} b) \<and> (\<forall>c. \<exists>as. in_flight b c as)"

section \<open>Frames\<close>

lemma base_same:
  assumes "base N L H A b" "queue_at (heap b') = queue_at (heap b)" "lk b' = lk b" "next_msg b' = next_msg b"
    "\<And>d. sched_pending (dest_scheduler (dest_at b' d)) = sched_pending (dest_scheduler (dest_at b d))"
    "heads b' = heads b" "next_consumer b' = next_consumer b"
  shows "base N L H A b'"
proof -
  have h: "held b' = held b" using assms(2,5) by (auto simp: held_def queue_abs_def fun_eq_iff split: sum.splits)
  have q: "queues_ok (heap b') = queues_ok (heap b)" using assms(2) by (simp add: queues_ok_def)
  show ?thesis using assms(1) unfolding base_def free_def assms(3,4,6,7) h q .
qed

lemma base_mono: "base N L H A b \<Longrightarrow> B \<subseteq> A \<Longrightarrow> base N L H B b"
  by (auto simp: base_def)

lemma store_fields [simp]:
  "next_msg (upd_msg a f b) = next_msg b" "next_consumer (upd_msg a f b) = next_consumer b" "dest_at (upd_msg a f b) = dest_at b"
  "queue_at (heap (upd_msg a f b)) = queue_at (heap b)"
  "next_msg (upd_consumer c g b) = next_msg b" "next_consumer (upd_consumer c g b) = next_consumer b"
  "dest_at (upd_consumer c g b) = dest_at b" "heap (upd_consumer c g b) = heap b"
  "heap (upd_dest d u b) = heap b" "next_msg (upd_dest d u b) = next_msg b" "next_consumer (upd_dest d u b) = next_consumer b"
  "consumer_at (upd_dest d u b) = consumer_at b" "dest_at (upd_dest d u b) = (dest_at b)(d := u (dest_at b d))"
  "heap (upd_session s v b) = heap b" "next_msg (upd_session s v b) = next_msg b" "next_consumer (upd_session s v b) = next_consumer b"
  "consumer_at (upd_session s v b) = consumer_at b" "dest_at (upd_session s v b) = dest_at b"
  "heap (upd_producer p w b) = heap b" "next_msg (upd_producer p w b) = next_msg b" "next_consumer (upd_producer p w b) = next_consumer b"
  "consumer_at (upd_producer p w b) = consumer_at b" "dest_at (upd_producer p w b) = dest_at b"
  "heap (upd_connection n x b) = heap b" "next_msg (upd_connection n x b) = next_msg b" "next_consumer (upd_connection n x b) = next_consumer b"
  "consumer_at (upd_connection n x b) = consumer_at b" "dest_at (upd_connection n x b) = dest_at b"
  by (simp_all add: upd_msg_def upd_consumer_def upd_dest_def upd_session_def upd_producer_def upd_connection_def)

lemma lk_fields [simp]:
  "lk (upd_dest d u b) = lk b" "lk (upd_session s v b) = lk b" "lk (upd_producer p w b) = lk b" "lk (upd_connection n x b) = lk b"
  "lk (b\<lparr>storage_at := a1\<rparr>) = lk b" "lk (b\<lparr>clock_reads := a2\<rparr>) = lk b" "lk (b\<lparr>random_reads := a3\<rparr>) = lk b"
  "lk (b\<lparr>next_storage := a4\<rparr>) = lk b" "lk (b\<lparr>dest_at := a5\<rparr>) = lk b" "lk (b\<lparr>next_dest := a6\<rparr>) = lk b"
  "lk (b\<lparr>producer_at := a7\<rparr>) = lk b" "lk (b\<lparr>next_producer := a8\<rparr>) = lk b" "lk (b\<lparr>session_at := a9\<rparr>) = lk b"
  "lk (b\<lparr>next_session := c1\<rparr>) = lk b" "lk (b\<lparr>connection_at := c2\<rparr>) = lk b" "lk (b\<lparr>next_connection := c3\<rparr>) = lk b"
  "lk (b\<lparr>exch_destinations := c4\<rparr>) = lk b" "lk (b\<lparr>disk := c5\<rparr>) = lk b" "lk (b\<lparr>consumer_at := c6\<rparr>) = lk b"
  "lk (b\<lparr>next_consumer := c7\<rparr>) = lk b" "lk (b\<lparr>next_msg := c8\<rparr>) = lk b" "lk (b\<lparr>next_queue := c9\<rparr>) = lk b"
  by (simp_all add: lk_def msg_def fun_eq_iff upd_dest_def upd_session_def upd_producer_def upd_connection_def)

lemma heads_fields [simp]:
  "heads (upd_dest d u b) = heads b" "heads (upd_session s v b) = heads b" "heads (upd_producer p w b) = heads b"
  "heads (upd_connection n x b) = heads b" "heads (upd_msg a f b) = heads b" "heads (upd_link a g b) = heads b"
  "heads (b\<lparr>storage_at := a1\<rparr>) = heads b" "heads (b\<lparr>clock_reads := a2\<rparr>) = heads b" "heads (b\<lparr>random_reads := a3\<rparr>) = heads b"
  "heads (b\<lparr>next_storage := a4\<rparr>) = heads b" "heads (b\<lparr>dest_at := a5\<rparr>) = heads b" "heads (b\<lparr>next_dest := a6\<rparr>) = heads b"
  "heads (b\<lparr>producer_at := a7\<rparr>) = heads b" "heads (b\<lparr>next_producer := a8\<rparr>) = heads b" "heads (b\<lparr>session_at := a9\<rparr>) = heads b"
  "heads (b\<lparr>next_session := c1\<rparr>) = heads b" "heads (b\<lparr>connection_at := c2\<rparr>) = heads b" "heads (b\<lparr>next_connection := c3\<rparr>) = heads b"
  "heads (b\<lparr>exch_destinations := c4\<rparr>) = heads b" "heads (b\<lparr>disk := c5\<rparr>) = heads b" "heads (b\<lparr>heap := c6\<rparr>) = heads b"
  "heads (b\<lparr>next_consumer := c7\<rparr>) = heads b" "heads (b\<lparr>next_msg := c8\<rparr>) = heads b" "heads (b\<lparr>next_queue := c9\<rparr>) = heads b"
  by (simp_all add: heads_def fun_eq_iff)

text \<open>An action is quiet when it moves no message and changes no chain.\<close>

definition quiet :: "'a action \<Rightarrow> bool" where
  "quiet f \<longleftrightarrow> (\<forall>N L H A. triple (base N L H A) f (\<lambda>_. base N L H A) (base N L H A))"

lemma quietD: "quiet f \<Longrightarrow> B \<subseteq> A \<Longrightarrow> triple (base N L H A) f (\<lambda>_. base N L H A) (base N L H B)"
  unfolding quiet_def triple_def by (fastforce split: sum.splits intro: base_mono)

lemma quietI:
  assumes "\<And>b r b'. f b = Some (r, b') \<Longrightarrow> queue_at (heap b') = queue_at (heap b) \<and> lk b' = lk b \<and>
    next_msg b' = next_msg b \<and> (\<forall>d. sched_pending (dest_scheduler (dest_at b' d)) = sched_pending (dest_scheduler (dest_at b d))) \<and>
    heads b' = heads b \<and> next_consumer b' = next_consumer b"
  shows "quiet f"
  unfolding quiet_def triple_def
proof (intro allI impI)
  fix N L H A b r b'
  assume "base N L H A b" "f b = Some (r, b')"
  then have "base N L H A b'" using base_same assms [of b r b'] by blast
  then show "case r of Inl _ \<Rightarrow> base N L H A b' | Inr x \<Rightarrow> base N L H A b'"
    by (simp split: sum.splits)
qed

named_theorems quiet_rules \<open>actions that move no message\<close>

lemma quiet_andThen [quiet_rules]: "quiet f \<Longrightarrow> (\<And>x. quiet (g x)) \<Longrightarrow> quiet (andThen f g)"
  unfolding quiet_def by (blast intro: triple_andThen)

lemma quiet_ret [quiet_rules]: "quiet (ret x)"
  by (rule quietI) (simp add: ret_def)

lemma quiet_throw [quiet_rules]: "quiet (throw e)"
  by (rule quietI) (simp add: throw_def)

lemma quiet_reads [quiet_rules]: "quiet (reads f)"
  by (rule quietI) (simp add: reads_def)

lemma quiet_diverge [quiet_rules]: "quiet (\<lambda>b. None)"
  by (rule quietI) simp

lemma quiet_if [quiet_rules]: "(c \<Longrightarrow> quiet f) \<Longrightarrow> (\<not> c \<Longrightarrow> quiet g) \<Longrightarrow> quiet (if c then f else g)"
  by simp

lemma quiet_option [quiet_rules]: "quiet f \<Longrightarrow> (\<And>x. quiet (g x)) \<Longrightarrow> quiet (case o' of None \<Rightarrow> f | Some x \<Rightarrow> g x)"
  by (cases o') simp_all

lemma quiet_sum [quiet_rules]: "(\<And>x. quiet (f x)) \<Longrightarrow> (\<And>x. quiet (g x)) \<Longrightarrow> quiet (case s of Inl x \<Rightarrow> f x | Inr x \<Rightarrow> g x)"
  by (cases s) simp_all

lemma quiet_prod [quiet_rules]: "(\<And>x y. quiet (f x y)) \<Longrightarrow> quiet (case s of (x, y) \<Rightarrow> f x y)"
  by (cases s) simp_all

lemma quiet_whenever [quiet_rules]: "(c \<Longrightarrow> quiet f) \<Longrightarrow> quiet (whenever c f)"
  by (simp add: whenever_def quiet_ret)

lemma quiet_each [quiet_rules]: "(\<And>x. quiet (f x)) \<Longrightarrow> quiet (each xs f)"
  by (induction xs) (simp_all add: quiet_ret quiet_andThen)

lemma quiet_clock [quiet_rules]: "quiet epochMicroseconds" "quiet createRandomUUID"
  by (auto simp: epochMicroseconds_def createRandomUUID_def intro!: quietI)

lemma quiet_nowMs [quiet_rules]: "quiet nowMs"
  unfolding nowMs_def by (intro quiet_rules)

lemma quiet_on_storage [quiet_rules]: "quiet (on_storage s f)"
  by (rule quietI) (auto simp: on_storage_def split: option.splits)

lemma quiet_modify:
  assumes "\<And>b. queue_at (heap (f b)) = queue_at (heap b) \<and> lk (f b) = lk b \<and> next_msg (f b) = next_msg b \<and>
    (\<forall>d. sched_pending (dest_scheduler (dest_at (f b) d)) = sched_pending (dest_scheduler (dest_at b d))) \<and>
    heads (f b) = heads b \<and> next_consumer (f b) = next_consumer b"
  shows "quiet (modify f)"
proof (rule quietI)
  fix b r b' assume "modify f b = Some (r, b')"
  then have "b' = f b" by (simp add: modify_def)
  with assms show "queue_at (heap b') = queue_at (heap b) \<and> lk b' = lk b \<and>
    next_msg b' = next_msg b \<and> (\<forall>d. sched_pending (dest_scheduler (dest_at b' d)) = sched_pending (dest_scheduler (dest_at b d))) \<and>
    heads b' = heads b \<and> next_consumer b' = next_consumer b" by blast
qed

lemma quiet_remove_async [quiet_rules]: "quiet (remove_async s r)"
  unfolding remove_async_def by (rule quiet_modify) simp

lemma quiet_modify_msg [quiet_rules]: "(\<And>m. link (f m) = link m) \<Longrightarrow> quiet (modify (upd_msg a f))"
  by (rule quiet_modify) (auto simp: lk_def fun_eq_iff)

lemma quiet_modify_headers [quiet_rules]: "quiet (modify (upd_headers a f))"
  unfolding upd_headers_def by (rule quiet_modify_msg) simp

lemma quiet_modify_consumer [quiet_rules]:
  "(\<And>x. inFlightHead (f x) = inFlightHead x \<and> inFlightTail (f x) = inFlightTail x) \<Longrightarrow> quiet (modify (upd_consumer c f))"
  by (rule quiet_modify) (auto simp: heads_def fun_eq_iff)

lemma quiet_modify_dest [quiet_rules]:
  "(\<And>x. sched_pending (dest_scheduler (f x)) = sched_pending (dest_scheduler x)) \<Longrightarrow> quiet (modify (upd_dest d f))"
  by (rule quiet_modify) simp

lemma quiet_modify_others [quiet_rules]:
  "quiet (modify (upd_session s f))" "quiet (modify (upd_producer p g))" "quiet (modify (upd_connection n h))"
  by (rule quiet_modify, simp)+

section \<open>Moving a message\<close>

lemma baseD:
  assumes "base N L H A b"
  shows "queues_ok (heap b)" "\<And>h a. a \<in># held b h \<Longrightarrow> count (held b h) a = 1"
    "\<And>h a. a \<in># held b h \<Longrightarrow> a < next_msg b" "\<And>h a. a \<in># held b h \<Longrightarrow> lk b a = no_link"
    "\<And>h h' a. a \<in># held b h \<Longrightarrow> a \<in># held b h' \<Longrightarrow> h = h'" "\<And>a. next_msg b \<le> a \<Longrightarrow> lk b a = no_link"
    "\<And>c. next_consumer b \<le> c \<Longrightarrow> heads b c = (None, None)" "N \<le> next_consumer b" "lk b = L" "heads b = H"
    "\<And>a. a \<in> A \<Longrightarrow> free b a"
  using assms unfolding base_def by blast+

lemma baseI:
  assumes "queues_ok (heap b)" "\<And>h a. a \<in># held b h \<Longrightarrow> count (held b h) a = 1"
    "\<And>h a. a \<in># held b h \<Longrightarrow> a < next_msg b" "\<And>h a. a \<in># held b h \<Longrightarrow> lk b a = no_link"
    "\<And>h h' a. a \<in># held b h \<Longrightarrow> a \<in># held b h' \<Longrightarrow> h = h'" "\<And>a. next_msg b \<le> a \<Longrightarrow> lk b a = no_link"
    "\<And>c. next_consumer b \<le> c \<Longrightarrow> heads b c = (None, None)" "N \<le> next_consumer b" "lk b = L" "heads b = H"
    "\<And>a. a \<in> A \<Longrightarrow> free b a"
  shows "base N L H A b"
  using assms unfolding base_def by blast

lemma base_add:
  assumes "base N L H A b" "a \<in> A" "held b' = (held b)(h := add_mset a (held b h))" "queues_ok (heap b')" "lk b' = lk b"
    "next_msg b' = next_msg b" "heads b' = heads b" "next_consumer b' = next_consumer b"
  shows "base N L H (A - {a}) b'"
proof -
  have fr: "a < next_msg b" "lk b a = no_link" "\<And>h. a \<notin># held b h" using assms(1,2) by (auto simp: base_def free_def)
  have in': "x \<in># held b' k \<longleftrightarrow> (x = a \<and> k = h) \<or> x \<in># held b k" for x k using assms(3) by auto
  have ct: "count (held b' k) x = (if x = a \<and> k = h then 1 else count (held b k) x)" for x k
    using assms(3) fr(3) by (auto simp: not_in_iff)
  have 1: "x \<in># held b' k \<Longrightarrow> count (held b' k) x = 1 \<and> x < next_msg b' \<and> lk b' x = no_link" for x k
    using in' ct fr baseD [OF assms(1)] assms(5,6) by auto
  have 2: "x \<in># held b' k \<Longrightarrow> x \<in># held b' k' \<Longrightarrow> k = k'" for x k k'
    using in' fr(3) assms(1) unfolding base_def by metis
  have 3: "free b' x" if "x \<in> A - {a}" for x
    using that in' assms(1,5,6) by (auto simp: base_def free_def)
  show ?thesis
    by (rule baseI) (use 1 2 3 assms(4-8) baseD [OF assms(1)] in auto)
qed

lemma base_take:
  assumes "base N L H A b" "held b h = add_mset a M" "held b' = (held b)(h := M)" "queues_ok (heap b')" "lk b' = lk b"
    "next_msg b' = next_msg b" "heads b' = heads b" "next_consumer b' = next_consumer b"
  shows "base N L H (insert a A) b'" "a \<notin> A"
proof -
  have a: "a \<in># held b h" using assms(2) by simp
  have fa: "count (held b h) a = 1" "a < next_msg b" "lk b a = no_link" "\<And>k. a \<in># held b k \<Longrightarrow> k = h"
    using assms(1) a unfolding base_def by blast+
  show "a \<notin> A" using assms(1) a unfolding base_def free_def by blast
  have M: "a \<notin># M" using fa(1) assms(2) by (simp add: not_in_iff)
  have in': "x \<in># held b' k \<Longrightarrow> x \<in># held b k \<and> count (held b' k) x = count (held b k) x \<and> x \<noteq> a" for x k
    using assms(2,3) M fa(4) by (cases "k = h") auto
  have 1: "x \<in># held b' k \<Longrightarrow> count (held b' k) x = 1 \<and> x < next_msg b' \<and> lk b' x = no_link" for x k
    using in' assms(1,5,6) unfolding base_def by metis
  have 2: "x \<in># held b' k \<Longrightarrow> x \<in># held b' k' \<Longrightarrow> k = k'" for x k k'
    using in' assms(1) unfolding base_def by metis
  have 3: "free b' x" if "x \<in> insert a A" for x
  proof (cases "x = a")
    case True
    with in' fa assms(5,6) show ?thesis by (auto simp: free_def)
  next
    case False
    with that baseD(11) [OF assms(1), of x] in' assms(5,6) show ?thesis by (auto simp: free_def)
  qed
  show "base N L H (insert a A) b'"
    by (rule baseI) (use 1 2 3 assms(4-8) baseD [OF assms(1)] in auto)
qed

lemma held_enqueue:
  "queues_ok (heap b) \<Longrightarrow> held (b\<lparr>heap := enqueue_msg q a (heap b)\<rparr>) = (held b)(Inl q := add_mset a (held b (Inl q)))"
proof -
  have f: "mset (map snd (spec_enqueue p a l)) = add_mset a (mset (map snd l))" for p and l :: "(nat \<times> maddr) list"
  proof -
    have "mset l = filter_mset (\<lambda>e. fst e \<ge> p) (mset l) + filter_mset (\<lambda>e. \<not> fst e \<ge> p) (mset l)"
      by (rule multiset_partition)
    then have "mset (map snd l) = image_mset snd (filter_mset (\<lambda>e. fst e \<ge> p) (mset l)) + image_mset snd (filter_mset (\<lambda>e. fst e < p) (mset l))"
      by (metis (no_types, lifting) filter_mset_cong image_mset_union leI linorder_not_less mset_map)
    then show ?thesis by (simp add: spec_enqueue_def)
  qed
  assume "queues_ok (heap b)"
  then show ?thesis by (auto simp: held_def fun_eq_iff queue_abs_enqueue f [simplified] split: sum.splits)
qed

lemma lk_enqueue [simp]: "lk (b\<lparr>heap := enqueue_msg q a h\<rparr>) x = link (msg_at h x)"
  by (simp add: lk_def msg_def)

lemma triple_enqueue: "a \<in> A \<Longrightarrow> triple (base N L H A) (enqueue q a) (\<lambda>_. base N L H (A - {a})) E"
proof (unfold enqueue_def, rule triple_modify)
  fix b assume "a \<in> A" "base N L H A b"
  moreover from this have "queues_ok (heap b)" by (simp add: base_def)
  ultimately show "base N L H (A - {a}) (b\<lparr>heap := enqueue_msg q a (heap b)\<rparr>)"
    by (intro base_add [OF _ _ held_enqueue]) (auto simp: queues_ok_enqueue lk_def msg_def fun_eq_iff)
qed

lemma triple_dequeue:
  "triple (base N L H A) (dequeue q) (\<lambda>r b. case r of None \<Rightarrow> base N L H A b | Some a \<Rightarrow> a \<notin> A \<and> base N L H (insert a A) b) E"
proof (rule tripleI)
  fix b r b' assume b: "base N L H A b" and d: "dequeue q b = Some (r, b')"
  have q: "pq_inv (queue_at (heap b) x)" for x using b by (simp add: base_def queues_ok_def)
  show "case r of Inl x \<Rightarrow> E b' | Inr x \<Rightarrow> (case x of None \<Rightarrow> base N L H A b' | Some a \<Rightarrow> a \<notin> A \<and> base N L H (insert a A) b')"
  proof (cases "pq_abs (queue_at (heap b) q)")
    case Nil
    from d try_dequeue_empty [OF q Nil] have "r = Inr None" "b' = b\<lparr>heap := set_queue q (queue_at (heap b) q) (heap b)\<rparr>"
      by (auto simp: dequeue_def)
    with b show ?thesis by (auto intro!: base_same [OF b] simp: lk_def msg_def fun_eq_iff)
  next
    case (Cons e l)
    obtain p x where e: "e = (p, x)" by fastforce
    from try_dequeue_Cons [OF q Cons [unfolded e]] obtain q' where
      q': "try_dequeue (queue_at (heap b) q) = (Some x, q')" "pq_inv q'" "pq_abs q' = l" by blast
    with d have r: "r = Inr (Some x)" "b' = b\<lparr>heap := set_queue q q' (heap b)\<rparr>" by (auto simp: dequeue_def)
    have h: "held b (Inl q) = add_mset x (mset (map snd l))" using Cons e by (simp add: held_def queue_abs_def)
    have h': "held b' = (held b)(Inl q := mset (map snd l))"
      using r(2) q'(3) by (auto simp: held_def queue_abs_def fun_eq_iff split: sum.splits)
    have k: "queues_ok (heap b')" using q q'(2) r(2) by (simp add: queues_ok_def)
    have "lk b' = lk b" using r(2) by (simp add: lk_def msg_def fun_eq_iff)
    then show ?thesis using base_take [OF b h h' k] r by simp
  qed
qed

lemma triple_new_msg:
  assumes "link m = no_link"
  shows "triple (base N L H A) (new_msg m) (\<lambda>k b. k \<notin> A \<and> base N L H (insert k A) b) E"
proof (rule tripleI)
  fix b r b' assume b: "base N L H A b" and d: "new_msg m b = Some (r, b')"
  let ?k = "next_msg b"
  have r: "r = Inr ?k" "b' = b\<lparr>heap := set_msg ?k m (heap b), next_msg := Suc ?k\<rparr>" using d by (auto simp: new_msg_def)
  have k: "?k \<notin># held b h" for h using b unfolding base_def by (metis less_irrefl)
  have A: "?k \<notin> A" using b unfolding base_def free_def by (metis less_irrefl)
  have lk: "lk b' = lk b"
    using b assms r(2) by (auto simp: base_def lk_def msg_def fun_eq_iff)
  have held: "held b' = held b" using r(2) by (auto simp: held_def queue_abs_def fun_eq_iff split: sum.splits)
  have q: "queues_ok (heap b')" using b r(2) by (simp add: base_def queues_ok_def)
  have 1: "x \<in># held b h \<Longrightarrow> count (held b h) x = 1 \<and> x < Suc ?k \<and> lk b x = no_link" for h x
    using b unfolding base_def by (metis less_SucI)
  have 2: "free b' x" if "x \<in> insert ?k A" for x
    using that k b lk held r(2) unfolding base_def free_def by (auto simp: less_SucI)
  have n: "next_msg b' = Suc ?k" "next_consumer b' = next_consumer b" "heads b' = heads b" using r(2) by simp_all
  have "base N L H (insert ?k A) b'"
    by (rule baseI) (use q 1 2 lk held n baseD [OF b] in auto)
  with A r(1) show "case r of Inl x \<Rightarrow> E b' | Inr x \<Rightarrow> x \<notin> A \<and> base N L H (insert x A) b'" by simp
qed

lemma link_patch [simp]:
  "link (patchCachedDeliveryTime t m) = link m" "link (refreshCachedStorageBytes P m) = link m" "link (message_copy m) = no_link"
  "link (message_setProperty n v m) = link m" "link (new_message bd u r) = no_link"
  by (simp_all add: patchCachedDeliveryTime_def refreshCachedStorageBytes_def message_copy_def message_setProperty_def new_message_def)

lemma clamp_frame:
  "clamp_delivery now a h = (t, h') \<Longrightarrow> queue_at h' = queue_at h \<and> (\<forall>x. link (msg_at h' x) = link (msg_at h x))"
  by (auto simp: clamp_delivery_def Let_def split: if_splits)

lemma base_heap:
  assumes "base N L H A b" "queue_at h = queue_at (heap b)" "\<And>x. link (msg_at h x) = link (msg b x)"
  shows "base N L H A (b\<lparr>heap := h, clock_reads := n\<rparr>)"
  using assms(1) by (rule base_same) (use assms(2,3) in \<open>auto simp: lk_def msg_def fun_eq_iff\<close>)

lemma upd_dest_heap [simp]: "(upd_dest d u b)\<lparr>heap := heap b\<rparr> = upd_dest d u b"
  by (simp add: upd_dest_def)

lemma held_schedule:
  "held (upd_dest d (\<lambda>x. x\<lparr>dest_scheduler := sch\<rparr>) b) =
     (held b)(Inr d := mset (map (\<lambda>(t, e). entry_msg e) (sched_pending sch)))"
  by (auto simp: held_def fun_eq_iff split: sum.splits)

lemma base_sched_same:
  assumes "base N L H A b" "sched_pending sch = sched_pending (dest_scheduler (dest_at b d))"
  shows "base N L H A (upd_dest d (\<lambda>x. x\<lparr>dest_scheduler := sch\<rparr>) b)"
  using assms(1) by (rule base_same) (use assms(2) in auto)

lemma triple_schedule:
  assumes "a \<in> A"
  shows "triple (base N L H A) (dest_enqueueOrSchedule d q a) (\<lambda>_. base N L H (A - {a})) E"
proof (rule tripleI)
  fix b r b' assume b: "base N L H A b" and f: "dest_enqueueOrSchedule d q a b = Some (r, b')"
  obtain now1 now2 n sch h where
    e: "enqueueOrSchedule now1 now2 q a (dest_scheduler (dest_at b d), heap b) = (sch, h)" and
    r: "r = Inr ()" "b' = (upd_dest d (\<lambda>x. x\<lparr>dest_scheduler := sch\<rparr>) b)\<lparr>heap := h, clock_reads := n\<rparr>"
    using f by (auto simp: dest_enqueueOrSchedule_def Let_def split: prod.splits)
  obtain t h1 where c: "clamp_delivery now1 a (heap b) = (t, h1)" by fastforce
  define b1 where "b1 = b\<lparr>heap := h1, clock_reads := n\<rparr>"
  have b1: "base N L H A b1"
    unfolding b1_def using clamp_frame [OF c] by (intro base_heap [OF b]) (auto simp: msg_def)
  have sch1: "dest_scheduler (dest_at b1 d) = dest_scheduler (dest_at b d)" by (simp add: b1_def)
  let ?s = "dest_scheduler (dest_at b d)"
  consider (enq) "sch = ?s" "h = enqueue_msg q a h1" | (drop) "sch = ?s" "h = h1"
    | (wait) "sched_pending sch = mm_emplace t \<lparr>entry_queue = q, entry_msg = a\<rparr> (sched_pending ?s)" "h = h1"
    using e c by (auto simp: enqueueOrSchedule_def split: if_splits)
  then have "base N L H (A - {a}) b'"
  proof cases
    case enq
    have 1: "base N L H (A - {a}) (b1\<lparr>heap := enqueue_msg q a (heap b1)\<rparr>)"
      using tripleD [OF triple_enqueue [OF assms] b1, of q "Inr ()"] by (simp add: enqueue_def modify_def)
    have "b' = upd_dest d (\<lambda>x. x\<lparr>dest_scheduler := sch\<rparr>) (b1\<lparr>heap := enqueue_msg q a (heap b1)\<rparr>)"
      using r(2) enq(2) by (simp add: b1_def upd_dest_def)
    with base_sched_same [OF 1, of sch d] enq(1) sch1 show ?thesis by simp
  next
    case drop
    have "b' = upd_dest d (\<lambda>x. x\<lparr>dest_scheduler := sch\<rparr>) b1"
      using r(2) drop(2) by (simp add: b1_def upd_dest_def)
    with base_sched_same [OF b1, of sch d] drop(1) sch1 base_mono show ?thesis by fastforce
  next
    case wait
    have e: "b' = upd_dest d (\<lambda>x. x\<lparr>dest_scheduler := sch\<rparr>) b1"
      using r(2) wait(2) by (simp add: b1_def upd_dest_def)
    have m: "mset (map (\<lambda>(t, e). entry_msg e) (sched_pending sch)) = add_mset a (held b1 (Inr d))"
      using wait(1) sch1 by (simp add: mset_mm_emplace held_def)
    show ?thesis unfolding e
      by (rule base_add [OF b1 assms held_schedule [of d sch b1, unfolded m]]) (use baseD(1) [OF b1] in simp_all)
  qed
  with r show "case r of Inl _ \<Rightarrow> E b' | Inr _ \<Rightarrow> base N L H (A - {a}) b'" by simp
qed

text \<open>The scheduler's worker: what is due moves from the pending deliveries to its queue.\<close>

definition deliver_step :: "daddr \<Rightarrow> int64 \<Rightarrow> broker \<Rightarrow> broker" where
  "deliver_step d now b =
     (case deliver_due now (dest_scheduler (dest_at b d), heap b) of
        (sch, h) \<Rightarrow> (upd_dest d (\<lambda>x. x\<lparr>dest_scheduler := sch\<rparr>) b)\<lparr>heap := h\<rparr>)"

lemma base_deliver_loop:
  assumes "base N L H A b" "sched_pending (dest_scheduler (dest_at b d)) = es" "deliver_loop upTo es (heap b) = (es', h)"
    "sched_pending sch = es'"
  shows "base N L H A ((upd_dest d (\<lambda>x. x\<lparr>dest_scheduler := sch\<rparr>) b)\<lparr>heap := h\<rparr>)"
  using assms
proof (induction es arbitrary: b)
  case Nil
  then have "h = heap (upd_dest d (\<lambda>x. x\<lparr>dest_scheduler := sch\<rparr>) b)" by simp
  with Nil base_sched_same [of N L H A b sch d] show ?case by simp
next
  case (Cons p es)
  obtain t e where p: "p = (t, e)" by fastforce
  show ?case
  proof (cases "sint t \<le> sint upTo")
    case False
    with Cons.prems p have "es' = sched_pending (dest_scheduler (dest_at b d))"
      "h = heap (upd_dest d (\<lambda>x. x\<lparr>dest_scheduler := sch\<rparr>) b)" by auto
    with Cons.prems base_sched_same [of N L H A b sch d] show ?thesis by simp
  next
    case True
    let ?s = "(dest_scheduler (dest_at b d))\<lparr>sched_pending := es\<rparr>"
    let ?b1 = "upd_dest d (\<lambda>x. x\<lparr>dest_scheduler := ?s\<rparr>) b"
    let ?a = "entry_msg e"
    have h: "held b (Inr d) = add_mset ?a (mset (map (\<lambda>(t, e). entry_msg e) es))"
      using Cons.prems(2) p by (simp add: held_def)
    have "held ?b1 = (held b)(Inr d := mset (map (\<lambda>(t, e). entry_msg e) es))" by (simp add: held_schedule)
    then have b1: "base N L H (insert ?a A) ?b1" "?a \<notin> A"
      using base_take [OF Cons.prems(1) h, of ?b1] baseD(1) [OF Cons.prems(1)] by simp_all
    let ?b2 = "?b1\<lparr>heap := enqueue_msg (entry_queue e) ?a (heap ?b1)\<rparr>"
    have b2: "base N L H A ?b2"
      using tripleD [OF triple_enqueue b1(1), of ?a "entry_queue e" "Inr ()"] b1(2) by (simp add: enqueue_def modify_def)
    have "base N L H A ((upd_dest d (\<lambda>x. x\<lparr>dest_scheduler := sch\<rparr>) ?b2)\<lparr>heap := h\<rparr>)"
      by (rule Cons.IH [OF b2]) (use Cons.prems True p in auto)
    then show ?thesis by (simp add: upd_dest_def)
  qed
qed

lemma base_deliver_step: "base N L H A b \<Longrightarrow> base N L H A (deliver_step d now b)"
proof -
  assume b: "base N L H A b"
  let ?s = "dest_scheduler (dest_at b d)"
  show ?thesis
  proof (cases "stop_flag ?s \<or> \<not> threadStarted ?s")
    case True
    then have "deliver_step d now b = upd_dest d (\<lambda>x. x\<lparr>dest_scheduler := ?s\<rparr>) b"
      by (simp add: deliver_step_def deliver_due_def upd_dest_def)
    with base_sched_same [OF b, of ?s d] show ?thesis by simp
  next
    case False
    obtain es' h where e: "deliver_loop now (sched_pending ?s) (heap b) = (es', h)" by fastforce
    with False have "deliver_step d now b = (upd_dest d (\<lambda>x. x\<lparr>dest_scheduler := ?s\<lparr>sched_pending := es'\<rparr>\<rparr>) b)\<lparr>heap := h\<rparr>"
      by (simp add: deliver_step_def deliver_due_def)
    with base_deliver_loop [OF b refl e] show ?thesis by simp
  qed
qed

section \<open>The building blocks of the operations\<close>

lemma set_data_link: "set_data P m bs = Inr m' \<Longrightarrow> link m' = link m"
  by (cases "setDataFromBytes P (body m) bs") (auto simp: set_data_def)

lemma fromBytes_tail_link: "fromBytes_tail P m bs off = Inr m' \<Longrightarrow> link m' = link m"
  by (auto simp: fromBytes_tail_def Let_def split: if_splits option.splits sum.splits dest: set_data_link)

lemma setPropertiesFromBytes_link: "setPropertiesFromBytes P m bs = Inr m' \<Longrightarrow> link m' = link m"
  by (auto simp: setPropertiesFromBytes_def Let_def split: if_splits option.splits sum.splits)

lemma fromBytes_legacy_link: "fromBytes_legacy P m bs = Inr m' \<Longrightarrow> link m' = link m"
  by (auto simp: fromBytes_legacy_def Let_def split: if_splits sum.splits dest!: setPropertiesFromBytes_link set_data_link)

lemma fromBytes_link: "fromBytes P m bs = Inr m' \<Longrightarrow> link m' = link m"
  by (auto simp: fromBytes_def Let_def split: if_splits sum.splits dest!: fromBytes_tail_link fromBytes_legacy_link)

lemma quiet_read_message [quiet_rules]: "quiet (read_message io a bs)"
proof (rule quietI)
  fix b r b' assume "read_message io a bs b = Some (r, b')"
  then consider "b' = b" | m where "fromBytes (services io) (msg b a) (drop 1 bs) = Inr m" "b' = upd_msg a (\<lambda>_. m) b"
    by (auto simp: read_message_def throw_def modify_def split: sum.splits)
  then show "queue_at (heap b') = queue_at (heap b) \<and> lk b' = lk b \<and> next_msg b' = next_msg b \<and>
    (\<forall>d. sched_pending (dest_scheduler (dest_at b' d)) = sched_pending (dest_scheduler (dest_at b d))) \<and>
    heads b' = heads b \<and> next_consumer b' = next_consumer b"
  proof cases
    case 2
    then show ?thesis using fromBytes_link by (auto simp: lk_def fun_eq_iff)
  qed simp
qed

lemma quiet_on_buffer [quiet_rules]: "quiet (on_buffer d f)"
  by (rule quietI) (auto simp: on_buffer_def split: prod.splits)

lemma quiet_dest_commit [quiet_rules]: "quiet (dest_commitTransaction io d tx)"
  by (rule quietI) (auto simp: dest_commitTransaction_def ret_def Let_def split: if_splits option.splits)

lemma quiet_blocks [quiet_rules]:
  "quiet (store_message io s a)" "quiet (resolve_record io c a)" "quiet (check_expired a)" "quiet (spend_budget u st rm)"
  "quiet (flushPendingAcks c)" "quiet (dest_rollbackTransaction io d tx)"
  "quiet (patchPendingDeliveryTime d u' t)" "quiet (persistToOfflineSub io sub a)" "quiet (replayed_time dat)"
  unfolding store_message_def resolve_record_def check_expired_def spend_budget_def flushPendingAcks_def
    dest_rollbackTransaction_def patchPendingDeliveryTime_def persistToOfflineSub_def replayed_time_def Let_def
  by (intro quiet_rules; simp)+

lemma quiet_setRedeliveryPolicy [quiet_rules]: "quiet (setRedeliveryPolicy d p)"
  by (rule quietI) (auto simp: setRedeliveryPolicy_def throw_def modify_def split: option.splits if_splits)

lemma quiet_blocks2 [quiet_rules]:
  "quiet (remove_stored io c a)" "quiet (rehydrate io c a)" "quiet (buffer_offline io d a)"
  unfolding remove_stored_def rehydrate_def buffer_offline_def
  by (intro quiet_rules; simp)+

lemma triple_frame_E: "triple P f Q E \<Longrightarrow> (\<And>b. E b \<Longrightarrow> E' b) \<Longrightarrow> triple P f Q E'"
  unfolding triple_def by (fastforce split: sum.splits)

lemma quiet_new_then:
  assumes "link m = no_link" "\<And>k A N L H. k \<notin> A \<Longrightarrow> triple (base N L H (insert k A)) (g k) (\<lambda>_. base N L H A) (base N L H A)"
  shows "quiet (andThen (new_msg m) g)"
proof (unfold quiet_def, intro allI)
  fix N L H A
  show "triple (base N L H A) (andThen (new_msg m) g) (\<lambda>_. base N L H A) (base N L H A)"
  proof (rule triple_andThen [OF triple_new_msg [OF assms(1)]])
    fix k
    show "triple (\<lambda>b. k \<notin> A \<and> base N L H (insert k A) b) (g k) (\<lambda>_. base N L H A) (base N L H A)"
      using assms(2) [of k A N L H] unfolding triple_def by blast
  qed
qed

lemma triple_schedule_new: "k \<notin> A \<Longrightarrow> triple (base N L H (insert k A)) (dest_enqueueOrSchedule d q k) (\<lambda>_. base N L H A) E"
  using triple_schedule [of k "insert k A" N L H d q E] by simp

lemma triple_enqueue_new: "k \<notin> A \<Longrightarrow> triple (base N L H (insert k A)) (enqueue q k) (\<lambda>_. base N L H A) E"
  using triple_enqueue [of k "insert k A" N L H q E] by simp

lemma triple_release: "triple (base N L H (insert k A)) (ret x) (\<lambda>_. base N L H A) E"
  by (rule triple_ret) (auto intro: base_mono)

lemma quiet_swallow [quiet_rules]: "quiet f \<Longrightarrow> quiet (swallow f)"
  unfolding quiet_def by (blast intro: triple_swallow)

lemma quiet_reads_then:
  "(\<And>x. quiet (g x)) \<Longrightarrow> quiet (andThen (reads f) g)"
  by (intro quiet_rules)

lemma quiet_deadLetter [quiet_rules]: "quiet (deadLetter io d a reason)"
  unfolding deadLetter_def
proof (intro quiet_swallow quiet_reads_then quiet_option quiet_ret quiet_new_then)
  fix m :: message show "link (dead_copy reason m) = no_link" by (simp add: dead_copy_def message_setProperty_def message_copy_def)
next
  fix q m k A N L H assume k: "k \<notin> (A :: maddr set)"
  show "triple (base N L H (insert k A)) (andThen (reads (\<lambda>b. dest_at b q)) (\<lambda>Q.
           andThen (whenever (isPersistent m) (store_message io (dest_storage Q) k)) (\<lambda>_.
             case dest_queue Q of None \<Rightarrow> ret () | Some qq \<Rightarrow> dest_enqueueOrSchedule q qq k)))
      (\<lambda>_. base N L H A) (base N L H A)"
    by (rule triple_andThen [OF quietD [OF quiet_reads]], blast,
        rule triple_andThen [OF quietD [OF quiet_whenever [OF quiet_blocks(1)]]], blast,
        rule triple_option [OF triple_release], rule triple_schedule_new [OF k])
qed

lemma triple_redeliver:
  assumes a: "a \<in> A"
  shows "triple (base N L H A) (redeliver io c a sc) (\<lambda>_. base N L H (A - {a})) (base N L H (A - {a}))"
proof -
  have rel: "triple (base N L H A) f (\<lambda>_. base N L H (A - {a})) (base N L H (A - {a}))" if "quiet f" for f :: "unit action"
    by (rule triple_weaken [OF quietD [OF that]]) (auto intro: base_mono)
  have seq: "triple (base N L H A) (andThen f g) (\<lambda>_. base N L H (A - {a})) (base N L H (A - {a}))"
    if "quiet f" "\<And>x. triple (base N L H A) (g x) (\<lambda>_. base N L H (A - {a})) (base N L H (A - {a}))"
    for f :: "'x action" and g :: "'x \<Rightarrow> unit action"
    by (rule triple_andThen [OF quietD [OF that(1)] that(2)]) blast
  have q: "quiet (modify (upd_msg a (refreshCachedStorageBytes (services io))))" by (rule quiet_modify_msg) simp
  show ?thesis
    unfolding redeliver_def Let_def case_prod_beta
    by (intro seq triple_if quiet_rules q triple_schedule [OF a] triple_enqueue [OF a] rel)
qed

lemma triple_preparePush:
  "triple (base N L H A) (preparePush io c n p a) (\<lambda>k b. k \<notin> A \<and> base N L H (insert k A) b) (base N L H A)"
proof -
  have seq: "triple P (andThen (reads f) g) Q E" if "\<And>x. triple P (g x) Q E" for P Q E and f :: "broker \<Rightarrow> 'x" and g :: "'x \<Rightarrow> 'y action"
    by (rule triple_andThen [OF triple_reads [where Q = "\<lambda>_. P"] that])
  have fin: "triple (\<lambda>b. k \<notin> A \<and> base N L H (insert k A) b) (andThen f (\<lambda>_. ret k)) (\<lambda>k b. k \<notin> A \<and> base N L H (insert k A) b) (base N L H A)"
    if "quiet f" for k and f :: "unit action"
  proof (rule triple_andThen [where Q = "\<lambda>_ b. k \<notin> A \<and> base N L H (insert k A) b"])
    show "triple (\<lambda>b. k \<notin> A \<and> base N L H (insert k A) b) f (\<lambda>_ b. k \<notin> A \<and> base N L H (insert k A) b) (base N L H A)"
      using quietD [OF that, of A "insert k A" N L H] unfolding triple_def by (fastforce split: sum.splits)
  qed (rule triple_ret)
  have mid: "triple (\<lambda>b. k \<notin> A \<and> base N L H (insert k A) b) (andThen f g) (\<lambda>k b. k \<notin> A \<and> base N L H (insert k A) b) (base N L H A)"
    if "quiet f" "\<And>x. triple (\<lambda>b. k \<notin> A \<and> base N L H (insert k A) b) (g x) (\<lambda>k b. k \<notin> A \<and> base N L H (insert k A) b) (base N L H A)"
    for k and f :: "'x action" and g
  proof (rule triple_andThen [where Q = "\<lambda>_ b. k \<notin> A \<and> base N L H (insert k A) b", OF _ that(2)])
    show "triple (\<lambda>b. k \<notin> A \<and> base N L H (insert k A) b) f (\<lambda>_ b. k \<notin> A \<and> base N L H (insert k A) b) (base N L H A)"
      using quietD [OF that(1), of A "insert k A" N L H] unfolding triple_def by (fastforce split: sum.splits)
  qed
  have cached: "quiet (modify (upd_msg k (\<lambda>m. m\<lparr>cachedStorageBytes := storage_bytes (services io) m\<rparr>)))" for k
    by (rule quiet_modify_msg) simp
  show ?thesis unfolding preparePush_def case_prod_beta
  proof (rule triple_andThen [OF triple_reads [where Q = "\<lambda>m b. link m = no_link \<and> base N L H A b"]], simp)
    fix m
    show "triple (\<lambda>b. link m = no_link \<and> base N L H A b)
        (andThen (if uuid m = 0 then createRandomUUID else ret (uuid m)) (\<lambda>u.
         andThen (new_msg (m\<lparr>uuid := u, number := n\<rparr>)) (\<lambda>k.
         andThen (reads (\<lambda>b. (transactionId b p, consumer_at b c))) (\<lambda>pa.
           if \<not> isPersistent m then ret k
           else if fst pa \<noteq> [] then
             andThen (modify (upd_msg k (\<lambda>m. m\<lparr>cachedStorageBytes := storage_bytes (services io) m\<rparr>))) (\<lambda>_.
             andThen (reads (\<lambda>b. cachedStorageBytes (msg b k))) (\<lambda>dat.
             andThen (on_buffer (con_destination (snd pa)) (addMessage (services io) (log_ok io) (stamp io) (fst pa) u dat)) (\<lambda>_.
               ret k)))
           else andThen (store_message io (con_storage (snd pa)) k) (\<lambda>_. ret k)))))
        (\<lambda>k b. k \<notin> A \<and> base N L H (insert k A) b) (base N L H A)" (is "triple ?P ?f ?Q ?E")
    proof (cases "link m = no_link")
      case True
      have "triple (base N L H A) ?f ?Q ?E"
        by (rule triple_andThen [OF quietD [OF quiet_if]], (rule quiet_rules)+, blast, rule triple_andThen [OF triple_new_msg], simp add: True)
          (intro mid triple_if quiet_rules cached fin triple_ret, assumption)
      with True show ?thesis by simp
    qed (simp add: triple_def)
  qed
qed

lemma quiet_push [quiet_rules]: "quiet (push io c n p a)"
  unfolding quiet_def
proof (intro allI)
  fix N L H A
  have k: "triple (\<lambda>b. k \<notin> A \<and> base N L H (insert k A) b) f (\<lambda>_. base N L H A) (base N L H A)"
    if "k \<notin> A \<Longrightarrow> triple (base N L H (insert k A)) f (\<lambda>_. base N L H A) (base N L H A)" for k and f :: "unit action"
    using that unfolding triple_def by blast
  have rd: "triple (base N L H (insert k A)) (andThen (reads r) g) (\<lambda>_. base N L H A) (base N L H A)"
    if "\<And>x. triple (base N L H (insert k A)) (g x) (\<lambda>_. base N L H A) (base N L H A)" for k and r :: "broker \<Rightarrow> 'x" and g :: "'x \<Rightarrow> unit action"
    by (rule triple_andThen [OF triple_reads that])
  show "triple (base N L H A) (push io c n p a) (\<lambda>_. base N L H A) (base N L H A)"
    unfolding push_def case_prod_beta
    by (rule triple_andThen [OF triple_reads [where Q = "\<lambda>_. base N L H A"]], assumption, rule triple_if, rule triple_ret, assumption,
        rule triple_andThen [OF triple_preparePush], rule k, rule rd)
      (intro triple_if triple_option triple_schedule_new triple_enqueue_new triple_throw, (assumption | erule base_mono | blast)+)
qed

lemma quiet_save [quiet_rules]: "quiet (save io d p a)"
  unfolding save_def by (intro quiet_rules; simp)

lemma triple_deliverCommitted:
  assumes a: "a \<in> A"
  shows "triple (base N L H A) (deliverCommitted io d a) (\<lambda>_. base N L H (A - {a})) (base N L H (A - {a}))"
proof -
  let ?B = "A - {a}"
  have copy: "quiet (andThen (new_msg m) (dest_enqueueOrSchedule d q))" if "link m = no_link" for q m
    by (rule quiet_new_then [OF that]) (rule triple_schedule_new)
  define body where "body qf c = andThen (reads (\<lambda>b. (con_queue (consumer_at b c), message_copy (msg b a)))) (\<lambda>(q, m).
         if qf then dest_enqueueOrSchedule d q a else andThen (new_msg m) (dest_enqueueOrSchedule d q))" for qf c
  have topic: "quiet (body False c)" for c
    unfolding quiet_def body_def case_prod_beta
  proof (intro allI)
    fix N L H A
    show "triple (base N L H A) (andThen (reads (\<lambda>b. (con_queue (consumer_at b c), message_copy (msg b a)))) (\<lambda>x.
         if False then dest_enqueueOrSchedule d (fst x) a else andThen (new_msg (snd x)) (dest_enqueueOrSchedule d (fst x))))
        (\<lambda>_. base N L H A) (base N L H A)"
    proof (rule triple_andThen [OF triple_reads [where Q = "\<lambda>x b. link (snd x) = no_link \<and> base N L H A b"]], simp)
      fix x :: "qaddr \<times> message"
      show "triple (\<lambda>b. link (snd x) = no_link \<and> base N L H A b)
         (if False then dest_enqueueOrSchedule d (fst x) a else andThen (new_msg (snd x)) (dest_enqueueOrSchedule d (fst x)))
         (\<lambda>_. base N L H A) (base N L H A)"
      proof (cases "link (snd x) = no_link")
        case True
        with copy [of "snd x" "fst x"] show ?thesis by (simp add: quiet_def)
      qed (simp add: triple_def)
    qed
  qed
  have queue: "triple (base N L H A) (body True c) (\<lambda>_. base N L H ?B) (base N L H ?B)" for c
    unfolding body_def case_prod_beta
    by (rule triple_andThen [OF triple_reads [where Q = "\<lambda>_. base N L H A"]], assumption) (simp add: triple_schedule [OF a])
  have loop: "triple (\<lambda>b. x = (isQueueFamily (dest_at b d), dest_targets io d b) \<and> base N L H A b)
      (each (snd x) (body (fst x))) (\<lambda>_. base N L H ?B) (base N L H ?B)" for x
  proof (cases "fst x")
    case True
    have "triple (base N L H A) (each (snd x) (body True)) (\<lambda>_. base N L H ?B) (base N L H ?B)" if "length (snd x) \<le> 1"
    proof (cases "snd x")
      case Nil
      then show ?thesis by (auto intro!: triple_ret intro: base_mono)
    next
      case (Cons c cs)
      with that have "snd x = [c]" by simp
      then show ?thesis by (auto intro!: triple_andThen [OF queue] triple_ret)
    qed
    with True show ?thesis unfolding triple_def by (auto simp: dest_targets_def Let_def)
  next
    case False
    have q: "quiet (each (snd x) (body False))" by (intro quiet_each topic)
    have "triple (base N L H A) (each (snd x) (body False)) (\<lambda>_. base N L H ?B) (base N L H ?B)"
      by (rule triple_weaken [OF quietD [OF q]]) (auto intro: base_mono)
    with False show ?thesis unfolding triple_def by auto
  qed
  show ?thesis unfolding deliverCommitted_def body_def [symmetric] case_prod_beta
    by (rule triple_andThen [OF triple_reads [where Q = "\<lambda>x b. x = (isQueueFamily (dest_at b d), dest_targets io d b) \<and> base N L H A b"]], simp,
        rule triple_andThen [OF loop], rule quietD, intro quiet_rules, simp)
qed

section \<open>Allocation\<close>

lemma base_shrink:
  assumes "base N L H A b" "\<And>h. held b' h \<subseteq># held b h" "queues_ok (heap b')" "lk b' = lk b" "next_msg b' = next_msg b"
    "heads b' = heads b" "next_consumer b \<le> next_consumer b'"
  shows "base N L H A b'"
proof (rule baseI)
  fix h a assume a: "a \<in># held b' h"
  then have a': "a \<in># held b h" using assms(2) by (meson mset_subset_eqD)
  have "count (held b' h) a \<le> 1"
    using baseD(2) [OF assms(1) a'] assms(2) [of h] by (metis subseteq_mset_def)
  with a show "count (held b' h) a = 1" by (simp add: count_eq_zero_iff le_Suc_eq)
  show "a < next_msg b'" "lk b' a = no_link" using baseD(3,4) [OF assms(1) a'] assms(4,5) by simp_all
next
  fix h h' a assume "a \<in># held b' h" "a \<in># held b' h'"
  then show "h = h'" using assms(2) baseD(5) [OF assms(1)] by (meson mset_subset_eqD)
next
  fix a assume "a \<in> A"
  then have "free b a" by (rule baseD(11) [OF assms(1)])
  then show "free b' a" using assms(2,4,5) unfolding free_def by (metis mset_subset_eqD)
next
  fix c assume "next_consumer b' \<le> c"
  then show "heads b' c = (None, None)" using baseD(7) [OF assms(1), of c] assms(6,7) by simp
qed (use assms baseD [OF assms(1)] in auto)

lemma quiet_bool [quiet_rules]: "quiet f \<Longrightarrow> quiet g \<Longrightarrow> quiet (case c of True \<Rightarrow> f | False \<Rightarrow> g)"
  by (cases c) simp_all

lemma quiet_new_queue [quiet_rules]: "quiet new_queue"
  unfolding quiet_def
proof (intro allI, rule tripleI)
  fix N L H A b r b' assume b: "base N L H A b" and n: "new_queue b = Some (r, b')"
  have b': "b' = b\<lparr>heap := set_queue (next_queue b) pq_empty (heap b), next_queue := Suc (next_queue b)\<rparr>"
    using n by (auto simp: new_queue_def)
  have "base N L H A b'"
    by (rule base_shrink [OF b]) (use b' baseD(1) [OF b] in \<open>auto simp: held_def queue_abs_def queues_ok_def pq_inv_empty lk_def msg_def fun_eq_iff split: sum.splits\<close>)
  then show "case r of Inl x \<Rightarrow> base N L H A b' | Inr x \<Rightarrow> base N L H A b'" by (simp split: sum.splits)
qed

lemma quiet_modify_plain:
  "(\<And>b. heap (f b) = heap b \<and> next_msg (f b) = next_msg b \<and> dest_at (f b) = dest_at b \<and> consumer_at (f b) = consumer_at b \<and>
     next_consumer (f b) = next_consumer b) \<Longrightarrow> quiet (modify f)"
  by (rule quiet_modify) (simp add: lk_def msg_def heads_def fun_eq_iff)

lemma quiet_new_storage [quiet_rules]: "quiet (new_storage path)"
  unfolding new_storage_def by (intro quiet_rules quiet_modify_plain) simp

lemma quiet_new_destination [quiet_rules]: "quiet (new_destination io t n path)"
proof -
  have "quiet (modify (\<lambda>b. b\<lparr>next_dest := Suc d, dest_at := (dest_at b)(d := D)\<rparr>))" if D: "dest_scheduler D = new_scheduler" for d D
    unfolding quiet_def
  proof (intro allI, rule triple_modify)
    fix N L H A b assume b: "base N L H A b"
    show "base N L H A (b\<lparr>next_dest := Suc d, dest_at := (dest_at b)(d := D)\<rparr>)"
      by (rule base_shrink [OF b])
        (use baseD(1) [OF b] D in \<open>auto simp: held_def new_scheduler_def queues_ok_def split: sum.splits\<close>)
  qed
  then show ?thesis unfolding new_destination_def case_prod_beta
    by (intro quiet_rules) simp_all
qed

lemma quiet_new_consumer [quiet_rules]: "quiet (new_consumer d s q u sto sel)"
proof -
  have q: "quiet (andThen (reads next_consumer) (\<lambda>c. andThen (modify (\<lambda>b. b\<lparr>next_consumer := Suc c, consumer_at := (consumer_at b)(c := x)\<rparr>)) (\<lambda>_. ret c)))"
    if x: "inFlightHead x = None" "inFlightTail x = None" for x
    unfolding quiet_def
  proof (intro allI, rule tripleI)
    fix N L H A b r b' assume b: "base N L H A b"
      and "andThen (reads next_consumer) (\<lambda>c. andThen (modify (\<lambda>b. b\<lparr>next_consumer := Suc c, consumer_at := (consumer_at b)(c := x)\<rparr>)) (\<lambda>_. ret c)) b = Some (r, b')"
    then have b': "b' = b\<lparr>next_consumer := Suc (next_consumer b), consumer_at := (consumer_at b)(next_consumer b := x)\<rparr>"
      by (auto simp: andThen_def reads_def modify_def ret_def)
    have h: "heads b' = heads b" using baseD(7) [OF b, of "next_consumer b"] x b' by (auto simp: heads_def fun_eq_iff)
    have "base N L H A b'"
      by (rule base_shrink [OF b]) (use b' h baseD(1) [OF b] in \<open>auto simp: held_def split: sum.splits\<close>)
    then show "case r of Inl x \<Rightarrow> base N L H A b' | Inr x \<Rightarrow> base N L H A b'" by (simp split: sum.splits)
  qed
  show ?thesis unfolding new_consumer_def by (intro quiet_rules q) simp_all
qed

lemma quiet_new_producer [quiet_rules]: "quiet (new_producer d s u tok)"
  unfolding new_producer_def by (intro quiet_rules quiet_modify_plain) simp

lemma quiet_new_session [quiet_rules]: "quiet (new_session io cn mode)"
  unfolding new_session_def random_text_def by (intro quiet_rules quiet_modify_plain) simp

section \<open>Operations that move no message\<close>

lemma quiet_replay_record [quiet_rules]: "quiet (replay_record q d x)"
proof -
  have l: "link (replayed_message rec dat t m) = no_link" if "makeMessageShell ty = Some m" for rec dat t m ty
    using that by (auto simp: replayed_message_def makeMessageShell_def split: if_splits)
  have "quiet (case makeMessageShell ty of None \<Rightarrow> ret () | Some shell \<Rightarrow>
          andThen (replayed_time dat) (\<lambda>t. andThen (new_msg (replayed_message rec dat t shell)) (dest_enqueueOrSchedule d q)))" for ty rec dat
    by (cases "makeMessageShell ty") (auto intro!: quiet_rules quiet_new_then l triple_schedule_new)
  then show ?thesis unfolding replay_record_def
    by (cases x; cases "snd x") (auto intro!: quiet_rules)
qed

lemma quiet_replay [quiet_rules]: "quiet (replayFromStorage io q s d)" "quiet (replayStoredMessages io d q)"
  unfolding replayFromStorage_def replayStoredMessages_def by (intro quiet_rules)+

lemma quiet_drop_default [quiet_rules]: "quiet (drop_default_consumer d)"
  by (rule quietI) (auto simp: drop_default_consumer_def ret_def modify_def split: option.splits)

lemma quiet_deleteConsumer [quiet_rules]: "quiet (deleteConsumer d u)"
  unfolding deleteConsumer_def by (rule quiet_modify_dest) (auto simp: Let_def split: option.splits)

lemma quiet_upd_sub [quiet_rules]: "quiet (modify (upd_sub d key f))"
  unfolding upd_sub_def by (rule quiet_modify_dest) (auto split: option.splits)

lemma quiet_dest_ops [quiet_rules]:
  "quiet (createDefaultConsumer d s)" "quiet (add_consumer d u c)" "quiet (createProducer io d s)" "quiet (deleteProducer d u)"
  "quiet (open_subscription d cid name sel)"
  unfolding createDefaultConsumer_def add_consumer_def createProducer_def deleteProducer_def open_subscription_def Let_def
  by (intro quiet_rules; simp)+

lemma quiet_create [quiet_rules]: "quiet (createConsumer io d s sel)" "quiet (dest_createDurableConsumer io d s cid name sel)"
  unfolding createConsumer_def dest_createDurableConsumer_def Let_def by (intro quiet_rules; simp)+

lemma quiet_deleteSubscription [quiet_rules]: "quiet (deleteSubscription io d cid name)"
proof -
  have "quiet (modify (\<lambda>b. (upd_dest d (\<lambda>x. x\<lparr>durableSubs := al_erase k (durableSubs x)\<rparr>) b)\<lparr>disk := (disk b)(p := [])\<rparr>))" for k p
    by (rule quiet_modify) simp
  then show ?thesis unfolding deleteSubscription_def by (intro quiet_rules)
qed

lemma quiet_applyOptions [quiet_rules]: "quiet (applyOptions a opts tr)"
  unfolding applyOptions_def by (intro quiet_rules) (simp add: with_options_def Let_def)

lemma quiet_dispatch [quiet_rules]: "quiet (dispatch io p a)"
  unfolding dispatch_def fill_timestamp_def by (intro quiet_rules) (simp add: fill_messageId_def)

lemma quiet_send [quiet_rules]: "quiet (send io p a)" "quiet (send_with io p a opts)" "quiet (setDefault p opts)"
  "quiet (setDisableMessageID p v)" "quiet (setDisableMessageTimestamp p v)"
  unfolding send_def send_with_def setDefault_def setDisableMessageID_def setDisableMessageTimestamp_def
  by (intro quiet_rules)+

lemma quiet_session_ops [quiet_rules]:
  "quiet (exchange_create io t n)" "quiet (add_session_consumer s r)" "quiet (parse_selector expr)" "quiet (session_createProducer io s d)"
  "quiet (session_deleteConsumer s u)" "quiet (session_deleteProducer s u)" "quiet (unsubscribe io s d name)"
  unfolding exchange_create_def add_session_consumer_def parse_selector_def session_createProducer_def session_deleteConsumer_def
    session_deleteProducer_def unsubscribe_def Let_def
  by (intro quiet_rules quiet_modify_plain; simp)+

lemma quiet_session_ops2 [quiet_rules]:
  "quiet (createDestination io s t n)" "quiet (session_createConsumer io s d expr)" "quiet (createDurableConsumer io s d name expr)"
  unfolding createDestination_def session_createConsumer_def createDurableConsumer_def
  by (intro quiet_rules)+

lemma quiet_create_message [quiet_rules]: "quiet (create_message bd r)"
proof -
  have "quiet (andThen (new_msg m) ret)" if "link m = no_link" for m
    by (rule quiet_new_then [OF that]) (rule triple_release)
  moreover have "andThen (new_msg m) ret = new_msg m" for m
    by (auto simp: andThen_def ret_def new_msg_def fun_eq_iff)
  ultimately have "quiet (new_msg m)" if "link m = no_link" for m using that by metis
  then show ?thesis unfolding create_message_def by (intro quiet_rules) simp
qed

lemma quiet_connection [quiet_rules]:
  "quiet createConnection" "quiet (ensureOpen cn)"
  unfolding createConnection_def ensureOpen_def by (intro quiet_rules quiet_modify_plain; simp)+

lemma quiet_connection2 [quiet_rules]:
  "quiet (createSession io cn mode)" "quiet (conn_start cn)" "quiet (conn_stop cn)" "quiet (setClientID cn cid)"
  "quiet (setExceptionListener cn l)"
  unfolding createSession_def conn_start_def conn_stop_def setClientID_def setExceptionListener_def
  by (intro quiet_rules)+

lemma quiet_destroy_destination [quiet_rules]: "quiet (destroy_destination d)"
  unfolding destroy_destination_def by (rule quiet_modify_dest) (simp add: sched_stop_def)

end
