(* ===== verification/Broker_Run.thy ===== *)
theory Broker_Run
  imports Ownership
begin

text \<open>
  Runs of the broker: the draining loops, the operations on the in-flight chains, receiving, and the
  step relation of all client calls and worker steps, with the proof that every step keeps the
  ownership invariant.
\<close>

section \<open>Loops that drain a queue\<close>

definition keeps :: "'a action \<Rightarrow> bool" where
  "keeps f \<longleftrightarrow> (\<forall>N L H. triple (base N L H {}) f (\<lambda>_. base N L H {}) (base N L H {}))"

named_theorems keep_rules \<open>operations that keep every message in one place\<close>

lemma quiet_keeps [keep_rules]: "quiet f \<Longrightarrow> keeps f"
  by (simp add: keeps_def quiet_def)

lemma keeps_andThen: "keeps f \<Longrightarrow> (\<And>x. keeps (g x)) \<Longrightarrow> keeps (andThen f g)"
  unfolding keeps_def by (blast intro: triple_andThen)

lemma keeps_each: "(\<And>x. keeps (f x)) \<Longrightarrow> keeps (each xs f)"
  by (induction xs) (simp_all add: quiet_keeps quiet_ret keeps_andThen)

lemma keeps_swallow: "keeps f \<Longrightarrow> keeps (swallow f)"
  unfolding keeps_def by (blast intro: triple_swallow)

lemma keepsI: "(\<And>N L H b r b'. base N L H {} b \<Longrightarrow> f b = Some (r, b') \<Longrightarrow> base N L H {} b') \<Longrightarrow> keeps f"
  unfolding keeps_def triple_def by (fastforce split: sum.splits)

lemma keepsD: "keeps f \<Longrightarrow> base N L H {} b \<Longrightarrow> f b = Some (r, b') \<Longrightarrow> base N L H {} b'"
  unfolding keeps_def triple_def by (fastforce split: sum.splits)

lemma dequeue_cases:
  assumes "dequeue q b = Some (r, b1)" "base N L H A b"
  obtains "r = Inr None" "base N L H A b1" | a where "r = Inr (Some a)" "a \<notin> A" "base N L H (insert a A) b1"
proof -
  obtain x where "r = Inr x" using assms(1) by (auto simp: dequeue_def split: prod.splits)
  with tripleD [OF triple_dequeue assms(2,1), of "\<lambda>_. True"] that show ?thesis by (cases x) auto
qed

lemma drain_base:
  assumes "\<And>a. triple (base N L H {a}) (act a) (\<lambda>_. base N L H {}) (base N L H {})" "drain q act b = Some y"
  shows "base N L H {} b \<longrightarrow> base N L H {} (snd y)"
proof -
  define good where "good g \<longleftrightarrow> (\<forall>a. triple (base N L H {a}) (g a) (\<lambda>_. base N L H {}) (base N L H {}))" for g :: "maddr \<Rightarrow> unit action"
  have "good act \<longrightarrow> base N L H {} b \<longrightarrow> base N L H {} (snd y)"
  proof (rule drain.raw_induct [where P = "\<lambda>q g b y. good g \<longrightarrow> base N L H {} b \<longrightarrow> base N L H {} (snd y)", OF _ assms(2)], intro impI)
    fix f q g b y
    assume IH: "\<And>q g b y. f q g b = Some y \<Longrightarrow> good g \<longrightarrow> base N L H {} b \<longrightarrow> base N L H {} (snd y)"
      and eq: "Option.bind (dequeue q b) (\<lambda>(r, b1). case r of Inl e \<Rightarrow> Some (Inl e, b1)
       | Inr m \<Rightarrow> (case m of None \<Rightarrow> Some (Inr (), b1)
            | Some a \<Rightarrow> Option.bind (g a b1) (\<lambda>(r2, b2).
                  case r2 of Inl e \<Rightarrow> Some (Inl e, b2) | Inr _ \<Rightarrow> f q g b2))) = Some y"
      and g: "good g" and b: "base N L H {} b"
    obtain r b1 where d: "dequeue q b = Some (r, b1)" using eq by (cases "dequeue q b") auto
    from d b show "base N L H {} (snd y)"
    proof (cases rule: dequeue_cases)
      case 1
      with d eq show ?thesis by auto
    next
      case (2 a)
      with d eq obtain r2 b2 where rd: "g a b1 = Some (r2, b2)"
        and rest: "(case r2 of Inl e \<Rightarrow> Some (Inl e, b2) | Inr _ \<Rightarrow> f q g b2) = Some y"
        by (cases "g a b1") auto
      have "triple (base N L H {a}) (g a) (\<lambda>_. base N L H {}) (base N L H {})" using g by (simp add: good_def)
      from tripleD [OF this 2(3) rd] have "base N L H {} b2" by (simp split: sum.splits)
      with rest IH g show ?thesis by (auto split: sum.splits)
    qed
  qed
  with assms(1) show ?thesis by (simp add: good_def)
qed

lemma keeps_drain:
  "(\<And>N L H a. triple (base N L H {a}) (act a) (\<lambda>_. base N L H {}) (base N L H {})) \<Longrightarrow> keeps (drain q act)"
  using drain_base [of _ _ _ act q] by (intro keepsI) fastforce

lemma quiet_drain: "(\<And>a. quiet (act a)) \<Longrightarrow> keeps (drain q act)"
  by (rule keeps_drain, rule triple_weaken [OF quietD]) (auto intro: base_mono)

lemma quiet_resolve_delay [quiet_rules]: "quiet (resolve_delay p now a)"
  unfolding resolve_delay_def Let_def by (intro quiet_rules; simp)

lemma stage_messages_base:
  assumes "stage_messages p tq now staged b = Some y"
  shows "distinct staged \<longrightarrow> base N L H (set staged) b \<longrightarrow>
    (case fst y of Inl e \<Rightarrow> base N L H {} (snd y) | Inr st \<Rightarrow> distinct st \<and> base N L H (set st) (snd y))"
proof (rule stage_messages.raw_induct [where P = "\<lambda>p tq now staged b y. distinct staged \<longrightarrow> base N L H (set staged) b \<longrightarrow>
    (case fst y of Inl e \<Rightarrow> base N L H {} (snd y) | Inr st \<Rightarrow> distinct st \<and> base N L H (set st) (snd y))", OF _ assms])
  fix f p tq now staged b y
  assume IH: "\<And>p tq now staged b y. f p tq now staged b = Some y \<Longrightarrow> distinct staged \<longrightarrow> base N L H (set staged) b \<longrightarrow>
      (case fst y of Inl e \<Rightarrow> base N L H {} (snd y) | Inr st \<Rightarrow> distinct st \<and> base N L H (set st) (snd y))"
    and body: "Option.bind (dequeue tq b) (\<lambda>(r, b1). case r of Inl e \<Rightarrow> Some (Inl e, b1)
       | Inr m \<Rightarrow> (case m of None \<Rightarrow> Some (Inr staged, b1)
            | Some a \<Rightarrow> Option.bind (resolve_delay p now a b1) (\<lambda>(r2, b2).
                  case r2 of Inl e \<Rightarrow> Some (Inl e, b2) | Inr _ \<Rightarrow> f p tq now (staged @ [a]) b2))) = Some y"
  show "distinct staged \<longrightarrow> base N L H (set staged) b \<longrightarrow>
    (case fst y of Inl e \<Rightarrow> base N L H {} (snd y) | Inr st \<Rightarrow> distinct st \<and> base N L H (set st) (snd y))"
  proof (intro impI)
    assume ds: "distinct staged" and b: "base N L H (set staged) b"
    obtain r b1 where d: "dequeue tq b = Some (r, b1)" using body by (cases "dequeue tq b") auto
    from d b show "case fst y of Inl e \<Rightarrow> base N L H {} (snd y) | Inr st \<Rightarrow> distinct st \<and> base N L H (set st) (snd y)"
    proof (cases rule: dequeue_cases)
      case 1
      with d body ds show ?thesis by auto
    next
      case (2 a)
      with d body obtain r2 b2 where rd: "resolve_delay p now a b1 = Some (r2, b2)"
        and rest: "(case r2 of Inl e \<Rightarrow> Some (Inl e, b2) | Inr _ \<Rightarrow> f p tq now (staged @ [a]) b2) = Some y"
        by (cases "resolve_delay p now a b1") auto
      have "base N L H (insert a (set staged)) b2"
        using tripleD [OF quietD [OF quiet_resolve_delay subset_refl] 2(3) rd] by (simp split: sum.splits)
      then show ?thesis
        using rest IH [of p tq now "staged @ [a]" b2 y] ds 2(2) base_mono by (fastforce split: sum.splits)
    qed
  qed
qed

lemma triple_deliver_staged:
  "distinct st \<Longrightarrow> triple (base N L H (set st)) (each st (deliverCommitted io d)) (\<lambda>_. base N L H {}) (base N L H {})"
proof (induction st)
  case Nil
  then show ?case by (simp add: triple_ret)
next
  case (Cons a st)
  have E: "triple (base N L H (set (a # st))) (deliverCommitted io d a) (\<lambda>_. base N L H (set st)) (base N L H {})"
    using triple_deliverCommitted [of a "set (a # st)" N L H io d] Cons.prems
    by (auto intro: triple_frame_E base_mono)
  show ?case using triple_andThen [OF E] Cons by simp
qed

lemma keeps_loops [keep_rules]: "keeps (consumer_rollback io c sc)" "keeps (consumer_commit io c)"
proof -
  have r: "keeps (drain tq (\<lambda>a. redeliver io c a sc))" for tq
    by (rule keeps_drain) (use triple_redeliver in fastforce)
  have q: "quiet (\<lambda>b. whenever (isPersistent (msg b a)) (remove_stored io c a) b)" for a
  proof -
    have "(\<lambda>b. whenever (isPersistent (msg b a)) (remove_stored io c a) b) =
        andThen (reads (\<lambda>b. isPersistent (msg b a))) (\<lambda>p. whenever p (remove_stored io c a))"
      by (simp add: andThen_def reads_def fun_eq_iff)
    then show ?thesis by (auto intro!: quiet_rules)
  qed
  show "keeps (consumer_rollback io c sc)"
    by (rule keepsI) (auto simp: consumer_rollback_def ret_def split: option.splits dest: keepsD [OF r])
  show "keeps (consumer_commit io c)"
    by (rule keepsI) (auto simp: consumer_commit_def ret_def split: option.splits dest: keepsD [OF quiet_drain [OF q]])
qed

lemma keeps_option: "keeps f \<Longrightarrow> (\<And>x. keeps (g x)) \<Longrightarrow> keeps (case o' of None \<Rightarrow> f | Some x \<Rightarrow> g x)"
  by (cases o') simp_all

lemma keeps_producer_rollback [keep_rules]: "keeps (producer_rollback io p tx)"
  unfolding producer_rollback_def
  by (intro keeps_andThen keeps_option quiet_drain quiet_rules; rule quiet_keeps; intro quiet_rules)

lemma keeps_producer_commit [keep_rules]: "keeps (producer_commit io p tx)"
proof -
  have k: "keeps (andThen (stage_messages p tq now []) (\<lambda>staged.
           andThen (dest_commitTransaction io d tx) (\<lambda>_. each staged (deliverCommitted io d))))" for tq now d
    unfolding keeps_def
  proof (intro allI, rule triple_andThen [where Q = "\<lambda>st b. distinct st \<and> base N L H (set st) b" for N L H])
    fix N L H
    show "triple (base N L H {}) (stage_messages p tq now []) (\<lambda>st b. distinct st \<and> base N L H (set st) b) (base N L H {})"
    proof (rule tripleI)
      fix b r b' assume "base N L H {} b" "stage_messages p tq now [] b = Some (r, b')"
      then show "case r of Inl e \<Rightarrow> base N L H {} b' | Inr st \<Rightarrow> distinct st \<and> base N L H (set st) b'"
        using stage_messages_base [of p tq now "[]" b "(r, b')" N L H] by (simp split: sum.splits)
    qed
    fix st :: "maddr list"
    have "triple (base N L H (set st)) (andThen (dest_commitTransaction io d tx) (\<lambda>_. each st (deliverCommitted io d)))
       (\<lambda>_. base N L H {}) (base N L H {})" if "distinct st"
      by (rule triple_andThen [OF quietD [OF quiet_dest_commit]], simp) (rule triple_deliver_staged [OF that])
    then show "triple (\<lambda>b. distinct st \<and> base N L H (set st) b) (andThen (dest_commitTransaction io d tx) (\<lambda>_. each st (deliverCommitted io d)))
       (\<lambda>_. base N L H {}) (base N L H {})" unfolding triple_def by blast
  qed
  show ?thesis unfolding producer_commit_def
    by (intro keeps_andThen keeps_option k; rule quiet_keeps; intro quiet_rules)
qed

lemma keeps_sessions [keep_rules]:
  "keeps (session_commit io s)" "keeps (session_rollback io s sc)"
  unfolding session_commit_def session_rollback_def random_text_def
  by (intro keeps_andThen keeps_each keep_rules quiet_rules)+

lemma keeps_destroy [keep_rules]: "keeps (destroy_session io s)" "keeps (destroy_producer io p)"
proof -
  show "keeps (destroy_session io s)" unfolding destroy_session_def
    by (intro keeps_andThen keeps_each keeps_swallow keep_rules quiet_rules)
  have "keeps (if tq = None then ret () else producer_rollback io p tx)" for tq :: "qaddr option" and tx
    by (simp add: quiet_keeps quiet_ret keeps_producer_rollback)
  then show "keeps (destroy_producer io p)" unfolding destroy_producer_def case_prod_beta
    by (intro keeps_andThen [OF quiet_keeps [OF quiet_reads]])
qed

lemma keeps_if: "keeps f \<Longrightarrow> keeps g \<Longrightarrow> keeps (if c then f else g)"
  by simp

lemma keeps_close [keep_rules]: "keeps (conn_close io cn)"
  unfolding conn_close_def
  by (intro keeps_andThen keeps_if keeps_each keeps_destroy; rule quiet_keeps; intro quiet_rules)

section \<open>Operations on the chains\<close>

definition chain_at :: "(maddr \<Rightarrow> inFlightLink) \<Rightarrow> (caddr \<Rightarrow> maddr option \<times> maddr option) \<Rightarrow> caddr \<Rightarrow> maddr list \<Rightarrow> bool" where
  "chain_at L H c as \<longleftrightarrow> distinct as \<and> H c = (head_or as None, last_or None as) \<and> seg L c None as None \<and>
     (\<forall>a. link_owner (L a) = Some c \<longrightarrow> a \<in> set as)"

definition chains :: "(maddr \<Rightarrow> inFlightLink) \<Rightarrow> (caddr \<Rightarrow> maddr option \<times> maddr option) \<Rightarrow> bool" where
  "chains L H \<longleftrightarrow> (\<forall>c. \<exists>as. chain_at L H c as)"

lemma in_flight_chain: "in_flight b c as \<longleftrightarrow> chain_at (lk b) (heads b) c as"
  by (auto simp: in_flight_def chain_at_def heads_def)

lemma own_iff: "own b \<longleftrightarrow> (\<exists>N. base N (lk b) (heads b) {} b) \<and> chains (lk b) (heads b)"
  unfolding own_def chains_def in_flight_chain by (metis baseD(9,10))

lemma ownI: "base N L H A b \<Longrightarrow> chains L H \<Longrightarrow> own b"
  unfolding own_iff by (metis base_mono baseD(9,10) empty_subsetI)

lemma ownE: assumes "own b" obtains N L H where "base N L H {} b" "chains L H" "N = next_consumer b"
proof -
  from assms obtain N where N: "base N (lk b) (heads b) {} b" "chains (lk b) (heads b)" by (auto simp: own_iff)
  from N(1) have "base (next_consumer b) (lk b) (heads b) {} b"
    by (intro baseI) (use baseD [OF N(1)] in auto)
  with N(2) that show thesis by blast
qed

lemma own_keeps: "keeps f \<Longrightarrow> own b \<Longrightarrow> f b = Some (r, b') \<Longrightarrow> own b'"
  by (erule ownE) (blast intro: ownI dest: keepsD)

text \<open>Links change while every message in a place keeps its empty link.\<close>

lemma base_relink:
  assumes "base N L H A b" "B \<subseteq> A" "\<And>x. lk b x = no_link \<Longrightarrow> x \<notin> B \<Longrightarrow> lk b' x = no_link"
    "\<And>c. next_consumer b \<le> c \<Longrightarrow> heads b' c = heads b c" "queue_at (heap b') = queue_at (heap b)"
    "next_msg b' = next_msg b" "dest_at b' = dest_at b" "next_consumer b' = next_consumer b"
  shows "base N (lk b') (heads b') (A - B) b'"
proof -
  have h: "held b' = held b" using assms(5,7) by (auto simp: held_def queue_abs_def fun_eq_iff split: sum.splits)
  have q: "queues_ok (heap b')" using baseD(1) [OF assms(1)] assms(5) by (simp add: queues_ok_def)
  have fr: "free b x" if "x \<in> A" for x by (rule baseD(11) [OF assms(1) that])
  have nb: "x \<notin> B" if "x \<in># held b k" for x k using that fr assms(2) unfolding free_def by blast
  have nb2: "x \<notin> B" if "next_msg b \<le> x" for x using that fr assms(2) unfolding free_def by force
  show ?thesis
  proof (rule baseI)
    fix k x assume "x \<in># held b' k"
    then show "lk b' x = no_link" using h nb assms(3) baseD(4) [OF assms(1)] by simp
  next
    fix x assume "next_msg b' \<le> x"
    then show "lk b' x = no_link" using nb2 assms(3,6) baseD(6) [OF assms(1)] by simp
  next
    fix x assume "x \<in> A - B"
    then show "free b' x" using fr [of x] assms(3,6) h by (simp add: free_def)
  qed (use q h assms baseD [OF assms(1)] in auto)
qed

lemma link_inFlight_fields [simp]:
  "queue_at (heap (link_inFlight c a b)) = queue_at (heap b)" "next_msg (link_inFlight c a b) = next_msg b"
  "dest_at (link_inFlight c a b) = dest_at b" "next_consumer (link_inFlight c a b) = next_consumer b"
  by (auto simp: link_inFlight_def upd_link_def Let_def split: option.splits)

lemma unlink_inFlight_fields [simp]:
  "queue_at (heap (unlink_inFlight c a b)) = queue_at (heap b)" "next_msg (unlink_inFlight c a b) = next_msg b"
  "dest_at (unlink_inFlight c a b) = dest_at b" "next_consumer (unlink_inFlight c a b) = next_consumer b"
  by (auto simp: unlink_inFlight_def upd_link_def Let_def split: option.splits)

lemma chains_in_flight: "base N L H A b \<Longrightarrow> chains L H \<Longrightarrow> \<exists>as. in_flight b c as"
  unfolding in_flight_chain chains_def by (simp add: baseD(9,10))

lemma own_link:
  assumes b: "base N L H {a} b" and ch: "chains L H" and c: "c < N"
  shows "own (link_inFlight c a b)"
proof -
  have a: "lk b a = no_link" using baseD(11) [OF b, of a] by (simp add: free_def)
  obtain as where as: "in_flight b c as" using chains_in_flight [OF b ch] by blast
  have t: "lk b t \<noteq> no_link" if "inFlightTail (consumer_at b c) = Some t" for t
  proof -
    have "t \<in> set as" using as that by (auto simp: in_flight_def last_or_def split: if_splits)
    then have "link_owner (lk b t) = Some c" using in_flight_owner [OF as] by blast
    then show ?thesis by (auto simp: no_link_def)
  qed
  have "base N (lk (link_inFlight c a b)) (heads (link_inFlight c a b)) ({a} - {a}) (link_inFlight c a b)"
  proof (rule base_relink [OF b])
    fix x assume "lk b x = no_link" "x \<notin> {a}"
    then show "lk (link_inFlight c a b) x = no_link" using t by (auto simp: link_inFlight_state Let_def split: option.splits)
  next
    fix d assume "next_consumer b \<le> d"
    then have "d \<noteq> c" using c baseD(8) [OF b] by simp
    then show "heads (link_inFlight c a b) d = heads b d" by (simp add: heads_def link_inFlight_state)
  qed simp_all
  moreover have "\<exists>xs. in_flight (link_inFlight c a b) d xs" for d
    using link_inFlight_chain [OF as a] link_inFlight_other [OF as _ a] chains_in_flight [OF b ch, of d] by (cases "d = c") blast+
  ultimately show ?thesis unfolding own_def by auto
qed

lemma own_unlink:
  assumes "own b" "link_owner (lk b a) = Some c"
  shows "own (unlink_inFlight c a b)"
proof -
  from \<open>own b\<close> obtain N L H where b: "base N L H {} b" "chains L H" by (rule ownE)
  obtain as where as: "in_flight b c as" using chains_in_flight [OF b] by blast
  with assms(2) in_flight_owner have "a \<in> set as" by blast
  then obtain xs ys where split: "as = xs @ a # ys" by (auto simp: in_set_conv_decomp)
  note f = as [unfolded split]
  have l: "link_prev (lk b a) = last_or None xs" "link_next (lk b a) = head_or ys None"
    using f by (simp_all add: in_flight_def seg_append head_or_def)
  have ne: "last_or None xs \<noteq> Some a" "head_or ys None \<noteq> Some a"
    using f by (auto simp: in_flight_def last_or_def, auto simp: in_flight_def head_or_def split: list.splits)
  note st = unlink_inFlight_state [OF l ne, where c = c]
  have nn: "lk b x \<noteq> no_link" if "x \<in> set (xs @ a # ys)" for x
    using in_flight_owner [OF f, of x] that by (auto simp: no_link_def)
  have "base N (lk (unlink_inFlight c a b)) (heads (unlink_inFlight c a b)) ({} - {}) (unlink_inFlight c a b)"
  proof (rule base_relink [OF b(1)])
    fix x assume x: "lk b x = no_link"
    then have "x \<notin> set (xs @ a # ys)" using nn by blast
    then have "x \<noteq> a" "last_or None xs \<noteq> Some x" "head_or ys None \<noteq> Some x"
      by (auto simp: last_or_def, auto simp: head_or_def split: list.splits)
    then show "lk (unlink_inFlight c a b) x = no_link" unfolding st(1) using x by (metis join_other)
  next
    fix d assume d: "next_consumer b \<le> d"
    have "heads b c \<noteq> (None, None)" using f by (auto simp: in_flight_def heads_def last_or_def)
    then have "d \<noteq> c" using baseD(7) [OF b(1) d] by auto
    then show "heads (unlink_inFlight c a b) d = heads b d" by (simp add: heads_def st(4))
  qed simp_all
  moreover have "\<exists>zs. in_flight (unlink_inFlight c a b) d zs" for d
    using unlink_inFlight_chain(1,3) [OF f] chains_in_flight [OF b, of d] by (cases "d = c") blast+
  ultimately show ?thesis unfolding own_def by auto
qed

lemma own_acknowledgeOn:
  assumes "own b" "acknowledgeOn io c a b = Some (r, b')"
  shows "own b'"
proof -
  define tail where "tail mode = andThen (reads (\<lambda>b. isPersistent (msg b a))) (\<lambda>p.
           if \<not> p then ret ()
           else andThen (resolve_record io c a) (\<lambda>rec.
               if tomId rec = uint32_max then ret ()
               else if mode = DUPS_OK_ACKNOWLEDGE then
                 andThen (modify (upd_consumer c (\<lambda>x. x\<lparr>pendingAcks := pendingAcks x @ [rec]\<rparr>))) (\<lambda>_.
                 andThen (reads (\<lambda>b. length (pendingAcks (consumer_at b c)))) (\<lambda>n.
                   whenever (n \<ge> kDupsOkBatch) (flushPendingAcks c)))
               else andThen (reads (\<lambda>b. con_storage (consumer_at b c))) (\<lambda>s. remove_async s rec)))" for mode
  have q: "quiet (tail m)" for m unfolding tail_def by (intro quiet_rules) auto
  define b1 where "b1 = (if link_owner (link (msg b a)) = Some c then unlink_inFlight c a b else b)"
  have eq: "acknowledgeOn io c a b = (if con_mode b c = SESSION_TRANSACTED then Some (Inr (), b) else tail (con_mode b c) b1)"
    unfolding acknowledgeOn_def tail_def b1_def by (simp add: andThen_def reads_def ret_def modify_def whenever_def)
  have "own b1" using assms(1) own_unlink [of b a c] by (simp add: b1_def lk_def)
  with own_keeps [OF quiet_keeps [OF q]] assms eq show ?thesis by (auto split: if_splits)
qed

text \<open>Walking a detached chain: what is left of it is still linked and still carries the owner.\<close>

definition walking :: "nat \<Rightarrow> caddr \<Rightarrow> maddr option \<Rightarrow> maddr list \<Rightarrow> broker \<Rightarrow> bool" where
  "walking N c p rest b \<longleftrightarrow> base N (lk b) (heads b) {} b \<and> distinct rest \<and> heads b c = (None, None) \<and> seg (lk b) c p rest None \<and>
     (\<forall>a. link_owner (lk b a) = Some c \<longrightarrow> a \<in> set rest) \<and> (\<forall>d. d \<noteq> c \<longrightarrow> (\<exists>as. in_flight b d as))"

lemma walking_done: "walking N c p [] b \<Longrightarrow> own b"
  unfolding own_def walking_def
  by (auto simp: in_flight_def heads_def) (metis (mono_tags, lifting) distinct.simps(1) ends(1,3) in_flight_def prod.inject seg.simps(1))

lemma clear_link_fields [simp]:
  "queue_at (heap (clear_link a b)) = queue_at (heap b)" "next_msg (clear_link a b) = next_msg b" "dest_at (clear_link a b) = dest_at b"
  "next_consumer (clear_link a b) = next_consumer b" "heads (clear_link a b) = heads b" "consumer_at (clear_link a b) = consumer_at b"
  "lk (clear_link a b) = (lk b)(a := no_link)"
  by (simp_all add: clear_link_def upd_link_def) (simp add: fun_eq_iff lk_def)

lemma walking_clear:
  assumes "walking N c p (a # rest) b"
  shows "base N (lk (clear_link a b)) (heads (clear_link a b)) {a} (clear_link a b)" "walking N c (Some a) rest (clear_link a b)"
    "link_next (link (msg b a)) = head_or rest None"
proof -
  note w = assms [unfolded walking_def]
  have b: "base N (lk b) (heads b) {} b" using w by blast
  have a: "lk b a \<noteq> no_link" using w by (auto simp: no_link_def)
  have c: "base N (lk (clear_link a b)) (heads (clear_link a b)) ({} - {}) (clear_link a b)"
    by (rule base_relink [OF b]) auto
  have held: "held (clear_link a b) = held b" by (auto simp: held_def queue_abs_def fun_eq_iff split: sum.splits)
  have "a < next_msg b" "\<And>h. a \<notin># held b h" using a baseD(4,6) [OF b] not_le by blast+
  then have "free (clear_link a b) a" by (simp add: free_def held)
  then show "base N (lk (clear_link a b)) (heads (clear_link a b)) {a} (clear_link a b)"
    by (intro baseI) (use baseD [OF c] in auto)
  have "a \<notin> set rest" using w by simp
  then have s: "seg ((lk b)(a := no_link)) c (Some a) rest None" using w by (simp add: seg_other)
  have o: "\<forall>x. link_owner (lk (clear_link a b) x) = Some c \<longrightarrow> x \<in> set rest" using w by (auto simp: no_link_def)
  have "in_flight (clear_link a b) d as" if "in_flight b d as" "d \<noteq> c" for d as
  proof -
    have "a \<notin> set as" using in_flight_owner [OF that(1), of a] w that(2) by auto
    then show ?thesis using that(1) by (auto simp: in_flight_def seg_other no_link_def)
  qed
  then have "\<forall>d. d \<noteq> c \<longrightarrow> (\<exists>as. in_flight (clear_link a b) d as)" using w by blast
  with c s o w show "walking N c (Some a) rest (clear_link a b)" by (simp add: walking_def)
  show "link_next (link (msg b a)) = head_or rest None" using w by (simp add: lk_def [symmetric] head_or_def)
qed

lemma walking_same:
  "walking N c p rest b \<Longrightarrow> base N (lk b) (heads b) {} b' \<Longrightarrow> walking N c p rest b'"
proof -
  assume w: "walking N c p rest b" and b': "base N (lk b) (heads b) {} b'"
  have "lk b' = lk b" "heads b' = heads b" using baseD(9,10) [OF b'] by simp_all
  then show ?thesis using w b' unfolding walking_def in_flight_chain by simp
qed

text \<open>\<open>redeliver\<close> does not throw, as the destructor relies on.\<close>

definition nothrow :: "'a action \<Rightarrow> bool" where
  "nothrow f \<longleftrightarrow> (\<forall>b e b'. f b \<noteq> Some (Inl e, b'))"

lemma nothrow_andThen: "nothrow f \<Longrightarrow> (\<And>x. nothrow (g x)) \<Longrightarrow> nothrow (andThen f g)"
  by (auto simp: nothrow_def andThen_def split: option.splits sum.splits)

lemma nothrow_basic:
  "nothrow (ret x)" "nothrow (reads r)" "nothrow (modify m)" "nothrow (swallow u)" "nothrow (on_storage s t)" "nothrow epochMicroseconds"
  "nothrow (dest_enqueueOrSchedule d q a)"
  by (auto simp: nothrow_def ret_def reads_def modify_def swallow_def on_storage_def epochMicroseconds_def dest_enqueueOrSchedule_def
      Let_def split: option.splits prod.splits)

lemma nothrow_cond: "nothrow f \<Longrightarrow> nothrow g \<Longrightarrow> nothrow (if c then f else g)" "nothrow h \<Longrightarrow> nothrow (whenever c h)"
  by (auto simp: whenever_def nothrow_basic)

lemma nothrow_redeliver: "nothrow (redeliver io c a sc)"
  unfolding redeliver_def deadLetter_def remove_stored_def resolve_record_def remove_async_def enqueue_def nowMs_def Let_def case_prod_beta
  by (intro nothrow_andThen nothrow_cond nothrow_basic)

lemma redeliver_no_throw: "redeliver io c a sc b = Some (r, b') \<Longrightarrow> r = Inr ()"
  using nothrow_redeliver [of io c a sc] by (cases r) (auto simp: nothrow_def)

lemma recover_nodes_own:
  "walking N c p rest b \<Longrightarrow> recover_nodes io c (head_or rest None) b = Some (r, b') \<Longrightarrow> own b'"
proof (induction rest arbitrary: b p)
  case Nil
  then show ?case by (simp add: recover_nodes.simps walking_done)
next
  case (Cons a rest)
  note w = walking_clear [OF Cons.prems(1)]
  have "recover_nodes io c (Some a) b = Option.bind (redeliver io c a False (clear_link a b)) (\<lambda>(r, b').
       case r of Inl e \<Rightarrow> Some (Inl e, b') | Inr _ \<Rightarrow> recover_nodes io c (head_or rest None) b')"
    unfolding w(3) [symmetric] by (subst recover_nodes.simps) simp
  with Cons.prems(2) obtain r1 b1 where
    r: "redeliver io c a False (clear_link a b) = Some (r1, b1)" and
    k: "(case r1 of Inl e \<Rightarrow> Some (Inl e, b1) | Inr _ \<Rightarrow> recover_nodes io c (head_or rest None) b1) = Some (r, b')"
    by (cases "redeliver io c a False (clear_link a b)") auto
  have "base N (lk (clear_link a b)) (heads (clear_link a b)) {} b1"
    using tripleD [OF triple_redeliver w(1) r] by (simp split: sum.splits)
  then have "walking N c (Some a) rest b1" by (rule walking_same [OF w(2)])
  with Cons.IH k redeliver_no_throw [OF r] show ?case by simp
qed

lemma walking_start:
  assumes "own b" "in_flight b c as"
  shows "\<exists>N. walking N c None as (detach_chain c b)"
proof -
  from \<open>own b\<close> obtain N L H where b: "base N L H {} b" "chains L H" by (rule ownE)
  let ?d = "detach_chain c b"
  have lk: "lk ?d = lk b" by (simp add: detach_chain_def)
  have hd: "heads ?d = (heads b)(c := (None, None))" by (auto simp: detach_chain_def heads_def fun_eq_iff)
  have "base N (lk ?d) (heads ?d) ({} - {}) ?d"
    by (rule base_relink [OF b(1)]) (use lk hd baseD(7) [OF b(1)] in \<open>auto simp: detach_chain_def\<close>)
  moreover have "\<exists>xs. in_flight ?d d xs" if "d \<noteq> c" for d
    using chains_in_flight [OF b, of d] that unfolding in_flight_chain chain_at_def lk hd by auto
  ultimately show ?thesis using assms(2) lk hd by (auto simp: walking_def in_flight_def)
qed

lemma own_consumer_recover:
  assumes "own b" "consumer_recover io c b = Some (r, b')" shows "own b'"
proof -
  obtain as where as: "in_flight b c as" using assms(1) by (auto simp: own_def)
  then have "inFlightHead (consumer_at b c) = head_or as None" by (simp add: in_flight_def)
  with walking_start [OF assms(1) as] recover_nodes_own assms(2) show ?thesis
    by (auto simp: consumer_recover_def)
qed

lemma clear_nodes_own:
  "walking N c p rest b \<Longrightarrow> \<exists>b'. clear_nodes (head_or rest None) b = Some b' \<and> own b'"
proof (induction rest arbitrary: b p)
  case Nil
  then show ?case by (simp add: clear_nodes.simps walking_done)
next
  case (Cons a rest)
  note w = walking_clear [OF Cons.prems]
  have "clear_nodes (head_or (a # rest) None) b = clear_nodes (head_or rest None) (clear_link a b)"
    by (simp add: clear_nodes.simps [of "Some a"] w(3))
  with Cons.IH [OF w(2)] show ?case by simp
qed

lemma own_clearInFlight:
  assumes "own b" "clearInFlight c b = Some (r, b')" shows "own b'"
proof -
  obtain as where as: "in_flight b c as" using assms(1) by (auto simp: own_def)
  then have "inFlightHead (consumer_at b c) = head_or as None" by (simp add: in_flight_def)
  with walking_start [OF assms(1) as] clear_nodes_own assms(2) show ?thesis
    by (fastforce simp: clearInFlight_def)
qed

section \<open>Receiving\<close>

lemma triple_track:
  assumes ch: "chains L H" and c: "c < N"
  shows "triple (base N L H {a}) (track c a) (\<lambda>_. own) (base N L H {})"
proof (rule tripleI)
  fix b r b' assume b: "base N L H {a} b" and t: "track c a b = Some (r, b')"
  consider "b' = b" | tq where "enqueue tq a b = Some (r, b')" | "b' = link_inFlight c a b"
    using t by (auto simp: track_def modify_def ret_def split: option.splits if_splits)
  then have "own b'"
  proof cases
    case 1
    with b ch show ?thesis by (auto intro: ownI)
  next
    case (2 tq)
    with tripleD [OF triple_enqueue b, of a tq r b' "\<lambda>_. False"] ch show ?thesis by (auto intro: ownI split: sum.splits)
  next
    case 3
    with own_link [OF b ch c] show ?thesis by simp
  qed
  moreover have "\<exists>x. r = Inr x" using t by (auto simp: track_def modify_def ret_def enqueue_def split: option.splits if_splits)
  ultimately show "case r of Inl _ \<Rightarrow> base N L H {} b' | Inr _ \<Rightarrow> own b'" by auto
qed

lemma triple_recv_step:
  assumes ch: "chains L H" and c: "c < N"
  shows "triple (base N L H {}) (recv_step io c ut begun rm)
    (\<lambda>r b. case r of Again _ _ \<Rightarrow> base N L H {} b | Done _ \<Rightarrow> own b) (base N L H {})"
proof -
  let ?Q = "\<lambda>r b. case r of Again _ _ \<Rightarrow> base N L H {} b | Done _ \<Rightarrow> own b"
  have fin: "triple (base N L H A) (ret (Done x)) ?Q E" for x A E
    by (rule triple_ret) (auto intro: ownI [OF _ ch])
  have budget: "triple (base N L H A) (spend_budget ut begun rm) ?Q (base N L H {})" for A
    by (rule triple_weaken [OF quietD [OF quiet_blocks(4)]]) (auto split: recv_result.splits intro: ownI [OF _ ch] base_mono)
  have live: "triple (base N L H {a}) (andThen (track c a) (\<lambda>_. ret (Done (Some a)))) ?Q (base N L H {})" for a
    by (rule triple_andThen [OF triple_track [OF ch c]]) (rule triple_ret, simp)
  have seq: "triple (base N L H {a}) (andThen f g) ?Q (base N L H {})"
    if "quiet f" "\<And>x. triple (base N L H {a}) (g x) ?Q (base N L H {})" for a and f :: "'x action" and g
    by (rule triple_andThen [OF quietD [OF that(1)] that(2)]) simp
  have msg: "triple (base N L H {a}) (andThen (rehydrate io c a) (\<lambda>_. andThen (check_expired a) (\<lambda>expired.
             if expired then andThen (reads (\<lambda>b. isPersistent (msg b a))) (\<lambda>p.
               andThen (whenever p (remove_stored io c a)) (\<lambda>_. spend_budget ut begun rm))
             else andThen (track c a) (\<lambda>_. ret (Done (Some a)))))) ?Q (base N L H {})" for a
    by (intro seq quiet_rules triple_if budget live)
  show ?thesis unfolding recv_step_def
  proof (rule triple_andThen [OF quietD [OF quiet_reads]], simp, rule triple_andThen [OF triple_dequeue], goal_cases)
    case (1 q r)
    show ?case
    proof (cases r)
      case None
      then show ?thesis by (auto intro: triple_if triple_diverge fin)
    next
      case (Some a)
      then show ?thesis using msg [of a] by simp
    qed
  qed
qed

lemma recv_loop_own:
  assumes "chains L H" "c < N" "recv_loop io c ut begun rm b = Some y" "base N L H {} b"
  shows "own (snd y)"
proof -
  have "c < N \<longrightarrow> base N L H {} b \<longrightarrow> own (snd y)"
  proof (rule recv_loop.raw_induct [where P = "\<lambda>io c ut begun rm b y. c < N \<longrightarrow> base N L H {} b \<longrightarrow> own (snd y)", OF _ assms(3)], intro impI)
    fix f io c ut begun rm b y
    assume IH: "\<And>io c ut begun rm b y. f io c ut begun rm b = Some y \<Longrightarrow> c < N \<longrightarrow> base N L H {} b \<longrightarrow> own (snd y)"
      and eq: "Option.bind (recv_step io c ut begun rm b) (\<lambda>(r, b'). case r of Inl e \<Rightarrow> Some (Inl e, b')
         | Inr res \<Rightarrow> (case res of Done a \<Rightarrow> Some (Inr a, b') | Again begun' rm' \<Rightarrow> f io c ut begun' rm' b')) = Some y"
      and c: "c < N" and b: "base N L H {} b"
    obtain r b1 where s: "recv_step io c ut begun rm b = Some (r, b1)" using eq by (cases "recv_step io c ut begun rm b") auto
    note t = tripleD [OF triple_recv_step [OF assms(1) c] b s]
    show "own (snd y)"
    proof (cases r)
      case (Inl e)
      with t s eq show ?thesis by (auto intro: ownI [OF _ assms(1)])
    next
      case (Inr res)
      with t s eq IH c show ?thesis by (auto split: recv_result.splits)
    qed
  qed
  with assms show ?thesis by simp
qed

lemma own_recv: "own b \<Longrightarrow> c < next_consumer b \<Longrightarrow> recv io c t b = Some (r, b') \<Longrightarrow> own b'"
  unfolding recv_def by (erule ownE) (use recv_loop_own in fastforce)

section \<open>Runs of the broker\<close>

text \<open>A step is one call of a client, one delivery of a scheduler, one sweep of a storage worker, or a
  change a client makes to a message it holds (which cannot touch the private links).\<close>

inductive broker_step :: "io \<Rightarrow> broker \<Rightarrow> broker \<Rightarrow> bool" for io where
  step_connect: "createConnection b = Some (r, b') \<Longrightarrow> broker_step io b b'"
| step_setClientID: "setClientID cn cid b = Some (r, b') \<Longrightarrow> broker_step io b b'"
| step_start: "conn_start cn b = Some (r, b') \<Longrightarrow> broker_step io b b'"
| step_stop: "conn_stop cn b = Some (r, b') \<Longrightarrow> broker_step io b b'"
| step_listener: "setExceptionListener cn l b = Some (r, b') \<Longrightarrow> broker_step io b b'"
| step_close: "conn_close io cn b = Some (r, b') \<Longrightarrow> broker_step io b b'"
| step_createSession: "createSession io cn mode b = Some (r, b') \<Longrightarrow> broker_step io b b'"
| step_createDestination: "createDestination io s t n b = Some (r, b') \<Longrightarrow> broker_step io b b'"
| step_createConsumer: "session_createConsumer io s d expr b = Some (r, b') \<Longrightarrow> broker_step io b b'"
| step_createDurable: "createDurableConsumer io s d name expr b = Some (r, b') \<Longrightarrow> broker_step io b b'"
| step_unsubscribe: "unsubscribe io s d name b = Some (r, b') \<Longrightarrow> broker_step io b b'"
| step_createProducer: "session_createProducer io s d b = Some (r, b') \<Longrightarrow> broker_step io b b'"
| step_deleteConsumer: "session_deleteConsumer s u b = Some (r, b') \<Longrightarrow> broker_step io b b'"
| step_deleteProducer: "session_deleteProducer s u b = Some (r, b') \<Longrightarrow> broker_step io b b'"
| step_createMessage: "create_message bd rl b = Some (r, b') \<Longrightarrow> broker_step io b b'"
| step_edit: "(\<And>m. link (f m) = link m) \<Longrightarrow> broker_step io b (upd_msg a f b)"
| step_setDefault: "setDefault p opts b = Some (r, b') \<Longrightarrow> broker_step io b b'"
| step_disableID: "setDisableMessageID p v b = Some (r, b') \<Longrightarrow> broker_step io b b'"
| step_disableTimestamp: "setDisableMessageTimestamp p v b = Some (r, b') \<Longrightarrow> broker_step io b b'"
| step_send: "send io p a b = Some (r, b') \<Longrightarrow> broker_step io b b'"
| step_send_with: "send_with io p a opts b = Some (r, b') \<Longrightarrow> broker_step io b b'"
| step_recv: "c < next_consumer b \<Longrightarrow> recv io c t b = Some (r, b') \<Longrightarrow> broker_step io b b'"
| step_acknowledge: "acknowledgeOn io c a b = Some (r, b') \<Longrightarrow> broker_step io b b'"
| step_commit: "session_commit io s b = Some (r, b') \<Longrightarrow> broker_step io b b'"
| step_rollback: "session_rollback io s False b = Some (r, b') \<Longrightarrow> broker_step io b b'"
| step_recover: "session_recover io s b = Some (r, b') \<Longrightarrow> broker_step io b b'"
| step_setPolicy: "setRedeliveryPolicy d pol b = Some (r, b') \<Longrightarrow> broker_step io b b'"
| step_dropConsumer: "destroy_consumer io c b = Some (r, b') \<Longrightarrow> broker_step io b b'"
| step_dropProducer: "destroy_producer io p b = Some (r, b') \<Longrightarrow> broker_step io b b'"
| step_dropDestination: "destroy_destination d b = Some (r, b') \<Longrightarrow> broker_step io b b'"
| step_deliver: "broker_step io b (deliver_step d now b)"
| step_sweep: "sweep_tick (write_ok io) t1 t2 (storage_at b s) = Some cs \<Longrightarrow> broker_step io b (b\<lparr>storage_at := (storage_at b)(s := cs)\<rparr>)"

lemma own_session_recover:
  assumes "own b" "session_recover io s b = Some (r, b')" shows "own b'"
proof -
  have c: "triple own (consumer_recover io c) (\<lambda>_. own) own" for c
    using own_consumer_recover by (fastforce simp: triple_def split: sum.splits)
  have "triple own (session_recover io s) (\<lambda>_. own) own"
    unfolding session_recover_def
    by (rule triple_andThen [OF triple_reads [where Q = "\<lambda>_. own"]]) (auto intro!: triple_rules c)
  from tripleD [OF this assms] show ?thesis by (simp split: sum.splits)
qed

lemma own_destroy_consumer:
  assumes "own b" "destroy_consumer io c b = Some (r, b')" shows "own b'"
proof -
  have k: "triple own f (\<lambda>_. own) own" if "keeps f" for f :: "'x action"
    using own_keeps [OF that] by (fastforce simp: triple_def split: sum.splits)
  have c: "triple own (clearInFlight c) (\<lambda>_. own) own"
    using own_clearInFlight by (fastforce simp: triple_def split: sum.splits)
  have "triple own (destroy_consumer io c) (\<lambda>_. own) own"
    unfolding destroy_consumer_def by (intro triple_andThen [OF k] c keeps_swallow keep_rules quiet_rules)
  from tripleD [OF this assms] show ?thesis by (simp split: sum.splits)
qed

lemma own_modify: "quiet (modify f) \<Longrightarrow> own b \<Longrightarrow> own (f b)"
  using own_keeps [OF quiet_keeps, of "modify f" b "Inr ()" "f b"] by (simp add: modify_def)

lemma step_own: "broker_step io b b' \<Longrightarrow> own b \<Longrightarrow> own b'"
proof (induction rule: broker_step.induct)
  case (step_edit f b a)
  from own_modify [OF quiet_modify_msg [OF step_edit(1)] step_edit(2)] show ?case by simp
next
  case (step_deliver b d now)
  then show ?case by (auto elim!: ownE intro: ownI base_deliver_step)
next
  case (step_sweep t1 t2 b s cs)
  have "quiet (modify (\<lambda>b. b\<lparr>storage_at := (storage_at b)(s := cs)\<rparr>))" by (rule quiet_modify) simp
  from own_modify [OF this step_sweep(2)] show ?case .
qed (auto intro: own_keeps [OF quiet_keeps] own_keeps quiet_rules keep_rules own_recv own_acknowledgeOn own_session_recover own_destroy_consumer)

section \<open>The first state\<close>

text \<open>A process starts with no object at all; the disk, the clock and the random source are what they are.\<close>

definition start_broker :: "broker \<Rightarrow> bool" where
  "start_broker b \<longleftrightarrow>
     next_msg b = 0 \<and> next_queue b = 0 \<and> next_storage b = 0 \<and> next_consumer b = 0 \<and> next_producer b = 0 \<and>
     next_dest b = 0 \<and> next_session b = 0 \<and> next_connection b = 0 \<and> exch_destinations b = [] \<and>
     (\<forall>a. lk b a = no_link) \<and> (\<forall>q. queue_at (heap b) q = pq_empty) \<and> (\<forall>c. heads b c = (None, None)) \<and>
     (\<forall>d. sched_pending (dest_scheduler (dest_at b d)) = [])"

lemma start_own: "start_broker b \<Longrightarrow> own b"
proof -
  assume s: "start_broker b"
  have held: "held b h = {#}" for h
    using s by (cases h) (simp_all add: start_broker_def held_def queue_abs_def pq.abs_empty)
  have "base 0 (lk b) (heads b) {} b"
    by (rule baseI) (use s held in \<open>auto simp: start_broker_def queues_ok_def pq.invar_empty\<close>)
  moreover have "in_flight b c []" for c
    using s by (auto simp: in_flight_def start_broker_def heads_def no_link_def)
  ultimately show ?thesis unfolding own_def by blast
qed

interpretation broker_run: invariant_run start_broker "broker_step io" own for io
  by unfold_locales (auto intro: start_own step_own)

section \<open>One place for every message\<close>

text \<open>A broker at its start, to try the properties on.\<close>

definition sample_io :: io where
  "sample_io = \<lparr>services = sample_poco JNull, log_tokens = sample_tokenizer, log_ok = True, write_ok = True, stamp = ''now'',
     iter_ids = (\<lambda>ks. ks), iter_names = (\<lambda>ks. ks), poco_hash = (\<lambda>s. of_nat (length s)), nat_string = (\<lambda>n. ''h'')\<rparr>"

definition sample_destination :: destination where
  "sample_destination = \<lparr>dest_type = Queue, dest_name = [], dest_path = [], dest_uri = [], dest_hash = 0, messageCounter = 0,
     dest_consumers = [], dest_producers = [], dest_queue = None, defaultConsumer = None, dest_storage = 0,
     transactionBuffer = new_txBuffer sample_tokenizer (sample_poco JNull) None, dest_scheduler = new_scheduler, durableSubs = [],
     consumerToSubName = [], redelivery_policy = default_policy\<rparr>"

definition sample_consumer :: consumer where
  "sample_consumer = \<lparr>con_uuid = 0, con_destination = 0, con_queue = 0, con_session = 0, con_transactQueue = None, con_storage = 0,
     con_selector = None, pendingAcks = [], inFlightHead = None, inFlightTail = None\<rparr>"

definition sample_producer :: producer where
  "sample_producer = \<lparr>prod_uuid = 0, prod_destination = 0, prod_session = 0, prod_token = False, prod_transactQueue = None,
     disableMessageID = False, disableMessageTimestamp = False, prod_default = None\<rparr>"

definition sample_broker :: broker where
  "sample_broker = \<lparr>heap = \<lparr>msg_at = (\<lambda>_. new_message (TextBody []) 0 NOT_PERSISTENT), queue_at = (\<lambda>_. pq_empty)\<rparr>, next_msg = 0, next_queue = 0,
     storage_at = (\<lambda>_. sample_worker), next_storage = 0, consumer_at = (\<lambda>_. sample_consumer), next_consumer = 0,
     producer_at = (\<lambda>_. sample_producer), next_producer = 0, dest_at = (\<lambda>_. sample_destination), next_dest = 0,
     session_at = (\<lambda>_. \<lparr>sess_mode = AUTO_ACKNOWLEDGE, sess_connection = 0, suffix = [], sess_id = [], sess_destinations = [],
          sess_producers = [], sess_consumers = []\<rparr>), next_session = 0,
     connection_at = (\<lambda>_. \<lparr>clientID = [], conn_started = False, conn_closed = False, exceptionListener = None, conn_sessions = []\<rparr>),
     next_connection = 0, exch_destinations = [], exch_path = [], disk = (\<lambda>_. []), disk_log = (\<lambda>_. None),
     clock = (\<lambda>n. 1000000), clock_reads = 0, randoms = (\<lambda>n. of_nat (Suc n)), random_reads = 0\<rparr>"

lemma sample_start: "start_broker sample_broker"
  by (simp add: start_broker_def sample_broker_def sample_destination_def sample_consumer_def new_scheduler_def heads_def lk_def msg_def
      new_message_def)

text \<open>The state after a client has connected, opened a session and made a message.\<close>

definition sample_connected :: broker where
  "sample_connected = snd (the (createConnection sample_broker))"

definition sample_with_session :: broker where
  "sample_with_session = snd (the (createSession sample_io 0 CLIENT_ACKNOWLEDGE sample_connected))"

definition sample_with_message :: broker where
  "sample_with_message = snd (the (create_message (TextBody ''hi'') PERSISTENT sample_with_session))"

lemma sample_run: "(broker_step sample_io)\<^sup>*\<^sup>* sample_broker sample_with_message"
proof -
  have 1: "createConnection sample_broker = Some (Inr 0, sample_connected)"
    by (simp add: sample_connected_def createConnection_def action_defs sample_broker_def)
  have 2: "createSession sample_io 0 CLIENT_ACKNOWLEDGE sample_connected = Some (Inr 0, sample_with_session)"
    by (simp add: sample_with_session_def sample_connected_def createSession_def createConnection_def ensureOpen_def new_session_def
        random_text_def createRandomUUID_def upd_connection_def action_defs sample_broker_def)
  have 3: "create_message (TextBody ''hi'') PERSISTENT sample_with_session = Some (Inr (next_msg sample_with_session), sample_with_message)"
    by (simp add: sample_with_message_def create_message_def createRandomUUID_def new_msg_def andThen_def)
  note broker_step.step_connect [OF 1] broker_step.step_createSession [OF 2] broker_step.step_createMessage [OF 3]
  then show ?thesis by (meson rtranclp.rtrancl_into_rtrancl rtranclp.rtrancl_refl)
qed

end
