(* ===== verification/Settlement.thy ===== *)
theory Settlement
  imports Broker_Run
begin

text \<open>
  Settling what a consumer has received: acknowledgement, recovery, redelivery with backoff, and the
  dead-letter queue, on the broker with its storages.  The clients' calls run on the contract of the
  storage worker (\<open>durable_store\<close>) and on the chains of unsettled messages.
\<close>

section \<open>Acknowledging\<close>

text \<open>What an acknowledgement does to the chains: the message leaves the chain of the consumer, if it is
  in it, and every other chain stays.\<close>

definition settle :: "caddr \<Rightarrow> maddr \<Rightarrow> broker \<Rightarrow> broker" where
  "settle c a b = (if link_owner (lk b a) = Some c then unlink_inFlight c a b else b)"

lemma settle_chains:
  assumes "in_flight b c as"
  shows "in_flight (settle c a b) c (remove1 a as)" "in_flight b d zs \<Longrightarrow> d \<noteq> c \<Longrightarrow> in_flight (settle c a b) d zs"
proof -
  have "in_flight (settle c a b) c (remove1 a as) \<and> (in_flight b d zs \<longrightarrow> d \<noteq> c \<longrightarrow> in_flight (settle c a b) d zs)"
  proof (cases "a \<in> set as")
    case True
    then obtain xs ys where s: "as = xs @ a # ys" by (auto simp: in_set_conv_decomp)
    have "distinct as" using assms by (simp add: in_flight_def)
    then have r: "remove1 a as = xs @ ys" using s by (simp add: remove1_append)
    have o: "link_owner (lk b a) = Some c" using in_flight_owner [OF assms] True by blast
    show ?thesis unfolding r settle_def using o unlink_inFlight_chain [OF assms [unfolded s]] by auto
  next
    case False
    then have "link_owner (lk b a) \<noteq> Some c" using in_flight_owner [OF assms] by blast
    with False assms show ?thesis by (simp add: settle_def remove1_idem)
  qed
  then show "in_flight (settle c a b) c (remove1 a as)" "in_flight b d zs \<Longrightarrow> d \<noteq> c \<Longrightarrow> in_flight (settle c a b) d zs" by auto
qed

text \<open>Splicing changes links only: up to its link, every message stays what it is.\<close>

definition unlinked :: "message \<Rightarrow> message" where
  "unlinked m = m\<lparr>link := no_link\<rparr>"

lemma copy_relink [simp]: "unlinked (msg (upd_link y g b) x) = unlinked (msg b x)"
  by (simp add: upd_link_def unlinked_def)

lemma msg_upd_others [simp]: "msg (upd_consumer c f b) = msg b" "msg (upd_dest d u b) = msg b" "msg (upd_session s v b) = msg b"
  by (simp_all add: upd_consumer_def upd_dest_def upd_session_def msg_def fun_eq_iff)

lemma copy_unlink [simp]: "unlinked (msg (unlink_inFlight c a b) x) = unlinked (msg b x)"
  by (simp add: unlink_inFlight_def Let_def split: option.splits)

lemma copy_settle [simp]: "unlinked (msg (settle c a b) x) = unlinked (msg b x)"
  by (simp add: settle_def)

lemma copy_fields:
  assumes "unlinked m = unlinked m'"
  shows "isPersistent m = isPersistent m'" "storageTomId m = storageTomId m'" "storageOffset m = storageOffset m'" "uuid m = uuid m'"
    "jmsHeaders m = jmsHeaders m'" "body m = body m'" "props m = props m'" "reliability m = reliability m'"
    "cachedStorageBytes m = cachedStorageBytes m'" "located_record m = located_record m'"
  using assms by (auto simp: unlinked_def isPersistent_def located_record_def dest!: arg_cong [of _ _ "\<lambda>m. (reliability m, storageTomId m, storageOffset m, uuid m, jmsHeaders m, body m, props m, cachedStorageBytes m)"])

lemma settle_fields [simp]:
  "storage_at (settle c a b) = storage_at b" "session_at (settle c a b) = session_at b" "dest_at (settle c a b) = dest_at b"
  "con_storage (consumer_at (settle c a b) x) = con_storage (consumer_at b x)"
  "pendingAcks (consumer_at (settle c a b) x) = pendingAcks (consumer_at b x)"
  by (auto simp: settle_def unlink_inFlight_def upd_link_def upd_msg_def upd_consumer_def Let_def split: option.splits)

lemma settle_step: "andThen (whenever (link_owner (link (msg b a)) = Some c) (modify (unlink_inFlight c a))) g b = g () (settle c a b)"
  by (simp add: settle_def lk_def run_simps whenever_def)

lemma acknowledge_located:
  assumes "con_mode b c \<notin> {SESSION_TRANSACTED, DUPS_OK_ACKNOWLEDGE}" "isPersistent (msg b a)" "storageTomId (msg b a) \<noteq> uint32_max"
  defines "s \<equiv> con_storage (consumer_at b c)"
  shows "acknowledgeOn io c a b = Some (Inr (), (settle c a b)\<lparr>storage_at := (storage_at b)(s := removeAsync (located_record (msg b a)) (storage_at b s))\<rparr>)"
proof -
  note f = copy_fields [OF copy_settle, of c a b a]
  show ?thesis
    using assms f unfolding acknowledgeOn_def resolve_record_def remove_async_def
    by (simp add: run_simps settle_step) (simp add: located_record_def)
qed

lemma in_flight_storage [simp]: "in_flight (b\<lparr>storage_at := x\<rparr>) c as = in_flight b c as"
  by (rule in_flight_cong) simp_all

text \<open>C4: acknowledging a persistent message in the modes AUTO, CLIENT and INDIVIDUAL, when the location and the id that the message
  carries are those of a record of the consumer's storage, takes exactly that
  message out of the consumer's list of unsettled messages, leaves the lists of all other consumers alone
  (also when the message was received by another consumer), and lets the storage forget exactly its
  record: a scan after the call no longer returns it and returns all others.  In the mode CLIENT too it is this one message that is
  settled and none before it, contrary to the comment of that mode in \<open>Session.h\<close>.\<close>

theorem acknowledge_settles_one_message:
  assumes "con_mode b c \<notin> {SESSION_TRANSACTED, DUPS_OK_ACKNOWLEDGE}" "isPersistent (msg b a)" "in_flight b c as"
    "cs_holds (storage_at b (con_storage (consumer_at b c))) (xs @ (r, dat) # ys)"
    "storageTomId (msg b a) = tomId r" "storageOffset (msg b a) = offset r" "uuid (msg b a) = huuid (rheader r)"
  shows "\<exists>b' cs'. acknowledgeOn io c a b = Some (Inr (), b') \<and> in_flight b' c (remove1 a as) \<and>
     (\<forall>d zs. d \<noteq> c \<longrightarrow> in_flight b d zs \<longrightarrow> in_flight b' d zs) \<and>
     cs_scan True (storage_at b' (con_storage (consumer_at b' c))) = Some (xs @ ys, cs')"
proof -
  have "tomId r \<noteq> max32" using cs_holds_tomId [OF assms(4), of r dat] by simp
  then have t: "storageTomId (msg b a) \<noteq> uint32_max" using assms(5) by (simp add: uint32_max_def max32_def)
  have "same_place (located_record (msg b a)) r" using assms(5-7)
    by (simp add: same_place_def located_record_def default_record_def default_header_def)
  from worker.remove_holds [OF assms(4) this] worker.scan_holds
  obtain cs' where "cs_scan True (removeAsync (located_record (msg b a)) (storage_at b (con_storage (consumer_at b c)))) = Some (xs @ ys, cs')"
    by blast
  with acknowledge_located [OF assms(1,2) t, of io] settle_chains [OF assms(3)] show ?thesis by auto
qed

text \<open>A consumer that has received a stored message and not yet settled it.\<close>

definition sample_stored :: message where
  "sample_stored = (new_message (TextBody ''hi'') (huuid (rheader the_record)) PERSISTENT)\<lparr>storageTomId := tomId the_record,
     storageOffset := offset the_record\<rparr>"

definition sample_delivered :: "acknowledgeMode \<Rightarrow> broker" where
  "sample_delivered mode = link_inFlight 0 0 (upd_session 0 (\<lambda>x. x\<lparr>sess_mode := mode\<rparr>)
     (upd_msg 0 (\<lambda>_. sample_stored) sample_broker))"

lemma in_flight_unlinked: "heads b c = (None, None) \<Longrightarrow> (\<And>a. lk b a = no_link) \<Longrightarrow> in_flight b c []"
  by (simp add: in_flight_def heads_def no_link_def)

lemma sample_delivered_chain: "in_flight (sample_delivered mode) 0 [0]"
proof -
  have "heads sample_broker 0 = (None, None)" "\<And>a. lk sample_broker a = no_link" using sample_start by (simp_all add: start_broker_def)
  moreover have "lk (upd_msg 0 (\<lambda>_. sample_stored) sample_broker) a = lk sample_broker a" for a
    by (simp add: lk_def sample_stored_def new_message_def) (simp add: msg_def sample_broker_def new_message_def)
  ultimately have "in_flight (upd_session 0 (\<lambda>x. x\<lparr>sess_mode := mode\<rparr>) (upd_msg 0 (\<lambda>_. sample_stored) sample_broker)) 0 []"
    "lk (upd_session 0 (\<lambda>x. x\<lparr>sess_mode := mode\<rparr>) (upd_msg 0 (\<lambda>_. sample_stored) sample_broker)) 0 = no_link"
    by (auto intro!: in_flight_unlinked)
  from link_inFlight_chain [OF this] show ?thesis by (simp add: sample_delivered_def)
qed

lemma copy_link [simp]: "unlinked (msg (link_inFlight c a b) x) = unlinked (msg b x)"
  by (simp add: link_inFlight_def Let_def split: option.splits)

lemma sample_delivered_simps [simp]:
  "storage_at (sample_delivered mode) s = sample_worker" "con_mode (sample_delivered mode) 0 = mode"
  "isPersistent (msg (sample_delivered mode) 0)"
  "storageTomId (msg (sample_delivered mode) 0) = tomId the_record" "storageOffset (msg (sample_delivered mode) 0) = offset the_record"
  "uuid (msg (sample_delivered mode) 0) = huuid (rheader the_record)"
proof -
  have "unlinked (msg (sample_delivered mode) 0) = unlinked sample_stored" by (simp add: sample_delivered_def)
  note f = copy_fields [OF this]
  show "isPersistent (msg (sample_delivered mode) 0)" "storageTomId (msg (sample_delivered mode) 0) = tomId the_record"
    "storageOffset (msg (sample_delivered mode) 0) = offset the_record" "uuid (msg (sample_delivered mode) 0) = huuid (rheader the_record)"
    using f by (simp_all add: sample_stored_def new_message_def isPersistent_def)
qed (simp_all add: sample_delivered_def link_inFlight_def upd_link_def upd_msg_def upd_consumer_def upd_session_def con_mode_def
    sample_broker_def sample_consumer_def Let_def)

theorem acknowledge_settles_one_message_witness:
  "\<exists>b' cs'. acknowledgeOn sample_io 0 0 (sample_delivered CLIENT_ACKNOWLEDGE) = Some (Inr (), b') \<and> in_flight b' 0 [] \<and>
     cs_scan True (storage_at b' (con_storage (consumer_at b' 0))) = Some ([], cs')"
  using acknowledge_settles_one_message [of "sample_delivered CLIENT_ACKNOWLEDGE" 0 0 "[0]" "[]" the_record "[10, 20, 30]" "[]" sample_io]
  by (auto simp: one_record_store_ok cs_holds_idle sample_delivered_chain)

section \<open>Redelivering\<close>

text \<open>The message as it is delivered again.\<close>

definition redelivered_message :: "poco \<Rightarrow> message \<Rightarrow> message" where
  "redelivered_message P m =
     refreshCachedStorageBytes P (m\<lparr>jmsHeaders := (jmsHeaders m)\<lparr>redelivered := True,
       deliveryCount := deliveryCount (jmsHeaders m) + 1, deliveryTime := 0\<rparr>\<rparr>)"

definition over_limit :: "redeliveryPolicy \<Rightarrow> message \<Rightarrow> bool" where
  "over_limit p m \<longleftrightarrow> 0 \<le> sint (maxRedeliveries p) \<and> sint (maxRedeliveries p) < sint (deliveryCount (jmsHeaders m) + 1)"

definition con_policy :: "broker \<Rightarrow> caddr \<Rightarrow> redeliveryPolicy" where
  "con_policy b c = redelivery_policy (dest_at b (con_destination (consumer_at b c)))"

definition put_back :: "poco \<Rightarrow> qaddr \<Rightarrow> maddr \<Rightarrow> broker \<Rightarrow> broker" where
  "put_back P q a b =
     (let b1 = upd_msg a (redelivered_message P) b in b1\<lparr>heap := enqueue_msg q a (heap b1)\<rparr>)"

lemma upd_msg_twice: "upd_msg a f (upd_msg a g b) = upd_msg a (\<lambda>m. f (g m)) b"
  by (simp add: upd_msg_def msg_def set_msg_def)

lemma redeliver_now:
  assumes "\<not> over_limit (con_policy b c) (msg b a)" "sc \<or> sint (backoffMs (con_policy b c)) \<le> 0"
  shows "redeliver io c a sc b = Some (Inr (), put_back (services io) (con_queue (consumer_at b c)) a b)"
  using assms
  by (auto simp: redeliver_def run_simps upd_headers_def upd_msg_twice enqueue_def put_back_def redelivered_message_def [abs_def] Let_def
      over_limit_def con_policy_def not_less)

lemma put_back_fields [simp]:
  "consumer_at (put_back P q a b) = consumer_at b" "dest_at (put_back P q a b) = dest_at b"
  "msg (put_back P q a b) x = (if x = a then redelivered_message P (msg b a) else msg b x)"
  "next_msg (put_back P q a b) = next_msg b" "storage_at (put_back P q a b) = storage_at b"
  by (simp_all add: put_back_def Let_def upd_msg_def) (simp_all add: msg_def)

lemma redelivered_fields [simp]:
  "link (redelivered_message P m) = link m" "priority (jmsHeaders (redelivered_message P m)) = priority (jmsHeaders m)"
  by (simp_all add: redelivered_message_def refreshCachedStorageBytes_def)

lemma lk_put_back [simp]: "lk (put_back P q a b) = lk b"
  by (simp add: lk_def fun_eq_iff)

lemma put_back_queues:
  assumes "queues_ok (heap b)"
  shows "queues_ok (heap (put_back P q a b))"
    "queue_abs (heap (put_back P q a b)) q' =
       (if q' = q then spec_enqueue (band_of (Some (priority (jmsHeaders (msg b a))))) a (queue_abs (heap b) q) else queue_abs (heap b) q')"
proof -
  let ?h = "heap (upd_msg a (redelivered_message P) b)"
  have h: "queues_ok ?h" "queue_abs ?h = queue_abs (heap b)" using assms by (simp_all add: queues_ok_def queue_abs_def fun_eq_iff)
  have p: "msg_priority ?h a = priority (jmsHeaders (msg b a))" by (simp add: msg_priority_def upd_msg_def)
  show "queues_ok (heap (put_back P q a b))" using queues_ok_enqueue [OF h(1)] by (simp add: put_back_def Let_def)
  show "queue_abs (heap (put_back P q a b)) q' =
       (if q' = q then spec_enqueue (band_of (Some (priority (jmsHeaders (msg b a))))) a (queue_abs (heap b) q) else queue_abs (heap b) q')"
    using queue_abs_enqueue [OF h(1), of q a q'] h(2) p by (simp add: put_back_def Let_def)
qed

lemma copy_headers [simp]: "jmsHeaders (unlinked m) = jmsHeaders m" "link (unlinked m) = no_link"
  by (simp_all add: unlinked_def)

lemma clear_link_msg: "msg (clear_link a b) x = (if x = a then unlinked (msg b a) else msg b x)"
  by (simp add: clear_link_def upd_link_def unlinked_def)

text \<open>The whole walk, when no message is over the limit and there is no backoff.\<close>

lemma recover_nodes_now:
  assumes "seg (lk b) c p as None" "distinct as" "sint (backoffMs (con_policy b c)) \<le> 0"
    "\<forall>a \<in> set as. \<not> over_limit (con_policy b c) (msg b a)"
  shows "recover_nodes io c (head_or as None) b =
    Some (Inr (), fold (\<lambda>a b. put_back (services io) (con_queue (consumer_at b c)) a (clear_link a b)) as b)"
  using assms
proof (induction as arbitrary: b p)
  case Nil
  then show ?case by (simp add: recover_nodes.simps)
next
  case (Cons a as)
  let ?b = "clear_link a b" let ?b' = "put_back (services io) (con_queue (consumer_at b c)) a ?b"
  have n: "link_next (link (msg b a)) = head_or as None" using Cons.prems(1) by (simp add: lk_def [symmetric] head_or_def)
  have pol: "con_policy ?b c = con_policy b c" "con_policy ?b' c = con_policy b c" by (simp_all add: con_policy_def)
  have m: "deliveryCount (jmsHeaders (msg ?b a)) = deliveryCount (jmsHeaders (msg b a))" by (simp add: clear_link_msg unlinked_def)
  have r: "redeliver io c a False ?b = Some (Inr (), ?b')"
    using redeliver_now [of ?b c a False io] Cons.prems(3,4) pol m by (simp add: over_limit_def)
  have sg: "seg (lk ?b') c (Some a) as None" using Cons.prems(1,2) by (simp add: seg_other)
  have lim: "\<forall>x \<in> set as. \<not> over_limit (con_policy ?b' c) (msg ?b' x)"
    using Cons.prems(2,4) pol by (auto simp: clear_link_msg)
  have "recover_nodes io c (head_or as None) ?b' =
      Some (Inr (), fold (\<lambda>a b. put_back (services io) (con_queue (consumer_at b c)) a (clear_link a b)) as ?b')"
    using Cons.prems(2,3) pol(2) by (intro Cons.IH [OF sg _ _ lim]) simp_all
  then show ?case using r n by (simp add: recover_nodes.simps [of _ _ "Some a"])
qed

text \<open>What the walk leaves behind.\<close>

lemma walk_now:
  fixes P :: poco and c :: caddr
  assumes "queues_ok (heap b)" "distinct as"
  defines "b' \<equiv> fold (\<lambda>a b. put_back P (con_queue (consumer_at b c)) a (clear_link a b)) as b"
    and "q \<equiv> con_queue (consumer_at b c)"
  shows "consumer_at b' = consumer_at b \<and> dest_at b' = dest_at b \<and>
    msg b' x = (if x \<in> set as then redelivered_message P (unlinked (msg b x)) else msg b x) \<and>
    queue_abs (heap b') q' = (if q' = q
      then fold (\<lambda>a. spec_enqueue (band_of (Some (priority (jmsHeaders (msg b a))))) a) as (queue_abs (heap b) q)
      else queue_abs (heap b) q')"
  using assms(1,2) unfolding b'_def q_def
proof (induction as arbitrary: b)
  case (Cons a as)
  let ?b = "put_back P (con_queue (consumer_at b c)) a (clear_link a b)"
  have ok: "queues_ok (heap (clear_link a b))" "queue_abs (heap (clear_link a b)) = queue_abs (heap b)"
    using Cons.prems(1) by (simp_all add: queues_ok_def queue_abs_def fun_eq_iff)
  have pr: "priority (jmsHeaders (msg (clear_link a b) x)) = priority (jmsHeaders (msg b x))" for x
    by (simp add: clear_link_msg unlinked_def)
  then have "priority (jmsHeaders (msg ?b x)) = priority (jmsHeaders (msg b x))" for x by simp
  then show ?case
    using Cons.IH [OF put_back_queues(1) [OF ok(1)], of P "con_queue (consumer_at b c)" a] Cons.prems(2)
      put_back_queues(2) [OF ok(1), of P "con_queue (consumer_at b c)" a] ok(2) pr
    by (auto simp: clear_link_msg)
qed simp

text \<open>C5: \<open>recover\<close> puts every message that the consumer has received and not acknowledged back into its
  queue, in the order of receipt, each behind the queued messages of its priority: it returns, the consumer
  then has no unsettled message, every one of them is marked as redelivered with its delivery count raised
  by one and no delivery time, and no other message, no other queue and no other consumer's list changes
  (the redelivery limit not being exceeded, and without backoff).\<close>

theorem recover_requeues_in_receive_order:
  assumes "in_flight b c as" "queues_ok (heap b)" "sint (backoffMs (con_policy b c)) \<le> 0"
    "\<forall>a \<in> set as. \<not> over_limit (con_policy b c) (msg b a)"
  shows "\<exists>b'. consumer_recover io c b = Some (Inr (), b') \<and> in_flight b' c [] \<and>
    (\<forall>d zs. d \<noteq> c \<longrightarrow> in_flight b d zs \<longrightarrow> in_flight b' d zs) \<and>
    (\<forall>a. msg b' a = (if a \<in> set as then redelivered_message (services io) (unlinked (msg b a)) else msg b a)) \<and>
    (\<forall>q. queue_abs (heap b') q = (if q = con_queue (consumer_at b c)
      then fold (\<lambda>a. spec_enqueue (band_of (Some (priority (jmsHeaders (msg b a))))) a) as (queue_abs (heap b) q)
      else queue_abs (heap b) q))"
proof -
  let ?d = "detach_chain c b"
  define b' where "b' = fold (\<lambda>a b. put_back (services io) (con_queue (consumer_at b c)) a (clear_link a b)) as ?d"
  note f = assms(1) [unfolded in_flight_def]
  have d: "lk ?d = lk b" "msg ?d = msg b" "heap ?d = heap b" "con_policy ?d c = con_policy b c" "con_queue (consumer_at ?d c) = con_queue (consumer_at b c)"
    by (simp_all add: detach_chain_def con_policy_def)
  have r: "consumer_recover io c b = Some (Inr (), b')"
    using recover_nodes_now [of ?d c None as io] f assms(3,4) d by (simp add: consumer_recover_def b'_def)
  note w = walk_now [of ?d as "services io" c, folded b'_def, unfolded d]
  have c: "consumer_at b' = consumer_at ?d" and
    m: "msg b' x = (if x \<in> set as then redelivered_message (services io) (unlinked (msg b x)) else msg b x)" and
    q: "queue_abs (heap b') q = (if q = con_queue (consumer_at b c)
      then fold (\<lambda>a. spec_enqueue (band_of (Some (priority (jmsHeaders (msg b a))))) a) as (queue_abs (heap b) q)
      else queue_abs (heap b) q)" for x q
    using w assms(2) f by auto
  have l: "lk b' x = (if x \<in> set as then no_link else lk b x)" for x by (simp add: lk_def m unlinked_def)
  have "in_flight b' c []"
    using f c l by (auto simp: in_flight_def detach_chain_def no_link_def split: if_splits)
  moreover have "in_flight b' d zs" if "d \<noteq> c" "in_flight b d zs" for d zs
  proof -
    have "x \<notin> set as" if "x \<in> set zs" for x
      using in_flight_owner [OF assms(1), of x] in_flight_owner [OF \<open>in_flight b d zs\<close>, of x] that \<open>d \<noteq> c\<close> by auto
    then have "seg (lk b') d None zs None = seg (lk b) d None zs None" using l by (intro seg_cong) auto
    with that c l show ?thesis by (auto simp: in_flight_def detach_chain_def no_link_def split: if_splits)
  qed
  ultimately show ?thesis unfolding r using m q by (intro exI [of _ b'] conjI allI impI) simp_all
qed

theorem recover_requeues_in_receive_order_witness:
  "\<exists>b'. consumer_recover sample_io 0 (sample_delivered CLIENT_ACKNOWLEDGE) = Some (Inr (), b') \<and> in_flight b' 0 [] \<and>
    msg b' 0 = redelivered_message (services sample_io) (unlinked (msg (sample_delivered CLIENT_ACKNOWLEDGE) 0)) \<and>
    queue_abs (heap b') 0 = spec_enqueue (band_of (Some (priority (jmsHeaders (msg (sample_delivered CLIENT_ACKNOWLEDGE) 0))))) 0
        (queue_abs (heap (sample_delivered CLIENT_ACKNOWLEDGE)) 0)"
proof -
  let ?b = "sample_delivered CLIENT_ACKNOWLEDGE"
  have q: "queues_ok (heap ?b)"
    by (simp add: sample_delivered_def queues_ok_def sample_broker_def pq.invar_empty upd_session_def upd_msg_def)
  have "unlinked (msg ?b 0) = unlinked sample_stored" by (simp add: sample_delivered_def)
  then have "jmsHeaders (msg ?b 0) = default_headers" by (simp add: copy_fields(5) sample_stored_def new_message_def)
  moreover have pol: "con_policy ?b 0 = default_policy"
    by (simp add: sample_delivered_def con_policy_def sample_broker_def sample_destination_def upd_session_def upd_msg_def)
  ultimately have l: "\<forall>a \<in> set [0]. \<not> over_limit (con_policy ?b 0) (msg ?b a)" "sint (backoffMs (con_policy ?b 0)) \<le> 0"
    by (simp_all add: over_limit_def default_headers_def default_policy_def)
  have c: "con_queue (consumer_at ?b 0) = 0"
    by (simp add: sample_delivered_def link_inFlight_state sample_broker_def sample_consumer_def upd_session_def upd_msg_def split: option.splits)
  from recover_requeues_in_receive_order [OF sample_delivered_chain q l(2,1), of sample_io] obtain b' where
    "consumer_recover sample_io 0 ?b = Some (Inr (), b')" "in_flight b' 0 []"
    "\<forall>a. msg b' a = (if a \<in> set [0] then redelivered_message (services sample_io) (unlinked (msg ?b a)) else msg ?b a)"
    "\<forall>q. queue_abs (heap b') q = (if q = con_queue (consumer_at ?b 0)
      then fold (\<lambda>a. spec_enqueue (band_of (Some (priority (jmsHeaders (msg ?b a))))) a) [0] (queue_abs (heap ?b) q) else queue_abs (heap ?b) q)"
    by blast
  with c show ?thesis by auto
qed

section \<open>Storing and enqueueing\<close>

lemma storage_bytes_nonempty [simp]: "storage_bytes P m \<noteq> []"
  by (simp add: storage_bytes_def)

lemma store_message_ok:
  fixes io :: io and a :: maddr
  assumes "cs_holds (storage_at b s) rs" "write_ok io" "uuid (msg b a) \<noteq> 0"
  defines "dat \<equiv> storage_bytes (services io) (msg b a)"
  assumes "cs_room dat (storage_at b s)"
  shows "\<exists>r cs xs ys. store_message io s a b =
      Some (Inr (), upd_msg a (\<lambda>m. m\<lparr>cachedStorageBytes := dat, storageTomId := tomId r, storageOffset := offset r\<rparr>)
        (b\<lparr>storage_at := (storage_at b)(s := cs)\<rparr>)) \<and>
    rs = xs @ ys \<and> cs_holds cs (xs @ (r, dat) # ys) \<and> huuid (rheader r) = uuid (msg b a) \<and> deleted (rheader r) = 0"
proof -
  from worker.append_holds [OF assms(1,5) _ assms(3)] obtain r cs xs ys where
    a: "cs_append True (uuid (msg b a)) dat (storage_at b s) = Some (r, cs)" "rs = xs @ ys" "cs_holds cs (xs @ (r, dat) # ys)"
      "huuid (rheader r) = uuid (msg b a)" "deleted (rheader r) = 0" by (auto simp: dat_def)
  have "store_message io s a b = Some (Inr (), upd_msg a (\<lambda>m. m\<lparr>cachedStorageBytes := dat, storageTomId := tomId r, storageOffset := offset r\<rparr>)
        (b\<lparr>storage_at := (storage_at b)(s := cs)\<rparr>))"
    using a(1) assms(2) unfolding store_message_def by (simp add: run_simps dat_def Let_def on_storage_def andThen_def)
  with a(2-) show ?thesis by blast
qed

text \<open>A message without a delivery time goes into the queue at once.\<close>

lemma enqueue_now:
  assumes "deliveryTime (jmsHeaders (msg b a)) = 0"
  shows "dest_enqueueOrSchedule d q a b = Some (Inr (), b\<lparr>heap := enqueue_msg q a (heap b)\<rparr>)"
  using assms by (simp add: dest_enqueueOrSchedule_def enqueueOrSchedule_def clamp_delivery_def msg_def Let_def upd_dest_def)

section \<open>Dead letters\<close>

lemma swallow_ok: "f b = Some (Inr x, b') \<Longrightarrow> swallow f b = Some (Inr (), b')"
  by (simp add: swallow_def)

lemma dead_copy_fields [simp]:
  "uuid (dead_copy reason m) = uuid m" "reliability (dead_copy reason m) = reliability m" "body (dead_copy reason m) = body_copy (body m)"
  "priority (jmsHeaders (dead_copy reason m)) = priority (jmsHeaders m)" "deliveryTime (jmsHeaders (dead_copy reason m)) = 0"
  "link (dead_copy reason m) = no_link"
  by (simp_all add: dead_copy_def message_setProperty_def message_copy_def)

text \<open>The copy is stored, then queued.\<close>

lemma deadLetter_ok:
  fixes io :: io and a :: maddr and b :: broker and reason :: string
  assumes "deadLetterQueue (redelivery_policy (dest_at b d)) = Some q" "dest_queue (dest_at b q) = Some qq" "isPersistent (msg b a)"
    "uuid (msg b a) \<noteq> 0" "write_ok io" "queues_ok (heap b)" "cs_holds (storage_at b (dest_storage (dest_at b q))) rs"
  defines "D \<equiv> dead_copy reason (msg b a)" and "k \<equiv> next_msg b" and "t \<equiv> dest_storage (dest_at b q)"
  assumes "cs_room (storage_bytes (services io) D) (storage_at b t)"
  shows "\<exists>b' r cs us vs. deadLetter io d a reason b = Some (Inr (), b') \<and>
    storage_at b' = (storage_at b)(t := cs) \<and> rs = us @ vs \<and> cs_holds cs (us @ (r, storage_bytes (services io) D) # vs) \<and>
    huuid (rheader r) = uuid D \<and>
    msg b' = (msg b)(k := D\<lparr>cachedStorageBytes := storage_bytes (services io) D, storageTomId := tomId r, storageOffset := offset r\<rparr>) \<and>
    (\<forall>q'. queue_abs (heap b') q' = (if q' = qq then spec_enqueue (band_of (Some (priority (jmsHeaders (msg b a))))) k (queue_abs (heap b) qq)
       else queue_abs (heap b) q')) \<and>
    queues_ok (heap b') \<and> consumer_at b' = consumer_at b \<and> dest_at b' = dest_at b"
proof -
  define b1 where "b1 = b\<lparr>heap := set_msg k D (heap b), next_msg := Suc k\<rparr>"
  have b1: "msg b1 = (msg b)(k := D)" "storage_at b1 = storage_at b" "dest_at b1 = dest_at b" by (simp_all add: b1_def msg_def fun_eq_iff)
  from store_message_ok [of b1 t rs io k] assms b1 obtain r cs us vs where
    s: "store_message io t k b1 = Some (Inr (), upd_msg k (\<lambda>m. m\<lparr>cachedStorageBytes := storage_bytes (services io) D, storageTomId := tomId r,
          storageOffset := offset r\<rparr>) (b1\<lparr>storage_at := (storage_at b)(t := cs)\<rparr>))" and
    cs: "rs = us @ vs" "cs_holds cs (us @ (r, storage_bytes (services io) D) # vs)" "huuid (rheader r) = uuid D"
    by (auto simp: t_def)
  define b2 where "b2 = upd_msg k (\<lambda>m. m\<lparr>cachedStorageBytes := storage_bytes (services io) D, storageTomId := tomId r,
          storageOffset := offset r\<rparr>) (b1\<lparr>storage_at := (storage_at b)(t := cs)\<rparr>)"
  have b2: "msg b2 = (msg b)(k := D\<lparr>cachedStorageBytes := storage_bytes (services io) D, storageTomId := tomId r, storageOffset := offset r\<rparr>)"
    "storage_at b2 = (storage_at b)(t := cs)" "queue_at (heap b2) = queue_at (heap b)" "consumer_at b2 = consumer_at b" "dest_at b2 = dest_at b"
    by (simp_all add: b2_def b1_def msg_def fun_eq_iff upd_msg_def)
  let ?b = "b2\<lparr>heap := enqueue_msg qq k (heap b2)\<rparr>"
  have e: "dest_enqueueOrSchedule q qq k b2 = Some (Inr (), ?b)" by (rule enqueue_now) (simp add: b2 D_def)
  have "deadLetter io d a reason b = Some (Inr (), ?b)"
    unfolding deadLetter_def
  proof (rule swallow_ok)
    show "andThen (reads (\<lambda>b. deadLetterQueue (redelivery_policy (dest_at b d)))) (\<lambda>dlq.
       case dlq of
         None \<Rightarrow> ret ()
       | Some q \<Rightarrow>
           andThen (reads (\<lambda>b. msg b a)) (\<lambda>m.
           andThen (new_msg (dead_copy reason m)) (\<lambda>c.
           andThen (reads (\<lambda>b. dest_at b q)) (\<lambda>Q.
           andThen (whenever (isPersistent m) (store_message io (dest_storage Q) c)) (\<lambda>_.
             case dest_queue Q of
               None \<Rightarrow> ret ()
             | Some qq \<Rightarrow> dest_enqueueOrSchedule q qq c))))) b = Some (Inr (), ?b)"
      using assms(1-3) s [folded b2_def, unfolded t_def] e b1
      by (simp add: run_simps) (simp add: andThen_def new_msg_def run_simps k_def [symmetric] D_def [symmetric] b1_def [symmetric])
  qed
  moreover have q: "queues_ok (heap b2)" "queue_abs (heap b2) = queue_abs (heap b)" using assms(6) b2(3)
    by (simp_all add: queues_ok_def queue_abs_def fun_eq_iff)
  moreover have "msg ?b = msg b2" by (simp add: msg_def fun_eq_iff)
  moreover have "msg_priority (heap b2) k = priority (jmsHeaders (msg b a))"
    using b2(1) by (simp add: msg_priority_def msg_def [symmetric] D_def)
  ultimately show ?thesis using cs b2 queue_abs_enqueue [OF q(1), of qq k] queues_ok_enqueue [OF q(1)]
    by (intro exI [of _ ?b] exI [of _ r] exI [of _ cs] exI [of _ us] exI [of _ vs]) simp
qed

text \<open>The message with its redelivery counted.\<close>

definition counted :: "message \<Rightarrow> message" where
  "counted m = m\<lparr>jmsHeaders := (jmsHeaders m)\<lparr>redelivered := True, deliveryCount := deliveryCount (jmsHeaders m) + 1\<rparr>\<rparr>"

lemma counted_fields [simp]:
  "uuid (counted m) = uuid m" "isPersistent (counted m) = isPersistent m" "located_record (counted m) = located_record m"
  "storageTomId (counted m) = storageTomId m" "priority (jmsHeaders (counted m)) = priority (jmsHeaders m)"
  "deliveryCount (jmsHeaders (counted m)) = deliveryCount (jmsHeaders m) + 1"
  by (simp_all add: counted_def isPersistent_def located_record_def)

text \<open>C6: a persistent message whose redelivery would exceed the limit of the policy is not delivered
  again, when the policy names a dead-letter queue other than the consumer's own storage, the disk can be written and there is room: a copy of it, with the reason as a property and without a delivery time, is stored in the storage
  of the dead-letter queue and put into that queue at its priority, its own record disappears from the
  storage of the consumer, and no other queue and no other record changes.\<close>

theorem exceeded_limit_goes_to_dead_letter_queue:
  fixes b :: broker and a :: maddr and c :: caddr and io :: io
  assumes "over_limit (con_policy b c) (msg b a)" "deadLetterQueue (con_policy b c) = Some q" "dest_queue (dest_at b q) = Some qq"
    "isPersistent (msg b a)" "uuid (msg b a) \<noteq> 0" "a < next_msg b" "write_ok io" "queues_ok (heap b)"
    "s = con_storage (consumer_at b c)" "t = dest_storage (dest_at b q)" "s \<noteq> t"
    "cs_holds (storage_at b s) (xs @ (r, dat) # ys)" "same_place (located_record (msg b a)) r"
    "cs_holds (storage_at b t) rs"
    "D = dead_copy ''maxRedeliveries exceeded'' (counted (msg b a))" "cs_room (storage_bytes (services io) D) (storage_at b t)"
  shows "\<exists>b' r' us vs. redeliver io c a sessionClosing b = Some (Inr (), b') \<and>
    cs_holds (storage_at b' s) (xs @ ys) \<and>
    rs = us @ vs \<and> cs_holds (storage_at b' t) (us @ (r', storage_bytes (services io) D) # vs) \<and>
    msg b' (next_msg b) = D\<lparr>cachedStorageBytes := storage_bytes (services io) D, storageTomId := tomId r', storageOffset := offset r'\<rparr> \<and>
    (\<forall>q'. queue_abs (heap b') q' = (if q' = qq
       then spec_enqueue (band_of (Some (priority (jmsHeaders (msg b a))))) (next_msg b) (queue_abs (heap b) qq)
       else queue_abs (heap b) q'))"
proof -
  define b1 where "b1 = upd_msg a counted b"
  let ?d = "con_destination (consumer_at b c)"
  have b1: "msg b1 a = counted (msg b a)" "dest_at b1 = dest_at b" "storage_at b1 = storage_at b" "consumer_at b1 = consumer_at b"
    "next_msg b1 = next_msg b" "queue_abs (heap b1) = queue_abs (heap b)" "queues_ok (heap b1)"
    using assms(8) by (simp_all add: b1_def queue_abs_def queues_ok_def fun_eq_iff) (simp_all add: upd_msg_def)
  have "\<exists>b' r' cs us vs. deadLetter io ?d a ''maxRedeliveries exceeded'' b1 = Some (Inr (), b') \<and>
    storage_at b' = (storage_at b1)(t := cs) \<and> rs = us @ vs \<and> cs_holds cs (us @ (r', storage_bytes (services io) D) # vs) \<and>
    huuid (rheader r') = uuid D \<and>
    msg b' = (msg b1)(next_msg b := D\<lparr>cachedStorageBytes := storage_bytes (services io) D, storageTomId := tomId r', storageOffset := offset r'\<rparr>) \<and>
    (\<forall>q'. queue_abs (heap b') q' = (if q' = qq then spec_enqueue (band_of (Some (priority (jmsHeaders (msg b a))))) (next_msg b) (queue_abs (heap b) qq)
       else queue_abs (heap b) q')) \<and>
    queues_ok (heap b') \<and> consumer_at b' = consumer_at b1 \<and> dest_at b' = dest_at b1"
    using deadLetter_ok [of b1 ?d q qq a io rs "''maxRedeliveries exceeded''"] assms(2-5,7,10,14-16) b1 by (simp add: con_policy_def cong: if_cong)
  then obtain b2 r' cs us vs where
    d: "deadLetter io ?d a ''maxRedeliveries exceeded'' b1 = Some (Inr (), b2)" and
    b2: "storage_at b2 = (storage_at b)(t := cs)" "rs = us @ vs" "cs_holds cs (us @ (r', storage_bytes (services io) D) # vs)"
      "msg b2 = (msg b1)(next_msg b := D\<lparr>cachedStorageBytes := storage_bytes (services io) D, storageTomId := tomId r', storageOffset := offset r'\<rparr>)"
      "\<forall>q'. queue_abs (heap b2) q' = (if q' = qq then spec_enqueue (band_of (Some (priority (jmsHeaders (msg b a))))) (next_msg b) (queue_abs (heap b) qq)
       else queue_abs (heap b) q')" "consumer_at b2 = consumer_at b" "dest_at b2 = dest_at b"
    unfolding b1 by blast
  have m: "msg b2 a = counted (msg b a)" using b2(4) b1(1) assms(6) by simp
  have tom: "tomId (located_record (msg b a)) \<noteq> uint32_max"
    using cs_holds_tomId [OF assms(12), of r dat] assms(13) by (simp add: same_place_def uint32_max_def max32_def)
  then have st: "storageTomId (msg b a) \<noteq> uint32_max" by (simp add: located_record_def)
  define b3 where "b3 = b2\<lparr>storage_at := (storage_at b2)(s := removeAsync (located_record (msg b a)) (storage_at b2 s))\<rparr>"
  have rm: "remove_stored io c a b2 = Some (Inr (), b3)"
    unfolding remove_stored_def resolve_record_def remove_async_def
    using m st tom b2(6) assms(9) by (simp add: run_simps b3_def)
  have lim: "0 \<le> sint (maxRedeliveries (redelivery_policy (dest_at b ?d)))"
    "sint (maxRedeliveries (redelivery_policy (dest_at b ?d))) < sint (deliveryCount (jmsHeaders (msg b a)) + 1)"
    using assms(1) by (simp_all add: over_limit_def con_policy_def)
  have "redeliver io c a sessionClosing b = Some (Inr (), b3)"
    unfolding redeliver_def upd_headers_def counted_def [symmetric, abs_def]
    using lim d m rm assms(4) b1 by (simp add: run_simps b1_def [symmetric]) (simp add: andThen_def run_simps)
  moreover have "cs_holds (storage_at b3 s) (xs @ ys)"
    using worker.remove_holds [OF assms(12,13)] assms(11) b2(1) by (simp add: b3_def)
  moreover have "storage_at b3 t = cs" using assms(11) b2(1) by (simp add: b3_def)
  moreover have "msg b3 = msg b2" "heap b3 = heap b2" by (simp_all add: b3_def msg_def fun_eq_iff)
  ultimately show ?thesis using b2 by (intro exI [of _ b3] exI [of _ r'] exI [of _ us] exI [of _ vs]) simp
qed

definition sample_limit :: broker where
  "sample_limit = upd_dest 2 (\<lambda>x. x\<lparr>dest_queue := Some 5, dest_storage := 2\<rparr>)
     (upd_dest 0 (\<lambda>x. x\<lparr>redelivery_policy := default_policy\<lparr>maxRedeliveries := 0, deadLetterQueue := Some 2\<rparr>\<rparr>)
       (upd_msg 0 (\<lambda>_. sample_stored) (sample_broker\<lparr>next_msg := 3\<rparr>)))"

lemma sample_limit_simps:
  "con_policy sample_limit 0 = default_policy\<lparr>maxRedeliveries := 0, deadLetterQueue := Some 2\<rparr>"
  "msg sample_limit 0 = sample_stored" "storage_at sample_limit s = sample_worker" "con_storage (consumer_at sample_limit 0) = 0"
  "next_msg sample_limit = 3" "queues_ok (heap sample_limit)" "dest_queue (dest_at sample_limit 2) = Some 5" "dest_storage (dest_at sample_limit 2) = 2"
  by (simp_all add: sample_limit_def con_policy_def) (simp_all add: upd_msg_def upd_dest_def msg_def sample_broker_def sample_consumer_def
      sample_destination_def queues_ok_def pq.invar_empty)

lemma sample_worker_room: "length d < 10000 \<Longrightarrow> cs_room d sample_worker"
  by (simp add: cs_room_def fits_def one_record_store_def storage_append_def empty_storage_def currentTom_def Let_def tom_append_def
      tom_open_def file_write_def set_tom_def al_update_def sizeof_Header_def)

theorem exceeded_limit_goes_to_dead_letter_queue_witness:
  "\<exists>D b' r' us vs. D = dead_copy ''maxRedeliveries exceeded'' (counted sample_stored) \<and>
    redeliver sample_io 0 0 False sample_limit = Some (Inr (), b') \<and> cs_holds (storage_at b' 0) ([] @ []) \<and>
    [(the_record, [10, 20, 30])] = us @ vs \<and> cs_holds (storage_at b' 2) (us @ (r', storage_bytes (services sample_io) D) # vs) \<and>
    msg b' (next_msg sample_limit) = D\<lparr>cachedStorageBytes := storage_bytes (services sample_io) D, storageTomId := tomId r', storageOffset := offset r'\<rparr> \<and>
    (\<forall>q'. queue_abs (heap b') q' = (if q' = 5
       then spec_enqueue (band_of (Some (priority (jmsHeaders (msg sample_limit 0))))) (next_msg sample_limit) (queue_abs (heap sample_limit) 5)
       else queue_abs (heap sample_limit) q'))"
proof -
  have "length (storage_bytes (services sample_io) (dead_copy ''maxRedeliveries exceeded'' (counted sample_stored))) < 10000"
    by code_simp
  then have room: "cs_room (storage_bytes (services sample_io) (dead_copy ''maxRedeliveries exceeded'' (counted (msg sample_limit 0)))) (storage_at sample_limit 2)"
    by (simp add: sample_worker_room sample_limit_simps)
  have m: "over_limit (con_policy sample_limit 0) (msg sample_limit 0)" "isPersistent (msg sample_limit 0)" "uuid (msg sample_limit 0) \<noteq> 0"
    "same_place (located_record (msg sample_limit 0)) the_record"
    by (simp_all add: sample_limit_simps over_limit_def default_policy_def sample_stored_def new_message_def default_headers_def isPersistent_def
        the_record_def same_place_def located_record_def default_record_def default_header_def)
  have st: "cs_holds (storage_at sample_limit s) ([] @ (the_record, [10, 20, 30]) # [])" for s
    by (simp add: sample_limit_simps cs_holds_idle one_record_store_ok)
  have "write_ok sample_io" by (simp add: sample_io_def)
  from exceeded_limit_goes_to_dead_letter_queue [OF m(1) _ _ m(2,3) _ this _ _ _ _ st m(4) st refl room, where q = 2 and s = 0 and qq = 5 and sessionClosing = False]
  show ?thesis by (simp add: sample_limit_simps cong: if_cong)
qed

section \<open>Backoff\<close>

lemma sint_minus_one: "sint (w :: int32) \<ge> 1 \<Longrightarrow> sint (w - 1) = sint w - 1"
  using sint_lt [of w] by (simp add: sint_word_ariths signed_take_bit_int_eq_self)

lemma sint_of_int_small: "0 \<le> i \<Longrightarrow> i < 2 ^ 63 \<Longrightarrow> sint (word_of_int i :: int64) = i"
  by (simp add: signed_of_int signed_take_bit_int_eq_self)

text \<open>C34: the delay before the n-th redelivery is the backoff of the policy, doubled with every
  redelivery, up to the maximum of the policy, for a positive backoff and a maximum below \<open>2 ^ 53\<close> milliseconds; the computation in doubles is exact, and neither the
  doubling nor the conversion back overflows, however often the message was redelivered.\<close>

theorem backoff_doubles_up_to_maximum:
  assumes "0 < sint (backoffMs p)" "sint (backoffMs p) < 2 ^ 53" "0 \<le> sint (maxBackoffMs p)" "sint (maxBackoffMs p) < 2 ^ 53" "1 \<le> sint dc"
  shows "sint (backoff_delay p dc) = min (sint (backoffMs p) * 2 ^ nat (sint dc - 1)) (sint (maxBackoffMs p))"
proof -
  define x where "x = sint (backoffMs p)" define y where "y = sint (maxBackoffMs p)" define n where "n = nat (sint dc - 1)"
  have "sint dc < 2 ^ 31" "sint dc \<ge> 1" using sint_lt [of dc] assms(5) by simp_all
  then have s: "sint (dc - 1) = int n" using sint_minus_one [of dc] by (simp add: n_def)
  have y: "y < 2 ^ 1024" using assms(4) by (simp add: y_def)
  have x: "x > 0" "\<bar>x\<bar> < 2 ^ 53" using assms by (simp_all add: x_def)
  have "\<bar>y\<bar> < 2 ^ 53" using assms by (simp add: y_def)
  then have rx: "double_of_int x = FFin (of_int x)" and ry: "double_of_int y = FFin (of_int y)"
    using x(2) by (simp_all add: double_of_int_def round_double_int)
  have big: "x * 2 ^ n \<ge> 2 ^ 1024" if "n > 1023"
  proof -
    have "(2 :: int) ^ 1024 \<le> 2 ^ n" using that by (intro power_increasing) auto
    also have "\<dots> \<le> x * 2 ^ n" using x by simp
    finally show ?thesis .
  qed
  show ?thesis
  proof (cases "n > 1023")
    case True
    then have "backoff_delay p dc = maxBackoffMs p"
      using s x(1) rx ry by (simp add: backoff_delay_def pow2_double_def x_def [symmetric] y_def [symmetric])
    moreover have "min (x * 2 ^ n) y = y" using big [OF True] y by (intro min_absorb2) linarith
    ultimately show ?thesis by (simp add: x_def y_def n_def)
  next
    case False
    have m: "mult_double (FFin (of_int x)) (FFin (2 powi int n)) =
        (if x * 2 ^ n \<ge> 2 ^ 1024 then FPosInf else FFin (of_int (x * 2 ^ n)))"
    proof -
      have "(of_int x :: rat) * 2 powi int n = of_int (x * 2 ^ n)" by simp
      moreover have "(2 :: rat) ^ 1024 \<le> of_int (x * 2 ^ n) \<longleftrightarrow> x * 2 ^ n \<ge> 2 ^ 1024"
        by (metis of_int_le_iff of_int_numeral of_int_power)
      ultimately show ?thesis using round_double_scaled [OF x(2)] by (simp add: Let_def del: of_int_mult)
    qed
    have e: "backoff_delay p dc = (if x * 2 ^ n < y then of_int (x * 2 ^ n) else maxBackoffMs p)"
      using s False rx ry m y by (simp add: backoff_delay_def pow2_double_def x_def [symmetric] y_def [symmetric] del: of_int_mult)
    have "sint (word_of_int (x * 2 ^ n) :: int64) = x * 2 ^ n" if "x * 2 ^ n < y"
      using that assms(4) x(1) by (intro sint_of_int_small) (auto simp: y_def)
    with e show ?thesis by (auto simp: x_def y_def n_def min_def)
  qed
qed

theorem backoff_doubles_up_to_maximum_witness:
  "sint (backoff_delay (default_policy\<lparr>backoffMs := 100\<rparr>) 4) = min (100 * 2 ^ nat (4 - 1)) 60000"
  using backoff_doubles_up_to_maximum [of "default_policy\<lparr>backoffMs := 100\<rparr>" 4] by (simp add: default_policy_def)

end
