(* ===== verification/Delivery.thy ===== *)
theory Delivery
  imports Settlement
begin

text \<open>
  The way of a message through the broker: from \<open>send\<close> over the copy, the storage and the queue of a
  consumer to \<open>recv\<close>, and from the storage through replay to \<open>recv\<close> after a restart.
\<close>

section \<open>Pushing\<close>

text \<open>What a consumer is given: a copy with the number of the destination.\<close>

definition pushed :: "int64 \<Rightarrow> message \<Rightarrow> message" where
  "pushed n m = (message_copy m)\<lparr>number := n\<rparr>"

lemma pushed_fields [simp]:
  "uuid (pushed n m) = uuid m" "isPersistent (pushed n m) = isPersistent m" "jmsHeaders (pushed n m) = jmsHeaders m"
  "body (pushed n m) = body_copy (body m)" "props (pushed n m) = props m" "number (pushed n m) = n" "reliability (pushed n m) = reliability m"
  by (simp_all add: pushed_def message_copy_def isPersistent_def)

definition accepts :: "broker \<Rightarrow> caddr \<Rightarrow> maddr \<Rightarrow> bool" where
  "accepts b c a \<longleftrightarrow> (case con_selector (consumer_at b c) of None \<Rightarrow> True | Some e \<Rightarrow> selector_matches e (msg b a))"

lemma push_refused: "\<not> accepts b c a \<Longrightarrow> push io c n p a b = Some (Inr (), b)"
  by (auto simp: push_def accepts_def run_simps split: option.splits)

lemma push_stored:
  fixes io :: io and a :: maddr and b :: broker and n :: int64 and c :: caddr
  assumes "accepts b c a" "transactionId b p = []" "isPersistent (msg b a)" "uuid (msg b a) \<noteq> 0" "write_ok io" "queues_ok (heap b)"
    "deliveryTime (jmsHeaders (msg b a)) = 0" "cs_holds (storage_at b (con_storage (consumer_at b c))) rs"
  defines "K \<equiv> pushed n (msg b a)" and "k \<equiv> next_msg b" and "s \<equiv> con_storage (consumer_at b c)" and "q \<equiv> con_queue (consumer_at b c)"
  assumes "cs_room (storage_bytes (services io) K) (storage_at b s)"
  shows "\<exists>b' r cs xs ys. push io c n p a b = Some (Inr (), b') \<and>
    storage_at b' = (storage_at b)(s := cs) \<and> rs = xs @ ys \<and> cs_holds cs (xs @ (r, storage_bytes (services io) K) # ys) \<and>
    msg b' = (msg b)(k := K\<lparr>cachedStorageBytes := storage_bytes (services io) K, storageTomId := tomId r, storageOffset := offset r\<rparr>) \<and>
    (\<forall>q'. queue_abs (heap b') q' = (if q' = q then spec_enqueue (band_of (Some (priority (jmsHeaders (msg b a))))) k (queue_abs (heap b) q)
       else queue_abs (heap b) q')) \<and> queues_ok (heap b') \<and>
    consumer_at b' = consumer_at b \<and> dest_at b' = dest_at b \<and> session_at b' = session_at b \<and> producer_at b' = producer_at b"
proof -
  define b1 where "b1 = b\<lparr>heap := set_msg k K (heap b), next_msg := Suc k\<rparr>"
  have b1: "msg b1 = (msg b)(k := K)" "storage_at b1 = storage_at b" "consumer_at b1 = consumer_at b" "transactionId b1 p = []"
    "producer_at b1 = producer_at b"
    using assms(2) by (simp_all add: b1_def msg_def fun_eq_iff transactionId_def)
  from store_message_ok [of b1 s rs io k] assms b1 obtain r cs xs ys where
    st: "store_message io s k b1 = Some (Inr (), upd_msg k (\<lambda>m. m\<lparr>cachedStorageBytes := storage_bytes (services io) K, storageTomId := tomId r,
          storageOffset := offset r\<rparr>) (b1\<lparr>storage_at := (storage_at b)(s := cs)\<rparr>))" and
    cs: "rs = xs @ ys" "cs_holds cs (xs @ (r, storage_bytes (services io) K) # ys)"
    by (auto simp: s_def)
  define b2 where "b2 = upd_msg k (\<lambda>m. m\<lparr>cachedStorageBytes := storage_bytes (services io) K, storageTomId := tomId r,
          storageOffset := offset r\<rparr>) (b1\<lparr>storage_at := (storage_at b)(s := cs)\<rparr>)"
  have b2: "msg b2 = (msg b)(k := K\<lparr>cachedStorageBytes := storage_bytes (services io) K, storageTomId := tomId r, storageOffset := offset r\<rparr>)"
    "storage_at b2 = (storage_at b)(s := cs)" "queue_at (heap b2) = queue_at (heap b)" "consumer_at b2 = consumer_at b" "dest_at b2 = dest_at b"
    "session_at b2 = session_at b" "producer_at b2 = producer_at b" "transactionId b2 p = []"
    using assms(2) by (simp_all add: b2_def b1_def msg_def fun_eq_iff upd_msg_def transactionId_def)
  let ?b = "b2\<lparr>heap := enqueue_msg q k (heap b2)\<rparr>"
  have prep: "preparePush io c n p a b = Some (Inr k, b2)"
    unfolding preparePush_def using assms(3,4) b1 st [folded b2_def, unfolded s_def]
    by (simp add: run_simps message_copy_def isPersistent_def)
      (simp add: andThen_def new_msg_def run_simps k_def [symmetric] message_copy_def [symmetric] isPersistent_def K_def pushed_def b1_def)
  have "push io c n p a b = Some (Inr (), ?b)"
    unfolding push_def using assms(1,7) prep b2
    by (simp add: run_simps accepts_def split: option.splits) (simp_all add: andThen_def run_simps enqueue_def K_def q_def)
  moreover have q: "queues_ok (heap b2)" "queue_abs (heap b2) = queue_abs (heap b)" using assms(6) b2(3)
    by (simp_all add: queues_ok_def queue_abs_def fun_eq_iff)
  moreover have "msg ?b = msg b2" by (simp add: msg_def fun_eq_iff)
  moreover have "msg_priority (heap b2) k = priority (jmsHeaders (msg b a))"
    using b2(1) by (simp add: msg_priority_def msg_def [symmetric] K_def)
  ultimately show ?thesis using cs b2 queue_abs_enqueue [OF q(1), of q k] queues_ok_enqueue [OF q(1)]
    by (intro exI [of _ ?b] exI [of _ r] exI [of _ cs] exI [of _ xs] exI [of _ ys]) simp
qed

section \<open>Receiving\<close>

lemma dequeue_first:
  assumes "queues_ok (heap b)" "queue_abs (heap b) q = (p, k) # l"
  shows "\<exists>h. dequeue q b = Some (Inr (Some k), b\<lparr>heap := h\<rparr>) \<and> queue_abs h = (queue_abs (heap b))(q := l) \<and> queues_ok h \<and>
    msg_at h = msg_at (heap b)"
proof -
  from pq.deq_some [of "queue_at (heap b) q" p k l] assms obtain x where
    x: "try_dequeue (queue_at (heap b) q) = (Some k, x)" "pq_inv x" "pq_abs x = l"
    by (auto simp: queues_ok_def queue_abs_def)
  then show ?thesis using assms(1)
    by (intro exI [of _ "set_queue q x (heap b)"]) (simp add: dequeue_def queue_abs_def queues_ok_def fun_eq_iff)
qed

lemma dequeue_none:
  assumes "queues_ok (heap b)" "queue_abs (heap b) q = []" shows "dequeue q b = Some (Inr None, b)"
proof -
  have "try_dequeue (queue_at (heap b) q) = (None, queue_at (heap b) q)"
    using pq.deq_none [of "queue_at (heap b) q"] assms by (simp add: queues_ok_def queue_abs_def)
  then show ?thesis by (simp add: dequeue_def set_queue_def)
qed

text \<open>A message object after it was read again from the bytes of \<open>M\<close>.\<close>

definition reread :: "message \<Rightarrow> properties \<Rightarrow> msg_body \<Rightarrow> message \<Rightarrow> message" where
  "reread M Q B k = k\<lparr>number := number M, uuid := uuid M, reliability := reliability M, jmsHeaders := jmsHeaders M, props := Q,
     body := B, cachedStorageBytes := []\<rparr>"

lemma rehydrate_cached:
  assumes "isPersistent (msg b k)" "cachedStorageBytes (msg b k) = storage_bytes (services io) M" "wire_ok (services io) M"
    "reads_into (services io) M (msg b k) Q B"
  shows "rehydrate io c k b = Some (Inr (), upd_msg k (reread M Q B) b)"
  using assms fromBytes_into [OF assms(3,4)]
  by (simp add: rehydrate_def run_simps read_message_def andThen_def storage_bytes_def upd_msg_twice)
    (simp add: upd_msg_def reread_def)

lemma track_now: "con_transactQueue (consumer_at b c) = None \<Longrightarrow>
    track c k b = Some (Inr (), if con_mode b c = AUTO_ACKNOWLEDGE then b else link_inFlight c k b)"
  by (simp add: track_def run_simps)

lemma recv_first:
  fixes io :: io and b :: broker and c :: caddr
  defines "q \<equiv> con_queue (consumer_at b c)"
  assumes "queues_ok (heap b)" "queue_abs (heap b) q = (p, k) # l" "isPersistent (msg b k)"
    "cachedStorageBytes (msg b k) = storage_bytes (services io) M" "wire_ok (services io) M"
    "reads_into (services io) M (msg b k) Q B" "expiration (jmsHeaders M) = 0" "con_transactQueue (consumer_at b c) = None"
  shows "\<exists>b'. recv io c t b = Some (Inr (Some k), b') \<and> unlinked (msg b' k) = unlinked (reread M Q B (msg b k)) \<and>
    queue_abs (heap b') = (queue_abs (heap b))(q := l) \<and> storage_at b' = storage_at b \<and>
    (\<forall>as. con_mode b c \<noteq> AUTO_ACKNOWLEDGE \<longrightarrow> in_flight b c as \<longrightarrow> lk b k = no_link \<longrightarrow> in_flight b' c (as @ [k]))"
proof -
  from dequeue_first [OF assms(2,3)] obtain h where
    d: "dequeue q b = Some (Inr (Some k), b\<lparr>heap := h\<rparr>)" and
    h: "queue_abs h = (queue_abs (heap b))(q := l)" "msg_at h = msg_at (heap b)" by blast
  define b1 where "b1 = b\<lparr>heap := h\<rparr>"
  have b1: "msg b1 = msg b" "queue_abs (heap b1) = (queue_abs (heap b))(q := l)" "consumer_at b1 = consumer_at b" "storage_at b1 = storage_at b"
    "session_at b1 = session_at b" using h by (simp_all add: b1_def msg_def fun_eq_iff)
  define b2 where "b2 = upd_msg k (reread M Q B) b1"
  have r: "rehydrate io c k b1 = Some (Inr (), b2)"
    using rehydrate_cached [of b1 k io M Q B c] assms b1(1) by (simp add: b2_def)
  have m2: "msg b2 k = reread M Q B (msg b k)" by (simp add: b2_def b1)
  have e: "check_expired k b2 = Some (Inr False, b2)" using assms(8) by (simp add: check_expired_def run_simps m2 reread_def)
  have b2f: "consumer_at b2 = consumer_at b" "storage_at b2 = storage_at b" "session_at b2 = session_at b" "queue_abs (heap b2) = (queue_abs (heap b))(q := l)"
    using b1 by (simp_all add: b2_def queue_abs_def fun_eq_iff) (simp_all add: upd_msg_def)
  define b3 where "b3 = (if con_mode b2 c = AUTO_ACKNOWLEDGE then b2 else link_inFlight c k b2)"
  have t: "track c k b2 = Some (Inr (), b3)" using track_now [of b2 c k] assms(9) b2f by (simp add: b3_def)
  have "recv_step io c t None t b = Some (Inr (Done (Some k)), b3)"
    unfolding recv_step_def using d [folded b1_def] r e t by (simp add: run_simps q_def) (simp add: andThen_def run_simps)
  then have "recv io c t b = Some (Inr (Some k), b3)" by (simp add: recv_def recv_loop.simps)
  moreover have "unlinked (msg b3 k) = unlinked (reread M Q B (msg b k))" by (simp add: b3_def m2)
  moreover have "queue_abs (heap b3) = queue_abs (heap b2)" "storage_at b3 = storage_at b2"
    by (auto simp: b3_def queue_abs_def fun_eq_iff) (simp add: link_inFlight_def upd_link_def upd_msg_def upd_consumer_def Let_def split: option.splits)
  moreover have "in_flight b3 c (as @ [k])" if "con_mode b c \<noteq> AUTO_ACKNOWLEDGE" "in_flight b c as" "lk b k = no_link" for as
  proof -
    have l: "lk b2 = lk b" by (auto simp: lk_def b2_def b1 reread_def)
    then have "in_flight b2 c as" using that(2) b2f(1) in_flight_cong [of b2 c b as] by simp
    moreover have "con_mode b2 c \<noteq> AUTO_ACKNOWLEDGE" using that(1) b2f by (simp add: con_mode_def)
    ultimately show ?thesis using link_inFlight_chain [of b2 c as k] that(3) l by (simp add: b3_def)
  qed
  ultimately show ?thesis using b2f by (intro exI [of _ b3]) simp
qed

section \<open>Sending\<close>

text \<open>The headers the provider fills in before it hands a message to the destination.\<close>

definition filled :: "io \<Rightarrow> producer \<Rightarrow> int64 \<Rightarrow> message \<Rightarrow> message" where
  "filled io x now m =
     (let m1 = fill_messageId io x m in
      if disableMessageTimestamp x then m1\<lparr>jmsHeaders := (jmsHeaders m1)\<lparr>timestamp := 0\<rparr>\<rparr>
      else if timestamp (jmsHeaders m1) = 0 then m1\<lparr>jmsHeaders := (jmsHeaders m1)\<lparr>timestamp := now\<rparr>\<rparr>
      else m1)"

lemma filled_fields [simp]:
  "uuid (filled io x now m) = uuid m" "isPersistent (filled io x now m) = isPersistent m" "body (filled io x now m) = body m"
  "props (filled io x now m) = props m" "deliveryTime (jmsHeaders (filled io x now m)) = deliveryTime (jmsHeaders m)"
  "expiration (jmsHeaders (filled io x now m)) = expiration (jmsHeaders m)" "priority (jmsHeaders (filled io x now m)) = priority (jmsHeaders m)"
  "link (filled io x now m) = link m" "reliability (filled io x now m) = reliability m"
  by (simp_all add: filled_def fill_messageId_def Let_def isPersistent_def)

lemma send_fills:
  fixes io :: io
  assumes "prod_default (producer_at b p) = None"
  defines "x \<equiv> producer_at b p" and "now \<equiv> to_ms (clock b (clock_reads b))"
  shows "\<exists>n. send io p a b = save io (prod_destination x) p a ((upd_msg a (filled io x now) b)\<lparr>clock_reads := n\<rparr>)"
proof -
  define m1 where "m1 = fill_messageId io x (msg b a)"
  have "fill_timestamp p a (upd_msg a (fill_messageId io x) b) =
    Some (Inr (), (upd_msg a (filled io x now) b)\<lparr>clock_reads := (if disableMessageTimestamp x \<or> timestamp (jmsHeaders m1) \<noteq> 0 then clock_reads b
      else Suc (clock_reads b))\<rparr>)"
    by (simp add: fill_timestamp_def run_simps upd_headers_def upd_msg_twice m1_def x_def [symmetric])
      (simp add: nowMs_def epochMicroseconds_def andThen_def run_simps upd_msg_def filled_def Let_def x_def now_def msg_def set_msg_def)
  then have "send io p a b = save io (prod_destination x) p a
      ((upd_msg a (filled io x now) b)\<lparr>clock_reads := (if disableMessageTimestamp x \<or> timestamp (jmsHeaders m1) \<noteq> 0 then clock_reads b
      else Suc (clock_reads b))\<rparr>)"
    using assms(1) unfolding send_def dispatch_def by (simp add: run_simps x_def) (simp add: andThen_def)
  then show ?thesis by blast
qed

lemma save_to_queue:
  assumes "isQueueFamily (dest_at b d)" "dest_targets io d b = [c]"
    "push io c (messageCounter (dest_at b d)) p a (upd_dest d (\<lambda>x. x\<lparr>messageCounter := messageCounter (dest_at b d) + 1\<rparr>) b) = Some (Inr (), b')"
    "dest_type (dest_at b' d) = dest_type (dest_at b d)"
  shows "save io d p a b = Some (Inr (), b')"
proof -
  let ?b = "upd_dest d (\<lambda>x. x\<lparr>messageCounter := messageCounter (dest_at b d) + 1\<rparr>) b"
  have "dest_targets io d ?b = [c]" using assms(2) by (simp add: dest_targets_def isQueueFamily_def)
  moreover have "\<not> isTopicFamily (dest_at b' d)" using assms(1,4) by (auto simp: isQueueFamily_def isTopicFamily_def)
  ultimately show ?thesis using assms(3) by (simp add: save_def run_simps) (simp add: andThen_def run_simps)
qed

text \<open>A send to a queue with one consumer is a push to it, of the message with its provider headers.\<close>

lemma send_is_push:
  fixes b :: broker and a :: maddr and io :: io
  assumes "prod_default (producer_at b p) = None" "d = prod_destination (producer_at b p)" "isQueueFamily (dest_at b d)"
    "dest_targets io d b = [c]" "F = filled io (producer_at b p) (to_ms (clock b (clock_reads b))) (msg b a)"
  obtains b' where "msg b' = (msg b)(a := F)" "storage_at b' = storage_at b" "consumer_at b' = consumer_at b" "session_at b' = session_at b"
    "producer_at b' = producer_at b" "next_msg b' = next_msg b" "queue_at (heap b') = queue_at (heap b)"
    "dest_at b' = (dest_at b)(d := (dest_at b d)\<lparr>messageCounter := messageCounter (dest_at b d) + 1\<rparr>)"
    "\<And>b''. push io c (messageCounter (dest_at b d)) p a b' = Some (Inr (), b'') \<Longrightarrow> dest_type (dest_at b'' d) = dest_type (dest_at b d) \<Longrightarrow>
       send io p a b = Some (Inr (), b'')"
proof -
  let ?n = "messageCounter (dest_at b d)"
  from send_fills [OF assms(1), of io a] assms(2) obtain j where
    j: "send io p a b = save io d p a ((upd_msg a (filled io (producer_at b p) (to_ms (clock b (clock_reads b)))) b)\<lparr>clock_reads := j\<rparr>)"
    by auto
  define b0 where "b0 = (upd_msg a (filled io (producer_at b p) (to_ms (clock b (clock_reads b)))) b)\<lparr>clock_reads := j\<rparr>"
  have b0: "dest_at b0 = dest_at b" "dest_targets io d b0 = [c]" using assms(4) by (simp_all add: b0_def upd_msg_def dest_targets_def)
  define b' where "b' = upd_dest d (\<lambda>x. x\<lparr>messageCounter := ?n + 1\<rparr>) b0"
  show thesis
  proof (rule that [of b'])
    show "send io p a b = Some (Inr (), b'')" if "push io c ?n p a b' = Some (Inr (), b'')" "dest_type (dest_at b'' d) = dest_type (dest_at b d)" for b''
      unfolding j b0_def [symmetric] using save_to_queue [of b0 d io c p a b''] that b0 assms(3) by (simp add: b'_def)
  qed (use assms(5) in \<open>simp_all add: b'_def b0_def upd_msg_def upd_dest_def msg_def fun_eq_iff\<close>)
qed

text \<open>What a send to a queue with one consumer leaves behind.\<close>

lemma send_to_queue:
  fixes b :: broker and a :: maddr and io :: io
  assumes "prod_default (producer_at b p) = None" "d = prod_destination (producer_at b p)" "isQueueFamily (dest_at b d)"
    "dest_targets io d b = [c]" "transactionId b p = []" "con_selector (consumer_at b c) = None"
    "isPersistent (msg b a)" "uuid (msg b a) \<noteq> 0" "deliveryTime (jmsHeaders (msg b a)) = 0" "queues_ok (heap b)" "write_ok io"
    "s = con_storage (consumer_at b c)" "q = con_queue (consumer_at b c)" "cs_holds (storage_at b s) rs"
    "F = filled io (producer_at b p) (to_ms (clock b (clock_reads b))) (msg b a)"
    "M = pushed (messageCounter (dest_at b d)) F" "cs_room (storage_bytes (services io) M) (storage_at b s)"
  shows "\<exists>b' r cs xs ys. send io p a b = Some (Inr (), b') \<and>
    storage_at b' = (storage_at b)(s := cs) \<and> rs = xs @ ys \<and> cs_holds cs (xs @ (r, storage_bytes (services io) M) # ys) \<and>
    msg b' = (msg b)(a := F, next_msg b := M\<lparr>cachedStorageBytes := storage_bytes (services io) M, storageTomId := tomId r, storageOffset := offset r\<rparr>) \<and>
    queue_abs (heap b') q = spec_enqueue (band_of (Some (priority (jmsHeaders (msg b a))))) (next_msg b) (queue_abs (heap b) q) \<and>
    queues_ok (heap b') \<and> consumer_at b' = consumer_at b \<and> session_at b' = session_at b"
proof -
  let ?n = "messageCounter (dest_at b d)"
  from send_is_push [OF assms(1-4,15)] obtain bc where
    bc: "msg bc = (msg b)(a := F)" "storage_at bc = storage_at b" "consumer_at bc = consumer_at b" "session_at bc = session_at b"
      "producer_at bc = producer_at b" "next_msg bc = next_msg b" "queue_at (heap bc) = queue_at (heap b)"
      "dest_at bc = (dest_at b)(d := (dest_at b d)\<lparr>messageCounter := ?n + 1\<rparr>)" and
    sent: "\<And>b''. push io c ?n p a bc = Some (Inr (), b'') \<Longrightarrow> dest_type (dest_at b'' d) = dest_type (dest_at b d) \<Longrightarrow> send io p a b = Some (Inr (), b'')" by blast
  have q: "queues_ok (heap bc)" "queue_abs (heap bc) = queue_abs (heap b)"
    using bc(7) assms(10) by (simp_all add: queues_ok_def queue_abs_def fun_eq_iff)
  have acc: "accepts bc c a" using assms(6) bc by (simp add: accepts_def)
  have tx: "transactionId bc p = []" using assms(5) bc by (simp add: transactionId_def)
  have K: "pushed ?n (msg bc a) = M" using assms(16) bc by simp
  have F: "isPersistent (msg bc a)" "uuid (msg bc a) \<noteq> 0" "deliveryTime (jmsHeaders (msg bc a)) = 0"
    "priority (jmsHeaders (msg bc a)) = priority (jmsHeaders (msg b a))" using assms(7-9,15) bc(1) by simp_all
  have st: "cs_holds (storage_at bc (con_storage (consumer_at bc c))) rs"
    "cs_room (storage_bytes (services io) (pushed ?n (msg bc a))) (storage_at bc (con_storage (consumer_at bc c)))"
    using assms(12,14,17) bc K by simp_all
  from push_stored [OF acc tx F(1,2) assms(11) q(1) F(3) st, unfolded K F(4), unfolded q bc] obtain b1 r cs xs ys where
    "push io c ?n p a bc = Some (Inr (), b1)" and
    b1: "storage_at b1 = (storage_at b)(s := cs)" "rs = xs @ ys" "cs_holds cs (xs @ (r, storage_bytes (services io) M) # ys)"
      "msg b1 = (msg b)(a := F, next_msg b := M\<lparr>cachedStorageBytes := storage_bytes (services io) M, storageTomId := tomId r, storageOffset := offset r\<rparr>)"
      "queue_abs (heap b1) q = spec_enqueue (band_of (Some (priority (jmsHeaders (msg b a))))) (next_msg b) (queue_abs (heap b) q)"
      "queues_ok (heap b1)" "consumer_at b1 = consumer_at b" "session_at b1 = session_at b" and
    "dest_at b1 = (dest_at b)(d := (dest_at b d)\<lparr>messageCounter := ?n + 1\<rparr>)"
    unfolding assms(12,13) by auto
  then have "send io p a b = Some (Inr (), b1)" by (intro sent) simp_all
  with b1 show ?thesis by blast
qed

text \<open>A queue with a consumer, and a message to send.\<close>

definition sample_queue :: broker where
  "sample_queue = upd_dest 0 (\<lambda>x. x\<lparr>dest_consumers := [(1, 0)]\<rparr>)
     (upd_msg 0 (\<lambda>_. new_message (TextBody ''hi'') 7 PERSISTENT) (sample_broker\<lparr>next_msg := 1\<rparr>))"

lemma sample_queue_simps [simp]:
  "producer_at sample_queue p = sample_producer" "consumer_at sample_queue c = sample_consumer" "storage_at sample_queue s = sample_worker"
  "dest_at sample_queue 0 = sample_destination\<lparr>dest_consumers := [(1, 0)]\<rparr>" "msg sample_queue 0 = new_message (TextBody ''hi'') 7 PERSISTENT"
  "next_msg sample_queue = 1" "queue_abs (heap sample_queue) q = []" "queues_ok (heap sample_queue)" "transactionId sample_queue p = []"
  by (simp_all add: sample_queue_def) (simp_all add: sample_broker_def upd_dest_def upd_msg_def queue_abs_def queues_ok_def pq.invar_empty
      pq.abs_empty transactionId_def sample_producer_def)

lemma sample_queue_target: "dest_targets sample_io 0 sample_queue = [0]"
  by (simp add: dest_targets_def iter_map_def sample_io_def isQueueFamily_def sample_destination_def al_keys_def List.map_filter_def)

section \<open>Replay\<close>

text \<open>The object that replay makes of a stored message.\<close>

definition replayed :: "poco \<Rightarrow> srecord \<Rightarrow> message \<Rightarrow> message" where
  "replayed P r M = replayed_message r (storage_bytes P M) 0 (new_message (shell_body (body M)) 0 NOT_PERSISTENT)"

lemma clamp_prio_clamp: "clamp_prio (of_nat (clamp_prio p)) = clamp_prio p"
proof -
  have "clamp_prio p \<le> 9" by simp
  then have "clamp_prio p \<in> {0, 1, 2, 3, 4, 5, 6, 7, 8, 9}" by (simp add: le_Suc_eq numeral_eq_Suc)
  then show ?thesis by (auto simp: clamp_prio_def [of "of_nat _"])
qed

lemma priority_bands: "band_of (Some (priorityFromStorageBytes (storage_bytes P M))) = band_of (Some (priority (jmsHeaders M)))"
  using storage_bytes_offsets [of P M] by (simp add: priorityFromStorageBytes_def band_of_def clamp_prio_clamp)

lemma replayed_fields:
  assumes "deliveryTime (jmsHeaders M) = 0"
  shows "isPersistent (replayed P r M)" "cachedStorageBytes (replayed P r M) = storage_bytes P M" "props (replayed P r M) = []"
    "body (replayed P r M) = shell_body (body M)" "link (replayed P r M) = no_link" "deliveryTime (jmsHeaders (replayed P r M)) = 0"
    "band_of (Some (priority (jmsHeaders (replayed P r M)))) = band_of (Some (priority (jmsHeaders M)))"
proof -
  have same: "M\<lparr>jmsHeaders := (jmsHeaders M)\<lparr>deliveryTime := 0\<rparr>\<rparr> = M" using assms by (cases M; cases "jmsHeaders M") simp
  have "memcpy_at (storage_bytes P M) 43 (bytes64 0) = storage_bytes P M"
    using memcpy_storage_bytes [of P M 0] assms same by simp
  then show "cachedStorageBytes (replayed P r M) = storage_bytes P M"
    by (simp add: replayed_def replayed_message_def patchCachedDeliveryTime_def)
qed (simp_all add: replayed_def replayed_message_def patchCachedDeliveryTime_def new_message_def isPersistent_def priority_bands)

lemma replay_one:
  fixes d :: daddr
  assumes "deliveryTime (jmsHeaders M) = 0" "queues_ok (heap b)"
  shows "\<exists>b'. replay_record q d (r, storage_bytes P M) b = Some (Inr (), b') \<and> msg b' = (msg b)(next_msg b := replayed P r M) \<and>
    next_msg b' = Suc (next_msg b) \<and> queues_ok (heap b') \<and>
    queue_abs (heap b') = (queue_abs (heap b))(q := spec_enqueue (band_of (Some (priority (jmsHeaders M)))) (next_msg b) (queue_abs (heap b) q)) \<and>
    storage_at b' = storage_at b \<and> consumer_at b' = consumer_at b \<and> session_at b' = session_at b"
proof -
  let ?k = "next_msg b" and ?R = "replayed P r M"
  define b1 where "b1 = b\<lparr>clock_reads := Suc (clock_reads b), heap := set_msg ?k ?R (heap b), next_msg := Suc ?k\<rparr>"
  have b1: "msg b1 = (msg b)(?k := ?R)" by (simp add: b1_def msg_def fun_eq_iff)
  have t: "deliveryTimeFromStorageBytes now (storage_bytes P M) = 0" for now
    using storage_bytes_offsets [of P M] assms(1) by (simp add: deliveryTimeFromStorageBytes_def)
  have e: "dest_enqueueOrSchedule d q ?k b1 = Some (Inr (), b1\<lparr>heap := enqueue_msg q ?k (heap b1)\<rparr>)"
    by (rule enqueue_now) (simp add: b1 replayed_fields [OF assms(1)])
  have ne: "storage_bytes P M = type_code (message_type (body M)) # toBytes P M" by (simp add: storage_bytes_def)
  have "replay_record q d (r, storage_bytes P M) b = dest_enqueueOrSchedule d q ?k b1"
    unfolding replay_record_def replayed_time_def
    using storage_bytes_offsets [of P M] t assms(1)
    by (simp add: ne makeMessageShell_type b1_def replayed_def) (simp add: nowMs_def run_simps andThen_def new_msg_def epochMicroseconds_def)
  moreover have "queues_ok (heap b1)" "queue_abs (heap b1) = queue_abs (heap b)"
    using assms(2) by (simp_all add: b1_def queues_ok_def queue_abs_def fun_eq_iff)
  moreover have "band_of (Some (msg_priority (heap b1) ?k)) = band_of (Some (priority (jmsHeaders M)))"
    using b1 replayed_fields(7) [OF assms(1)] by (simp add: msg_priority_def msg_def [symmetric])
  ultimately show ?thesis using e queue_abs_enqueue [of "heap b1" q ?k] queues_ok_enqueue [of "heap b1" q ?k] b1
    by (intro exI [of _ "b1\<lparr>heap := enqueue_msg q ?k (heap b1)\<rparr>"]) (auto simp: fun_eq_iff b1_def msg_def)
qed

lemma replay_all:
  fixes d :: daddr
  assumes "\<forall>(r, dat) \<in> set rs. dat = storage_bytes P (M r) \<and> deliveryTime (jmsHeaders (M r)) = 0" "queues_ok (heap b)"
  shows "\<exists>b'. each rs (replay_record q d) b = Some (Inr (), b') \<and> queues_ok (heap b') \<and>
    (\<forall>x < next_msg b. msg b' x = msg b x) \<and>
    (\<forall>i < length rs. msg b' (next_msg b + i) = replayed P (fst (rs ! i)) (M (fst (rs ! i)))) \<and>
    queue_abs (heap b') = (queue_abs (heap b))(q :=
      fold (\<lambda>(k, r). spec_enqueue (band_of (Some (priority (jmsHeaders (M r))))) k) (zip [next_msg b ..< next_msg b + length rs] (map fst rs)) (queue_abs (heap b) q)) \<and>
    storage_at b' = storage_at b \<and> consumer_at b' = consumer_at b \<and> session_at b' = session_at b"
  using assms
proof (induction rs arbitrary: b)
  case Nil
  then show ?case by (simp add: run_simps)
next
  case (Cons x rs)
  obtain r dat where x: "x = (r, dat)" by fastforce
  with Cons.prems(1) have m: "dat = storage_bytes P (M r)" "deliveryTime (jmsHeaders (M r)) = 0"
    and rest: "\<forall>(r, dat) \<in> set rs. dat = storage_bytes P (M r) \<and> deliveryTime (jmsHeaders (M r)) = 0" by auto
  from replay_one [OF m(2) Cons.prems(2), of q d r P] obtain b1 where
    one: "replay_record q d x b = Some (Inr (), b1)" "msg b1 = (msg b)(next_msg b := replayed P r (M r))" "next_msg b1 = Suc (next_msg b)"
      "queues_ok (heap b1)"
      "queue_abs (heap b1) = (queue_abs (heap b))(q := spec_enqueue (band_of (Some (priority (jmsHeaders (M r))))) (next_msg b) (queue_abs (heap b) q))"
      "storage_at b1 = storage_at b" "consumer_at b1 = consumer_at b" "session_at b1 = session_at b"
    using x m(1) by blast
  from Cons.IH [OF rest one(4)] obtain b2 where
    two: "each rs (replay_record q d) b1 = Some (Inr (), b2)" "queues_ok (heap b2)" "\<forall>x < next_msg b1. msg b2 x = msg b1 x"
      "\<forall>i < length rs. msg b2 (next_msg b1 + i) = replayed P (fst (rs ! i)) (M (fst (rs ! i)))"
      "queue_abs (heap b2) = (queue_abs (heap b1))(q := fold (\<lambda>(k, r). spec_enqueue (band_of (Some (priority (jmsHeaders (M r))))) k)
         (zip [next_msg b1 ..< next_msg b1 + length rs] (map fst rs)) (queue_abs (heap b1) q))"
      "storage_at b2 = storage_at b1" "consumer_at b2 = consumer_at b1" "session_at b2 = session_at b1" by blast
  have "each (x # rs) (replay_record q d) b = Some (Inr (), b2)" using one(1) two(1) by (simp add: andThen_def)
  moreover have "msg b2 (next_msg b + i) = replayed P (fst ((x # rs) ! i)) (M (fst ((x # rs) ! i)))" if "i < length (x # rs)" for i
    using that two(3,4) one(2,3) x by (cases i) simp_all
  moreover have "zip [next_msg b ..< next_msg b + length (x # rs)] (map fst (x # rs)) =
      (next_msg b, r) # zip [next_msg b1 ..< next_msg b1 + length rs] (map fst rs)"
    using x one(3) by (simp add: upt_conv_Cons del: upt_Suc)
  ultimately show ?case using one two x by (intro exI [of _ b2]) simp
qed

text \<open>The order in which the replayed messages are received.\<close>

lemma fold_spec_enqueue_set:
  "snd ` set (fold (\<lambda>(k, r). spec_enqueue (f r) k) kr l) = fst ` set kr \<union> snd ` set l"
proof (induction kr arbitrary: l)
  case (Cons a kr)
  have "snd ` set (spec_enqueue p k l) = insert k (snd ` set l)" for p k and l :: "(nat \<times> 'a) list"
    by (force simp: spec_enqueue_def)
  with Cons show ?case by (cases a) auto
qed simp

text \<open>A storage that holds one message, as a broker finds it when it starts.\<close>

definition sample_message7 :: message where
  "sample_message7 = new_message (TextBody ''hi'') 7 PERSISTENT"

definition sample_append :: "srecord \<times> cstorage" where
  "sample_append = the (cs_append True 7 (storage_bytes (services sample_io) sample_message7) (cs_start 0 (new_cstorage empty_storage)))"

lemma sample_append_holds: "cs_holds (snd sample_append) [(fst sample_append, storage_bytes (services sample_io) sample_message7)]"
proof -
  have e: "cs_holds (cs_start 0 (new_cstorage empty_storage)) []"
    by (simp add: cs_holds_idle cs_start_def new_cstorage_def empty_storage_inv empty_storage_scan)
  have "length (storage_bytes (services sample_io) sample_message7) < 10000" by code_simp
  then have "cs_room (storage_bytes (services sample_io) sample_message7) (cs_start 0 (new_cstorage empty_storage))"
    by (simp add: cs_room_def cs_start_def new_cstorage_def fits_def empty_storage_def)
  from worker.append_holds [OF e this, of 7] show ?thesis by (auto simp: sample_append_def)
qed

definition sample_restarted :: broker where
  "sample_restarted = sample_broker\<lparr>storage_at := (\<lambda>_. snd sample_append)\<rparr>"

end
