(* ===== verification/Routing.thy ===== *)
theory Routing
  imports Delivery
begin

text \<open>
  What the clients of a destination see: no expired message is handed out, a topic reaches exactly the
  consumers whose selector accepts a message, and send options are checked before anything happens.
\<close>

section \<open>Expired messages\<close>

text \<open>The clock goes on: its readings stay what they are, and only later ones are taken.\<close>

definition since :: "(nat \<Rightarrow> int64) \<Rightarrow> nat \<Rightarrow> broker \<Rightarrow> bool" where
  "since C n b \<longleftrightarrow> clock b = C \<and> n \<le> clock_reads b"

definition steady :: "'a action \<Rightarrow> bool" where
  "steady f \<longleftrightarrow> (\<forall>b r b'. f b = Some (r, b') \<longrightarrow> clock b' = clock b \<and> clock_reads b \<le> clock_reads b')"

lemma steadyD: "steady f \<Longrightarrow> triple (since C n) f (\<lambda>_. since C n) E" if "\<And>b. since C n b \<Longrightarrow> E b"
  using that unfolding steady_def triple_def since_def by (fastforce split: sum.splits)

named_theorems steady_rules \<open>actions that only read the clock\<close>

lemma steady_andThen [steady_rules]: "steady f \<Longrightarrow> (\<And>x. steady (g x)) \<Longrightarrow> steady (andThen f g)"
  unfolding steady_def andThen_def by (auto split: option.splits sum.splits) (metis order_trans)+

lemma steady_basic [steady_rules]: "steady (ret x)" "steady (throw e)" "steady (reads f)" "steady (on_storage s g)" "steady epochMicroseconds"
    "steady (dequeue q)" "steady (enqueue q a)" "steady (modify (upd_msg a h))"
  by (auto simp: steady_def ret_def throw_def reads_def on_storage_def epochMicroseconds_def dequeue_def enqueue_def modify_def upd_msg_def
      split: option.splits prod.splits)

lemma steady_if [steady_rules]: "steady f \<Longrightarrow> steady g \<Longrightarrow> steady (if c then f else g)"
  by simp

lemma steady_whenever [steady_rules]: "steady f \<Longrightarrow> steady (whenever c f)"
  by (simp add: whenever_def steady_basic)

lemma steady_option [steady_rules]: "steady f \<Longrightarrow> (\<And>x. steady (g x)) \<Longrightarrow> steady (case o' of None \<Rightarrow> f | Some x \<Rightarrow> g x)"
  by (cases o') simp_all

lemma steady_prod [steady_rules]: "(\<And>x y. steady (f x y)) \<Longrightarrow> steady (case s of (x, y) \<Rightarrow> f x y)"
  by (cases s) simp

lemma steady_remove_async [steady_rules]: "steady (remove_async s r)"
  by (simp add: remove_async_def steady_def modify_def)

lemma steady_read_message [steady_rules]: "steady (read_message io a bs)"
  by (auto simp: steady_def read_message_def throw_def modify_def upd_msg_def split: sum.splits)

lemma steady_consumer [steady_rules]:
  "steady (rehydrate io c a)" "steady (remove_stored io c a)" "steady (spend_budget ut begun rm)" "steady nowMs"
  unfolding rehydrate_def remove_stored_def resolve_record_def spend_budget_def Let_def nowMs_def by (intro steady_rules)+

lemma steady_track [steady_rules]: "steady (track c a)"
  by (auto simp: steady_def track_def enqueue_def modify_def ret_def link_inFlight_def upd_link_def upd_msg_def upd_consumer_def Let_def
      split: option.splits if_splits)

text \<open>A message that had not expired at some reading of the clock since then.\<close>

definition fresh :: "(nat \<Rightarrow> int64) \<Rightarrow> nat \<Rightarrow> message \<Rightarrow> broker \<Rightarrow> bool" where
  "fresh C n m b \<longleftrightarrow> expiration (jmsHeaders m) = 0 \<or> (\<exists>i \<ge> n. i < clock_reads b \<and> \<not> isExpired m (to_ms (C i)))"

lemma check_expired_fresh:
  "triple (since C n) (check_expired a) (\<lambda>expired b. since C n b \<and> (\<not> expired \<longrightarrow> fresh C n (msg b a) b)) (\<lambda>_. False)"
  by (rule tripleI) (auto simp: check_expired_def run_simps nowMs_def epochMicroseconds_def andThen_def since_def fresh_def msg_def split: if_splits)

lemma isExpired_copy: "isExpired (unlinked m) = isExpired m"
  by (simp add: isExpired_def fun_eq_iff)

lemma track_message:
  assumes "track c a b = Some (r, b')"
  shows "unlinked (msg b' a) = unlinked (msg b a)" "clock_reads b' = clock_reads b" "\<exists>x. r = Inr x"
  using assms by (auto simp: track_def enqueue_def modify_def ret_def msg_def [of "b\<lparr>heap := _\<rparr>"] msg_def [symmetric] split: option.splits if_splits)
    (auto simp: link_inFlight_def upd_link_def upd_msg_def upd_consumer_def Let_def split: option.splits)

lemma track_fresh:
  "triple (\<lambda>b. fresh C n (msg b a) b) (track c a) (\<lambda>_ b. fresh C n (msg b a) b) (\<lambda>_. True)"
proof (rule tripleI)
  fix b r b' assume f: "fresh C n (msg b a) b" and t: "track c a b = Some (r, b')"
  note m = track_message [OF t]
  have "isExpired (msg b' a) = isExpired (msg b a)" using m(1) by (metis isExpired_copy)
  with f m(2) copy_fields(5) [OF m(1)] have "fresh C n (msg b' a) b'" by (simp add: fresh_def)
  then show "case r of Inl _ \<Rightarrow> True | Inr _ \<Rightarrow> fresh C n (msg b' a) b'" by (simp split: sum.splits)
qed

lemma recv_step_fresh:
  "triple (since C n) (recv_step io c ut begun rm)
     (\<lambda>r b. case r of Again _ _ \<Rightarrow> since C n b | Done x \<Rightarrow> (\<forall>a. x = Some a \<longrightarrow> fresh C n (msg b a) b)) (\<lambda>_. True)"
proof -
  let ?Q = "\<lambda>r b. case r of Again _ _ \<Rightarrow> since C n b | Done x \<Rightarrow> (\<forall>a. x = Some a \<longrightarrow> fresh C n (msg b a) b)"
  have seq: "triple (since C n) (andThen f g) ?Q (\<lambda>_. True)" if "steady f" "\<And>x. triple (since C n) (g x) ?Q (\<lambda>_. True)"
    for f :: "'x action" and g
    by (rule triple_andThen [OF steadyD [OF _ that(1)] that(2)]) simp
  have budget: "triple (since C n) (spend_budget ut begun rm) ?Q (\<lambda>_. True)"
    unfolding spend_budget_def Let_def by (intro triple_if seq steady_rules triple_ret) simp_all
  have live: "triple (\<lambda>b. fresh C n (msg b a) b) (andThen (track c a) (\<lambda>_. ret (Done (Some a)))) ?Q (\<lambda>_. True)" for a
    by (rule triple_andThen [OF track_fresh]) (rule triple_ret, simp)
  have m: "triple (since C n) (andThen (rehydrate io c a) (\<lambda>_. andThen (check_expired a) (\<lambda>expired.
             if expired then andThen (reads (\<lambda>b. isPersistent (msg b a))) (\<lambda>p.
               andThen (whenever p (remove_stored io c a)) (\<lambda>_. spend_budget ut begun rm))
             else andThen (track c a) (\<lambda>_. ret (Done (Some a)))))) ?Q (\<lambda>_. True)" for a
  proof (rule seq)
    fix x
    have E: "triple (since C n) (check_expired a) (\<lambda>expired b. since C n b \<and> (\<not> expired \<longrightarrow> fresh C n (msg b a) b)) (\<lambda>_. True)"
      using check_expired_fresh [of C n a] unfolding triple_def by (fastforce split: sum.splits)
    show "triple (since C n) (andThen (check_expired a) (\<lambda>expired.
             if expired then andThen (reads (\<lambda>b. isPersistent (msg b a))) (\<lambda>p.
               andThen (whenever p (remove_stored io c a)) (\<lambda>_. spend_budget ut begun rm))
             else andThen (track c a) (\<lambda>_. ret (Done (Some a))))) ?Q (\<lambda>_. True)"
      by (rule triple_andThen [OF E]) (auto intro!: triple_pre [OF live] triple_pre [OF seq] seq budget steady_rules)
  qed (rule steady_rules)
  show ?thesis unfolding recv_step_def
    by (intro seq steady_rules) (auto intro!: m triple_diverge triple_ret split: option.splits)
qed

lemma recv_loop_fresh:
  assumes "recv_loop io c ut begun rm b = Some y" "since C n b" "y = (Inr (Some a), b')"
  shows "fresh C n (msg b' a) b'"
proof -
  have "since C n b \<longrightarrow> (\<forall>a b'. y = (Inr (Some a), b') \<longrightarrow> fresh C n (msg b' a) b')"
  proof (rule recv_loop.raw_induct [where P = "\<lambda>io c ut begun rm b y. since C n b \<longrightarrow> (\<forall>a b'. y = (Inr (Some a), b') \<longrightarrow> fresh C n (msg b' a) b')",
        OF _ assms(1)], intro impI)
    fix f io c ut begun rm b y
    assume IH: "\<And>io c ut begun rm b y. f io c ut begun rm b = Some y \<Longrightarrow> since C n b \<longrightarrow> (\<forall>a b'. y = (Inr (Some a), b') \<longrightarrow> fresh C n (msg b' a) b')"
      and eq: "Option.bind (recv_step io c ut begun rm b) (\<lambda>(r, b'). case r of Inl e \<Rightarrow> Some (Inl e, b')
         | Inr res \<Rightarrow> (case res of Done a \<Rightarrow> Some (Inr a, b') | Again begun' rm' \<Rightarrow> f io c ut begun' rm' b')) = Some y"
      and b: "since C n b"
    obtain r b1 where s: "recv_step io c ut begun rm b = Some (r, b1)" using eq by (cases "recv_step io c ut begun rm b") auto
    with eq IH tripleD [OF recv_step_fresh b s] show "\<forall>a b'. y = (Inr (Some a), b') \<longrightarrow> fresh C n (msg b' a) b'"
      by (auto split: sum.splits recv_result.splits)
  qed
  with assms show ?thesis by blast
qed

text \<open>C12: \<open>recv\<close> never hands out a message that has expired: a message it returns has no expiration, or
  there was a reading of the clock during the call at which the message had not expired yet.\<close>

theorem recv_never_returns_expired:
  assumes "recv io c t b = Some (Inr (Some a), b')"
  shows "expiration (jmsHeaders (msg b' a)) = 0 \<or>
    (\<exists>i \<ge> clock_reads b. i < clock_reads b' \<and> \<not> isExpired (msg b' a) (to_ms (clock b i)))"
proof -
  have "fresh (clock b) (clock_reads b) (msg b' a) b'"
    by (rule recv_loop_fresh [OF assms [unfolded recv_def]]) (simp_all add: since_def)
  then show ?thesis by (simp add: fresh_def)
qed

text \<open>A queue with a message that expires later.\<close>

definition sample_waiting :: broker where
  "sample_waiting = (let b = upd_msg 0 (\<lambda>m. m\<lparr>jmsHeaders := (jmsHeaders m)\<lparr>expiration := 5000\<rparr>\<rparr>) sample_broker in b\<lparr>heap := enqueue_msg 0 0 (heap b)\<rparr>)"

lemma sample_waiting_recv: "\<exists>b'. recv sample_io 0 0 sample_waiting = Some (Inr (Some 0), b')"
proof -
  let ?b = "upd_msg 0 (\<lambda>m. m\<lparr>jmsHeaders := (jmsHeaders m)\<lparr>expiration := 5000\<rparr>\<rparr>) sample_broker"
  have ok: "queues_ok (heap ?b)" "queue_abs (heap ?b) 0 = []"
    by (simp_all add: queues_ok_def queue_abs_def sample_broker_def pq.invar_empty pq.abs_empty)
  have w: "sample_waiting = ?b\<lparr>heap := enqueue_msg 0 0 (heap ?b)\<rparr>" by (simp add: sample_waiting_def Let_def)
  have "queue_abs (heap sample_waiting) 0 = [(band_of (Some (msg_priority (heap ?b) 0)), 0)]"
    unfolding w using queue_abs_enqueue [OF ok(1), of 0 0 0] ok(2) by (simp add: spec_enqueue_def)
  moreover have "queues_ok (heap sample_waiting)" unfolding w using queues_ok_enqueue [OF ok(1)] by simp
  ultimately obtain h where h: "dequeue 0 sample_waiting = Some (Inr (Some 0), sample_waiting\<lparr>heap := h\<rparr>)" "msg_at h = msg_at (heap sample_waiting)"
    using dequeue_first [of sample_waiting 0] by blast
  have m: "msg (sample_waiting\<lparr>heap := h\<rparr>) 0 = (new_message (TextBody []) 0 NOT_PERSISTENT)\<lparr>jmsHeaders := default_headers\<lparr>expiration := 5000\<rparr>\<rparr>"
    using h(2) by (simp add: msg_def sample_waiting_def upd_msg_def sample_broker_def new_message_def Let_def)
  have c: "consumer_at sample_waiting = consumer_at sample_broker" "clock sample_waiting = clock sample_broker" "session_at sample_waiting = session_at sample_broker"
    by (simp_all add: sample_waiting_def upd_msg_def Let_def)
  have "\<exists>b'. recv_step sample_io 0 0 None 0 sample_waiting = Some (Inr (Done (Some 0)), b')"
    using h(1) c m
    by (simp add: recv_step_def run_simps sample_broker_def sample_consumer_def)
      (simp add: andThen_def rehydrate_def run_simps isPersistent_def new_message_def check_expired_def nowMs_def epochMicroseconds_def
        isExpired_def to_ms_def track_def con_mode_def sample_consumer_def msg_def)
  then show ?thesis by (auto simp: recv_def recv_loop.simps)
qed

theorem recv_never_returns_expired_witness:
  "\<exists>b'. recv sample_io 0 0 sample_waiting = Some (Inr (Some 0), b') \<and> (expiration (jmsHeaders (msg b' 0)) = 0 \<or>
    (\<exists>i \<ge> clock_reads sample_waiting. i < clock_reads b' \<and> \<not> isExpired (msg b' 0) (to_ms (clock sample_waiting i))))"
  using sample_waiting_recv recv_never_returns_expired by blast

section \<open>Topics\<close>

lemma push_memory:
  assumes "accepts b c a" "transactionId b p = []" "\<not> isPersistent (msg b a)" "uuid (msg b a) \<noteq> 0" "deliveryTime (jmsHeaders (msg b a)) = 0"
    "queues_ok (heap b)"
  shows "\<exists>b'. push io c n p a b = Some (Inr (), b') \<and> msg b' = (msg b)(next_msg b := pushed n (msg b a)) \<and> next_msg b' = Suc (next_msg b) \<and>
    queue_abs (heap b') = (queue_abs (heap b))(con_queue (consumer_at b c) :=
      spec_enqueue (band_of (Some (priority (jmsHeaders (msg b a))))) (next_msg b) (queue_abs (heap b) (con_queue (consumer_at b c)))) \<and>
    queues_ok (heap b') \<and> consumer_at b' = consumer_at b \<and> dest_at b' = dest_at b \<and> session_at b' = session_at b \<and> producer_at b' = producer_at b"
proof -
  let ?k = "next_msg b" and ?q = "con_queue (consumer_at b c)" and ?K = "pushed n (msg b a)"
  define b1 where "b1 = b\<lparr>heap := set_msg ?k ?K (heap b), next_msg := Suc ?k\<rparr>"
  have b1: "msg b1 = (msg b)(?k := ?K)" "transactionId b1 p = []" "consumer_at b1 = consumer_at b" "queues_ok (heap b1)" "queue_abs (heap b1) = queue_abs (heap b)"
    using assms(2,6) by (simp_all add: b1_def msg_def fun_eq_iff transactionId_def queues_ok_def queue_abs_def)
  have prep: "preparePush io c n p a b = Some (Inr ?k, b1)"
    unfolding preparePush_def using assms(3,4)
    by (simp add: run_simps message_copy_def isPersistent_def) (simp add: andThen_def new_msg_def run_simps isPersistent_def pushed_def message_copy_def b1_def)
  let ?b = "b1\<lparr>heap := enqueue_msg ?q ?k (heap b1)\<rparr>"
  have "push io c n p a b = Some (Inr (), ?b)"
    unfolding push_def using assms(1,5) prep b1
    by (simp add: run_simps accepts_def split: option.splits) (simp_all add: andThen_def run_simps enqueue_def)
  moreover have "msg ?b = msg b1" by (simp add: msg_def fun_eq_iff)
  moreover have "msg_priority (heap b1) ?k = priority (jmsHeaders (msg b a))" using b1(1) by (simp add: msg_priority_def msg_def [symmetric])
  ultimately show ?thesis using b1 queue_abs_enqueue [OF b1(4), of ?q ?k] queues_ok_enqueue [OF b1(4)]
    by (intro exI [of _ ?b]) (auto simp: fun_eq_iff b1_def)
qed

text \<open>Delivery to a list of consumers with queues of their own: \<open>K\<close> is the copy each of them gets.\<close>

definition fanned_out :: "broker \<Rightarrow> broker \<Rightarrow> int64 \<Rightarrow> maddr \<Rightarrow> caddr set \<Rightarrow> (caddr \<Rightarrow> maddr) \<Rightarrow> bool" where
  "fanned_out b b' n a cs K \<longleftrightarrow>
     inj_on K {c \<in> cs. accepts b c a} \<and>
     (\<forall>c \<in> cs. accepts b c a \<longrightarrow> next_msg b \<le> K c \<and> K c < next_msg b' \<and> msg b' (K c) = pushed n (msg b a) \<and>
        queue_abs (heap b') (con_queue (consumer_at b c)) =
          spec_enqueue (band_of (Some (priority (jmsHeaders (msg b a))))) (K c) (queue_abs (heap b) (con_queue (consumer_at b c)))) \<and>
     (\<forall>q. q \<notin> con_queue ` consumer_at b ` {c \<in> cs. accepts b c a} \<longrightarrow> queue_abs (heap b') q = queue_abs (heap b) q)"

lemma fanned_out_insert:
  fixes b b1 b2 :: broker and c :: caddr and a :: maddr and n :: int64
  assumes f: "fanned_out b1 b2 n a (set cs) K" and b1: "msg b1 = (msg b)(next_msg b := pushed n (msg b a))" "next_msg b1 = Suc (next_msg b)"
    and qa: "queue_abs (heap b1) = (queue_abs (heap b))(con_queue (consumer_at b c) :=
      spec_enqueue (band_of (Some (priority (jmsHeaders (msg b a))))) (next_msg b) (queue_abs (heap b) (con_queue (consumer_at b c))))"
    and c1: "consumer_at b1 = consumer_at b" and a: "msg b1 a = msg b a" "a < next_msg b1" and acc: "\<And>x. accepts b1 x a = accepts b x a"
    and nc: "con_queue (consumer_at b c) \<notin> (\<lambda>c. con_queue (consumer_at b c)) ` set cs" and True: "accepts b c a"
    and b2: "next_msg b1 \<le> next_msg b2" "\<forall>x < next_msg b1. msg b2 x = msg b1 x"
  shows "fanned_out b b2 n a (set (c # cs)) (K(c := next_msg b))"
  unfolding fanned_out_def
proof (intro conjI ballI allI impI)
  have c: "c \<notin> set cs" using nc by auto
  let ?A = "{x \<in> set cs. accepts b x a}"
  have "next_msg b \<notin> K ` ?A" using f acc b1(2) unfolding fanned_out_def by force
  then have "(K(c := next_msg b)) c \<notin> (K(c := next_msg b)) ` (?A - {c})" by auto
  moreover have "inj_on (K(c := next_msg b)) ?A \<longleftrightarrow> inj_on K ?A" using c by (intro inj_on_cong) auto
  moreover have "inj_on K ?A" using f acc unfolding fanned_out_def by simp
  moreover have "{x \<in> set (c # cs). accepts b x a} = insert c ?A" using True by auto
  ultimately show "inj_on (K(c := next_msg b)) {x \<in> set (c # cs). accepts b x a}" by (simp only: inj_on_insert not_False_eq_True conj_absorb simp_thms)
next
  fix x assume x: "x \<in> set (c # cs)" "accepts b x a"
  have "con_queue (consumer_at b c) \<notin> con_queue ` consumer_at b1 ` {x \<in> set cs. accepts b1 x a}" using nc c1 by auto
  then have qc: "queue_abs (heap b2) (con_queue (consumer_at b c)) = queue_abs (heap b1) (con_queue (consumer_at b c))" using f unfolding fanned_out_def by blast
  show "next_msg b \<le> (K(c := next_msg b)) x" using x f acc b1(2) by (fastforce simp: fanned_out_def)
  show "(K(c := next_msg b)) x < next_msg b2" using x f acc b1(2) b2(1) by (fastforce simp: fanned_out_def)
  show "msg b2 ((K(c := next_msg b)) x) = pushed n (msg b a)" using x f acc b1(1,2) b2(2) a(1) by (auto simp: fanned_out_def)
  show "queue_abs (heap b2) (con_queue (consumer_at b x)) =
      spec_enqueue (band_of (Some (priority (jmsHeaders (msg b a))))) ((K(c := next_msg b)) x) (queue_abs (heap b) (con_queue (consumer_at b x)))"
  proof (cases "x = c")
    case True
    then show ?thesis using qc qa by simp
  next
    case False
    then have "x \<in> set cs" using x by simp
    moreover have "con_queue (consumer_at b x) \<noteq> con_queue (consumer_at b c)" using nc calculation by (metis (no_types, lifting) image_eqI)
    ultimately show ?thesis using f acc x False qa a(1) c1 by (simp add: fanned_out_def)
  qed
next
  fix q' assume q': "q' \<notin> con_queue ` consumer_at b ` {x \<in> set (c # cs). accepts b x a}"
  then have "q' \<noteq> con_queue (consumer_at b c)" "q' \<notin> con_queue ` consumer_at b1 ` {x \<in> set cs. accepts b1 x a}" using True acc c1 by auto
  then have "queue_abs (heap b2) q' = queue_abs (heap b1) q'" using f unfolding fanned_out_def by blast
  then show "queue_abs (heap b2) q' = queue_abs (heap b) q'" using qa \<open>q' \<noteq> con_queue (consumer_at b c)\<close> by simp
qed

lemma push_each:
  assumes "distinct (map (\<lambda>c. con_queue (consumer_at b c)) cs)" "transactionId b p = []" "\<not> isPersistent (msg b a)" "uuid (msg b a) \<noteq> 0"
    "deliveryTime (jmsHeaders (msg b a)) = 0" "queues_ok (heap b)" "a < next_msg b"
  shows "\<exists>b' K. each cs (\<lambda>c. push io c n p a) b = Some (Inr (), b') \<and> fanned_out b b' n a (set cs) K \<and> next_msg b \<le> next_msg b' \<and>
    (\<forall>x < next_msg b. msg b' x = msg b x) \<and> consumer_at b' = consumer_at b \<and> dest_at b' = dest_at b \<and>
    session_at b' = session_at b \<and> producer_at b' = producer_at b"
  using assms
proof (induction cs arbitrary: b)
  case Nil
  then show ?case by (simp add: run_simps fanned_out_def)
next
  case (Cons c cs)
  show ?case
  proof (cases "accepts b c a")
    case False
    from push_refused [OF this, of io n p] have "each (c # cs) (\<lambda>c. push io c n p a) b = each cs (\<lambda>c. push io c n p a) b"
      by (simp add: andThen_def)
    moreover have "{x \<in> set (c # cs). accepts b x a} = {x \<in> set cs. accepts b x a}" using False by auto
    ultimately show ?thesis using Cons.IH [OF _ Cons.prems(2-7)] Cons.prems(1) False by (auto simp: fanned_out_def)
  next
    case True
    let ?k = "next_msg b" and ?q = "con_queue (consumer_at b c)"
    from push_memory [OF True Cons.prems(2-6), of io n] obtain b1 where
      p: "push io c n p a b = Some (Inr (), b1)" and
      b1: "msg b1 = (msg b)(?k := pushed n (msg b a))" "next_msg b1 = Suc ?k" "queues_ok (heap b1)" "consumer_at b1 = consumer_at b" "dest_at b1 = dest_at b"
        "session_at b1 = session_at b" "producer_at b1 = producer_at b" and
      q: "queue_abs (heap b1) = (queue_abs (heap b))(?q := spec_enqueue (band_of (Some (priority (jmsHeaders (msg b a))))) ?k (queue_abs (heap b) ?q))"
      by blast
    have a: "msg b1 a = msg b a" "a < next_msg b1" using Cons.prems(7) b1(1,2) by auto
    have acc: "accepts b1 x a = accepts b x a" for x using a b1(4) by (simp add: accepts_def split: option.splits)
    have pre: "distinct (map (\<lambda>c. con_queue (consumer_at b1 c)) cs)" "transactionId b1 p = []" "\<not> isPersistent (msg b1 a)" "uuid (msg b1 a) \<noteq> 0"
      "deliveryTime (jmsHeaders (msg b1 a)) = 0" using Cons.prems b1 a by (simp_all add: transactionId_def)
    from Cons.IH [OF pre b1(3) a(2)] obtain b2 K where
      e: "each cs (\<lambda>c. push io c n p a) b1 = Some (Inr (), b2)" and f: "fanned_out b1 b2 n a (set cs) K" and
      b2: "next_msg b1 \<le> next_msg b2" "\<forall>x < next_msg b1. msg b2 x = msg b1 x" "consumer_at b2 = consumer_at b1" "dest_at b2 = dest_at b1"
        "session_at b2 = session_at b1" "producer_at b2 = producer_at b1" by blast
    have nc: "?q \<notin> (\<lambda>c. con_queue (consumer_at b c)) ` set cs" using Cons.prems(1) by simp
    from fanned_out_insert [OF f b1(1,2) q b1(4) a acc nc True b2(1,2)]
    have "fanned_out b b2 n a (set (c # cs)) (K(c := ?k))" .
    moreover have "each (c # cs) (\<lambda>c. push io c n p a) b = Some (Inr (), b2)" using p e by (simp add: andThen_def)
    moreover have "next_msg b \<le> next_msg b2 \<and> (\<forall>x < next_msg b. msg b2 x = msg b x) \<and> consumer_at b2 = consumer_at b \<and> dest_at b2 = dest_at b \<and>
        session_at b2 = session_at b \<and> producer_at b2 = producer_at b" using b1 b2 by auto
    ultimately show ?thesis by blast
  qed
qed

lemma iter_map_all:
  assumes "mset (it (al_keys m)) = mset (al_keys m)" "distinct (al_keys m)"
  shows "mset (iter_map it m) = mset (map snd m)"
proof -
  have "mset (iter_map it m) = image_mset (the \<circ> map_of m) (filter_mset (\<lambda>k. map_of m k \<noteq> None) (mset (it (al_keys m))))"
    by (simp add: iter_map_def map_filter_def comp_def)
  also have "\<dots> = mset (map (the \<circ> map_of m) (al_keys m))"
  proof -
    have "filter (\<lambda>k. map_of m k \<noteq> None) (al_keys m) = al_keys m" by (rule filter_True) (auto simp: keys_dom)
    then show ?thesis unfolding assms(1) by (simp only: mset_filter [symmetric] mset_map)
  qed
  also have "map (the \<circ> map_of m) (al_keys m) = map snd m" using assms(2) by (auto simp: al_keys_def)
  finally show ?thesis .
qed

text \<open>C10: a message that is sent to a topic outside a transaction reaches every registered consumer whose
  selector accepts it, and no other: each of them gets exactly one new message in its own queue, at the
  message's priority, a copy of its own with the running number of the destination; all other queues, also
  those of the consumers whose selector rejects it, stay as they are (a message that is not persistent,
  without a delay; every consumer of a topic has a queue of its own).\<close>

theorem topic_fans_out_to_accepting_consumers:
  assumes "isTopicFamily (dest_at b d)" "iter_ok io" "distinct (al_keys (dest_consumers (dest_at b d)))"
    "distinct (map (\<lambda>(u, c). con_queue (consumer_at b c)) (dest_consumers (dest_at b d)))" "transactionId b p = []"
    "\<not> isPersistent (msg b a)" "uuid (msg b a) \<noteq> 0" "deliveryTime (jmsHeaders (msg b a)) = 0" "queues_ok (heap b)" "a < next_msg b"
  shows "\<exists>b' K. save io d p a b = Some (Inr (), b') \<and>
    fanned_out b b' (messageCounter (dest_at b d)) a (snd ` set (dest_consumers (dest_at b d))) K \<and>
    messageCounter (dest_at b' d) = messageCounter (dest_at b d) + 1"
proof -
  let ?n = "messageCounter (dest_at b d)" and ?D = "dest_consumers (dest_at b d)"
  define bc where "bc = upd_dest d (\<lambda>x. x\<lparr>messageCounter := ?n + 1\<rparr>) b"
  define cs where "cs = dest_targets io d bc"
  have bc: "heap bc = heap b" "msg bc = msg b" "consumer_at bc = consumer_at b" "next_msg bc = next_msg b" "transactionId bc p = transactionId b p"
    by (simp_all add: bc_def transactionId_def) (simp_all add: upd_dest_def)
  have "\<not> isQueueFamily (dest_at b d)" using assms(1) by (auto simp: isQueueFamily_def isTopicFamily_def)
  then have "cs = iter_map (iter_ids io) ?D" by (simp add: cs_def dest_targets_def bc_def isQueueFamily_def)
  then have ms: "mset cs = mset (map snd ?D)" using iter_map_all [of "iter_ids io" ?D] assms(2,3) by (simp add: iter_ok_def)
  then have set: "set cs = snd ` set ?D" by (metis image_set set_mset_mset)
  have "mset (map (\<lambda>c. con_queue (consumer_at b c)) cs) = mset (map (\<lambda>(u, c). con_queue (consumer_at b c)) ?D)"
    unfolding mset_map ms by (simp add: image_mset.compositionality comp_def) (simp add: case_prod_beta')
  then have "distinct (map (\<lambda>c. con_queue (consumer_at bc c)) cs)" using assms(4) bc(3) by (metis mset_eq_imp_distinct_iff)
  from push_each [OF this, of p a io ?n] assms(5-) bc obtain b' K where
    e: "each cs (\<lambda>c. push io c ?n p a) bc = Some (Inr (), b')" "fanned_out bc b' ?n a (set cs) K" "dest_at b' = dest_at bc" "msg b' a = msg bc a" by auto
  have "save io d p a b = Some (Inr (), b')"
    using e assms(6) bc by (simp add: save_def run_simps bc_def [symmetric] cs_def [symmetric])
      (simp add: andThen_def run_simps)
  moreover have "fanned_out b b' ?n a (set cs) K" using e(2) unfolding fanned_out_def accepts_def bc .
  moreover have "messageCounter (dest_at b' d) = ?n + 1" using e(3) by (simp add: bc_def)
  ultimately show ?thesis using set by metis
qed

text \<open>A topic with two consumers, one of which wants other messages.\<close>

definition sample_topic :: broker where
  "sample_topic = upd_consumer 2 (\<lambda>x. x\<lparr>con_queue := 2, con_selector := Some (ELit (VBool False))\<rparr>)
     (upd_dest 0 (\<lambda>x. x\<lparr>dest_type := Topic, dest_consumers := [(7, 0), (8, 2)]\<rparr>)
       (upd_msg 0 (\<lambda>_. new_message (TextBody ''hi'') 7 NOT_PERSISTENT) (sample_broker\<lparr>next_msg := 1\<rparr>)))"

theorem topic_fans_out_to_accepting_consumers_witness:
  "\<exists>b' K. save sample_io 0 0 0 sample_topic = Some (Inr (), b') \<and>
    fanned_out sample_topic b' (messageCounter (dest_at sample_topic 0)) 0 (snd ` set (dest_consumers (dest_at sample_topic 0))) K \<and>
    messageCounter (dest_at b' 0) = messageCounter (dest_at sample_topic 0) + 1"
proof (rule topic_fans_out_to_accepting_consumers)
  show "iter_ok sample_io" by (simp add: iter_ok_def sample_io_def)
  have m: "msg sample_topic 0 = new_message (TextBody ''hi'') 7 NOT_PERSISTENT" by (simp add: sample_topic_def)
  show "\<not> isPersistent (msg sample_topic 0)" "uuid (msg sample_topic 0) \<noteq> 0" "deliveryTime (jmsHeaders (msg sample_topic 0)) = 0"
    unfolding m by (simp_all add: new_message_def isPersistent_def default_headers_def)
  show "queues_ok (heap sample_topic)" "0 < next_msg sample_topic" "transactionId sample_topic 0 = []"
    by (simp_all add: sample_topic_def queues_ok_def sample_broker_def pq.invar_empty transactionId_def upd_dest_def upd_msg_def sample_producer_def upd_consumer_def)
qed (simp_all add: sample_topic_def isTopicFamily_def al_keys_def sample_broker_def sample_consumer_def upd_dest_def upd_msg_def)

section \<open>Send options\<close>

definition options_in_range :: "sendOptions \<Rightarrow> bool" where
  "options_in_range opts \<longleftrightarrow> sint (opt_priority opts) \<in> {0..9} \<and> sint (opt_timeToLive opts) \<in> {0..315360000000} \<and>
     sint (opt_deliveryDelay opts) \<in> {0..315360000000}"

lemma validate_range: "validateSendOptions opts \<longleftrightarrow> options_in_range opts"
  by (auto simp: validateSendOptions_def options_in_range_def kMax_sint)

lemma future_time: "0 \<le> sint now \<Longrightarrow> sint now < 2 ^ 62 \<Longrightarrow> sint d \<in> {0..315360000000} \<Longrightarrow> sint (now + d :: int64) = sint now + sint d"
  by (rule sint_plus_small) simp_all



end
