(* ===== verification/Transactions.thy ===== *)
theory Transactions
  imports Routing
begin

text \<open>
  Transactions of the broker as a client sees them: what a transacted \<open>send\<close> stages stays hidden until
  \<open>commit\<close> stores and queues all of it, and \<open>rollback\<close> discards it.
\<close>

section \<open>Emptying a transaction queue\<close>

text \<open>A loop that dequeues until the queue is empty visits the messages in the order of the queue; its end
  leaves the store as it was but for that queue.\<close>

definition emptied :: "qaddr \<Rightarrow> broker \<Rightarrow> mheap \<Rightarrow> bool" where
  "emptied q b h \<longleftrightarrow> queue_abs h = (queue_abs (heap b))(q := []) \<and> queues_ok h \<and> msg_at h = msg_at (heap b)"

lemma emptied_step:
  assumes "queues_ok (heap b)" "queue_abs (heap b) q = (p, k) # l"
  obtains h1 where "dequeue q b = Some (Inr (Some k), b\<lparr>heap := h1\<rparr>)" "queue_abs h1 q = l" "queues_ok h1" "msg_at h1 = msg_at (heap b)"
    "\<And>h. emptied q (b\<lparr>heap := h1\<rparr>) h \<Longrightarrow> emptied q b h"
  using dequeue_first [OF assms] by (auto simp: emptied_def)

lemma emptied_refl: "queues_ok (heap b) \<Longrightarrow> queue_abs (heap b) q = [] \<Longrightarrow> emptied q b (heap b)"
  by (auto simp: emptied_def fun_eq_iff)

lemma resolve_delay_none: "pendingDeliveryDelay (msg b a) = 0 \<Longrightarrow> resolve_delay p now a b = Some (Inr (), b)"
  by (simp add: resolve_delay_def run_simps)

lemma stage_messages_all:
  assumes "queues_ok (heap b)" "queue_abs (heap b) tq = zs" "\<forall>z \<in> set zs. pendingDeliveryDelay (msg b (snd z)) = 0"
  shows "\<exists>h. stage_messages p tq now acc b = Some (Inr (acc @ map snd zs), b\<lparr>heap := h\<rparr>) \<and> emptied tq b h"
  using assms
proof (induction zs arbitrary: acc b)
  case Nil
  with dequeue_none [of b tq] emptied_refl [of b tq] show ?case by (subst stage_messages.simps) (auto intro!: exI [of _ "heap b"])
next
  case (Cons z zs)
  obtain q k where z: "z = (q, k)" by fastforce
  from emptied_step [OF Cons.prems(1), of tq q k zs] Cons.prems(2) z obtain h1 where
    h1: "dequeue tq b = Some (Inr (Some k), b\<lparr>heap := h1\<rparr>)" "queue_abs h1 tq = zs" "queues_ok h1" "msg_at h1 = msg_at (heap b)"
      "\<And>h. emptied tq (b\<lparr>heap := h1\<rparr>) h \<Longrightarrow> emptied tq b h" by auto
  have m: "msg (b\<lparr>heap := h1\<rparr>) = msg b" using h1(4) by (simp add: msg_def fun_eq_iff)
  have "resolve_delay p now k (b\<lparr>heap := h1\<rparr>) = Some (Inr (), b\<lparr>heap := h1\<rparr>)"
    using Cons.prems(3) z m by (intro resolve_delay_none) simp
  with Cons.IH [of "b\<lparr>heap := h1\<rparr>" "acc @ [k]"] h1 Cons.prems(3) z m show ?case
    by (subst stage_messages.simps) fastforce
qed

lemma drain_discards:
  assumes "queues_ok (heap b)" "queue_abs (heap b) tq = zs"
  shows "\<exists>h. drain tq (\<lambda>_. ret ()) b = Some (Inr (), b\<lparr>heap := h\<rparr>) \<and> emptied tq b h"
  using assms
proof (induction zs arbitrary: b)
  case Nil
  with dequeue_none [of b tq] emptied_refl [of b tq] show ?case by (subst drain.simps) (auto intro!: exI [of _ "heap b"])
next
  case (Cons z zs)
  obtain q k where z: "z = (q, k)" by fastforce
  from emptied_step [OF Cons.prems(1), of tq q k zs] Cons.prems(2) z obtain h1 where
    "dequeue tq b = Some (Inr (Some k), b\<lparr>heap := h1\<rparr>)" "queue_abs h1 tq = zs" "queues_ok h1"
      "\<And>h. emptied tq (b\<lparr>heap := h1\<rparr>) h \<Longrightarrow> emptied tq b h" by auto
  with Cons.IH [of "b\<lparr>heap := h1\<rparr>"] show ?case by (subst drain.simps) (fastforce simp: run_simps)
qed

section \<open>Delivery of what was committed\<close>

lemma deliverCommitted_queue:
  assumes "isQueueFamily (dest_at b d)" "dest_targets io d b = [c]" "deliveryTime (jmsHeaders (msg b a)) = 0"
  shows "deliverCommitted io d a b = Some (Inr (), b\<lparr>heap := enqueue_msg (con_queue (consumer_at b c)) a (heap b)\<rparr>)"
proof -
  have "\<not> isTopicFamily (dest_at b d)" using assms(1) by (auto simp: isTopicFamily_def isQueueFamily_def)
  with assms enqueue_now [OF assms(3)] show ?thesis
    by (simp add: deliverCommitted_def run_simps) (simp add: andThen_def run_simps)
qed

text \<open>Every committed message goes to the queue, in the order of the list.\<close>

lemma deliver_staged:
  assumes "isQueueFamily (dest_at b d)" "dest_targets io d b = [c]" "\<forall>a \<in> set as. deliveryTime (jmsHeaders (msg b a)) = 0" "queues_ok (heap b)"
    "q = con_queue (consumer_at b c)"
  shows "\<exists>h. each as (deliverCommitted io d) b = Some (Inr (), b\<lparr>heap := h\<rparr>) \<and> queues_ok h \<and> msg_at h = msg_at (heap b) \<and>
    (\<forall>q'. queue_abs h q' = (if q' = q
       then fold (\<lambda>a. spec_enqueue (band_of (Some (priority (jmsHeaders (msg b a))))) a) as (queue_abs (heap b) q) else queue_abs (heap b) q'))"
  using assms
proof (induction as arbitrary: b)
  case Nil
  then show ?case by (auto simp: run_simps intro!: exI [of _ "heap b"])
next
  case (Cons a as)
  let ?b = "b\<lparr>heap := enqueue_msg q a (heap b)\<rparr>"
  have m: "msg ?b = msg b" by (simp add: msg_def fun_eq_iff)
  have "dest_targets io d ?b = dest_targets io d b" by (simp add: dest_targets_def)
  with Cons.IH [of ?b] Cons.prems m queues_ok_enqueue [OF Cons.prems(4)] obtain h where
    h: "each as (deliverCommitted io d) ?b = Some (Inr (), ?b\<lparr>heap := h\<rparr>)" "queues_ok h" "msg_at h = msg_at (heap b)"
    "\<And>q'. queue_abs h q' = (if q' = q
       then fold (\<lambda>a. spec_enqueue (band_of (Some (priority (jmsHeaders (msg b a))))) a) as (queue_abs (enqueue_msg q a (heap b)) q)
       else queue_abs (enqueue_msg q a (heap b)) q')"
    by auto
  have "msg_priority (heap b) a = priority (jmsHeaders (msg b a))" by (simp add: msg_priority_def msg_def)
  with deliverCommitted_queue [OF Cons.prems(1,2), of a] Cons.prems(3,5) h show ?case
    by (intro exI [of _ h]) (simp add: andThen_def queue_abs_enqueue [OF Cons.prems(4)])
qed

section \<open>Commit and rollback of a producer\<close>

lemma dest_commitTransaction_stores:
  assumes "tx \<noteq> []" "B = transactionBuffer (dest_at b d)" "map_of (transactionMessages B) tx = Some us"
    "\<forall>u \<in> set us. u \<noteq> 0 \<and> bufferedData B u \<noteq> Some []" "log_ok io \<or> logOpen B" "write_ok io"
    "s = dest_storage (dest_at b d)" "cs_holds (storage_at b s) rs"
    "room_for (item_room (batch_of B us)) (flush True (operations (storage_at b s)) (linearStorage (storage_at b s)))"
  shows "\<exists>B' cs rs'. dest_commitTransaction io d tx b =
      Some (Inr (), (upd_dest d (\<lambda>x. x\<lparr>transactionBuffer := B'\<rparr>) b)\<lparr>storage_at := (storage_at b)(s := cs)\<rparr>) \<and> cs_holds cs rs' \<and>
    mset (map record_item rs') = mset (map record_item rs) + mset (batch_of B us) \<and>
    map_of (transactionMessages B') = (map_of (transactionMessages B))(tx := None) \<and>
    (\<forall>u. bufferedData B' u = (if u \<in> set us then None else bufferedData B u))"
proof -
  from commitTransaction_stores [OF assms(3-5,8,9), of "services io" "stamp io"] obtain B' cs rs' where
    "commitTransaction (services io) (log_ok io) True (stamp io) tx (B, Some (storage_at b s)) = Some (True, B', Some cs)" "cs_holds cs rs'"
    "mset (map record_item rs') = mset (map record_item rs) + mset (batch_of B us)"
    "map_of (transactionMessages B') = (map_of (transactionMessages B))(tx := None)"
    "\<forall>u. bufferedData B' u = (if u \<in> set us then None else bufferedData B u)"
    by blast
  then show ?thesis using assms(1,2,6,7)
    by (intro exI [of _ B'] exI [of _ cs] exI [of _ rs']) (simp add: dest_commitTransaction_def Let_def)
qed


text \<open>C9: rolling back the transaction of a producer discards it without a trace: the transaction queue is
  empty, the buffer drops the transaction and the data of its messages and of no other, and the storages, every
  other queue and all message objects are as they were.\<close>

theorem rollback_discards_transaction:
  fixes b :: broker and io :: io
  assumes "prod_transactQueue (producer_at b p) = Some tq" "d = prod_destination (producer_at b p)" "tx \<noteq> []" "queues_ok (heap b)"
    "B = transactionBuffer (dest_at b d)" "log_ok io \<or> logOpen B"
  shows "\<exists>b'. producer_rollback io p tx b = Some (Inr (), b') \<and> storage_at b' = storage_at b \<and> msg b' = msg b \<and>
    queue_abs (heap b') = (queue_abs (heap b))(tq := []) \<and>
    map_of (transactionMessages (transactionBuffer (dest_at b' d))) = (map_of (transactionMessages B))(tx := None) \<and>
    (\<forall>u. bufferedData (transactionBuffer (dest_at b' d)) u =
       (if \<exists>us. map_of (transactionMessages B) tx = Some us \<and> u \<in> set us then None else bufferedData B u))"
proof -
  from rollbackTransaction_discards [OF assms(6), of "services io" "stamp io" tx] obtain B' where
    B': "rollbackTransaction (services io) (log_ok io) (stamp io) tx B = (True, B')"
      "map_of (transactionMessages B') = (map_of (transactionMessages B))(tx := None)"
      "\<forall>u. bufferedData B' u = (if \<exists>us. map_of (transactionMessages B) tx = Some us \<and> u \<in> set us then None else bufferedData B u)" by blast
  define b1 where "b1 = upd_dest d (\<lambda>x. x\<lparr>transactionBuffer := B'\<rparr>) b"
  have b1: "heap b1 = heap b" "storage_at b1 = storage_at b" "transactionBuffer (dest_at b1 d) = B'" by (simp_all add: b1_def upd_dest_def)
  from drain_discards [of b1 tq] assms(4) b1(1) obtain h where
    h: "drain tq (\<lambda>_. ret ()) b1 = Some (Inr (), b1\<lparr>heap := h\<rparr>)" "emptied tq b1 h" by auto
  have "dest_rollbackTransaction io d tx b = Some (Inr (), b1)"
    using assms(3,5) B'(1) by (simp add: dest_rollbackTransaction_def run_simps on_buffer_def b1_def)
  then have "producer_rollback io p tx b = Some (Inr (), b1\<lparr>heap := h\<rparr>)"
    using assms(1,2) h(1) by (simp add: producer_rollback_def run_simps) (simp add: andThen_def)
  with B' b1 h(2) show ?thesis
    by (intro exI [of _ "b1\<lparr>heap := h\<rparr>"]) (simp add: emptied_def msg_def fun_eq_iff)
qed

section \<open>Sending in a transaction\<close>

lemma push_staged:
  fixes io :: io and a :: maddr and b :: broker and n :: int64 and c :: caddr
  assumes "accepts b c a" "transactionId b p = tx" "tx \<noteq> []" "isPersistent (msg b a)" "uuid (msg b a) \<noteq> 0" "queues_ok (heap b)"
    "prod_transactQueue (producer_at b p) = Some tq" "d = con_destination (consumer_at b c)" "B = transactionBuffer (dest_at b d)"
    "log_ok io \<or> logOpen B"
  defines "K \<equiv> pushed n (msg b a)" and "k \<equiv> next_msg b"
  shows "\<exists>b' B'. push io c n p a b = Some (Inr (), b') \<and> storage_at b' = storage_at b \<and>
    msg b' = (msg b)(k := K\<lparr>cachedStorageBytes := storage_bytes (services io) K\<rparr>) \<and>
    (\<forall>q'. queue_abs (heap b') q' = (if q' = tq then spec_enqueue (band_of (Some (priority (jmsHeaders (msg b a))))) k (queue_abs (heap b) tq)
       else queue_abs (heap b) q')) \<and> queues_ok (heap b') \<and>
    dest_at b' = (dest_at b)(d := (dest_at b d)\<lparr>transactionBuffer := B'\<rparr>) \<and> bufferedData B' = (bufferedData B)(uuid (msg b a) \<mapsto> storage_bytes (services io) K) \<and>
    map_of (transactionMessages B') = (map_of (transactionMessages B))(tx \<mapsto> case_option [] id (map_of (transactionMessages B) tx) @ [uuid (msg b a)])"
proof -
  define L where "L = K\<lparr>cachedStorageBytes := storage_bytes (services io) K\<rparr>"
  define b1 where "b1 = b\<lparr>heap := set_msg k K (heap b), next_msg := Suc k\<rparr>"
  have b1: "msg b1 k = K" "dest_at b1 = dest_at b" "transactionId b1 p = tx" "consumer_at b1 = consumer_at b"
    using assms(2) by (simp_all add: b1_def msg_def transactionId_def)
  from addMessage_adds [OF assms(10), of "services io" "stamp io" tx "uuid (msg b a)" "storage_bytes (services io) K"] obtain B' where
    B': "addMessage (services io) (log_ok io) (stamp io) tx (uuid (msg b a)) (storage_bytes (services io) K) B = (True, B')"
      "bufferedData B' = (bufferedData B)(uuid (msg b a) \<mapsto> storage_bytes (services io) K)"
      "map_of (transactionMessages B') = (map_of (transactionMessages B))(tx \<mapsto> case_option [] id (map_of (transactionMessages B) tx) @ [uuid (msg b a)])"
    by blast
  define b2 where "b2 = upd_dest d (\<lambda>x. x\<lparr>transactionBuffer := B'\<rparr>) (upd_msg k (\<lambda>m. m\<lparr>cachedStorageBytes := storage_bytes (services io) m\<rparr>) b1)"
  have b2: "msg b2 = (msg b)(k := L)" "storage_at b2 = storage_at b" "queue_at (heap b2) = queue_at (heap b)"
    "dest_at b2 = (dest_at b)(d := (dest_at b d)\<lparr>transactionBuffer := B'\<rparr>)" "transactionId b2 p = tx" "producer_at b2 = producer_at b"
    "consumer_at b2 = consumer_at b"
    using assms(2) by (simp_all add: b2_def b1_def msg_def fun_eq_iff upd_msg_def upd_dest_def transactionId_def L_def)
  have new: "new_msg K b = Some (Inr k, b1)" by (simp add: new_msg_def run_simps b1_def k_def)
  have K: "(message_copy (msg b a))\<lparr>uuid := uuid (msg b a), number := n\<rparr> = K" by (simp add: K_def pushed_def message_copy_def)
  have cached: "cachedStorageBytes (msg (upd_msg k (\<lambda>m. m\<lparr>cachedStorageBytes := storage_bytes (services io) m\<rparr>) b1) k) = storage_bytes (services io) K"
    using b1(1) by (simp add: upd_msg_def msg_def)
  have prep: "preparePush io c n p a b = Some (Inr k, b2)"
    unfolding preparePush_def using assms(3-5,8,9) b1 B'(1) cached
    by (simp add: run_simps K) (simp add: andThen_def new run_simps on_buffer_def b2_def)
  let ?b = "b2\<lparr>heap := enqueue_msg tq k (heap b2)\<rparr>"
  have "push io c n p a b = Some (Inr (), ?b)"
    unfolding push_def using assms(1,3,7) prep b2
    by (simp add: run_simps accepts_def split: option.splits) (simp_all add: andThen_def run_simps enqueue_def)
  moreover have q: "queues_ok (heap b2)" "queue_abs (heap b2) = queue_abs (heap b)" using assms(6) b2(3)
    by (simp_all add: queues_ok_def queue_abs_def fun_eq_iff)
  moreover have "msg ?b = msg b2" by (simp add: msg_def fun_eq_iff)
  moreover have "msg_priority (heap b2) k = priority (jmsHeaders (msg b a))"
    using b2(1) by (simp add: msg_priority_def msg_def [symmetric] L_def K_def)
  ultimately show ?thesis using B'(2,3) b2 queue_abs_enqueue [OF q(1), of tq k] queues_ok_enqueue [OF q(1)]
    by (intro exI [of _ ?b] exI [of _ B']) (simp add: L_def)
qed

text \<open>C7: a persistent message with a UUID that is sent inside a transaction, through a producer without defaults of its own, to a
  queue that has a consumer and whose first consumer's selector (if it has one) accepts the message, is hidden until the commit,
  provided the transaction log is open or can be opened: \<open>send\<close> returns, but
  no storage changes and no queue but the transaction queue of the producer; the bytes of the copy are in the
  transaction buffer under the id of the message, which is the last of its transaction, and the copy waits in the
  transaction queue behind those of its priority.\<close>

theorem transacted_send_is_hidden:
  fixes b :: broker and a :: maddr and io :: io
  assumes "prod_default (producer_at b p) = None" "d = prod_destination (producer_at b p)" "isQueueFamily (dest_at b d)"
    "dest_targets io d b = [c]" "transactionId b p = tx" "tx \<noteq> []" "case con_selector (consumer_at b c) of None \<Rightarrow> True | Some e \<Rightarrow> selector_matches e F"
    "con_destination (consumer_at b c) = d"
    "prod_transactQueue (producer_at b p) = Some tq" "isPersistent (msg b a)" "uuid (msg b a) \<noteq> 0" "queues_ok (heap b)"
    "B = transactionBuffer (dest_at b d)" "log_ok io \<or> logOpen B"
    "F = filled io (producer_at b p) (to_ms (clock b (clock_reads b))) (msg b a)"
    "M = pushed (messageCounter (dest_at b d)) F"
  shows "\<exists>b' B'. send io p a b = Some (Inr (), b') \<and> storage_at b' = storage_at b \<and>
    msg b' = (msg b)(a := F, next_msg b := M\<lparr>cachedStorageBytes := storage_bytes (services io) M\<rparr>) \<and>
    (\<forall>q'. queue_abs (heap b') q' =
       (if q' = tq then spec_enqueue (band_of (Some (priority (jmsHeaders (msg b a))))) (next_msg b) (queue_abs (heap b) tq) else queue_abs (heap b) q')) \<and>
    transactionBuffer (dest_at b' d) = B' \<and> bufferedData B' = (bufferedData B)(uuid (msg b a) \<mapsto> storage_bytes (services io) M) \<and>
    map_of (transactionMessages B') =
      (map_of (transactionMessages B))(tx \<mapsto> case_option [] id (map_of (transactionMessages B) tx) @ [uuid (msg b a)])"
proof -
  let ?n = "messageCounter (dest_at b d)"
  from send_is_push [OF assms(1-4,15)] obtain bc where
    bc: "msg bc = (msg b)(a := F)" "storage_at bc = storage_at b" "consumer_at bc = consumer_at b" "session_at bc = session_at b"
      "producer_at bc = producer_at b" "next_msg bc = next_msg b" "queue_at (heap bc) = queue_at (heap b)"
      "dest_at bc = (dest_at b)(d := (dest_at b d)\<lparr>messageCounter := ?n + 1\<rparr>)" and
    sent: "\<And>b''. push io c ?n p a bc = Some (Inr (), b'') \<Longrightarrow> dest_type (dest_at b'' d) = dest_type (dest_at b d) \<Longrightarrow> send io p a b = Some (Inr (), b'')"
    by blast
  have q: "queues_ok (heap bc)" "queue_abs (heap bc) = queue_abs (heap b)"
    using bc(7) assms(12) by (simp_all add: queues_ok_def queue_abs_def fun_eq_iff)
  have F: "uuid F = uuid (msg b a)" "isPersistent F = isPersistent (msg b a)" "priority (jmsHeaders F) = priority (jmsHeaders (msg b a))"
    using assms(15) by simp_all
  have acc: "accepts bc c a" using assms(7) bc by (auto simp: accepts_def split: option.splits)
  from push_staged [OF acc, of p tx tq d B io ?n] assms(5,6,8-11,13,14,16) bc q F obtain b1 B' where
    "push io c ?n p a bc = Some (Inr (), b1)" and
    b1: "storage_at b1 = storage_at b" "msg b1 = (msg b)(a := F, next_msg b := M\<lparr>cachedStorageBytes := storage_bytes (services io) M\<rparr>)"
      "\<forall>q'. queue_abs (heap b1) q' = (if q' = tq then spec_enqueue (band_of (Some (priority (jmsHeaders (msg b a))))) (next_msg b) (queue_abs (heap b) tq)
         else queue_abs (heap b) q')"
      "dest_at b1 = (dest_at bc)(d := (dest_at bc d)\<lparr>transactionBuffer := B'\<rparr>)"
      "bufferedData B' = (bufferedData B)(uuid (msg b a) \<mapsto> storage_bytes (services io) M)"
      "map_of (transactionMessages B') = (map_of (transactionMessages B))(tx \<mapsto> case_option [] id (map_of (transactionMessages B) tx) @ [uuid (msg b a)])"
    by (auto simp: transactionId_def)
  then have "send io p a b = Some (Inr (), b1)" using bc(8) by (intro sent) simp_all
  with b1 show ?thesis by (intro exI [of _ b1] exI [of _ B']) simp
qed

section \<open>An open transaction\<close>

text \<open>A session in the transaction \<open>tx1\<close>, which has buffered one message and staged it in the queue 1.\<close>

definition sample_tx :: broker where
  "sample_tx = (upd_dest 0 (\<lambda>x. x\<lparr>transactionBuffer := sample_txBuffer\<rparr>) sample_queue)
     \<lparr>producer_at := (\<lambda>_. sample_producer\<lparr>prod_transactQueue := Some 1\<rparr>),
      session_at := (\<lambda>s. (session_at sample_queue s)\<lparr>suffix := ''tx1''\<rparr>), heap := enqueue_msg 1 0 (heap sample_queue)\<rparr>"

lemma sample_tx_simps:
  "producer_at sample_tx p = sample_producer\<lparr>prod_transactQueue := Some 1\<rparr>" "consumer_at sample_tx c = sample_consumer"
  "storage_at sample_tx s = sample_worker" "dest_at sample_tx 0 = sample_destination\<lparr>dest_consumers := [(1, 0)], transactionBuffer := sample_txBuffer\<rparr>"
  "msg sample_tx 0 = new_message (TextBody ''hi'') 7 PERSISTENT" "next_msg sample_tx = 1" "queues_ok (heap sample_tx)"
  "queue_abs (heap sample_tx) q = (if q = 1 then [(4, 0)] else [])" "transactionId sample_tx p = ''tx1''"
  "dest_targets sample_io 0 sample_tx = [0]" "isQueueFamily (dest_at sample_tx 0)"
proof -
  have m: "msg sample_queue 0 = new_message (TextBody ''hi'') 7 PERSISTENT" "queues_ok (heap sample_queue)" by simp_all
  have p: "msg_priority (heap sample_queue) 0 = 4" using m(1) by (simp add: msg_priority_def msg_def new_message_def default_headers_def)
  show "queues_ok (heap sample_tx)" by (simp add: sample_tx_def queues_ok_enqueue)
  show "queue_abs (heap sample_tx) q = (if q = 1 then [(4, 0)] else [])"
    using queue_abs_enqueue [OF m(2), of 1 0 q] p by (simp add: sample_tx_def band_of_def clamp_prio_def spec_enqueue_def)
  show "msg sample_tx 0 = new_message (TextBody ''hi'') 7 PERSISTENT" using m(1) by (simp add: sample_tx_def msg_def)
  show "dest_at sample_tx 0 = sample_destination\<lparr>dest_consumers := [(1, 0)], transactionBuffer := sample_txBuffer\<rparr>"
    by (simp add: sample_tx_def upd_dest_def)
  then show "dest_targets sample_io 0 sample_tx = [0]" "isQueueFamily (dest_at sample_tx 0)"
    by (simp_all add: dest_targets_def iter_map_def sample_io_def isQueueFamily_def sample_destination_def al_keys_def List.map_filter_def)
qed (simp_all add: sample_tx_def upd_dest_def transactionId_def)

lemma sample_tx_fields:
  "log_ok sample_io" "write_ok sample_io" "prod_transactQueue (producer_at sample_tx p) = Some 1" "prod_default (producer_at sample_tx p) = None"
  "prod_destination (producer_at sample_tx p) = 0" "con_queue (consumer_at sample_tx c) = 0" "con_selector (consumer_at sample_tx c) = None"
  "con_destination (consumer_at sample_tx c) = 0" "dest_storage (dest_at sample_tx 0) = 0" "transactionBuffer (dest_at sample_tx 0) = sample_txBuffer"
  "isPersistent (msg sample_tx 0)" "uuid (msg sample_tx 0) = 7" "jmsHeaders (msg sample_tx 0) = default_headers" "pendingDeliveryDelay (msg sample_tx 0) = 0"
  by (simp_all add: sample_tx_simps sample_io_def sample_producer_def sample_consumer_def sample_destination_def new_message_def isPersistent_def)

lemmas sample_tx_facts = sample_tx_fields sample_tx_simps(3,6-) sample_txBuffer_maps


theorem rollback_discards_transaction_witness:
  "\<exists>b'. producer_rollback sample_io 0 ''tx1'' sample_tx = Some (Inr (), b') \<and> storage_at b' = storage_at sample_tx \<and> queue_abs (heap b') 1 = [] \<and>
     map_of (transactionMessages (transactionBuffer (dest_at b' 0))) ''tx1'' = None \<and> bufferedData (transactionBuffer (dest_at b' 0)) 7 = None"
proof -
  have "prod_transactQueue (producer_at sample_tx 0) = Some 1" "0 = prod_destination (producer_at sample_tx 0)" "''tx1'' \<noteq> []" "queues_ok (heap sample_tx)"
    "log_ok sample_io \<or> logOpen (transactionBuffer (dest_at sample_tx 0))"
    by (simp_all add: sample_tx_facts)
  from rollback_discards_transaction [OF this(1-4) refl this(5)] show ?thesis by (auto simp: sample_tx_facts)
qed

theorem transacted_send_is_hidden_witness:
  "\<exists>b'. send sample_io 0 0 sample_tx = Some (Inr (), b') \<and> storage_at b' = storage_at sample_tx \<and> queue_abs (heap b') 0 = [] \<and>
     map_of (transactionMessages (transactionBuffer (dest_at b' 0))) ''tx1'' = Some [7, 7]"
proof -
  have "prod_default (producer_at sample_tx 0) = None" "0 = prod_destination (producer_at sample_tx 0)" "isQueueFamily (dest_at sample_tx 0)"
    "dest_targets sample_io 0 sample_tx = [0]" "transactionId sample_tx 0 = ''tx1''" "''tx1'' \<noteq> []"
    "case con_selector (consumer_at sample_tx 0) of None \<Rightarrow> True | Some e \<Rightarrow> selector_matches e (filled sample_io (producer_at sample_tx 0) (to_ms (clock sample_tx (clock_reads sample_tx))) (msg sample_tx 0))"
    "con_destination (consumer_at sample_tx 0) = 0" "prod_transactQueue (producer_at sample_tx 0) = Some 1" "isPersistent (msg sample_tx 0)"
    "uuid (msg sample_tx 0) \<noteq> 0" "queues_ok (heap sample_tx)" "log_ok sample_io \<or> logOpen (transactionBuffer (dest_at sample_tx 0))"
    by (simp_all add: sample_tx_facts)
  from transacted_send_is_hidden [OF this(1-12) refl this(13) refl refl] obtain b' where
    "send sample_io 0 0 sample_tx = Some (Inr (), b')" "storage_at b' = storage_at sample_tx" "queue_abs (heap b') 0 = queue_abs (heap sample_tx) 0"
    "map_of (transactionMessages (transactionBuffer (dest_at b' 0))) =
      (map_of (transactionMessages (transactionBuffer (dest_at sample_tx 0))))(''tx1'' \<mapsto>
        case_option [] id (map_of (transactionMessages (transactionBuffer (dest_at sample_tx 0))) ''tx1'') @ [uuid (msg sample_tx 0)])" by auto
  then show ?thesis by (intro exI [of _ b']) (simp add: sample_tx_facts)
qed

end
