(* ===== verification/Subscriptions.thy ===== *)
theory Subscriptions
  imports Routing
begin

text \<open>
  Durable subscriptions: what a topic stores for a subscriber that is away.  When the subscriber comes back,
  \<open>createDurableConsumer\<close> replays the storage of its subscription into the new queue, as for a queue.
\<close>

section \<open>One subscription\<close>

lemma storage_bytes_copy [simp]: "storage_bytes P (message_copy m) = storage_bytes P m"
  by (simp add: storage_bytes_def toBytes_def fixed_block_def Let_def)

lemma persistToOfflineSub_stores:
  assumes "uuid (msg b a) \<noteq> 0" "write_ok io" "cs_holds (storage_at b (sub_storage sub)) rs"
    "cs_room (storage_bytes (services io) (msg b a)) (storage_at b (sub_storage sub))"
  shows "\<exists>cs r xs ys. persistToOfflineSub io sub a b = Some (Inr (), b\<lparr>storage_at := (storage_at b)(sub_storage sub := cs)\<rparr>) \<and>
    rs = xs @ ys \<and> cs_holds cs (xs @ (r, storage_bytes (services io) (msg b a)) # ys) \<and> huuid (rheader r) = uuid (msg b a)"
proof -
  let ?d = "storage_bytes (services io) (msg b a)"
  have ne: "?d \<noteq> []" by (simp add: storage_bytes_def)
  have same: "(message_copy (msg b a))\<lparr>uuid := uuid (msg b a)\<rparr> = message_copy (msg b a)" by (simp add: message_copy_def)
  from worker.append_holds [OF assms(3,4) ne assms(1)] obtain r cs xs ys where
    "cs_append True (uuid (msg b a)) ?d (storage_at b (sub_storage sub)) = Some (r, cs)" "rs = xs @ ys" "cs_holds cs (xs @ (r, ?d) # ys)"
    "huuid (rheader r) = uuid (msg b a)" by blast
  then show ?thesis using assms(1,2) unfolding persistToOfflineSub_def
    by (intro exI [of _ cs] exI [of _ r] exI [of _ xs] exI [of _ ys]) (simp add: run_simps same on_storage_def andThen_def)
qed

text \<open>The loop over the subscriptions: each one that is offline and wants the message stores it.\<close>

definition buffer_one :: "io \<Rightarrow> maddr \<Rightarrow> durableSubState \<Rightarrow> unit action" where
  "buffer_one io a sub = andThen (reads (\<lambda>b. msg b a)) (\<lambda>m. whenever (sub_wants m sub) (persistToOfflineSub io sub a))"

lemma buffer_one_runs: "buffer_one io a sub b = (if sub_wants (msg b a) sub then persistToOfflineSub io sub a b else Some (Inr (), b))"
  by (simp add: buffer_one_def run_simps)

lemma buffer_each:
  assumes "distinct (map sub_storage subs)" "uuid (msg b a) \<noteq> 0" "write_ok io"
    "\<forall>sub \<in> set subs. sub_wants (msg b a) sub \<longrightarrow> cs_holds (storage_at b (sub_storage sub)) (R (sub_storage sub)) \<and>
       cs_room (storage_bytes (services io) (msg b a)) (storage_at b (sub_storage sub))"
  shows "\<exists>S. each subs (buffer_one io a) b =
      Some (Inr (), b\<lparr>storage_at := S\<rparr>) \<and>
    (\<forall>sub \<in> set subs. sub_wants (msg b a) sub \<longrightarrow> (\<exists>r xs ys. R (sub_storage sub) = xs @ ys \<and>
       cs_holds (S (sub_storage sub)) (xs @ (r, storage_bytes (services io) (msg b a)) # ys) \<and> huuid (rheader r) = uuid (msg b a))) \<and>
    (\<forall>s. (\<forall>sub \<in> set subs. sub_wants (msg b a) sub \<longrightarrow> sub_storage sub \<noteq> s) \<longrightarrow> S s = storage_at b s)"
  using assms
proof (induction subs arbitrary: b)
  case Nil
  then show ?case by (auto simp: run_simps intro!: exI [of _ "storage_at b"])
next
  case (Cons sub subs)
  have d: "\<forall>x \<in> set subs. sub_storage x \<noteq> sub_storage sub" using Cons.prems(1) by (simp add: image_iff) metis
  show ?case
  proof (cases "sub_wants (msg b a) sub")
    case False
    with Cons.IH [of b] Cons.prems show ?thesis by (simp add: andThen_def buffer_one_runs)
  next
    case True
    from persistToOfflineSub_stores [OF Cons.prems(2,3), of sub "R (sub_storage sub)"] Cons.prems(4) True obtain cs r xs ys where
      p: "persistToOfflineSub io sub a b = Some (Inr (), b\<lparr>storage_at := (storage_at b)(sub_storage sub := cs)\<rparr>)"
        "R (sub_storage sub) = xs @ ys" "cs_holds cs (xs @ (r, storage_bytes (services io) (msg b a)) # ys)" "huuid (rheader r) = uuid (msg b a)" by auto
    let ?b = "b\<lparr>storage_at := (storage_at b)(sub_storage sub := cs)\<rparr>"
    have m: "msg ?b = msg b" by (simp add: msg_def fun_eq_iff)
    from Cons.IH [of ?b] Cons.prems d m obtain S where
      S: "each subs (buffer_one io a) ?b = Some (Inr (), b\<lparr>storage_at := S\<rparr>)"
        "\<forall>x \<in> set subs. sub_wants (msg b a) x \<longrightarrow> (\<exists>r xs ys. R (sub_storage x) = xs @ ys \<and>
           cs_holds (S (sub_storage x)) (xs @ (r, storage_bytes (services io) (msg b a)) # ys) \<and> huuid (rheader r) = uuid (msg b a))"
        "\<forall>s. (\<forall>x \<in> set subs. sub_wants (msg b a) x \<longrightarrow> sub_storage x \<noteq> s) \<longrightarrow> S s = ((storage_at b)(sub_storage sub := cs)) s"
      by auto
    have "S (sub_storage sub) = cs" using S(3) d by simp
    moreover have "buffer_one io a sub b = Some (Inr (), ?b)" using True p(1) buffer_one_runs [of io a sub b] by simp
    ultimately show ?thesis using S p True
      by (intro exI [of _ S]) (auto simp: andThen_def)
  qed
qed

section \<open>All subscriptions of a topic\<close>

text \<open>C11: when \<open>Destination::save\<close> gets a persistent message for a topic, outside a transaction and while no consumer is online, it
  stores the message, with its id, for every durable subscription that is registered with the topic, is offline and has no selector or one that accepts the
  message, and in no other storage; no queue and no message object changes.  (The subscriptions have storages of their own, which have room, the disk can
  be written, and the loop over the hash map of the subscriptions visits each of them once.)\<close>

theorem offline_subscriptions_keep_message:
  fixes b :: broker and a :: maddr and io :: io
  assumes "isTopicFamily (dest_at b d)" "dest_consumers (dest_at b d) = []" "transactionId b p = []" "isPersistent (msg b a)" "uuid (msg b a) \<noteq> 0"
    "write_ok io" "subs = map snd (durableSubs (dest_at b d))" "distinct (map sub_storage subs)"
    "\<forall>sub \<in> set subs. sub_wants (msg b a) sub \<longrightarrow> cs_holds (storage_at b (sub_storage sub)) (R (sub_storage sub)) \<and>
       cs_room (storage_bytes (services io) (msg b a)) (storage_at b (sub_storage sub))"
    "iter_ok io" "distinct (al_keys (durableSubs (dest_at b d)))"
  shows "\<exists>b'. save io d p a b = Some (Inr (), b') \<and>
    (\<forall>sub \<in> set subs. sub_wants (msg b a) sub \<longrightarrow> (\<exists>r xs ys. R (sub_storage sub) = xs @ ys \<and>
       cs_holds (storage_at b' (sub_storage sub)) (xs @ (r, storage_bytes (services io) (msg b a)) # ys) \<and> huuid (rheader r) = uuid (msg b a))) \<and>
    (\<forall>s. (\<forall>sub \<in> set subs. sub_wants (msg b a) sub \<longrightarrow> sub_storage sub \<noteq> s) \<longrightarrow> storage_at b' s = storage_at b s) \<and> heap b' = heap b"
proof -
  define b1 where "b1 = upd_dest d (\<lambda>x. x\<lparr>messageCounter := messageCounter (dest_at b d) + 1\<rparr>) b"
  have iter_nil: "iter_map (iter_ids io) (dest_consumers (dest_at b d)) = []" using assms(2) by (simp add: iter_map_def List.map_filter_def)
  have b1: "msg b1 = msg b" "storage_at b1 = storage_at b" "heap b1 = heap b" "dest_targets io d b1 = []" "transactionId b1 p = []"
    "isTopicFamily (dest_at b1 d)" "durableSubs (dest_at b1 d) = durableSubs (dest_at b d)"
    using assms(1-3) iter_nil by (simp_all add: b1_def upd_dest_def msg_def fun_eq_iff dest_targets_def Let_def isQueueFamily_def isTopicFamily_def transactionId_def)
  define vs where "vs = iter_map (iter_names io) (durableSubs (dest_at b d))"
  have ms: "mset vs = mset subs"
    using iter_map_all [of "iter_names io" "durableSubs (dest_at b d)"] assms(7,10,11) by (simp add: iter_ok_def vs_def)
  then have vs: "set vs = set subs" "distinct (map sub_storage vs)"
    using assms(8) mset_eq_setD [OF ms] mset_eq_imp_distinct_iff [of "map sub_storage vs" "map sub_storage subs"] by simp_all
  from buffer_each [OF vs(2), of b1 a io R] assms(5,6,9) b1 vs(1) obtain S where
    S: "each vs (buffer_one io a) b1 = Some (Inr (), b1\<lparr>storage_at := S\<rparr>)"
    "\<forall>sub \<in> set subs. sub_wants (msg b a) sub \<longrightarrow> (\<exists>r xs ys. R (sub_storage sub) = xs @ ys \<and>
       cs_holds (S (sub_storage sub)) (xs @ (r, storage_bytes (services io) (msg b a)) # ys) \<and> huuid (rheader r) = uuid (msg b a))"
    "\<forall>s. (\<forall>sub \<in> set subs. sub_wants (msg b a) sub \<longrightarrow> sub_storage sub \<noteq> s) \<longrightarrow> S s = storage_at b s" by auto
  have "save io d p a b = Some (Inr (), b1\<lparr>storage_at := S\<rparr>)"
    using S(1) assms(4) b1 by (simp add: save_def buffer_offline_def run_simps b1_def [symmetric] buffer_one_def [symmetric] vs_def)
  with S(2,3) b1(3) show ?thesis by (intro exI [of _ "b1\<lparr>storage_at := S\<rparr>"]) simp
qed

text \<open>A topic with one subscription, whose consumer is away.\<close>

definition sample_subscription :: durableSubState where
  "sample_subscription = \<lparr>sub_name = ''s'', sub_path = ''durable-s/'', sub_storage = 0, activeConsumerUuid = 0, sub_selector = None\<rparr>"

definition sample_subscribed :: broker where
  "sample_subscribed = upd_dest 0 (\<lambda>x. x\<lparr>dest_type := Topic, durableSubs := [(''s'', sample_subscription)]\<rparr>)
     (upd_msg 0 (\<lambda>_. sample_message7) (sample_broker\<lparr>next_msg := 1\<rparr>))"

theorem offline_subscriptions_keep_message_witness:
  "\<exists>b' r xs ys. save sample_io 0 0 0 sample_subscribed = Some (Inr (), b') \<and> [(the_record, [10, 20, 30])] = xs @ ys \<and>
    cs_holds (storage_at b' 0) (xs @ (r, storage_bytes (services sample_io) sample_message7) # ys) \<and> huuid (rheader r) = 7"
proof -
  let ?b = sample_subscribed
  have m: "msg ?b 0 = sample_message7" "isPersistent sample_message7" "uuid sample_message7 = 7"
    by (simp_all add: sample_subscribed_def sample_message7_def isPersistent_def new_message_def)
  have d: "dest_at ?b 0 = sample_destination\<lparr>dest_type := Topic, durableSubs := [(''s'', sample_subscription)]\<rparr>" "storage_at ?b s = sample_worker"
    "transactionId ?b 0 = []" for s
    by (simp_all add: sample_subscribed_def upd_dest_def upd_msg_def sample_broker_def transactionId_def)
  have subs: "[sample_subscription] = map snd (durableSubs (dest_at ?b 0))" "dest_consumers (dest_at ?b 0) = []" "distinct (al_keys (durableSubs (dest_at ?b 0)))"
    "iter_ok sample_io" by (simp_all add: d sample_destination_def iter_ok_def sample_io_def)
  have "length (storage_bytes (services sample_io) sample_message7) < 10000" by code_simp
  then have r: "cs_holds (storage_at ?b 0) [(the_record, [10, 20, 30])]" "cs_room (storage_bytes (services sample_io) sample_message7) (storage_at ?b 0)"
    by (simp_all add: d cs_holds_idle one_record_store_ok sample_worker_room)
  have "\<exists>b'. save sample_io 0 0 0 ?b = Some (Inr (), b') \<and>
    (\<forall>sub \<in> set [sample_subscription]. sub_wants (msg ?b 0) sub \<longrightarrow> (\<exists>r xs ys. [(the_record, [10, 20, 30])] = xs @ ys \<and>
       cs_holds (storage_at b' (sub_storage sub)) (xs @ (r, storage_bytes (services sample_io) (msg ?b 0)) # ys) \<and> huuid (rheader r) = uuid (msg ?b 0))) \<and>
    (\<forall>s. (\<forall>sub \<in> set [sample_subscription]. sub_wants (msg ?b 0) sub \<longrightarrow> sub_storage sub \<noteq> s) \<longrightarrow> storage_at b' s = storage_at ?b s) \<and> heap b' = heap ?b"
    by (rule offline_subscriptions_keep_message [where R = "\<lambda>_. [(the_record, [10, 20, 30])]"])
      (use subs r m d in \<open>simp_all add: isTopicFamily_def sample_io_def sample_subscription_def\<close>)
  then show ?thesis using m by (auto simp: sub_wants_def sample_subscription_def)
qed

end
