(* ===== verification/Anomalies.thy ===== *)
theory Anomalies
  imports Routing
begin

text \<open>
  Behaviour of the code that departs from what its comments, JMS or SQL say, each shown on the model by
  a general lemma or by an input for which it happens.
\<close>

section \<open>Selectors\<close>

text \<open>A string literal without its closing quote is read up to the end of the selector.\<close>

lemma unterminated_literal_accepted:
  "selector_parse ''a = 'x'' = selector_parse ''a = 'x' ''" "isl (selector_parse ''a = 'x'') = False"
  by code_simp+

text \<open>A literal that does not fit makes \<open>std::stoll\<close> throw, which is no \<open>InvalidSelectorException\<close>.\<close>

lemma large_literal_throws_out_of_range:
  "stoll ''9223372036854775808'' = Inl StdOutOfRange" "parse_literal ((TOK_INT_LIT, ''9223372036854775808''), rest) = Inl StdOutOfRange"
proof -
  show "stoll ''9223372036854775808'' = Inl StdOutOfRange" by (simp add: stoll_def split_sign_def)
  then show "parse_literal ((TOK_INT_LIT, ''9223372036854775808''), rest) = Inl StdOutOfRange"
    by (simp add: parse_literal_def check_def try_bind_def)
qed

text \<open>Integers are compared as doubles: $2^{53}$ and its successor are equal for the selector.\<close>

lemma large_integers_are_equal: "selEQ (VInt 9007199254740992) (VInt 9007199254740993)"
proof -
  have b: "bit_length (9007199254740993 :: nat) = 54" "bit_length (9007199254740992 :: nat) = 54" "bit_length (1 :: nat) = 1"
    by (simp_all add: bit_length.simps)
  have l: "log2_floor 9007199254740993 = 53" "log2_floor 9007199254740992 = 53"
    using b by (simp_all add: log2_floor_def quotient_of_number)
  have f: "\<lfloor>9007199254740993 / 2 :: rat\<rfloor> = 4503599627370496" by (rule floor_unique) simp_all
  have "double_of_int 9007199254740993 = double_of_int 9007199254740992"
    using l f by (simp add: double_of_int_def round_double_def ulp_exp_def round_half_even_def Let_def)
  then show ?thesis by (simp add: selEQ_def fp_eq_def double_of_int_def)
qed

text \<open>A percent sign does not match a line break.\<close>

lemma like_stops_at_line_break:
  "\<not> regex_match (''a'' @ [CHR 0x0A] @ ''b'') (likeToRegex ''a%'')" "like_spec ''a%'' (''a'' @ [CHR 0x0A] @ ''b'')"
  by code_simp+

section \<open>Headers\<close>

text \<open>The numeric header block is 33 bytes long.\<close>

lemma numeric_block_is_33_bytes: "kHdrNums = 33" "length (fixed_block m) = kFixed + kHdrNums"
  by (simp_all add: kHdrNums_def kFixed_def fixed_block_def)

section \<open>Subscriptions and producers\<close>

text \<open>Two subscriptions with different keys can share a directory.\<close>

lemma durable_directories_collide:
  "durable_dir ''a'' ''b-c'' = durable_dir ''a-b'' ''c''" "durableKey ''a'' ''b-c'' \<noteq> durableKey ''a-b'' ''c''"
  by (simp_all add: durable_dir_def durableKey_def unit_separator_def)

text \<open>A producer on a queue without a consumer dereferences the end of the map.\<close>

lemma createProducer_without_consumer:
  "isQueueFamily (dest_at b d) \<Longrightarrow> dest_consumers (dest_at b d) = [] \<Longrightarrow> createProducer io d s b = Some (Inl UndefinedBehaviour, b)"
  by (simp add: createProducer_def run_simps)

text \<open>\<open>commit\<close> gives every session a new transaction id, also one that is not transacted; the next message its
  producer pushes takes the transacted path and meets a null queue.\<close>

lemma commit_opens_transaction:
  assumes "sess_producers (session_at b s) = []" "sess_consumers (session_at b s) = []"
  shows "\<exists>b'. session_commit io s b = Some (Inr (), b') \<and> suffix (session_at b' s) = uuid_toString (services io) (randoms b (random_reads b)) \<and>
    sess_mode (session_at b' s) = sess_mode (session_at b s)"
  using assms by (simp add: session_commit_def run_simps iter_map_def List.map_filter_def random_text_def)
    (simp add: andThen_def createRandomUUID_def run_simps upd_session_def)

lemma push_without_transaction_queue:
  assumes "accepts b c a" "transactionId b p \<noteq> []" "\<not> isPersistent (msg b a)" "uuid (msg b a) \<noteq> 0" "prod_transactQueue (producer_at b p) = None"
  shows "\<exists>b'. push io c n p a b = Some (Inl UndefinedBehaviour, b')"
proof -
  let ?K = "(message_copy (msg b a))\<lparr>uuid := uuid (msg b a), number := n\<rparr>"
  define b1 where "b1 = b\<lparr>heap := set_msg (next_msg b) ?K (heap b), next_msg := Suc (next_msg b)\<rparr>"
  have b1: "transactionId b1 p = transactionId b p" "producer_at b1 = producer_at b" by (simp_all add: b1_def transactionId_def)
  have "preparePush io c n p a b = Some (Inr (next_msg b), b1)"
    unfolding preparePush_def using assms(3,4)
    by (simp add: run_simps) (simp add: andThen_def new_msg_def run_simps b1_def)
  then show ?thesis unfolding push_def using assms(1,2,5) b1
    by (simp add: run_simps accepts_def split: option.splits) (simp_all add: andThen_def run_simps)
qed

text \<open>What a transaction sent to a topic reaches a consumer whatever its selector says.\<close>

lemma committed_topic_message_skips_selector:
  assumes "isTopicFamily (dest_at b d)" "dest_targets io d b = [c]" "\<not> isPersistent (msg b a)" "deliveryTime (jmsHeaders (msg b a)) = 0"
    "a \<noteq> next_msg b" "queues_ok (heap b)"
  shows "\<exists>b'. deliverCommitted io d a b = Some (Inr (), b') \<and> queue_abs (heap b') (con_queue (consumer_at b c)) =
    spec_enqueue (band_of (Some (priority (jmsHeaders (msg b a))))) (next_msg b) (queue_abs (heap b) (con_queue (consumer_at b c)))"
proof -
  let ?k = "next_msg b" and ?q = "con_queue (consumer_at b c)"
  define b1 where "b1 = b\<lparr>heap := set_msg ?k (message_copy (msg b a)) (heap b), next_msg := Suc ?k\<rparr>"
  have b1: "msg b1 ?k = message_copy (msg b a)" "msg b1 a = msg b a" "queue_at (heap b1) = queue_at (heap b)" "dest_at b1 = dest_at b"
    using assms(5) by (simp_all add: b1_def msg_def)
  have q: "queues_ok (heap b1)" "queue_abs (heap b1) = queue_abs (heap b)" using assms(6) b1(3) by (simp_all add: queues_ok_def queue_abs_def fun_eq_iff)
  have "\<not> isQueueFamily (dest_at b d)" using assms(1) by (auto simp: isTopicFamily_def isQueueFamily_def)
  moreover have "new_msg (message_copy (msg b a)) b = Some (Inr ?k, b1)" by (simp add: new_msg_def run_simps b1_def)
  moreover have "dest_enqueueOrSchedule d ?q ?k b1 = Some (Inr (), b1\<lparr>heap := enqueue_msg ?q ?k (heap b1)\<rparr>)"
    by (rule enqueue_now) (simp add: b1(1) assms(4))
  moreover have "msg (b1\<lparr>heap := enqueue_msg ?q ?k (heap b1)\<rparr>) a = msg b a" using b1(2) by (simp add: msg_def)
  ultimately have "deliverCommitted io d a b = Some (Inr (), b1\<lparr>heap := enqueue_msg ?q ?k (heap b1)\<rparr>)"
    using assms(2,3) by (simp add: deliverCommitted_def run_simps) (simp add: andThen_def run_simps)
  moreover have "msg_priority (heap b1) ?k = priority (jmsHeaders (msg b a))" using b1(1) by (simp add: msg_priority_def msg_def)
  ultimately show ?thesis using queue_abs_enqueue [OF q(1), of ?q ?k ?q] q(2) by simp
qed

end
