(* ===== verification/Queue_Threads.thy ===== *)
theory Queue_Threads
  imports Priority_Queue
begin

text \<open>
  The ten-band priority queue of \<open>Message.h\<close> under any number of threads.  A step is one atomic operation
  of one thread: an operation of a band (\<open>moodycamel::ConcurrentQueue\<close>), of the mask (\<open>load\<close>, \<open>fetch_or\<close>,
  \<open>fetch_and\<close>) or of the semaphore; the program counter of a thread says which operation it does next, and
  what it keeps in local variables.  A band gives out any of its elements, since the vendored queue keeps the
  order of one producer only, and may report "empty" while it is not, since that queue only promises that its
  parts appeared empty when they were checked.  The semaphore is the counter that theory \<open>Semaphore\<close> shows
  \<open>LightweightSemaphore\<close> to be; a wait that times out may give up although the counter has a token.
\<close>

section \<open>Threads\<close>

datatype 'a qpc =
    Idle
  | EnqBand nat 'a     \<comment> \<open>about to enqueue in the band\<close>
  | EnqMark nat        \<comment> \<open>about to set the bit of the band\<close>
  | EnqSignal          \<comment> \<open>about to signal the semaphore\<close>
  | DeqWait            \<comment> \<open>about to take a token\<close>
  | DeqLoad            \<comment> \<open>about to load the mask\<close>
  | DeqBand nat        \<comment> \<open>about to dequeue from the highest band of the mask\<close>
  | DeqClear nat       \<comment> \<open>about to clear the bit of a band that was empty\<close>
  | DeqScan nat        \<comment> \<open>in the full scan, with this many bands left\<close>
  | DeqReturn          \<comment> \<open>about to hand the token back\<close>

record 'a qsys =
  queue :: "'a pqueue"
  pcs :: "'a qpc list"
  sent :: "'a multiset"      \<comment> \<open>ghost: what was enqueued in a band\<close>
  got :: "'a multiset"       \<comment> \<open>ghost: what the dequeuers have taken\<close>

definition at_pc :: "nat \<Rightarrow> 'a qpc \<Rightarrow> 'a qsys \<Rightarrow> bool" where
  "at_pc i pc s \<longleftrightarrow> i < length (pcs s) \<and> pcs s ! i = pc"

definition goto :: "nat \<Rightarrow> 'a qpc \<Rightarrow> 'a qsys \<Rightarrow> 'a qsys" where
  "goto i pc s = s\<lparr>pcs := (pcs s)[i := pc]\<rparr>"

text \<open>An element leaves a band.\<close>

definition take_from :: "nat \<Rightarrow> 'a \<Rightarrow> 'a pqueue \<Rightarrow> 'a pqueue \<Rightarrow> bool" where
  "take_from b x q q' \<longleftrightarrow> (\<exists>xs ys. band_at q b = xs @ x # ys \<and> q' = q\<lparr>bands := (bands q)[b := xs @ ys]\<rparr>)"

inductive qstep :: "'a qsys \<Rightarrow> 'a qsys \<Rightarrow> bool" where
  enqueue: "at_pc i Idle s \<Longrightarrow> qstep s (goto i (EnqBand (band_of prio) x) s)"
| enq_band: "at_pc i (EnqBand b x) s \<Longrightarrow>
    qstep s (goto i (EnqMark b) (s\<lparr>queue := (queue s)\<lparr>bands := (bands (queue s))[b := bands (queue s) ! b @ [x]]\<rparr>, sent := add_mset x (sent s)\<rparr>))"
| enq_mark: "at_pc i (EnqMark b) s \<Longrightarrow>
    qstep s (goto i EnqSignal (s\<lparr>queue := (queue s)\<lparr>nonEmpty := set_bit b (nonEmpty (queue s))\<rparr>\<rparr>))"
| enq_signal: "at_pc i EnqSignal s \<Longrightarrow> qstep s (goto i Idle (s\<lparr>queue := (queue s)\<lparr>sema := Suc (sema (queue s))\<rparr>\<rparr>))"
| dequeue: "at_pc i Idle s \<Longrightarrow> qstep s (goto i DeqWait s)"
| deq_token: "at_pc i DeqWait s \<Longrightarrow> sema (queue s) = Suc n \<Longrightarrow> qstep s (goto i DeqLoad (s\<lparr>queue := (queue s)\<lparr>sema := n\<rparr>\<rparr>))"
| deq_no_token: "at_pc i DeqWait s \<Longrightarrow> qstep s (goto i Idle s)"
| deq_load: "at_pc i DeqLoad s \<Longrightarrow>
    qstep s (goto i (if nonEmpty (queue s) = 0 then DeqScan kBands else DeqBand (top_band (nonEmpty (queue s)))) s)"
| deq_found: "at_pc i (DeqBand b) s \<Longrightarrow> take_from b x (queue s) q \<Longrightarrow> qstep s (goto i Idle (s\<lparr>queue := q, got := add_mset x (got s)\<rparr>))"
| deq_missed: "at_pc i (DeqBand b) s \<Longrightarrow> qstep s (goto i (DeqClear b) s)"
| deq_clear: "at_pc i (DeqClear b) s \<Longrightarrow>
    qstep s (goto i DeqLoad (s\<lparr>queue := (queue s)\<lparr>nonEmpty := unset_bit b (nonEmpty (queue s))\<rparr>\<rparr>))"
| scan_found: "at_pc i (DeqScan (Suc b)) s \<Longrightarrow> take_from b x (queue s) q \<Longrightarrow> qstep s (goto i Idle (s\<lparr>queue := q, got := add_mset x (got s)\<rparr>))"
| scan_missed: "at_pc i (DeqScan (Suc b)) s \<Longrightarrow> qstep s (goto i (DeqScan b) s)"
| scan_end: "at_pc i (DeqScan 0) s \<Longrightarrow> qstep s (goto i DeqReturn s)"
| deq_return: "at_pc i DeqReturn s \<Longrightarrow> qstep s (goto i Idle (s\<lparr>queue := (queue s)\<lparr>sema := Suc (sema (queue s))\<rparr>\<rparr>))"

definition start_queue :: "'a qsys \<Rightarrow> bool" where
  "start_queue s \<longleftrightarrow> queue s = pq_empty \<and> (\<forall>pc \<in> set (pcs s). pc = Idle) \<and> sent s = {#} \<and> got s = {#}"

section \<open>The balance of messages and tokens\<close>

text \<open>A message whose token is not signalled yet, and a token whose message is not taken yet.\<close>

fun unsignalled :: "'a qpc \<Rightarrow> nat" where
  "unsignalled (EnqMark b) = 1"
| "unsignalled EnqSignal = 1"
| "unsignalled _ = 0"

fun holding :: "'a qpc \<Rightarrow> nat" where
  "holding DeqLoad = 1"
| "holding (DeqBand b) = 1"
| "holding (DeqClear b) = 1"
| "holding (DeqScan n) = 1"
| "holding DeqReturn = 1"
| "holding _ = 0"

fun pc_ok :: "'a qpc \<Rightarrow> bool" where
  "pc_ok (EnqBand b x) = (b < kBands)"
| "pc_ok (EnqMark b) = (b < kBands)"
| "pc_ok (DeqBand b) = (b < kBands)"
| "pc_ok (DeqScan n) = (n \<le> kBands)"
| "pc_ok _ = True"

definition in_bands :: "'a pqueue \<Rightarrow> 'a multiset" where
  "in_bands q = mset (concat (bands q))"

definition qinv :: "'a qsys \<Rightarrow> bool" where
  "qinv s \<longleftrightarrow> length (bands (queue s)) = kBands \<and> (\<forall>b. bit (nonEmpty (queue s)) b \<longrightarrow> b < kBands) \<and> list_all pc_ok (pcs s) \<and>
     sent s = in_bands (queue s) + got s \<and>
     size (in_bands (queue s)) = sema (queue s) + sum_list (map holding (pcs s)) + sum_list (map unsignalled (pcs s))"

lemma in_bands_enqueue: "b < length (bands q) \<Longrightarrow> in_bands (q\<lparr>bands := (bands q)[b := bands q ! b @ [x]]\<rparr>) = add_mset x (in_bands q)"
proof -
  have "mset (concat (bs[b := bs ! b @ [x]])) = add_mset x (mset (concat bs))" if "b < length bs" for bs
    using that by (induction bs arbitrary: b) (auto split: nat.splits)
  then show "b < length (bands q) \<Longrightarrow> ?thesis" by (simp add: in_bands_def)
qed

lemma take_from_bands:
  assumes "take_from b x q q'"
  shows "in_bands q = add_mset x (in_bands q')" "nonEmpty q' = nonEmpty q" "sema q' = sema q" "length (bands q') = length (bands q)"
proof -
  from assms obtain xs ys where t: "band_at q b = xs @ x # ys" "q' = q\<lparr>bands := (bands q)[b := xs @ ys]\<rparr>" by (auto simp: take_from_def)
  have "mset (concat bs) = add_mset x (mset (concat (bs[b := xs @ ys])))" if "b < length bs" "bs ! b = xs @ x # ys" for bs
    using that by (induction bs arbitrary: b) (auto split: nat.splits)
  with t show "in_bands q = add_mset x (in_bands q')" by (auto simp: in_bands_def band_at_def split: if_splits)
  show "nonEmpty q' = nonEmpty q" "sema q' = sema q" "length (bands q') = length (bands q)" using t(2) by simp_all
qed

lemma goto_simps [simp]:
  "queue (goto i pc s) = queue s" "sent (goto i pc s) = sent s" "got (goto i pc s) = got s" "pcs (goto i pc s) = (pcs s)[i := pc]"
  by (simp_all add: goto_def)

lemma qinv_at: "qinv s \<Longrightarrow> at_pc i pc s \<Longrightarrow> pc_ok pc"
  by (auto simp: qinv_def at_pc_def list_all_length)

text \<open>A step that moves one thread keeps the invariant when the shared part changes as its counters do.\<close>

lemma qinv_move:
  assumes "qinv s" "at_pc i pc s" "pcs s' = (pcs s)[i := pc']" "pc_ok pc'"
    "length (bands (queue s')) = kBands" "\<forall>b. bit (nonEmpty (queue s')) b \<longrightarrow> b < kBands" "sent s' = in_bands (queue s') + got s'"
    "size (in_bands (queue s')) + sema (queue s) + holding pc + unsignalled pc =
     size (in_bands (queue s)) + sema (queue s') + holding pc' + unsignalled pc'"
  shows "qinv s'"
proof -
  have i: "i < length (pcs s)" "pcs s ! i = pc" using assms(2) by (simp_all add: at_pc_def)
  have "list_all pc_ok ((pcs s)[i := pc'])"
    using assms(1,4) set_update_subset_insert [of "pcs s" i pc'] by (auto simp: qinv_def list_all_iff)
  then show ?thesis
    using assms sum_list_at [OF i(1), of holding pc'] sum_list_at [OF i(1), of unsignalled pc'] i(2) by (simp add: qinv_def)
qed

lemma top_band_less: "w \<noteq> 0 \<Longrightarrow> \<forall>b. bit w b \<longrightarrow> b < kBands \<Longrightarrow> top_band w < kBands"
  using top_band_bit by blast

lemma qstep_qinv: "qstep s s' \<Longrightarrow> qinv s \<Longrightarrow> qinv s'"
proof (induction rule: qstep.induct)
  case (enqueue i s prio x)
  then show ?case by (intro qinv_move [OF enqueue(2,1), where pc' = "EnqBand (band_of prio) x"]) (auto simp: qinv_def)
next
  case (enq_band i b x s)
  have "b < kBands" using qinv_at [OF enq_band(2,1)] by simp
  with enq_band show ?case
    by (intro qinv_move [OF enq_band(2,1), where pc' = "EnqMark b"]) (auto simp: qinv_def in_bands_enqueue)
next
  case (enq_mark i b s)
  have "b < kBands" using qinv_at [OF enq_mark(2,1)] by simp
  with enq_mark show ?case
    by (intro qinv_move [OF enq_mark(2,1), where pc' = EnqSignal]) (auto simp: qinv_def in_bands_def bit_simps)
next
  case (enq_signal i s)
  then show ?case by (intro qinv_move [OF enq_signal(2,1), where pc' = Idle]) (auto simp: qinv_def in_bands_def)
next
  case (dequeue i s)
  then show ?case by (intro qinv_move [OF dequeue(2,1), where pc' = DeqWait]) (auto simp: qinv_def)
next
  case (deq_token i s n)
  then show ?case by (intro qinv_move [OF deq_token(3,1), where pc' = DeqLoad]) (auto simp: qinv_def in_bands_def)
next
  case (deq_no_token i s)
  then show ?case by (intro qinv_move [OF deq_no_token(2,1), where pc' = Idle]) (auto simp: qinv_def)
next
  case (deq_load i s)
  then show ?case
    by (intro qinv_move [OF deq_load(2,1), where pc' = "if nonEmpty (queue s) = 0 then DeqScan kBands else DeqBand (top_band (nonEmpty (queue s)))"])
      (auto simp: qinv_def top_band_less)
next
  case (deq_found i b s x q)
  then show ?case
    using take_from_bands [OF deq_found(2)] by (intro qinv_move [OF deq_found(3,1), where pc' = Idle]) (auto simp: qinv_def)
next
  case (deq_missed i b s)
  then show ?case by (intro qinv_move [OF deq_missed(2,1), where pc' = "DeqClear b"]) (auto simp: qinv_def)
next
  case (deq_clear i b s)
  then show ?case by (intro qinv_move [OF deq_clear(2,1), where pc' = DeqLoad]) (auto simp: qinv_def in_bands_def bit_simps)
next
  case (scan_found i b s x q)
  then show ?case
    using take_from_bands [OF scan_found(2)] by (intro qinv_move [OF scan_found(3,1), where pc' = Idle]) (auto simp: qinv_def)
next
  case (scan_missed i b s)
  have "Suc b \<le> kBands" using qinv_at [OF scan_missed(2,1)] by simp
  with scan_missed show ?case by (intro qinv_move [OF scan_missed(2,1), where pc' = "DeqScan b"]) (auto simp: qinv_def)
next
  case (scan_end i s)
  then show ?case by (intro qinv_move [OF scan_end(2,1), where pc' = DeqReturn]) (auto simp: qinv_def)
next
  case (deq_return i s)
  then show ?case by (intro qinv_move [OF deq_return(2,1), where pc' = Idle]) (auto simp: qinv_def in_bands_def)
qed

lemma idle_sums: "\<forall>pc \<in> set xs. pc = Idle \<Longrightarrow> sum_list (map holding xs) = 0 \<and> sum_list (map unsignalled xs) = 0"
  by (induction xs) auto

interpretation queue_run: invariant_run start_queue qstep qinv
proof
  show "qinv s" if "start_queue s" for s :: "'a qsys"
    using that idle_sums [of "pcs s"] by (auto simp: start_queue_def qinv_def pq_empty_def in_bands_def list_all_iff)
qed (rule qstep_qinv)

section \<open>A queue at rest\<close>

text \<open>The operations of theory \<open>Priority_Queue\<close> on a queue whose mask may miss a band: whatever the mask
  says, a token leads to a message.\<close>

definition balanced :: "'a pqueue \<Rightarrow> bool" where
  "balanced q \<longleftrightarrow> length (bands q) = kBands \<and> sema q = size (in_bands q)"

lemma take_head: "band_at q b = x # xs \<Longrightarrow> take_from b x q (q\<lparr>bands := (bands q)[b := xs]\<rparr>)"
  unfolding take_from_def by (rule exI [of _ "[]"], rule exI [of _ xs]) simp

lemma pq_scan_takes:
  "\<exists>b < n. band_at q b \<noteq> [] \<Longrightarrow> \<exists>b x q'. pq_scan n q = (Some x, q') \<and> take_from b x q q'"
proof (induction n)
  case (Suc n)
  then show ?case by (cases "band_at q n") (auto simp: less_Suc_eq intro: take_head)
qed simp

lemma in_bands_nonempty: "in_bands q \<noteq> {#} \<Longrightarrow> \<exists>b < length (bands q). band_at q b \<noteq> []"
proof (rule ccontr)
  assume ne: "in_bands q \<noteq> {#}" and "\<not> ?thesis"
  then have "\<forall>xs \<in> set (bands q). xs = []" by (simp add: band_at_def all_set_conv_all_nth)
  then have "concat (bands q) = []" by simp
  with ne show False by (simp add: in_bands_def)
qed

lemma dequeueFromBands_takes:
  "in_bands q \<noteq> {#} \<Longrightarrow> length (bands q) = kBands \<Longrightarrow>
     \<exists>x q'. dequeueFromBands q = (Some x, q') \<and> in_bands q = add_mset x (in_bands q') \<and> sema q' = sema q \<and> length (bands q') = kBands"
proof (induction q rule: dequeueFromBands.induct)
  case (1 q)
  show ?case
  proof (cases "nonEmpty q = 0")
    case True
    with pq_scan_takes [of kBands q] in_bands_nonempty [of q] "1.prems" obtain b x q' where
      "dequeueFromBands q = (Some x, q')" "take_from b x q q'" by (auto simp: dequeueFromBands.simps [of q])
    with take_from_bands [of b x q q'] "1.prems" show ?thesis by auto
  next
    case False
    show ?thesis
    proof (cases "band_at q (top_band (nonEmpty q))")
      case Nil
      let ?q = "q\<lparr>nonEmpty := unset_bit (top_band (nonEmpty q)) (nonEmpty q)\<rparr>"
      have "in_bands ?q = in_bands q" by (simp add: in_bands_def)
      with "1.IH" [OF False refl Nil] "1.prems" False Nil show ?thesis
        by (simp add: dequeueFromBands.simps [of q] Let_def)
    next
      case (Cons x xs)
      with take_from_bands [OF take_head [OF Cons]] "1.prems" False show ?thesis
        by (simp add: dequeueFromBands.simps [of q] Let_def)
    qed
  qed
qed

lemma try_dequeue_takes:
  assumes "balanced q" "in_bands q \<noteq> {#}"
  shows "\<exists>x q'. try_dequeue q = (Some x, q') \<and> in_bands q = add_mset x (in_bands q') \<and> balanced q'"
proof -
  have s: "sema q \<noteq> 0" using assms by (auto simp: balanced_def)
  have "in_bands (q\<lparr>sema := sema q - 1\<rparr>) = in_bands q" by (simp add: in_bands_def)
  with dequeueFromBands_takes [of "q\<lparr>sema := sema q - 1\<rparr>"] assms obtain x q' where
    "dequeueFromBands (q\<lparr>sema := sema q - 1\<rparr>) = (Some x, q')" "in_bands q = add_mset x (in_bands q')" "sema q' = sema q - 1" "length (bands q') = kBands"
    by (auto simp: balanced_def)
  with s assms(1) show ?thesis by (auto simp: try_dequeue_def dequeueFromBandsOrReturnToken_def balanced_def)
qed

lemma pq_drain_takes_all: "balanced q \<Longrightarrow> mset (fst (pq_drain q)) = in_bands q \<and> in_bands (snd (pq_drain q)) = {#}"
proof (induction q rule: pq_drain.induct)
  case (1 q)
  show ?case
  proof (cases "in_bands q = {#}")
    case True
    then have "try_dequeue q = (None, q)" using "1.prems" by (simp add: balanced_def try_dequeue_def)
    with True show ?thesis by (subst (1 2) pq_drain.simps) simp
  next
    case False
    from try_dequeue_takes [OF "1.prems" False] obtain x q' where
      t: "try_dequeue q = (Some x, q')" "in_bands q = add_mset x (in_bands q')" "balanced q'" by blast
    with "1.IH" [OF t(1) [symmetric] refl] show ?thesis by (subst (1 2) pq_drain.simps) (auto split: prod.splits)
  qed
qed

section \<open>The steps of a thread\<close>

text \<open>The next step of a thread inside a call, with bands that are first in, first out: every such thread can
  always go on.\<close>

definition dequeue_at :: "nat \<Rightarrow> nat \<Rightarrow> 'a qpc \<Rightarrow> 'a qsys \<Rightarrow> 'a qsys" where
  "dequeue_at i b missed s =
     (case band_at (queue s) b of
        [] \<Rightarrow> goto i missed s
      | x # xs \<Rightarrow> goto i Idle (s\<lparr>queue := (queue s)\<lparr>bands := (bands (queue s))[b := xs]\<rparr>, got := add_mset x (got s)\<rparr>))"

definition thread_step :: "nat \<Rightarrow> 'a qsys \<Rightarrow> 'a qsys" where
  "thread_step i s =
     (let q = queue s in
      case pcs s ! i of
        Idle \<Rightarrow> s
      | EnqBand b x \<Rightarrow> goto i (EnqMark b) (s\<lparr>queue := q\<lparr>bands := (bands q)[b := bands q ! b @ [x]]\<rparr>, sent := add_mset x (sent s)\<rparr>)
      | EnqMark b \<Rightarrow> goto i EnqSignal (s\<lparr>queue := q\<lparr>nonEmpty := set_bit b (nonEmpty q)\<rparr>\<rparr>)
      | EnqSignal \<Rightarrow> goto i Idle (s\<lparr>queue := q\<lparr>sema := Suc (sema q)\<rparr>\<rparr>)
      | DeqWait \<Rightarrow> if sema q = 0 then goto i Idle s else goto i DeqLoad (s\<lparr>queue := q\<lparr>sema := sema q - 1\<rparr>\<rparr>)
      | DeqLoad \<Rightarrow> goto i (if nonEmpty q = 0 then DeqScan kBands else DeqBand (top_band (nonEmpty q))) s
      | DeqBand b \<Rightarrow> dequeue_at i b (DeqClear b) s
      | DeqClear b \<Rightarrow> goto i DeqLoad (s\<lparr>queue := q\<lparr>nonEmpty := unset_bit b (nonEmpty q)\<rparr>\<rparr>)
      | DeqScan n \<Rightarrow> (case n of 0 \<Rightarrow> goto i DeqReturn s | Suc b \<Rightarrow> dequeue_at i b (DeqScan b) s)
      | DeqReturn \<Rightarrow> goto i Idle (s\<lparr>queue := q\<lparr>sema := Suc (sema q)\<rparr>\<rparr>))"

lemma thread_step_qstep:
  assumes "i < length (pcs s)" "pcs s ! i \<noteq> Idle"
  shows "qstep s (thread_step i s)"
proof -
  note i = assms(1)
  show ?thesis
  proof (cases "pcs s ! i")
    case (DeqBand b)
    with i show ?thesis
      by (cases "band_at (queue s) b") (auto simp: thread_step_def dequeue_at_def at_pc_def intro: qstep.deq_missed qstep.deq_found take_head)
  next
    case (DeqScan n)
    with i show ?thesis
      by (cases n) (auto simp: thread_step_def dequeue_at_def at_pc_def split: list.splits intro: qstep.scan_end qstep.scan_missed qstep.scan_found take_head)
  next
    case DeqWait
    with i show ?thesis
      by (cases "sema (queue s)") (auto simp: thread_step_def at_pc_def intro: qstep.deq_no_token qstep.deq_token)
  next
    case DeqLoad
    with i qstep.deq_load [of i s] show ?thesis by (simp add: thread_step_def at_pc_def Let_def)
  qed (use assms in \<open>auto simp: thread_step_def at_pc_def Let_def intro: qstep.intros\<close>)
qed

fun thread_run :: "nat \<Rightarrow> nat \<Rightarrow> 'a qsys \<Rightarrow> 'a qsys" where
  "thread_run 0 i s = s"
| "thread_run (Suc n) i s = thread_run n i (if i < length (pcs s) then thread_step i s else s)"

definition call_enqueue :: "nat \<Rightarrow> int32 option \<Rightarrow> 'a \<Rightarrow> nat \<Rightarrow> 'a qsys \<Rightarrow> 'a qsys" where
  "call_enqueue i prio x n s = thread_run n i (if at_pc i Idle s then goto i (EnqBand (band_of prio) x) s else s)"

definition call_dequeue :: "nat \<Rightarrow> nat \<Rightarrow> 'a qsys \<Rightarrow> 'a qsys" where
  "call_dequeue i n s = thread_run n i (if at_pc i Idle s then goto i DeqWait s else s)"

lemma thread_run_steps: "qstep\<^sup>*\<^sup>* s (thread_run n i s)"
proof (induction n arbitrary: s)
  case (Suc n)
  have "qstep\<^sup>*\<^sup>* s (thread_step i s)" if "i < length (pcs s)"
  proof (cases "pcs s ! i = Idle")
    case True
    then have "thread_step i s = s" by (simp add: thread_step_def Let_def)
    then show ?thesis by simp
  next
    case False
    then show ?thesis using thread_step_qstep [OF that] by blast
  qed
  then have "qstep\<^sup>*\<^sup>* s (if i < length (pcs s) then thread_step i s else s)" by simp
  from rtranclp_trans [OF this Suc.IH] show ?case by simp
qed simp

lemma call_steps: "qstep\<^sup>*\<^sup>* s (call_enqueue i prio x n s)" "qstep\<^sup>*\<^sup>* s (call_dequeue i n s)"
proof -
  have "qstep\<^sup>*\<^sup>* s (if at_pc i Idle s then goto i (EnqBand (band_of prio) x) s else s)" "qstep\<^sup>*\<^sup>* s (if at_pc i Idle s then goto i DeqWait s else s)"
    using qstep.enqueue [of i s prio x] qstep.dequeue [of i s] by auto
  from this [THEN rtranclp_trans, OF thread_run_steps]
  show "qstep\<^sup>*\<^sup>* s (call_enqueue i prio x n s)" "qstep\<^sup>*\<^sup>* s (call_dequeue i n s)" by (simp_all add: call_enqueue_def call_dequeue_def)
qed

section \<open>What the consumers rely on\<close>

text \<open>C19: whatever the interleaving of any number of threads, no message is lost, delivered twice or made up:
  at every moment what was enqueued is what the dequeuers took and what is in the bands; and for every
  message in a band there is a token, in the semaphore, in the hand of a dequeuer, or about to be signalled.\<close>

theorem threads_conserve_messages:
  assumes "start_queue s0" "qstep\<^sup>*\<^sup>* s0 s"
  shows "sent s = in_bands (queue s) + got s \<and>
    size (in_bands (queue s)) = sema (queue s) + sum_list (map holding (pcs s)) + sum_list (map unsignalled (pcs s))"
  using queue_run.reachable_inv [OF assms(2,1)] by (simp add: qinv_def)

text \<open>No message is stranded: whenever all threads have returned from their calls, emptying the queue
  with \<open>try_dequeue\<close> until it fails hands out exactly the messages that were enqueued and not yet taken, even
  if the mask does not show their bands.\<close>

lemma queue_at_rest_delivers_all:
  assumes "start_queue s0" "qstep\<^sup>*\<^sup>* s0 s" "\<forall>pc \<in> set (pcs s). pc = Idle"
  shows "sent s = got s + mset (fst (pq_drain (queue s))) \<and> in_bands (snd (pq_drain (queue s))) = {#}"
proof -
  have q: "qinv s" using queue_run.reachable_inv assms by blast
  then have "balanced (queue s)" using idle_sums [OF assms(3)] by (simp add: qinv_def balanced_def)
  with pq_drain_takes_all [of "queue s"] q show ?thesis by (simp add: qinv_def)
qed

text \<open>Two threads: thread 1 finds band 9 empty; before it clears the bit of that band, thread 0 enqueues a message
  there.  The bit stays clear.\<close>

definition two_threads :: "nat qsys" where
  "two_threads = \<lparr>queue = pq_empty, pcs = [Idle, Idle], sent = {#}, got = {#}\<rparr>"

definition after_race :: "nat qsys" where
  "after_race =
     call_enqueue 0 (Some 4) 4 3 (thread_run 3 1
       (call_enqueue 0 (Some 9) 3 3 (call_dequeue 1 3
         (call_enqueue 0 (Some 4) 2 3 (call_dequeue 1 3 (call_enqueue 0 (Some 9) 1 3 two_threads))))))"

lemma start_two_threads: "start_queue two_threads"
  by (simp add: start_queue_def two_threads_def)

lemma after_race_reachable: "qstep\<^sup>*\<^sup>* two_threads after_race"
  unfolding after_race_def by (meson call_steps thread_run_steps rtranclp_trans rtranclp.rtrancl_refl)

lemma after_race_state:
  "pcs after_race = [Idle, Idle]" "bands (queue after_race) ! 9 = [3]" "\<not> bit (nonEmpty (queue after_race)) 9" "fst (try_dequeue (queue after_race)) = Some 4"
  by code_simp+

text \<open>The mask can hide a message: there is a run of two threads after which both are idle, the message 3 is
  in band 9 while the bit of band 9 is clear, and the next \<open>try_dequeue\<close> returns message 4 of band 4, which was
  enqueued after 3 and has a lower priority.\<close>

lemma mask_can_hide_message:
  "\<exists>s. qstep\<^sup>*\<^sup>* two_threads s \<and> start_queue two_threads \<and> (\<forall>pc. pc \<in> set (pcs s) \<longleftrightarrow> pc = Idle) \<and> bands (queue s) ! 9 = [3] \<and>
     \<not> bit (nonEmpty (queue s)) 9 \<and> fst (try_dequeue (queue s)) = Some 4"
  using after_race_reachable start_two_threads after_race_state by (intro exI [of _ after_race]) auto

theorem threads_conserve_messages_witness:
  "sent after_race = in_bands (queue after_race) + got after_race \<and>
    size (in_bands (queue after_race)) = sema (queue after_race) + sum_list (map holding (pcs after_race)) + sum_list (map unsignalled (pcs after_race))"
  by (rule threads_conserve_messages [OF start_two_threads after_race_reachable])

lemma queue_at_rest_delivers_all_example:
  "sent after_race = got after_race + mset (fst (pq_drain (queue after_race))) \<and> in_bands (snd (pq_drain (queue after_race))) = {#}"
  by (rule queue_at_rest_delivers_all [OF start_two_threads after_race_reachable]) (simp add: after_race_state)

end
