(* ===== verification/Semaphore.thy ===== *)
theory Semaphore
  imports Prelude
begin

text \<open>
  \<open>LightweightSemaphore\<close> of \<open>lightweightsemaphore.h\<close>, on which the threads that wait for a message block: an
  atomic counter in front of a semaphore of the operating system, so that a wait that finds a token and a
  signal that finds no waiter make no system call.  A step is one atomic operation of one thread, on the
  counter or on the system semaphore, in any interleaving.  The counter does not reach the bounds of \<open>ssize_t\<close>
  and is an integer; it is negative while threads wait, and the cast of the number of system signals to \<open>int\<close> loses nothing
  (fewer than \<open>2 ^ 31\<close> threads wait).  A system call that is interrupted is repeated by the
  wrapper, one that times out or fails is the step \<open>give_up\<close>, and a weak exchange may fail for no reason.
\<close>

section \<open>Threads\<close>

text \<open>\<open>tryWait()\<close>, \<open>wait(timeout)\<close>, \<open>tryWaitMany(max)\<close> and \<open>waitMany(max, timeout)\<close>; a wait with a negative timeout
  does not end before it gets a token.\<close>

datatype sem_call = TryWait | Wait int | TryWaitMany nat | WaitMany nat int

datatype sem_pc =
    SIdle
  | TryLoad sem_call           \<comment> \<open>\<open>tryWait\<close>, \<open>tryWaitMany\<close>: about to load the counter\<close>
  | TryCas sem_call int        \<comment> \<open>about to exchange the loaded value\<close>
  | Spin sem_call nat          \<comment> \<open>about to load, with this many spins left\<close>
  | SpinCas sem_call nat int
  | FetchSub sem_call
  | SysWait sem_call           \<comment> \<open>in \<open>m_sema.wait\<close> or \<open>timed_wait\<close>, counted as a waiter\<close>
  | AdjustLoad sem_call        \<comment> \<open>timed out: about to load the counter\<close>
  | Adjust sem_call int        \<comment> \<open>about to call \<open>try_wait\<close> or to exchange the loaded value\<close>
  | FetchAdd nat               \<comment> \<open>\<open>signal(count)\<close>\<close>
  | SysSignal nat              \<comment> \<open>with this many calls of \<open>sem_post\<close> left\<close>

record sem_sys =
  m_count :: int
  m_sema :: nat
  sem_pcs :: "sem_pc list"
  granted :: nat               \<comment> \<open>ghost: the tokens that waits have returned\<close>
  signalled :: nat             \<comment> \<open>ghost: the tokens there were at the start or that \<open>signal\<close> added\<close>

definition sem_at :: "nat \<Rightarrow> sem_pc \<Rightarrow> sem_sys \<Rightarrow> bool" where
  "sem_at i pc s \<longleftrightarrow> i < length (sem_pcs s) \<and> sem_pcs s ! i = pc"

definition sem_goto :: "nat \<Rightarrow> sem_pc \<Rightarrow> sem_sys \<Rightarrow> sem_sys" where
  "sem_goto i pc s = s\<lparr>sem_pcs := (sem_pcs s)[i := pc]\<rparr>"

text \<open>The timeout of a call; how many of the tokens an exchange takes; where a call goes on when \<open>tryWait\<close> or
  \<open>tryWaitMany\<close> found no token, after one token was taken by \<open>fetch_sub\<close> or from the system, and after
  \<open>fetch_sub\<close> found none.\<close>

fun timeout_usecs :: "sem_call \<Rightarrow> int" where
  "timeout_usecs (Wait t) = t"
| "timeout_usecs (WaitMany mx t) = t"
| "timeout_usecs _ = 0"

fun taken :: "sem_call \<Rightarrow> int \<Rightarrow> nat" where
  "taken (TryWaitMany mx) old = nat (old - (if old > int mx then old - int mx else 0))"
| "taken (WaitMany mx t) old = nat (old - (if old > int mx then old - int mx else 0))"
| "taken _ old = 1"

fun after_try :: "nat \<Rightarrow> sem_call \<Rightarrow> sem_pc" where
  "after_try maxSpins (Wait t) = Spin (Wait t) maxSpins"
| "after_try maxSpins (WaitMany mx t) = (if mx > 0 then Spin (WaitMany mx t) maxSpins else SIdle)"
| "after_try maxSpins _ = SIdle"

fun after_one :: "sem_call \<Rightarrow> sem_pc" where
  "after_one (WaitMany mx t) = (if mx > 1 then TryLoad (TryWaitMany (mx - 1)) else SIdle)"
| "after_one _ = SIdle"

definition after_sub :: "sem_call \<Rightarrow> sem_pc" where
  "after_sub c = (if timeout_usecs c = 0 then AdjustLoad c else SysWait c)"

text \<open>The system signals a \<open>signal\<close> owes to the waiters it found.\<close>

definition toRelease :: "int \<Rightarrow> nat \<Rightarrow> nat" where
  "toRelease oldCount n = nat (if - oldCount < int n then - oldCount else int n)"

definition grant :: "nat \<Rightarrow> sem_sys \<Rightarrow> sem_sys" where
  "grant n s = s\<lparr>granted := granted s + n\<rparr>"

inductive sem_step :: "nat \<Rightarrow> sem_sys \<Rightarrow> sem_sys \<Rightarrow> bool" for maxSpins where
  call: "sem_at i SIdle s \<Longrightarrow> sem_step maxSpins s (sem_goto i (TryLoad c) s)"
| call_signal: "sem_at i SIdle s \<Longrightarrow> sem_step maxSpins s (sem_goto i (FetchAdd n) s)"
| try_load: "sem_at i (TryLoad c) s \<Longrightarrow>
    sem_step maxSpins s (sem_goto i (if m_count s > 0 then TryCas c (m_count s) else after_try maxSpins c) s)"
| try_cas: "sem_at i (TryCas c old) s \<Longrightarrow> m_count s = old \<Longrightarrow>
    sem_step maxSpins s (sem_goto i SIdle (grant (taken c old) (s\<lparr>m_count := old - int (taken c old)\<rparr>)))"
| try_cas_fails: "sem_at i (TryCas c old) s \<Longrightarrow>
    sem_step maxSpins s (sem_goto i (if m_count s > 0 then TryCas c (m_count s) else after_try maxSpins c) s)"
| spin: "sem_at i (Spin c (Suc n)) s \<Longrightarrow>
    sem_step maxSpins s (sem_goto i (if m_count s > 0 then SpinCas c n (m_count s) else Spin c n) s)"
| spin_cas: "sem_at i (SpinCas c n old) s \<Longrightarrow> m_count s = old \<Longrightarrow>
    sem_step maxSpins s (sem_goto i SIdle (grant (taken c old) (s\<lparr>m_count := old - int (taken c old)\<rparr>)))"
| spin_cas_fails: "sem_at i (SpinCas c n old) s \<Longrightarrow> m_count s \<noteq> old \<Longrightarrow> sem_step maxSpins s (sem_goto i (Spin c n) s)"
| spin_end: "sem_at i (Spin c 0) s \<Longrightarrow> sem_step maxSpins s (sem_goto i (FetchSub c) s)"
| sub_token: "sem_at i (FetchSub c) s \<Longrightarrow> m_count s > 0 \<Longrightarrow>
    sem_step maxSpins s (sem_goto i (after_one c) (grant 1 (s\<lparr>m_count := m_count s - 1\<rparr>)))"
| sub_wait: "sem_at i (FetchSub c) s \<Longrightarrow> m_count s \<le> 0 \<Longrightarrow>
    sem_step maxSpins s (sem_goto i (after_sub c) (s\<lparr>m_count := m_count s - 1\<rparr>))"
| woken: "sem_at i (SysWait c) s \<Longrightarrow> m_sema s = Suc k \<Longrightarrow>
    sem_step maxSpins s (sem_goto i (after_one c) (grant 1 (s\<lparr>m_sema := k\<rparr>)))"
| give_up: "sem_at i (SysWait c) s \<Longrightarrow> sem_step maxSpins s (sem_goto i (AdjustLoad c) s)"
| adjust_load: "sem_at i (AdjustLoad c) s \<Longrightarrow> sem_step maxSpins s (sem_goto i (Adjust c (m_count s)) s)"
| adjust_token: "sem_at i (Adjust c old) s \<Longrightarrow> old \<ge> 0 \<Longrightarrow> m_sema s = Suc k \<Longrightarrow>
    sem_step maxSpins s (sem_goto i (after_one c) (grant 1 (s\<lparr>m_sema := k\<rparr>)))"
| adjust_again: "sem_at i (Adjust c old) s \<Longrightarrow> old \<ge> 0 \<Longrightarrow> m_sema s = 0 \<Longrightarrow> sem_step maxSpins s (sem_goto i (AdjustLoad c) s)"
| adjust_cas: "sem_at i (Adjust c old) s \<Longrightarrow> old < 0 \<Longrightarrow> m_count s = old \<Longrightarrow>
    sem_step maxSpins s (sem_goto i SIdle (s\<lparr>m_count := old + 1\<rparr>))"
| adjust_cas_fails: "sem_at i (Adjust c old) s \<Longrightarrow> old < 0 \<Longrightarrow> m_count s \<noteq> old \<Longrightarrow> sem_step maxSpins s (sem_goto i (AdjustLoad c) s)"
| signal_add: "sem_at i (FetchAdd n) s \<Longrightarrow> sem_step maxSpins s
    (sem_goto i (SysSignal (toRelease (m_count s) n)) (s\<lparr>m_count := m_count s + int n, signalled := signalled s + n\<rparr>))"
| signal_sys: "sem_at i (SysSignal (Suc r)) s \<Longrightarrow> sem_step maxSpins s (sem_goto i (SysSignal r) (s\<lparr>m_sema := Suc (m_sema s)\<rparr>))"
| signal_end: "sem_at i (SysSignal 0) s \<Longrightarrow> sem_step maxSpins s (sem_goto i SIdle s)"

text \<open>The constructor, with \<open>initialCount\<close> tokens.\<close>

definition start_sem :: "nat \<Rightarrow> sem_sys \<Rightarrow> bool" where
  "start_sem initialCount s \<longleftrightarrow> m_count s = int initialCount \<and> m_sema s = 0 \<and> (\<forall>pc \<in> set (sem_pcs s). pc = SIdle) \<and>
     granted s = 0 \<and> signalled s = initialCount"

definition availableApprox :: "sem_sys \<Rightarrow> nat" where
  "availableApprox s = (if m_count s > 0 then nat (m_count s) else 0)"

section \<open>The invariant\<close>

fun waiting :: "sem_pc \<Rightarrow> nat" where
  "waiting (SysWait c) = 1"
| "waiting (AdjustLoad c) = 1"
| "waiting (Adjust c old) = 1"
| "waiting _ = 0"

fun owed :: "sem_pc \<Rightarrow> nat" where
  "owed (SysSignal r) = r"
| "owed _ = 0"

fun sem_pc_ok :: "sem_pc \<Rightarrow> bool" where
  "sem_pc_ok (TryCas c old) = (old > 0)"
| "sem_pc_ok (SpinCas c n old) = (old > 0)"
| "sem_pc_ok _ = True"

definition waiters :: "sem_sys \<Rightarrow> nat" where
  "waiters s = sum_list (map waiting (sem_pcs s))"

definition owing :: "sem_sys \<Rightarrow> nat" where
  "owing s = sum_list (map owed (sem_pcs s))"

text \<open>Every token that was signalled and not granted is in the counter, which each waiter has lowered by one; and
  every waiter beyond a negative counter has a system signal that was made or is owed.\<close>

definition sem_inv :: "sem_sys \<Rightarrow> bool" where
  "sem_inv s \<longleftrightarrow> list_all sem_pc_ok (sem_pcs s) \<and> m_count s + int (waiters s) = int (signalled s) - int (granted s) \<and>
     int (waiters s) = int (m_sema s) + int (owing s) + max 0 (- m_count s)"

lemma sem_simps [simp]:
  "m_count (sem_goto i pc s) = m_count s" "m_sema (sem_goto i pc s) = m_sema s" "granted (sem_goto i pc s) = granted s"
  "signalled (sem_goto i pc s) = signalled s" "sem_pcs (sem_goto i pc s) = (sem_pcs s)[i := pc]"
  "m_count (grant n s) = m_count s" "m_sema (grant n s) = m_sema s" "granted (grant n s) = granted s + n"
  "signalled (grant n s) = signalled s" "sem_pcs (grant n s) = sem_pcs s"
  by (simp_all add: sem_goto_def grant_def)

lemma sem_at_ok: "sem_inv s \<Longrightarrow> sem_at i pc s \<Longrightarrow> sem_pc_ok pc"
  by (auto simp: sem_inv_def sem_at_def list_all_length)

lemma taken_le: "old > 0 \<Longrightarrow> int (taken c old) \<le> old"
  by (cases c) auto

text \<open>The counts change with the one thread that moves.\<close>

lemma sem_move:
  assumes "sem_at i pc s" "sem_pcs s' = (sem_pcs s)[i := pc']"
  shows "waiters s' + waiting pc = waiters s + waiting pc'" "owing s' + owed pc = owing s + owed pc'"
  using assms sum_list_at [of i "sem_pcs s" waiting pc'] sum_list_at [of i "sem_pcs s" owed pc']
  by (simp_all add: sem_at_def waiters_def owing_def)

lemma sem_inv_move:
  assumes "sem_inv s" "sem_at i pc s" "sem_pcs s' = (sem_pcs s)[i := pc']" "sem_pc_ok pc'"
    "m_count s' + int (waiting pc') + int (granted s') + int (signalled s) = m_count s + int (waiting pc) + int (granted s) + int (signalled s')"
    "int (waiting pc') + int (m_sema s) + int (owed pc) + max 0 (- m_count s) =
     int (waiting pc) + int (m_sema s') + int (owed pc') + max 0 (- m_count s')"
  shows "sem_inv s'"
proof -
  have "list_all sem_pc_ok ((sem_pcs s)[i := pc'])"
    using assms(1,4) set_update_subset_insert [of "sem_pcs s" i pc'] by (auto simp: sem_inv_def list_all_iff)
  then show ?thesis using assms sem_move [OF assms(2,3)] by (simp add: sem_inv_def)
qed

lemma after_simps [simp]:
  "waiting (after_try m c) = 0" "owed (after_try m c) = 0" "sem_pc_ok (after_try m c)"
  "waiting (after_one c) = 0" "owed (after_one c) = 0" "sem_pc_ok (after_one c)"
  "waiting (after_sub c) = 1" "owed (after_sub c) = 0" "sem_pc_ok (after_sub c)"
  by (cases c; simp add: after_sub_def)+

lemma sem_step_inv: "sem_step m s s' \<Longrightarrow> sem_inv s \<Longrightarrow> sem_inv s'"
proof (induction rule: sem_step.induct)
  case (try_cas i c old s)
  from sem_at_ok [OF try_cas(3,1)] taken_le [of old c] have "0 < old" "int (taken c old) \<le> old" by simp_all
  with try_cas show ?case by (intro sem_inv_move [OF try_cas(3,1), where pc' = SIdle]) simp_all
next
  case (spin_cas i c n old s)
  from sem_at_ok [OF spin_cas(3,1)] taken_le [of old c] have "0 < old" "int (taken c old) \<le> old" by simp_all
  with spin_cas show ?case by (intro sem_inv_move [OF spin_cas(3,1), where pc' = SIdle]) simp_all
next
  case (signal_add i n s)
  then show ?case
    by (intro sem_inv_move [OF signal_add(2,1), where pc' = "SysSignal (toRelease (m_count s) n)"]) (auto simp: toRelease_def)
qed (erule (1) sem_inv_move, simp; force)+


lemma idle_counts:
  assumes "\<forall>pc \<in> set (sem_pcs s). pc = SIdle"
  shows "waiters s = 0" "owing s = 0"
  using assms by (auto simp: waiters_def owing_def)

interpretation sem_run: invariant_run "start_sem initialCount" "sem_step maxSpins" sem_inv
proof
  show "sem_inv s" if "start_sem initialCount s" for s
    using that by (auto simp: start_sem_def sem_inv_def idle_counts list_all_iff)
qed (rule sem_step_inv)

section \<open>The abstract semaphore\<close>

text \<open>A counter of tokens, with the tokens that were acquired and released so far.\<close>

inductive counter_step :: "nat \<times> nat \<times> nat \<Rightarrow> nat \<times> nat \<times> nat \<Rightarrow> bool" where
  acquire: "k \<le> c \<Longrightarrow> counter_step (c, a, r) (c - k, a + k, r)"
| release: "counter_step (c, a, r) (c + k, a, r + k)"

text \<open>The tokens: those of the counter, and those on their way through the system semaphore to a waiter.\<close>

definition tokens :: "sem_sys \<Rightarrow> nat" where
  "tokens s = nat (m_count s) + m_sema s + owing s"

definition sem_abs :: "sem_sys \<Rightarrow> nat \<times> nat \<times> nat" where
  "sem_abs s = (tokens s, granted s, signalled s)"

lemma tokens_balance: "sem_inv s \<Longrightarrow> tokens s + granted s = signalled s"
  by (auto simp: sem_inv_def tokens_def)

lemma counter_stepI:
  assumes "tokens s + granted s = signalled s" "tokens s' + granted s' = signalled s'"
    and "granted s \<le> granted s' \<and> signalled s' = signalled s \<or> granted s' = granted s \<and> signalled s \<le> signalled s'"
  shows "counter_step (sem_abs s) (sem_abs s')"
  using assms(3)
proof
  assume g: "granted s \<le> granted s' \<and> signalled s' = signalled s"
  with assms(1,2) have k: "granted s' - granted s \<le> tokens s" and t: "tokens s - (granted s' - granted s) = tokens s'" by simp_all
  from counter_step.acquire [OF k, of "granted s" "signalled s"] show ?thesis using g by (simp only: sem_abs_def t) simp
next
  assume g: "granted s' = granted s \<and> signalled s \<le> signalled s'"
  with assms(1,2) have t: "tokens s + (signalled s' - signalled s) = tokens s'" by simp
  from counter_step.release [of "tokens s" "granted s" "signalled s" "signalled s' - signalled s"] show ?thesis
    using g by (simp only: sem_abs_def t) simp
qed

lemma sem_step_ghosts: "sem_step m s s' \<Longrightarrow> granted s \<le> granted s' \<and> signalled s' = signalled s \<or> granted s' = granted s \<and> signalled s \<le> signalled s'"
  by (induction rule: sem_step.induct) simp_all

section \<open>Wake-ups\<close>

lemma owing_thread: "owing s > 0 \<Longrightarrow> \<exists>j r. sem_at j (SysSignal (Suc r)) s"
proof -
  assume "owing s > 0"
  moreover have "sum_list (map owed xs) = 0 \<or> (\<exists>pc \<in> set xs. owed pc > 0)" for xs by (induction xs) auto
  ultimately obtain pc where "pc \<in> set (sem_pcs s)" "owed pc > 0" by (metis less_irrefl owing_def)
  moreover from this(2) obtain r where "pc = SysSignal (Suc r)" by (cases pc) (auto simp: gr0_conv_Suc)
  ultimately show ?thesis by (auto simp: in_set_conv_nth sem_at_def)
qed

lemma waiter_has_signal:
  assumes "sem_inv s" "sem_at i (SysWait c) s" "granted s < signalled s"
  shows "m_sema s > 0 \<or> (\<exists>j r. sem_at j (SysSignal (Suc r)) s)"
proof -
  have "waiters s > 0" using sum_list_at [of i "sem_pcs s" waiting SIdle] assms(2) by (simp add: waiters_def sem_at_def)
  with assms(1,3) have "m_sema s + owing s > 0" by (auto simp: sem_inv_def)
  then show ?thesis using owing_thread [of s] by auto
qed

lemma waiter_wakes:
  assumes "sem_at i (SysWait c) s" "m_sema s > 0 \<or> (\<exists>j r. sem_at j (SysSignal (Suc r)) s)"
  shows "\<exists>s'. (sem_step m)\<^sup>*\<^sup>* s s' \<and> sem_at i (after_one c) s' \<and> granted s' = Suc (granted s)"
proof -
  have now: "\<exists>s'. sem_step m s s' \<and> sem_at i (after_one c) s' \<and> granted s' = Suc (granted s)" if "sem_at i (SysWait c) s" "m_sema s > 0" for s
    using sem_step.woken [OF that(1), of "m_sema s - 1" m] that by (auto simp: sem_at_def)
  show ?thesis
  proof (cases "m_sema s > 0")
    case True
    then show ?thesis using now [OF assms(1)] by blast
  next
    case False
    with assms(2) obtain j r where j: "sem_at j (SysSignal (Suc r)) s" by blast
    let ?s = "sem_goto j (SysSignal r) (s\<lparr>m_sema := Suc (m_sema s)\<rparr>)"
    have "i \<noteq> j" using j assms(1) by (auto simp: sem_at_def)
    with assms(1) have "sem_at i (SysWait c) ?s" "m_sema ?s > 0" by (simp_all add: sem_at_def)
    from now [OF this] obtain s' where s': "sem_step m ?s s'" "sem_at i (after_one c) s'" "granted s' = Suc (granted s)" by auto
    have "sem_step m s ?s" using j by (rule sem_step.signal_sys)
    with s'(1) have "(sem_step m)\<^sup>*\<^sup>* s s'" by (meson converse_rtranclp_into_rtranclp r_into_rtranclp)
    with s' show ?thesis by blast
  qed
qed

section \<open>The steps of a thread\<close>

text \<open>The next step of a thread inside a call, where exchanges fail only when the counter has changed and a wait
  gives up at once when it has a timeout and there is no signal; without a timeout it blocks.\<close>

definition sem_thread_step :: "nat \<Rightarrow> nat \<Rightarrow> sem_sys \<Rightarrow> sem_sys" where
  "sem_thread_step maxSpins i s =
     (let found = (\<lambda>c. if m_count s > 0 then TryCas c (m_count s) else after_try maxSpins c);
          cas = (\<lambda>c old. sem_goto i SIdle (grant (taken c old) (s\<lparr>m_count := old - int (taken c old)\<rparr>)));
          one = (\<lambda>c s. sem_goto i (after_one c) (grant 1 s))
      in case sem_pcs s ! i of
        SIdle \<Rightarrow> s
      | TryLoad c \<Rightarrow> sem_goto i (found c) s
      | TryCas c old \<Rightarrow> if m_count s = old then cas c old else sem_goto i (found c) s
      | Spin c n \<Rightarrow> (case n of 0 \<Rightarrow> sem_goto i (FetchSub c) s
                             | Suc n' \<Rightarrow> sem_goto i (if m_count s > 0 then SpinCas c n' (m_count s) else Spin c n') s)
      | SpinCas c n old \<Rightarrow> if m_count s = old then cas c old else sem_goto i (Spin c n) s
      | FetchSub c \<Rightarrow> if m_count s > 0 then one c (s\<lparr>m_count := m_count s - 1\<rparr>)
                      else sem_goto i (after_sub c) (s\<lparr>m_count := m_count s - 1\<rparr>)
      | SysWait c \<Rightarrow> (case m_sema s of Suc k \<Rightarrow> one c (s\<lparr>m_sema := k\<rparr>)
                                     | 0 \<Rightarrow> if timeout_usecs c < 0 then s else sem_goto i (AdjustLoad c) s)
      | AdjustLoad c \<Rightarrow> sem_goto i (Adjust c (m_count s)) s
      | Adjust c old \<Rightarrow> if old \<ge> 0 then (case m_sema s of Suc k \<Rightarrow> one c (s\<lparr>m_sema := k\<rparr>) | 0 \<Rightarrow> sem_goto i (AdjustLoad c) s)
                        else if m_count s = old then sem_goto i SIdle (s\<lparr>m_count := old + 1\<rparr>) else sem_goto i (AdjustLoad c) s
      | FetchAdd n \<Rightarrow> sem_goto i (SysSignal (toRelease (m_count s) n)) (s\<lparr>m_count := m_count s + int n, signalled := signalled s + n\<rparr>)
      | SysSignal n \<Rightarrow> (case n of 0 \<Rightarrow> sem_goto i SIdle s | Suc r \<Rightarrow> sem_goto i (SysSignal r) (s\<lparr>m_sema := Suc (m_sema s)\<rparr>)))"

lemma sem_thread_step_steps:
  assumes "i < length (sem_pcs s)"
  shows "(sem_step m)\<^sup>*\<^sup>* s (sem_thread_step m i s)"
proof -
  have "sem_thread_step m i s = s \<or> sem_step m s (sem_thread_step m i s)"
  proof (cases "sem_pcs s ! i")
    case (TryLoad c)
    with assms sem_step.try_load [of i c s m] show ?thesis by (simp add: sem_thread_step_def sem_at_def)
  next
    case (TryCas c old)
    with assms sem_step.try_cas [of i c old s m] sem_step.try_cas_fails [of i c old s m] show ?thesis
      by (simp add: sem_thread_step_def sem_at_def)
  next
    case (Spin c n)
    with assms sem_step.spin [of i c _ s m] show ?thesis
      by (cases n) (auto simp: sem_thread_step_def sem_at_def intro: sem_step.spin_end)
  next
    case (Adjust c old)
    with assms show ?thesis
      by (cases "old < 0") (auto simp: sem_thread_step_def sem_at_def simp del: One_nat_def split: nat.splits intro: sem_step.adjust_token
        sem_step.adjust_again sem_step.adjust_cas sem_step.adjust_cas_fails)
  qed (use assms in \<open>auto simp: sem_thread_step_def sem_at_def Let_def simp del: One_nat_def split: nat.splits intro: sem_step.intros\<close>)
  then show ?thesis by auto
qed

fun sem_thread_run :: "nat \<Rightarrow> nat \<Rightarrow> nat \<Rightarrow> sem_sys \<Rightarrow> sem_sys" where
  "sem_thread_run maxSpins 0 i s = s"
| "sem_thread_run maxSpins (Suc n) i s = sem_thread_run maxSpins n i (if i < length (sem_pcs s) then sem_thread_step maxSpins i s else s)"

definition call_wait :: "nat \<Rightarrow> nat \<Rightarrow> sem_call \<Rightarrow> nat \<Rightarrow> sem_sys \<Rightarrow> sem_sys" where
  "call_wait maxSpins i c n s = sem_thread_run maxSpins n i (if sem_at i SIdle s then sem_goto i (TryLoad c) s else s)"

definition call_signal :: "nat \<Rightarrow> nat \<Rightarrow> nat \<Rightarrow> nat \<Rightarrow> sem_sys \<Rightarrow> sem_sys" where
  "call_signal maxSpins i k n s = sem_thread_run maxSpins n i (if sem_at i SIdle s then sem_goto i (FetchAdd k) s else s)"

lemma sem_thread_run_steps: "(sem_step m)\<^sup>*\<^sup>* s (sem_thread_run m n i s)"
proof (induction n arbitrary: s)
  case (Suc n)
  have "(sem_step m)\<^sup>*\<^sup>* s (if i < length (sem_pcs s) then sem_thread_step m i s else s)" using sem_thread_step_steps by simp
  from rtranclp_trans [OF this Suc.IH] show ?case by simp
qed simp

lemma sem_call_steps: "(sem_step m)\<^sup>*\<^sup>* s (call_wait m i c n s)" "(sem_step m)\<^sup>*\<^sup>* s (call_signal m i k n s)"
proof -
  have "(sem_step m)\<^sup>*\<^sup>* s (if sem_at i SIdle s then sem_goto i (TryLoad c) s else s)"
    "(sem_step m)\<^sup>*\<^sup>* s (if sem_at i SIdle s then sem_goto i (FetchAdd k) s else s)"
    using sem_step.call [of i s m c] sem_step.call_signal [of i s m k] by auto
  from this [THEN rtranclp_trans, OF sem_thread_run_steps]
  show "(sem_step m)\<^sup>*\<^sup>* s (call_wait m i c n s)" "(sem_step m)\<^sup>*\<^sup>* s (call_signal m i k n s)" by (simp_all add: call_wait_def call_signal_def)
qed

section \<open>What the queues rely on\<close>

text \<open>C20: whatever the interleaving of waits and signals, the atomic counter with the system semaphore behind it is
  a counter of tokens: every step of a thread acquires tokens that there are, releases tokens, or changes
  nothing of the abstract state, and the tokens are always those that were signalled and not yet granted.\<close>

theorem semaphore_refines_counter:
  assumes "start_sem initialCount s0" "(sem_step maxSpins)\<^sup>*\<^sup>* s0 s" "sem_step maxSpins s s'"
  shows "counter_step (sem_abs s) (sem_abs s') \<and> tokens s + granted s = signalled s"
proof -
  have "sem_inv s" using sem_run.reachable_inv assms(1,2) by blast
  with sem_step_inv [OF assms(3)] show ?thesis
    using counter_stepI tokens_balance sem_step_ghosts [OF assms(3)] by blast
qed

text \<open>C21: no wake-up is lost: whenever a thread is blocked in the system semaphore while fewer tokens were
  granted than signalled, a system signal is there for it or a signalling thread is about to make one, and the
  blocked thread can return with a token within these steps.\<close>

theorem no_lost_wakeup:
  assumes "start_sem initialCount s0" "(sem_step maxSpins)\<^sup>*\<^sup>* s0 s" "sem_at i (SysWait c) s" "granted s < signalled s"
  shows "(m_sema s > 0 \<or> (\<exists>j r. sem_at j (SysSignal (Suc r)) s)) \<and>
    (\<exists>s'. (sem_step maxSpins)\<^sup>*\<^sup>* s s' \<and> sem_at i (after_one c) s' \<and> granted s' = Suc (granted s))"
proof -
  have "sem_inv s" using sem_run.reachable_inv assms(1,2) by blast
  with waiter_has_signal [OF _ assms(3,4)] waiter_wakes [OF assms(3)] show ?thesis by blast
qed

text \<open>Three threads: the first two wait, one of them with a timeout, and block; the third signals, and has not yet
  called \<open>sem_post\<close>.\<close>

definition three_threads :: sem_sys where
  "three_threads = \<lparr>m_count = 0, m_sema = 0, sem_pcs = [SIdle, SIdle, SIdle], granted = 0, signalled = 0\<rparr>"

definition two_blocked :: sem_sys where
  "two_blocked = call_signal 1 2 1 1 (call_wait 1 1 (WaitMany 3 5) 4 (call_wait 1 0 (Wait (- 1)) 4 three_threads))"

lemma two_blocked_reachable: "start_sem 0 three_threads" "(sem_step 1)\<^sup>*\<^sup>* three_threads two_blocked"
proof -
  show "start_sem 0 three_threads" by (simp add: start_sem_def three_threads_def)
  show "(sem_step 1)\<^sup>*\<^sup>* three_threads two_blocked"
    unfolding two_blocked_def by (meson sem_call_steps rtranclp_trans)
qed

lemma two_blocked_state:
  "sem_pcs two_blocked = [SysWait (Wait (- 1)), SysWait (WaitMany 3 5), SysSignal 1]" "m_count two_blocked = - 1" "granted two_blocked = 0" "signalled two_blocked = 1"
  by code_simp+

theorem semaphore_refines_counter_witness:
  "counter_step (sem_abs two_blocked) (sem_abs (sem_goto 1 (AdjustLoad (WaitMany 3 5)) two_blocked)) \<and>
    tokens two_blocked + granted two_blocked = signalled two_blocked"
  by (rule semaphore_refines_counter [OF two_blocked_reachable sem_step.give_up]) (simp add: sem_at_def two_blocked_state)

theorem no_lost_wakeup_witness:
  "(m_sema two_blocked > 0 \<or> (\<exists>j r. sem_at j (SysSignal (Suc r)) two_blocked)) \<and>
    (\<exists>s'. (sem_step 1)\<^sup>*\<^sup>* two_blocked s' \<and> sem_at 0 (after_one (Wait (- 1))) s' \<and> granted s' = Suc (granted two_blocked))"
  by (rule no_lost_wakeup [OF two_blocked_reachable]) (simp_all add: sem_at_def two_blocked_state)

end
