(* ===== verification/Producer_Hash.thy ===== *)
theory Producer_Hash
  imports Prelude
begin

text \<open>
  How the lock-free queue of \<open>concurrentqueue.h\<close> finds the sub-queue of the calling thread (\<open>ImplicitProducerHash\<close>,
  \<open>get_or_add_implicit_producer\<close>) and the one to dequeue from (\<open>try_dequeue\<close>).  The hash is a chain of tables, the current one first; an older table is
  searched, and what is found there is copied to the current one.  The address of a thread-local variable, which is not null, identifies a thread.
  Each call runs as one step, so that the lock for the resizing is always free.  The entry of a thread is never removed: that is the configuration in which the header is compiled.
\<close>

unbundle bit_operations_syntax

section \<open>Tables\<close>

type_synonym kvp = "uint64 \<times> nat"      \<comment> \<open>\<open>ImplicitProducerKVP\<close>: thread id and producer\<close>

definition invalid_thread_id :: uint64 where "invalid_thread_id = 0"

text \<open>\<open>hash_32_or_64\<close> for 64 bits: the finalizer of MurmurHash3.\<close>

definition hash_thread_id :: "uint64 \<Rightarrow> nat" where
  "hash_thread_id h0 =
     (let h1 = h0 XOR drop_bit 33 h0;
          h2 = h1 * 0xff51afd7ed558ccd;
          h3 = h2 XOR drop_bit 33 h2;
          h4 = h3 * 0xc4ceb9fe1a85ec53
      in unat (h4 XOR drop_bit 33 h4))"

record sub_producer =
  isExplicit :: bool
  inactive :: bool

record producer_hash =
  implicitProducerHash :: "kvp list list"   \<comment> \<open>the table in use and, through \<open>prev\<close>, the older ones; the capacity of a table is its length\<close>
  implicitProducerHashCount :: nat
  producerList :: "sub_producer list"           \<comment> \<open>the oldest first; a producer is known by its place\<close>

text \<open>The search along a table; the number bounds its turns, and the inner option is the place.\<close>

primrec probe :: "nat \<Rightarrow> uint64 \<Rightarrow> nat \<Rightarrow> kvp list \<Rightarrow> nat option option" where
  "probe 0 tid index t = None"
| "probe (Suc n) tid index t =
     (let i = index AND (length t - 1)
      in if fst (t ! i) = tid then Some (Some i)
         else if fst (t ! i) = invalid_thread_id then Some None
         else probe n tid (Suc i) t)"

text \<open>The search for a free entry, which is filled.\<close>

primrec put_entry :: "nat \<Rightarrow> uint64 \<Rightarrow> nat \<Rightarrow> nat \<Rightarrow> kvp list \<Rightarrow> kvp list option" where
  "put_entry 0 tid v index t = None"
| "put_entry (Suc n) tid v index t =
     (let i = index AND (length t - 1)
      in if fst (t ! i) = invalid_thread_id then Some (t[i := (tid, v)])
         else put_entry n tid v (Suc i) t)"

definition put_table :: "uint64 \<Rightarrow> nat \<Rightarrow> kvp list \<Rightarrow> kvp list option" where
  "put_table tid v t = put_entry (length t) tid v (hash_thread_id tid) t"

text \<open>The loop over the tables: the producer, and whether the table was the current one.\<close>

fun search_tables :: "uint64 \<Rightarrow> bool \<Rightarrow> kvp list list \<Rightarrow> (nat \<times> bool) option option" where
  "search_tables tid main [] = Some None"
| "search_tables tid main (t # ts) =
     (case probe (length t) tid (hash_thread_id tid) t of
        None \<Rightarrow> None
      | Some (Some i) \<Rightarrow> Some (Some (snd (t ! i), main))
      | Some None \<Rightarrow> search_tables tid False ts)"

function grown_capacity :: "nat \<Rightarrow> nat \<Rightarrow> nat" where
  "grown_capacity newCount newCapacity =
     (if newCount \<ge> newCapacity div 2 \<and> newCapacity > 0 then grown_capacity newCount (2 * newCapacity) else newCapacity)"
  by pat_completeness auto
termination by (relation "measure (\<lambda>(n, c). 2 * n + 2 - c)") auto

declare grown_capacity.simps [simp del]

section \<open>Producers\<close>

definition recycle_or_create_producer :: "bool \<Rightarrow> bool \<Rightarrow> sub_producer list \<Rightarrow> (nat \<times> bool) option \<times> sub_producer list" where
  "recycle_or_create_producer explicit memory ps =
     (case find (\<lambda>p. inactive (ps ! p) \<and> isExplicit (ps ! p) = explicit) (rev [0 ..< length ps]) of
        Some p \<Rightarrow> (Some (p, True), ps[p := (ps ! p)\<lparr>inactive := False\<rparr>])
      | None \<Rightarrow>
          if memory then (Some (length ps, False), ps @ [\<lparr>isExplicit = explicit, inactive = False\<rparr>]) else (None, ps))"

text \<open>The second half of \<open>get_or_add_implicit_producer\<close>.  \<open>hashMemory\<close> and \<open>memory\<close> say whether a table and a producer can be allocated.\<close>

definition add_implicit_producer :: "bool \<Rightarrow> bool \<Rightarrow> uint64 \<Rightarrow> producer_hash \<Rightarrow> (nat option \<times> producer_hash) option" where
  "add_implicit_producer hashMemory memory tid st =
     (let newCount = 1 + implicitProducerHashCount st;
          mainHash = hd (implicitProducerHash st);
          full = (newCount \<ge> length mainHash div 2);
          newCapacity = grown_capacity newCount (2 * length mainHash);
          tables = (if full then replicate newCapacity (invalid_thread_id, 0) # implicitProducerHash st else implicitProducerHash st)
      in if full \<and> \<not> hashMemory then Some (None, st)
         else if newCount < length (hd tables) div 2 + length (hd tables) div 4 then
           case recycle_or_create_producer False memory (producerList st) of
             (None, ps) \<Rightarrow> Some (None, st\<lparr>implicitProducerHash := tables, producerList := ps\<rparr>)
           | (Some (p, recycled), ps) \<Rightarrow>
               map_option (\<lambda>t. (Some p, st\<lparr>implicitProducerHash := t # tl tables,
                                      implicitProducerHashCount := (if recycled then newCount - 1 else newCount), producerList := ps\<rparr>))
                 (put_table tid p (hd tables))
         else None)"

definition get_or_add_implicit_producer :: "bool \<Rightarrow> bool \<Rightarrow> uint64 \<Rightarrow> producer_hash \<Rightarrow> (nat option \<times> producer_hash) option" where
  "get_or_add_implicit_producer hashMemory memory tid st =
     (case search_tables tid True (implicitProducerHash st) of
        None \<Rightarrow> None
      | Some (Some (p, True)) \<Rightarrow> Some (Some p, st)
      | Some (Some (p, False)) \<Rightarrow>
          map_option (\<lambda>t. (Some p, st\<lparr>implicitProducerHash := t # tl (implicitProducerHash st)\<rparr>))
            (put_table tid p (hd (implicitProducerHash st)))
      | Some None \<Rightarrow> add_implicit_producer hashMemory memory tid st)"

definition INITIAL_IMPLICIT_PRODUCER_HASH_SIZE :: nat where "INITIAL_IMPLICIT_PRODUCER_HASH_SIZE = 32"

definition populate_initial_implicit_producer_hash :: "sub_producer list \<Rightarrow> producer_hash" where
  "populate_initial_implicit_producer_hash ps =
     \<lparr>implicitProducerHash = [replicate INITIAL_IMPLICIT_PRODUCER_HASH_SIZE (invalid_thread_id, 0)], implicitProducerHashCount = 0, producerList = ps\<rparr>"

section \<open>Probing\<close>

definition table_size :: "kvp list \<Rightarrow> bool" where
  "table_size t \<longleftrightarrow> (\<exists>k. length t = 2 ^ k)"

lemma and_capacity: "table_size t \<Longrightarrow> x AND (length t - Suc 0) = x mod length t"
  using take_bit_eq_mask [of _ x] by (auto simp: table_size_def mask_nat_def simp flip: take_bit_eq_mod)

lemma table_size_pos: "table_size t \<Longrightarrow> 0 < length t"
  by (auto simp: table_size_def)

text \<open>The key at the place that the search comes to after \<open>i\<close> turns.\<close>

definition key_at :: "kvp list \<Rightarrow> nat \<Rightarrow> uint64" where
  "key_at t x = fst (t ! (x mod length t))"

lemma probe_Suc:
  "table_size t \<Longrightarrow> probe (Suc n) tid x t =
     (if key_at t x = tid then Some (Some (x mod length t)) else if key_at t x = 0 then Some None else probe n tid (Suc x mod length t) t)"
proof -
  assume t: "table_size t"
  have "probe n tid (Suc (x mod length t)) t = probe n tid (Suc x mod length t) t"
    using and_capacity [OF t] by (cases n) (simp_all add: mod_Suc_eq)
  then show ?thesis by (simp add: Let_def and_capacity [OF t] key_at_def invalid_thread_id_def)
qed

lemma key_at_mod [simp]: "key_at t (x mod length t) = key_at t x" "key_at t (x mod length t + i) = key_at t (x + i)"
  by (simp_all add: key_at_def mod_add_left_eq)

lemma probe_spec:
  assumes "table_size t" "i < n" "\<forall>j < i. key_at t (x + j) \<noteq> tid \<and> key_at t (x + j) \<noteq> 0" "key_at t (x + i) = tid \<or> key_at t (x + i) = 0"
  shows "probe n tid x t = Some (if key_at t (x + i) = tid then Some ((x + i) mod length t) else None)"
  using assms(2-4)
proof (induction n arbitrary: x i)
  case (Suc n)
  show ?case
  proof (cases i)
    case 0
    with Suc.prems show ?thesis unfolding probe_Suc [OF assms(1)] by auto
  next
    case (Suc k)
    have "key_at t x \<noteq> tid" "key_at t x \<noteq> 0" using Suc.prems(2) Suc by (auto dest: spec [of _ 0])
    moreover have "probe n tid (Suc x mod length t) t =
        Some (if key_at t (Suc x mod length t + k) = tid then Some ((Suc x mod length t + k) mod length t) else None)"
    proof (rule Suc.IH)
      show "\<forall>j<k. key_at t (Suc x mod length t + j) \<noteq> tid \<and> key_at t (Suc x mod length t + j) \<noteq> 0"
        using Suc.prems(2) Suc by (auto dest: spec [of _ "Suc _"])
    qed (use Suc.prems Suc in simp_all)
    ultimately show ?thesis unfolding probe_Suc [OF assms(1)] using Suc by (simp add: mod_add_left_eq)
  qed
qed simp

lemma put_Suc:
  "table_size t \<Longrightarrow> put_entry (Suc n) tid v x t =
     (if key_at t x = 0 then Some (t[x mod length t := (tid, v)]) else put_entry n tid v (Suc x mod length t) t)"
proof -
  assume t: "table_size t"
  have "put_entry n tid v (Suc (x mod length t)) t = put_entry n tid v (Suc x mod length t) t"
    using and_capacity [OF t] by (cases n) (simp_all add: mod_Suc_eq)
  then show ?thesis by (simp add: Let_def and_capacity [OF t] key_at_def invalid_thread_id_def)
qed

lemma put_spec:
  assumes "table_size t" "i < n" "\<forall>j < i. key_at t (x + j) \<noteq> 0" "key_at t (x + i) = 0"
  shows "put_entry n tid v x t = Some (t[(x + i) mod length t := (tid, v)])"
  using assms(2-4)
proof (induction n arbitrary: x i)
  case (Suc n)
  show ?case
  proof (cases i)
    case 0
    with Suc.prems show ?thesis unfolding put_Suc [OF assms(1)] by simp
  next
    case (Suc k)
    have "key_at t x \<noteq> 0" using Suc.prems(2) Suc by (auto dest: spec [of _ 0])
    moreover have "put_entry n tid v (Suc x mod length t) t = Some (t[(Suc x mod length t + k) mod length t := (tid, v)])"
    proof (rule Suc.IH)
      show "\<forall>j<k. key_at t (Suc x mod length t + j) \<noteq> 0" using Suc.prems(2) Suc by (auto dest: spec [of _ "Suc _"])
    qed (use Suc.prems Suc in simp_all)
    ultimately show ?thesis unfolding put_Suc [OF assms(1)] using Suc by (simp add: mod_add_left_eq)
  qed
qed simp

section \<open>Tables in order\<close>

text \<open>Every key is where the search for it comes to, and there is a free entry.\<close>

definition found_after :: "kvp list \<Rightarrow> nat \<Rightarrow> nat \<Rightarrow> bool" where
  "found_after t p i \<longleftrightarrow> i < length t \<and> p = (hash_thread_id (fst (t ! p)) + i) mod length t \<and>
     (\<forall>j < i. key_at t (hash_thread_id (fst (t ! p)) + j) \<noteq> fst (t ! p) \<and> key_at t (hash_thread_id (fst (t ! p)) + j) \<noteq> 0)"

definition table_ok :: "kvp list \<Rightarrow> bool" where
  "table_ok t \<longleftrightarrow> table_size t \<and> (\<forall>p < length t. fst (t ! p) \<noteq> 0 \<longrightarrow> (\<exists>i. found_after t p i)) \<and> 0 \<in> fst ` set t"

definition keys :: "kvp list \<Rightarrow> uint64 set" where
  "keys t = fst ` set t - {0}"

text \<open>What a table says of a thread.\<close>

definition table_map :: "kvp list \<Rightarrow> uint64 \<rightharpoonup> nat" where
  "table_map t tid = (case probe (length t) tid (hash_thread_id tid) t of Some (Some i) \<Rightarrow> Some (snd (t ! i)) | _ \<Rightarrow> None)"

lemma probe_key:
  assumes "table_ok t" "p < length t" "fst (t ! p) = tid" "tid \<noteq> 0"
  shows "probe (length t) tid (hash_thread_id tid) t = Some (Some p)"
proof -
  from assms obtain i where i: "found_after t p i" unfolding table_ok_def by blast
  have t: "table_size t" using assms(1) by (simp add: table_ok_def)
  have k: "key_at t (hash_thread_id tid + i) = tid" using i assms(3) unfolding found_after_def key_at_def by metis
  from probe_spec [OF t, of i "length t" "hash_thread_id tid" tid] i k assms(3) show ?thesis unfolding found_after_def by simp
qed

lemma reach_zero:
  assumes "table_size t" "0 \<in> fst ` set t"
  obtains i where "i < length t" "key_at t (x + i) = 0" "\<forall>j < i. key_at t (x + j) \<noteq> 0"
proof -
  from assms(2) obtain p where p: "p < length t" "fst (t ! p) = 0" by (auto simp: in_set_conv_nth)
  let ?n = "length t" and ?i = "(p + length t - x mod length t) mod length t"
  have n: "0 < ?n" by (rule table_size_pos [OF assms(1)])
  have "(x + ?i) mod ?n = (x mod ?n + (p + ?n - x mod ?n)) mod ?n" by (simp add: mod_add_left_eq mod_add_right_eq)
  also have "x mod ?n + (p + ?n - x mod ?n) = p + ?n" using mod_less_divisor [OF n, of x] by linarith
  also have "(p + ?n) mod ?n = p" using p(1) by simp
  finally have "key_at t (x + ?i) = 0" using p(2) by (simp add: key_at_def)
  then have ex: "\<exists>i. key_at t (x + i) = 0" by blast
  define l where "l = (LEAST i. key_at t (x + i) = 0)"
  have "l \<le> ?i" unfolding l_def by (rule Least_le) fact
  then have "l < ?n" using n by (meson mod_less_divisor order_le_less_trans)
  moreover have "key_at t (x + l) = 0" unfolding l_def using ex by (rule LeastI_ex)
  moreover have "\<forall>j < l. key_at t (x + j) \<noteq> 0" unfolding l_def using not_less_Least by blast
  ultimately show thesis using that by blast
qed

lemma key_at_keys: "table_size t \<Longrightarrow> key_at t x \<noteq> 0 \<Longrightarrow> key_at t x \<in> keys t"
  using table_size_pos [of t] by (auto simp: key_at_def keys_def)

lemma probe_missing:
  assumes "table_ok t" "tid \<notin> keys t" "tid \<noteq> 0"
  shows "probe (length t) tid (hash_thread_id tid) t = Some None"
proof -
  have t: "table_size t" using assms(1) by (simp add: table_ok_def)
  obtain i where i: "i < length t" "key_at t (hash_thread_id tid + i) = 0" "\<forall>j < i. key_at t (hash_thread_id tid + j) \<noteq> 0"
    using reach_zero [OF t] assms(1) unfolding table_ok_def by metis
  have "\<forall>j < i. key_at t (hash_thread_id tid + j) \<noteq> tid \<and> key_at t (hash_thread_id tid + j) \<noteq> 0"
    using i(3) key_at_keys [OF t] assms(2) by metis
  from probe_spec [OF t i(1) this] i(2) assms(3) show ?thesis by simp
qed

lemma table_map_Some:
  assumes "table_ok t" "tid \<noteq> 0"
  shows "table_map t tid = Some v \<longleftrightarrow> (tid, v) \<in> set t"
proof
  assume "table_map t tid = Some v"
  then have "probe (length t) tid (hash_thread_id tid) t \<noteq> Some None" by (auto simp: table_map_def)
  then have "tid \<in> keys t" using probe_missing [OF assms(1) _ assms(2)] by blast
  then obtain p where p: "p < length t" "fst (t ! p) = tid" by (auto simp: keys_def in_set_conv_nth)
  with \<open>table_map t tid = Some v\<close> have "snd (t ! p) = v" using probe_key [OF assms(1) p assms(2)] by (simp add: table_map_def)
  with p show "(tid, v) \<in> set t" by (metis nth_mem prod.collapse)
next
  assume "(tid, v) \<in> set t"
  then obtain p where p: "p < length t" "t ! p = (tid, v)" by (auto simp: in_set_conv_nth)
  then show "table_map t tid = Some v" using probe_key [OF assms(1) p(1) _ assms(2)] by (simp add: table_map_def)
qed

lemma table_map_dom: "table_ok t \<Longrightarrow> tid \<noteq> 0 \<Longrightarrow> tid \<in> keys t \<longleftrightarrow> table_map t tid \<noteq> None"
proof -
  assume a: "table_ok t" "tid \<noteq> 0"
  have "tid \<in> keys t \<longleftrightarrow> (\<exists>v. (tid, v) \<in> set t)" using a(2) by (force simp: keys_def)
  then show ?thesis unfolding table_map_Some [OF a, symmetric] by blast
qed

lemma distinct_places:
  assumes "table_ok t" "p < length t" "q < length t" "fst (t ! p) = fst (t ! q)" "fst (t ! p) \<noteq> 0" shows "p = q"
  using probe_key [OF assms(1,2) refl assms(5)] probe_key [OF assms(1,3) assms(4) [symmetric] assms(5)] by simp

text \<open>Filling a free entry.\<close>

lemma put_table_ok:
  assumes "table_ok t" "tid \<notin> keys t" "tid \<noteq> 0" "Suc (card (keys t)) < length t"
  obtains t' where "put_table tid v t = Some t'" "table_ok t'" "length t' = length t" "keys t' = insert tid (keys t)" "(tid, v) \<in> set t'"
    "\<forall>x w. x \<noteq> 0 \<longrightarrow> x \<noteq> tid \<longrightarrow> ((x, w) \<in> set t' \<longleftrightarrow> (x, w) \<in> set t)"
proof -
  have t: "table_size t" "0 < length t" using assms(1) table_size_pos by (auto simp: table_ok_def)
  obtain i where i: "i < length t" "key_at t (hash_thread_id tid + i) = 0" "\<forall>j < i. key_at t (hash_thread_id tid + j) \<noteq> 0"
    using reach_zero [OF t(1)] assms(1) unfolding table_ok_def by metis
  let ?q = "(hash_thread_id tid + i) mod length t" and ?t = "t[(hash_thread_id tid + i) mod length t := (tid, v)]"
  have q: "?q < length t" "fst (t ! ?q) = 0" using t(2) i(2) by (simp_all add: key_at_def)
  have key: "key_at ?t x = (if x mod length t = ?q then tid else key_at t x)" for x using q(1) by (simp add: key_at_def)
  have put: "put_table tid v t = Some ?t" unfolding put_table_def by (rule put_spec [OF t(1) i(1,3,2)])
  have sets: "(x, w) \<in> set ?t \<longleftrightarrow> (x, w) \<in> set t" if "x \<noteq> 0" "x \<noteq> tid" for x w
    using that q by (auto simp: in_set_conv_nth nth_list_update) (metis fst_conv)+
  have tidin: "(tid, v) \<in> set ?t" using q(1) by (metis length_list_update nth_list_update_eq nth_mem)
  have keys: "keys ?t = insert tid (keys t)"
  proof (rule set_eqI)
    fix x show "x \<in> keys ?t \<longleftrightarrow> x \<in> insert tid (keys t)"
      using sets [of x] tidin assms(3) by (cases "x = tid"; cases "x = 0") (force simp: keys_def image_iff)+
  qed
  have "0 \<in> fst ` set ?t"
  proof (rule ccontr)
    assume z: "0 \<notin> fst ` set ?t"
    have "distinct (map fst ?t)"
    proof (unfold distinct_conv_nth length_map, intro allI impI)
      fix a b assume ab: "a < length ?t" "b < length ?t" "a \<noteq> b"
      have nz: "fst (?t ! c) \<noteq> 0" if "c < length ?t" for c using z that by (metis image_eqI nth_mem)
      have "fst (?t ! a) \<noteq> fst (?t ! b)"
        using ab nz [OF ab(1)] nz [OF ab(2)] distinct_places [OF assms(1), of a b] assms(2,3)
        by (cases "a = ?q"; cases "b = ?q") (auto simp: keys_def)
      then show "map fst ?t ! a \<noteq> map fst ?t ! b" using ab by simp
    qed
    then have "length ?t = card (fst ` set ?t)" by (metis distinct_card length_map set_map)
    also have "fst ` set ?t = insert tid (keys t)" using keys z unfolding keys_def by auto
    also have "card (insert tid (keys t)) = Suc (card (keys t))" using assms(2) by (simp add: keys_def)
    finally show False using assms(4) by simp
  qed
  moreover have "\<exists>j. found_after ?t p j" if p: "p < length ?t" "fst (?t ! p) \<noteq> 0" for p
  proof (cases "p = ?q")
    case True
    have "\<forall>j < i. key_at ?t (hash_thread_id tid + j) \<noteq> tid \<and> key_at ?t (hash_thread_id tid + j) \<noteq> 0"
    proof (intro allI impI)
      fix j assume j: "j < i"
      have nz: "key_at t (hash_thread_id tid + j) \<noteq> 0" using i(3) j by blast
      then have "(hash_thread_id tid + j) mod length t \<noteq> ?q" using i(2) by (metis key_at_def)
      then show "key_at ?t (hash_thread_id tid + j) \<noteq> tid \<and> key_at ?t (hash_thread_id tid + j) \<noteq> 0"
        using nz key_at_keys [OF t(1) nz] assms(2) key by auto
    qed
    then show ?thesis using True i(1) q(1) unfolding found_after_def by (intro exI [of _ i]) simp
  next
    case False
    then have "fst (?t ! p) = fst (t ! p)" by simp
    moreover obtain j where j: "found_after t p j" using assms(1) p False unfolding table_ok_def by auto
    moreover have "key_at ?t (hash_thread_id (fst (t ! p)) + l) = key_at t (hash_thread_id (fst (t ! p)) + l)" if "l < j" for l
    proof -
      have "key_at t (hash_thread_id (fst (t ! p)) + l) \<noteq> 0" using j that unfolding found_after_def by blast
      then have "(hash_thread_id (fst (t ! p)) + l) mod length t \<noteq> ?q" using i(2) by (metis key_at_def)
      then show ?thesis using key by simp
    qed
    ultimately show ?thesis unfolding found_after_def by (intro exI [of _ j]) simp
  qed
  ultimately have "table_ok ?t" using t(1) by (simp add: table_ok_def table_size_def)
  then show thesis using that [OF put _ _ keys tidin] sets by simp
qed

section \<open>The chain of tables\<close>

primrec owner_in :: "kvp list list \<Rightarrow> uint64 \<rightharpoonup> nat" where
  "owner_in [] tid = None"
| "owner_in (t # ts) tid = (case table_map t tid of Some v \<Rightarrow> Some v | None \<Rightarrow> owner_in ts tid)"

text \<open>The producer of a thread.\<close>

definition owner :: "producer_hash \<Rightarrow> uint64 \<rightharpoonup> nat" where
  "owner st tid = (if tid = 0 then None else owner_in (implicitProducerHash st) tid)"

definition hash_ok :: "producer_hash \<Rightarrow> bool" where
  "hash_ok st \<longleftrightarrow> implicitProducerHash st \<noteq> [] \<and> (\<forall>t \<in> set (implicitProducerHash st). table_ok t) \<and>
     finite (dom (owner st)) \<and> implicitProducerHashCount st = card (dom (owner st)) \<and>
     implicitProducerHashCount st < length (hd (implicitProducerHash st)) div 2 \<and>
     (\<forall>t \<in> set (implicitProducerHash st). \<forall>x v. x \<noteq> 0 \<longrightarrow> (x, v) \<in> set t \<longrightarrow> owner st x = Some v) \<and>
     inj_on (owner st) (dom (owner st)) \<and> (\<forall>v \<in> ran (owner st). v < length (producerList st)) \<and>
     (\<forall>p \<in> set (producerList st). inactive p \<longrightarrow> isExplicit p)"

lemma search_tables_spec:
  assumes "\<forall>t \<in> set ts. table_ok t" "tid \<noteq> 0"
  shows "search_tables tid m ts =
    Some (case owner_in ts tid of None \<Rightarrow> None | Some v \<Rightarrow> Some (v, m \<and> tid \<in> keys (hd ts)))"
  using assms(1)
proof (induction ts arbitrary: m)
  case (Cons t ts)
  then have t: "table_ok t" and IH: "\<And>m. search_tables tid m ts = Some (case owner_in ts tid of None \<Rightarrow> None | Some v \<Rightarrow> Some (v, m \<and> tid \<in> keys (hd ts)))"
    by simp_all
  show ?case
  proof (cases "tid \<in> keys t")
    case True
    then obtain p where p: "p < length t" "fst (t ! p) = tid" by (auto simp: keys_def in_set_conv_nth)
    with True show ?thesis using probe_key [OF t p assms(2)] by (simp add: table_map_def)
  next
    case False
    with probe_missing [OF t False assms(2)] IH [of False] show ?thesis by (simp add: table_map_def split: option.split)
  qed
qed simp

lemma grown_capacity_ok: "0 < c \<Longrightarrow> n < grown_capacity n c div 2 \<and> (\<exists>j. grown_capacity n c = c * 2 ^ j)"
proof (induction n c rule: grown_capacity.induct)
  case (1 n c)
  show ?case
  proof (cases "c div 2 \<le> n")
    case True
    with 1 obtain j where "n < grown_capacity n (2 * c) div 2" "grown_capacity n (2 * c) = 2 * c * 2 ^ j" by auto
    then show ?thesis using True 1(2) unfolding grown_capacity.simps [of n c] by (auto intro: exI [of _ "Suc j"])
  next
    case False
    then show ?thesis unfolding grown_capacity.simps [of n c] by (auto intro: exI [of _ 0])
  qed
qed

lemma empty_table_ok: "table_ok (replicate (2 ^ k) (0, v))" "keys (replicate n (0, v)) = {}"
  by (auto simp: table_ok_def table_size_def keys_def set_replicate_conv_if)

lemma hash_okD:
  assumes "hash_ok st"
  obtains t ts where "implicitProducerHash st = t # ts" "table_ok t" "\<forall>t \<in> set ts. table_ok t" "finite (dom (owner st))"
    "implicitProducerHashCount st = card (dom (owner st))" "card (dom (owner st)) < length t div 2" "keys t \<subseteq> dom (owner st)"
proof -
  from assms obtain t ts where t: "implicitProducerHash st = t # ts" unfolding hash_ok_def by (cases "implicitProducerHash st") auto
  have "keys t \<subseteq> dom (owner st)"
  proof
    fix x assume "x \<in> keys t"
    then obtain v where v: "(x, v) \<in> set t" "x \<noteq> 0" by (auto simp: keys_def)
    have "owner st x = Some v" using assms v t unfolding hash_ok_def by auto
    then show "x \<in> dom (owner st)" by blast
  qed
  with that [OF t] assms t show thesis unfolding hash_ok_def by auto
qed

text \<open>The owners after a change of the current table.\<close>

lemma owner_in_put:
  assumes "table_ok t" "table_ok t'" "(tid, v) \<in> set t'" "tid \<noteq> 0" "\<forall>x w. x \<noteq> 0 \<longrightarrow> x \<noteq> tid \<longrightarrow> ((x, w) \<in> set t' \<longleftrightarrow> (x, w) \<in> set t)"
  shows "x \<noteq> 0 \<Longrightarrow> owner_in (t' # ts) x = ((owner_in (t # ts))(tid \<mapsto> v)) x"
proof -
  assume x: "x \<noteq> 0"
  show ?thesis
  proof (cases "x = tid")
    case True
    then show ?thesis using table_map_Some [OF assms(2,4), of v] assms(3) by simp
  next
    case False
    have "table_map t' x = Some w \<longleftrightarrow> table_map t x = Some w" for w
      using table_map_Some [OF assms(2) x] table_map_Some [OF assms(1) x] assms(5) x False by blast
    then have "table_map t' x = table_map t x" by (metis not_Some_eq)
    with False show ?thesis by simp
  qed
qed

text \<open>A new table in front, and a new producer.\<close>

lemma owner_grown: "owner (st\<lparr>implicitProducerHash := replicate (2 ^ k) (0, v) # implicitProducerHash st\<rparr>) = owner st"
proof (rule ext)
  fix x show "owner (st\<lparr>implicitProducerHash := replicate (2 ^ k) (0, v) # implicitProducerHash st\<rparr>) x = owner st x"
    using table_map_dom [OF empty_table_ok(1) [of k v], of x] empty_table_ok(2) [of "2 ^ k" v] by (simp add: owner_def)
qed

lemma hash_ok_grown:
  assumes "hash_ok st" "implicitProducerHashCount st < 2 ^ k div 2"
  shows "hash_ok (st\<lparr>implicitProducerHash := replicate (2 ^ k) (0, v) # implicitProducerHash st\<rparr>)"
  using assms empty_table_ok(1) [of k v] unfolding hash_ok_def owner_grown by (auto simp: set_replicate_conv_if)

lemma hash_ok_put_known:
  assumes "hash_ok st" "owner st tid = Some p" "tid \<notin> keys (hd (implicitProducerHash st))"
  obtains t' where "put_table tid p (hd (implicitProducerHash st)) = Some t'"
    "hash_ok (st\<lparr>implicitProducerHash := t' # tl (implicitProducerHash st)\<rparr>)" "owner (st\<lparr>implicitProducerHash := t' # tl (implicitProducerHash st)\<rparr>) = owner st"
proof -
  from hash_okD [OF assms(1)] obtain t ts where t: "implicitProducerHash st = t # ts" "table_ok t" "\<forall>t \<in> set ts. table_ok t" "finite (dom (owner st))"
    "implicitProducerHashCount st = card (dom (owner st))" "card (dom (owner st)) < length t div 2" "keys t \<subseteq> dom (owner st)" by metis
  have tid: "tid \<noteq> 0" using assms(2) by (auto simp: owner_def split: if_splits)
  have "card (insert tid (keys t)) \<le> card (dom (owner st))" using t(4,7) assms(2) by (intro card_mono) auto
  then have "Suc (card (keys t)) < length t" using t(1,6) assms(3) by (simp add: keys_def)
  moreover have "tid \<notin> keys t" using assms(3) t(1) by simp
  ultimately obtain t' where
    t': "put_table tid p t = Some t'" "table_ok t'" "length t' = length t" "(tid, p) \<in> set t'"
    "\<forall>x w. x \<noteq> 0 \<longrightarrow> x \<noteq> tid \<longrightarrow> ((x, w) \<in> set t' \<longleftrightarrow> (x, w) \<in> set t)" using put_table_ok [OF t(2) _ tid, of p] by metis
  let ?st = "st\<lparr>implicitProducerHash := t' # ts\<rparr>"
  have own: "owner ?st = owner st"
  proof (rule ext)
    fix x show "owner ?st x = owner st x"
      using owner_in_put [OF t(2) t'(2,4) tid t'(5), of x ts] assms(2) t(1) by (cases "x = 0") (auto simp: owner_def)
  qed
  have "owner st x = Some w" if "x \<noteq> 0" "(x, w) \<in> set t'" for x w
  proof (cases "x = tid")
    case True
    have "table_map t' tid = Some w" "table_map t' tid = Some p"
      using table_map_Some [OF t'(2) tid] that True t'(4) by simp_all
    then show ?thesis using True assms(2) by simp
  next
    case False
    then show ?thesis using that t'(5) assms(1) t(1) unfolding hash_ok_def by auto
  qed
  then have "hash_ok ?st" using assms(1) t(1) t'(2,3) unfolding hash_ok_def own by auto
  then show thesis using that [of t'] t(1) t'(1) own by simp
qed

lemma hash_ok_put_new:
  assumes "hash_ok st" "owner st tid = None" "tid \<noteq> 0" "Suc (implicitProducerHashCount st) < length (hd (implicitProducerHash st)) div 2"
    "p = length (producerList st)" "\<not> isExplicit x" "\<not> inactive x"
  obtains t' where "put_table tid p (hd (implicitProducerHash st)) = Some t'"
    "hash_ok (st\<lparr>implicitProducerHash := t' # tl (implicitProducerHash st), implicitProducerHashCount := Suc (implicitProducerHashCount st), producerList := producerList st @ [x]\<rparr>)"
    "owner (st\<lparr>implicitProducerHash := t' # tl (implicitProducerHash st), implicitProducerHashCount := Suc (implicitProducerHashCount st), producerList := producerList st @ [x]\<rparr>) =
      (owner st)(tid \<mapsto> p)"
proof -
  from hash_okD [OF assms(1)] obtain t ts where t: "implicitProducerHash st = t # ts" "table_ok t" "\<forall>t \<in> set ts. table_ok t" "finite (dom (owner st))"
    "implicitProducerHashCount st = card (dom (owner st))" "card (dom (owner st)) < length t div 2" "keys t \<subseteq> dom (owner st)" by metis
  have k: "tid \<notin> keys t" using t(7) assms(2) by auto
  have "card (keys t) \<le> card (dom (owner st))" using t(4,7) by (intro card_mono)
  then have "Suc (card (keys t)) < length t" using t(1,5) assms(4) by simp
  then obtain t' where
    t': "put_table tid p t = Some t'" "table_ok t'" "length t' = length t" "(tid, p) \<in> set t'"
    "\<forall>x w. x \<noteq> 0 \<longrightarrow> x \<noteq> tid \<longrightarrow> ((x, w) \<in> set t' \<longleftrightarrow> (x, w) \<in> set t)" using put_table_ok [OF t(2) k assms(3), of p] by metis
  let ?st = "st\<lparr>implicitProducerHash := t' # ts, implicitProducerHashCount := Suc (implicitProducerHashCount st), producerList := producerList st @ [x]\<rparr>"
  have own: "owner ?st = (owner st)(tid \<mapsto> p)"
  proof (rule ext)
    fix y show "owner ?st y = ((owner st)(tid \<mapsto> p)) y"
      using owner_in_put [OF t(2) t'(2,4) assms(3) t'(5), of y ts] assms(3) t(1) by (cases "y = 0") (auto simp: owner_def)
  qed
  have lt: "\<forall>v \<in> ran (owner st). v < p" using assms(1,5) unfolding hash_ok_def by blast
  have old: "\<And>u y w. u \<in> set (t # ts) \<Longrightarrow> y \<noteq> 0 \<Longrightarrow> (y, w) \<in> set u \<Longrightarrow> owner st y = Some w"
    using assms(1) unfolding hash_ok_def t(1) by auto
  have "((owner st)(tid \<mapsto> p)) y = Some w" if "u \<in> set (t' # ts)" "y \<noteq> 0" "(y, w) \<in> set u" for u y w
  proof (cases "y = tid")
    case True
    show ?thesis
    proof (cases "u = t'")
      case u: True
      have "table_map t' tid = Some w" "table_map t' tid = Some p" using table_map_Some [OF t'(2) assms(3)] that True u t'(4) by simp_all
      then show ?thesis using True by simp
    next
      case False
      with old [of u y w] that True assms(2) show ?thesis by simp
    qed
  next
    case False
    then show ?thesis using that old [of u y w] old [of t y w] t'(5) by auto
  qed
  moreover have "inj_on ((owner st)(tid \<mapsto> p)) (dom ((owner st)(tid \<mapsto> p)))"
  proof (rule inj_onI)
    fix y z assume yz: "y \<in> dom ((owner st)(tid \<mapsto> p))" "z \<in> dom ((owner st)(tid \<mapsto> p))" "((owner st)(tid \<mapsto> p)) y = ((owner st)(tid \<mapsto> p)) z"
    have np: "owner st y \<noteq> Some p" for y using lt by (auto simp: ran_def)
    have "y = tid \<longleftrightarrow> z = tid" using yz(3) np by (auto simp: fun_upd_def split: if_splits)
    moreover have "inj_on (owner st) (dom (owner st))" using assms(1) unfolding hash_ok_def by blast
    ultimately show "y = z" using yz by (cases "y = tid") (simp_all add: inj_on_def)
  qed
  moreover have "card (dom ((owner st)(tid \<mapsto> p))) = Suc (implicitProducerHashCount st)" using t(4,5) assms(2) by (simp add: card_insert_if domIff)
  moreover have "\<forall>v \<in> ran ((owner st)(tid \<mapsto> p)). v < length (producerList st @ [x])"
    using lt assms(2,5) by (auto simp: ran_def less_Suc_eq split: if_splits)
  ultimately have "hash_ok ?st"
    using assms(1,4,6,7) t(1,3,4) t'(2,3) unfolding hash_ok_def own by auto
  then show thesis using that [of t'] t(1) t'(1) own by simp
qed

lemma no_recycling: "hash_ok st \<Longrightarrow> find (\<lambda>p. inactive (producerList st ! p) \<and> isExplicit (producerList st ! p) = False) (rev [0 ..< length (producerList st)]) = None"
  by (auto simp: find_None_iff hash_ok_def)

lemma recycle_or_create_new:
  assumes "hash_ok st"
  shows "recycle_or_create_producer False memory (producerList st) =
    (if memory then (Some (length (producerList st), False), producerList st @ [\<lparr>isExplicit = False, inactive = False\<rparr>]) else (None, producerList st))"
  using no_recycling [OF assms] by (simp add: recycle_or_create_producer_def)

lemma add_implicit_producer_spec:
  assumes "hash_ok st" "owner st tid = None" "tid \<noteq> 0"
  obtains r st' where "add_implicit_producer hashMemory memory tid st = Some (r, st')" "hash_ok st'"
    "case r of None \<Rightarrow> (\<not> hashMemory \<or> \<not> memory) \<and> owner st' = owner st | Some p \<Rightarrow> p \<notin> ran (owner st) \<and> owner st' = (owner st)(tid \<mapsto> p)"
proof -
  from hash_okD [OF assms(1)] obtain t ts where t: "implicitProducerHash st = t # ts" "table_ok t"
    "implicitProducerHashCount st = card (dom (owner st))" "card (dom (owner st)) < length t div 2" by metis
  let ?new = "1 + implicitProducerHashCount st"
  define full where "full = (?new \<ge> length t div 2)"
  define c where "c = grown_capacity ?new (2 * length t)"
  define tables where "tables = (if full then replicate c (invalid_thread_id, 0) # implicitProducerHash st else implicitProducerHash st)"
  let ?x = "\<lparr>isExplicit = False, inactive = False\<rparr>" and ?p = "length (producerList st)"
  show thesis
  proof (cases "full \<and> \<not> hashMemory")
    case True
    then have "add_implicit_producer hashMemory memory tid st = Some (None, st)"
      using t(1) unfolding full_def by (simp add: add_implicit_producer_def Let_def)
    then show thesis using that [of None st] assms(1) True by simp
  next
    case False
    define st1 where "st1 = st\<lparr>implicitProducerHash := tables\<rparr>"
    have st1: "hash_ok st1" "owner st1 = owner st" "?new < length (hd tables) div 2" "tables \<noteq> []"
    proof -
      from t(2) obtain k where k: "length t = 2 ^ k" unfolding table_ok_def table_size_def by blast
      then obtain j where j: "?new < c div 2" "c = 2 ^ (Suc k + j)"
        using grown_capacity_ok [of "2 * length t" ?new] unfolding c_def by (auto simp: power_add)
      have e: "tables = (if full then replicate (2 ^ (Suc k + j)) (0, 0) # implicitProducerHash st else implicitProducerHash st)"
        by (simp add: tables_def j(2) invalid_thread_id_def)
      have "implicitProducerHashCount st < 2 ^ (Suc k + j) div 2" using j by simp
      note g = hash_ok_grown [OF assms(1) this, of 0] owner_grown [where st = st and k = "Suc k + j" and v = 0]
      show "hash_ok st1" "owner st1 = owner st" using g assms(1) unfolding st1_def e by (cases full; simp)+
      show "?new < length (hd tables) div 2" using j t(1) unfolding tables_def full_def by auto
      show "tables \<noteq> []" using t(1) by (simp add: tables_def)
    qed
    have add: "add_implicit_producer hashMemory memory tid st =
      (case recycle_or_create_producer False memory (producerList st) of
             (None, ps) \<Rightarrow> Some (None, st\<lparr>implicitProducerHash := tables, producerList := ps\<rparr>)
           | (Some (p, recycled), ps) \<Rightarrow>
               map_option (\<lambda>t. (Some p, st\<lparr>implicitProducerHash := t # tl tables,
                                      implicitProducerHashCount := (if recycled then ?new - 1 else ?new), producerList := ps\<rparr>))
                 (put_table tid p (hd tables)))"
      using False st1(3) unfolding add_implicit_producer_def Let_def c_def tables_def full_def t(1) list.sel by auto
    show thesis
    proof (cases memory)
      case mem: False
      have "add_implicit_producer hashMemory memory tid st = Some (None, st1)"
        unfolding add recycle_or_create_new [OF assms(1)] using mem by (simp add: st1_def)
      then show thesis using that [of None st1] st1 mem by simp
    next
      case mem: True
      obtain t' where t': "put_table tid ?p (hd tables) = Some t'"
        "hash_ok (st1\<lparr>implicitProducerHash := t' # tl tables, implicitProducerHashCount := ?new, producerList := producerList st @ [?x]\<rparr>)"
        "owner (st1\<lparr>implicitProducerHash := t' # tl tables, implicitProducerHashCount := ?new, producerList := producerList st @ [?x]\<rparr>) = (owner st)(tid \<mapsto> ?p)"
        using hash_ok_put_new [OF st1(1), of tid ?p ?x] assms(2,3) st1 unfolding st1_def by auto
      moreover have "?p \<notin> ran (owner st)" using assms(1) unfolding hash_ok_def by auto
      moreover have "add_implicit_producer hashMemory memory tid st =
          Some (Some ?p, st1\<lparr>implicitProducerHash := t' # tl tables, implicitProducerHashCount := ?new, producerList := producerList st @ [?x]\<rparr>)"
        using add recycle_or_create_new [OF assms(1), of memory] mem t'(1) by (simp add: st1_def)
      ultimately show thesis using that by simp
    qed
  qed
qed

lemma get_or_add_spec:
  assumes "hash_ok st" "tid \<noteq> invalid_thread_id"
  shows "\<exists>r st'. get_or_add_implicit_producer hashMemory memory tid st = Some (r, st') \<and> hash_ok st' \<and>
    (case owner st tid of
       Some p \<Rightarrow> r = Some p \<and> owner st' = owner st
     | None \<Rightarrow> (case r of None \<Rightarrow> (\<not> hashMemory \<or> \<not> memory) \<and> owner st' = owner st
                | Some p \<Rightarrow> p \<notin> ran (owner st) \<and> owner st' = (owner st)(tid \<mapsto> p))) \<and>
    (\<forall>x y v. owner st' x = Some v \<longrightarrow> owner st' y = Some v \<longrightarrow> x = y)"
proof -
  have tid: "tid \<noteq> 0" using assms(2) by (simp add: invalid_thread_id_def)
  have ok: "\<forall>t \<in> set (implicitProducerHash st). table_ok t" using assms(1) by (simp add: hash_ok_def)
  have own: "owner_in (implicitProducerHash st) tid = owner st tid" using tid by (simp add: owner_def)
  note s = search_tables_spec [OF ok tid, of True, unfolded own]
  have inj: "\<forall>x y v. owner s x = Some v \<longrightarrow> owner s y = Some v \<longrightarrow> x = y" if "hash_ok s" for s
    using that unfolding hash_ok_def by (metis domI inj_onD)
  show ?thesis
  proof (cases "owner st tid")
    case None
    from add_implicit_producer_spec [OF assms(1) None tid, where hashMemory = hashMemory and memory = memory] obtain r st' where
      "add_implicit_producer hashMemory memory tid st = Some (r, st')" "hash_ok st'"
      "case r of None \<Rightarrow> (\<not> hashMemory \<or> \<not> memory) \<and> owner st' = owner st | Some p \<Rightarrow> p \<notin> ran (owner st) \<and> owner st' = (owner st)(tid \<mapsto> p)" .
    moreover from this have "get_or_add_implicit_producer hashMemory memory tid st = Some (r, st')"
      using s None by (simp add: get_or_add_implicit_producer_def)
    ultimately show ?thesis using None inj by (intro exI [of _ r] exI [of _ st']) simp
  next
    case (Some p)
    show ?thesis
    proof (cases "tid \<in> keys (hd (implicitProducerHash st))")
      case True
      then have "get_or_add_implicit_producer hashMemory memory tid st = Some (Some p, st)"
        using s Some by (simp add: get_or_add_implicit_producer_def)
      then show ?thesis using Some inj assms(1) by (intro exI [of _ "Some p"] exI [of _ st]) simp
    next
      case False
      from hash_ok_put_known [OF assms(1) Some False] obtain t' where t': "put_table tid p (hd (implicitProducerHash st)) = Some t'"
        "hash_ok (st\<lparr>implicitProducerHash := t' # tl (implicitProducerHash st)\<rparr>)" "owner (st\<lparr>implicitProducerHash := t' # tl (implicitProducerHash st)\<rparr>) = owner st" .
      moreover from t'(1) have "get_or_add_implicit_producer hashMemory memory tid st =
          Some (Some p, st\<lparr>implicitProducerHash := t' # tl (implicitProducerHash st)\<rparr>)"
        using s Some False by (simp add: get_or_add_implicit_producer_def)
      ultimately show ?thesis using Some inj
        by (intro exI [of _ "Some p"] exI [of _ "st\<lparr>implicitProducerHash := t' # tl (implicitProducerHash st)\<rparr>"]) simp
    qed
  qed
qed

lemma initial_hash_ok:
  assumes "\<forall>p \<in> set ps. inactive p \<longrightarrow> isExplicit p"
  shows "hash_ok (populate_initial_implicit_producer_hash ps)" "owner (populate_initial_implicit_producer_hash ps) = Map.empty"
proof -
  let ?st = "populate_initial_implicit_producer_hash ps"
  have t: "implicitProducerHash ?st = [replicate (2 ^ 5) (0, 0)]" "implicitProducerHashCount ?st = 0" "producerList ?st = ps"
    by (simp_all add: populate_initial_implicit_producer_hash_def INITIAL_IMPLICIT_PRODUCER_HASH_SIZE_def invalid_thread_id_def)
  show own: "owner ?st = Map.empty"
  proof (rule ext)
    fix x show "owner ?st x = None"
      unfolding owner_def t(1) using table_map_dom [OF empty_table_ok(1) [of 5 0], of x] empty_table_ok(2) [of "2 ^ 5" 0] by simp
  qed
  show "hash_ok ?st" using empty_table_ok(1) [of 5 0] assms unfolding hash_ok_def own t by (auto simp: set_replicate_conv_if)
qed

section \<open>Runs\<close>

text \<open>The calls of the threads one after the other, from a queue without producers.\<close>

inductive hash_step :: "producer_hash \<Rightarrow> producer_hash \<Rightarrow> bool" where
  call: "tid \<noteq> invalid_thread_id \<Longrightarrow> get_or_add_implicit_producer hashMemory memory tid st = Some (r, st') \<Longrightarrow> hash_step st st'"

definition start_hash :: "producer_hash \<Rightarrow> bool" where
  "start_hash st \<longleftrightarrow> st = populate_initial_implicit_producer_hash []"

interpretation hash_run: invariant_run start_hash hash_step hash_ok
proof
  show "hash_ok st" if "start_hash st" for st using that initial_hash_ok(1) [of "[]"] by (simp add: start_hash_def)
  show "hash_ok st'" if "hash_step st st'" "hash_ok st" for st st'
    using that
  proof cases
    case (call tid hashMemory memory r)
    with get_or_add_spec [OF that(2) call(1), of hashMemory memory] show ?thesis by auto
  qed
qed

text \<open>C28: every thread has a sub-queue of its own, in every state that calls for any threads can reach: a call for a thread always returns; it returns the sub-queue that the thread has, if it has one, and a
  sub-queue that no thread has otherwise (or none when there is no memory); it changes no other assignment, whether the tables are grown, an old entry is copied or a
  new one is made, and two threads never have the same sub-queue.\<close>

theorem thread_has_its_own_producer:
  assumes "start_hash st0" "hash_step\<^sup>*\<^sup>* st0 st" "tid \<noteq> invalid_thread_id"
  shows "\<exists>r st'. get_or_add_implicit_producer hashMemory memory tid st = Some (r, st') \<and>
    (case owner st tid of
       Some p \<Rightarrow> r = Some p \<and> owner st' = owner st
     | None \<Rightarrow> (case r of None \<Rightarrow> (\<not> hashMemory \<or> \<not> memory) \<and> owner st' = owner st
                | Some p \<Rightarrow> p \<notin> ran (owner st) \<and> owner st' = (owner st)(tid \<mapsto> p))) \<and>
    (\<forall>x y v. owner st' x = Some v \<longrightarrow> owner st' y = Some v \<longrightarrow> x = y)"
  using get_or_add_spec [OF hash_run.reachable_inv [OF assms(2,1)] assms(3), of hashMemory memory] by blast

theorem thread_has_its_own_producer_witness:
  "\<exists>p q st1 st2. get_or_add_implicit_producer True True 0x7f00 (populate_initial_implicit_producer_hash []) = Some (Some p, st1) \<and>
     get_or_add_implicit_producer True True 0x8f00 st1 = Some (Some q, st2) \<and> owner st2 = [0x7f00 \<mapsto> p, 0x8f00 \<mapsto> q] \<and> p \<noteq> q"
proof -
  let ?st = "populate_initial_implicit_producer_hash []"
  have start: "start_hash ?st" by (simp add: start_hash_def)
  have id: "0x7f00 \<noteq> invalid_thread_id" "0x8f00 \<noteq> invalid_thread_id" by (simp_all add: invalid_thread_id_def)
  from thread_has_its_own_producer [OF start rtranclp.rtrancl_refl id(1), of True True] initial_hash_ok(2) [of "[]"] obtain p st1 where
    one: "get_or_add_implicit_producer True True 0x7f00 ?st = Some (Some p, st1)" "owner st1 = [0x7f00 \<mapsto> p]"
    by (auto split: option.splits)
  have "hash_step\<^sup>*\<^sup>* ?st st1" using hash_step.call [OF id(1) one(1)] by (rule r_into_rtranclp)
  from thread_has_its_own_producer [OF start this id(2), of True True] one(2) obtain q st2 where
    two: "get_or_add_implicit_producer True True 0x8f00 st1 = Some (Some q, st2)" "owner st2 = [0x7f00 \<mapsto> p, 0x8f00 \<mapsto> q]" "q \<noteq> p"
    by (auto split: option.splits)
  with one show ?thesis by blast
qed

section \<open>Choosing a sub-queue to dequeue from\<close>

text \<open>\<open>try_dequeue\<close>: up to three sub-queues that look non-empty are compared, the longest is tried first and the others after it.  \<open>sizes\<close> are the lengths that
  the first loop sees, \<open>qs\<close> the sub-queues when the elements are taken; both are in the order of the list of producers.\<close>

fun best_producer :: "nat \<Rightarrow> nat option \<Rightarrow> nat \<Rightarrow> nat \<Rightarrow> nat list \<Rightarrow> nat option" where
  "best_producer nonEmptyCount best bestSize p [] = best"
| "best_producer nonEmptyCount best bestSize p (sz # sizes) =
     (if \<not> nonEmptyCount < 3 then best
      else if sz > 0 then best_producer (Suc nonEmptyCount) (if sz > bestSize then Some p else best) (if sz > bestSize then sz else bestSize) (Suc p) sizes
      else best_producer nonEmptyCount best bestSize (Suc p) sizes)"

definition take_head :: "nat \<Rightarrow> 'a list list \<Rightarrow> ('a \<times> 'a list list) option" where
  "take_head p qs = (case qs ! p of [] \<Rightarrow> None | x # xs \<Rightarrow> Some (x, qs[p := xs]))"

fun first_head :: "nat list \<Rightarrow> 'a list list \<Rightarrow> ('a \<times> 'a list list) option" where
  "first_head [] qs = None"
| "first_head (p # ps) qs = (case take_head p qs of Some r \<Rightarrow> Some r | None \<Rightarrow> first_head ps qs)"

definition try_dequeue_from :: "nat list \<Rightarrow> 'a list list \<Rightarrow> ('a \<times> 'a list list) option" where
  "try_dequeue_from sizes qs =
     (case best_producer 0 None 0 0 sizes of
        None \<Rightarrow> None
      | Some best \<Rightarrow>
          (case take_head best qs of
             Some r \<Rightarrow> Some r
           | None \<Rightarrow> first_head (filter (\<lambda>p. p \<noteq> best) [0 ..< length qs]) qs))"

lemma best_producer_Some: "\<exists>c. best_producer n (Some b) bs p sizes = Some c \<and> (c = b \<or> p \<le> c \<and> c < p + length sizes)"
proof (induction sizes arbitrary: n b bs p)
  case (Cons s sizes)
  have "\<exists>c. best_producer m (Some d) e (Suc p) sizes = Some c \<and> (c = d \<or> p \<le> c \<and> c < Suc (p + length sizes))" for m d e
    using Cons.IH [of m d e "Suc p"] by force
  from this [of n b bs] this [of "Suc n" b bs] this [of "Suc n" p s] show ?case by auto
qed simp

lemma best_producer_None: "best_producer 0 None 0 p sizes = None \<longleftrightarrow> (\<forall>s \<in> set sizes. s = 0)"
proof (induction sizes arbitrary: p)
  case (Cons s sizes)
  show ?case
  proof (cases "s = 0")
    case False
    then show ?thesis using best_producer_Some [of 1 p s "Suc p" sizes] by auto
  qed (use Cons in simp)
qed simp

lemma best_producer_in: "best_producer 0 None 0 p sizes = Some b \<Longrightarrow> p \<le> b \<and> b < p + length sizes"
proof (induction sizes arbitrary: p)
  case (Cons s sizes)
  show ?case
  proof (cases "s = 0")
    case True
    then show ?thesis using Cons.IH [of "Suc p"] Cons.prems by simp
  next
    case False
    then show ?thesis using best_producer_Some [of 1 p s "Suc p" sizes] Cons.prems by auto
  qed
qed simp

lemma take_head_Some: "take_head p qs = Some (x, qs') \<longleftrightarrow> (\<exists>xs. qs ! p = x # xs \<and> qs' = qs[p := xs])"
  by (auto simp: take_head_def split: list.split)

lemma take_head_None: "take_head p qs = None \<longleftrightarrow> qs ! p = []"
  by (auto simp: take_head_def split: list.split)

lemma first_head_spec:
  "first_head ps qs = None \<longleftrightarrow> (\<forall>p \<in> set ps. qs ! p = [])"
  "first_head ps qs = Some (x, qs') \<Longrightarrow> \<exists>p \<in> set ps. take_head p qs = Some (x, qs')"
  by (induction ps) (auto simp: take_head_def split: option.splits list.splits)

text \<open>The lock-free queue as one queue per producer: a dequeue takes the head of one sub-queue and leaves the others as they are; it fails exactly when all
  sub-queues looked empty to the first loop, or are empty when their heads are asked for.\<close>

lemma try_dequeue_from_spec:
  assumes "length sizes = length qs"
  shows "try_dequeue_from sizes qs = None \<longleftrightarrow> (\<forall>s \<in> set sizes. s = 0) \<or> (\<forall>q \<in> set qs. q = [])"
    "try_dequeue_from sizes qs = Some (x, qs') \<Longrightarrow> \<exists>p < length qs. \<exists>xs. qs ! p = x # xs \<and> qs' = qs[p := xs]"
proof -
  have b: "b < length qs" if "best_producer 0 None 0 0 sizes = Some b" for b using best_producer_in [OF that] assms by simp
  have e: "(\<forall>q \<in> set qs. q = []) \<longleftrightarrow> (\<forall>p < length qs. qs ! p = [])" by (auto simp: all_set_conv_all_nth)
  show "try_dequeue_from sizes qs = None \<longleftrightarrow> (\<forall>s \<in> set sizes. s = 0) \<or> (\<forall>q \<in> set qs. q = [])"
  proof (cases "best_producer 0 None 0 0 sizes")
    case None
    then show ?thesis using best_producer_None [of 0 sizes] by (simp add: try_dequeue_from_def)
  next
    case (Some c)
    then have "\<not> (\<forall>s \<in> set sizes. s = 0)" using best_producer_None [of 0 sizes] by auto
    then show ?thesis using Some b [OF Some] unfolding e
      by (cases "qs ! c") (auto simp: try_dequeue_from_def take_head_def first_head_spec(1))
  qed
  assume "try_dequeue_from sizes qs = Some (x, qs')"
  then obtain p where "p < length qs" "take_head p qs = Some (x, qs')"
    using b by (auto simp: try_dequeue_from_def split: option.splits dest!: first_head_spec(2))
  then show "\<exists>p < length qs. \<exists>xs. qs ! p = x # xs \<and> qs' = qs[p := xs]" unfolding take_head_Some by blast
qed

end
