(* ===== verification/Blocking_Queue.thy ===== *)
theory Blocking_Queue
  imports Producer_Hash
begin

text \<open>
  \<open>BlockingConcurrentQueue\<close> of \<open>blockingconcurrentqueue.h\<close>, the queue in front of the storage worker: the
  lock-free queue of \<open>concurrentqueue.h\<close> and a semaphore that counts its elements.  A step is one operation of
  one thread on the inner queue or on the semaphore.  The inner queue is what its documentation promises: a
  queue per producer, each first in, first out, from which a dequeue takes the head of any that is not empty;
  it may also report "empty" too early, which repeats the loop and is no step.  An enqueue may fail for lack
  of memory.  The semaphore is the counter of theory \<open>Semaphore\<close>.  What is behind the inner queue is the subject of the theories \<open>Producer_Hash\<close>,
  \<open>Sub_Queue\<close>, \<open>Block_Index\<close> and \<open>Free_List\<close>.
\<close>

section \<open>Threads\<close>

text \<open>The single operations are the bulk operations with one element.  \<open>BWait max got forever\<close> is a dequeue that
  may take \<open>max\<close> tokens and has \<open>got\<close> of them; \<open>forever\<close> tells \<open>wait_dequeue\<close>, which repeats a failed wait, from
  \<open>try_dequeue\<close> and \<open>wait_dequeue_timed\<close>.\<close>

datatype 'a bpc =
    BIdle
  | BEnqueue "'a list"        \<comment> \<open>about to call \<open>inner.enqueue\<close> or \<open>inner.enqueue_bulk\<close>\<close>
  | BSignal nat               \<comment> \<open>about to signal this many tokens\<close>
  | BWait nat nat bool
  | BTake nat                 \<comment> \<open>in the loop on \<open>inner.try_dequeue\<close> with this many elements to take\<close>

record 'a bsys =
  inner :: "'a list list"     \<comment> \<open>by producer: thread \<open>p\<close> produces into \<open>inner ! p\<close>\<close>
  bsema :: nat
  bpcs :: "'a bpc list"
  enqueued :: "'a list list"  \<comment> \<open>ghost: by producer, in the order of its calls\<close>
  dequeued :: "'a list list"  \<comment> \<open>ghost: by producer, in the order of the dequeues\<close>

definition b_at :: "nat \<Rightarrow> 'a bpc \<Rightarrow> 'a bsys \<Rightarrow> bool" where
  "b_at i pc s \<longleftrightarrow> i < length (bpcs s) \<and> bpcs s ! i = pc"

definition b_goto :: "nat \<Rightarrow> 'a bpc \<Rightarrow> 'a bsys \<Rightarrow> 'a bsys" where
  "b_goto i pc s = s\<lparr>bpcs := (bpcs s)[i := pc]\<rparr>"

definition inner_enqueue :: "nat \<Rightarrow> 'a list \<Rightarrow> 'a bsys \<Rightarrow> 'a bsys" where
  "inner_enqueue p xs s = s\<lparr>inner := (inner s)[p := inner s ! p @ xs], enqueued := (enqueued s)[p := enqueued s ! p @ xs]\<rparr>"

definition inner_dequeue :: "nat \<Rightarrow> 'a bsys \<Rightarrow> 'a bsys" where
  "inner_dequeue p s =
     (if p < length (inner s) then
        (case inner s ! p of
           [] \<Rightarrow> s
         | x # xs \<Rightarrow> s\<lparr>inner := (inner s)[p := xs], dequeued := (dequeued s)[p := dequeued s ! p @ [x]]\<rparr>)
      else s)"

text \<open>A dequeue of the lock-free queue is such a step: it takes the head of a sub-queue, and it fails only when every sub-queue looked empty or is empty.\<close>

lemma try_dequeue_is_inner_dequeue:
  assumes "length sizes = length (inner s)"
  shows "try_dequeue_from sizes (inner s) = Some (x, qs) \<Longrightarrow> \<exists>p < length (inner s). inner s ! p \<noteq> [] \<and> inner (inner_dequeue p s) = qs"
    "try_dequeue_from sizes (inner s) = None \<Longrightarrow> sizes = map length (inner s) \<Longrightarrow> \<forall>p < length (inner s). inner s ! p = []"
  using try_dequeue_from_spec [OF assms] by (fastforce simp: inner_dequeue_def, force)

inductive bstep :: "'a bsys \<Rightarrow> 'a bsys \<Rightarrow> bool" where
  enqueue_bulk: "b_at i BIdle s \<Longrightarrow> bstep s (b_goto i (BEnqueue xs) s)"
| enqueue_inner: "b_at i (BEnqueue xs) s \<Longrightarrow> bstep s (b_goto i (BSignal (length xs)) (inner_enqueue i xs s))"
| enqueue_fails: "b_at i (BEnqueue xs) s \<Longrightarrow> bstep s (b_goto i BIdle s)"
| enqueue_signal: "b_at i (BSignal n) s \<Longrightarrow> bstep s (b_goto i BIdle (s\<lparr>bsema := bsema s + n\<rparr>))"
| dequeue_bulk: "b_at i BIdle s \<Longrightarrow> bstep s (b_goto i (BWait mx 0 forever) s)"
| wait_token: "b_at i (BWait mx n forever) s \<Longrightarrow> k \<le> bsema s \<Longrightarrow> n + k \<le> mx \<Longrightarrow>
    bstep s (b_goto i (BWait mx (n + k) forever) (s\<lparr>bsema := bsema s - k\<rparr>))"
| wait_done: "b_at i (BWait mx n forever) s \<Longrightarrow> n > 0 \<Longrightarrow> bstep s (b_goto i (BTake n) s)"
| wait_fails: "b_at i (BWait mx 0 False) s \<Longrightarrow> bstep s (b_goto i BIdle s)"
| take_inner: "b_at i (BTake (Suc n)) s \<Longrightarrow> p < length (inner s) \<Longrightarrow> inner s ! p \<noteq> [] \<Longrightarrow>
    bstep s (b_goto i (BTake n) (inner_dequeue p s))"
| take_done: "b_at i (BTake 0) s \<Longrightarrow> bstep s (b_goto i BIdle s)"

definition start_bqueue :: "'a bsys \<Rightarrow> bool" where
  "start_bqueue s \<longleftrightarrow> (\<exists>n. bpcs s = replicate n BIdle \<and> inner s = replicate n [] \<and> enqueued s = replicate n [] \<and> dequeued s = replicate n []) \<and>
     bsema s = 0"

section \<open>The invariant\<close>

text \<open>The tokens a thread has and the elements it has not signalled.\<close>

fun b_holding :: "'a bpc \<Rightarrow> nat" where
  "b_holding (BWait mx n forever) = n"
| "b_holding (BTake n) = n"
| "b_holding _ = 0"

fun b_unsignalled :: "'a bpc \<Rightarrow> nat" where
  "b_unsignalled (BSignal n) = n"
| "b_unsignalled _ = 0"

definition inner_size :: "'a bsys \<Rightarrow> nat" where
  "inner_size s = sum_list (map length (inner s))"

definition b_logs :: "'a bsys \<Rightarrow> bool" where
  "b_logs s \<longleftrightarrow> length (inner s) = length (bpcs s) \<and> length (enqueued s) = length (bpcs s) \<and> length (dequeued s) = length (bpcs s) \<and>
     (\<forall>p < length (bpcs s). enqueued s ! p = dequeued s ! p @ inner s ! p)"

definition binv :: "'a bsys \<Rightarrow> bool" where
  "binv s \<longleftrightarrow> b_logs s \<and> inner_size s = bsema s + sum_list (map b_holding (bpcs s)) + sum_list (map b_unsignalled (bpcs s))"

lemma b_simps [simp]:
  "inner (b_goto i pc s) = inner s" "bsema (b_goto i pc s) = bsema s" "enqueued (b_goto i pc s) = enqueued s"
  "dequeued (b_goto i pc s) = dequeued s" "bpcs (b_goto i pc s) = (bpcs s)[i := pc]"
  "bsema (inner_enqueue p xs s) = bsema s" "bpcs (inner_enqueue p xs s) = bpcs s"
  "bsema (inner_dequeue p s) = bsema s" "bpcs (inner_dequeue p s) = bpcs s"
  by (simp_all add: b_goto_def inner_enqueue_def inner_dequeue_def split: list.split)

lemma inner_size_enqueue: "p < length (inner s) \<Longrightarrow> inner_size (inner_enqueue p xs s) = inner_size s + length xs"
  using sum_list_at [of p "inner s" length "inner s ! p @ xs"] by (simp add: inner_size_def inner_enqueue_def)

lemma inner_size_dequeue: "p < length (inner s) \<Longrightarrow> inner s ! p \<noteq> [] \<Longrightarrow> inner_size s = Suc (inner_size (inner_dequeue p s))"
  using sum_list_at [of p "inner s" length "tl (inner s ! p)"] by (auto simp: inner_size_def inner_dequeue_def neq_Nil_conv)

lemma inner_size_goto [simp]: "inner_size (b_goto i pc s) = inner_size s" "inner_size (s\<lparr>bsema := n\<rparr>) = inner_size s"
  by (simp_all add: inner_size_def)

lemma b_logs_simps [simp]: "b_logs (b_goto i pc s) = b_logs s" "b_logs (s\<lparr>bsema := n\<rparr>) = b_logs s"
  by (simp_all add: b_logs_def)

lemma b_logs_enqueue: "b_logs s \<Longrightarrow> b_logs (inner_enqueue p xs s)"
  by (cases "p < length (bpcs s)") (auto simp: b_logs_def inner_enqueue_def nth_list_update)

lemma b_logs_dequeue: "b_logs s \<Longrightarrow> b_logs (inner_dequeue p s)"
  by (auto simp: b_logs_def inner_dequeue_def nth_list_update split: list.splits)

lemma binv_move:
  assumes "binv s" "b_at i pc s" "bpcs s' = (bpcs s)[i := pc']" "b_logs s'"
    "inner_size s' + bsema s + b_holding pc + b_unsignalled pc = inner_size s + bsema s' + b_holding pc' + b_unsignalled pc'"
  shows "binv s'"
proof -
  have i: "i < length (bpcs s)" "bpcs s ! i = pc" using assms(2) by (simp_all add: b_at_def)
  show ?thesis using assms sum_list_at [OF i(1), of b_holding pc'] sum_list_at [OF i(1), of b_unsignalled pc'] i(2)
    by (simp add: binv_def)
qed

lemma binv_logs: "binv s \<Longrightarrow> b_logs s"
  by (simp add: binv_def)

lemma bstep_binv: "bstep s s' \<Longrightarrow> binv s \<Longrightarrow> binv s'"
proof (induction rule: bstep.induct)
  case (enqueue_inner i xs s)
  moreover have "i < length (inner s)" using enqueue_inner by (simp add: binv_def b_logs_def b_at_def)
  ultimately show ?case
    by (intro binv_move [OF enqueue_inner(2,1), where pc' = "BSignal (length xs)"]) (simp_all add: inner_size_enqueue b_logs_enqueue binv_logs)
next
  case (take_inner i n s p)
  then show ?case
    by (intro binv_move [OF take_inner(4,1), where pc' = "BTake n"]) (simp_all add: inner_size_dequeue b_logs_dequeue binv_logs)
qed (frule binv_logs, erule (1) binv_move, simp; simp)+

interpretation bqueue_run: invariant_run start_bqueue bstep binv
proof
  show "binv s" if "start_bqueue s" for s :: "'a bsys"
    using that by (auto simp: start_bqueue_def binv_def b_logs_def inner_size_def sum_list_replicate)
qed (rule bstep_binv)

section \<open>The loop of a dequeue\<close>

lemma inner_nonempty: "inner_size s > 0 \<Longrightarrow> \<exists>p < length (inner s). inner s ! p \<noteq> []"
proof -
  assume "inner_size s > 0"
  moreover have "sum_list (map length xss) = 0 \<or> (\<exists>xs \<in> set xss. xs \<noteq> [])" for xss :: "'a list list" by (induction xss) auto
  ultimately obtain xs where "xs \<in> set (inner s)" "xs \<noteq> []" by (metis inner_size_def less_irrefl)
  then show ?thesis by (auto simp: in_set_conv_nth)
qed

lemma holding_le:
  assumes "binv s" "b_at i pc s"
  shows "b_holding pc \<le> inner_size s"
  using assms sum_list_at [of i "bpcs s" b_holding BIdle] by (auto simp: binv_def b_at_def)

lemma take_loop_ends:
  assumes "binv s" "b_at i (BTake n) s"
  shows "\<exists>s'. (bstep ^^ Suc n) s s' \<and> b_at i BIdle s' \<and> inner_size s = inner_size s' + n \<and> bsema s' = bsema s"
  using assms
proof (induction n arbitrary: s)
  case 0
  with bstep.take_done [of i s] show ?case by (intro exI [of _ "b_goto i BIdle s"]) (auto simp: b_at_def)
next
  case (Suc n)
  have "inner_size s > 0" using holding_le [OF Suc.prems] by simp
  then obtain p where p: "p < length (inner s)" "inner s ! p \<noteq> []" using inner_nonempty by blast
  let ?s = "b_goto i (BTake n) (inner_dequeue p s)"
  have st: "bstep s ?s" using Suc.prems(2) p by (rule bstep.take_inner)
  have "b_at i (BTake n) ?s" using Suc.prems(2) by (simp add: b_at_def)
  from Suc.IH [OF bstep_binv [OF st Suc.prems(1)] this] obtain s' where
    s': "(bstep ^^ Suc n) ?s s'" "b_at i BIdle s'" "inner_size ?s = inner_size s' + n" "bsema s' = bsema s" by auto
  have "(bstep ^^ Suc (Suc n)) s s'" using relpowp_Suc_I2 [of bstep, OF st s'(1)] .
  with s' inner_size_dequeue [OF p] show ?case by auto
qed

section \<open>What the storage worker relies on\<close>

text \<open>Whatever the interleaving, the operations of one producer come out in the order in which it enqueued them,
  none lost and none twice: at every moment what it enqueued is what was dequeued of it followed by what is
  still in the queue; and every element that is not about to be signalled has a token, in the semaphore or in
  the hand of a dequeuer.\<close>

lemma producer_order_kept:
  assumes "start_bqueue s0" "bstep\<^sup>*\<^sup>* s0 s" "p < length (bpcs s)"
  shows "enqueued s ! p = dequeued s ! p @ inner s ! p \<and>
    inner_size s = bsema s + sum_list (map b_holding (bpcs s)) + sum_list (map b_unsignalled (bpcs s))"
  using bqueue_run.reachable_inv [OF assms(2,1)] assms(3) by (simp add: binv_def b_logs_def)

text \<open>The loop in which a dequeue that holds tokens repeats \<open>inner.try_dequeue\<close> can always end: whatever the other
  threads have done, there is an element for each token it holds, and taking them and returning are its next
  steps.\<close>

lemma dequeue_loop_can_end:
  assumes "start_bqueue s0" "bstep\<^sup>*\<^sup>* s0 s" "b_at i (BTake n) s"
  shows "n \<le> inner_size s \<and> (\<exists>s'. (bstep ^^ Suc n) s s' \<and> b_at i BIdle s' \<and> inner_size s = inner_size s' + n \<and> bsema s' = bsema s)"
proof -
  have "binv s" using bqueue_run.reachable_inv assms(1,2) by blast
  with take_loop_ends [OF _ assms(3)] holding_le [OF _ assms(3)] show ?thesis by simp
qed

text \<open>Two producers enqueue; a third thread has taken two tokens and one element.\<close>

definition b_start :: "nat bsys" where
  "b_start = \<lparr>inner = replicate 3 [], bsema = 0, bpcs = replicate 3 BIdle, enqueued = replicate 3 [], dequeued = replicate 3 []\<rparr>"

definition b_taking :: "nat bsys" where
  "b_taking = \<lparr>inner = [[2], [], []], bsema = 0, bpcs = [BIdle, BIdle, BTake 1], enqueued = [[1, 2], [], []], dequeued = [[1], [], []]\<rparr>"

lemma b_taking_reachable: "bstep\<^sup>*\<^sup>* b_start b_taking"
proof -
  let ?b = "\<lambda>i e d n pc0 pc2. \<lparr>inner = [i, [], []], bsema = n, bpcs = [pc0, BIdle, pc2], enqueued = [e, [], []], dequeued = [d, [], []]\<rparr> :: nat bsys"
  note defs = b_at_def b_goto_def inner_enqueue_def inner_dequeue_def b_start_def b_taking_def numeral_eq_Suc
  note [trans] = rtranclp.rtrancl_into_rtrancl [of bstep]
  have "bstep\<^sup>*\<^sup>* b_start (?b [] [] [] 0 (BEnqueue [1, 2]) BIdle)"
    using bstep.enqueue_bulk [of 0 b_start "[1, 2]"] by (intro r_into_rtranclp) (simp add: defs)
  also have "bstep \<dots> (?b [1, 2] [1, 2] [] 0 (BSignal 2) BIdle)"
    using bstep.enqueue_inner [of 0 "[1, 2]" "?b [] [] [] 0 (BEnqueue [1, 2]) BIdle"] by (simp add: defs)
  also have "bstep \<dots> (?b [1, 2] [1, 2] [] 2 BIdle BIdle)"
    using bstep.enqueue_signal [of 0 2 "?b [1, 2] [1, 2] [] 0 (BSignal 2) BIdle"] by (simp add: defs)
  also have "bstep \<dots> (?b [1, 2] [1, 2] [] 2 BIdle (BWait 2 0 True))"
    using bstep.dequeue_bulk [of 2 "?b [1, 2] [1, 2] [] 2 BIdle BIdle" 2 True] by (simp add: defs)
  also have "bstep \<dots> (?b [1, 2] [1, 2] [] 0 BIdle (BWait 2 2 True))"
    using bstep.wait_token [of 2 2 0 True "?b [1, 2] [1, 2] [] 2 BIdle (BWait 2 0 True)" 2] by (simp add: defs)
  also have "bstep \<dots> (?b [1, 2] [1, 2] [] 0 BIdle (BTake 2))"
    using bstep.wait_done [of 2 2 2 True "?b [1, 2] [1, 2] [] 0 BIdle (BWait 2 2 True)"] by (simp add: defs)
  also have "bstep \<dots> b_taking"
    using bstep.take_inner [of 2 1 "?b [1, 2] [1, 2] [] 0 BIdle (BTake 2)" 0] by (simp add: defs)
  finally show ?thesis .
qed

lemma start_b_start: "start_bqueue b_start"
  unfolding start_bqueue_def b_start_def by (auto intro: exI [of _ 3])

lemma producer_order_kept_example:
  "enqueued b_taking ! 0 = dequeued b_taking ! 0 @ inner b_taking ! 0 \<and>
    inner_size b_taking = bsema b_taking + sum_list (map b_holding (bpcs b_taking)) + sum_list (map b_unsignalled (bpcs b_taking))"
  by (rule producer_order_kept [OF start_b_start b_taking_reachable]) (simp add: b_taking_def)

end
