(* ===== verification/Btree.thy ===== *)
theory Btree
  imports Prelude
begin

text \<open>
  The B-tree of \<open>btree.h\<close> that is the index of the storage: search, \<open>operator[]\<close> with its splits on the way down,
  and \<open>erase\<close> with its rotations and merges on the way down.  A node has its keys, the number of keys of its
  subtree, its height and its children; \<open>parent_\<close> and \<open>index_\<close> are the place of a node in its parent, and
  \<open>begin_\<close> is always the first place of the leftmost leaf.  \<open>Fanout\<close> is the parameter \<open>t\<close>; the storage uses 64.
  The loops that go down the tree take a bound on the number of levels, and the public operations start them
  with the height of the root, which is shown to be enough.
\<close>

section \<open>Nodes\<close>

datatype ('k, 'v) node = Node (nd_keys: "('k \<times> 'v) list") (nd_size: int) (nd_height: int) (nd_children: "('k, 'v) node list")

definition make_node :: "('k, 'v) node" where
  "make_node = Node [] 0 0 []"

definition nkeys :: "('k, 'v) node \<Rightarrow> nat" where
  "nkeys x = length (nd_keys x)"

definition is_leaf :: "('k, 'v) node \<Rightarrow> bool" where
  "is_leaf x \<longleftrightarrow> nd_children x = []"

definition is_full :: "nat \<Rightarrow> ('k, 'v) node \<Rightarrow> bool" where
  "is_full t x \<longleftrightarrow> nkeys x = 2 * t - 1"

definition can_take_key :: "nat \<Rightarrow> ('k, 'v) node \<Rightarrow> bool" where
  "can_take_key t x \<longleftrightarrow> nkeys x > t - 1"

text \<open>For a node that has a parent.\<close>

definition has_minimal_keys :: "nat \<Rightarrow> ('k, 'v) node \<Rightarrow> bool" where
  "has_minimal_keys t x \<longleftrightarrow> nkeys x = t - 1"

text \<open>The place of the first key that is not less.\<close>

definition get_lb :: "'k::linorder \<Rightarrow> ('k, 'v) node \<Rightarrow> nat" where
  "get_lb k x = length (takeWhile (\<lambda>p. fst p < k) (nd_keys x))"

text \<open>The entries of a subtree in their order.\<close>

fun weave :: "'a list list \<Rightarrow> 'a list \<Rightarrow> 'a list" where
  "weave [] ks = ks"
| "weave (c # cs) [] = c @ weave cs []"
| "weave (c # cs) (k # ks) = c @ k # weave cs ks"

fun entries :: "('k, 'v) node \<Rightarrow> ('k \<times> 'v) list" where
  "entries (Node ks s h cs) = weave (map entries cs) ks"

text \<open>\<open>verify(node)\<close>: the invariants the code asserts in a test build, with \<open>noParent\<close> for a node without a parent.\<close>

fun verify :: "nat \<Rightarrow> bool \<Rightarrow> ('k::linorder, 'v) node \<Rightarrow> bool" where
  "verify t noParent (Node ks s h cs) =
     ((noParent \<or> t - 1 \<le> length ks \<and> length ks \<le> 2 * t - 1) \<and>
      sorted (map fst ks) \<and>
      (noParent \<or> cs = [] \<or> t \<le> length cs \<and> length cs = length ks + 1 \<and> length cs \<le> 2 * t) \<and>
      (if cs \<noteq> [] then
         list_all (\<lambda>i. \<not> fst (ks ! i) < fst (nd_keys (cs ! i) ! (nkeys (cs ! i) - 1)) \<and> \<not> fst (nd_keys (cs ! (i + 1)) ! 0) < fst (ks ! i))
           [0..<length ks] \<and>
         list_all (verify t False) cs \<and> list_all (\<lambda>c. h = nd_height c + 1) cs \<and>
         s = int (length ks) + sum_list (map nd_size cs)
       else s = int (length ks) \<and> h = 0))"

section \<open>Changes of a node and its children\<close>

text \<open>Split \<open>children[i]\<close> of \<open>x\<close> into \<open>children[i]\<close> and \<open>children[i + 1]\<close>.\<close>

definition split_child :: "nat \<Rightarrow> nat \<Rightarrow> ('k, 'v) node \<Rightarrow> ('k, 'v) node" where
  "split_child t i x =
     (let y = nd_children x ! i;
          zkeys = drop t (nd_keys y);
          zchildren = drop t (nd_children y);
          zsize = int (length zkeys) + sum_list (map nd_size zchildren);
          z = Node zkeys zsize (nd_height y) zchildren;
          y' = Node (take (t - 1) (nd_keys y)) (nd_size y - (zsize + 1)) (nd_height y) (take t (nd_children y))
      in Node (take i (nd_keys x) @ nd_keys y ! (t - 1) # drop i (nd_keys x)) (nd_size x) (nd_height x)
           (take i (nd_children x) @ y' # z # drop (Suc i) (nd_children x)))"

text \<open>Merge \<open>children[i + 1]\<close> and \<open>keys[i]\<close> into \<open>children[i]\<close>.\<close>

definition merge_child :: "nat \<Rightarrow> ('k, 'v) node \<Rightarrow> ('k, 'v) node" where
  "merge_child i x =
     (let y = nd_children x ! i; z = nd_children x ! Suc i;
          y' = Node (nd_keys y @ nd_keys x ! i # nd_keys z) (nd_size y + int (nkeys z) + sum_list (map nd_size (nd_children z)) + 1)
                 (nd_height y) (nd_children y @ nd_children z)
      in Node (take i (nd_keys x) @ drop (Suc i) (nd_keys x)) (nd_size x) (nd_height x)
           (take i (nd_children x) @ y' # drop (Suc (Suc i)) (nd_children x)))"

text \<open>\<open>children[i]\<close> brings a key from its parent \<open>x\<close>, \<open>x\<close> one from the right sibling, \<open>children[i]\<close> a child from there.\<close>

definition left_rotate :: "nat \<Rightarrow> ('k, 'v) node \<Rightarrow> ('k, 'v) node" where
  "left_rotate i x =
     (let y = nd_children x ! i; z = nd_children x ! Suc i;
          orphan = take 1 (nd_children z); moved = 1 + sum_list (map nd_size orphan);
          y' = Node (nd_keys y @ [nd_keys x ! i]) (nd_size y + moved) (nd_height y) (nd_children y @ orphan);
          z' = Node (tl (nd_keys z)) (nd_size z - moved) (nd_height z) (drop 1 (nd_children z))
      in Node ((nd_keys x)[i := hd (nd_keys z)]) (nd_size x) (nd_height x) ((nd_children x)[i := y', Suc i := z']))"

text \<open>The mirror image, with the left sibling.\<close>

definition right_rotate :: "nat \<Rightarrow> ('k, 'v) node \<Rightarrow> ('k, 'v) node" where
  "right_rotate i x =
     (let y = nd_children x ! i; z = nd_children x ! (i - 1); n = length (nd_children z);
          orphan = drop (n - 1) (nd_children z); moved = 1 + sum_list (map nd_size orphan);
          y' = Node (nd_keys x ! (i - 1) # nd_keys y) (nd_size y + moved) (nd_height y) (orphan @ nd_children y);
          z' = Node (butlast (nd_keys z)) (nd_size z - moved) (nd_height z) (take (n - 1) (nd_children z))
      in Node ((nd_keys x)[i - 1 := last (nd_keys z)]) (nd_size x) (nd_height x) ((nd_children x)[i := y', i - 1 := z']))"

definition insert_leaf :: "nat \<Rightarrow> 'k \<times> 'v \<Rightarrow> ('k, 'v) node \<Rightarrow> ('k, 'v) node" where
  "insert_leaf i p x = Node (take i (nd_keys x) @ p # drop i (nd_keys x)) (nd_size x + 1) (nd_height x) (nd_children x)"

definition erase_leaf :: "nat \<Rightarrow> ('k, 'v) node \<Rightarrow> ('k, 'v) node" where
  "erase_leaf i x = Node (take i (nd_keys x) @ drop (Suc i) (nd_keys x)) (nd_size x - 1) (nd_height x) (nd_children x)"

text \<open>The assignment through the reference to \<open>keys[i].second\<close>.\<close>

definition set_value :: "nat \<Rightarrow> 'v \<Rightarrow> ('k, 'v) node \<Rightarrow> ('k, 'v) node" where
  "set_value i v x = Node ((nd_keys x)[i := (fst (nd_keys x ! i), v)]) (nd_size x) (nd_height x) (nd_children x)"

text \<open>The loop goes on in \<open>children[i]\<close>; what it inserts or erases there is added to the size of every ancestor.\<close>

definition descend :: "(('k, 'v) node \<Rightarrow> (('k, 'v) node \<times> int) option) \<Rightarrow> nat \<Rightarrow> ('k, 'v) node \<Rightarrow> (('k, 'v) node \<times> int) option" where
  "descend f i x =
     (case f (nd_children x ! i) of
        None \<Rightarrow> None
      | Some (c, d) \<Rightarrow> Some (Node (nd_keys x) (nd_size x + d) (nd_height x) ((nd_children x)[i := c]), d))"

section \<open>The operations\<close>

primrec search :: "nat \<Rightarrow> 'k::linorder \<Rightarrow> ('k, 'v) node \<Rightarrow> 'v option option" where
  "search 0 k x = None"
| "search (Suc n) k x =
     (let i = get_lb k x in
      if i < nkeys x \<and> k = fst (nd_keys x ! i) then Some (Some (snd (nd_keys x ! i)))
      else if is_leaf x then Some None
      else search n k (nd_children x ! i))"

text \<open>The loop of \<open>operator[]\<close>, followed by the assignment of \<open>v\<close>.\<close>

primrec subscript :: "nat \<Rightarrow> nat \<Rightarrow> 'k::linorder \<Rightarrow> 'v \<Rightarrow> ('k, 'v) node \<Rightarrow> (('k, 'v) node \<times> int) option" where
  "subscript 0 t k v x = None"
| "subscript (Suc n) t k v x =
     (let i = get_lb k x in
      if i < nkeys x \<and> k = fst (nd_keys x ! i) then Some (set_value i v x, 0)
      else if is_leaf x then Some (insert_leaf i (k, v) x, 1)
      else if is_full t (nd_children x ! i) then
        (let x' = split_child t i x in
         if k = fst (nd_keys x' ! i) then Some (set_value i v x', 0)
         else if fst (nd_keys x' ! i) < k then descend (subscript n t k v) (Suc i) x'
         else descend (subscript n t k v) i x')
      else descend (subscript n t k v) i x)"

text \<open>The rightmost and the leftmost leaf of a subtree: their last and first entry, and the tree in which that entry is
  replaced, as \<open>iter_swap\<close> with the predecessor and the successor does.\<close>

fun rightmost :: "('k, 'v) node \<Rightarrow> 'k \<times> 'v" where
  "rightmost (Node ks s h cs) = (if cs = [] then last ks else last (map rightmost cs))"

fun put_rightmost :: "'k \<times> 'v \<Rightarrow> ('k, 'v) node \<Rightarrow> ('k, 'v) node" where
  "put_rightmost p (Node ks s h cs) =
     (if cs = [] then Node (butlast ks @ [p]) s h []
      else Node ks s h (butlast cs @ [last (map (put_rightmost p) cs)]))"

fun leftmost :: "('k, 'v) node \<Rightarrow> 'k \<times> 'v" where
  "leftmost (Node ks s h cs) = (if cs = [] then hd ks else hd (map leftmost cs))"

fun put_leftmost :: "'k \<times> 'v \<Rightarrow> ('k, 'v) node \<Rightarrow> ('k, 'v) node" where
  "put_leftmost p (Node ks s h cs) =
     (if cs = [] then Node (p # tl ks) s h []
      else Node ks s h (hd (map (put_leftmost p) cs) # tl cs))"

definition swap_pred :: "nat \<Rightarrow> ('k, 'v) node \<Rightarrow> ('k, 'v) node" where
  "swap_pred i x =
     (let c = nd_children x ! i in
      Node ((nd_keys x)[i := rightmost c]) (nd_size x) (nd_height x) ((nd_children x)[i := put_rightmost (nd_keys x ! i) c]))"

definition swap_succ :: "nat \<Rightarrow> ('k, 'v) node \<Rightarrow> ('k, 'v) node" where
  "swap_succ i x =
     (let c = nd_children x ! Suc i in
      Node ((nd_keys x)[i := leftmost c]) (nd_size x) (nd_height x) ((nd_children x)[Suc i := put_leftmost (nd_keys x ! i) c]))"

text \<open>\<open>promote_root_if_necessary\<close>: a root without keys gives way to its only child.  The code calls it right after a
  merge; the loop below then works in that child, so that it makes no difference to call it at the end.\<close>

definition promote_root_if_necessary :: "('k, 'v) node \<Rightarrow> ('k, 'v) node" where
  "promote_root_if_necessary x = (if nd_keys x = [] \<and> nd_children x \<noteq> [] then nd_children x ! 0 else x)"

primrec erase_lb :: "nat \<Rightarrow> nat \<Rightarrow> 'k::linorder \<Rightarrow> ('k, 'v) node \<Rightarrow> (('k, 'v) node \<times> int) option" where
  "erase_lb 0 t k x = None"
| "erase_lb (Suc n) t k x =
     (let i = get_lb k x; go = descend (erase_lb n t k) in
      if i < nkeys x \<and> k = fst (nd_keys x ! i) then
        (if is_leaf x then Some (erase_leaf i x, - 1)
         else if can_take_key t (nd_children x ! i) then go i (swap_pred i x)
         else if can_take_key t (nd_children x ! Suc i) then go (Suc i) (swap_succ i x)
         else go i (merge_child i x))
      else if is_leaf x then Some (x, 0)
      else if has_minimal_keys t (nd_children x ! i) then
        (if Suc i < length (nd_children x) \<and> can_take_key t (nd_children x ! Suc i) then go i (left_rotate i x)
         else if 1 \<le> i \<and> can_take_key t (nd_children x ! (i - 1)) then go i (right_rotate i x)
         else if Suc i < length (nd_children x) then go i (merge_child i x)
         else if 1 \<le> i then go (i - 1) (merge_child (i - 1) x)
         else go i x)
      else go i x)"

definition levels :: "('k, 'v) node \<Rightarrow> nat" where
  "levels x = Suc (nat (nd_height x))"

definition btree_find :: "'k::linorder \<Rightarrow> ('k, 'v) node \<Rightarrow> 'v option option" where
  "btree_find k x = search (levels x) k x"

text \<open>\<open>operator[]\<close> and the assignment; a full root becomes the child of a new root and is split.\<close>

definition grow_root :: "nat \<Rightarrow> ('k, 'v) node \<Rightarrow> ('k, 'v) node" where
  "grow_root t x = (if is_full t x then split_child t 0 (Node [] (nd_size x) (nd_height x + 1) [x]) else x)"

definition btree_put :: "nat \<Rightarrow> 'k::linorder \<Rightarrow> 'v \<Rightarrow> ('k, 'v) node \<Rightarrow> ('k, 'v) node option" where
  "btree_put t k v x = (let x' = grow_root t x in map_option fst (subscript (levels x') t k v x'))"

definition btree_erase :: "nat \<Rightarrow> 'k::linorder \<Rightarrow> ('k, 'v) node \<Rightarrow> (('k, 'v) node \<times> int) option" where
  "btree_erase t k x = map_option (\<lambda>(x', d). (promote_root_if_necessary x', - d)) (erase_lb (levels x) t k x)"

section \<open>Entries\<close>

lemma weave_append: "length as = length ks1 \<Longrightarrow> weave (as @ bs) (ks1 @ ks2) = weave as ks1 @ weave bs ks2"
  by (induction as ks1 rule: list_induct2) auto

lemma weave_snoc: "length as = Suc (length ks) \<Longrightarrow> weave as (ks @ [m]) = weave as ks @ [m]"
proof (induction as ks rule: weave.induct)
  case (2 c cs)
  then show ?case by simp
qed auto

text \<open>The entries of two neighbours and the key between them are those of the node that joins the three.\<close>

definition joinable :: "'a list \<Rightarrow> 'b list \<Rightarrow> 'a list \<Rightarrow> bool" where
  "joinable cs ks ds \<longleftrightarrow> (if cs = [] then ds = [] else length cs = Suc (length ks))"

lemma weave_join: "joinable cs ks ds \<Longrightarrow> weave (cs @ ds) (ks @ m # ms) = weave cs ks @ m # weave ds ms"
  using weave_append [of cs "ks @ [m]" ds ms] weave_snoc [of cs ks m] by (auto simp: joinable_def split: if_splits)

lemma length_weave: "length (weave cs ks) = length ks + sum_list (map length cs)"
  by (induction cs ks rule: weave.induct) auto

lemma set_weave: "set (weave cs ks) = set ks \<union> (\<Union>c \<in> set cs. set c)"
  by (induction cs ks rule: weave.induct) auto

definition ksorted :: "('k::linorder \<times> 'v) list \<Rightarrow> bool" where
  "ksorted xs \<longleftrightarrow> sorted_wrt (<) (map fst xs)"

lemma ksorted_simps [simp]:
  "ksorted []" "ksorted (p # xs) \<longleftrightarrow> (\<forall>q \<in> set xs. fst p < fst q) \<and> ksorted xs"
  "ksorted (xs @ ys) \<longleftrightarrow> ksorted xs \<and> ksorted ys \<and> (\<forall>p \<in> set xs. \<forall>q \<in> set ys. fst p < fst q)"
  by (auto simp: ksorted_def sorted_wrt_append)

abbreviation below :: "'k::linorder \<Rightarrow> ('k \<times> 'v) list \<Rightarrow> bool" where
  "below k xs \<equiv> \<forall>p \<in> set xs. fst p < k"

abbreviation above :: "'k::linorder \<Rightarrow> ('k \<times> 'v) list \<Rightarrow> bool" where
  "above k xs \<equiv> \<forall>p \<in> set xs. k < fst p"

lemma weave_below: "length cs = length ks \<Longrightarrow> ksorted (weave cs ks) \<Longrightarrow> below k ks \<Longrightarrow> below k (weave cs ks)"
  by (induction cs ks rule: list_induct2) (auto intro: less_trans)

text \<open>An edit puts \<open>new\<close> at the place of the key \<open>k\<close>, where there was at most one entry.\<close>

definition edits :: "'k::linorder \<Rightarrow> ('k \<times> 'v) list \<Rightarrow> ('k \<times> 'v) list \<Rightarrow> ('k \<times> 'v) list \<Rightarrow> bool" where
  "edits k new xs ys \<longleftrightarrow>
     (\<exists>A old B. xs = A @ old @ B \<and> ys = A @ new @ B \<and> below k A \<and> above k B \<and> (old = [] \<or> (\<exists>v. old = [(k, v)])))"

lemma edits_frame: "edits k new xs ys \<Longrightarrow> below k A \<Longrightarrow> above k B \<Longrightarrow> edits k new (A @ xs @ B) (A @ ys @ B)"
proof -
  assume "edits k new xs ys" and AB: "below k A" "above k B"
  then obtain A' old B' where e: "xs = A' @ old @ B'" "ys = A' @ new @ B'" "below k A'" "above k B'" "old = [] \<or> (\<exists>v. old = [(k, v)])"
    by (auto simp: edits_def)
  from e AB have "below k (A @ A')" "above k (B' @ B)" "A @ xs @ B = (A @ A') @ old @ B' @ B" "A @ ys @ B = (A @ A') @ new @ B' @ B" by auto
  with e(5) show ?thesis unfolding edits_def by blast
qed

lemma edits_intro: "below k A \<Longrightarrow> above k B \<Longrightarrow> edits k new (A @ B) (A @ new @ B)" "below k A \<Longrightarrow> above k B \<Longrightarrow> edits k new (A @ (k, v) # B) (A @ new @ B)"
  unfolding edits_def by (rule exI [of _ A], rule exI [of _ "[]"], rule exI [of _ B], simp)
    (rule exI [of _ A], rule exI [of _ "[(k, v)]"], rule exI [of _ B], simp)

lemma map_of_below: "below k xs \<Longrightarrow> map_of xs k = None" "above k xs \<Longrightarrow> map_of xs k = None"
  by (fastforce simp: map_of_eq_None_iff)+

lemma edits_map:
  assumes "edits k new xs ys" "new = [] \<or> (\<exists>v. new = [(k, v)])"
  shows "map_of ys = (map_of xs)(k := map_of new k)"
proof -
  from assms(1) obtain A old B where e: "xs = A @ old @ B" "ys = A @ new @ B" "below k A" "above k B" "old = [] \<or> (\<exists>v. old = [(k, v)])"
    by (auto simp: edits_def)
  show ?thesis
  proof
    fix u show "map_of ys u = ((map_of xs)(k := map_of new k)) u"
      using e assms(2) by (cases "u = k") (auto simp: map_add_def map_of_below split: option.splits)
  qed
qed

lemma edits_sorted: "edits k new xs ys \<Longrightarrow> new = [] \<or> (\<exists>v. new = [(k, v)]) \<Longrightarrow> ksorted xs \<Longrightarrow> ksorted ys"
  by (auto simp: edits_def)

section \<open>The invariant\<close>

fun node_ok :: "nat \<Rightarrow> ('k, 'v) node \<Rightarrow> bool" where
  "node_ok t (Node ks s h cs) \<longleftrightarrow>
     length ks < 2 * t \<and> s = int (length ks) + sum_list (map nd_size cs) \<and> (if cs = [] then h = 0 else length cs = Suc (length ks)) \<and>
     (\<forall>c \<in> set cs. node_ok t c \<and> t \<le> Suc (nkeys c) \<and> h = nd_height c + 1)"

definition bulk :: "('k \<times> 'v) list \<Rightarrow> ('k, 'v) node list \<Rightarrow> int" where
  "bulk ks cs = int (length ks) + sum_list (map nd_size cs)"

definition shape :: "nat \<Rightarrow> ('k \<times> 'v) list \<Rightarrow> int \<Rightarrow> ('k, 'v) node list \<Rightarrow> bool" where
  "shape t ks h cs \<longleftrightarrow> length ks < 2 * t \<and> (if cs = [] then h = 0 else length cs = Suc (length ks)) \<and>
     (\<forall>c \<in> set cs. node_ok t c \<and> t \<le> Suc (nkeys c) \<and> h = nd_height c + 1)"

lemma node_ok_iff: "node_ok t (Node ks s h cs) \<longleftrightarrow> s = bulk ks cs \<and> shape t ks h cs"
  by (auto simp: bulk_def shape_def)

lemma node_ok_cong: "length ks = length ks' \<Longrightarrow> node_ok t (Node ks s h cs) = node_ok t (Node ks' s h cs)"
  by (simp add: node_ok_iff bulk_def shape_def)

lemma node_ok_size: "node_ok t x \<Longrightarrow> nd_size x = int (length (entries x))"
proof (induction x)
  case (Node ks s h cs)
  have "\<forall>c \<in> set ds. nd_size c = int (length (entries c)) \<Longrightarrow> sum_list (map nd_size ds) = int (sum_list (map (length \<circ> entries) ds))" for ds
    by (induction ds) auto
  from this [of cs] Node have "sum_list (map nd_size cs) = int (sum_list (map (length \<circ> entries) cs))" by auto
  with Node.prems show ?case by (simp add: length_weave)
qed

lemma node_ok_height: "node_ok t x \<Longrightarrow> nd_height x \<ge> 0 \<and> (nd_height x = 0 \<longleftrightarrow> nd_children x = [])"
proof (induction x)
  case (Node ks s h cs)
  show ?case
  proof (cases cs)
    case (Cons c cs')
    with Node.prems Node.IH [of c] show ?thesis by auto
  qed (use Node.prems in simp)
qed

lemma internal_at:
  assumes "node_ok t (Node ks s h cs)" "cs \<noteq> []" "i \<le> length ks"
  obtains ks1 ks2 cs1 c cs2 where "ks = ks1 @ ks2" "cs = cs1 @ c # cs2" "length ks1 = i" "length cs1 = i" "length cs2 = length ks2"
proof
  from assms have l: "length cs = Suc (length ks)" by simp
  with assms(3) show "ks = take i ks @ drop i ks" "cs = take i cs @ cs ! i # drop (Suc i) cs" "length (take i ks) = i" "length (take i cs) = i"
    "length (drop (Suc i) cs) = length (drop i ks)"
    by (simp_all add: id_take_nth_drop [symmetric])
qed

text \<open>The entries around a child: those before it are below a key that is above \<open>ks1\<close>.\<close>

lemma entries_at:
  "length cs1 = length ks1 \<Longrightarrow> length cs2 = length ks2 \<Longrightarrow>
     entries (Node (ks1 @ ks2) s h (cs1 @ c # cs2)) =
       weave (map entries cs1) ks1 @ entries c @ weave ([] # map entries cs2) ks2"
  using weave_append [of "map entries cs1" ks1 "entries c # map entries cs2" ks2] by (cases ks2) auto

text \<open>Where a search stands in an inner node: at its key, or above the one child that can hold it.\<close>

lemma lb_cases:
  assumes "node_ok t x" "\<not> is_leaf x" "ksorted (entries x)"
  obtains (found) ks1 v ks2 cs1 c cs2 s h A B where "x = Node (ks1 @ (k, v) # ks2) s h (cs1 @ c # cs2)" "get_lb k x = length ks1" "length cs1 = length ks1"
      "length cs2 = Suc (length ks2)" "A = weave (map entries cs1) ks1" "B = weave (map entries cs2) ks2"
      "entries x = A @ entries c @ (k, v) # B" "below k A" "below k (entries c)" "above k B"
    | (missing) ks1 ks2 cs1 c cs2 s h A B where "x = Node (ks1 @ ks2) s h (cs1 @ c # cs2)" "get_lb k x = length ks1" "length cs1 = length ks1"
      "length cs2 = length ks2" "A = weave (map entries cs1) ks1" "B = weave ([] # map entries cs2) ks2"
      "entries x = A @ entries c @ B" "below k A" "above k B" "\<not> (length ks1 < nkeys x \<and> k = fst (nd_keys x ! length ks1))"
proof -
  let ?P = "\<lambda>p. fst p < k"
  obtain ks s h cs where x: "x = Node ks s h cs" by (cases x)
  have "cs \<noteq> []" "get_lb k x \<le> length ks" using assms(2) by (simp_all add: x is_leaf_def get_lb_def length_takeWhile_le)
  with internal_at [OF assms(1) [unfolded x]] obtain ks1 ks2 cs1 c cs2 where
    d: "ks = ks1 @ ks2" "cs = cs1 @ c # cs2" "length ks1 = get_lb k x" "length cs1 = get_lb k x" "length cs2 = length ks2" by metis
  have t: "ks1 = takeWhile ?P ks" "ks2 = dropWhile ?P ks"
    using d(1,3) takeWhile_dropWhile_id [of ?P ks] by (metis append_eq_append_conv get_lb_def node.sel(1) x)+
  let ?A = "weave (map entries cs1) ks1" and ?B = "weave ([] # map entries cs2) ks2"
  have e: "entries x = ?A @ entries c @ ?B" using d entries_at [of cs1 ks1 cs2 ks2] by (simp add: x)
  have s: "ksorted (?A @ entries c @ ?B)" using assms(3) unfolding e .
  have "below k ks1" unfolding t(1) by (auto dest: set_takeWhileD)
  with s d have A: "below k ?A" by (intro weave_below) simp_all
  have len: "get_lb k x = length ks1" "length cs1 = length ks1" using d by simp_all
  have x': "x = Node (ks1 @ ks2) s h (cs1 @ c # cs2)" by (simp add: x d)
  show thesis
  proof (cases ks2)
    case Nil
    then have "above k ?B" "\<not> (length ks1 < nkeys x \<and> k = fst (nd_keys x ! length ks1))" using d by (simp_all add: x nkeys_def)
    from missing [OF x' len d(5) refl refl e A this] show thesis .
  next
    case (Cons p ks3)
    with hd_dropWhile [of ?P ks] t(2) have le: "k \<le> fst p" by (metis list.distinct(1) list.sel(1) not_less)
    have B: "?B = p # weave (map entries cs2) ks3" using Cons by simp
    show thesis
    proof (cases "fst p = k")
      case True
      then have p: "p = (k, snd p)" by (metis prod.collapse)
      have x'': "x = Node (ks1 @ (k, snd p) # ks3) s h (cs1 @ c # cs2)" unfolding x' Cons using p by simp
      have l: "length cs2 = Suc (length ks3)" using d(5) Cons by simp
      have "entries x = ?A @ entries c @ (k, snd p) # weave (map entries cs2) ks3" using e B p by simp
      moreover have "below k (entries c)" "above k (weave (map entries cs2) ks3)" using s B True by auto
      ultimately show thesis using found [OF x'' len l refl refl _ A] by blast
    next
      case False
      then have "k < fst p" using le by simp
      with s B have "above k ?B" by (auto intro: less_trans)
      moreover have "\<not> (length ks1 < nkeys x \<and> k = fst (nd_keys x ! length ks1))" using False Cons by (simp add: x' nkeys_def nth_append)
      ultimately show thesis using missing [OF x' len d(5) refl refl e A] by blast
    qed
  qed
qed

lemma map_of_mid: "below k A \<Longrightarrow> above k B \<Longrightarrow> map_of (A @ xs @ B) k = map_of xs k"
  by (simp add: map_add_def map_of_below split: option.splits)

lemma entries_leaf: "is_leaf x \<Longrightarrow> entries x = nd_keys x"
  by (cases x) (simp add: is_leaf_def)

lemma leaf_cases:
  assumes "ksorted (nd_keys x)"
  obtains (found) A v B where "nd_keys x = A @ (k, v) # B" "get_lb k x = length A" "below k A" "above k B"
    | (missing) A B where "nd_keys x = A @ B" "get_lb k x = length A" "below k A" "above k B" "\<not> (length A < nkeys x \<and> k = fst (nd_keys x ! length A))"
proof -
  let ?P = "\<lambda>p. fst p < k" and ?ks = "nd_keys x"
  let ?A = "takeWhile ?P ?ks" and ?B = "dropWhile ?P ?ks"
  have x: "?ks = ?A @ ?B" "get_lb k x = length ?A" "below k ?A" by (auto simp: get_lb_def dest: set_takeWhileD)
  have s: "ksorted (?A @ ?B)" using assms by simp
  show thesis
  proof (cases ?B)
    case Nil
    then have "nkeys x = length ?A" using x(1) by (metis append_Nil2 nkeys_def)
    then have "\<not> (length ?A < nkeys x \<and> k = fst (nd_keys x ! length ?A))" by simp
    moreover have "above k ?B" unfolding Nil by simp
    ultimately show thesis using missing [OF x] by blast
  next
    case (Cons p B)
    then have le: "k \<le> fst p" using hd_dropWhile [of ?P ?ks] by (metis list.distinct(1) list.sel(1) not_less)
    have B: "above (fst p) B" using s Cons by simp
    have n: "?ks ! length ?A = p" using x(1) Cons by (metis nth_append_length)
    show thesis
    proof (cases "fst p = k")
      case True
      then show thesis using found [of ?A "snd p" B] x Cons B by (metis prod.collapse)
    next
      case False
      with le B Cons have "above k ?B" by (auto intro: le_less_trans)
      with missing [OF x] n False show thesis by metis
    qed
  qed
qed

section \<open>Search\<close>

lemma search_entries:
  "node_ok t x \<Longrightarrow> ksorted (entries x) \<Longrightarrow> nd_height x < int n \<Longrightarrow> search n k x = Some (map_of (entries x) k)"
proof (induction n arbitrary: x)
  case 0
  then show ?case using node_ok_height by force
next
  case (Suc n)
  show ?case
  proof (cases "is_leaf x")
    case True
    then have "ksorted (nd_keys x)" using Suc.prems(2) by (simp add: entries_leaf)
    then show ?thesis
      by (cases rule: leaf_cases [where k = k]) (use True in \<open>auto simp: Let_def entries_leaf nkeys_def map_add_def map_of_below\<close>)
  next
    case leaf: False
    from Suc.prems(1) leaf Suc.prems(2) show ?thesis
    proof (cases rule: lb_cases [where k = k])
      case (found ks1 v ks2 cs1 c cs2 s h A B)
      then show ?thesis by (simp add: Let_def nkeys_def map_add_def map_of_below)
    next
      case (missing ks1 ks2 cs1 c cs2 s h A B)
      have "nd_children x ! length ks1 = c" using missing(1,3) by (simp add: nth_append)
      then have "search (Suc n) k x = search n k c" using missing(10) leaf unfolding search.simps(2) Let_def missing(2) by auto
      moreover have "search n k c = Some (map_of (entries c) k)"
        using Suc.IH [of c] Suc.prems missing by simp
      ultimately show ?thesis using map_of_mid [of A k B "entries c"] missing by simp
    qed
  qed
qed

section \<open>Splitting a child\<close>

lemma shape_parts:
  assumes "shape t (ks1 @ m # ks2) h (cs1 @ cs2)" "joinable cs1 ks1 cs2"
  shows "shape t ks1 h cs1" "shape t ks2 h cs2"
  using assms by (auto simp: shape_def joinable_def split: if_splits)

lemma entries_parts: "joinable cs1 ks1 cs2 \<Longrightarrow> entries (Node (ks1 @ m # ks2) s h (cs1 @ cs2)) = entries (Node ks1 s1 h cs1) @ m # entries (Node ks2 s2 h cs2)"
  using weave_join [of "map entries cs1" ks1 "map entries cs2" m ks2] by (simp add: joinable_def split: if_splits)

lemma bulk_parts: "bulk (ks1 @ m # ks2) (cs1 @ cs2) = bulk ks1 cs1 + 1 + bulk ks2 cs2"
  by (simp add: bulk_def)

lemma split_child_parts:
  assumes "node_ok t c" "is_full t c" "t \<ge> 2" "length cs1 = length ks1"
  obtains m y z where "split_child t (length ks1) (Node (ks1 @ ks2) s h (cs1 @ c # cs2)) = Node (ks1 @ m # ks2) s h (cs1 @ y # z # cs2)"
    "entries c = entries y @ m # entries z" "node_ok t y" "node_ok t z" "nkeys y = t - 1" "nkeys z = t - 1"
    "nd_height y = nd_height c" "nd_height z = nd_height c" "nd_size c = nd_size y + 1 + nd_size z"
proof -
  obtain ks s' h' cs where c: "c = Node ks s' h' cs" by (cases c)
  define a m b p q where ab: "a = take (t - 1) ks" "m = ks ! (t - 1)" "b = drop t ks" "p = take t cs" "q = drop t cs"
  have l: "length ks = 2 * t - 1" using assms(2) by (simp add: c is_full_def nkeys_def)
  have k: "ks = a @ m # b" "cs = p @ q" using assms(3) l id_take_nth_drop [of "t - 1" ks] by (simp_all add: ab)
  have len: "length a = t - 1" "length b = t - 1" using l assms(3) by (simp_all add: ab)
  have ok: "s' = bulk a p + 1 + bulk b q" "shape t (a @ m # b) h' (p @ q)"
    using assms(1) unfolding c node_ok_iff k by (simp_all add: bulk_parts)
  have j: "joinable p a q" using ok(2) len assms(3) by (auto simp: joinable_def shape_def ab(4,5) split: if_splits)
  show thesis
  proof (rule that [of m "Node a (bulk a p) h' p" "Node b (bulk b q) h' q"])
    show "split_child t (length ks1) (Node (ks1 @ ks2) s h (cs1 @ c # cs2)) =
        Node (ks1 @ m # ks2) s h (cs1 @ Node a (bulk a p) h' p # Node b (bulk b q) h' q # cs2)"
      using assms(4) ok(1) by (simp add: split_child_def Let_def c nth_append ab bulk_def)
    show "entries c = entries (Node a (bulk a p) h' p) @ m # entries (Node b (bulk b q) h' q)"
      unfolding c k using entries_parts [OF j] by blast
    show "node_ok t (Node a (bulk a p) h' p)" "node_ok t (Node b (bulk b q) h' q)"
      using shape_parts [OF ok(2) j] by (simp_all only: node_ok_iff)
  qed (simp_all add: nkeys_def c len ok(1))
qed

section \<open>Insertion\<close>

text \<open>What the loops give back for a subtree.\<close>

definition edited :: "nat \<Rightarrow> 'k::linorder \<Rightarrow> ('k \<times> 'v) list \<Rightarrow> ('k, 'v) node \<Rightarrow> ('k, 'v) node \<Rightarrow> int \<Rightarrow> bool" where
  "edited t k new x x' d \<longleftrightarrow> node_ok t x' \<and> nd_height x' = nd_height x \<and> d = nd_size x' - nd_size x \<and> edits k new (entries x) (entries x')"

lemma shape_child:
  assumes "shape t ks h (cs1 @ c # cs2)" "node_ok t c'" "t \<le> Suc (nkeys c')" "nd_height c' = nd_height c"
  shows "shape t ks h (cs1 @ c' # cs2)"
  using assms by (auto simp: shape_def)

lemma descend_edited:
  assumes x: "x = Node (ks1 @ ks2) s h (cs1 @ c # cs2)" "node_ok t x" "length cs1 = length ks1" "length cs2 = length ks2"
    and c: "f c = Some (c', d)" "edited t k new c c' d" "t \<le> Suc (nkeys c')"
    and k: "below k (weave (map entries cs1) ks1)" "above k (weave ([] # map entries cs2) ks2)"
  shows "\<exists>x'. descend f (length ks1) x = Some (x', d) \<and> edited t k new x x' d \<and> nkeys x' = nkeys x"
proof -
  let ?x = "Node (ks1 @ ks2) (s + d) h (cs1 @ c' # cs2)"
  have "descend f (length ks1) x = Some (?x, d)" using x(3) c(1) by (simp add: x(1) descend_def nth_append list_update_append)
  moreover have "node_ok t ?x"
    using x(2) c(2,3) shape_child [of t "ks1 @ ks2" h cs1 c cs2 c'] unfolding x(1) node_ok_iff edited_def by (simp add: bulk_def)
  moreover have "edits k new (entries x) (entries ?x)"
    using c(2) k x(3,4) unfolding x(1) by (simp only: entries_at edited_def) (blast intro: edits_frame)
  ultimately show ?thesis by (auto simp: edited_def x(1) nkeys_def)
qed

lemma edited_from:
  "entries x1 = entries x \<Longrightarrow> nd_size x1 = nd_size x \<Longrightarrow> nd_height x1 = nd_height x \<Longrightarrow> edited t k new x1 x' d \<Longrightarrow> edited t k new x x' d"
  by (simp add: edited_def)

lemma set_value_edited:
  assumes x: "x = Node (ks1 @ (k, v0) # ks2) s h (cs1 @ cs2)" "node_ok t x" "joinable cs1 ks1 cs2"
    and k: "below k (weave (map entries cs1) ks1)" "above k (weave (map entries cs2) ks2)"
  shows "edited t k [(k, v)] x (set_value (length ks1) v x) 0" "nkeys (set_value (length ks1) v x) = nkeys x"
proof -
  let ?x = "Node (ks1 @ (k, v) # ks2) s h (cs1 @ cs2)"
  have sv: "set_value (length ks1) v x = ?x" by (simp add: x(1) set_value_def)
  have "entries y = weave (map entries cs1) ks1 @ (k, u) # weave (map entries cs2) ks2" if "y = Node (ks1 @ (k, u) # ks2) s h (cs1 @ cs2)" for y u
    using entries_parts [OF x(3), of "(k, u)" ks2 s h] by (simp add: that)
  from this [OF x(1)] this [OF refl, of v] have "edits k [(k, v)] (entries x) (entries ?x)"
    using edits_intro(2) [OF k, of "[(k, v)]" v0] by simp
  moreover have "node_ok t ?x" using x(2) node_ok_cong [of "ks1 @ (k, v0) # ks2" "ks1 @ (k, v) # ks2"] unfolding x(1) by (metis length_append length_Cons)
  ultimately show "edited t k [(k, v)] x (set_value (length ks1) v x) 0" unfolding sv edited_def by (simp add: x(1) del: node_ok.simps entries.simps)
  show "nkeys (set_value (length ks1) v x) = nkeys x" unfolding sv by (simp add: x(1) nkeys_def)
qed

lemma leaf_subscript:
  assumes "is_leaf x" "node_ok t x" "ksorted (entries x)" "\<not> is_full t x"
  shows "\<exists>x' d. subscript (Suc n) t k v x = Some (x', d) \<and> edited t k [(k, v)] x x' d \<and> nkeys x \<le> nkeys x'"
proof -
  obtain ks where x: "x = Node ks (int (length ks)) 0 []" using assms(1,2) by (cases x) (auto simp: is_leaf_def)
  have "ksorted (nd_keys x)" using assms(1,3) by (simp add: entries_leaf)
  then show ?thesis
  proof (cases rule: leaf_cases [where k = k])
    case (found A v0 B)
    have x': "x = Node (A @ (k, v0) # B) (int (length ks)) 0 ([] @ [])" using found(1) by (simp add: x)
    have "length A < nkeys x \<and> k = fst (nd_keys x ! length A)" unfolding nkeys_def found(1) by simp
    then have "subscript (Suc n) t k v x = Some (set_value (length A) v x, 0)" unfolding subscript.simps(2) Let_def found(2) by simp
    with set_value_edited [OF x' assms(2), of v] found(3,4) show ?thesis by (simp add: joinable_def)
  next
    case (missing A B)
    let ?x = "insert_leaf (length A) (k, v) x"
    have ks: "ks = A @ B" using missing(1) by (simp add: x)
    have "subscript (Suc n) t k v x = Some (?x, 1)" using missing(5) assms(1) unfolding subscript.simps(2) Let_def missing(2) by auto
    moreover have "?x = Node (A @ (k, v) # B) (int (length ks) + 1) 0 []" by (simp add: insert_leaf_def x ks)
    moreover have "edits k [(k, v)] (A @ B) (A @ [(k, v)] @ B)" using missing(3,4) by (rule edits_intro)
    ultimately show ?thesis using assms(4) assms(2) by (auto simp: edited_def x ks nkeys_def is_full_def)
  qed
qed

text \<open>Splitting a full child of a node that is not full changes neither the entries nor the size.\<close>

lemma split_child_ok:
  assumes "node_ok t x" "x = Node (ks1 @ ks2) s h (cs1 @ c # cs2)" "x1 = Node (ks1 @ m # ks2) s h (cs1 @ y # z # cs2)"
    "length cs1 = length ks1" "length cs2 = length ks2" "\<not> is_full t x" "2 \<le> t"
    "entries c = entries y @ m # entries z" "node_ok t y" "node_ok t z" "nkeys y = t - 1" "nkeys z = t - 1"
    "nd_height y = nd_height c" "nd_height z = nd_height c" "nd_size c = nd_size y + 1 + nd_size z"
  shows "node_ok t x1" "entries x1 = entries x"
proof -
  show "node_ok t x1" using assms by (auto simp: is_full_def nkeys_def)
  have "entries x1 = weave (map entries cs1) ks1 @ weave (entries y # entries z # map entries cs2) (m # ks2)"
    using assms(3,4) weave_append [of "map entries cs1" ks1] by simp
  also have "\<dots> = weave (map entries cs1) ks1 @ entries c @ weave ([] # map entries cs2) ks2" by (cases ks2) (simp_all add: assms(8))
  finally show "entries x1 = entries x" using assms(2,4,5) entries_at [of cs1 ks1 cs2 ks2 s h c] by simp
qed

text \<open>What the loop promises for a node that is not full.\<close>

definition puts :: "nat \<Rightarrow> 'k::linorder \<Rightarrow> 'v \<Rightarrow> (('k, 'v) node \<Rightarrow> (('k, 'v) node \<times> int) option) \<Rightarrow> ('k, 'v) node \<Rightarrow> bool" where
  "puts t k v f x \<longleftrightarrow> (\<exists>x' d. f x = Some (x', d) \<and> edited t k [(k, v)] x x' d \<and> nkeys x \<le> nkeys x')"

lemma descend_puts:
  assumes "x = Node (ks1 @ ks2) s h (cs1 @ c # cs2)" "node_ok t x" "length cs1 = length ks1" "length cs2 = length ks2"
    and "puts t k v f c" "t \<le> Suc (nkeys c)" "below k (weave (map entries cs1) ks1)" "above k (weave ([] # map entries cs2) ks2)"
  shows "puts t k v (descend f (length ks1)) x"
proof -
  from assms(5) obtain c' d where c': "f c = Some (c', d)" "edited t k [(k, v)] c c' d" "nkeys c \<le> nkeys c'" by (auto simp: puts_def)
  have "t \<le> Suc (nkeys c')" using c'(3) assms(6) by simp
  from descend_edited [where f = f, OF assms(1-4) c'(1,2) this assms(7,8)] show ?thesis by (auto simp: puts_def)
qed

text \<open>The case of a full child: it is split, and the loop stops at the key that moved up or goes on in one of the halves.\<close>

lemma split_puts:
  assumes x: "node_ok t x" "ksorted (entries x)" "\<not> is_full t x" "2 \<le> t"
    and d: "x = Node (ks1 @ ks2) s h (cs1 @ c # cs2)" "length cs1 = length ks1" "length cs2 = length ks2"
      "below k (weave (map entries cs1) ks1)" "above k (weave ([] # map entries cs2) ks2)"
    and c: "is_full t c" and IH: "\<And>c. node_ok t c \<Longrightarrow> ksorted (entries c) \<Longrightarrow> \<not> is_full t c \<Longrightarrow> nd_height c + 1 = h \<Longrightarrow> puts t k v f c"
  shows "puts t k v (\<lambda>x. let x' = split_child t (length ks1) x in
         if k = fst (nd_keys x' ! length ks1) then Some (set_value (length ks1) v x', 0)
         else if fst (nd_keys x' ! length ks1) < k then descend f (Suc (length ks1)) x' else descend f (length ks1) x') x"
    (is "puts t k v ?g x")
proof -
  let ?A = "weave (map entries cs1) ks1" and ?B = "weave ([] # map entries cs2) ks2"
  have ok: "node_ok t c" "nd_height c + 1 = h" using x(1) d(1) by simp_all
  from split_child_parts [OF ok(1) c x(4) d(2), of ks2 s h cs2] obtain m y z where
    sp: "split_child t (length ks1) (Node (ks1 @ ks2) s h (cs1 @ c # cs2)) = Node (ks1 @ m # ks2) s h (cs1 @ y # z # cs2)"
      "entries c = entries y @ m # entries z" "node_ok t y" "node_ok t z" "nkeys y = t - 1" "nkeys z = t - 1"
      "nd_height y = nd_height c" "nd_height z = nd_height c" "nd_size c = nd_size y + 1 + nd_size z" .
  define x1 where x1: "x1 = Node (ks1 @ m # ks2) s h (cs1 @ y # z # cs2)"
  note ok1 = split_child_ok [OF x(1) d(1) x1 d(2,3) x(3,4) sp(2-9)]
  have "ksorted (?A @ entries c @ ?B)" using x(2) d(2,3) entries_at [of cs1 ks1 cs2 ks2 s h c] by (simp add: d(1))
  then have srt: "ksorted (?A @ entries y @ m # entries z @ ?B)" using sp(2) by simp
  have nf: "\<not> is_full t y" "\<not> is_full t z" using x(4) sp(5,6) by (simp_all add: is_full_def)
  have halves: "puts t k v f y" "puts t k v f z" using IH sp(3,4,7,8) nf ok(2) srt by simp_all
  have fin: "puts t k v ?g x" if "puts t k v (\<lambda>_. r) x1" "?g x = r" for r
    using that edited_from [of x1 x t k "[(k, v)]"] ok1(2) by (auto simp: puts_def x1 d(1) nkeys_def)
  have gx: "?g x = (if k = fst m then Some (set_value (length ks1) v x1, 0) else if fst m < k then descend f (Suc (length ks1)) x1 else descend f (length ks1) x1)"
    using sp(1) by (simp add: d(1) x1 Let_def)
  have left: "weave (map entries (cs1 @ [y])) (ks1 @ [m]) = ?A @ entries y @ [m]" "weave (map entries (cs1 @ [y])) ks1 = ?A @ entries y"
    using weave_append [of "map entries cs1" ks1 "[entries y]" "[m]"] weave_append [of "map entries cs1" ks1 "[entries y]" "[]"] d(2) by simp_all
  have right: "weave ([] # map entries (z # cs2)) (m # ks2) = m # entries z @ ?B" "weave (map entries (z # cs2)) ks2 = entries z @ ?B"
    by (cases ks2; simp)+
  consider "k = fst m" | "fst m < k" | "k < fst m" by fastforce
  then show ?thesis
  proof cases
    case 1
    have eq: "x1 = Node (ks1 @ (k, snd m) # ks2) s h ((cs1 @ [y]) @ z # cs2)" using 1 by (simp add: x1)
    have "below k (?A @ entries y)" "above k (entries z @ ?B)" using srt 1 by auto
    with set_value_edited [OF eq ok1(1), of v] left(2) right(2) d(2) have "puts t k v (\<lambda>_. Some (set_value (length ks1) v x1, 0)) x1"
      by (simp add: joinable_def puts_def)
    with fin gx 1 show ?thesis by simp
  next
    case 2
    have eq: "x1 = Node ((ks1 @ [m]) @ ks2) s h ((cs1 @ [y]) @ z # cs2)" by (simp add: x1)
    have "below k (?A @ entries y @ [m])" using srt 2 by (auto intro: less_trans)
    with descend_puts [OF eq ok1(1) _ d(3) halves(2)] sp(6) d(2,5) left(1) have "puts t k v (descend f (Suc (length ks1))) x1" by simp
    with fin gx 2 show ?thesis by (auto simp: puts_def)
  next
    case 3
    have "above k (m # entries z @ ?B)" using srt 3 by (auto intro: less_trans)
    with descend_puts [OF x1 ok1(1) d(2) _ halves(1)] sp(5) d(3,4) right(1) have "puts t k v (descend f (length ks1)) x1" by simp
    with fin gx 3 show ?thesis by (auto simp: puts_def)
  qed
qed

lemma subscript_puts:
  "node_ok t x \<Longrightarrow> ksorted (entries x) \<Longrightarrow> \<not> is_full t x \<Longrightarrow> 2 \<le> t \<Longrightarrow> nd_height x < int n \<Longrightarrow> puts t k v (subscript n t k v) x"
proof (induction n arbitrary: x)
  case 0
  then show ?case using node_ok_height by force
next
  case (Suc n)
  show ?case
  proof (cases "is_leaf x")
    case True
    show ?thesis unfolding puts_def by (rule leaf_subscript [OF True Suc.prems(1-3)])
  next
    case leaf: False
    from Suc.prems(1) leaf Suc.prems(2) show ?thesis
    proof (cases rule: lb_cases [where k = k])
      case (found ks1 v0 ks2 cs1 c cs2 s h A B)
      have x: "x = Node (ks1 @ (k, v0) # ks2) s h ((cs1 @ [c]) @ cs2)" using found(1) by simp
      have "length ks1 < nkeys x \<and> k = fst (nd_keys x ! length ks1)" by (simp add: x nkeys_def)
      then have "subscript (Suc n) t k v x = Some (set_value (length ks1) v x, 0)" unfolding subscript.simps(2) Let_def found(2) by simp
      moreover have "weave (map entries (cs1 @ [c])) ks1 = A @ entries c"
        using weave_append [of "map entries cs1" ks1 "[entries c]" "[]"] found(3,5) by simp
      moreover have "below k (A @ entries c)" using found(8,9) by auto
      moreover have "joinable (cs1 @ [c]) ks1 cs2" using found(3) by (simp add: joinable_def)
      ultimately show ?thesis using set_value_edited [OF x Suc.prems(1), of v] found(6,10) by (simp only: puts_def) auto
    next
      case (missing ks1 ks2 cs1 c cs2 s h A B)
      have c: "nd_children x ! length ks1 = c" "node_ok t c" "nd_height c + 1 = h" "t \<le> Suc (nkeys c)"
        using missing(1,3) Suc.prems(1) by (simp_all add: nth_append)
      have IH: "puts t k v (subscript n t k v) c" if "node_ok t c" "ksorted (entries c)" "\<not> is_full t c" "nd_height c + 1 = h" for c
        using Suc.IH [OF that(1-3) Suc.prems(4)] that(4) Suc.prems(5) missing(1) by simp
      note step = subscript.simps(2) [of n t k v x] Let_def missing(2) c(1) if_not_P [OF missing(10)] if_not_P [OF leaf]
      show ?thesis
      proof (cases "is_full t c")
        case False
        have "ksorted (entries c)" using Suc.prems(2) unfolding missing(7) by simp
        with descend_puts [OF missing(1) Suc.prems(1) missing(3,4) IH [OF c(2) _ False c(3)] c(4)] missing(5,6,8,9)
        have "puts t k v (descend (subscript n t k v) (length ks1)) x" by simp
        then show ?thesis unfolding puts_def step using False by simp
      next
        case True
        note split_puts [where f = "subscript n t k v", OF Suc.prems(1-4) missing(1,3,4) missing(8,9) [unfolded missing(5,6)] True IH]
        then show ?thesis unfolding puts_def step if_P [OF True] .
      qed
    qed
  qed
qed

section \<open>Rotations and merges\<close>

lemma joinable_siblings:
  assumes "node_ok t (Node yk ys h yc)" "node_ok t (Node zk zs h zc)"
  shows "joinable yc yk zc" "yc = [] \<longleftrightarrow> zc = []"
  using assms node_ok_height [OF assms(1)] node_ok_height [OF assms(2)] by (auto simp: joinable_def)

lemma shape_join:
  assumes "shape t yk h yc" "shape t zk h zc" "yc = [] \<longleftrightarrow> zc = []" "Suc (length yk + length zk) < 2 * t"
  shows "shape t (yk @ m # zk) h (yc @ zc)"
  using assms by (auto simp: shape_def joinable_def split: if_splits)

lemma merge_child_parts:
  assumes "node_ok t y" "node_ok t z" "nd_height y = nd_height z" "Suc (nkeys y + nkeys z) < 2 * t" "length cs1 = length ks1"
  obtains w where "merge_child (length ks1) (Node (ks1 @ m # ks2) s h (cs1 @ y # z # cs2)) = Node (ks1 @ ks2) s h (cs1 @ w # cs2)"
    "entries w = entries y @ m # entries z" "node_ok t w" "nkeys w = Suc (nkeys y + nkeys z)" "nd_height w = nd_height y" "nd_size w = nd_size y + 1 + nd_size z"
proof -
  obtain yk ys hy yc where y: "y = Node yk ys hy yc" by (cases y)
  obtain zk zs zc where z: "z = Node zk zs hy zc" using assms(3) by (cases z) (simp add: y)
  have j: "joinable yc yk zc" using joinable_siblings(1) assms(1,2) unfolding y z by blast
  have e: "yc = [] \<longleftrightarrow> zc = []" using joinable_siblings(2) assms(1,2) unfolding y z by blast
  have ok: "ys = bulk yk yc" "zs = bulk zk zc" "shape t yk hy yc" "shape t zk hy zc" using assms(1,2) unfolding y z node_ok_iff by simp_all
  have "shape t (yk @ m # zk) hy (yc @ zc)" by (rule shape_join [OF ok(3,4) e]) (use assms(4) in \<open>simp add: y z nkeys_def\<close>)
  then have w: "node_ok t (Node (yk @ m # zk) (bulk (yk @ m # zk) (yc @ zc)) hy (yc @ zc))" unfolding node_ok_iff by simp
  show thesis
  proof (rule that [OF _ _ w])
    show "merge_child (length ks1) (Node (ks1 @ m # ks2) s h (cs1 @ y # z # cs2)) =
        Node (ks1 @ ks2) s h (cs1 @ Node (yk @ m # zk) (bulk (yk @ m # zk) (yc @ zc)) hy (yc @ zc) # cs2)"
      using assms(5) ok(1) by (simp add: merge_child_def Let_def y z nth_append bulk_def nkeys_def)
    show "entries (Node (yk @ m # zk) (bulk (yk @ m # zk) (yc @ zc)) hy (yc @ zc)) = entries y @ m # entries z"
      unfolding y z using entries_parts [OF j] by blast
  qed (simp_all add: y z nkeys_def ok(1,2) bulk_parts)
qed

lemma left_rotate_parts:
  assumes "node_ok t y" "node_ok t z" "nd_height y = nd_height z" "nkeys y < 2 * t - 1" "nkeys z > 0" "length cs1 = length ks1"
  obtains y' m' z' E where "left_rotate (length ks1) (Node (ks1 @ m # ks2) s h (cs1 @ y # z # cs2)) = Node (ks1 @ m' # ks2) s h (cs1 @ y' # z' # cs2)"
    "entries y' = entries y @ m # E" "entries z = E @ m' # entries z'" "node_ok t y'" "node_ok t z'" "nkeys y' = Suc (nkeys y)" "Suc (nkeys z') = nkeys z"
    "nd_height y' = nd_height y" "nd_height z' = nd_height y" "nd_size y' + nd_size z' = nd_size y + nd_size z"
proof -
  obtain yk ys hy yc where y: "y = Node yk ys hy yc" by (cases y)
  obtain zk zs zc where z: "z = Node zk zs hy zc" using assms(3) by (cases z) (simp add: y)
  from assms(5) obtain m' zk' where zk: "zk = m' # zk'" by (cases zk) (simp_all add: z nkeys_def)
  define o1 zc' where o: "o1 = take 1 zc" "zc' = drop 1 zc"
  have zc: "zc = o1 @ zc'" by (simp add: o)
  have ok: "ys = bulk yk yc" "zs = bulk [] o1 + 1 + bulk zk' zc'" "shape t yk hy yc" "shape t ([] @ m' # zk') hy (o1 @ zc')"
    using assms(1,2) unfolding y z node_ok_iff zk zc by (simp_all add: bulk_parts bulk_def)
  have j: "joinable yc yk (o1 @ zc')" using joinable_siblings(1) assms(1,2) unfolding y z zc by blast
  have "yc = [] \<longleftrightarrow> zc = []" using joinable_siblings(2) assms(1,2) unfolding y z by blast
  then have e: "yc = [] \<longleftrightarrow> o1 = []" by (simp add: o)
  have jz: "joinable o1 [] zc'" using ok(4) by (auto simp: joinable_def shape_def o split: if_splits)
  have jy: "joinable yc yk o1" using j jz by (auto simp: joinable_def split: if_splits)
  note sh = shape_parts [OF ok(4) jz]
  have y': "shape t (yk @ [m]) hy (yc @ o1)"
    by (rule shape_join [OF ok(3) sh(1) e]) (use assms(4) in \<open>simp add: y nkeys_def\<close>)
  let ?y = "Node (yk @ [m]) (bulk (yk @ [m]) (yc @ o1)) hy (yc @ o1)" and ?z = "Node zk' (bulk zk' zc') hy zc'"
  show thesis
  proof (rule that [of m' ?y ?z "entries (Node [] 0 hy o1)"])
    show "left_rotate (length ks1) (Node (ks1 @ m # ks2) s h (cs1 @ y # z # cs2)) = Node (ks1 @ m' # ks2) s h (cs1 @ ?y # ?z # cs2)"
      using assms(6) ok(1,2) by (simp add: left_rotate_def Let_def y z zk nth_append list_update_append bulk_def o [symmetric] del: One_nat_def)
    show "entries ?y = entries y @ m # entries (Node [] 0 hy o1)" unfolding y using entries_parts [OF jy, of m "[]"] by simp
    show "entries z = entries (Node [] 0 hy o1) @ m' # entries ?z" unfolding z zk zc using entries_parts [OF jz, of m' zk'] by simp
    show "node_ok t ?y" "node_ok t ?z" using y' sh(2) unfolding node_ok_iff by simp_all
  qed (simp_all add: y z zk nkeys_def ok bulk_def)
qed

lemma right_rotate_parts:
  assumes "node_ok t y" "node_ok t z" "nd_height y = nd_height z" "nkeys z < 2 * t - 1" "nkeys y > 0" "length cs1 = length ks1"
  obtains y' m' z' E where "right_rotate (Suc (length ks1)) (Node (ks1 @ m # ks2) s h (cs1 @ y # z # cs2)) = Node (ks1 @ m' # ks2) s h (cs1 @ y' # z' # cs2)"
    "entries y = entries y' @ m' # E" "entries z' = E @ m # entries z" "node_ok t y'" "node_ok t z'" "Suc (nkeys y') = nkeys y" "nkeys z' = Suc (nkeys z)"
    "nd_height y' = nd_height y" "nd_height z' = nd_height y" "nd_size y' + nd_size z' = nd_size y + nd_size z"
proof -
  obtain yk ys hy yc where y: "y = Node yk ys hy yc" by (cases y)
  obtain zk zs zc where z: "z = Node zk zs hy zc" using assms(3) by (cases z) (simp add: y)
  from assms(5) obtain m' yk' where yk: "yk = yk' @ [m']" by (cases yk rule: rev_cases) (simp_all add: y nkeys_def)
  define o1 yc' where o: "o1 = drop (length yc - 1) yc" "yc' = take (length yc - 1) yc"
  have yc: "yc = yc' @ o1" by (simp add: o)
  have ok: "ys = bulk yk' yc' + 1 + bulk [] o1" "zs = bulk zk zc" "shape t (yk' @ m' # []) hy (yc' @ o1)" "shape t zk hy zc"
    using assms(1,2) unfolding y z node_ok_iff yk yc by (simp_all add: bulk_parts bulk_def)
  have j: "joinable (yc' @ o1) yk zc" using joinable_siblings(1) assms(1,2) unfolding y z yc by blast
  have "yc = [] \<longleftrightarrow> zc = []" using joinable_siblings(2) assms(1,2) unfolding y z by blast
  then have e: "o1 = [] \<longleftrightarrow> zc = []" by (cases yc) (simp_all add: o)
  have jy: "joinable yc' yk' o1" using ok(3) by (auto simp: joinable_def shape_def o split: if_splits)
  have jz: "joinable o1 [] zc" using j jy ok(3) by (auto simp: joinable_def shape_def yk split: if_splits)
  note sh = shape_parts [OF ok(3) jy]
  have z': "shape t ([] @ m # zk) hy (o1 @ zc)"
    by (rule shape_join [OF sh(2) ok(4) e]) (use assms(4) in \<open>simp add: z nkeys_def\<close>)
  let ?y = "Node yk' (bulk yk' yc') hy yc'" and ?z = "Node (m # zk) (bulk (m # zk) (o1 @ zc)) hy (o1 @ zc)"
  show thesis
  proof (rule that [of m' ?y ?z "entries (Node [] 0 hy o1)"])
    show "right_rotate (Suc (length ks1)) (Node (ks1 @ m # ks2) s h (cs1 @ y # z # cs2)) = Node (ks1 @ m' # ks2) s h (cs1 @ ?y # ?z # cs2)"
      using assms(6) ok(1,2) by (simp add: right_rotate_def Let_def y z yk nth_append list_update_append bulk_def o [symmetric] del: One_nat_def)
    show "entries y = entries ?y @ m' # entries (Node [] 0 hy o1)" unfolding y yk yc using entries_parts [OF jy, of m' "[]"] by simp
    show "entries ?z = entries (Node [] 0 hy o1) @ m # entries z" unfolding z using entries_parts [OF jz, of m zk] by simp
    show "node_ok t ?y" "node_ok t ?z" using z' sh(1) unfolding node_ok_iff by simp_all
  qed (simp_all add: y z yk nkeys_def ok bulk_def)
qed

section \<open>The predecessor and the successor\<close>

lemma node_ok_nonempty: "node_ok t x \<Longrightarrow> 2 \<le> t \<Longrightarrow> t \<le> Suc (nkeys x) \<Longrightarrow> nd_keys x \<noteq> []"
  by (auto simp: nkeys_def)

definition same_shape :: "nat \<Rightarrow> ('k, 'v) node \<Rightarrow> ('k, 'v) node \<Rightarrow> bool" where
  "same_shape t x y \<longleftrightarrow> node_ok t y \<and> nkeys y = nkeys x \<and> nd_height y = nd_height x \<and> nd_size y = nd_size x"

lemma node_ok_replace:
  assumes "node_ok t (Node ks s h (cs1 @ c # cs2))" "same_shape t c c'"
  shows "node_ok t (Node ks s h (cs1 @ c' # cs2))"
  using assms shape_child [of t ks h cs1 c cs2 c'] unfolding node_ok_iff same_shape_def by (auto simp: bulk_def shape_def)

lemma rightmost_parts:
  assumes "2 \<le> t" "node_ok t x" "nd_keys x \<noteq> []"
  shows "entries x \<noteq> [] \<and> rightmost x = last (entries x) \<and> entries (put_rightmost p x) = butlast (entries x) @ [p] \<and> same_shape t x (put_rightmost p x)"
  using assms(2,3)
proof (induction x)
  case (Node ks s h cs)
  show ?case
  proof (cases cs rule: rev_cases)
    case Nil
    with Node.prems show ?thesis by (auto simp: same_shape_def nkeys_def)
  next
    case (snoc cs0 c)
    have c: "node_ok t c" "nd_keys c \<noteq> []" "length cs0 = length ks"
      using Node.prems snoc node_ok_nonempty [OF _ assms(1), of c] by auto
    from Node.IH [of c] c snoc have IH: "entries c \<noteq> []" "rightmost c = last (entries c)" "entries (put_rightmost p c) = butlast (entries c) @ [p]"
      "same_shape t c (put_rightmost p c)" by auto
    have e: "entries (Node ks s h (cs0 @ [y])) = weave (map entries cs0) ks @ entries y" for y
      using weave_append [of "map entries cs0" ks "[entries y]" "[]"] c(3) by simp
    have pr: "put_rightmost p (Node ks s h cs) = Node ks s h (cs0 @ [put_rightmost p c])" "rightmost (Node ks s h cs) = rightmost c" using snoc by simp_all
    have "node_ok t (Node ks s h (cs0 @ [put_rightmost p c]))" using node_ok_replace [of t ks s h cs0 c "[]"] Node.prems(1) IH(4) snoc by blast
    then show ?thesis unfolding pr using e [of c] e [of "put_rightmost p c"] IH snoc
      by (simp add: butlast_append same_shape_def nkeys_def del: node_ok.simps entries.simps)
  qed
qed

lemma leftmost_parts:
  assumes "2 \<le> t" "node_ok t x" "nd_keys x \<noteq> []"
  shows "entries x \<noteq> [] \<and> leftmost x = hd (entries x) \<and> entries (put_leftmost p x) = p # tl (entries x) \<and> same_shape t x (put_leftmost p x)"
  using assms(2,3)
proof (induction x)
  case (Node ks s h cs)
  show ?case
  proof (cases cs)
    case Nil
    with Node.prems show ?thesis by (auto simp: same_shape_def nkeys_def)
  next
    case (Cons c cs0)
    have c: "node_ok t c" "nd_keys c \<noteq> []" using Node.prems Cons node_ok_nonempty [OF _ assms(1), of c] by auto
    from Node.IH [of c] c Cons have IH: "entries c \<noteq> []" "leftmost c = hd (entries c)" "entries (put_leftmost p c) = p # tl (entries c)"
      "same_shape t c (put_leftmost p c)" by auto
    have e: "entries (Node ks s h (y # cs0)) = entries y @ weave ([] # map entries cs0) ks" for y
      by (cases ks) simp_all
    have pr: "put_leftmost p (Node ks s h cs) = Node ks s h (put_leftmost p c # cs0)" "leftmost (Node ks s h cs) = leftmost c" using Cons by simp_all
    have "node_ok t (Node ks s h (put_leftmost p c # cs0))" using node_ok_replace [of t ks s h "[]" c cs0, unfolded append_Nil] Node.prems(1) IH(4) unfolding Cons by blast
    then show ?thesis unfolding pr using e [of c] e [of "put_leftmost p c"] IH Cons
      by (simp add: same_shape_def nkeys_def del: node_ok.simps entries.simps)
  qed
qed

section \<open>Deletion\<close>

lemma edits_remove: "below k A \<Longrightarrow> above k B \<Longrightarrow> edits k [] (A @ (k, v) # B) ys \<Longrightarrow> ys = A @ B"
proof -
  assume AB: "below k A" "above k B" and "edits k [] (A @ (k, v) # B) ys"
  then obtain A' old B' where e: "A @ (k, v) # B = A' @ old @ B'" "ys = A' @ B'" "below k A'" "above k B'" "old = [] \<or> (\<exists>u. old = [(k, u)])"
    by (auto simp: edits_def)
  have part: "filter (\<lambda>p. fst p < k) (C @ m @ D) = C" "filter (\<lambda>p. k < fst p) (C @ m @ D) = D"
    if "below k C" "above k D" "m = [] \<or> (\<exists>u. m = [(k, u)])" for C m D :: "('a \<times> 'b) list"
    using that by (auto simp: filter_id_conv filter_empty_conv)
  have "A = A'" "B = B'" using part [of A B "[(k, v)]"] part [of A' B' old] AB e by auto
  then show ?thesis using e(2) by simp
qed

text \<open>What the loop promises for a node: at most one key less in the node itself.\<close>

definition erases :: "nat \<Rightarrow> 'k::linorder \<Rightarrow> (('k, 'v) node \<Rightarrow> (('k, 'v) node \<times> int) option) \<Rightarrow> ('k, 'v) node \<Rightarrow> bool" where
  "erases t k f x \<longleftrightarrow> (\<exists>x' d. f x = Some (x', d) \<and> edited t k [] x x' d \<and> nkeys x \<le> Suc (nkeys x'))"

text \<open>The loop goes on in a child with at least \<open>t\<close> keys, after a change of \<open>x\<close> to \<open>x1\<close> that kept the entries.\<close>

lemma descend_erases:
  assumes "x1 = Node (ks1 @ ks2) s h (cs1 @ c # cs2)" "node_ok t x1" "length cs1 = length ks1" "length cs2 = length ks2"
    and "erases t k f c" "t \<le> nkeys c" "below k (weave (map entries cs1) ks1)" "above k (weave ([] # map entries cs2) ks2)"
    and x: "entries x1 = entries x" "nd_size x = s" "nd_height x = h" "nkeys x \<le> Suc (nkeys x1)"
  shows "erases t k (\<lambda>_. descend f (length ks1) x1) x"
proof -
  from assms(5) obtain c' d where c': "f c = Some (c', d)" "edited t k [] c c' d" "nkeys c \<le> Suc (nkeys c')" by (auto simp: erases_def)
  have "t \<le> Suc (nkeys c')" using c'(3) assms(6) by simp
  from descend_edited [where f = f, OF assms(1-4) c'(1,2) this assms(7,8)] obtain x' where
    "descend f (length ks1) x1 = Some (x', d)" "edited t k [] x1 x' d" "nkeys x' = nkeys x1" by blast
  with edited_from [of x1 x t k "[]" x' d] x assms(1) show ?thesis by (auto simp: erases_def)
qed

text \<open>The key was swapped into a child, and the loop goes on there.\<close>

lemma swap_erases:
  assumes x: "x = Node ks s h cs" "entries x = A @ (k, v) # B" "below k A" "above k B"
    and x1: "x1 = Node (ks1 @ ks2) s h (cs1 @ c1 # cs2)" "length (ks1 @ ks2) = length ks" "node_ok t x1" "length cs1 = length ks1" "length cs2 = length ks2"
    and c1: "erases t k f c1" "t \<le> nkeys c1" "entries c1 = C @ (k, v) # D" "below k C" "above k D"
    and e: "weave (map entries cs1) ks1 @ (C @ D) @ weave ([] # map entries cs2) ks2 = A @ B"
  shows "erases t k (\<lambda>_. descend f (length ks1) x1) x"
proof -
  from c1(1) obtain c' d where c': "f c1 = Some (c', d)" "edited t k [] c1 c' d" "nkeys c1 \<le> Suc (nkeys c')" by (auto simp: erases_def)
  have ec: "entries c' = C @ D" using edits_remove [OF c1(4,5), of v] c'(2) c1(3) by (simp add: edited_def)
  let ?x = "Node (ks1 @ ks2) (s + d) h (cs1 @ c' # cs2)"
  have "descend f (length ks1) x1 = Some (?x, d)" using x1(4) c'(1) by (simp add: x1(1) descend_def nth_append list_update_append)
  moreover have "node_ok t ?x"
    using x1(3) c'(2,3) c1(2) shape_child [of t "ks1 @ ks2" h cs1 c1 cs2 c'] unfolding x1(1) node_ok_iff edited_def by (simp add: bulk_def)
  moreover have "entries ?x = A @ B" using x1(4,5) e ec entries_at [of cs1 ks1 cs2 ks2 "s + d" h c'] by simp
  moreover have "edits k [] (A @ (k, v) # B) (A @ B)" using edits_intro(2) [OF x(3,4), of "[]" v] by simp
  ultimately show ?thesis using x(1,2) x1(2) by (auto simp: erases_def edited_def nkeys_def simp del: node_ok.simps entries.simps)
qed

lemma leaf_erases:
  assumes "is_leaf x" "node_ok t x" "ksorted (entries x)"
  shows "erases t k (erase_lb (Suc n) t k) x"
proof -
  obtain ks where x: "x = Node ks (int (length ks)) 0 []" using assms(1,2) by (cases x) (auto simp: is_leaf_def)
  have "ksorted (nd_keys x)" using assms(1,3) by (simp add: entries_leaf)
  then show ?thesis
  proof (cases rule: leaf_cases [where k = k])
    case (found A v B)
    have ks: "ks = A @ (k, v) # B" using found(1) by (simp add: x)
    have "length A < nkeys x \<and> k = fst (nd_keys x ! length A)" unfolding nkeys_def found(1) by simp
    then have "erase_lb (Suc n) t k x = Some (erase_leaf (length A) x, - 1)" using assms(1) unfolding erase_lb.simps(2) Let_def found(2) by simp
    moreover have "erase_leaf (length A) x = Node (A @ B) (int (length (A @ B))) 0 []" by (simp add: erase_leaf_def x ks)
    moreover have "edits k [] (A @ (k, v) # B) (A @ B)" using edits_intro(2) [OF found(3,4), of "[]" v] by simp
    ultimately show ?thesis using assms(2) by (auto simp: erases_def edited_def x ks nkeys_def)
  next
    case (missing A B)
    have ks: "ks = A @ B" using missing(1) by (simp add: x)
    have "erase_lb (Suc n) t k x = Some (x, 0)" using missing(5) assms(1) unfolding erase_lb.simps(2) Let_def missing(2) by auto
    moreover have "edits k [] (A @ B) (A @ B)" using edits_intro(1) [OF missing(3,4), of "[]"] by simp
    ultimately show ?thesis using assms(2) by (auto simp: erases_def edited_def x ks)
  qed
qed

text \<open>The entries around two neighbours.\<close>

lemma entries_pair:
  assumes "length cs1 = length ks1" "length cs2 = length ks2"
  shows "entries (Node (ks1 @ m # ks2) s h (cs1 @ y # z # cs2)) =
      weave (map entries cs1) ks1 @ (entries y @ m # entries z) @ weave ([] # map entries cs2) ks2"
    "weave (map entries (cs1 @ [y])) (ks1 @ [m]) = weave (map entries cs1) ks1 @ entries y @ [m]"
    "weave ([] # map entries (z # cs2)) (m # ks2) = m # entries z @ weave ([] # map entries cs2) ks2"
proof -
  have z: "weave (entries z # map entries cs2) ks2 = entries z @ weave ([] # map entries cs2) ks2" by (cases ks2) simp_all
  then show "weave ([] # map entries (z # cs2)) (m # ks2) = m # entries z @ weave ([] # map entries cs2) ks2" by simp
  with entries_at [of cs1 ks1 "z # cs2" "m # ks2" s h y] assms show "entries (Node (ks1 @ m # ks2) s h (cs1 @ y # z # cs2)) =
      weave (map entries cs1) ks1 @ (entries y @ m # entries z) @ weave ([] # map entries cs2) ks2" by simp
  show "weave (map entries (cs1 @ [y])) (ks1 @ [m]) = weave (map entries cs1) ks1 @ entries y @ [m]"
    using weave_append [of "map entries cs1" ks1 "[entries y]" "[m]"] assms(1) by simp
qed

text \<open>Swap with the predecessor, in the left neighbour of the key, and with the successor, in its right neighbour.\<close>

lemma pred_erases:
  assumes x: "x = Node (ks1 @ (k, v) # ks2) s h (cs1 @ y # z # cs2)" "node_ok t x" "length cs1 = length ks1" "length cs2 = length ks2" "2 \<le> t"
    and srt: "ksorted (entries x)" and take: "can_take_key t y"
    and IH: "\<And>c. node_ok t c \<Longrightarrow> ksorted (entries c) \<Longrightarrow> t \<le> nkeys c \<Longrightarrow> nd_height c + 1 = h \<Longrightarrow> erases t k f c"
  shows "erases t k (\<lambda>_. descend f (length ks1) (swap_pred (length ks1) x)) x"
proof -
  let ?p = "rightmost y" and ?c = "put_rightmost (k, v) y"
  note e = entries_pair [OF x(3,4)]
  have ok: "node_ok t y" "nd_height y + 1 = h" "t \<le> nkeys y" "nd_keys y \<noteq> []" using x(1,2,5) take by (auto simp: can_take_key_def nkeys_def)
  from rightmost_parts [OF x(5) ok(1,4), of "(k, v)"] have
    r: "entries y \<noteq> []" "?p = last (entries y)" "entries ?c = butlast (entries y) @ [(k, v)]" "same_shape t y ?c" by blast+
  have y: "butlast (entries y) @ [?p] = entries y" using r(1,2) by simp
  have srt': "ksorted (weave (map entries cs1) ks1 @ (butlast (entries y) @ [?p]) @ (k, v) # entries z @ weave ([] # map entries cs2) ks2)"
    using srt unfolding x(1) e(1) y by simp
  have c: "ksorted (entries ?c)" unfolding r(3) using srt' by simp
  have sh: "node_ok t ?c" "nkeys ?c = nkeys y" "nd_height ?c = nd_height y" using r(4) by (simp_all add: same_shape_def)
  then have er: "erases t k f ?c" using IH [of ?c] c ok(2,3) by simp
  have "length (ks1 @ (k, v) # ks2) = length (ks1 @ ?p # ks2)" by simp
  then have okx: "node_ok t (Node (ks1 @ ?p # ks2) s h (cs1 @ ?c # z # cs2))"
    using node_ok_replace [OF _ r(4)] x(1,2) node_ok_cong by metis
  have x1: "swap_pred (length ks1) x = Node (ks1 @ ?p # ks2) s h (cs1 @ ?c # z # cs2)"
    using x(3) by (simp add: swap_pred_def Let_def x(1) nth_append list_update_append)
  show ?thesis unfolding x1
  proof (rule swap_erases [OF x(1) _ _ _ refl _ okx x(3) _ er])
    show "entries x = (weave (map entries cs1) ks1 @ entries y) @ (k, v) # (entries z @ weave ([] # map entries cs2) ks2)"
      unfolding x(1) e(1) by simp
    show "entries ?c = butlast (entries y) @ (k, v) # []" using r(3) .
    show "weave (map entries cs1) ks1 @ (butlast (entries y) @ []) @ weave ([] # map entries (z # cs2)) (?p # ks2) =
        (weave (map entries cs1) ks1 @ entries y) @ entries z @ weave ([] # map entries cs2) ks2"
      unfolding e(3) using y by (metis append.assoc append.right_neutral append_Cons append_Nil)
  qed (use srt' y sh(2) ok(3) x(4) in \<open>auto simp del: append_butlast_last_id dest!: in_set_butlastD\<close>)
qed

lemma succ_erases:
  assumes x: "x = Node (ks1 @ (k, v) # ks2) s h (cs1 @ y # z # cs2)" "node_ok t x" "length cs1 = length ks1" "length cs2 = length ks2" "2 \<le> t"
    and srt: "ksorted (entries x)" and take: "can_take_key t z"
    and IH: "\<And>c. node_ok t c \<Longrightarrow> ksorted (entries c) \<Longrightarrow> t \<le> nkeys c \<Longrightarrow> nd_height c + 1 = h \<Longrightarrow> erases t k f c"
  shows "erases t k (\<lambda>_. descend f (Suc (length ks1)) (swap_succ (length ks1) x)) x"
proof -
  let ?p = "leftmost z" and ?c = "put_leftmost (k, v) z"
  note e = entries_pair [OF x(3,4)]
  have ok: "node_ok t z" "nd_height z + 1 = h" "t \<le> nkeys z" "nd_keys z \<noteq> []" using x(1,2,5) take by (auto simp: can_take_key_def nkeys_def)
  from leftmost_parts [OF x(5) ok(1,4), of "(k, v)"] have
    r: "entries z \<noteq> []" "?p = hd (entries z)" "entries ?c = (k, v) # tl (entries z)" "same_shape t z ?c" by blast+
  have z: "?p # tl (entries z) = entries z" using r(1,2) by simp
  have srt': "ksorted (weave (map entries cs1) ks1 @ entries y @ (k, v) # (?p # tl (entries z)) @ weave ([] # map entries cs2) ks2)"
    using srt unfolding x(1) e(1) z by simp
  have c: "ksorted (entries ?c)" unfolding r(3) using srt' by simp
  have sh: "node_ok t ?c" "nkeys ?c = nkeys z" "nd_height ?c = nd_height z" using r(4) by (simp_all add: same_shape_def)
  then have er: "erases t k f ?c" using IH [of ?c] c ok(2,3) by simp
  have "length (ks1 @ (k, v) # ks2) = length ((ks1 @ [?p]) @ ks2)" by simp
  then have okx: "node_ok t (Node ((ks1 @ [?p]) @ ks2) s h ((cs1 @ [y]) @ ?c # cs2))"
    using node_ok_replace [of t _ s h "cs1 @ [y]" z cs2, OF _ r(4)] x(1,2) node_ok_cong by (metis append.assoc append_Cons append_Nil)
  have x1: "swap_succ (length ks1) x = Node ((ks1 @ [?p]) @ ks2) s h ((cs1 @ [y]) @ ?c # cs2)"
    using x(3) by (simp add: swap_succ_def Let_def x(1) nth_append list_update_append)
  have "erases t k (\<lambda>_. descend f (length (ks1 @ [?p])) (Node ((ks1 @ [?p]) @ ks2) s h ((cs1 @ [y]) @ ?c # cs2))) x"
  proof (rule swap_erases [OF x(1) _ _ _ refl _ okx _ x(4) er])
    show "entries x = (weave (map entries cs1) ks1 @ entries y) @ (k, v) # (entries z @ weave ([] # map entries cs2) ks2)"
      unfolding x(1) e(1) by simp
    show "entries ?c = [] @ (k, v) # tl (entries z)" using r(3) by simp
    show "weave (map entries (cs1 @ [y])) (ks1 @ [?p]) @ ([] @ tl (entries z)) @ weave ([] # map entries cs2) ks2 =
        (weave (map entries cs1) ks1 @ entries y) @ entries z @ weave ([] # map entries cs2) ks2"
      unfolding e(2) using z by (metis append.assoc append_Cons append_Nil)
  qed (use srt' z sh(2) ok(3) x(3) r(1) in \<open>auto simp del: list.collapse dest!: list.set_sel(2)\<close>)
  then show ?thesis by (simp add: x1)
qed

text \<open>Two minimal neighbours are merged; a minimal child takes a key from its right or from its left neighbour.\<close>

lemma merge_erases:
  assumes x: "x = Node (ks1 @ m # ks2) s h (cs1 @ y # z # cs2)" "node_ok t x" "length cs1 = length ks1" "length cs2 = length ks2" "2 \<le> t"
    and srt: "ksorted (entries x)" and n: "nkeys y = t - 1" "nkeys z = t - 1"
    and k: "below k (weave (map entries cs1) ks1)" "above k (weave ([] # map entries cs2) ks2)"
    and IH: "\<And>c. node_ok t c \<Longrightarrow> ksorted (entries c) \<Longrightarrow> t \<le> nkeys c \<Longrightarrow> nd_height c + 1 = h \<Longrightarrow> erases t k f c"
  shows "erases t k (\<lambda>_. descend f (length ks1) (merge_child (length ks1) x)) x"
proof -
  have ok: "node_ok t y" "node_ok t z" "nd_height y = nd_height z" "nd_height y + 1 = h" using x(1,2) by auto
  have fits: "Suc (nkeys y + nkeys z) < 2 * t" using x(5) n by simp
  from merge_child_parts [OF ok(1-3) fits x(3), of m ks2 s h cs2] obtain w where
    w: "merge_child (length ks1) (Node (ks1 @ m # ks2) s h (cs1 @ y # z # cs2)) = Node (ks1 @ ks2) s h (cs1 @ w # cs2)"
      "entries w = entries y @ m # entries z" "node_ok t w" "nkeys w = Suc (nkeys y + nkeys z)" "nd_height w = nd_height y" "nd_size w = nd_size y + 1 + nd_size z" .
  note e = entries_pair(1) [OF x(3,4), of m s h y z]
  have "ksorted (entries w)" using srt unfolding x(1) e w(2) by simp
  with IH [of w] w(3-5) ok(4) n x(5) have er: "erases t k f w" "t \<le> nkeys w" by simp_all
  have okx: "node_ok t (Node (ks1 @ ks2) s h (cs1 @ w # cs2))"
    using x(1,2) w(3-6) n x(5) by auto
  have "entries (Node (ks1 @ ks2) s h (cs1 @ w # cs2)) = entries x"
    unfolding x(1) e using entries_at [OF x(3,4), of s h w] w(2) by simp
  from descend_erases [OF refl okx x(3,4) er k this] x(1) w(1) show ?thesis by (simp add: nkeys_def)
qed

lemma rotated_ok:
  assumes "node_ok t (Node (ks1 @ m # ks2) s h (cs1 @ y # z # cs2))" "node_ok t y'" "node_ok t z'" "t \<le> Suc (nkeys y')" "t \<le> Suc (nkeys z')"
    "nd_height y' = nd_height y" "nd_height z' = nd_height y" "nd_size y' + nd_size z' = nd_size y + nd_size z"
  shows "node_ok t (Node (ks1 @ m' # ks2) s h (cs1 @ y' # z' # cs2))"
  using assms by auto

lemma left_erases:
  assumes x: "x = Node (ks1 @ m # ks2) s h (cs1 @ y # z # cs2)" "node_ok t x" "length cs1 = length ks1" "length cs2 = length ks2" "2 \<le> t"
    and srt: "ksorted (entries x)" and n: "nkeys y = t - 1" "can_take_key t z"
    and k: "below k (weave (map entries cs1) ks1)" "above k (m # entries z @ weave ([] # map entries cs2) ks2)"
    and IH: "\<And>c. node_ok t c \<Longrightarrow> ksorted (entries c) \<Longrightarrow> t \<le> nkeys c \<Longrightarrow> nd_height c + 1 = h \<Longrightarrow> erases t k f c"
  shows "erases t k (\<lambda>_. descend f (length ks1) (left_rotate (length ks1) x)) x"
proof -
  have ok: "node_ok t y" "node_ok t z" "nd_height y = nd_height z" "nd_height y + 1 = h" using x(1,2) by auto
  have fits: "nkeys y < 2 * t - 1" "nkeys z > 0" using x(5) n by (auto simp: can_take_key_def)
  from left_rotate_parts [OF ok(1-3) fits x(3), of m ks2 s h cs2] obtain y' m' z' E where
    w: "left_rotate (length ks1) (Node (ks1 @ m # ks2) s h (cs1 @ y # z # cs2)) = Node (ks1 @ m' # ks2) s h (cs1 @ y' # z' # cs2)"
      "entries y' = entries y @ m # E" "entries z = E @ m' # entries z'" "node_ok t y'" "node_ok t z'" "nkeys y' = Suc (nkeys y)" "Suc (nkeys z') = nkeys z"
      "nd_height y' = nd_height y" "nd_height z' = nd_height y" "nd_size y' + nd_size z' = nd_size y + nd_size z" .
  note e = entries_pair [OF x(3,4)]
  have "ksorted (entries y')" using srt unfolding x(1) e(1) w(2,3) by simp
  with IH [of y'] w(4,6,8) ok(4) n x(5) have er: "erases t k f y'" "t \<le> nkeys y'" by simp_all
  have okx: "node_ok t (Node (ks1 @ m' # ks2) s h (cs1 @ y' # z' # cs2))"
    using x(2) unfolding x(1) by (rule rotated_ok) (use w n er(2) in \<open>simp_all add: can_take_key_def\<close>)
  have ent: "entries (Node (ks1 @ m' # ks2) s h (cs1 @ y' # z' # cs2)) = entries x"
    unfolding x(1) e(1) w(2,3) by simp
  have above: "above k (weave ([] # map entries (z' # cs2)) (m' # ks2))" using k(2) unfolding e(3) w(3) by simp
  from descend_erases [OF refl okx x(3) _ er k(1) above ent] x(1,4) w(1) show ?thesis by (simp add: nkeys_def)
qed

lemma right_erases:
  assumes x: "x = Node (ks1 @ m # ks2) s h (cs1 @ y # z # cs2)" "node_ok t x" "length cs1 = length ks1" "length cs2 = length ks2" "2 \<le> t"
    and srt: "ksorted (entries x)" and n: "nkeys z = t - 1" "can_take_key t y"
    and k: "below k (weave (map entries cs1) ks1 @ entries y @ [m])" "above k (weave ([] # map entries cs2) ks2)"
    and IH: "\<And>c. node_ok t c \<Longrightarrow> ksorted (entries c) \<Longrightarrow> t \<le> nkeys c \<Longrightarrow> nd_height c + 1 = h \<Longrightarrow> erases t k f c"
  shows "erases t k (\<lambda>_. descend f (Suc (length ks1)) (right_rotate (Suc (length ks1)) x)) x"
proof -
  have ok: "node_ok t y" "node_ok t z" "nd_height y = nd_height z" "nd_height y + 1 = h" using x(1,2) by auto
  have fits: "nkeys z < 2 * t - 1" "nkeys y > 0" using x(5) n by (auto simp: can_take_key_def)
  from right_rotate_parts [OF ok(1-3) fits x(3), of m ks2 s h cs2] obtain y' m' z' E where
    w: "right_rotate (Suc (length ks1)) (Node (ks1 @ m # ks2) s h (cs1 @ y # z # cs2)) = Node (ks1 @ m' # ks2) s h (cs1 @ y' # z' # cs2)"
      "entries y = entries y' @ m' # E" "entries z' = E @ m # entries z" "node_ok t y'" "node_ok t z'" "Suc (nkeys y') = nkeys y" "nkeys z' = Suc (nkeys z)"
      "nd_height y' = nd_height y" "nd_height z' = nd_height y" "nd_size y' + nd_size z' = nd_size y + nd_size z" .
  note e = entries_pair [OF x(3,4)]
  have "ksorted (entries z')" using srt unfolding x(1) e(1) w(2,3) by simp
  with IH [of z'] w(5,7,9) ok(4) n x(5) have er: "erases t k f z'" "t \<le> nkeys z'" by simp_all
  have eq: "Node (ks1 @ m' # ks2) s h (cs1 @ y' # z' # cs2) = Node ((ks1 @ [m']) @ ks2) s h ((cs1 @ [y']) @ z' # cs2)" by simp
  have okx: "node_ok t (Node (ks1 @ m' # ks2) s h (cs1 @ y' # z' # cs2))"
    using x(2) unfolding x(1) by (rule rotated_ok) (use w n er(2) in \<open>simp_all add: can_take_key_def\<close>)
  have ent: "entries (Node (ks1 @ m' # ks2) s h (cs1 @ y' # z' # cs2)) = entries x"
    unfolding x(1) e(1) w(2,3) by simp
  have low: "below k (weave (map entries (cs1 @ [y'])) (ks1 @ [m']))" using k(1) unfolding e(2) w(2) by auto
  have "erases t k (\<lambda>_. descend f (length (ks1 @ [m'])) (Node (ks1 @ m' # ks2) s h (cs1 @ y' # z' # cs2))) x"
    by (rule descend_erases [OF eq okx _ x(4) er low k(2) ent]) (use x(1,3) in \<open>simp_all add: nkeys_def\<close>)
  then show ?thesis using w(1) by (simp add: x(1))
qed

text \<open>The key is not in the inner node \<open>x\<close>: the child that can hold it gets a key more when it is minimal.\<close>

lemma missing_erases:
  assumes x: "x = Node (ks1 @ ks2) s h (cs1 @ c # cs2)" "node_ok t x" "length cs1 = length ks1" "length cs2 = length ks2" "2 \<le> t" "nd_keys x \<noteq> []"
    and srt: "ksorted (entries x)" and k: "below k (weave (map entries cs1) ks1)" "above k (weave ([] # map entries cs2) ks2)"
    and IH: "\<And>c. node_ok t c \<Longrightarrow> ksorted (entries c) \<Longrightarrow> t \<le> nkeys c \<Longrightarrow> nd_height c + 1 = h \<Longrightarrow> erases t k f c"
  shows "erases t k (\<lambda>x. let i = length ks1; go = descend f in
      if has_minimal_keys t (nd_children x ! i) then
        (if Suc i < length (nd_children x) \<and> can_take_key t (nd_children x ! Suc i) then go i (left_rotate i x)
         else if 1 \<le> i \<and> can_take_key t (nd_children x ! (i - 1)) then go i (right_rotate i x)
         else if Suc i < length (nd_children x) then go i (merge_child i x)
         else if 1 \<le> i then go (i - 1) (merge_child (i - 1) x)
         else go i x)
      else go i x) x" (is "erases t k ?g x")
proof -
  have c: "nd_children x ! length ks1 = c" "node_ok t c" "t \<le> Suc (nkeys c)" "nd_height c + 1 = h" using x(1-3) by (auto simp: nth_append)
  have er: "erases t k ?g x" if "erases t k (\<lambda>_. r) x" "?g x = r" for r using that by (simp add: erases_def)
  have ent: "entries x = weave (map entries cs1) ks1 @ entries c @ weave ([] # map entries cs2) ks2" unfolding x(1) by (rule entries_at [OF x(3,4)])
  show ?thesis
  proof (cases "has_minimal_keys t c")
    case False
    then have "t \<le> nkeys c" using c(3) by (auto simp: has_minimal_keys_def)
    moreover have "ksorted (entries c)" using srt unfolding ent by simp
    ultimately have "erases t k (\<lambda>_. descend f (length ks1) x) x"
      using IH [of c] c(2,4) by (intro descend_erases [OF x(1-4) _ _ k]) (simp_all add: x(1))
    then show ?thesis by (rule er) (simp add: Let_def c(1) False)
  next
    case True
    then have n: "nkeys c = t - 1" by (simp add: has_minimal_keys_def)
    have right: "\<exists>m ks3 z cs3. ks2 = m # ks3 \<and> cs2 = z # cs3 \<and> nd_children x ! Suc (length ks1) = z \<and> length cs3 = length ks3 \<and> t \<le> Suc (nkeys z)"
      if "Suc (length ks1) < length (nd_children x)"
      using that x(1-4) by (cases ks2; cases cs2) (auto simp: nth_append)
    have left: "\<exists>m ks0 y cs0. ks1 = ks0 @ [m] \<and> cs1 = cs0 @ [y] \<and> nd_children x ! (length ks1 - 1) = y \<and> length cs0 = length ks0 \<and> t \<le> Suc (nkeys y)"
      if "1 \<le> length ks1"
      using that x(1-4) by (cases ks1 rule: rev_cases; cases cs1 rule: rev_cases) (auto simp: nth_append)
    consider (L) "Suc (length ks1) < length (nd_children x)" "can_take_key t (nd_children x ! Suc (length ks1))"
      | (R) "\<not> (Suc (length ks1) < length (nd_children x) \<and> can_take_key t (nd_children x ! Suc (length ks1)))" "1 \<le> length ks1"
          "can_take_key t (nd_children x ! (length ks1 - 1))"
      | (MergeR) "Suc (length ks1) < length (nd_children x)" "\<not> can_take_key t (nd_children x ! Suc (length ks1))"
          "\<not> (1 \<le> length ks1 \<and> can_take_key t (nd_children x ! (length ks1 - 1)))"
      | (MergeL) "\<not> Suc (length ks1) < length (nd_children x)" "1 \<le> length ks1" "\<not> can_take_key t (nd_children x ! (length ks1 - 1))"
      using x(1,4,6) by (cases ks1; cases ks2) auto
    then show ?thesis
    proof cases
      case L
      from right [OF L(1)] obtain m ks3 z cs3 where z: "ks2 = m # ks3" "cs2 = z # cs3" "nd_children x ! Suc (length ks1) = z" "length cs3 = length ks3" by blast
      have x': "x = Node (ks1 @ m # ks3) s h (cs1 @ c # z # cs3)" by (simp add: x(1) z)
      have "above k (m # entries z @ weave ([] # map entries cs3) ks3)" using k(2) entries_pair(3) [OF x(3) z(4)] by (simp add: z)
      from left_erases [where f = f, OF x' x(2,3) z(4) x(5) srt n L(2) [unfolded z(3)] k(1) this IH]
      have "erases t k (\<lambda>_. descend f (length ks1) (left_rotate (length ks1) x)) x" .
      then show ?thesis by (rule er) (use L True in \<open>simp add: Let_def c(1)\<close>)
    next
      case R
      from left [OF R(2)] obtain m ks0 y cs0 where y: "ks1 = ks0 @ [m]" "cs1 = cs0 @ [y]" "nd_children x ! (length ks1 - 1) = y" "length cs0 = length ks0" by blast
      have x': "x = Node (ks0 @ m # ks2) s h (cs0 @ y # c # cs2)" by (simp add: x(1) y)
      have "below k (weave (map entries cs0) ks0 @ entries y @ [m])" using k(1) entries_pair(2) [OF y(4) x(4)] by (simp add: y)
      note right_erases [where f = f, OF x' x(2) y(4) x(4,5) srt n R(3) [unfolded y(3)] this k(2) IH]
      moreover have "Suc (length ks0) = length ks1" by (simp add: y(1))
      ultimately have "erases t k (\<lambda>_. descend f (length ks1) (right_rotate (length ks1) x)) x" by (simp only:)
      then show ?thesis by (rule er) (use R True in \<open>auto simp: Let_def c(1)\<close>)
    next
      case MergeR
      from right [OF MergeR(1)] obtain m ks3 z cs3 where z: "ks2 = m # ks3" "cs2 = z # cs3" "nd_children x ! Suc (length ks1) = z" "length cs3 = length ks3" "t \<le> Suc (nkeys z)" by blast
      have x': "x = Node (ks1 @ m # ks3) s h (cs1 @ c # z # cs3)" by (simp add: x(1) z)
      have nz: "nkeys z = t - 1" using MergeR(2) z(3,5) by (simp add: can_take_key_def)
      have "above k (weave ([] # map entries cs3) ks3)" using k(2) entries_pair(3) [OF x(3) z(4)] by (simp add: z)
      from merge_erases [where f = f, OF x' x(2,3) z(4) x(5) srt n nz k(1) this IH]
      have "erases t k (\<lambda>_. descend f (length ks1) (merge_child (length ks1) x)) x" .
      then show ?thesis by (rule er) (use MergeR True in \<open>auto simp: Let_def c(1)\<close>)
    next
      case MergeL
      from left [OF MergeL(2)] obtain m ks0 y cs0 where y: "ks1 = ks0 @ [m]" "cs1 = cs0 @ [y]" "nd_children x ! (length ks1 - 1) = y" "length cs0 = length ks0" "t \<le> Suc (nkeys y)" by blast
      have x': "x = Node (ks0 @ m # ks2) s h (cs0 @ y # c # cs2)" by (simp add: x(1) y)
      have ny: "nkeys y = t - 1" using MergeL(3) y(3,5) by (simp add: can_take_key_def)
      have "below k (weave (map entries cs0) ks0)" using k(1) entries_pair(2) [OF y(4) x(4)] by (simp add: y)
      note merge_erases [where f = f, OF x' x(2) y(4) x(4,5) srt ny n this k(2) IH]
      moreover have "length ks0 = length ks1 - 1" by (simp add: y(1))
      ultimately have "erases t k (\<lambda>_. descend f (length ks1 - 1) (merge_child (length ks1 - 1) x)) x" by (simp only:)
      then show ?thesis by (rule er) (use MergeL True in \<open>simp add: Let_def c(1)\<close>)
    qed
  qed
qed

lemma erase_lb_erases:
  fixes x :: "('k::linorder, 'v) node"
  shows "node_ok t x \<Longrightarrow> ksorted (entries x) \<Longrightarrow> is_leaf x \<or> nd_keys x \<noteq> [] \<Longrightarrow> 2 \<le> t \<Longrightarrow> nd_height x < int n \<Longrightarrow> erases t k (erase_lb n t k) x"
proof (induction n arbitrary: x)
  case 0
  then show ?case using node_ok_height by force
next
  case (Suc n)
  have IH: "erases t k (erase_lb n t k) c" if "node_ok t c" "ksorted (entries c)" "t \<le> nkeys c" "nd_height c + 1 = nd_height x" for c :: "('k, 'v) node"
  proof -
    have "is_leaf c \<or> nd_keys c \<noteq> []" using that(3) Suc.prems(4) by (auto simp: nkeys_def)
    from Suc.IH [OF that(1,2) this Suc.prems(4)] that(4) Suc.prems(5) show ?thesis by simp
  qed
  show ?case
  proof (cases "is_leaf x")
    case True
    show ?thesis by (rule leaf_erases [OF True Suc.prems(1,2)])
  next
    case leaf: False
    from Suc.prems(1) leaf Suc.prems(2) show ?thesis
    proof (cases rule: lb_cases [where k = k])
      case (found ks1 v ks2 cs1 y cs2 s h A B)
      then obtain z cs3 where cs2: "cs2 = z # cs3" "length cs3 = length ks2" by (cases cs2) auto
      have x: "x = Node (ks1 @ (k, v) # ks2) s h (cs1 @ y # z # cs3)" using found(1) cs2 by simp
      have i: "length ks1 < nkeys x \<and> k = fst (nd_keys x ! length ks1)" by (simp add: x nkeys_def)
      have ch: "nd_children x ! length ks1 = y" "nd_children x ! Suc (length ks1) = z" using found(3) by (simp_all add: x nth_append)
      have ok: "t \<le> Suc (nkeys y)" "t \<le> Suc (nkeys z)" using Suc.prems(1) by (simp_all add: x)
      note IH' = IH [unfolded x node.sel(3)]
      note pre = x Suc.prems(1) found(3) cs2(2) Suc.prems(4,2)
      have AB: "below k (weave (map entries cs1) ks1)" "above k (weave ([] # map entries cs3) ks2)"
        using found(5,6,8,10) cs2 by (cases ks2; auto)+
      note step = erases_def erase_lb.simps(2) [of n t k x] Let_def found(2) if_P [OF i] if_not_P [OF leaf] ch
      show ?thesis
      proof (cases "can_take_key t y")
        case True
        note pred_erases [where f = "erase_lb n t k", OF pre True IH']
        then show ?thesis unfolding step if_P [OF True] .
      next
        case y: False
        show ?thesis
        proof (cases "can_take_key t z")
          case True
          note succ_erases [where f = "erase_lb n t k", OF pre True IH']
          then show ?thesis unfolding step if_not_P [OF y] if_P [OF True] .
        next
          case z: False
          have "nkeys y = t - 1" "nkeys z = t - 1" using y z ok by (simp_all add: can_take_key_def)
          note merge_erases [where f = "erase_lb n t k", OF pre this AB IH']
          then show ?thesis unfolding step if_not_P [OF y] if_not_P [OF z] .
        qed
      qed
    next
      case (missing ks1 ks2 cs1 c cs2 s h A B)
      have ne: "nd_keys x \<noteq> []" using Suc.prems(3) leaf by simp
      note IH' = IH [unfolded missing(1) node.sel(3)]
      note missing_erases [where f = "erase_lb n t k", OF missing(1) Suc.prems(1) missing(3,4) Suc.prems(4) ne Suc.prems(2) missing(8,9) [unfolded missing(5,6)] IH']
      then show ?thesis unfolding erases_def erase_lb.simps(2) [of n t k x] Let_def missing(2) if_not_P [OF missing(10)] if_not_P [OF leaf] .
    qed
  qed
qed

section \<open>The tree as a map\<close>

text \<open>A tree that is well formed: its nodes are, its keys increase strictly, and an inner root has a key.\<close>

definition btree_ok :: "nat \<Rightarrow> ('k::linorder, 'v) node \<Rightarrow> bool" where
  "btree_ok t x \<longleftrightarrow> node_ok t x \<and> ksorted (entries x) \<and> (is_leaf x \<or> nd_keys x \<noteq> [])"

definition contents :: "('k, 'v) node \<Rightarrow> 'k \<Rightarrow> 'v option" where
  "contents x = map_of (entries x)"

lemma make_node_ok: "2 \<le> t \<Longrightarrow> btree_ok t make_node" "contents make_node = Map.empty"
  by (simp_all add: btree_ok_def make_node_def is_leaf_def contents_def)

lemma btree_find_ok: "btree_ok t x \<Longrightarrow> btree_find k x = Some (contents x k)"
  unfolding btree_find_def contents_def btree_ok_def levels_def by (rule search_entries) auto

lemma grow_root_ok:
  fixes x :: "('k::linorder, 'v) node"
  assumes "btree_ok t x" "2 \<le> t"
  shows "btree_ok t (grow_root t x) \<and> entries (grow_root t x) = entries x \<and> \<not> is_full t (grow_root t x)"
proof (cases "is_full t x")
  case True
  have ok: "node_ok t x" using assms(1) by (simp add: btree_ok_def)
  have nil: "length ([] :: ('k, 'v) node list) = length ([] :: ('k \<times> 'v) list)" by simp
  let ?r = "Node [] (nd_size x) (nd_height x + 1) [x]"
  have r: "node_ok t ?r" "\<not> is_full t ?r" "?r = Node ([] @ []) (nd_size x) (nd_height x + 1) ([] @ x # [])" "entries ?r = entries x"
    using True ok assms(2) by (simp_all add: is_full_def nkeys_def)
  from split_child_parts [OF ok True assms(2) nil, of "[]" "nd_size x" "nd_height x + 1" "[]", unfolded append_Nil append_Nil2 list.size] obtain m y z where
    sp: "split_child t 0 ?r = Node [m] (nd_size x) (nd_height x + 1) [y, z]" "entries x = entries y @ m # entries z" "node_ok t y" "node_ok t z"
      "nkeys y = t - 1" "nkeys z = t - 1" "nd_height y = nd_height x" "nd_height z = nd_height x" "nd_size x = nd_size y + 1 + nd_size z" by blast
  let ?g = "Node [m] (nd_size x) (nd_height x + 1) [y, z]"
  have g: "grow_root t x = ?g" using sp(1) True by (simp add: grow_root_def)
  have "?g = Node ([] @ m # []) (nd_size x) (nd_height x + 1) ([] @ y # z # [])" by simp
  from split_child_ok [OF r(1,3) this nil nil r(2) assms(2) sp(2-9)] have "node_ok t ?g" "entries ?g = entries x" using r(4) by simp_all
  then show ?thesis unfolding g using assms by (auto simp: btree_ok_def is_full_def nkeys_def simp del: node_ok.simps entries.simps)
next
  case False
  with assms(1) show ?thesis by (simp add: grow_root_def)
qed

lemma btree_put_ok:
  assumes "btree_ok t x" "2 \<le> t"
  shows "\<exists>x'. btree_put t k v x = Some x' \<and> btree_ok t x' \<and> contents x' = (contents x)(k \<mapsto> v)"
proof -
  let ?g = "grow_root t x"
  have g: "node_ok t ?g" "ksorted (entries ?g)" "is_leaf ?g \<or> nd_keys ?g \<noteq> []" "entries ?g = entries x" "\<not> is_full t ?g"
    using grow_root_ok [OF assms] by (auto simp: btree_ok_def)
  have "puts t k v (subscript (levels ?g) t k v) ?g"
    by (rule subscript_puts [OF g(1,2,5) assms(2)]) (simp add: levels_def)
  then obtain x' d where x': "subscript (levels ?g) t k v ?g = Some (x', d)" "edited t k [(k, v)] ?g x' d" "nkeys ?g \<le> nkeys x'"
    by (auto simp: puts_def)
  then have e: "edits k [(k, v)] (entries x) (entries x')" "node_ok t x'" "nd_height x' = nd_height ?g" using g(4) by (simp_all add: edited_def)
  have "ksorted (entries x')" using edits_sorted [OF e(1)] g(2,4) by simp
  moreover have "is_leaf x' \<or> nd_keys x' \<noteq> []"
    using g(1,3) x'(3) e(2,3) node_ok_height [of t x'] node_ok_height [of t ?g] by (auto simp: is_leaf_def nkeys_def)
  moreover have "contents x' = (contents x)(k \<mapsto> v)" using edits_map [OF e(1)] by (simp add: contents_def)
  ultimately show ?thesis using x'(1) e(2) by (auto simp: btree_put_def Let_def btree_ok_def)
qed

lemma promote_ok:
  assumes "node_ok t x" "ksorted (entries x)" "2 \<le> t"
  shows "btree_ok t (promote_root_if_necessary x) \<and> entries (promote_root_if_necessary x) = entries x"
proof (cases "nd_keys x = [] \<and> nd_children x \<noteq> []")
  case True
  with assms(1) obtain s h c where x: "x = Node [] s h [c]" by (cases x; cases "nd_children x") auto
  have "node_ok t c" "nd_keys c \<noteq> []" using assms(1,3) by (auto simp: x nkeys_def)
  then show ?thesis using assms(2) by (simp add: promote_root_if_necessary_def btree_ok_def x)
next
  case False
  then show ?thesis using assms by (auto simp: promote_root_if_necessary_def btree_ok_def is_leaf_def)
qed

lemma edits_count:
  assumes "edits k [] xs ys"
  shows "int (length xs) - int (length ys) = (if map_of xs k = None then 0 else 1)"
proof -
  from assms obtain A old B where e: "xs = A @ old @ B" "ys = A @ B" "below k A" "above k B" "old = [] \<or> (\<exists>v. old = [(k, v)])"
    by (auto simp: edits_def)
  then show ?thesis using map_of_mid [OF e(3,4), of old] by auto
qed

lemma btree_erase_ok:
  assumes "btree_ok t x" "2 \<le> t"
  shows "\<exists>x'. btree_erase t k x = Some (x', if contents x k = None then 0 else 1) \<and> btree_ok t x' \<and> contents x' = (contents x)(k := None)"
proof -
  have x: "node_ok t x" "ksorted (entries x)" "is_leaf x \<or> nd_keys x \<noteq> []" using assms(1) by (auto simp: btree_ok_def)
  have "erases t k (erase_lb (levels x) t k) x" by (rule erase_lb_erases [OF x assms(2)]) (simp add: levels_def)
  then obtain x' d where x': "erase_lb (levels x) t k x = Some (x', d)" "edited t k [] x x' d" by (auto simp: erases_def)
  then have e: "edits k [] (entries x) (entries x')" "node_ok t x'" "d = nd_size x' - nd_size x" by (simp_all add: edited_def)
  have "ksorted (entries x')" using edits_sorted [OF e(1)] x(2) by simp
  from promote_ok [OF e(2) this assms(2)] have p: "btree_ok t (promote_root_if_necessary x')" "entries (promote_root_if_necessary x') = entries x'" by blast+
  have "- d = (if contents x k = None then 0 else 1)"
    using edits_count [OF e(1)] e(3) node_ok_size [OF x(1)] node_ok_size [OF e(2)] by (simp add: contents_def)
  moreover have "contents (promote_root_if_necessary x') = (contents x)(k := None)" using edits_map [OF e(1)] p(2) by (simp add: contents_def)
  ultimately show ?thesis using x'(1) p(1) by (auto simp: btree_erase_def)
qed

section \<open>The assertions of the code\<close>

lemma ksorted_keys: "ksorted (weave cs ks) \<Longrightarrow> ksorted ks \<and> (\<forall>c \<in> set cs. ksorted c)"
  by (induction cs ks rule: weave.induct) (auto simp: set_weave)

lemma keys_in_entries: "set (nd_keys x) \<subseteq> set (entries x)"
  by (cases x) (simp add: set_weave)

text \<open>A key is between the keys of the children beside it.\<close>

lemma key_between:
  assumes "node_ok t (Node ks s h cs)" "cs \<noteq> []" "ksorted (entries (Node ks s h cs))" "i < length ks"
  shows "below (fst (ks ! i)) (entries (cs ! i)) \<and> above (fst (ks ! i)) (entries (cs ! Suc i))"
proof -
  from internal_at [OF assms(1,2)] assms(4) obtain ks1 ks2 cs1 c cs2 where
    d: "ks = ks1 @ ks2" "cs = cs1 @ c # cs2" "length ks1 = i" "length cs1 = i" "length cs2 = length ks2" by (metis less_imp_le)
  from assms(4) d obtain m ks3 z cs3 where e: "ks2 = m # ks3" "cs2 = z # cs3" by (cases ks2; cases cs2) auto
  have "ksorted (weave (map entries cs1) ks1 @ (entries c @ m # entries z) @ weave ([] # map entries cs3) ks3)"
    using assms(3) entries_pair(1) [of cs1 ks1 cs3 ks3 m s h c z] d e by simp
  moreover have "ks ! i = m" "cs ! i = c" "cs ! Suc i = z" using d e by (simp_all add: nth_append)
  ultimately show ?thesis by simp
qed

lemma node_verify:
  "node_ok t x \<Longrightarrow> ksorted (entries x) \<Longrightarrow> 2 \<le> t \<Longrightarrow> noParent \<or> t \<le> Suc (nkeys x) \<Longrightarrow> verify t noParent x"
proof (induction x arbitrary: noParent)
  case (Node ks s h cs)
  have srt: "ksorted ks" "\<forall>c \<in> set cs. ksorted (entries c)" using Node.prems(2) ksorted_keys [of "map entries cs" ks] by simp_all
  have "sorted (map fst ks)" using srt(1) strict_sorted_imp_sorted by (auto simp: ksorted_def)
  moreover have "list_all (verify t False) cs"
    unfolding list_all_iff using Node.IH [OF _ _ _ Node.prems(3), of _ False] Node.prems(1) srt(2) by simp
  moreover have "list_all (\<lambda>i. \<not> fst (ks ! i) < fst (nd_keys (cs ! i) ! (nkeys (cs ! i) - 1)) \<and> \<not> fst (nd_keys (cs ! (i + 1)) ! 0) < fst (ks ! i)) [0..<length ks]"
    if "cs \<noteq> []"
  proof -
    have "\<not> fst (ks ! i) < fst (nd_keys (cs ! i) ! (nkeys (cs ! i) - 1)) \<and> \<not> fst (nd_keys (cs ! (i + 1)) ! 0) < fst (ks ! i)" if i: "i < length ks" for i
    proof -
      have len: "length cs = Suc (length ks)" using Node.prems(1) \<open>cs \<noteq> []\<close> by simp
      then have "cs ! i \<in> set cs" "cs ! Suc i \<in> set cs" using i by simp_all
      then have "nd_keys (cs ! i) \<noteq> []" "nd_keys (cs ! Suc i) \<noteq> []" using Node.prems(1,3) node_ok_nonempty by auto
      then have "nd_keys (cs ! i) ! (nkeys (cs ! i) - 1) \<in> set (entries (cs ! i))" "nd_keys (cs ! Suc i) ! 0 \<in> set (entries (cs ! Suc i))"
        using keys_in_entries [of "cs ! i"] keys_in_entries [of "cs ! Suc i"] by (auto simp: nkeys_def in_mono)
      with key_between [OF Node.prems(1) \<open>cs \<noteq> []\<close> Node.prems(2) i] show ?thesis by (simp add: not_less less_imp_le)
    qed
    then show ?thesis by (simp add: list_all_iff)
  qed
  ultimately show ?case using Node.prems(1,3,4) by (auto simp: list_all_iff nkeys_def)
qed

lemma btree_verify: "btree_ok t x \<Longrightarrow> 2 \<le> t \<Longrightarrow> verify t True x"
  using node_verify [of t x True] by (simp add: btree_ok_def)

section \<open>Rotations by several keys\<close>

text \<open>\<open>left_rotate_n\<close> and \<open>right_rotate_n\<close>, which only \<open>try_merge\<close> and so only \<open>join\<close> and \<open>split\<close> use: \<open>n\<close> keys come to
  \<open>children[i]\<close> from its right or from its left sibling.\<close>

definition left_rotate_n :: "nat \<Rightarrow> nat \<Rightarrow> ('k, 'v) node \<Rightarrow> ('k, 'v) node" where
  "left_rotate_n n i x =
     (if n = 1 then left_rotate i x
      else let y = nd_children x ! i; z = nd_children x ! Suc i;
               orphans = take n (nd_children z); moved = int n + sum_list (map nd_size orphans);
               y' = Node (nd_keys y @ nd_keys x ! i # take (n - 1) (nd_keys z)) (nd_size y + moved) (nd_height y) (nd_children y @ orphans);
               z' = Node (drop n (nd_keys z)) (nd_size z - moved) (nd_height z) (drop n (nd_children z))
           in Node ((nd_keys x)[i := nd_keys z ! (n - 1)]) (nd_size x) (nd_height x) ((nd_children x)[i := y', Suc i := z']))"

definition right_rotate_n :: "nat \<Rightarrow> nat \<Rightarrow> ('k, 'v) node \<Rightarrow> ('k, 'v) node" where
  "right_rotate_n n i x =
     (if n = 1 then right_rotate i x
      else let y = nd_children x ! i; z = nd_children x ! (i - 1);
               orphans = drop (length (nd_children z) - n) (nd_children z); moved = int n + sum_list (map nd_size orphans);
               brought = take (n - 1) (drop (nkeys z - n) (nd_keys z));
               y' = Node (brought @ nd_keys x ! (i - 1) # nd_keys y) (nd_size y + moved) (nd_height y) (orphans @ nd_children y);
               z' = Node (take (nkeys z - n) (nd_keys z)) (nd_size z - moved) (nd_height z) (take (length (nd_children z) - n) (nd_children z))
           in Node ((nd_keys x)[i - 1 := nd_keys z ! (nkeys z - 1)]) (nd_size x) (nd_height x) ((nd_children x)[i := y', i - 1 := z']))"

lemma left_rotate_n_entries:
  assumes "node_ok t y" "node_ok t z" "nd_height y = nd_height z" "1 < n" "n < nkeys z" "length cs1 = length ks1" "length cs2 = length ks2"
  shows "entries (left_rotate_n n (length ks1) (Node (ks1 @ m # ks2) s h (cs1 @ y # z # cs2))) = entries (Node (ks1 @ m # ks2) s h (cs1 @ y # z # cs2))"
proof -
  obtain yk ys hy yc where y: "y = Node yk ys hy yc" by (cases y)
  obtain zk zs zc where z: "z = Node zk zs hy zc" using assms(3) by (cases z) (simp add: y)
  define a m' b p q where ab: "a = take (n - 1) zk" "m' = zk ! (n - 1)" "b = drop n zk" "p = take n zc" "q = drop n zc"
  have zk: "zk = a @ m' # b" "zc = p @ q" using assms(4,5) id_take_nth_drop [of "n - 1" zk] by (simp_all add: ab z nkeys_def)
  have j: "joinable yc yk zc" using joinable_siblings(1) assms(1,2) unfolding y z by blast
  then have jy: "joinable yc yk p" by (auto simp: joinable_def ab split: if_splits)
  have jz: "joinable p a q" using assms(2,4,5) by (auto simp: z joinable_def ab nkeys_def)
  have ey: "entries (Node (yk @ m # a) s1 hy (yc @ p)) = entries y @ m # entries (Node a s2 hy p)" for s1 s2
    unfolding y using entries_parts [OF jy] by simp
  have ez: "entries z = entries (Node a s1 hy p) @ m' # entries (Node b s2 hy q)" for s1 s2
    unfolding z zk using entries_parts [OF jz] by simp
  let ?y = "\<lambda>s. Node (yk @ m # a) s hy (yc @ p)" and ?z = "\<lambda>s. Node b s hy q"
  have "\<exists>s1 s2. left_rotate_n n (length ks1) (Node (ks1 @ m # ks2) s h (cs1 @ y # z # cs2)) = Node (ks1 @ m' # ks2) s h (cs1 @ ?y s1 # ?z s2 # cs2)"
    using assms(4,6) by (auto simp: left_rotate_n_def Let_def y z ab nth_append list_update_append)
  then obtain s1 s2 where "left_rotate_n n (length ks1) (Node (ks1 @ m # ks2) s h (cs1 @ y # z # cs2)) = Node (ks1 @ m' # ks2) s h (cs1 @ ?y s1 # ?z s2 # cs2)"
    by blast
  then show ?thesis using entries_pair(1) [OF assms(6,7)] ey [of s1 0] ez [of 0 s2] by (simp del: entries.simps)
qed

text \<open>A node of three keys more than its neighbour, at fan-out 3: \<open>right_rotate_n\<close> moves the key 4 past the key 5.\<close>

definition before_rotation :: "(nat, unit) node" where
  "before_rotation = Node [(10, ())] 6 1 [Node [(1, ()), (2, ()), (3, ()), (4, ()), (5, ())] 5 0 [], Node [] 0 0 []]"

lemma right_rotate_n_disorders:
  "map fst (entries before_rotation) = [1, 2, 3, 4, 5, 10]"
  "map fst (entries (right_rotate_n 2 1 before_rotation)) = [1, 2, 3, 5, 4, 10]"
  "\<not> verify 3 True (right_rotate_n 2 1 before_rotation)"
  "btree_find 4 before_rotation = Some (Some ())" "btree_find 4 (right_rotate_n 2 1 before_rotation) = Some None"
  by code_simp+

end
