(* ===== verification/Storage_Index.thy ===== *)
theory Storage_Index
  imports Btree Linear_Storage
begin

text \<open>
  The index of the storage.  Theory \<open>Linear_Storage\<close> keeps it as a map; here the same calls of \<open>operator[]\<close>, \<open>erase\<close>
  and \<open>find\<close> that \<open>LinearStorage.cpp\<close> makes go to the B-tree of theory \<open>Btree\<close> at fan-out 64.  The locale
  \<open>index_map\<close> is the contract of such an index, the B-tree its instance, and the storage its client.  The ids are compared as
  numbers of 128 bits, where the code compares them as \<open>std::array<char, 16>\<close>, by the first different byte as a signed character; theory \<open>Btree\<close> is for any linear order, and the
  map that the tree refines does not depend on it.
\<close>

section \<open>The contract of an index\<close>

locale index_map =
  fixes empty_ix :: 's and find_ix :: "'k \<Rightarrow> 's \<Rightarrow> 'v option option" and put_ix :: "'k \<Rightarrow> 'v \<Rightarrow> 's \<Rightarrow> 's option"
    and erase_ix :: "'k \<Rightarrow> 's \<Rightarrow> ('s \<times> int) option" and inv_ix :: "'s \<Rightarrow> bool" and map_ix :: "'s \<Rightarrow> 'k \<Rightarrow> 'v option"
  assumes empty_ix: "inv_ix empty_ix" "map_ix empty_ix = Map.empty"
    and find_ix: "inv_ix s \<Longrightarrow> find_ix k s = Some (map_ix s k)"
    and put_ix: "inv_ix s \<Longrightarrow> \<exists>s'. put_ix k v s = Some s' \<and> inv_ix s' \<and> map_ix s' = (map_ix s)(k \<mapsto> v)"
    and erase_ix: "inv_ix s \<Longrightarrow> \<exists>s'. erase_ix k s = Some (s', if map_ix s k = None then 0 else 1) \<and> inv_ix s' \<and> map_ix s' = (map_ix s)(k := None)"

datatype ('k, 'v) index_op = Put 'k 'v | Erase 'k

fun map_op :: "('k, 'v) index_op \<Rightarrow> ('k \<Rightarrow> 'v option) \<Rightarrow> 'k \<Rightarrow> 'v option" where
  "map_op (Put k v) m = m(k \<mapsto> v)"
| "map_op (Erase k) m = m(k := None)"

fun index_run :: "('k \<Rightarrow> 'v \<Rightarrow> 's \<Rightarrow> 's option) \<Rightarrow> ('k \<Rightarrow> 's \<Rightarrow> ('s \<times> int) option) \<Rightarrow> ('k, 'v) index_op list \<Rightarrow> 's \<Rightarrow> 's option" where
  "index_run put era [] s = Some s"
| "index_run put era (Put k v # ops) s = (case put k v s of None \<Rightarrow> None | Some s' \<Rightarrow> index_run put era ops s')"
| "index_run put era (Erase k # ops) s = (case era k s of None \<Rightarrow> None | Some (s', _) \<Rightarrow> index_run put era ops s')"

context index_map
begin

text \<open>Every sequence of operations succeeds and does to the contents what it does to a map.\<close>

lemma run_map: "inv_ix s \<Longrightarrow> \<exists>s'. index_run put_ix erase_ix ops s = Some s' \<and> inv_ix s' \<and> map_ix s' = fold map_op ops (map_ix s)"
proof (induction ops arbitrary: s)
  case (Cons a ops)
  show ?case
  proof (cases a)
    case (Put k v)
    from put_ix [OF Cons.prems, of k v] obtain s' where p: "put_ix k v s = Some s'" "inv_ix s'" and m: "map_ix s' = (map_ix s)(k \<mapsto> v)" by blast
    have "fold map_op (a # ops) (map_ix s) = fold map_op ops (map_ix s')" by (simp only: Put m fold_simps map_op.simps)
    with Cons.IH [OF p(2)] p(1) Put show ?thesis by simp
  next
    case (Erase k)
    from erase_ix [OF Cons.prems, of k] obtain s' c where p: "erase_ix k s = Some (s', c)" "inv_ix s'" and m: "map_ix s' = (map_ix s)(k := None)" by blast
    have "fold map_op (a # ops) (map_ix s) = fold map_op ops (map_ix s')" by (simp only: Erase m fold_simps map_op.simps)
    with Cons.IH [OF p(2)] p(1) Erase show ?thesis by simp
  qed
qed simp

end

definition storage_fanout :: nat where
  "storage_fanout = 64"

interpretation btree_index: index_map make_node btree_find "btree_put storage_fanout" "btree_erase storage_fanout" "btree_ok storage_fanout" contents
proof
  have t: "2 \<le> storage_fanout" by (simp add: storage_fanout_def)
  fix s :: "('a::linorder, 'b) node" and k v
  show "btree_ok storage_fanout (make_node :: ('a, 'b) node)" "contents (make_node :: ('a, 'b) node) = Map.empty" using make_node_ok t by auto
  assume s: "btree_ok storage_fanout s"
  show "btree_find k s = Some (contents s k)" using s by (rule btree_find_ok)
  show "\<exists>s'. btree_put storage_fanout k v s = Some s' \<and> btree_ok storage_fanout s' \<and> contents s' = (contents s)(k \<mapsto> v)"
    using s t by (rule btree_put_ok)
  show "\<exists>s'. btree_erase storage_fanout k s = Some (s', if contents s k = None then 0 else 1) \<and> btree_ok storage_fanout s' \<and> contents s' = (contents s)(k := None)"
    using s t by (rule btree_erase_ok)
qed

section \<open>The storage with the B-tree\<close>

type_synonym tree = "(uuid, srecord) node"

text \<open>\<open>rebuildIndex\<close> with the B-tree: the body of its loop, and the constructor that calls it.\<close>

definition tree_body :: "srecord \<Rightarrow> tom \<Rightarrow> tree option \<Rightarrow> tom \<times> tree option" where
  "tree_body r t ox =
     (t, if deleted (rheader r) = 0 then (case ox of None \<Rightarrow> None | Some x \<Rightarrow> btree_put storage_fanout (huuid (rheader r)) r x) else ox)"

definition open_tree :: "(uint32 \<times> byte list) list \<Rightarrow> tree option" where
  "open_tree fs =
     (case walk_toms tree_body (toms (open_toms fs \<lparr>currentTomId = 0, toms = [], index = Map.empty\<rparr>)) (Some make_node) of
        Some (Inr ox, _) \<Rightarrow> ox
      | _ \<Rightarrow> None)"

text \<open>\<open>append\<close> and \<open>remove\<close>: what they do to the B-tree beside what they do to the files.\<close>

definition append_tree :: "bool \<Rightarrow> uuid \<Rightarrow> byte list \<Rightarrow> storage \<Rightarrow> tree \<Rightarrow> tree option" where
  "append_tree wok u dat st x =
     (case storage_append wok u dat st of (Inr r, _) \<Rightarrow> btree_put storage_fanout (huuid (rheader r)) r x | (Inl _, _) \<Rightarrow> Some x)"

definition remove_tree :: "bool \<Rightarrow> srecord \<Rightarrow> storage \<Rightarrow> tree \<Rightarrow> tree option" where
  "remove_tree wok r st x =
     (case map_of (toms st) (tomId r) of
        None \<Rightarrow> Some x
      | Some t \<Rightarrow>
          (case (if huuid (rheader r) = 0
                 then (case tom_record (offset r) t of (Inr q, t1) \<Rightarrow> (huuid (rheader q), t1) | (Inl _, t1) \<Rightarrow> (0, t1))
                 else (huuid (rheader r), t)) of
             (u, t1) \<Rightarrow> (case tom_remove wok r t1 of
                (ok, _) \<Rightarrow> if ok \<and> u \<noteq> 0 then map_option fst (btree_erase storage_fanout u x) else Some x)))"

definition record_tree :: "uuid \<Rightarrow> tree \<Rightarrow> srecord" where
  "record_tree u x = (case btree_find u x of Some (Some r) \<Rightarrow> r | _ \<Rightarrow> default_record)"

datatype storage_call = Append bool uuid "byte list" | Remove bool srecord

fun storage_calls :: "storage_call list \<Rightarrow> storage \<Rightarrow> storage" where
  "storage_calls [] st = st"
| "storage_calls (Append wok u dat # cs) st = storage_calls cs (snd (storage_append wok u dat st))"
| "storage_calls (Remove wok r # cs) st = storage_calls cs (snd (storage_remove wok r st))"

fun tree_calls :: "storage_call list \<Rightarrow> storage \<Rightarrow> tree \<Rightarrow> tree option" where
  "tree_calls [] st x = Some x"
| "tree_calls (Append wok u dat # cs) st x =
     (case append_tree wok u dat st x of None \<Rightarrow> None | Some x' \<Rightarrow> tree_calls cs (snd (storage_append wok u dat st)) x')"
| "tree_calls (Remove wok r # cs) st x =
     (case remove_tree wok r st x of None \<Rightarrow> None | Some x' \<Rightarrow> tree_calls cs (snd (storage_remove wok r st)) x')"

section \<open>The map of the storage is the content of the B-tree\<close>

definition indexed :: "(uuid \<rightharpoonup> srecord) \<Rightarrow> tree \<Rightarrow> bool" where
  "indexed ix x \<longleftrightarrow> btree_ok storage_fanout x \<and> contents x = ix"

lemma indexed_put: "indexed ix x \<Longrightarrow> \<exists>x'. btree_put storage_fanout u r x = Some x' \<and> indexed (ix(u \<mapsto> r)) x'"
  using btree_index.put_ix [of x u r] by (auto simp: indexed_def)

lemma indexed_erase: "indexed ix x \<Longrightarrow> \<exists>x' n. btree_erase storage_fanout u x = Some (x', n) \<and> indexed (ix(u := None)) x'"
  using btree_index.erase_ix [of x u] by (auto simp: indexed_def)

lemma append_indexed:
  assumes "indexed (index st) x"
  shows "\<exists>x'. append_tree wok u dat st x = Some x' \<and> indexed (index (snd (storage_append wok u dat st))) x'"
proof -
  have c: "currentTom st = (r, st1) \<Longrightarrow> index st1 = index st" for r st1 by (auto simp: currentTom_def Let_def split: if_splits)
  show ?thesis
    using assms indexed_put [OF assms] by (auto simp: append_tree_def storage_append_def set_tom_def c split: sum.splits prod.splits option.splits)
qed

lemma remove_indexed:
  assumes "indexed (index st) x"
  shows "\<exists>x'. remove_tree wok r st x = Some x' \<and> indexed (index (snd (storage_remove wok r st))) x'"
  using assms indexed_erase [OF assms]
  by (fastforce simp: remove_tree_def storage_remove_def set_tom_def split: sum.splits prod.splits option.splits)

lemma calls_indexed:
  "indexed (index st) x \<Longrightarrow> \<exists>x'. tree_calls cs st x = Some x' \<and> indexed (index (storage_calls cs st)) x'"
proof (induction cs arbitrary: st x)
  case (Cons a cs)
  then show ?case
  proof (cases a)
    case (Append wok u dat)
    with append_indexed [OF Cons.prems, of wok u dat] Cons.IH show ?thesis by fastforce
  next
    case (Remove wok r)
    with remove_indexed [OF Cons.prems, of wok r] Cons.IH show ?thesis by fastforce
  qed
qed simp

text \<open>The loop over a file treats the map and the tree alike.\<close>

definition indexed_result :: "(storage_error + (uuid \<rightharpoonup> srecord)) \<times> 'a \<Rightarrow> (storage_error + tree option) \<times> 'a \<Rightarrow> bool" where
  "indexed_result p q \<longleftrightarrow> snd p = snd q \<and>
     (case fst p of Inl e \<Rightarrow> fst q = Inl e | Inr ix \<Rightarrow> (\<exists>x. fst q = Inr (Some x) \<and> indexed ix x))"

lemma body_indexed:
  assumes "indexed ix x"
  shows "\<exists>x'. tree_body r t (Some x) = (t, Some x') \<and> indexed (snd (index_body r t ix)) x'"
  using assms indexed_put [OF assms, of "huuid (rheader r)" r] by (auto simp: tree_body_def index_body_def)

lemma tom_walk_indexed:
  assumes "tom_walk index_body off t ix = Some p" "indexed ix x"
  shows "\<exists>q. tom_walk tree_body off t (Some x) = Some q \<and> indexed_result p q"
proof -
  have "index_body = index_body \<longrightarrow> (\<forall>x. indexed ix x \<longrightarrow> (\<exists>q. tom_walk tree_body off t (Some x) = Some q \<and> indexed_result p q))"
  proof (rule tom_walk.raw_induct [where P = "\<lambda>f off t ix p. f = index_body \<longrightarrow>
      (\<forall>x. indexed ix x \<longrightarrow> (\<exists>q. tom_walk tree_body off t (Some x) = Some q \<and> indexed_result p q))", OF _ assms(1)], intro impI allI)
    fix walk f off t ix p x
    assume IH: "\<And>f off t ix p. walk f off t ix = Some p \<Longrightarrow> f = index_body \<longrightarrow>
        (\<forall>x. indexed ix x \<longrightarrow> (\<exists>q. tom_walk tree_body off t (Some x) = Some q \<and> indexed_result p q))"
      and step: "(case tom_record off t of
        (Inl e, t') \<Rightarrow> Some (Inl e, t')
      | (Inr r, t') \<Rightarrow>
          if tomId r = max32 then Some (Inr ix, t')
          else if dataSize (rheader r) = 0 then Some (Inr ix, t')
          else walk f (off + of_nat sizeof_Header + dataSize (rheader r)) (fst (f r t' ix)) (snd (f r t' ix))) = Some p"
      and f: "f = index_body" and x: "indexed ix x"
    obtain res t' where rec: "tom_record off t = (res, t')" by fastforce
    show "\<exists>q. tom_walk tree_body off t (Some x) = Some q \<and> indexed_result p q"
    proof (cases "\<exists>r. res = Inr r \<and> tomId r \<noteq> max32 \<and> dataSize (rheader r) \<noteq> 0")
      case True
      then obtain r where r: "res = Inr r" "tomId r \<noteq> max32" "dataSize (rheader r) \<noteq> 0" by blast
      from body_indexed [OF x, of r t'] obtain x' where x': "tree_body r t' (Some x) = (t', Some x')" "indexed (snd (index_body r t' ix)) x'" by blast
      have "walk index_body (off + of_nat sizeof_Header + dataSize (rheader r)) (fst (index_body r t' ix)) (snd (index_body r t' ix)) = Some p"
        using step r by (simp add: rec f)
      from IH [OF this] x'(2) obtain q where "tom_walk tree_body (off + of_nat sizeof_Header + dataSize (rheader r)) t' (Some x') = Some q" "indexed_result p q"
        by (auto simp: index_body_def)
      then show ?thesis using r x'(1) by (subst tom_walk.simps) (simp add: rec)
    next
      case False
      then show ?thesis using step x by (subst tom_walk.simps) (auto simp: rec indexed_result_def split: sum.splits if_splits)
    qed
  qed
  with assms(2) show ?thesis by blast
qed

lemma walk_toms_indexed:
  "walk_toms index_body ts ix = Some p \<Longrightarrow> indexed ix x \<Longrightarrow> \<exists>q. walk_toms tree_body ts (Some x) = Some q \<and> indexed_result p q"
proof (induction ts arbitrary: ix x p)
  case Nil
  then show ?case by (auto simp: indexed_result_def)
next
  case (Cons a ts)
  obtain i t where a: "a = (i, t)" by fastforce
  from Cons.prems(1) obtain p1 where p1: "tom_walk index_body 0 t ix = Some p1" by (auto simp: a split: option.splits)
  from tom_walk_indexed [OF this Cons.prems(2)] obtain q1 where q1: "tom_walk tree_body 0 t (Some x) = Some q1" "indexed_result p1 q1" by blast
  show ?case
  proof (cases "fst p1")
    case (Inl e)
    with Cons.prems(1) p1 q1 show ?thesis by (cases p1; cases q1) (auto simp: a indexed_result_def)
  next
    case (Inr ix')
    with q1(2) obtain x' where x': "fst q1 = Inr (Some x')" "indexed ix' x'" "snd q1 = snd p1" by (auto simp: indexed_result_def)
    from Cons.prems(1) p1 Inr obtain p2 where p2: "walk_toms index_body ts ix' = Some p2" "p = (fst p2, (i, snd p1) # snd p2)"
      by (cases p1) (auto simp: a split: option.splits)
    from Cons.IH [OF p2(1) x'(2)] obtain q2 where "walk_toms tree_body ts (Some x') = Some q2" "indexed_result p2 q2" by blast
    with p2 q1 x' show ?thesis by (cases q1; cases q2) (auto simp: a indexed_result_def split: sum.splits)
  qed
qed

lemma open_indexed:
  assumes "storage_open fs = Some (Inr st)"
  shows "\<exists>x. open_tree fs = Some x \<and> indexed (index st) x"
proof -
  let ?st = "open_toms fs \<lparr>currentTomId = 0, toms = [], index = Map.empty\<rparr>"
  have ix: "index (open_toms fs s) = index s" for s by (induction fs s rule: open_toms.induct) simp_all
  from assms obtain m ts where w: "walk_toms index_body (toms ?st) Map.empty = Some (Inr m, ts)" "index st = m"
    by (auto simp: storage_open_def rebuildIndex_def ix split: option.splits sum.splits)
  have "indexed Map.empty make_node" using btree_index.empty_ix by (simp add: indexed_def)
  from walk_toms_indexed [OF w(1) this] w(2) show ?thesis by (auto simp: open_tree_def indexed_result_def split: sum.splits prod.splits)
qed

section \<open>The index resolves what the storage says\<close>

text \<open>The B-tree is a map: whatever the sequence of \<open>operator[]\<close> assignments and \<open>erase\<close> calls, with fan-out 64 and
  any keys, every call returns, the tree that results passes all assertions of \<open>verify\<close> (key counts, order, heights and
  sizes at every level), and \<open>find\<close> returns for every key what the same sequence leaves in a map.\<close>

lemma btree_refines_map:
  "\<exists>x. index_run (btree_put storage_fanout) (btree_erase storage_fanout) ops make_node = Some x \<and> verify storage_fanout True x \<and>
     (\<forall>k. btree_find k x = Some (fold map_op ops Map.empty k))"
proof -
  from btree_index.run_map [OF btree_index.empty_ix(1), of ops] obtain x where
    x: "index_run (btree_put storage_fanout) (btree_erase storage_fanout) ops make_node = Some x" "btree_ok storage_fanout x"
      "contents x = fold map_op ops Map.empty" unfolding btree_index.empty_ix(2) by blast
  moreover have "verify storage_fanout True x" using btree_verify [OF x(2)] by (simp add: storage_fanout_def)
  ultimately show ?thesis using btree_index.find_ix [OF x(2)] by auto
qed

text \<open>C17: the storage's index: after the constructor, which rebuilds the index from the files, and any sequence of appends
  and removes, with writes that succeed or fail, the B-tree exists and passes the assertions of \<open>verify\<close>, and looking a
  UUID up in it gives exactly the record that the map of the storage model gives.\<close>

theorem storage_index_is_btree:
  assumes "storage_open fs = Some (Inr st)"
  shows "\<exists>x0 x. open_tree fs = Some x0 \<and> tree_calls calls st x0 = Some x \<and> verify storage_fanout True x \<and>
    (\<forall>u. record_tree u x = storage_record u (storage_calls calls st))"
proof -
  from open_indexed [OF assms] obtain x0 where x0: "open_tree fs = Some x0" "indexed (index st) x0" by blast
  from calls_indexed [OF x0(2), of calls] obtain x where x: "tree_calls calls st x0 = Some x" "btree_ok storage_fanout x" "contents x = index (storage_calls calls st)"
    by (auto simp: indexed_def)
  have "record_tree u x = storage_record u (storage_calls calls st)" for u
    using btree_index.find_ix [OF x(2), of u] x(3) by (simp add: record_tree_def storage_record_def split: option.splits)
  moreover have "verify storage_fanout True x" using btree_verify [OF x(2)] by (simp add: storage_fanout_def)
  ultimately show ?thesis using x0(1) x(1) by blast
qed

theorem storage_index_is_btree_witness:
  "\<exists>x0 x. open_tree [] = Some x0 \<and> tree_calls [Append True 5 [1], Append False 6 [2], Append True 7 [3]] \<lparr>currentTomId = 0, toms = [], index = Map.empty\<rparr> x0 = Some x \<and>
    verify storage_fanout True x \<and>
    (\<forall>u. record_tree u x = storage_record u (storage_calls [Append True 5 [1], Append False 6 [2], Append True 7 [3]] \<lparr>currentTomId = 0, toms = [], index = Map.empty\<rparr>))"
  by (rule storage_index_is_btree) (simp add: storage_open_def rebuildIndex_def)

end
