(* ===== verification/Worker_Threads.thy ===== *)
theory Worker_Threads
  imports Concurrent_Storage
begin

text \<open>
  \<open>ConcurrentLinearStorage\<close> with any number of client threads and its worker thread, all interleaved.  Theory
  \<open>Concurrent_Storage\<close> runs a call to its end; here a call enqueues its operation and blocks on its event, the
  worker takes one operation at a time and answers it, and \<open>start\<close> and \<open>stop\<close> are taken apart into what they test
  and set.  The operation queue is that of theory \<open>Blocking_Queue\<close>: the operations of one client stay in order,
  those of different clients come out in any order.
\<close>

section \<open>Threads\<close>

text \<open>The worker thread: not started, started but not yet in \<open>run\<close>, in the loop of \<open>run\<close>, ended.\<close>

datatype worker_pc = WkNone | WkStarting | WkLoop | WkExited

datatype client_pc =
    CIdle
  | CStarted                   \<comment> \<open>in \<open>start\<close>, about to set \<open>_started\<close>\<close>
  | CWait                      \<comment> \<open>in \<open>event.wait\<close> for its operation\<close>
  | CAnswer operation          \<comment> \<open>woken, with the answer in the operation\<close>
  | CStopCheck                 \<comment> \<open>in \<open>stop\<close>, about to test \<open>_isRunning\<close>\<close>
  | CStopWait                  \<comment> \<open>waits for the worker to take \<open>STOP\<close>\<close>
  | CJoin                      \<comment> \<open>in \<open>_thread.join\<close>\<close>

datatype worker_event = Ran nat bool operation operation | Swept bool int64

record worker_sys =
  w_cs :: cstorage             \<comment> \<open>the members; the queue is \<open>w_queues\<close>\<close>
  w_queues :: "operation list list"
  w_pc :: worker_pc
  cl_pcs :: "client_pc list"
  w_log :: "worker_event list" \<comment> \<open>ghost: what the worker has done\<close>
  submitted :: "operation list list" \<comment> \<open>ghost: what the clients have enqueued\<close>

definition cl_at :: "nat \<Rightarrow> client_pc \<Rightarrow> worker_sys \<Rightarrow> bool" where
  "cl_at i pc s \<longleftrightarrow> i < length (cl_pcs s) \<and> cl_pcs s ! i = pc"

definition cl_goto :: "nat \<Rightarrow> client_pc \<Rightarrow> worker_sys \<Rightarrow> worker_sys" where
  "cl_goto i pc s = s\<lparr>cl_pcs := (cl_pcs s)[i := pc]\<rparr>"

definition put_operation :: "nat \<Rightarrow> operation \<Rightarrow> worker_sys \<Rightarrow> worker_sys" where
  "put_operation i opn s =
     s\<lparr>w_queues := (w_queues s)[i := w_queues s ! i @ [opn]], submitted := (submitted s)[i := submitted s ! i @ [opn]]\<rparr>"

definition answered :: "nat \<Rightarrow> bool \<Rightarrow> operation \<Rightarrow> operation \<Rightarrow> storage \<Rightarrow> worker_sys \<Rightarrow> worker_sys" where
  "answered p wok opn ans st s =
     s\<lparr>w_cs := (w_cs s)\<lparr>linearStorage := st\<rparr>, w_queues := (w_queues s)[p := tl (w_queues s ! p)], w_log := w_log s @ [Ran p wok opn ans]\<rparr>"

text \<open>What \<open>record\<close>, \<open>data\<close>, \<open>append\<close>, \<open>remove\<close>, \<open>removeAsync\<close>, \<open>appendBatch\<close> and \<open>scan\<close> enqueue: only removals are asynchronous.\<close>

definition client_operation :: "operation \<Rightarrow> bool" where
  "client_operation opn \<longleftrightarrow> op_id opn \<noteq> STOP \<and> (op_async opn \<longrightarrow> op_id opn = REMOVE)"

text \<open>A step of a client or of the worker.  \<open>Thread::start\<close> throws on a thread that runs, which changes nothing.\<close>

inductive worker_step :: "worker_sys \<Rightarrow> worker_sys \<Rightarrow> bool" where
  start: "cl_at i CIdle s \<Longrightarrow> \<not> isRunning (w_cs s) \<Longrightarrow> w_pc s \<in> {WkNone, WkExited} \<Longrightarrow> worker_step s (cl_goto i CStarted (s\<lparr>w_pc := WkStarting\<rparr>))"
| start_set: "cl_at i CStarted s \<Longrightarrow> worker_step s (cl_goto i CIdle (s\<lparr>w_cs := (w_cs s)\<lparr>started := True\<rparr>\<rparr>))"
| run_begins: "w_pc s = WkStarting \<Longrightarrow> worker_step s (s\<lparr>w_pc := WkLoop, w_cs := (w_cs s)\<lparr>isRunning := True, lastSweepUs := nowUs\<rparr>\<rparr>)"
| submit: "cl_at i CIdle s \<Longrightarrow> client_operation opn \<Longrightarrow>
    worker_step s (cl_goto i (if op_async opn then CIdle else CWait) (put_operation i opn s))"
| run_async: "w_pc s = WkLoop \<Longrightarrow> p < length (w_queues s) \<Longrightarrow> w_queues s ! p = opn # ops \<Longrightarrow> op_id opn \<noteq> STOP \<Longrightarrow> op_async opn \<Longrightarrow>
    run_operation wok opn (linearStorage (w_cs s)) = Some (ans, st) \<Longrightarrow> worker_step s (answered p wok opn ans st s)"
| run_sync: "w_pc s = WkLoop \<Longrightarrow> p < length (w_queues s) \<Longrightarrow> w_queues s ! p = opn # ops \<Longrightarrow> op_id opn \<noteq> STOP \<Longrightarrow> \<not> op_async opn \<Longrightarrow>
    run_operation wok opn (linearStorage (w_cs s)) = Some (ans, st) \<Longrightarrow> worker_step s (cl_goto p (CAnswer ans) (answered p wok opn ans st s))"
| run_stop: "w_pc s = WkLoop \<Longrightarrow> p < length (w_queues s) \<Longrightarrow> w_queues s ! p = opn # ops \<Longrightarrow> op_id opn = STOP \<Longrightarrow>
    worker_step s (cl_goto p CJoin (answered p True opn opn (linearStorage (w_cs s)) (s\<lparr>w_pc := WkExited, w_cs := (w_cs s)\<lparr>isRunning := False\<rparr>\<rparr>)))"
| sweep: "w_pc s = WkLoop \<Longrightarrow> sint (nowUs - lastSweepUs (w_cs s)) \<ge> sint (sweepIntervalUs (w_cs s)) \<Longrightarrow> sweepExpired wok nowMs (w_cs s) = Some cs' \<Longrightarrow>
    worker_step s (s\<lparr>w_cs := cs'\<lparr>lastSweepUs := nowUs\<rparr>, w_log := w_log s @ [Swept wok nowMs]\<rparr>)"
| answer: "cl_at i (CAnswer ans) s \<Longrightarrow> worker_step s (cl_goto i CIdle s)"
| stop: "cl_at i CIdle s \<Longrightarrow>
    worker_step s (cl_goto i (if stopRequested (w_cs s) \<or> \<not> started (w_cs s) then CIdle else CStopCheck) (s\<lparr>w_cs := (w_cs s)\<lparr>stopRequested := True\<rparr>\<rparr>))"
| stop_running: "cl_at i CStopCheck s \<Longrightarrow> isRunning (w_cs s) \<Longrightarrow> worker_step s (cl_goto i CStopWait (put_operation i (new_operation STOP) s))"
| stop_not_running: "cl_at i CStopCheck s \<Longrightarrow> \<not> isRunning (w_cs s) \<Longrightarrow> worker_step s (cl_goto i CJoin s)"
| join: "cl_at i CJoin s \<Longrightarrow> w_pc s = WkExited \<Longrightarrow> worker_step s (cl_goto i CIdle s)"
| set_interval: "cl_at i CIdle s \<Longrightarrow> worker_step s (s\<lparr>w_cs := setSweepIntervalMicros us (w_cs s)\<rparr>)"

definition start_worker :: "cstorage \<Rightarrow> worker_sys \<Rightarrow> bool" where
  "start_worker cs s \<longleftrightarrow> w_cs s = cs \<and> \<not> isRunning cs \<and> \<not> started cs \<and> \<not> stopRequested cs \<and> w_pc s = WkNone \<and> w_log s = [] \<and>
     (\<exists>n. cl_pcs s = replicate n CIdle \<and> w_queues s = replicate n [] \<and> submitted s = replicate n [])"

section \<open>One after the other\<close>

text \<open>The operations and sweeps of the worker run one after the other on a storage.\<close>

fun replay_events :: "worker_event list \<Rightarrow> cstorage \<Rightarrow> cstorage option" where
  "replay_events [] cs = Some cs"
| "replay_events (Ran p wok opn ans # evs) cs =
     (case run_operation wok opn (linearStorage cs) of
        None \<Rightarrow> None
      | Some (a, st) \<Rightarrow> if a = ans then replay_events evs (cs\<lparr>linearStorage := st\<rparr>) else None)"
| "replay_events (Swept wok nowMs # evs) cs =
     (case sweepExpired wok nowMs cs of None \<Rightarrow> None | Some cs' \<Rightarrow> replay_events evs cs')"

fun ran_for :: "nat \<Rightarrow> worker_event list \<Rightarrow> (operation \<times> operation) list" where
  "ran_for i [] = []"
| "ran_for i (Ran p wok opn ans # evs) = (if p = i then (opn, ans) # ran_for i evs else ran_for i evs)"
| "ran_for i (Swept wok nowMs # evs) = ran_for i evs"

definition same_files :: "cstorage \<Rightarrow> cstorage \<Rightarrow> bool" where
  "same_files a b \<longleftrightarrow> linearStorage a = linearStorage b \<and> sweepCursor a = sweepCursor b"

text \<open>What a client has in the queue: removals that nobody waits for, and the one operation it waits for at the end.\<close>

definition all_async :: "operation list \<Rightarrow> bool" where
  "all_async q \<longleftrightarrow> list_all (\<lambda>opn. op_async opn \<and> op_id opn = REMOVE) q"

fun client_ok :: "client_pc \<Rightarrow> operation list \<Rightarrow> (operation \<times> operation) list \<Rightarrow> bool" where
  "client_ok CWait q l \<longleftrightarrow> q \<noteq> [] \<and> all_async (butlast q) \<and> \<not> op_async (last q) \<and> op_id (last q) \<noteq> STOP"
| "client_ok (CAnswer ans) q l \<longleftrightarrow> q = [] \<and> l \<noteq> [] \<and> snd (last l) = ans"
| "client_ok CStopWait q l \<longleftrightarrow> q \<noteq> [] \<and> all_async (butlast q) \<and> op_id (last q) = STOP"
| "client_ok _ q l \<longleftrightarrow> all_async q"

lemma ran_for_append [simp]: "ran_for i (xs @ ys) = ran_for i xs @ ran_for i ys"
  by (induction i xs rule: ran_for.induct) auto

lemma replay_append: "replay_events (xs @ ys) cs = Option.bind (replay_events xs cs) (replay_events ys)"
  by (induction xs cs rule: replay_events.induct) (auto split: option.splits)

lemma sweep_same:
  assumes "same_files a b" "sweepExpired wok nowMs b = Some b'"
  shows "\<exists>a'. sweepExpired wok nowMs a = Some a' \<and> same_files a' b'"
  using assms by (auto simp: sweepExpired_def same_files_def split: option.splits sum.splits)

lemma cl_simps [simp]:
  "w_cs (cl_goto i pc s) = w_cs s" "w_queues (cl_goto i pc s) = w_queues s" "w_pc (cl_goto i pc s) = w_pc s"
  "cl_pcs (cl_goto i pc s) = (cl_pcs s)[i := pc]" "w_log (cl_goto i pc s) = w_log s" "submitted (cl_goto i pc s) = submitted s"
  by (simp_all add: cl_goto_def)

lemma put_simps [simp]:
  "w_cs (put_operation i opn s) = w_cs s" "w_queues (put_operation i opn s) = (w_queues s)[i := w_queues s ! i @ [opn]]"
  "w_pc (put_operation i opn s) = w_pc s" "cl_pcs (put_operation i opn s) = cl_pcs s" "w_log (put_operation i opn s) = w_log s"
  "submitted (put_operation i opn s) = (submitted s)[i := submitted s ! i @ [opn]]"
  by (simp_all add: put_operation_def)

lemma answered_simps [simp]:
  "w_cs (answered p wok opn ans st s) = (w_cs s)\<lparr>linearStorage := st\<rparr>" "w_queues (answered p wok opn ans st s) = (w_queues s)[p := tl (w_queues s ! p)]"
  "w_pc (answered p wok opn ans st s) = w_pc s" "cl_pcs (answered p wok opn ans st s) = cl_pcs s"
  "w_log (answered p wok opn ans st s) = w_log s @ [Ran p wok opn ans]" "submitted (answered p wok opn ans st s) = submitted s"
  by (simp_all add: answered_def)

text \<open>A step in which one client moves, may enqueue, or has its first operation run.\<close>

definition replays :: "cstorage \<Rightarrow> worker_sys \<Rightarrow> bool" where
  "replays cs0 s \<longleftrightarrow> (\<exists>cs'. replay_events (w_log s) cs0 = Some cs' \<and> same_files cs' (w_cs s))"

definition client_inv :: "nat \<Rightarrow> worker_sys \<Rightarrow> bool" where
  "client_inv i s \<longleftrightarrow> submitted s ! i = map fst (ran_for i (w_log s)) @ w_queues s ! i \<and>
     client_ok (cl_pcs s ! i) (w_queues s ! i) (ran_for i (w_log s))"

definition w_inv :: "cstorage \<Rightarrow> worker_sys \<Rightarrow> bool" where
  "w_inv cs0 s \<longleftrightarrow> length (w_queues s) = length (cl_pcs s) \<and> length (submitted s) = length (cl_pcs s) \<and> replays cs0 s \<and>
     (\<forall>i < length (cl_pcs s). client_inv i s)"

lemma replays_ran:
  assumes "replays cs0 s" "run_operation wok opn (linearStorage (w_cs s)) = Some (ans, st)"
    "w_log s' = w_log s @ [Ran p wok opn ans]" "linearStorage (w_cs s') = st" "sweepCursor (w_cs s') = sweepCursor (w_cs s)"
  shows "replays cs0 s'"
  using assms by (auto simp: replays_def same_files_def replay_append)

lemma replays_same:
  "replays cs0 s \<Longrightarrow> w_log s' = w_log s \<Longrightarrow> linearStorage (w_cs s') = linearStorage (w_cs s) \<Longrightarrow> sweepCursor (w_cs s') = sweepCursor (w_cs s) \<Longrightarrow> replays cs0 s'"
  by (auto simp: replays_def same_files_def)

text \<open>Only client \<open>i\<close> is concerned: the others keep what they have.\<close>

lemma w_inv_client:
  assumes "w_inv cs0 s" "i < length (cl_pcs s)" "replays cs0 s'" "cl_pcs s' = (cl_pcs s)[i := pc]"
    "w_queues s' = (w_queues s)[i := q]" "submitted s' = (submitted s)[i := sub]" "w_log s' = w_log s @ evs"
    "\<And>j. j \<noteq> i \<Longrightarrow> ran_for j evs = []"
    "client_inv i s \<Longrightarrow> sub = map fst (ran_for i (w_log s) @ ran_for i evs) @ q \<and> client_ok pc q (ran_for i (w_log s) @ ran_for i evs)"
  shows "w_inv cs0 s'"
  using assms by (auto simp: w_inv_def client_inv_def nth_list_update)

lemma w_inv_move:
  assumes "w_inv cs0 s" "cl_at i pc s" "w_queues t = w_queues s" "submitted t = submitted s" "w_log t = w_log s" "cl_pcs t = cl_pcs s"
    "linearStorage (w_cs t) = linearStorage (w_cs s)" "sweepCursor (w_cs t) = sweepCursor (w_cs s)"
    "client_ok pc (w_queues s ! i) (ran_for i (w_log s)) \<Longrightarrow> client_ok pc' (w_queues s ! i) (ran_for i (w_log s))"
  shows "w_inv cs0 (cl_goto i pc' t)"
proof (rule w_inv_client [OF assms(1), of i _ pc' "w_queues s ! i" "submitted s ! i" "[]"])
  show "replays cs0 (cl_goto i pc' t)" by (rule replays_same [of cs0 s]) (use assms in \<open>simp_all add: w_inv_def\<close>)
  show "submitted (cl_goto i pc' t) = (submitted s)[i := submitted s ! i]" using assms(4) by simp
qed (use assms in \<open>auto simp: cl_at_def client_inv_def\<close>)

lemma w_inv_put:
  assumes "w_inv cs0 s" "cl_at i pc s" "client_ok pc (w_queues s ! i) (ran_for i (w_log s)) \<Longrightarrow> client_ok pc' (w_queues s ! i @ [opn]) (ran_for i (w_log s))"
  shows "w_inv cs0 (cl_goto i pc' (put_operation i opn s))"
  using assms
  by (intro w_inv_client [OF assms(1), of i _ pc' "w_queues s ! i @ [opn]" "submitted s ! i @ [opn]" "[]"])
    (auto simp: cl_at_def client_inv_def w_inv_def intro: replays_same)

lemma w_inv_ran:
  assumes "w_inv cs0 s" "p < length (w_queues s)" "w_queues s ! p = opn # ops"
    "run_operation wok opn (linearStorage (w_cs s)) = Some (ans, st)"
    "w_log s' = w_log s @ [Ran p wok opn ans]" "linearStorage (w_cs s') = st" "sweepCursor (w_cs s') = sweepCursor (w_cs s)"
    "cl_pcs s' = (cl_pcs s)[p := pc]" "w_queues s' = (w_queues s)[p := ops]" "submitted s' = submitted s"
    "client_ok (cl_pcs s ! p) (opn # ops) (ran_for p (w_log s)) \<Longrightarrow> client_ok pc ops (ran_for p (w_log s) @ [(opn, ans)])"
  shows "w_inv cs0 s'"
proof (rule w_inv_client [OF assms(1) _ _ assms(8,9) _ assms(5), of "submitted s ! p"])
  show "replays cs0 s'" using assms(1) by (intro replays_ran [OF _ assms(4-7)]) (simp add: w_inv_def)
  show "submitted s' = (submitted s)[p := submitted s ! p]" using assms(10) by simp
qed (use assms in \<open>auto simp: w_inv_def client_inv_def\<close>)

lemma client_ok_cons:
  "client_ok pc (opn # ops) l \<Longrightarrow> op_async opn \<Longrightarrow> op_id opn \<noteq> STOP \<Longrightarrow> client_ok pc ops (l @ [(opn, ans)])"
  "client_ok pc (opn # ops) l \<Longrightarrow> \<not> op_async opn \<Longrightarrow> op_id opn \<noteq> STOP \<Longrightarrow> ops = []"
  "client_ok pc (opn # ops) l \<Longrightarrow> op_id opn = STOP \<Longrightarrow> ops = []"
  by (cases pc; cases ops; auto simp: all_async_def)+

lemma worker_step_inv: "worker_step s s' \<Longrightarrow> w_inv cs0 s \<Longrightarrow> w_inv cs0 s'"
proof (induction rule: worker_step.induct)
  case (run_async s p opn ops wok ans st)
  then show ?case
    by (intro w_inv_ran [OF run_async(7,2,3,6), where pc = "cl_pcs s ! p"]) (auto simp: client_ok_cons(1))
next
  case (run_sync s p opn ops wok ans st)
  then show ?case
    by (intro w_inv_ran [OF run_sync(7,2,3,6), where pc = "CAnswer ans"]) (auto dest: client_ok_cons(2))
next
  case (run_stop s p opn ops)
  have r: "run_operation True opn (linearStorage (w_cs s)) = Some (opn, linearStorage (w_cs s))" using run_stop(4) by (simp add: run_operation_def)
  from run_stop show ?case
    by (intro w_inv_ran [OF run_stop(5,2,3) r, where pc = CJoin]) (auto dest: client_ok_cons(3) simp: all_async_def)
next
  case (sweep s nowUs wok nowMs cs')
  then obtain a where a: "replay_events (w_log s) cs0 = Some a" "same_files a (w_cs s)" by (auto simp: w_inv_def replays_def)
  from sweep_same [OF a(2) sweep(3)] obtain a' where "sweepExpired wok nowMs a = Some a'" "same_files a' cs'" by blast
  with a(1) sweep(4) show ?case by (auto simp: w_inv_def client_inv_def replays_def replay_append same_files_def)
next
  case (submit i s opn)
  then show ?case by (intro w_inv_put [OF submit(3,1)]) (auto simp: client_operation_def all_async_def)
next
  case (stop_running i s)
  then show ?case by (intro w_inv_put [OF stop_running(3,1)]) (auto simp: all_async_def new_operation_def)
next
  case (run_begins s nowUs)
  then show ?case by (auto simp: w_inv_def client_inv_def replays_def same_files_def)
next
  case (set_interval i s us)
  then show ?case by (auto simp: w_inv_def client_inv_def replays_def same_files_def setSweepIntervalMicros_def)
qed (erule (1) w_inv_move; simp add: all_async_def split: if_splits)+

section \<open>The end of the worker\<close>

text \<open>The flags follow the worker thread, and only one client ever is in the part of \<open>stop\<close> that ends it.\<close>

fun stopping :: "client_pc \<Rightarrow> bool" where
  "stopping CStopCheck = True"
| "stopping CStopWait = True"
| "stopping _ = False"

definition stops :: "nat \<Rightarrow> worker_sys \<Rightarrow> bool" where
  "stops i s \<longleftrightarrow> i < length (cl_pcs s) \<and> stopping (cl_pcs s ! i)"

definition stop_queued :: "nat \<Rightarrow> worker_sys \<Rightarrow> bool" where
  "stop_queued i s \<longleftrightarrow> i < length (w_queues s) \<and> (\<exists>opn \<in> set (w_queues s ! i). op_id opn = STOP)"

definition w_life :: "worker_sys \<Rightarrow> bool" where
  "w_life s \<longleftrightarrow> length (w_queues s) = length (cl_pcs s) \<and> (isRunning (w_cs s) \<longleftrightarrow> w_pc s = WkLoop) \<and>
     (\<forall>i. stops i s \<longrightarrow> stopRequested (w_cs s)) \<and> (\<forall>i j. stops i s \<longrightarrow> stops j s \<longrightarrow> i = j) \<and>
     (\<forall>i. cl_at i CStopWait s \<longrightarrow> w_pc s = WkLoop) \<and> (\<forall>i. stop_queued i s \<longrightarrow> cl_at i CStopWait s)"

lemma w_lifeD:
  assumes "w_life s"
  shows "length (w_queues s) = length (cl_pcs s)" "isRunning (w_cs s) \<longleftrightarrow> w_pc s = WkLoop" "stops i s \<Longrightarrow> stopRequested (w_cs s)"
    "stops i s \<Longrightarrow> stops j s \<Longrightarrow> i = j" "cl_at i CStopWait s \<Longrightarrow> w_pc s = WkLoop" "stop_queued i s \<Longrightarrow> cl_at i CStopWait s"
  using assms unfolding w_life_def by blast+

lemma cl_at_stops: "cl_at i CStopWait s \<Longrightarrow> stops i s" "cl_at i CStopCheck s \<Longrightarrow> stops i s"
  by (simp_all add: cl_at_def stops_def)

lemma sweep_flags: "sweepExpired wok nowMs cs = Some cs' \<Longrightarrow> isRunning cs' = isRunning cs \<and> stopRequested cs' = stopRequested cs"
  by (auto simp: sweepExpired_def split: option.splits sum.splits)

lemma w_life_client:
  assumes l: "w_life s" and i: "i < length (cl_pcs s)" and s': "cl_pcs s' = (cl_pcs s)[i := pc]" "w_queues s' = (w_queues s)[i := q]"
    and run: "isRunning (w_cs s') \<longleftrightarrow> w_pc s' = WkLoop" and req: "stopRequested (w_cs s) \<Longrightarrow> stopRequested (w_cs s')"
    and st: "stopping pc \<Longrightarrow> stopRequested (w_cs s') \<and> (stops i s \<or> \<not> stopRequested (w_cs s))"
    and wt: "pc = CStopWait \<Longrightarrow> w_pc s' = WkLoop" and ex: "w_pc s = WkLoop \<Longrightarrow> w_pc s' = WkLoop \<or> stops i s"
    and q: "\<And>opn. opn \<in> set q \<Longrightarrow> op_id opn = STOP \<Longrightarrow> pc = CStopWait"
  shows "w_life s'"
proof -
  have stops: "stops j s' \<longleftrightarrow> (if j = i then stopping pc else stops j s)" for j
    using i s' by (auto simp: stops_def)
  have at: "cl_at j CStopWait s' \<longleftrightarrow> (if j = i then pc = CStopWait else cl_at j CStopWait s)" for j
    using i s' by (auto simp: cl_at_def)
  have queued: "stop_queued j s' \<longleftrightarrow> (if j = i then \<exists>opn \<in> set q. op_id opn = STOP else stop_queued j s)" for j
    using i s' w_lifeD(1) [OF l] by (auto simp: stop_queued_def)
  have alone: "\<not> stops j s" if "stopping pc" "j \<noteq> i" for j
    using st [OF that(1)] that(2) w_lifeD(3,4) [OF l] by blast
  have "w_pc s' = WkLoop" if "cl_at j CStopWait s'" for j
    using that wt ex w_lifeD(4,5) [OF l] cl_at_stops(1) by (fastforce simp: at split: if_splits)
  moreover have "stops j s' \<Longrightarrow> stops k s' \<Longrightarrow> j = k" for j k
    using alone w_lifeD(4) [OF l] unfolding stops by metis
  moreover have "stops j s' \<Longrightarrow> stopRequested (w_cs s')" for j
    using st req w_lifeD(3) [OF l] by (auto simp: stops split: if_splits)
  moreover have "stop_queued j s' \<Longrightarrow> cl_at j CStopWait s'" for j
    using q w_lifeD(6) [OF l] by (auto simp: queued at split: if_splits)
  ultimately show ?thesis using w_lifeD(1) [OF l] s' run by (simp add: w_life_def)
qed

lemma w_life_move:
  assumes "w_life s" "cl_at i pc s" "cl_pcs t = cl_pcs s" "w_queues t = w_queues s"
    "isRunning (w_cs t) \<longleftrightarrow> w_pc t = WkLoop" "stopRequested (w_cs s) \<Longrightarrow> stopRequested (w_cs t)"
    "stopping pc' \<Longrightarrow> stopRequested (w_cs t) \<and> (stopping pc \<or> \<not> stopRequested (w_cs s))" "w_pc s = WkLoop \<Longrightarrow> w_pc t = WkLoop"
    "pc \<noteq> CStopWait" "pc' \<noteq> CStopWait"
  shows "w_life (cl_goto i pc' t)"
proof (rule w_life_client [OF assms(1), of i _ pc' "w_queues s ! i"])
  show "pc' = CStopWait" if "opn \<in> set (w_queues s ! i)" "op_id opn = STOP" for opn
    using w_lifeD(1) [OF assms(1)] w_lifeD(6) [OF assms(1), of i] assms(2,9) that by (auto simp: stop_queued_def cl_at_def)
qed (use assms in \<open>auto simp: cl_at_def stops_def\<close>)

lemma w_life_put:
  assumes "w_life s" "cl_at i pc s" "pc \<noteq> CStopWait" "stopping pc' \<Longrightarrow> stopping pc" "pc' = CStopWait \<longleftrightarrow> op_id opn = STOP" "op_id opn = STOP \<Longrightarrow> w_pc s = WkLoop"
  shows "w_life (cl_goto i pc' (put_operation i opn s))"
proof (rule w_life_client [OF assms(1), of i _ pc' "w_queues s ! i @ [opn]"])
  show "pc' = CStopWait" if "opn' \<in> set (w_queues s ! i @ [opn])" "op_id opn' = STOP" for opn'
    using w_lifeD(1) [OF assms(1)] w_lifeD(6) [OF assms(1), of i] assms(2,3,5) that by (auto simp: stop_queued_def cl_at_def)
  show "stopRequested (w_cs (cl_goto i pc' (put_operation i opn s))) \<and> (stops i s \<or> \<not> stopRequested (w_cs s))" if "stopping pc'"
    using w_lifeD(3) [OF assms(1), of i] assms(2,4) that by (auto simp: stops_def cl_at_def)
qed (use assms w_lifeD(2) [OF assms(1)] in \<open>auto simp: cl_at_def\<close>)

lemma w_life_ran:
  assumes "w_life s" "p < length (w_queues s)" "w_queues s ! p = opn # ops" "cl_pcs s' = (cl_pcs s)[p := pc]" "w_queues s' = (w_queues s)[p := ops]"
    "isRunning (w_cs s') \<longleftrightarrow> w_pc s' = WkLoop" "stopRequested (w_cs s') = stopRequested (w_cs s)"
    "pc = cl_pcs s ! p \<or> \<not> stopping pc \<and> ops = []" "w_pc s' = w_pc s \<or> op_id opn = STOP \<and> \<not> stopping pc"
  shows "w_life s'"
proof (rule w_life_client [OF assms(1) _ assms(4,5)])
  have len: "length (w_queues s) = length (cl_pcs s)" using w_lifeD(1) [OF assms(1)] .
  show "pc = CStopWait" if "opn' \<in> set ops" "op_id opn' = STOP" for opn'
    using w_lifeD(6) [OF assms(1), of p] assms(2,3,8) that by (auto simp: stop_queued_def cl_at_def)
  show "stopRequested (w_cs s') \<and> (stops p s \<or> \<not> stopRequested (w_cs s))" if "stopping pc"
    using w_lifeD(3) [OF assms(1), of p] assms(2,7,8) len that by (auto simp: stops_def)
  show "w_pc s' = WkLoop \<or> stops p s" if "w_pc s = WkLoop"
    using w_lifeD(6) [OF assms(1), of p] assms(2,3,9) that cl_at_stops(1) by (auto simp: stop_queued_def)
  show "w_pc s' = WkLoop" if "pc = CStopWait"
    using w_lifeD(5) [OF assms(1), of p] assms(2,8,9) len that by (auto simp: cl_at_def)
qed (use assms w_lifeD(1) [OF assms(1)] in auto)

lemma w_life_flags:
  "w_life s \<Longrightarrow> cl_pcs s' = cl_pcs s \<Longrightarrow> w_queues s' = w_queues s \<Longrightarrow> isRunning (w_cs s') \<longleftrightarrow> w_pc s' = WkLoop \<Longrightarrow>
     stopRequested (w_cs s') = stopRequested (w_cs s) \<Longrightarrow> w_pc s' = WkLoop \<or> w_pc s \<noteq> WkLoop \<Longrightarrow> w_life s'"
  by (auto simp: w_life_def stops_def cl_at_def stop_queued_def)

lemma last_of_queue:
  assumes "w_inv cs0 s" "p < length (w_queues s)" "w_queues s ! p = opn # ops" "\<not> op_async opn \<or> op_id opn = STOP"
  shows "ops = []"
proof -
  have "client_ok (cl_pcs s ! p) (opn # ops) (ran_for p (w_log s))" using assms(1-3) by (auto simp: w_inv_def client_inv_def)
  with client_ok_cons(2,3) assms(4) show ?thesis by blast
qed

lemma worker_step_life: "worker_step s s' \<Longrightarrow> w_inv cs0 s \<Longrightarrow> w_life s \<Longrightarrow> w_life s'"
proof (induction rule: worker_step.induct)
  case (sweep s nowUs wok nowMs cs')
  with sweep_flags [OF sweep(3)] w_lifeD(2) [OF sweep(5)] show ?case by (intro w_life_flags [OF sweep(5)]) auto
next
  case (run_async s p opn ops wok ans st)
  with w_lifeD(2) [OF run_async(8)] show ?case by (intro w_life_ran [OF run_async(8,2,3), where pc = "cl_pcs s ! p"]) auto
next
  case (run_sync s p opn ops wok ans st)
  with last_of_queue [OF run_sync(7,2,3)] w_lifeD(2) [OF run_sync(8)] show ?case
    by (intro w_life_ran [OF run_sync(8,2,3), where pc = "CAnswer ans"]) auto
next
  case (run_stop s p opn ops)
  with last_of_queue [OF run_stop(5,2,3)] show ?case by (intro w_life_ran [OF run_stop(6,2,3), where pc = CJoin]) auto
next
  case (submit i s opn)
  then show ?case by (intro w_life_put [OF submit(4,1)]) (auto simp: client_operation_def split: if_splits)
next
  case (stop_running i s)
  then show ?case using w_lifeD(2) [OF stop_running(4)] by (intro w_life_put [OF stop_running(4,1)]) (auto simp: new_operation_def)
next
  case (run_begins s nowUs)
  then show ?case by (intro w_life_flags [OF run_begins(3)]) auto
next
  case (set_interval i s us)
  then show ?case using w_lifeD(2) [OF set_interval(3)] by (intro w_life_flags [OF set_interval(3)]) (auto simp: setSweepIntervalMicros_def)
qed (rule w_life_move, assumption, assumption, auto dest: w_lifeD(2))+

interpretation worker_run: invariant_run "start_worker cs0" worker_step "\<lambda>s. w_inv cs0 s \<and> w_life s" for cs0
proof
  show "w_inv cs0 s \<and> w_life s" if "start_worker cs0 s" for s
    using that by (auto simp: start_worker_def w_inv_def replays_def same_files_def client_inv_def all_async_def w_life_def
        stops_def cl_at_def stop_queued_def)
qed (use worker_step_inv worker_step_life in blast)

text \<open>A \<open>stop\<close> that has enqueued its operation: the removals before it and then it itself are run, and the join returns.\<close>

lemma stop_drains:
  assumes "w_inv cs0 s" "w_life s" "cl_at i CStopWait s"
  shows "\<exists>s'. (worker_step ^^ Suc (length (w_queues s ! i))) s s' \<and> cl_at i CIdle s' \<and> w_pc s' = WkExited \<and>
    submitted s' ! i = submitted s ! i \<and> submitted s' ! i = map fst (ran_for i (w_log s'))"
  using assms
proof (induction "length (w_queues s ! i)" arbitrary: s)
  case 0
  then show ?case by (auto simp: w_inv_def client_inv_def cl_at_def)
next
  case (Suc n)
  have pc: "w_pc s = WkLoop" using w_lifeD(5) [OF Suc.prems(2,3)] .
  have i: "i < length (w_queues s)" using w_lifeD(1) [OF Suc.prems(2)] Suc.prems(3) by (simp add: cl_at_def)
  obtain opn ops where q: "w_queues s ! i = opn # ops" using Suc(2) by (cases "w_queues s ! i") auto
  have ok: "client_ok CStopWait (opn # ops) (ran_for i (w_log s))"
    using Suc.prems(1,3) q by (auto simp: w_inv_def client_inv_def cl_at_def)
  show ?case
  proof (cases ops)
    case Nil
    let ?s = "cl_goto i CJoin (answered i True opn opn (linearStorage (w_cs s)) (s\<lparr>w_pc := WkExited, w_cs := (w_cs s)\<lparr>isRunning := False\<rparr>\<rparr>))"
    have st: "worker_step s ?s" using pc i q ok Nil by (intro worker_step.run_stop) auto
    have "worker_step ?s (cl_goto i CIdle ?s)" using Suc.prems(3) by (intro worker_step.join) (auto simp: cl_at_def)
    with st have "(worker_step ^^ Suc (length (w_queues s ! i))) s (cl_goto i CIdle ?s)" using q Nil by (auto simp: relcomppI)
    moreover have "submitted s ! i = map fst (ran_for i (w_log s)) @ [opn]"
      using Suc.prems(1,3) q Nil by (auto simp: w_inv_def client_inv_def cl_at_def)
    ultimately show ?thesis using Suc.prems(3) by (intro exI [of _ "cl_goto i CIdle ?s"]) (auto simp: cl_at_def)
  next
    case (Cons opn' ops')
    then have opn: "op_async opn" "op_id opn = REMOVE" using ok by (auto simp: all_async_def)
    from run_remove [OF opn(2)] obtain ans st where r: "run_operation True opn (linearStorage (w_cs s)) = Some (ans, st)" by blast
    let ?s = "answered i True opn ans st s"
    have step: "worker_step s ?s" using pc i q opn r by (intro worker_step.run_async) auto
    have n: "n = length (w_queues ?s ! i)" "cl_at i CStopWait ?s" using Suc(2) Suc.prems(3) i q by (auto simp: cl_at_def)
    from Suc.hyps(1) [OF n(1) worker_step_inv [OF step Suc.prems(1)] worker_step_life [OF step Suc.prems(1,2)] n(2)] obtain s' where
      s': "(worker_step ^^ Suc n) ?s s'" "cl_at i CIdle s'" "w_pc s' = WkExited" "submitted s' ! i = submitted s ! i"
        "submitted s' ! i = map fst (ran_for i (w_log s'))" unfolding n(1) [symmetric] answered_simps(6) by (elim exE conjE)
    have "(worker_step ^^ Suc (Suc n)) s s'" using relpowp_Suc_I2 [of worker_step, OF step s'(1)] .
    then show ?thesis unfolding Suc(2) [symmetric] using s'(2-5) by (intro exI [of _ s'] conjI)
  qed
qed

text \<open>A \<open>stop\<close> that found the worker not running yet waits for a thread that nobody ends any more.\<close>

definition hangs :: "cstorage \<Rightarrow> nat \<Rightarrow> worker_sys \<Rightarrow> bool" where
  "hangs cs0 i s \<longleftrightarrow> w_inv cs0 s \<and> w_life s \<and> cl_at i CJoin s \<and> w_pc s \<in> {WkStarting, WkLoop} \<and> stopRequested (w_cs s) \<and> (\<forall>j. \<not> stops j s)"

lemma no_stop_queued: "hangs cs0 i s \<Longrightarrow> p < length (w_queues s) \<Longrightarrow> w_queues s ! p = opn # ops \<Longrightarrow> op_id opn \<noteq> STOP"
  using w_lifeD(6) [of s p] cl_at_stops(1) [of p s] by (auto simp: hangs_def stop_queued_def)

lemma joining_queue: "hangs cs0 i s \<Longrightarrow> w_queues s ! i = opn # ops \<Longrightarrow> op_async opn"
  by (auto simp: hangs_def w_inv_def client_inv_def cl_at_def all_async_def)

lemma hangs_step:
  assumes "worker_step s s'" "hangs cs0 i s"
  shows "hangs cs0 i s'"
proof -
  have len: "length (w_queues s) = length (cl_pcs s)" using assms(2) w_lifeD(1) by (simp add: hangs_def)
  have "cl_at i CJoin s' \<and> w_pc s' \<in> {WkStarting, WkLoop} \<and> stopRequested (w_cs s') \<and> (\<forall>j. \<not> stops j s')"
    using assms(1)
  proof cases
    case (sweep nowUs wok nowMs cs')
    with assms(2) sweep_flags [OF sweep(4)] show ?thesis by (auto simp: hangs_def cl_at_def stops_def)
  next
    case (run_sync p opn ops wok ans st)
    with assms(2) joining_queue [OF assms(2), of opn ops] show ?thesis by (cases "p = i") (auto simp: hangs_def cl_at_def stops_def nth_list_update len split: if_splits)
  next
    case (run_stop p opn ops)
    with no_stop_queued [OF assms(2)] show ?thesis by blast
  qed (use assms(2) in \<open>auto simp: hangs_def cl_at_def stops_def nth_list_update setSweepIntervalMicros_def split: if_splits\<close>)
  with assms worker_step_inv worker_step_life show ?thesis unfolding hangs_def by blast
qed

interpretation worker_hang: invariant_run "hangs cs0 i" worker_step "hangs cs0 i" for cs0 i
  by unfold_locales (use hangs_step in auto)

text \<open>The clients of a storage right after its construction, and after \<open>start\<close> and \<open>stop\<close> of the first one, before the new
  thread has reached \<open>run\<close>.\<close>

definition fresh_worker :: "cstorage \<Rightarrow> nat \<Rightarrow> worker_sys" where
  "fresh_worker cs n = \<lparr>w_cs = cs, w_queues = replicate n [], w_pc = WkNone, cl_pcs = replicate n CIdle, w_log = [], submitted = replicate n []\<rparr>"

definition early_stop :: "cstorage \<Rightarrow> nat \<Rightarrow> worker_sys" where
  "early_stop cs n = (fresh_worker cs n)\<lparr>w_cs := cs\<lparr>started := True, stopRequested := True\<rparr>, w_pc := WkStarting, cl_pcs := (replicate n CIdle)[0 := CJoin]\<rparr>"

lemma start_fresh: "start_worker (new_cstorage st) (fresh_worker (new_cstorage st) n)"
  by (auto simp: start_worker_def fresh_worker_def new_cstorage_def)

lemma early_stop_reachable:
  assumes "0 < n"
  shows "worker_step\<^sup>*\<^sup>* (fresh_worker (new_cstorage st) n) (early_stop (new_cstorage st) n)"
proof -
  let ?w = "\<lambda>cs wpc pc. (fresh_worker cs n)\<lparr>w_pc := wpc, cl_pcs := (replicate n CIdle)[0 := pc]\<rparr>"
  let ?cs = "new_cstorage st"
  note defs = cl_at_def cl_goto_def fresh_worker_def early_stop_def new_cstorage_def assms
  note [trans] = rtranclp.rtrancl_into_rtrancl [of worker_step]
  have "worker_step\<^sup>*\<^sup>* (fresh_worker ?cs n) (?w ?cs WkStarting CStarted)"
    using worker_step.start [of 0 "fresh_worker ?cs n"] by (intro r_into_rtranclp) (simp add: defs)
  also have "worker_step \<dots> (?w (?cs\<lparr>started := True\<rparr>) WkStarting CIdle)"
    using worker_step.start_set [of 0 "?w ?cs WkStarting CStarted"] by (simp add: defs)
  also have "worker_step \<dots> (?w (?cs\<lparr>started := True, stopRequested := True\<rparr>) WkStarting CStopCheck)"
    using worker_step.stop [of 0 "?w (?cs\<lparr>started := True\<rparr>) WkStarting CIdle"] by (simp add: defs)
  also have "worker_step \<dots> (early_stop ?cs n)"
    using worker_step.stop_not_running [of 0 "?w (?cs\<lparr>started := True, stopRequested := True\<rparr>) WkStarting CStopCheck"] by (simp add: defs)
  finally show ?thesis .
qed

lemma early_stop_hangs:
  assumes "0 < n"
  shows "hangs (new_cstorage st) 0 (early_stop (new_cstorage st) n)"
proof -
  have "w_inv (new_cstorage st) (early_stop (new_cstorage st) n) \<and> w_life (early_stop (new_cstorage st) n)"
    using worker_run.reachable_inv [OF early_stop_reachable start_fresh] assms by blast
  with assms show ?thesis by (auto simp: hangs_def early_stop_def fresh_worker_def cl_at_def stops_def nth_list_update)
qed

section \<open>The worker and its clients\<close>

text \<open>C22: whatever the interleaving, the calls of all clients take effect one after the other: running the operations and the sweeps in
  the order of the log on the storage of the beginning gives the storage of now, and each operation the answer it was
  given; what a client has enqueued is, in its order, what was run of it and what is still in the queue, and a client
  that was woken has the answer of its last operation.\<close>

theorem worker_serialises_calls:
  assumes "start_worker cs0 s0" "worker_step\<^sup>*\<^sup>* s0 s" "i < length (cl_pcs s)"
  shows "(\<exists>cs. replay_events (w_log s) cs0 = Some cs \<and> linearStorage cs = linearStorage (w_cs s) \<and> sweepCursor cs = sweepCursor (w_cs s)) \<and>
    submitted s ! i = map fst (ran_for i (w_log s)) @ w_queues s ! i \<and>
    (\<forall>ans. cl_pcs s ! i = CAnswer ans \<longrightarrow> w_queues s ! i = [] \<and> ran_for i (w_log s) \<noteq> [] \<and> snd (last (ran_for i (w_log s))) = ans)"
  using worker_run.reachable_inv [OF assms(2,1)] assms(3)
  by (auto simp: w_inv_def replays_def same_files_def client_inv_def)

text \<open>C23: a \<open>stop\<close> that found the worker running can end from every reachable state, in as many steps as this client has operations queued and one
  more: there is a run in which the worker runs what this client has enqueued before, takes the
  \<open>STOP\<close>, its thread ends and the join returns; nothing the client has enqueued is left behind.  (Other clients may be served
  first; the theorem shows that the end stays within reach, not that every run comes to it.)\<close>

theorem stop_ends_worker:
  assumes "start_worker cs0 s0" "worker_step\<^sup>*\<^sup>* s0 s" "cl_at i CStopWait s"
  shows "\<exists>s'. (worker_step ^^ Suc (length (w_queues s ! i))) s s' \<and> cl_at i CIdle s' \<and> w_pc s' = WkExited \<and>
    submitted s' ! i = submitted s ! i \<and> submitted s' ! i = map fst (ran_for i (w_log s'))"
  using worker_run.reachable_inv [OF assms(2,1)] assms(3) by (blast intro: stop_drains)

text \<open>C24: \<open>stop\<close> can wait forever.  When it runs before the thread that \<open>start\<close> has created reaches the first line of \<open>run\<close>,
  it sees \<open>_isRunning\<close> false, enqueues no \<open>STOP\<close> and joins; this is reachable from the start, and from then on, whatever any thread does, it is
  still in \<open>join\<close>.\<close>

theorem stop_can_hang:
  "start_worker (new_cstorage st) (fresh_worker (new_cstorage st) (Suc n)) \<and>
   worker_step\<^sup>*\<^sup>* (fresh_worker (new_cstorage st) (Suc n)) (early_stop (new_cstorage st) (Suc n)) \<and>
   {s. worker_step\<^sup>*\<^sup>* (early_stop (new_cstorage st) (Suc n)) s} \<subseteq> {s. cl_at 0 CJoin s}"
  using start_fresh early_stop_reachable [of "Suc n" st] worker_hang.run_inv [OF _ early_stop_hangs [of "Suc n" st]]
  by (auto simp: hangs_def)

text \<open>Two clients of a storage with one record: the first has queued its removal, the second was answered before that ran;
  then the first is in \<open>stop\<close>.\<close>

definition busy_removal :: operation where "busy_removal = (new_operation REMOVE)\<lparr>op_record := the_record, op_async := True\<rparr>"
definition busy_query :: operation where "busy_query = (new_operation GET_RECORD_BY_UUID)\<lparr>op_uuid := 7\<rparr>"
definition busy_answer :: operation where "busy_answer = busy_query\<lparr>op_record := storage_record 7 one_record_store\<rparr>"

definition busy_worker :: "bool \<Rightarrow> operation list \<Rightarrow> client_pc \<Rightarrow> worker_sys" where
  "busy_worker b ops pc = \<lparr>w_cs = (new_cstorage one_record_store)\<lparr>isRunning := True, started := True, stopRequested := b\<rparr>,
     w_queues = [busy_removal # ops, []], w_pc = WkLoop, cl_pcs = [pc, CAnswer busy_answer],
     w_log = [Ran 1 True busy_query busy_answer], submitted = [busy_removal # ops, [busy_query]]\<rparr>"

lemma busy_worker_reachable: "worker_step\<^sup>*\<^sup>* (fresh_worker (new_cstorage one_record_store) 2) (busy_worker False [] CIdle)"
proof -
  let ?cs = "new_cstorage one_record_store"
  let ?w = "\<lambda>cs wpc q0 q1 pc0 pc1. \<lparr>w_cs = cs, w_queues = [q0, q1], w_pc = wpc, cl_pcs = [pc0, pc1], w_log = [], submitted = [q0, q1]\<rparr>"
  let ?r = "?cs\<lparr>isRunning := True, started := True\<rparr>"
  note defs = cl_at_def cl_goto_def put_operation_def answered_def fresh_worker_def new_cstorage_def client_operation_def new_operation_def
    busy_removal_def busy_query_def busy_answer_def busy_worker_def run_operation_def numeral_eq_Suc
  note [trans] = rtranclp.rtrancl_into_rtrancl [of worker_step]
  have "worker_step\<^sup>*\<^sup>* (fresh_worker ?cs 2) (?w ?cs WkStarting [] [] CStarted CIdle)"
    using worker_step.start [of 0 "fresh_worker ?cs 2"] by (intro r_into_rtranclp) (simp add: defs)
  also have "worker_step \<dots> (?w (?cs\<lparr>started := True\<rparr>) WkStarting [] [] CIdle CIdle)"
    using worker_step.start_set [of 0 "?w ?cs WkStarting [] [] CStarted CIdle"] by (simp add: defs)
  also have "worker_step \<dots> (?w ?r WkLoop [] [] CIdle CIdle)"
    using worker_step.run_begins [of "?w (?cs\<lparr>started := True\<rparr>) WkStarting [] [] CIdle CIdle" 0] by (simp add: defs)
  also have "worker_step \<dots> (?w ?r WkLoop [busy_removal] [] CIdle CIdle)"
    using worker_step.submit [of 0 "?w ?r WkLoop [] [] CIdle CIdle" busy_removal] by (simp add: defs)
  also have "worker_step \<dots> (?w ?r WkLoop [busy_removal] [busy_query] CIdle CWait)"
    using worker_step.submit [of 1 "?w ?r WkLoop [busy_removal] [] CIdle CIdle" busy_query] by (simp add: defs)
  also have "worker_step \<dots> (busy_worker False [] CIdle)"
    using worker_step.run_sync [of "?w ?r WkLoop [busy_removal] [busy_query] CIdle CWait" 1 busy_query "[]" True busy_answer one_record_store]
    by (simp add: defs)
  finally show ?thesis .
qed

lemma busy_worker_stopping:
  "worker_step\<^sup>*\<^sup>* (fresh_worker (new_cstorage one_record_store) 2) (busy_worker True [new_operation STOP] CStopWait)"
proof -
  note defs = cl_at_def cl_goto_def put_operation_def busy_worker_def
  note [trans] = rtranclp.rtrancl_into_rtrancl [of worker_step]
  note busy_worker_reachable
  also have "worker_step (busy_worker False [] CIdle) (busy_worker True [] CStopCheck)"
    using worker_step.stop [of 0 "busy_worker False [] CIdle"] by (simp add: defs new_cstorage_def)
  also have "worker_step \<dots> (busy_worker True [new_operation STOP] CStopWait)"
    using worker_step.stop_running [of 0 "busy_worker True [] CStopCheck"] by (simp add: defs new_cstorage_def)
  finally show ?thesis .
qed

theorem worker_serialises_calls_witness:
  "(\<exists>cs. replay_events (w_log (busy_worker False [] CIdle)) (new_cstorage one_record_store) = Some cs \<and>
      linearStorage cs = linearStorage (w_cs (busy_worker False [] CIdle)) \<and> sweepCursor cs = sweepCursor (w_cs (busy_worker False [] CIdle))) \<and>
    submitted (busy_worker False [] CIdle) ! 1 = map fst (ran_for 1 (w_log (busy_worker False [] CIdle))) @ w_queues (busy_worker False [] CIdle) ! 1 \<and>
    snd (last (ran_for 1 (w_log (busy_worker False [] CIdle)))) = busy_answer"
  using worker_serialises_calls [OF start_fresh busy_worker_reachable, of 1] by (simp add: busy_worker_def)

theorem stop_ends_worker_witness:
  "\<exists>s'. (worker_step ^^ Suc (length (w_queues (busy_worker True [new_operation STOP] CStopWait) ! 0))) (busy_worker True [new_operation STOP] CStopWait) s' \<and>
    cl_at 0 CIdle s' \<and> w_pc s' = WkExited \<and> submitted s' ! 0 = submitted (busy_worker True [new_operation STOP] CStopWait) ! 0 \<and>
    submitted s' ! 0 = map fst (ran_for 0 (w_log s'))"
  by (rule stop_ends_worker [OF start_fresh busy_worker_stopping]) (simp add: cl_at_def busy_worker_def)

end
