(* ===== verification/Scheduler_Threads.thy ===== *)
theory Scheduler_Threads
  imports Delivery_Scheduler
begin

text \<open>
  \<open>DeliveryScheduler\<close> with its worker thread, its condition variable and any number of client threads.  What a
  thread does under \<open>_mutex\<close> without waiting is one step, or several between which others may run, which
  adds runs and removes none.  The condition variable is the flag \<open>notified\<close> of the one thread that waits on it:
  \<open>notify_one\<close> and \<open>notify_all\<close> set it when the worker waits and are lost otherwise; a waiting worker may also wake
  up by itself, and a timed wait may end at any time, both of which the standard allows.  Every reading of the clock is arbitrary.
\<close>

section \<open>Threads\<close>

datatype run_pc =
    RNone                        \<comment> \<open>no thread yet\<close>
  | REval                        \<comment> \<open>at the loop condition of \<open>run\<close>\<close>
  | RWait                        \<comment> \<open>in \<open>_cv.wait\<close>\<close>
  | RTimed uint64 nat int64 int64 int
      \<comment> \<open>in \<open>_cv.wait_until\<close>: \<open>startVersion\<close> (and as a ghost number), \<open>deadlineMs\<close>, and the two readings of the clock\<close>
  | RDeliver int64               \<comment> \<open>at the condition of the inner loop, with \<open>deliverUpToMs\<close>\<close>
  | ROut int64 int64 sched_entry \<comment> \<open>with an entry in hand, the mutex released\<close>
  | RExit

datatype sched_pc =
    SchIdle
  | SLock int64 qaddr maddr      \<comment> \<open>a delayed message, about to lock\<close>
  | SDeliver qaddr maddr         \<comment> \<open>stopped scheduler, about to enqueue a non-persistent message\<close>
  | SNotify                      \<comment> \<open>about to call \<open>_cv.notify_one\<close>\<close>
  | SStopNotify                  \<comment> \<open>in \<open>stop\<close>, about to call \<open>_cv.notify_all\<close>\<close>
  | SJoin                        \<comment> \<open>in \<open>stop\<close>, about to test \<open>joinable\<close> and join\<close>

record sched_sys =
  sch :: scheduler
  t_heap :: mheap
  r_pc :: run_pc
  notified :: bool
  s_pcs :: "sched_pc list"
  inserted :: nat                                    \<comment> \<open>ghost: the insertions so far\<close>
  scheduled :: "(int64 \<times> sched_entry) multiset"      \<comment> \<open>ghost: what was inserted\<close>
  t_log :: "(int64 \<times> sched_entry \<times> int64) list"      \<comment> \<open>ghost: what was delivered, and the reading of the clock\<close>

definition s_at :: "nat \<Rightarrow> sched_pc \<Rightarrow> sched_sys \<Rightarrow> bool" where
  "s_at i pc s \<longleftrightarrow> i < length (s_pcs s) \<and> s_pcs s ! i = pc"

definition s_goto :: "nat \<Rightarrow> sched_pc \<Rightarrow> sched_sys \<Rightarrow> sched_sys" where
  "s_goto i pc s = s\<lparr>s_pcs := (s_pcs s)[i := pc]\<rparr>"

text \<open>The worker is blocked on the condition variable, and the predicate it waits for.\<close>

fun blocked :: "run_pc \<Rightarrow> bool" where
  "blocked RWait = True"
| "blocked (RTimed v n k n1 n2) = True"
| "blocked _ = False"

fun wake_pred :: "run_pc \<Rightarrow> scheduler \<Rightarrow> bool" where
  "wake_pred RWait c \<longleftrightarrow> stop_flag c \<or> sched_pending c \<noteq> []"
| "wake_pred (RTimed v n k n1 n2) c \<longleftrightarrow> stop_flag c \<or> sched_version c \<noteq> v"
| "wake_pred _ c \<longleftrightarrow> False"

text \<open>\<open>system_clock::now() + milliseconds(cappedWaitDeltaMs(deadlineMs, nowMs()))\<close>\<close>

fun wait_deadline :: "run_pc \<Rightarrow> int" where
  "wait_deadline (RTimed v n k n1 n2) = n2 + sint (cappedWaitDeltaMs k n1)"
| "wait_deadline _ = 0"

definition notify :: "sched_sys \<Rightarrow> sched_sys" where
  "notify s = (if blocked (r_pc s) then s\<lparr>notified := True\<rparr> else s)"

text \<open>\<open>_pending.emplace\<close> and \<open>++_version\<close>, after the thread was started when there was none.\<close>

definition sched_insert :: "int64 \<Rightarrow> sched_entry \<Rightarrow> sched_sys \<Rightarrow> sched_sys" where
  "sched_insert t e s =
     s\<lparr>sch := (sch s)\<lparr>threadStarted := True, sched_pending := mm_emplace t e (sched_pending (sch s)), sched_version := sched_version (sch s) + 1\<rparr>,
       r_pc := (if threadStarted (sch s) then r_pc s else REval), inserted := Suc (inserted s), scheduled := add_mset (t, e) (scheduled s)\<rparr>"

inductive sched_step :: "sched_sys \<Rightarrow> sched_sys \<Rightarrow> bool" where
  enqueue_now: "s_at i SchIdle s \<Longrightarrow> clamp_delivery now1 a (t_heap s) = (t, h) \<Longrightarrow> t = 0 \<or> sint t \<le> sint (now2 :: int64) \<Longrightarrow>
    sched_step s (s\<lparr>t_heap := enqueue_msg q a h\<rparr>)"
| enqueue_later: "s_at i SchIdle s \<Longrightarrow> clamp_delivery now1 a (t_heap s) = (t, h) \<Longrightarrow> \<not> (t = 0 \<or> sint t \<le> sint (now2 :: int64)) \<Longrightarrow>
    sched_step s (s_goto i (SLock t q a) (s\<lparr>t_heap := h\<rparr>))"
| schedule_stopped: "s_at i (SLock t q a) s \<Longrightarrow> stopped (sch s) \<Longrightarrow>
    sched_step s (s_goto i (if isPersistent (msg_at (t_heap s) a) then SchIdle else SDeliver q a) s)"
| deliver_stopped: "s_at i (SDeliver q a) s \<Longrightarrow> sched_step s (s_goto i SchIdle (s\<lparr>t_heap := enqueue_msg q a (t_heap s)\<rparr>))"
| schedule: "s_at i (SLock t q a) s \<Longrightarrow> \<not> stopped (sch s) \<Longrightarrow>
    sched_step s (s_goto i SNotify (sched_insert t \<lparr>entry_queue = q, entry_msg = a\<rparr> s))"
| schedule_notify: "s_at i SNotify s \<Longrightarrow> sched_step s (s_goto i SchIdle (notify s))"
| eval_stop: "r_pc s = REval \<Longrightarrow> stop_flag (sch s) \<Longrightarrow> sched_step s (s\<lparr>r_pc := RExit\<rparr>)"
| eval_empty: "r_pc s = REval \<Longrightarrow> \<not> stop_flag (sch s) \<Longrightarrow> sched_pending (sch s) = [] \<Longrightarrow> sched_step s (s\<lparr>r_pc := RWait, notified := False\<rparr>)"
| eval_timed: "r_pc s = REval \<Longrightarrow> \<not> stop_flag (sch s) \<Longrightarrow> sched_pending (sch s) = (t, e) # es \<Longrightarrow>
    sched_step s (s\<lparr>r_pc := RTimed (sched_version (sch s)) (inserted s) t now1 now2, notified := False\<rparr>)"
| wait_wakes: "blocked (r_pc s) \<Longrightarrow> wake_pred (r_pc s) (sch s) \<Longrightarrow> sched_step s (s\<lparr>r_pc := REval, notified := False\<rparr>)"
| wait_again: "blocked (r_pc s) \<Longrightarrow> \<not> wake_pred (r_pc s) (sch s) \<Longrightarrow> sched_step s (s\<lparr>notified := False\<rparr>)"
| timed_out: "r_pc s = RTimed v n k n1 n2 \<Longrightarrow> \<not> wake_pred (r_pc s) (sch s) \<Longrightarrow> sched_step s (s\<lparr>r_pc := RDeliver now, notified := False\<rparr>)"
| deliver_next: "r_pc s = RDeliver upTo \<Longrightarrow> sched_pending (sch s) = (t, e) # es \<Longrightarrow> sint t \<le> sint upTo \<Longrightarrow>
    sched_step s (s\<lparr>r_pc := ROut upTo t e, sch := (sch s)\<lparr>sched_pending := es\<rparr>\<rparr>)"
| deliver_out: "r_pc s = ROut upTo t e \<Longrightarrow>
    sched_step s (s\<lparr>r_pc := RDeliver upTo, t_heap := enqueue_msg (entry_queue e) (entry_msg e) (t_heap s), t_log := t_log s @ [(t, e, upTo)]\<rparr>)"
| deliver_end: "r_pc s = RDeliver upTo \<Longrightarrow> sched_pending (sch s) = [] \<or> sint (fst (hd (sched_pending (sch s)))) > sint upTo \<Longrightarrow>
    sched_step s (s\<lparr>r_pc := REval\<rparr>)"
| stop: "s_at i SchIdle s \<Longrightarrow> \<not> stopped (sch s) \<Longrightarrow> sched_step s (s_goto i SStopNotify (s\<lparr>sch := sched_stop (sch s)\<rparr>))"
| stop_notify: "s_at i SStopNotify s \<Longrightarrow> sched_step s (s_goto i SJoin (notify s))"
| join: "s_at i SJoin s \<Longrightarrow> threadStarted (sch s) \<longrightarrow> r_pc s = RExit \<Longrightarrow> sched_step s (s_goto i SchIdle s)"

definition start_sched :: "sched_sys \<Rightarrow> bool" where
  "start_sched s \<longleftrightarrow> sch s = new_scheduler \<and> r_pc s = RNone \<and> \<not> notified s \<and> (\<forall>pc \<in> set (s_pcs s). pc = SchIdle) \<and>
     inserted s = 0 \<and> scheduled s = {#} \<and> t_log s = []"

lemma s_goto_simps [simp]:
  "sch (s_goto i pc s) = sch s" "t_heap (s_goto i pc s) = t_heap s" "r_pc (s_goto i pc s) = r_pc s" "notified (s_goto i pc s) = notified s"
  "s_pcs (s_goto i pc s) = (s_pcs s)[i := pc]" "inserted (s_goto i pc s) = inserted s" "scheduled (s_goto i pc s) = scheduled s" "t_log (s_goto i pc s) = t_log s"
  by (simp_all add: s_goto_def)

lemma notify_simps [simp]:
  "sch (notify s) = sch s" "t_heap (notify s) = t_heap s" "r_pc (notify s) = r_pc s" "notified (notify s) \<longleftrightarrow> notified s \<or> blocked (r_pc s)"
  "s_pcs (notify s) = s_pcs s" "inserted (notify s) = inserted s" "scheduled (notify s) = scheduled s" "t_log (notify s) = t_log s"
  by (auto simp: notify_def)

section \<open>Every message once, and not early\<close>

fun in_hand :: "run_pc \<Rightarrow> (int64 \<times> sched_entry) multiset" where
  "in_hand (ROut u t e) = {#(t, e)#}"
| "in_hand _ = {#}"

definition delivered :: "sched_sys \<Rightarrow> (int64 \<times> sched_entry) multiset" where
  "delivered s = mset (map (\<lambda>(t, e, u). (t, e)) (t_log s))"

fun out_due :: "run_pc \<Rightarrow> bool" where
  "out_due (ROut u t e) \<longleftrightarrow> sint t \<le> sint u"
| "out_due _ \<longleftrightarrow> True"

definition books :: "sched_sys \<Rightarrow> bool" where
  "books s \<longleftrightarrow> sched_inv (sch s) \<and> (threadStarted (sch s) \<longleftrightarrow> r_pc s \<noteq> RNone) \<and>
     scheduled s = mset (sched_pending (sch s)) + in_hand (r_pc s) + delivered s \<and> out_due (r_pc s) \<and> (\<forall>(t, e, u) \<in> set (t_log s). sint t \<le> sint u)"

lemma blocked_pc [simp]: "blocked pc \<Longrightarrow> in_hand pc = {#}" "blocked pc \<Longrightarrow> pc \<noteq> RNone"
  by (cases pc; simp)+

lemma sched_step_books: "sched_step s s' \<Longrightarrow> books s \<Longrightarrow> books s'"
proof (induction rule: sched_step.induct)
  case (schedule i t q a s)
  then show ?case
    by (cases "r_pc s") (auto simp: books_def sched_insert_def sched_inv_def sorted_mm_emplace mset_mm_emplace delivered_def)
qed (auto simp: books_def delivered_def sched_inv_def sched_stop_def split: run_pc.splits)

section \<open>No notification is lost\<close>

definition about_to_notify :: "sched_sys \<Rightarrow> bool" where
  "about_to_notify s \<longleftrightarrow> SNotify \<in> set (s_pcs s) \<or> SStopNotify \<in> set (s_pcs s)"

fun timed_ok :: "run_pc \<Rightarrow> nat \<Rightarrow> (int64 \<times> sched_entry) list \<Rightarrow> bool" where
  "timed_ok (RTimed v n k n1 n2) m ps \<longleftrightarrow> v = of_nat n \<and> n \<le> m \<and> (n = m \<longrightarrow> ps \<noteq> [] \<and> fst (hd ps) = k)"
| "timed_ok _ m ps \<longleftrightarrow> True"

definition cv_inv :: "sched_sys \<Rightarrow> bool" where
  "cv_inv s \<longleftrightarrow> sched_version (sch s) = of_nat (inserted s) \<and> timed_ok (r_pc s) (inserted s) (sched_pending (sch s)) \<and>
     (blocked (r_pc s) \<longrightarrow> wake_pred (r_pc s) (sch s) \<longrightarrow> notified s \<or> about_to_notify s) \<and>
     (blocked (r_pc s) \<longrightarrow> stop_flag (sch s) \<longrightarrow> notified s \<or> SStopNotify \<in> set (s_pcs s)) \<and>
     (SStopNotify \<in> set (s_pcs s) \<or> SJoin \<in> set (s_pcs s) \<longrightarrow> stop_flag (sch s))"

lemma in_set_update: "i < length xs \<Longrightarrow> x \<in> set xs \<Longrightarrow> x \<noteq> xs ! i \<Longrightarrow> x \<in> set (xs[i := y])"
  by (metis in_set_conv_nth length_list_update nth_list_update_neq)

text \<open>A client moves, and keeps what the invariant says when it was not about to notify, or has done so.\<close>

lemma cv_inv_client:
  assumes "cv_inv s" "s_at i pc s" "sch t = sch s" "r_pc t = r_pc s" "inserted t = inserted s" "s_pcs t = (s_pcs s)[i := pc']"
    "pc \<in> {SNotify, SStopNotify} \<Longrightarrow> blocked (r_pc s) \<Longrightarrow> notified t" "notified s \<Longrightarrow> notified t"
    "pc' \<in> {SStopNotify, SJoin} \<Longrightarrow> pc = SStopNotify"
  shows "cv_inv t"
proof -
  have i: "i < length (s_pcs s)" "s_pcs s ! i = pc" using assms(2) by (simp_all add: s_at_def)
  have new: "x \<in> set (s_pcs t) \<Longrightarrow> x = pc' \<or> x \<in> set (s_pcs s)" for x
    using assms(6) set_update_subset_insert [of "s_pcs s" i pc'] by auto
  have old: "x \<in> set (s_pcs s) \<Longrightarrow> x = pc \<or> x \<in> set (s_pcs t)" for x
    using in_set_update [OF i(1), of x pc'] i(2) assms(6) by auto
  have "pc \<in> set (s_pcs s)" using i by auto
  show ?thesis
    unfolding cv_inv_def
  proof (intro conjI impI)
    assume "blocked (r_pc t)" "wake_pred (r_pc t) (sch t)"
    then show "notified t \<or> about_to_notify t"
      using assms(1,3,4,7,8) old [of SNotify] old [of SStopNotify] by (auto simp: cv_inv_def about_to_notify_def)
  next
    assume "blocked (r_pc t)" "stop_flag (sch t)"
    then show "notified t \<or> SStopNotify \<in> set (s_pcs t)"
      using assms(1,3,4,7,8) old [of SStopNotify] by (auto simp: cv_inv_def)
  next
    assume "SStopNotify \<in> set (s_pcs t) \<or> SJoin \<in> set (s_pcs t)"
    then have "SStopNotify \<in> set (s_pcs s) \<or> SJoin \<in> set (s_pcs s)"
      using new [of SStopNotify] new [of SJoin] assms(9) \<open>pc \<in> set (s_pcs s)\<close> by auto
    then show "stop_flag (sch t)" using assms(1,3) by (simp add: cv_inv_def)
  qed (use assms(1,3-5) in \<open>simp_all add: cv_inv_def\<close>)
qed

lemma cv_inv_insert:
  assumes "cv_inv s" "books s" "s_at i pc s" "pc \<notin> {SNotify, SStopNotify}"
  shows "cv_inv (s_goto i SNotify (sched_insert t e s))"
proof -
  let ?s = "s_goto i SNotify (sched_insert t e s)"
  have i: "i < length (s_pcs s)" "s_pcs s ! i = pc" using assms(3) by (simp_all add: s_at_def)
  have pcs: "SNotify \<in> set (s_pcs ?s)" using i by (simp add: sched_insert_def set_update_memI)
  have stop: "x \<in> set (s_pcs ?s) \<Longrightarrow> x \<noteq> SNotify \<Longrightarrow> x \<in> set (s_pcs s)" for x
    using set_update_subset_insert [of "s_pcs s" i SNotify] by (auto simp: sched_insert_def)
  have keep: "SStopNotify \<in> set (s_pcs s) \<Longrightarrow> SStopNotify \<in> set (s_pcs ?s)"
    using in_set_update [OF i(1), of SStopNotify SNotify] i(2) assms(4) by (auto simp: sched_insert_def)
  have "timed_ok (r_pc ?s) (inserted ?s) (sched_pending (sch ?s))"
    using assms(1) by (cases "r_pc s") (auto simp: cv_inv_def sched_insert_def)
  moreover have "blocked (r_pc ?s) \<Longrightarrow> r_pc ?s = r_pc s \<and> notified ?s = notified s" by (auto simp: sched_insert_def split: if_splits)
  ultimately show ?thesis
    using assms(1) pcs stop keep by (auto simp: cv_inv_def about_to_notify_def sched_insert_def)
qed

lemma cv_inv_worker:
  assumes "cv_inv s" "s_pcs t = s_pcs s" "inserted t = inserted s" "sched_version (sch t) = sched_version (sch s)" "stop_flag (sch t) = stop_flag (sch s)"
    "timed_ok (r_pc t) (inserted t) (sched_pending (sch t))" "blocked (r_pc t) \<Longrightarrow> wake_pred (r_pc t) (sch t) \<or> stop_flag (sch t) \<Longrightarrow> False"
  shows "cv_inv t"
  using assms by (auto simp: cv_inv_def)

lemma stop_wakes: "blocked pc \<Longrightarrow> stop_flag c \<Longrightarrow> wake_pred pc c"
  by (cases pc) auto

lemma sched_step_cv: "sched_step s s' \<Longrightarrow> books s \<Longrightarrow> cv_inv s \<Longrightarrow> cv_inv s'"
proof (induction rule: sched_step.induct)
  case (schedule i t q a s)
  then show ?case by (intro cv_inv_insert) auto
next
  case (stop i s)
  have i: "i < length (s_pcs s)" "s_pcs s ! i = SchIdle" using stop(1) by (simp_all add: s_at_def)
  have "SStopNotify \<in> set ((s_pcs s)[i := SStopNotify])" using i by (simp add: set_update_memI)
  moreover have "timed_ok (r_pc s) (inserted s) (sched_pending (sched_stop (sch s)))" "sched_version (sched_stop (sch s)) = sched_version (sch s)"
    "stop_flag (sched_stop (sch s))"
    using stop by (simp_all add: cv_inv_def sched_stop_def)
  ultimately show ?case using stop(4) by (auto simp: cv_inv_def about_to_notify_def)
next
  case (wait_again s)
  then show ?case using stop_wakes [of "r_pc s" "sch s"] by (intro cv_inv_worker [OF wait_again(4)]) (auto simp: cv_inv_def)
next
  case (eval_timed s t e es now1 now2)
  then show ?case by (intro cv_inv_worker [OF eval_timed(5)]) (auto simp: cv_inv_def)
next
  case (enqueue_now i s now1 a t h now2 q)
  then show ?case by (auto simp: cv_inv_def about_to_notify_def)
next
  case (join i s)
  then show ?case by (intro cv_inv_client [OF join(4,1), where pc' = SchIdle]) auto
next
  case (schedule_stopped i t q a s)
  then show ?case
    by (intro cv_inv_client [OF schedule_stopped(4,1), where pc' = "if isPersistent (msg_at (t_heap s) a) then SchIdle else SDeliver q a"]) (auto split: if_splits)
next
  case (enqueue_later i s now1 a t h now2 q)
  then show ?case by (intro cv_inv_client [OF enqueue_later(5,1), where pc' = "SLock t q a"]) auto
next
  case (deliver_stopped i q a s)
  then show ?case by (intro cv_inv_client [OF deliver_stopped(3,1), where pc' = SchIdle]) auto
next
  case (schedule_notify i s)
  then show ?case by (intro cv_inv_client [OF schedule_notify(3,1), where pc' = SchIdle]) auto
next
  case (stop_notify i s)
  then show ?case by (intro cv_inv_client [OF stop_notify(3,1), where pc' = SJoin]) auto
qed (rule cv_inv_worker, assumption, auto simp: cv_inv_def)

text \<open>Only the first call of \<open>stop\<close> gets past its test.\<close>

definition in_stop :: "nat \<Rightarrow> sched_sys \<Rightarrow> bool" where
  "in_stop i s \<longleftrightarrow> s_at i SStopNotify s \<or> s_at i SJoin s"

definition one_stopper :: "sched_sys \<Rightarrow> bool" where
  "one_stopper s \<longleftrightarrow> (\<forall>i j. in_stop i s \<longrightarrow> in_stop j s \<longrightarrow> i = j)"

lemma in_stop_set: "in_stop i s \<Longrightarrow> SStopNotify \<in> set (s_pcs s) \<or> SJoin \<in> set (s_pcs s)"
  by (auto simp: in_stop_def s_at_def in_set_conv_nth)

lemma in_stop_move:
  assumes "one_stopper s" "s_at i pc s" "s_pcs t = (s_pcs s)[i := pc']" "pc' \<in> {SStopNotify, SJoin} \<Longrightarrow> in_stop i s \<or> (\<forall>j. \<not> in_stop j s)"
  shows "one_stopper t"
proof -
  have "in_stop j t \<longleftrightarrow> (if j = i then pc' \<in> {SStopNotify, SJoin} else in_stop j s)" for j
    using assms(2,3) by (auto simp: in_stop_def s_at_def)
  with assms(1,4) show ?thesis unfolding one_stopper_def by metis
qed

lemma one_stopper_same: "one_stopper s \<Longrightarrow> s_pcs t = s_pcs s \<Longrightarrow> one_stopper t"
  by (simp add: one_stopper_def in_stop_def s_at_def)

lemma sched_step_one_stopper: "sched_step s s' \<Longrightarrow> books s \<Longrightarrow> cv_inv s \<Longrightarrow> one_stopper s \<Longrightarrow> one_stopper s'"
proof (induction rule: sched_step.induct)
  case (stop i s)
  have "\<not> in_stop j s" for j using stop(2-4) in_stop_set [of j s] by (auto simp: cv_inv_def books_def sched_inv_def)
  with stop show ?case by (intro in_stop_move [OF stop(5,1), where pc' = SStopNotify]) auto
next
  case (stop_notify i s)
  then show ?case by (intro in_stop_move [OF stop_notify(4,1), where pc' = SJoin]) (auto simp: in_stop_def)
next
  case (schedule i t q a s)
  then show ?case by (intro in_stop_move [OF schedule(5,1), where pc' = SNotify]) (auto simp: sched_insert_def)
next
  case (schedule_stopped i t q a s)
  then show ?case
    by (intro in_stop_move [OF schedule_stopped(5,1), where pc' = "if isPersistent (msg_at (t_heap s) a) then SchIdle else SDeliver q a"]) (auto split: if_splits)
next
  case (enqueue_later i s now1 a t h now2 q)
  then show ?case by (intro in_stop_move [OF enqueue_later(6,1), where pc' = "SLock t q a"]) auto
next
  case (deliver_stopped i q a s)
  then show ?case by (intro in_stop_move [OF deliver_stopped(4,1), where pc' = SchIdle]) auto
next
  case (schedule_notify i s)
  then show ?case by (intro in_stop_move [OF schedule_notify(4,1), where pc' = SchIdle]) auto
next
  case (join i s)
  then show ?case by (intro in_stop_move [OF join(5,1), where pc' = SchIdle]) auto
qed (erule one_stopper_same, simp)+

definition sched_sys_inv :: "sched_sys \<Rightarrow> bool" where
  "sched_sys_inv s \<longleftrightarrow> books s \<and> cv_inv s \<and> one_stopper s"

interpretation sched_run: invariant_run start_sched sched_step sched_sys_inv
proof
  show "sched_sys_inv s" if "start_sched s" for s
    using that in_stop_set [of _ s]
    by (auto simp: sched_sys_inv_def start_sched_def books_def delivered_def sched_inv_def cv_inv_def about_to_notify_def new_scheduler_def one_stopper_def)
qed (use sched_step_books sched_step_cv sched_step_one_stopper in \<open>auto simp: sched_sys_inv_def\<close>)

section \<open>The end of the worker\<close>

text \<open>The worker's own steps to its end once \<open>_stop\<close> is set, with \<open>n\<close> deliveries pending.\<close>

fun steps_left :: "run_pc \<Rightarrow> nat \<Rightarrow> nat" where
  "steps_left REval n = 1"
| "steps_left RWait n = 2"
| "steps_left (RTimed v m k n1 n2) n = 2"
| "steps_left (RDeliver u) n = 2 * n + 2"
| "steps_left (ROut u t e) n = 2 * n + 3"
| "steps_left _ n = 0"

definition run_left :: "sched_sys \<Rightarrow> nat" where
  "run_left s = steps_left (r_pc s) (length (sched_pending (sch s)))"

lemma run_left_le: "run_left s \<le> 2 * length (sched_pending (sch s)) + 3"
  by (cases "r_pc s") (auto simp: run_left_def)

lemma worker_advances:
  assumes "stop_flag (sch s)" "r_pc s \<noteq> RNone" "r_pc s \<noteq> RExit"
  shows "\<exists>s'. sched_step s s' \<and> run_left s' < run_left s \<and> stop_flag (sch s') \<and> r_pc s' \<noteq> RNone \<and> s_pcs s' = s_pcs s"
proof (cases "r_pc s")
  case REval
  with assms(1) sched_step.eval_stop [of s] show ?thesis by (intro exI [of _ "s\<lparr>r_pc := RExit\<rparr>"]) (simp add: run_left_def)
next
  case RWait
  with assms(1) sched_step.wait_wakes [of s] show ?thesis
    by (intro exI [of _ "s\<lparr>r_pc := REval, notified := False\<rparr>"]) (simp add: run_left_def)
next
  case (RTimed v n k n1 n2)
  with assms(1) sched_step.wait_wakes [of s] show ?thesis
    by (intro exI [of _ "s\<lparr>r_pc := REval, notified := False\<rparr>"]) (simp add: run_left_def)
next
  case (RDeliver upTo)
  show ?thesis
  proof (cases "sched_pending (sch s) = [] \<or> sint (fst (hd (sched_pending (sch s)))) > sint upTo")
    case True
    with RDeliver assms(1) sched_step.deliver_end [OF RDeliver True] show ?thesis
      by (intro exI [of _ "s\<lparr>r_pc := REval\<rparr>"]) (simp add: run_left_def)
  next
    case False
    then obtain t e es where "sched_pending (sch s) = (t, e) # es" "sint t \<le> sint upTo" by (cases "sched_pending (sch s)") auto
    with RDeliver assms(1) sched_step.deliver_next [OF RDeliver this] show ?thesis
      by (intro exI [of _ "s\<lparr>r_pc := ROut upTo t e, sch := (sch s)\<lparr>sched_pending := es\<rparr>\<rparr>"]) (simp add: run_left_def)
  qed
next
  case (ROut upTo t e)
  with assms(1) sched_step.deliver_out [OF ROut] show ?thesis
    by (intro exI [of _ "s\<lparr>r_pc := RDeliver upTo, t_heap := enqueue_msg (entry_queue e) (entry_msg e) (t_heap s), t_log := t_log s @ [(t, e, upTo)]\<rparr>"])
      (simp add: run_left_def)
qed (use assms in simp_all)

lemma worker_reaches_end:
  "stop_flag (sch s) \<Longrightarrow> r_pc s \<noteq> RNone \<Longrightarrow> \<exists>n \<le> run_left s. \<exists>s'. (sched_step ^^ n) s s' \<and> r_pc s' = RExit \<and> s_pcs s' = s_pcs s"
proof (induction "run_left s" arbitrary: s rule: less_induct)
  case less
  show ?case
  proof (cases "r_pc s = RExit")
    case True
    then show ?thesis by (intro exI [of _ 0]) auto
  next
    case False
    from worker_advances [OF less.prems this] obtain t where
      t: "sched_step s t" "run_left t < run_left s" "stop_flag (sch t)" "r_pc t \<noteq> RNone" "s_pcs t = s_pcs s" by blast
    from less.hyps [OF t(2-4)] obtain n s' where
      n: "n \<le> run_left t" "(sched_step ^^ n) t s'" "r_pc s' = RExit" "s_pcs s' = s_pcs t" by blast
    have "(sched_step ^^ Suc n) s s'" using relpowp_Suc_I2 [of sched_step, OF t(1) n(2)] .
    moreover have "Suc n \<le> run_left s" using n(1) t(2) by simp
    ultimately show ?thesis using n(3,4) t(5) by metis
  qed
qed

section \<open>The scheduler and its clients\<close>

text \<open>C25: whatever the interleaving, every message that was scheduled is at every moment in exactly one place: pending,
  in the hand of the worker or delivered, as often as it was scheduled; and none is delivered before the clock showed its delivery time.\<close>

theorem scheduler_delivers_once_not_early:
  assumes "start_sched s0" "sched_step\<^sup>*\<^sup>* s0 s"
  shows "scheduled s = mset (sched_pending (sch s)) + in_hand (r_pc s) + mset (map (\<lambda>(t, e, u). (t, e)) (t_log s)) \<and>
    (\<forall>(t, e, u) \<in> set (t_log s). sint t \<le> sint u)"
  using sched_run.reachable_inv [OF assms(2,1)] by (simp add: sched_sys_inv_def books_def delivered_def)

text \<open>C26: the worker never oversleeps: when it is blocked without a notification and no other thread is about to notify it, then
  \<open>stop\<close> was not called, and either nothing is pending and it waits for an insertion, or it sleeps on the earliest of
  the pending delivery times: from the moment it looked at the clock, no longer than that time was ahead.\<close>

theorem worker_never_oversleeps:
  assumes "start_sched s0" "sched_step\<^sup>*\<^sup>* s0 s" "blocked (r_pc s)" "\<not> notified s" "\<not> about_to_notify s" "inserted s < 2 ^ 64"
  shows "\<not> stop_flag (sch s) \<and>
    (case sched_pending (sch s) of
       [] \<Rightarrow> r_pc s = RWait
     | p # ps \<Rightarrow> \<exists>v n now1 now2. r_pc s = RTimed v n (fst p) now1 now2 \<and>
         (0 \<le> sint now1 \<and> sint now1 + 86400000 < 2 ^ 63 \<longrightarrow> wait_deadline (r_pc s) \<le> now2 + max 0 (sint (fst p) - sint now1)))"
proof -
  have inv: "cv_inv s" using sched_run.reachable_inv [OF assms(2,1)] by (simp add: sched_sys_inv_def)
  then have pred: "\<not> wake_pred (r_pc s) (sch s)" using assms(3-5) by (auto simp: cv_inv_def)
  show ?thesis
  proof (cases "r_pc s")
    case (RTimed v n k n1 n2)
    then have v: "v = of_nat n" "n \<le> inserted s" "sched_version (sch s) = of_nat (inserted s)" "sched_version (sch s) = v"
      using inv pred by (auto simp: cv_inv_def)
    then have "unat (of_nat n :: uint64) = unat (of_nat (inserted s) :: uint64)" by simp
    then have "n = inserted s" using v(2) assms(6) by (simp add: unat_of_nat take_bit_nat_eq_self)
    with RTimed inv pred show ?thesis by (auto simp: cv_inv_def capped_wait_is_clamped_distance split: list.splits)
  qed (use assms(3) pred in \<open>auto split: list.splits\<close>)
qed

text \<open>\<open>stop\<close> ends: when the first caller of \<open>stop\<close> is at its join, a worker that is blocked has been notified, and it reaches the end of
  its thread by at most \<open>2 * n + 3\<close> steps of its own with \<open>n\<close> deliveries pending; then the join returns.\<close>

lemma scheduler_stop_ends:
  assumes "start_sched s0" "sched_step\<^sup>*\<^sup>* s0 s" "s_at i SJoin s" "threadStarted (sch s)"
  shows "(blocked (r_pc s) \<longrightarrow> notified s) \<and>
    (\<exists>n \<le> 2 * length (sched_pending (sch s)) + 3. \<exists>s' s''. (sched_step ^^ n) s s' \<and> r_pc s' = RExit \<and> sched_step s' s'' \<and> s_at i SchIdle s'')"
proof -
  have inv: "books s" "cv_inv s" "one_stopper s" using sched_run.reachable_inv [OF assms(2,1)] by (simp_all add: sched_sys_inv_def)
  have i: "i < length (s_pcs s)" "s_pcs s ! i = SJoin" using assms(3) by (simp_all add: s_at_def)
  then have "SJoin \<in> set (s_pcs s)" by (metis nth_mem)
  then have stop: "stop_flag (sch s)" using inv(2) by (simp add: cv_inv_def)
  have "SStopNotify \<notin> set (s_pcs s)"
  proof
    assume "SStopNotify \<in> set (s_pcs s)"
    then obtain j where "s_at j SStopNotify s" by (auto simp: s_at_def in_set_conv_nth)
    moreover from this have "j = i" using inv(3) assms(3) by (auto simp: one_stopper_def in_stop_def)
    ultimately show False using i(2) by (simp add: s_at_def)
  qed
  with inv(2) stop have notified: "blocked (r_pc s) \<longrightarrow> notified s" by (auto simp: cv_inv_def)
  have "r_pc s \<noteq> RNone" using inv(1) assms(4) by (simp add: books_def)
  from worker_reaches_end [OF stop this] obtain n s' where
    n: "n \<le> run_left s" "(sched_step ^^ n) s s'" "r_pc s' = RExit" "s_pcs s' = s_pcs s" by blast
  have "sched_step s' (s_goto i SchIdle s')" "s_at i SchIdle (s_goto i SchIdle s')"
    using n(3,4) i by (auto simp: s_at_def intro: sched_step.join)
  with notified n run_left_le [of s] show ?thesis by (meson order_trans)
qed

text \<open>One client has scheduled a message for later and the worker sleeps on it; then the other client calls \<open>stop\<close>.\<close>

definition sleeping_sched :: "bool \<Rightarrow> bool \<Rightarrow> sched_pc \<Rightarrow> sched_sys" where
  "sleeping_sched b nt pc = \<lparr>sch = \<lparr>sched_pending = [(5000, \<lparr>entry_queue = 0, entry_msg = 3\<rparr>)], threadStarted = True, stop_flag = b, stopped = b, sched_version = 1\<rparr>,
     t_heap = sample_heap, r_pc = RTimed 1 1 5000 1000 1000, notified = nt, s_pcs = [SchIdle, pc], inserted = 1,
     scheduled = {#(5000, \<lparr>entry_queue = 0, entry_msg = 3\<rparr>)#}, t_log = []\<rparr>"

definition fresh_sched :: "sched_sys" where
  "fresh_sched = \<lparr>sch = new_scheduler, t_heap = sample_heap, r_pc = RNone, notified = False, s_pcs = [SchIdle, SchIdle], inserted = 0, scheduled = {#}, t_log = []\<rparr>"

lemma start_fresh_sched: "start_sched fresh_sched"
  by (simp add: start_sched_def fresh_sched_def)

lemma sleeping_sched_reachable: "sched_step\<^sup>*\<^sup>* fresh_sched (sleeping_sched False False SchIdle)"
proof -
  let ?e = "\<lparr>entry_queue = 0, entry_msg = 3\<rparr>"
  let ?s1 = "fresh_sched\<lparr>s_pcs := [SLock 5000 0 3, SchIdle]\<rparr>"
  let ?s2 = "(sleeping_sched False False SchIdle)\<lparr>r_pc := REval, s_pcs := [SNotify, SchIdle]\<rparr>"
  let ?s3 = "(sleeping_sched False False SchIdle)\<lparr>r_pc := REval\<rparr>"
  note defs = s_at_def s_goto_def fresh_sched_def sleeping_sched_def new_scheduler_def sched_insert_def mm_emplace_def notify_def
  note [trans] = rtranclp.rtrancl_into_rtrancl [of sched_step]
  have "clamp_delivery 1000 3 sample_heap = (5000, sample_heap)"
    by (simp add: clamp_delivery_def sample_heap_time kMaxFutureHeaderMs_def)
  then have "sched_step fresh_sched ?s1"
    using sched_step.enqueue_later [of 0 fresh_sched 1000 3 5000 sample_heap 1000 0] by (simp add: defs)
  then have "sched_step\<^sup>*\<^sup>* fresh_sched ?s1" by (rule r_into_rtranclp)
  also have "sched_step \<dots> ?s2" using sched_step.schedule [of 0 5000 0 3 ?s1] by (simp add: defs)
  also have "sched_step \<dots> ?s3" using sched_step.schedule_notify [of 0 ?s2] by (simp add: defs)
  also have "sched_step \<dots> (sleeping_sched False False SchIdle)" using sched_step.eval_timed [of ?s3 5000 ?e "[]" 1000 1000] by (simp add: defs)
  finally show ?thesis .
qed

lemma sleeping_sched_stopping: "sched_step\<^sup>*\<^sup>* fresh_sched (sleeping_sched True True SJoin)"
proof -
  note defs = s_at_def s_goto_def sleeping_sched_def sched_stop_def notify_def
  note [trans] = rtranclp.rtrancl_into_rtrancl [of sched_step]
  note sleeping_sched_reachable
  also have "sched_step (sleeping_sched False False SchIdle) (sleeping_sched True False SStopNotify)"
    using sched_step.stop [of 1 "sleeping_sched False False SchIdle"] by (simp add: defs)
  also have "sched_step \<dots> (sleeping_sched True True SJoin)"
    using sched_step.stop_notify [of 1 "sleeping_sched True False SStopNotify"] by (simp add: defs)
  finally show ?thesis .
qed

theorem scheduler_delivers_once_not_early_witness:
  "scheduled (sleeping_sched True True SJoin) = mset (sched_pending (sch (sleeping_sched True True SJoin))) +
     in_hand (r_pc (sleeping_sched True True SJoin)) + mset (map (\<lambda>(t, e, u). (t, e)) (t_log (sleeping_sched True True SJoin)))"
  using scheduler_delivers_once_not_early [OF start_fresh_sched sleeping_sched_stopping] by (rule conjunct1)

theorem worker_never_oversleeps_witness:
  "\<not> stop_flag (sch (sleeping_sched False False SchIdle)) \<and> wait_deadline (r_pc (sleeping_sched False False SchIdle)) \<le> 1000 + max 0 (5000 - 1000)"
  using worker_never_oversleeps [OF start_fresh_sched sleeping_sched_reachable] by (simp add: sleeping_sched_def about_to_notify_def)

lemma scheduler_stop_ends_example:
  "\<exists>n s' s''. n \<le> 5 \<and> (sched_step ^^ n) (sleeping_sched True True SJoin) s' \<and> r_pc s' = RExit \<and> sched_step s' s'' \<and> s_at 1 SchIdle s''"
  using scheduler_stop_ends [OF start_fresh_sched sleeping_sched_stopping, of 1] by (auto simp: s_at_def sleeping_sched_def)

end
