(* ===== verification/Selector_Grammar.thy ===== *)
theory Selector_Grammar
  imports Selector
begin

text \<open>
  The language of the selectors, stated without the parser: \<open>tokenise\<close> is the whole token sequence of a text, and \<open>derives\<close>
  the grammar that the comment above the parser of \<open>Selector.cpp\<close> states, with the expression every derivation stands for.
  The parser accepts exactly the texts of the grammar, and builds their expressions.  The second half gives the expressions a type:
  what the parser builds is well formed, and the values of a well-formed expression are the ones its type allows.
\<close>

section \<open>Token sequences\<close>

lemma tok_next_smaller: "tok_next s = Inr ((t, x), r) \<Longrightarrow> t \<noteq> TOK_EOF \<Longrightarrow> length r < length s"
  using tok_next_leaves [of s] by (simp add: leaves_state_def psize_def)

function tokenise :: "string \<Rightarrow> sel_error + token list" where
  "tokenise s =
     (case tok_next s of
        Inl e \<Rightarrow> Inl e
      | Inr ((t, x), r) \<Rightarrow> if t = TOK_EOF then Inr [] else try_bind (tokenise r) (\<lambda>ts. Inr ((t, x) # ts)))"
  by pat_completeness auto
termination by (relation "measure length") (auto dest: tok_next_smaller)

declare tokenise.simps [simp del]

text \<open>The parser consumes the tokens \<open>us\<close> on its way from one state to another.\<close>

primrec consumes :: "parser_state \<Rightarrow> token list \<Rightarrow> parser_state \<Rightarrow> bool" where
  "consumes s [] s' \<longleftrightarrow> s' = s"
| "consumes s (t # us) s' \<longleftrightarrow> fst s = t \<and> fst t \<noteq> TOK_EOF \<and> (\<exists>s1. advance s = Inr s1 \<and> consumes s1 us s')"

lemma consumes_append: "consumes s (us @ vs) s' \<longleftrightarrow> (\<exists>s1. consumes s us s1 \<and> consumes s1 vs s')"
proof (induction us arbitrary: s)
  case (Cons u us)
  show ?case unfolding append_Cons consumes.simps Cons.IH by blast
qed simp

lemma consumes_all_tokens:
  "tokenise x = Inr us \<longleftrightarrow> (\<exists>s s'. tok_next x = Inr s \<and> consumes s us s' \<and> check TOK_EOF s')"
proof (induction us arbitrary: x)
  case Nil
  then show ?case by (subst tokenise.simps) (auto simp: try_bind_def check_def split: sum.splits)
next
  case (Cons u us)
  have "tokenise x = Inr (u # us) \<longleftrightarrow> (\<exists>r. tok_next x = Inr (u, r) \<and> fst u \<noteq> TOK_EOF \<and> tokenise r = Inr us)"
    by (subst tokenise.simps) (auto simp: try_bind_def split: sum.splits)
  moreover have "(\<exists>s s'. tok_next x = Inr s \<and> consumes s (u # us) s' \<and> check TOK_EOF s') \<longleftrightarrow>
      (\<exists>r. tok_next x = Inr (u, r) \<and> fst u \<noteq> TOK_EOF \<and> (\<exists>s s'. tok_next r = Inr s \<and> consumes s us s' \<and> check TOK_EOF s'))"
    unfolding consumes.simps advance_def by (metis fst_conv snd_conv prod.collapse)
  ultimately show ?case unfolding Cons.IH by blast
qed

section \<open>The grammar\<close>

datatype category = NOr | NAnd | NNot | NComparison | NPrimary

inductive derives :: "category \<Rightarrow> sel_expr \<Rightarrow> token list \<Rightarrow> bool"
  and derives_items :: "sel_expr list \<Rightarrow> token list \<Rightarrow> bool" where
  or_one: "derives NAnd e us \<Longrightarrow> derives NOr e us"
| or_more: "derives NOr l us \<Longrightarrow> derives NAnd r vs \<Longrightarrow> derives NOr (EOr l r) (us @ (TOK_OR, x) # vs)"
| and_one: "derives NNot e us \<Longrightarrow> derives NAnd e us"
| and_more: "derives NAnd l us \<Longrightarrow> derives NNot r vs \<Longrightarrow> derives NAnd (EAnd l r) (us @ (TOK_AND, x) # vs)"
| not_one: "derives NComparison e us \<Longrightarrow> derives NNot e us"
| not_more: "derives NNot e us \<Longrightarrow> derives NNot (ENot e) ((TOK_NOT, x) # us)"
| cmp_one: "derives NPrimary e us \<Longrightarrow> derives NComparison e us"
| cmp_null: "derives NPrimary e us \<Longrightarrow> derives NComparison (EIsNull e False) (us @ [(TOK_IS, x), (TOK_NULL_LIT, y)])"
| cmp_not_null: "derives NPrimary e us \<Longrightarrow>
    derives NComparison (EIsNull e True) (us @ [(TOK_IS, x), (TOK_NOT, z), (TOK_NULL_LIT, y)])"
| cmp_between: "derives NPrimary e us \<Longrightarrow> derives NPrimary lo vs \<Longrightarrow> derives NPrimary hi ws \<Longrightarrow>
    neg = [] \<and> \<not> b \<or> neg = [(TOK_NOT, z)] \<and> b \<Longrightarrow>
    derives NComparison (EBetween e lo hi b) (us @ neg @ (TOK_BETWEEN, x) # vs @ (TOK_AND, y) # ws)"
| cmp_in: "derives NPrimary e us \<Longrightarrow> derives_items its vs \<Longrightarrow>
    neg = [] \<and> \<not> b \<or> neg = [(TOK_NOT, z)] \<and> b \<Longrightarrow>
    derives NComparison (EIn e its b) (us @ neg @ (TOK_IN, x) # (TOK_LPAREN, y) # vs @ [(TOK_RPAREN, w)])"
| cmp_like: "derives NPrimary e us \<Longrightarrow> neg = [] \<and> \<not> b \<or> neg = [(TOK_NOT, z)] \<and> b \<Longrightarrow>
    derives NComparison (ELike e (likeToRegex p) b) (us @ neg @ [(TOK_LIKE, x), (TOK_STRING, p)])"
| cmp_rel: "derives NPrimary l us \<Longrightarrow> derives NPrimary r vs \<Longrightarrow> relational t \<Longrightarrow>
    derives NComparison (ERel t l r) (us @ (t, x) # vs)"
| prim_paren: "derives NOr e us \<Longrightarrow> derives NPrimary e ((TOK_LPAREN, x) # us @ [(TOK_RPAREN, y)])"
| prim_null: "derives NPrimary (ELit VNull) [(TOK_NULL_LIT, x)]"
| prim_true: "derives NPrimary (ELit (VBool True)) [(TOK_TRUE_LIT, x)]"
| prim_false: "derives NPrimary (ELit (VBool False)) [(TOK_FALSE_LIT, x)]"
| prim_string: "derives NPrimary (ELit (VString x)) [(TOK_STRING, x)]"
| prim_int: "stoll x = Inr i \<Longrightarrow> derives NPrimary (ELit (VInt i)) [(TOK_INT_LIT, x)]"
| prim_float: "stod x = Inr d \<Longrightarrow> derives NPrimary (ELit (VDouble d)) [(TOK_FLOAT_LIT, x)]"
| prim_ident: "derives NPrimary (EIdent x) [(TOK_IDENT, x)]"
| items_one: "derives NPrimary e us \<Longrightarrow> derives_items [e] us"
| items_more: "derives_items its us \<Longrightarrow> derives NPrimary e vs \<Longrightarrow> derives_items (its @ [e]) (us @ (TOK_COMMA, x) # vs)"

section \<open>What the parser accepts is derived\<close>

definition produces :: "category \<Rightarrow> parser_state \<Rightarrow> sel_expr \<Rightarrow> parser_state \<Rightarrow> bool" where
  "produces nt s e s' \<longleftrightarrow> (\<exists>us. consumes s us s' \<and> derives nt e us)"

definition sound_for :: "category \<Rightarrow> (parser_state \<Rightarrow> sel_expr parsed) \<Rightarrow> bool" where
  "sound_for nt p \<longleftrightarrow> (\<forall>s e s'. p s = Inr (e, s') \<longrightarrow> produces nt s e s')"

lemma sound_forD: "sound_for nt p \<Longrightarrow> p s = Inr (e, s') \<Longrightarrow> \<exists>us. consumes s us s' \<and> derives nt e us"
  unfolding sound_for_def produces_def by blast

lemma sound_forI: "(\<And>s e s'. p s = Inr (e, s') \<Longrightarrow> \<exists>us. consumes s us s' \<and> derives nt e us) \<Longrightarrow> sound_for nt p"
  unfolding sound_for_def produces_def by blast

lemma try_bind_Inr: "try_bind r f = Inr y \<longleftrightarrow> (\<exists>x. r = Inr x \<and> f x = Inr y)"
  by (cases r) auto

lemma consume_Inr: "consume t s = Inr (tk, s') \<longleftrightarrow> check t s \<and> advance s = Inr s' \<and> tk = fst s"
  by (auto simp: consume_def try_bind_Inr simp del: split_paired_Ex)

lemma consumes_end: "consumes s [] s"
  by simp

lemma consumes_tok: "check t s \<Longrightarrow> advance s = Inr s1 \<Longrightarrow> consumes s1 us s' \<Longrightarrow> t \<noteq> TOK_EOF \<Longrightarrow> consumes s ((t, snd (fst s)) # us) s'"
  by (auto simp: check_def simp del: split_paired_Ex)

lemma consumes_join: "consumes s us s1 \<Longrightarrow> consumes s1 vs s' \<Longrightarrow> consumes s (us @ vs) s'"
  unfolding consumes_append by blast

lemmas consumes_intros = consumes_join consumes_tok consumes_end

declare consumes.simps [simp del] split_paired_Ex [simp del]

lemma parse_literal_sound: "sound_for NPrimary parse_literal"
proof (rule sound_forI)
  fix s e s' assume p: "parse_literal s = Inr (e, s')"
  obtain t x r where s: "s = ((t, x), r)" by (metis surj_pair)
  from p show "\<exists>us. consumes s us s' \<and> derives NPrimary e us"
    unfolding parse_literal_def Let_def s check_def
    by (cases t; intro exI [of _ "[(t, x)]"])
      (auto simp: try_bind_Inr consumes.simps intro: derives_derives_items.intros)
qed

lemma parseItems_sound:
  assumes p: "sound_for NPrimary prim"
  shows "parseItems prim n its s = Inr (its', s') \<Longrightarrow> consumes s0 us s \<Longrightarrow> derives_items its us \<Longrightarrow>
    \<exists>us. consumes s0 us s' \<and> derives_items its' us"
proof (induction n arbitrary: its s us)
  case (Suc n)
  show ?case
  proof (cases "check TOK_COMMA s")
    case True
    with Suc.prems(1) obtain s1 item s2 where
      s: "advance s = Inr s1" "prim s1 = Inr (item, s2)" "parseItems prim n (its @ [item]) s2 = Inr (its', s')"
      by (auto simp: try_bind_Inr)
    from sound_forD [OF p s(2)] obtain vs where v: "consumes s1 vs s2" "derives NPrimary item vs" by blast
    show ?thesis
    proof (rule Suc.IH [OF s(3)])
      show "consumes s0 (us @ (TOK_COMMA, snd (fst s)) # vs) s2"
        using Suc.prems(2) s(1) v(1) True by (fastforce intro: consumes_intros)
    qed (rule items_more [OF Suc.prems(3) v(2)])
  qed (use Suc.prems in auto)
qed simp

text \<open>The part of a comparison behind its first operand: \<open>s0\<close> is the state before the operand, \<open>us\<close> its tokens.  A NOT before
  BETWEEN, IN or LIKE has been read into \<open>neg\<close>.\<close>

definition negation :: "token list \<Rightarrow> bool \<Rightarrow> bool" where
  "negation neg b \<longleftrightarrow> (\<exists>z. neg = [] \<and> \<not> b \<or> neg = [(TOK_NOT, z)] \<and> b)"

lemma parse_is_null_sound:
  assumes "parse_is_null e s = Inr (e', s')" "check TOK_IS s" "consumes s0 us s" "derives NPrimary e us"
  shows "\<exists>us. consumes s0 us s' \<and> derives NComparison e' us"
proof -
  from assms(1) obtain s1 where s1: "advance s = Inr s1"
    and r: "try_bind (if check TOK_NOT s1 then advance s1 else Inr s1) (\<lambda>s2.
         try_bind (consume TOK_NULL_LIT s2) (\<lambda>(_, s3). Inr (EIsNull e (check TOK_NOT s1), s3))) = Inr (e', s')"
    by (auto simp: parse_is_null_def try_bind_Inr Let_def)
  from r obtain s2 where s2: "(if check TOK_NOT s1 then advance s1 else Inr s1) = Inr s2"
    "check TOK_NULL_LIT s2" "advance s2 = Inr s'" "e' = EIsNull e (check TOK_NOT s1)"
    by (auto simp: try_bind_Inr consume_Inr)
  show ?thesis
  proof (cases "check TOK_NOT s1")
    case True
    with s1 s2 assms(2,3) have "consumes s0 (us @ [(TOK_IS, snd (fst s)), (TOK_NOT, snd (fst s1)), (TOK_NULL_LIT, snd (fst s2))]) s'"
      by (fastforce intro: consumes_intros)
    with cmp_not_null [OF assms(4)] s2(4) True show ?thesis by auto
  next
    case False
    with s1 s2 assms(2,3) have "consumes s0 (us @ [(TOK_IS, snd (fst s)), (TOK_NULL_LIT, snd (fst s1))]) s'"
      by (fastforce intro: consumes_intros)
    with cmp_null [OF assms(4)] s2(4) False show ?thesis by auto
  qed
qed

lemma parse_like_sound:
  assumes "parse_like e b s = Inr (e', s')" "check TOK_LIKE s" "consumes s0 (us @ neg) s" "derives NPrimary e us" "negation neg b"
  shows "\<exists>us. consumes s0 us s' \<and> derives NComparison e' us"
proof -
  from assms(1) obtain s1 where s1: "advance s = Inr s1" "check TOK_STRING s1" "advance s1 = Inr s'"
    "e' = ELike e (likeToRegex (snd (fst s1))) b"
    by (auto simp: parse_like_def try_bind_Inr consume_Inr)
  have "consumes s0 ((us @ neg) @ [(TOK_LIKE, snd (fst s)), (TOK_STRING, snd (fst s1))]) s'"
    using s1 assms(2,3) by (fastforce intro: consumes_intros)
  moreover obtain z where "neg = [] \<and> \<not> b \<or> neg = [(TOK_NOT, z)] \<and> b" using assms(5) unfolding negation_def by blast
  ultimately show ?thesis using cmp_like [OF assms(4)] s1(4) by (metis append.assoc)
qed

lemma parse_relational_sound:
  assumes "parse_relational prim e s = Inr (e', s')" "relational (fst (fst s))" "sound_for NPrimary prim"
    "consumes s0 us s" "derives NPrimary e us"
  shows "\<exists>us. consumes s0 us s' \<and> derives NComparison e' us"
proof -
  from assms(1) obtain s1 r where s1: "advance s = Inr s1" "prim s1 = Inr (r, s')" "e' = ERel (fst (fst s)) e r"
    by (auto simp: parse_relational_def try_bind_Inr)
  from sound_forD [OF assms(3) s1(2)] obtain vs where v: "consumes s1 vs s'" "derives NPrimary r vs" by blast
  have "consumes s0 (us @ (fst (fst s), snd (fst s)) # vs) s'"
    using s1(1) v(1) assms(2) by (intro consumes_join [OF assms(4)] consumes_tok [OF _ s1(1)] v(1)) (auto simp: check_def relational_def)
  with cmp_rel [OF assms(5) v(2) assms(2)] s1(3) show ?thesis by blast
qed

lemma parse_between_sound:
  assumes "parse_between prim e b s = Inr (e', s')" "check TOK_BETWEEN s" "sound_for NPrimary prim"
    "consumes s0 (us @ neg) s" "derives NPrimary e us" "negation neg b"
  shows "\<exists>us. consumes s0 us s' \<and> derives NComparison e' us"
proof -
  from assms(1) obtain s1 lo s2 s3 hi where s: "advance s = Inr s1" "prim s1 = Inr (lo, s2)" "check TOK_AND s2"
    "advance s2 = Inr s3" "prim s3 = Inr (hi, s')" "e' = EBetween e lo hi b"
    by (auto simp: parse_between_def try_bind_Inr consume_Inr)
  from sound_forD [OF assms(3) s(2)] obtain vs where v: "consumes s1 vs s2" "derives NPrimary lo vs" by blast
  from sound_forD [OF assms(3) s(5)] obtain ws where w: "consumes s3 ws s'" "derives NPrimary hi ws" by blast
  have "consumes s0 ((us @ neg) @ (TOK_BETWEEN, snd (fst s)) # vs @ (TOK_AND, snd (fst s2)) # ws) s'"
    using s v w assms(2,4) by (fastforce intro: consumes_intros)
  moreover obtain z where "neg = [] \<and> \<not> b \<or> neg = [(TOK_NOT, z)] \<and> b" using assms(6) unfolding negation_def by blast
  ultimately show ?thesis using cmp_between [OF assms(5) v(2) w(2)] s(6) by (metis append.assoc)
qed

lemma parse_in_sound:
  assumes "parse_in prim n e b s = Inr (e', s')" "check TOK_IN s" "sound_for NPrimary prim"
    "consumes s0 (us @ neg) s" "derives NPrimary e us" "negation neg b"
  shows "\<exists>us. consumes s0 us s' \<and> derives NComparison e' us"
proof -
  from assms(1) obtain s1 s2 i s3 its s4 where s: "advance s = Inr s1" "check TOK_LPAREN s1" "advance s1 = Inr s2"
    "prim s2 = Inr (i, s3)" "parseItems prim n [i] s3 = Inr (its, s4)" "check TOK_RPAREN s4" "advance s4 = Inr s'"
    "e' = EIn e its b"
    by (auto simp: parse_in_def try_bind_Inr consume_Inr)
  from sound_forD [OF assms(3) s(4)] obtain vs where "consumes s2 vs s3" "derives_items [i] vs" by (blast intro: items_one)
  from parseItems_sound [OF assms(3) s(5) this] obtain vs where v: "consumes s2 vs s4" "derives_items its vs" by blast
  have "consumes s0 ((us @ neg) @ (TOK_IN, snd (fst s)) # (TOK_LPAREN, snd (fst s1)) # vs @ [(TOK_RPAREN, snd (fst s4))]) s'"
    using s v assms(2,4) by (fastforce intro: consumes_intros)
  moreover obtain z where "neg = [] \<and> \<not> b \<or> neg = [(TOK_NOT, z)] \<and> b" using assms(6) unfolding negation_def by blast
  ultimately show ?thesis using cmp_in [OF assms(5) v(2)] s(8) by (metis append.assoc)
qed

lemma parseComparison_sound:
  assumes p: "sound_for NPrimary prim" shows "sound_for NComparison (parseComparison prim n)"
proof (rule sound_forI)
  fix s e s' assume a: "parseComparison prim n s = Inr (e, s')"
  then obtain l s1 where s1: "prim s = Inr (l, s1)"
    by (auto simp: parseComparison_def try_bind_Inr)
  note r = a [unfolded parseComparison_def s1 try_bind_simps prod.case Let_def]
  from sound_forD [OF p s1] obtain us where u: "consumes s us s1" "derives NPrimary l us" by blast
  show "\<exists>us. consumes s us s' \<and> derives NComparison e us"
  proof (cases "check TOK_IS s1")
    case True
    with r have "parse_is_null l s1 = Inr (e, s')" by simp
    from parse_is_null_sound [OF this True u] show ?thesis .
  next
    case False
    with r obtain s2 where s2: "(if check TOK_NOT s1 then advance s1 else Inr s1) = Inr s2" and
      c: "(if check TOK_BETWEEN s2 then parse_between prim l (check TOK_NOT s1) s2
       else if check TOK_IN s2 then parse_in prim n l (check TOK_NOT s1) s2
       else if check TOK_LIKE s2 then parse_like l (check TOK_NOT s1) s2
       else if check TOK_NOT s1 then Inl InvalidSelector
       else if relational (fst (fst s2)) then parse_relational prim l s2
       else Inr (l, s2)) = Inr (e, s')" unfolding if_False try_bind_Inr by (simp only: if_False try_bind_Inr) blast
    obtain neg where neg: "consumes s (us @ neg) s2" "negation neg (check TOK_NOT s1)" and plain: "\<not> check TOK_NOT s1 \<Longrightarrow> s2 = s1"
    proof (cases "check TOK_NOT s1")
      case True
      with s2 u have "consumes s (us @ [(TOK_NOT, snd (fst s1))]) s2" by (auto intro: consumes_intros)
      with True that show thesis by (auto simp: negation_def)
    next
      case False
      with s2 u that [of "[]"] show thesis by (simp add: negation_def)
    qed
    consider "check TOK_BETWEEN s2" | "check TOK_IN s2" | "check TOK_LIKE s2"
      | "\<not> check TOK_BETWEEN s2" "\<not> check TOK_IN s2" "\<not> check TOK_LIKE s2" by blast
    then show ?thesis
    proof cases
      case 1
      with c show ?thesis by (intro parse_between_sound [OF _ 1 p neg(1) u(2) neg(2)]) simp
    next
      case 2
      with c show ?thesis by (intro parse_in_sound [OF _ 2 p neg(1) u(2) neg(2)]) (simp add: check_def)
    next
      case 3
      with c show ?thesis by (intro parse_like_sound [OF _ 3 neg(1) u(2) neg(2)]) (simp add: check_def)
    next
      case 4
      with c plain have s2: "s2 = s1" and
        d: "(if relational (fst (fst s1)) then parse_relational prim l s1 else Inr (l, s1)) = Inr (e, s')"
        by (auto split: if_splits)
      from d u show ?thesis
        using parse_relational_sound [OF _ _ p u] cmp_one [OF u(2)] by (cases "relational (fst (fst s1))") auto
    qed
  qed
qed

lemma parseNot_sound:
  assumes p: "sound_for NPrimary prim" shows "sound_for NNot (parseNot prim n)"
proof (induction n)
  case (Suc n)
  show ?case
  proof (rule sound_forI)
    fix s e s' assume a: "parseNot prim (Suc n) s = Inr (e, s')"
    show "\<exists>us. consumes s us s' \<and> derives NNot e us"
    proof (cases "check TOK_NOT s")
      case True
      with a obtain s1 e1 where s1: "advance s = Inr s1" "parseNot prim n s1 = Inr (e1, s')" "e = ENot e1"
        by (auto simp: try_bind_Inr)
      from sound_forD [OF Suc.IH s1(2)] obtain us where "consumes s1 us s'" "derives NNot e1 us" by blast
      with s1 True have "consumes s ((TOK_NOT, snd (fst s)) # us) s'" "derives NNot e ((TOK_NOT, snd (fst s)) # us)"
        by (auto intro: consumes_intros not_more)
      then show ?thesis by blast
    next
      case False
      with a have "parseComparison prim n s = Inr (e, s')" by simp
      from sound_forD [OF parseComparison_sound [OF p] this] show ?thesis by (blast intro: not_one)
    qed
  qed
qed (simp add: sound_for_def)

lemma andLoop_sound:
  assumes p: "sound_for NPrimary prim"
  shows "andLoop prim n l s = Inr (e, s') \<Longrightarrow> consumes s0 us s \<Longrightarrow> derives NAnd l us \<Longrightarrow>
    \<exists>us. consumes s0 us s' \<and> derives NAnd e us"
proof (induction n arbitrary: l s us)
  case (Suc n)
  show ?case
  proof (cases "check TOK_AND s")
    case True
    with Suc.prems(1) obtain s1 r s2 where
      s: "advance s = Inr s1" "parseNot prim n s1 = Inr (r, s2)" "andLoop prim n (EAnd l r) s2 = Inr (e, s')"
      by (auto simp: try_bind_Inr)
    from sound_forD [OF parseNot_sound [OF p] s(2)] obtain vs where v: "consumes s1 vs s2" "derives NNot r vs" by blast
    have "consumes s0 (us @ (TOK_AND, snd (fst s)) # vs) s2"
      using s(1) v(1) True Suc.prems(2) by (fastforce intro: consumes_intros)
    from Suc.IH [OF s(3) this and_more [OF Suc.prems(3) v(2)]] show ?thesis .
  qed (use Suc.prems in auto)
qed simp

lemma parseAnd_sound:
  assumes p: "sound_for NPrimary prim" shows "sound_for NAnd (parseAnd prim n)"
proof (rule sound_forI)
  fix s e s' assume "parseAnd prim n s = Inr (e, s')"
  then obtain l s1 where s: "parseNot prim n s = Inr (l, s1)" "andLoop prim n l s1 = Inr (e, s')"
    by (auto simp: parseAnd_def try_bind_Inr)
  from sound_forD [OF parseNot_sound [OF p] s(1)] obtain us where "consumes s us s1" "derives NAnd l us" by (blast intro: and_one)
  from andLoop_sound [OF p s(2) this] show "\<exists>us. consumes s us s' \<and> derives NAnd e us" .
qed

lemma orLoop_sound:
  assumes p: "sound_for NPrimary prim"
  shows "orLoop prim n l s = Inr (e, s') \<Longrightarrow> consumes s0 us s \<Longrightarrow> derives NOr l us \<Longrightarrow>
    \<exists>us. consumes s0 us s' \<and> derives NOr e us"
proof (induction n arbitrary: l s us)
  case (Suc n)
  show ?case
  proof (cases "check TOK_OR s")
    case True
    with Suc.prems(1) obtain s1 r s2 where
      s: "advance s = Inr s1" "parseAnd prim n s1 = Inr (r, s2)" "orLoop prim n (EOr l r) s2 = Inr (e, s')"
      by (auto simp: try_bind_Inr)
    from sound_forD [OF parseAnd_sound [OF p] s(2)] obtain vs where v: "consumes s1 vs s2" "derives NAnd r vs" by blast
    have "consumes s0 (us @ (TOK_OR, snd (fst s)) # vs) s2"
      using s(1) v(1) True Suc.prems(2) by (fastforce intro: consumes_intros)
    from Suc.IH [OF s(3) this or_more [OF Suc.prems(3) v(2)]] show ?thesis .
  qed (use Suc.prems in auto)
qed simp

lemma parseOr_sound:
  assumes p: "sound_for NPrimary prim" shows "sound_for NOr (parseOr prim n)"
proof (rule sound_forI)
  fix s e s' assume "parseOr prim n s = Inr (e, s')"
  then obtain l s1 where s: "parseAnd prim n s = Inr (l, s1)" "orLoop prim n l s1 = Inr (e, s')"
    by (auto simp: parseOr_def try_bind_Inr)
  from sound_forD [OF parseAnd_sound [OF p] s(1)] obtain us where "consumes s us s1" "derives NOr l us" by (blast intro: or_one)
  from orLoop_sound [OF p s(2) this] show "\<exists>us. consumes s us s' \<and> derives NOr e us" .
qed

lemma parsePrimary_sound: "sound_for NPrimary (parsePrimary n)"
proof (induction n)
  case (Suc n)
  show ?case
  proof (rule sound_forI)
    fix s e s' assume a: "parsePrimary (Suc n) s = Inr (e, s')"
    show "\<exists>us. consumes s us s' \<and> derives NPrimary e us"
    proof (cases "check TOK_LPAREN s")
      case True
      with a obtain s1 s2 where s: "advance s = Inr s1" "parseOr (parsePrimary n) n s1 = Inr (e, s2)"
        "check TOK_RPAREN s2" "advance s2 = Inr s'" by (auto simp: try_bind_Inr consume_Inr)
      from sound_forD [OF parseOr_sound [OF Suc.IH] s(2)] obtain us where u: "consumes s1 us s2" "derives NOr e us" by blast
      have "consumes s ((TOK_LPAREN, snd (fst s)) # us @ [(TOK_RPAREN, snd (fst s2))]) s'"
        using s u True by (fastforce intro: consumes_intros)
      with prim_paren [OF u(2)] show ?thesis by blast
    next
      case False
      with a sound_forD [OF parse_literal_sound] show ?thesis by simp
    qed
  qed
qed (simp add: sound_for_def)

section \<open>What is derived the parser accepts\<close>

text \<open>A call that gives \<open>y\<close> unless its fuel runs out; and one that comes to the loop \<open>f\<close> with some of its fuel left.\<close>

definition delivers :: "sel_error + 'a \<Rightarrow> 'a \<Rightarrow> bool" where
  "delivers r y \<longleftrightarrow> r = Inl OutOfFuel \<or> r = Inr y"

definition comes_to :: "sel_error + 'a \<Rightarrow> (nat \<Rightarrow> sel_error + 'a) \<Rightarrow> bool" where
  "comes_to r f \<longleftrightarrow> r = Inl OutOfFuel \<or> (\<exists>n. r = f n)"

lemma delivers_Inr [simp]: "delivers (Inr x) y \<longleftrightarrow> x = y"
  by (auto simp: delivers_def)

lemma delivers_fuel [simp]: "delivers (Inl OutOfFuel) y"
  by (simp add: delivers_def)

lemma delivers_bind: "delivers r x \<Longrightarrow> delivers (f x) y \<Longrightarrow> delivers (try_bind r f) y"
  by (auto simp: delivers_def)

lemma comes_to_bind: "delivers r x \<Longrightarrow> comes_to (f x) g \<Longrightarrow> comes_to (try_bind r f) g"
  by (auto simp: delivers_def comes_to_def)

lemma comes_to_step: "comes_to r f \<Longrightarrow> (\<And>n. comes_to (f n) g) \<Longrightarrow> comes_to r g"
  unfolding comes_to_def by metis

lemma comes_to_delivers: "comes_to r f \<Longrightarrow> (\<And>n. delivers (f n) y) \<Longrightarrow> delivers r y"
  unfolding comes_to_def delivers_def by metis

lemma comes_to_refl [simp]:
  "comes_to (orLoop prim n e s) (\<lambda>k. orLoop prim k e s)"
  "comes_to (andLoop prim n e s) (\<lambda>k. andLoop prim k e s)"
  "comes_to (parseItems prim n its s) (\<lambda>k. parseItems prim k its s)"
  unfolding comes_to_def by blast+

lemma delivers_bind_pair: "delivers r (x, s) \<Longrightarrow> delivers (f x s) y \<Longrightarrow> delivers (try_bind r (\<lambda>(x, s). f x s)) y"
  by (auto simp: delivers_def)

definition kind :: "parser_state \<Rightarrow> tokenType" where
  "kind s = fst (fst s)"

lemma check_kind: "check t s \<longleftrightarrow> kind s = t"
  by (simp add: check_def kind_def)

text \<open>What completeness means for each category: \<open>s\<close> and \<open>s'\<close> are the states before and behind the derived tokens, and the token
  behind them is one that can follow the category.\<close>

definition follows_condition :: "parser_state \<Rightarrow> bool" where
  "follows_condition s \<longleftrightarrow> kind s \<in> {TOK_EOF, TOK_RPAREN, TOK_OR, TOK_AND}"

fun complete_at :: "category \<Rightarrow> sel_expr \<Rightarrow> parser_state \<Rightarrow> parser_state \<Rightarrow> nat \<Rightarrow> nat \<Rightarrow> bool" where
  "complete_at NOr e s s' m n \<longleftrightarrow> (follows_condition s' \<and> kind s' \<noteq> TOK_AND \<longrightarrow>
     comes_to (parseOr (parsePrimary m) n s) (\<lambda>k. orLoop (parsePrimary m) k e s'))"
| "complete_at NAnd e s s' m n \<longleftrightarrow> (follows_condition s' \<longrightarrow>
     comes_to (parseAnd (parsePrimary m) n s) (\<lambda>k. andLoop (parsePrimary m) k e s'))"
| "complete_at NNot e s s' m n \<longleftrightarrow> (follows_condition s' \<longrightarrow> delivers (parseNot (parsePrimary m) n s) (e, s'))"
| "complete_at NComparison e s s' m n \<longleftrightarrow>
     (kind s \<noteq> TOK_NOT \<and> (follows_condition s' \<longrightarrow> delivers (parseComparison (parsePrimary m) n s) (e, s')))"
| "complete_at NPrimary e s s' m n \<longleftrightarrow> kind s \<noteq> TOK_NOT \<and> delivers (parsePrimary m s) (e, s')"

definition complete_for :: "category \<Rightarrow> sel_expr \<Rightarrow> token list \<Rightarrow> bool" where
  "complete_for nt e us \<longleftrightarrow> (\<forall>s s'. consumes s us s' \<longrightarrow> (\<forall>m n. complete_at nt e s s' m n))"

lemma complete_forI: "(\<And>s s' m n. consumes s us s' \<Longrightarrow> complete_at nt e s s' m n) \<Longrightarrow> complete_for nt e us"
  unfolding complete_for_def by blast

lemma complete_forD: "complete_for nt e us \<Longrightarrow> consumes s us s' \<Longrightarrow> complete_at nt e s s' m n"
  unfolding complete_for_def by blast

definition complete_items :: "sel_expr list \<Rightarrow> token list \<Rightarrow> bool" where
  "complete_items its us \<longleftrightarrow> (\<forall>m n s s'. consumes s us s' \<longrightarrow> kind s' \<in> {TOK_COMMA, TOK_RPAREN} \<longrightarrow>
     comes_to (try_bind (parsePrimary m s) (\<lambda>(i, s1). parseItems (parsePrimary m) n [i] s1))
       (\<lambda>k. parseItems (parsePrimary m) k its s'))"

lemma consumes_split:
  "consumes s (us @ vs) s' \<Longrightarrow> (\<And>s1. consumes s us s1 \<Longrightarrow> consumes s1 vs s' \<Longrightarrow> thesis) \<Longrightarrow> thesis"
  unfolding consumes_append by blast

lemma consumes_step:
  "consumes s ((t, x) # us) s' \<Longrightarrow> (\<And>s1. kind s = t \<Longrightarrow> snd (fst s) = x \<Longrightarrow> advance s = Inr s1 \<Longrightarrow> consumes s1 us s' \<Longrightarrow> thesis) \<Longrightarrow> thesis"
  unfolding consumes.simps kind_def by (metis fst_conv snd_conv)

lemma consumes_nil: "consumes s [] s' \<longleftrightarrow> s' = s"
  by (simp add: consumes.simps)

lemma orLoop_stops: "kind s \<noteq> TOK_OR \<Longrightarrow> delivers (orLoop prim n e s) (e, s)"
  by (cases n) (simp_all add: check_kind)

lemma andLoop_stops: "kind s \<noteq> TOK_AND \<Longrightarrow> delivers (andLoop prim n e s) (e, s)"
  by (cases n) (simp_all add: check_kind)

lemma parseItems_stops: "kind s \<noteq> TOK_COMMA \<Longrightarrow> delivers (parseItems prim n its s) (its, s)"
  by (cases n) (simp_all add: check_kind)

lemma parseAnd_complete:
  assumes "complete_for NAnd e us" "consumes s us s'" "follows_condition s'" "kind s' \<noteq> TOK_AND"
  shows "delivers (parseAnd (parsePrimary m) n s) (e, s')"
  using complete_forD [OF assms(1,2), of m n] assms(3)
  by (auto intro: comes_to_delivers [OF _ andLoop_stops [OF assms(4)]])

lemma or_one_complete: "complete_for NAnd e us \<Longrightarrow> complete_for NOr e us"
proof (rule complete_forI, unfold complete_at.simps, intro impI)
  fix m n s s' assume "complete_for NAnd e us" "consumes s us s'" "follows_condition s' \<and> kind s' \<noteq> TOK_AND"
  then have "delivers (parseAnd (parsePrimary m) n s) (e, s')" by (blast intro: parseAnd_complete)
  then show "comes_to (parseOr (parsePrimary m) n s) (\<lambda>k. orLoop (parsePrimary m) k e s')"
    unfolding parseOr_def by (rule comes_to_bind) simp
qed

lemma or_more_complete:
  assumes "complete_for NOr l us" "complete_for NAnd r vs" shows "complete_for NOr (EOr l r) (us @ (TOK_OR, x) # vs)"
proof (rule complete_forI, unfold complete_at.simps, intro impI)
  fix m n s s' assume "consumes s (us @ (TOK_OR, x) # vs) s'" and s': "follows_condition s' \<and> kind s' \<noteq> TOK_AND"
  then obtain s1 s2 where r: "consumes s us s1" "kind s1 = TOK_OR" "advance s1 = Inr s2" "consumes s2 vs s'"
    by (elim consumes_split consumes_step)
  have "comes_to (parseOr (parsePrimary m) n s) (\<lambda>k. orLoop (parsePrimary m) k l s1)"
    using complete_forD [OF assms(1) r(1), of m n] r(2) by (simp add: follows_condition_def)
  then show "comes_to (parseOr (parsePrimary m) n s) (\<lambda>k. orLoop (parsePrimary m) k (EOr l r) s')"
  proof (rule comes_to_step)
    fix k show "comes_to (orLoop (parsePrimary m) k l s1) (\<lambda>k. orLoop (parsePrimary m) k (EOr l r) s')"
    proof (cases k)
      case (Suc j)
      have "comes_to (try_bind (parseAnd (parsePrimary m) j s2) (\<lambda>(right, s2). orLoop (parsePrimary m) j (EOr l right) s2))
          (\<lambda>k. orLoop (parsePrimary m) k (EOr l r) s')"
        using parseAnd_complete [OF assms(2) r(4)] s' by (intro comes_to_bind) auto
      with Suc r(2,3) show ?thesis by (simp add: check_kind)
    qed (simp add: comes_to_def)
  qed
qed

lemma and_one_complete: "complete_for NNot e us \<Longrightarrow> complete_for NAnd e us"
proof (rule complete_forI, unfold complete_at.simps, intro impI)
  fix m n s s' assume "complete_for NNot e us" "consumes s us s'" "follows_condition s'"
  then have "delivers (parseNot (parsePrimary m) n s) (e, s')" by (auto dest: complete_forD)
  then show "comes_to (parseAnd (parsePrimary m) n s) (\<lambda>k. andLoop (parsePrimary m) k e s')"
    unfolding parseAnd_def by (rule comes_to_bind) simp
qed

lemma and_more_complete:
  assumes "complete_for NAnd l us" "complete_for NNot r vs" shows "complete_for NAnd (EAnd l r) (us @ (TOK_AND, x) # vs)"
proof (rule complete_forI, unfold complete_at.simps, intro impI)
  fix m n s s' assume "consumes s (us @ (TOK_AND, x) # vs) s'" and s': "follows_condition s'"
  then obtain s1 s2 where r: "consumes s us s1" "kind s1 = TOK_AND" "advance s1 = Inr s2" "consumes s2 vs s'"
    by (elim consumes_split consumes_step)
  have "comes_to (parseAnd (parsePrimary m) n s) (\<lambda>k. andLoop (parsePrimary m) k l s1)"
    using complete_forD [OF assms(1) r(1), of m n] r(2) by (simp add: follows_condition_def)
  then show "comes_to (parseAnd (parsePrimary m) n s) (\<lambda>k. andLoop (parsePrimary m) k (EAnd l r) s')"
  proof (rule comes_to_step)
    fix k show "comes_to (andLoop (parsePrimary m) k l s1) (\<lambda>k. andLoop (parsePrimary m) k (EAnd l r) s')"
    proof (cases k)
      case (Suc j)
      have "comes_to (try_bind (parseNot (parsePrimary m) j s2) (\<lambda>(right, s2). andLoop (parsePrimary m) j (EAnd l right) s2))
          (\<lambda>k. andLoop (parsePrimary m) k (EAnd l r) s')"
        using complete_forD [OF assms(2) r(4), of m j] s' by (intro comes_to_bind) auto
      with Suc r(2,3) show ?thesis by (simp add: check_kind)
    qed (simp add: comes_to_def)
  qed
qed

lemma not_one_complete: "complete_for NComparison e us \<Longrightarrow> complete_for NNot e us"
proof (rule complete_forI)
  fix m n s s' assume "complete_for NComparison e us" "consumes s us s'"
  then have "complete_at NComparison e s s' m k" for k by (rule complete_forD)
  then show "complete_at NNot e s s' m n" by (cases n) (simp_all add: check_kind)
qed

lemma not_more_complete: "complete_for NNot e us \<Longrightarrow> complete_for NNot (ENot e) ((TOK_NOT, x) # us)"
proof (rule complete_forI, unfold complete_at.simps, intro impI)
  fix m n s s' assume a: "complete_for NNot e us" "consumes s ((TOK_NOT, x) # us) s'" "follows_condition s'"
  from a(2) obtain s1 where r: "kind s = TOK_NOT" "advance s = Inr s1" "consumes s1 us s'" by (elim consumes_step)
  have "delivers (parseNot (parsePrimary m) k s1) (e, s')" for k using complete_forD [OF a(1) r(3), of m k] a(3) by simp
  then show "delivers (parseNot (parsePrimary m) n s) (ENot e, s')"
    using r by (cases n) (auto simp: check_kind intro!: delivers_bind_pair [where x = e and s = s'])
qed

lemma comparison_starts:
  assumes "complete_for NPrimary e us" "consumes s us s1"
  shows "kind s \<noteq> TOK_NOT" "delivers (parsePrimary m s) (e, s1)"
  using complete_forD [OF assms, of m 0] by simp_all

lemma cmp_one_complete: "complete_for NPrimary e us \<Longrightarrow> complete_for NComparison e us"
proof (rule complete_forI)
  fix m n s s' assume "complete_for NPrimary e us" "consumes s us s'"
  note p = comparison_starts [OF this]
  have "delivers (parseComparison (parsePrimary m) n s) (e, s')" if "follows_condition s'"
    unfolding parseComparison_def
    by (rule delivers_bind_pair [OF p(2)])
      (use that in \<open>auto simp: follows_condition_def check_kind kind_def [symmetric] relational_def\<close>)
  with p(1) show "complete_at NComparison e s s' m n" by simp
qed

lemma cmp_null_complete:
  assumes "complete_for NPrimary e us"
  shows "complete_for NComparison (EIsNull e False) (us @ [(TOK_IS, x), (TOK_NULL_LIT, y)])"
proof (rule complete_forI)
  fix m n s s' assume "consumes s (us @ [(TOK_IS, x), (TOK_NULL_LIT, y)]) s'"
  then obtain s1 s2 where r: "consumes s us s1" "kind s1 = TOK_IS" "advance s1 = Inr s2" "kind s2 = TOK_NULL_LIT" "advance s2 = Inr s'"
    by (elim consumes_split consumes_step) (simp add: consumes_nil)
  note p = comparison_starts [OF assms r(1)]
  have "delivers (parseComparison (parsePrimary m) n s) (EIsNull e False, s')"
    unfolding parseComparison_def
    by (rule delivers_bind_pair [OF p(2)]) (simp add: r check_kind parse_is_null_def consume_def)
  with p(1) show "complete_at NComparison (EIsNull e False) s s' m n" by simp
qed

lemma cmp_not_null_complete:
  assumes "complete_for NPrimary e us"
  shows "complete_for NComparison (EIsNull e True) (us @ [(TOK_IS, x), (TOK_NOT, z), (TOK_NULL_LIT, y)])"
proof (rule complete_forI)
  fix m n s s' assume "consumes s (us @ [(TOK_IS, x), (TOK_NOT, z), (TOK_NULL_LIT, y)]) s'"
  then obtain s1 s2 s3 where r: "consumes s us s1" "kind s1 = TOK_IS" "advance s1 = Inr s2" "kind s2 = TOK_NOT" "advance s2 = Inr s3"
    "kind s3 = TOK_NULL_LIT" "advance s3 = Inr s'"
    by (elim consumes_split consumes_step) (simp add: consumes_nil)
  note p = comparison_starts [OF assms r(1)]
  have "delivers (parseComparison (parsePrimary m) n s) (EIsNull e True, s')"
    unfolding parseComparison_def
    by (rule delivers_bind_pair [OF p(2)]) (simp add: r check_kind parse_is_null_def consume_def)
  with p(1) show "complete_at NComparison (EIsNull e True) s s' m n" by simp
qed

text \<open>The optional NOT in front of BETWEEN, IN and LIKE.\<close>

definition after_operand :: "(parser_state \<Rightarrow> sel_expr parsed) \<Rightarrow> nat \<Rightarrow> sel_expr \<Rightarrow> bool \<Rightarrow> parser_state \<Rightarrow> sel_expr parsed" where
  "after_operand prim n left negated s =
     (if check TOK_BETWEEN s then parse_between prim left negated s
      else if check TOK_IN s then parse_in prim n left negated s
      else parse_like left negated s)"

lemma parseComparison_negated:
  assumes "complete_for NPrimary e us" "consumes s (us @ neg @ (t, x) # vs) s'" "negation neg b" "t \<in> {TOK_BETWEEN, TOK_IN, TOK_LIKE}"
    and k: "\<And>s2. kind s2 = t \<Longrightarrow> consumes s2 ((t, x) # vs) s' \<Longrightarrow> delivers (after_operand (parsePrimary m) n e b s2) (c, s')"
  shows "complete_at NComparison c s s' m n"
proof -
  obtain s1 s2 where r: "consumes s us s1" "consumes s1 neg s2" "consumes s2 ((t, x) # vs) s'"
    using assms(2) by (elim consumes_split)
  then have s2: "kind s2 = t" by (elim consumes_step)
  note p = comparison_starts [OF assms(1) r(1)]
  have b: "kind s1 = TOK_NOT \<and> advance s1 = Inr s2 \<and> b \<or> s1 = s2 \<and> \<not> b"
    using assms(3) r(2) unfolding negation_def by (auto simp: consumes_nil elim: consumes_step)
  have "delivers (parseComparison (parsePrimary m) n s) (c, s')"
    unfolding parseComparison_def
  proof (rule delivers_bind_pair [OF p(2)])
    have "delivers (after_operand (parsePrimary m) n e b s2) (c, s')" by (rule k [OF s2 r(3)])
    then show "delivers (if check TOK_IS s1 then parse_is_null e s1
       else let negated = check TOK_NOT s1 in
         try_bind (if negated then advance s1 else Inr s1) (\<lambda>s2.
           if check TOK_BETWEEN s2 then parse_between (parsePrimary m) e negated s2
           else if check TOK_IN s2 then parse_in (parsePrimary m) n e negated s2
           else if check TOK_LIKE s2 then parse_like e negated s2
           else if negated then Inl InvalidSelector
           else if relational (fst (fst s2)) then parse_relational (parsePrimary m) e s2
           else Inr (e, s2))) (c, s')"
      using b s2 assms(4) by (elim disjE conjE) (auto simp: after_operand_def check_kind)
  qed
  with p(1) show ?thesis by simp
qed

lemma cmp_like_complete:
  assumes "complete_for NPrimary e us" "negation neg b"
  shows "complete_for NComparison (ELike e (likeToRegex p) b) (us @ neg @ [(TOK_LIKE, x), (TOK_STRING, p)])"
proof (rule complete_forI, rule parseComparison_negated [OF assms(1) _ assms(2)])
  fix m n s' s2 assume s2: "kind s2 = TOK_LIKE" "consumes s2 [(TOK_LIKE, x), (TOK_STRING, p)] s'"
  then obtain s3 where "advance s2 = Inr s3" "kind s3 = TOK_STRING" "snd (fst s3) = p" "advance s3 = Inr s'"
    by (elim consumes_step) (simp add: consumes_nil)
  with s2(1) show "delivers (after_operand (parsePrimary m) n e b s2) (ELike e (likeToRegex p) b, s')"
    by (simp add: after_operand_def check_kind parse_like_def consume_def)
qed auto

lemma cmp_between_complete:
  assumes "complete_for NPrimary e us" "complete_for NPrimary lo vs" "complete_for NPrimary hi ws" "negation neg b"
  shows "complete_for NComparison (EBetween e lo hi b) (us @ neg @ (TOK_BETWEEN, x) # vs @ (TOK_AND, y) # ws)"
proof (rule complete_forI, rule parseComparison_negated [OF assms(1) _ assms(4)])
  fix m n s' s2 assume s2: "kind s2 = TOK_BETWEEN" "consumes s2 ((TOK_BETWEEN, x) # vs @ (TOK_AND, y) # ws) s'"
  then obtain s3 s4 s5 where r: "advance s2 = Inr s3" "consumes s3 vs s4" "kind s4 = TOK_AND" "advance s4 = Inr s5" "consumes s5 ws s'"
    by (elim consumes_step consumes_split)
  have "delivers (parse_between (parsePrimary m) e b s2) (EBetween e lo hi b, s')"
    unfolding parse_between_def r(1) try_bind_simps
    by (rule delivers_bind_pair [OF comparison_starts(2) [OF assms(2) r(2)]])
      (simp add: consume_def check_kind r delivers_bind_pair [OF comparison_starts(2) [OF assms(3) r(5)]])
  with s2(1) show "delivers (after_operand (parsePrimary m) n e b s2) (EBetween e lo hi b, s')"
    by (simp add: after_operand_def check_kind)
qed auto

lemma cmp_in_complete:
  assumes "complete_for NPrimary e us" "complete_items its vs" "negation neg b"
  shows "complete_for NComparison (EIn e its b) (us @ neg @ (TOK_IN, x) # (TOK_LPAREN, y) # vs @ [(TOK_RPAREN, w)])"
proof (rule complete_forI, rule parseComparison_negated [OF assms(1) _ assms(3)])
  fix m n s' s2 assume s2: "kind s2 = TOK_IN" "consumes s2 ((TOK_IN, x) # (TOK_LPAREN, y) # vs @ [(TOK_RPAREN, w)]) s'"
  then obtain s3 s4 s5 where r: "advance s2 = Inr s3" "kind s3 = TOK_LPAREN" "advance s3 = Inr s4" "consumes s4 vs s5"
    "kind s5 = TOK_RPAREN" "advance s5 = Inr s'"
    by (elim consumes_step consumes_split) (simp add: consumes_nil)
  have "comes_to (try_bind (parsePrimary m s4) (\<lambda>(i, s1). parseItems (parsePrimary m) n [i] s1))
      (\<lambda>k. parseItems (parsePrimary m) k its s5)"
    using assms(2) r(4,5) unfolding complete_items_def by blast
  then have d: "delivers (try_bind (parsePrimary m s4) (\<lambda>(i, s1). parseItems (parsePrimary m) n [i] s1)) (its, s5)"
    by (rule comes_to_delivers) (simp add: parseItems_stops r(5))
  have "parse_in (parsePrimary m) n e b s2 =
      try_bind (try_bind (parsePrimary m s4) (\<lambda>(i, s1). parseItems (parsePrimary m) n [i] s1))
        (\<lambda>(its, s4). try_bind (consume TOK_RPAREN s4) (\<lambda>(_, s5). Inr (EIn e its b, s5)))"
    unfolding parse_in_def r(1) try_bind_simps by (cases "parsePrimary m s4") (auto simp: consume_def check_kind r)
  moreover have "delivers \<dots> (EIn e its b, s')"
    by (rule delivers_bind_pair [OF d]) (simp add: consume_def check_kind r)
  ultimately show "delivers (after_operand (parsePrimary m) n e b s2) (EIn e its b, s')"
    using s2(1) by (simp add: after_operand_def check_kind)
qed auto

lemma cmp_rel_complete:
  assumes "complete_for NPrimary l us" "complete_for NPrimary r vs" "relational t"
  shows "complete_for NComparison (ERel t l r) (us @ (t, x) # vs)"
proof (rule complete_forI)
  fix m n s s' assume "consumes s (us @ (t, x) # vs) s'"
  then obtain s1 s2 where r: "consumes s us s1" "kind s1 = t" "advance s1 = Inr s2" "consumes s2 vs s'"
    by (elim consumes_split consumes_step)
  note p = comparison_starts [OF assms(1) r(1)]
  have "delivers (parse_relational (parsePrimary m) l s1) (ERel t l r, s')"
    unfolding parse_relational_def r(3) try_bind_simps
    by (rule delivers_bind_pair [OF comparison_starts(2) [OF assms(2) r(4)]]) (use r(2) in \<open>simp add: kind_def\<close>)
  then have "delivers (parseComparison (parsePrimary m) n s) (ERel t l r, s')"
    unfolding parseComparison_def
    by (intro delivers_bind_pair [OF p(2)])
      (use assms(3) r(2) in \<open>auto simp: check_kind kind_def [symmetric] relational_def\<close>)
  with p(1) show "complete_at NComparison (ERel t l r) s s' m n" by simp
qed

lemma prim_paren_complete:
  assumes "complete_for NOr e us" shows "complete_for NPrimary e ((TOK_LPAREN, x) # us @ [(TOK_RPAREN, y)])"
proof (rule complete_forI)
  fix m n s s' assume "consumes s ((TOK_LPAREN, x) # us @ [(TOK_RPAREN, y)]) s'"
  then obtain s1 s2 where r: "kind s = TOK_LPAREN" "advance s = Inr s1" "consumes s1 us s2" "kind s2 = TOK_RPAREN" "advance s2 = Inr s'"
    by (elim consumes_split consumes_step) (simp add: consumes_nil)
  have d: "delivers (parseOr (parsePrimary k) k s1) (e, s2)" for k
    using complete_forD [OF assms r(3), of k k] r(4)
    by (auto simp: follows_condition_def intro: comes_to_delivers [OF _ orLoop_stops])
  have "delivers (parsePrimary m s) (e, s')"
  proof (cases m)
    case (Suc k)
    have "delivers (try_bind (parseOr (parsePrimary k) k s1) (\<lambda>(e, s2). try_bind (consume TOK_RPAREN s2) (\<lambda>(_, s3). Inr (e, s3)))) (e, s')"
      by (rule delivers_bind_pair [OF d]) (simp add: consume_def check_kind r)
    with Suc r(1,2) show ?thesis by (simp add: check_kind)
  qed simp
  with r(1) show "complete_at NPrimary e s s' m n" by simp
qed

text \<open>A literal and an identifier are one token.\<close>

lemma prim_token_complete:
  assumes "\<And>s s'. fst s = (t, x) \<Longrightarrow> advance s = Inr s' \<Longrightarrow> parse_literal s = Inr (e, s')" "t \<noteq> TOK_NOT" "t \<noteq> TOK_LPAREN"
  shows "complete_for NPrimary e [(t, x)]"
proof (rule complete_forI)
  fix m n s s' assume "consumes s [(t, x)] s'"
  then have s: "fst s = (t, x)" "advance s = Inr s'" by (auto simp: consumes.simps)
  then have "delivers (parsePrimary m s) (e, s')" using assms(1) [OF s] assms(3) by (cases m) (simp_all add: check_def)
  with s(1) assms(2) show "complete_at NPrimary e s s' m n" by (simp add: kind_def)
qed

lemma prim_tokens_complete:
  "complete_for NPrimary (ELit VNull) [(TOK_NULL_LIT, x)]"
  "complete_for NPrimary (ELit (VBool True)) [(TOK_TRUE_LIT, x)]"
  "complete_for NPrimary (ELit (VBool False)) [(TOK_FALSE_LIT, x)]"
  "complete_for NPrimary (ELit (VString x)) [(TOK_STRING, x)]"
  "stoll x = Inr i \<Longrightarrow> complete_for NPrimary (ELit (VInt i)) [(TOK_INT_LIT, x)]"
  "stod x = Inr d \<Longrightarrow> complete_for NPrimary (ELit (VDouble d)) [(TOK_FLOAT_LIT, x)]"
  "complete_for NPrimary (EIdent x) [(TOK_IDENT, x)]"
  by (rule prim_token_complete; simp add: parse_literal_def check_def Let_def)+

lemma items_one_complete: "complete_for NPrimary e us \<Longrightarrow> complete_items [e] us"
  unfolding complete_items_def
proof (intro allI impI)
  fix m n s s' assume "complete_for NPrimary e us" "consumes s us s'"
  then have "delivers (parsePrimary m s) (e, s')" by (rule comparison_starts(2))
  then show "comes_to (try_bind (parsePrimary m s) (\<lambda>(i, s1). parseItems (parsePrimary m) n [i] s1))
      (\<lambda>k. parseItems (parsePrimary m) k [e] s')" by (rule comes_to_bind) simp
qed

lemma items_more_complete:
  assumes "complete_items its us" "complete_for NPrimary e vs" shows "complete_items (its @ [e]) (us @ (TOK_COMMA, x) # vs)"
  unfolding complete_items_def
proof (intro allI impI)
  fix m n s s' assume "consumes s (us @ (TOK_COMMA, x) # vs) s'"
  then obtain s1 s2 where r: "consumes s us s1" "kind s1 = TOK_COMMA" "advance s1 = Inr s2" "consumes s2 vs s'"
    by (elim consumes_split consumes_step)
  let ?start = "try_bind (parsePrimary m s) (\<lambda>(i, s1). parseItems (parsePrimary m) n [i] s1)"
  have "comes_to ?start (\<lambda>k. parseItems (parsePrimary m) k its s1)"
    using assms(1) r(1,2) unfolding complete_items_def by blast
  then show "comes_to ?start (\<lambda>k. parseItems (parsePrimary m) k (its @ [e]) s')"
  proof (rule comes_to_step)
    fix k show "comes_to (parseItems (parsePrimary m) k its s1) (\<lambda>k. parseItems (parsePrimary m) k (its @ [e]) s')"
    proof (cases k)
      case (Suc j)
      have "comes_to (try_bind (parsePrimary m s2) (\<lambda>(item, s2). parseItems (parsePrimary m) j (its @ [item]) s2))
          (\<lambda>k. parseItems (parsePrimary m) k (its @ [e]) s')"
        by (rule comes_to_bind [OF comparison_starts(2) [OF assms(2) r(4)]]) simp
      with Suc r(2,3) show ?thesis by (simp add: check_kind)
    qed (simp add: comes_to_def)
  qed
qed

lemma derives_complete:
  "derives nt e us \<Longrightarrow> complete_for nt e us"
  "derives_items its us \<Longrightarrow> complete_items its us"
proof (induction rule: derives_derives_items.inducts)
  case (cmp_between e us lo vs hi ws neg b z x y)
  then show ?case by (intro cmp_between_complete) (auto simp: negation_def)
next
  case (cmp_in e us its vs neg b z x y w)
  then show ?case by (intro cmp_in_complete) (auto simp: negation_def)
next
  case (cmp_like e us neg b z p x)
  then show ?case by (intro cmp_like_complete) (auto simp: negation_def)
qed (blast intro: or_one_complete or_more_complete and_one_complete and_more_complete not_one_complete not_more_complete
    cmp_one_complete cmp_null_complete cmp_not_null_complete cmp_rel_complete prim_paren_complete prim_tokens_complete
    items_one_complete items_more_complete)+

section \<open>The parser and the grammar\<close>

lemma parse_derives:
  assumes "x \<noteq> []" "selector_parse x = Inr e" shows "\<exists>ts. tokenise x = Inr ts \<and> derives NOr e ts"
proof -
  let ?n = "parser_fuel x"
  from assms obtain s s' where s: "tok_next x = Inr s" "parseOr (parsePrimary ?n) ?n s = Inr (e, s')" "check TOK_EOF s'"
    by (auto simp: selector_parse_def try_bind_Inr split: if_splits)
  from sound_forD [OF parseOr_sound [OF parsePrimary_sound] s(2)] obtain us where "consumes s us s'" "derives NOr e us" by blast
  with s(1,3) consumes_all_tokens show ?thesis by blast
qed

lemma derives_parse:
  assumes "x \<noteq> []" "tokenise x = Inr ts" "derives NOr e ts" shows "selector_parse x = Inr e"
proof -
  let ?n = "parser_fuel x"
  from assms(2) obtain s s' where s: "tok_next x = Inr s" "consumes s ts s'" "check TOK_EOF s'" unfolding consumes_all_tokens by blast
  have "delivers (parseOr (parsePrimary ?n) ?n s) (e, s')"
    using complete_forD [OF derives_complete(1) [OF assms(3)] s(2), of ?n ?n] s(3)
    by (auto simp: follows_condition_def check_kind intro: comes_to_delivers [OF _ orLoop_stops])
  then have "delivers (selector_parse x) e"
    using assms(1) s by (auto simp: delivers_def selector_parse_def)
  with selector_parse_total [of x] show ?thesis by (simp add: delivers_def)
qed

declare split_paired_Ex [simp]

text \<open>C37: the parser and the grammar are the same: a text that is not empty is accepted with an expression exactly when its tokens
  derive that expression in the grammar of selectors (OR below AND below NOT below comparisons below primaries, OR and AND to the left, the NOT of a
  comparison in front of BETWEEN, IN and LIKE), and every other text is refused.\<close>

theorem parser_accepts_the_grammar:
  assumes "x \<noteq> []"
  shows "selector_parse x = Inr e \<longleftrightarrow> (\<exists>ts. tokenise x = Inr ts \<and> derives NOr e ts)"
  using parse_derives [OF assms] derives_parse [OF assms] by blast

theorem parser_accepts_the_grammar_witness:
  "selector_parse ''NOT a=-1'' = Inr (ENot (ERel TOK_EQ (EIdent ''a'') (ELit (VInt (- 1))))) \<and>
   (\<exists>ts. tokenise ''NOT a=-1'' = Inr ts \<and> derives NOr (ENot (ERel TOK_EQ (EIdent ''a'') (ELit (VInt (- 1))))) ts)"
proof -
  have "selector_parse ''NOT a=-1'' = Inr (ENot (ERel TOK_EQ (EIdent ''a'') (ELit (VInt (- 1)))))" by code_simp
  then show ?thesis using parser_accepts_the_grammar [of "''NOT a=-1''"] by simp
qed

section \<open>Types\<close>

text \<open>What an expression can evaluate to: a condition is a boolean or unknown, and a definite one always a boolean.  Comparisons,
  \<open>BETWEEN\<close>, \<open>IN\<close> and \<open>LIKE\<close> are conditions; definite are only \<open>IS NULL\<close>, the boolean literals, \<open>LIKE\<close> on a text literal, and
  what \<open>AND\<close>, \<open>OR\<close> and \<open>NOT\<close> make of these.\<close>

datatype sel_type = TyNull | TyBool | TyCondition | TyNumber | TyText | TyAny

fun expr_type :: "sel_expr \<Rightarrow> sel_type" where
  "expr_type (ELit v) = (case v of VNull \<Rightarrow> TyNull | VBool _ \<Rightarrow> TyBool | VInt _ \<Rightarrow> TyNumber | VDouble _ \<Rightarrow> TyNumber | VString _ \<Rightarrow> TyText)"
| "expr_type (EIdent n) = TyAny"
| "expr_type (EOr l r) = (if expr_type l = TyBool \<and> expr_type r = TyBool then TyBool else TyCondition)"
| "expr_type (EAnd l r) = (if expr_type l = TyBool \<and> expr_type r = TyBool then TyBool else TyCondition)"
| "expr_type (ENot e) = (if expr_type e = TyBool then TyBool else TyCondition)"
| "expr_type (EIsNull e b) = TyBool"
| "expr_type (EBetween e lo hi b) = TyCondition"
| "expr_type (EIn e its b) = TyCondition"
| "expr_type (ELike e p b) = (if expr_type e = TyText then TyBool else TyCondition)"
| "expr_type (ERel t l r) = TyCondition"

fun has_type :: "selectorValue \<Rightarrow> sel_type \<Rightarrow> bool" where
  "has_type v TyNull \<longleftrightarrow> v = VNull"
| "has_type v TyBool \<longleftrightarrow> holds_bool v"
| "has_type v TyCondition \<longleftrightarrow> v = VNull \<or> holds_bool v"
| "has_type v TyNumber \<longleftrightarrow> isNumeric v"
| "has_type v TyText \<longleftrightarrow> (case v of VString _ \<Rightarrow> True | _ \<Rightarrow> False)"
| "has_type v TyAny \<longleftrightarrow> True"

text \<open>Well-formed: comparisons with a comparison operator only, non-empty lists, regular expressions made from patterns, and
  double literals that are finite.\<close>

fun well_formed :: "sel_expr \<Rightarrow> bool" where
  "well_formed (ELit v) \<longleftrightarrow> (case v of VDouble d \<Rightarrow> (case d of FFin _ \<Rightarrow> True | _ \<Rightarrow> False) | _ \<Rightarrow> True)"
| "well_formed (EIdent n) \<longleftrightarrow> True"
| "well_formed (EOr l r) \<longleftrightarrow> well_formed l \<and> well_formed r"
| "well_formed (EAnd l r) \<longleftrightarrow> well_formed l \<and> well_formed r"
| "well_formed (ENot e) \<longleftrightarrow> well_formed e"
| "well_formed (EIsNull e b) \<longleftrightarrow> well_formed e"
| "well_formed (EBetween e lo hi b) \<longleftrightarrow> well_formed e \<and> well_formed lo \<and> well_formed hi"
| "well_formed (EIn e its b) \<longleftrightarrow> well_formed e \<and> its \<noteq> [] \<and> (\<forall>i \<in> set its. well_formed i)"
| "well_formed (ELike e p b) \<longleftrightarrow> well_formed e \<and> p \<in> range likeToRegex"
| "well_formed (ERel t l r) \<longleftrightarrow> well_formed l \<and> well_formed r \<and> relational t"

lemma stod_finite: "stod x = Inr d \<Longrightarrow> \<exists>q. d = FFin q"
  by (auto simp: stod_def Let_def split: prod.splits if_splits)

lemma derives_well_formed:
  "derives nt e us \<Longrightarrow> well_formed e"
  "derives_items its us \<Longrightarrow> its \<noteq> [] \<and> (\<forall>i \<in> set its. well_formed i)"
  by (induction rule: derives_derives_items.inducts) (auto dest: stod_finite)

lemma parse_well_formed: "selector_parse x = Inr e \<Longrightarrow> well_formed e"
  using parse_derives [of x e] derives_well_formed(1) by (cases "x = []") (auto simp: selector_parse_def)

lemma has_type_cases:
  "has_type v TyBool \<Longrightarrow> \<exists>b. v = VBool b"
  "has_type v TyCondition \<Longrightarrow> v = VNull \<or> (\<exists>b. v = VBool b)"
  "has_type v TyText \<Longrightarrow> \<exists>s. v = VString s"
  "has_type v TyNumber \<Longrightarrow> v \<noteq> VNull"
  by (cases v; simp)+

lemma eval_rel: "relational t \<Longrightarrow> holds_bool (eval m (ERel t l r))"
  by (auto simp: relational_def Let_def)

lemma eval_has_type: "well_formed e \<Longrightarrow> has_type (eval m e) (expr_type e)"
proof (induction e rule: well_formed.induct)
  case (1 v)
  then show ?case by (cases v) auto
next
  case (3 l r)
  then show ?case by (auto simp: Let_def dest: has_type_cases)
next
  case (4 l r)
  then show ?case by (auto simp: Let_def dest: has_type_cases)
next
  case (5 e)
  then show ?case by (auto dest: has_type_cases split: selectorValue.splits)
next
  case (8 e its b)
  then show ?case by (auto simp: Let_def dest: has_type_cases split: selectorValue.splits)
next
  case (9 e p b)
  then show ?case by (auto simp: Let_def dest: has_type_cases split: selectorValue.splits)
next
  case (10 t l r)
  then show ?case using eval_rel [of t m l r] by simp
qed (simp_all add: Let_def)

text \<open>C38: selectors are typed: what the parser returns is well formed (so that the default branch of the comparison is never taken), and its value on every
  message has its type: a condition is true, false or unknown and never a number or a text, and a definite condition (\<open>IS NULL\<close>, a boolean
  literal, \<open>LIKE\<close> on a text literal, and what \<open>AND\<close>, \<open>OR\<close> and \<open>NOT\<close> make of these) is decided on every message: it is true or false, and its negation matches
  exactly the messages it does not match.  Of comparisons nothing definite is claimed: they are unknown for a missing property by the documentation, and the code departs
  from that, see \<open>missing_property_comparisons\<close>.\<close>

theorem parsed_selector_typed:
  assumes "selector_parse x = Inr e"
  shows "well_formed e \<and> has_type (eval m e) (expr_type e) \<and>
    (expr_type e = TyBool \<longrightarrow> eval m e = VBool (selector_matches e m) \<and> (selector_matches (ENot e) m \<longleftrightarrow> \<not> selector_matches e m))"
proof -
  have w: "well_formed e" by (rule parse_well_formed [OF assms])
  note t = eval_has_type [OF w, of m]
  have "eval m e = VBool (selector_matches e m)" if "expr_type e = TyBool"
    using t that by (cases "eval m e") (simp_all add: selector_matches_def)
  with w t show ?thesis by (auto simp: selector_matches_def)
qed

theorem parsed_selector_typed_witness:
  "expr_type (ENot (EIsNull (EIdent ''a'') False)) = TyBool \<and> well_formed (ENot (EIsNull (EIdent ''a'') False)) \<and>
   selector_matches (ENot (ENot (EIsNull (EIdent ''a'') False))) sample_message = (\<not> selector_matches (ENot (EIsNull (EIdent ''a'') False)) sample_message)"
proof -
  have "selector_parse ''NOT a IS NULL'' = Inr (ENot (EIsNull (EIdent ''a'') False))" by code_simp
  from parsed_selector_typed [OF this, of sample_message] show ?thesis by simp
qed

end
