(* ===== verification/Free_List.thy ===== *)
theory Free_List
  imports Prelude
begin

text \<open>
  The lock-free free list of \<open>concurrentqueue.h\<close> (\<open>FreeListNode\<close>, \<open>FreeList\<close>), from which the queues take their
  blocks.  A step is one atomic operation of one thread; the program counter of a thread says which comes next and holds its
  local variables.  The atomic operations are sequentially consistent.  The 32-bit word of a node counts the references in its lower 31 bits;
  the highest bit says that the node waits for its last reference to go before it is put on the list.
\<close>

unbundle bit_operations_syntax

section \<open>Nodes and threads\<close>

type_synonym fl_node = nat

definition REFS_MASK :: uint32 where "REFS_MASK = 0x7FFFFFFF"
definition SHOULD_BE_ON_FREELIST :: uint32 where "SHOULD_BE_ON_FREELIST = 0x80000000"

text \<open>Where \<open>add_knowing_refcount_is_zero\<close> returns to: its caller \<open>add\<close>, or the loop of \<open>try_get\<close> with the head that the failed
  exchange has read.\<close>

datatype fl_cont = FromAdd | FromGet "fl_node option"

datatype fl_pc =
    FIdle
  | FAdd fl_node                                    \<comment> \<open>\<open>add\<close>: about to set the bit\<close>
  | AkLoad fl_node fl_cont                          \<comment> \<open>\<open>add_knowing_refcount_is_zero\<close>: about to load the head\<close>
  | AkNext fl_node "fl_node option" fl_cont         \<comment> \<open>about to store \<open>freeListNext\<close>\<close>
  | AkRefs fl_node "fl_node option" fl_cont         \<comment> \<open>about to store \<open>freeListRefs\<close>\<close>
  | AkCas fl_node "fl_node option" fl_cont          \<comment> \<open>about to exchange the head\<close>
  | AkFail fl_node "fl_node option" fl_cont         \<comment> \<open>the exchange failed: about to give up the reference\<close>
  | GLoad                                           \<comment> \<open>\<open>try_get\<close>: about to load the head\<close>
  | GRefs fl_node                                   \<comment> \<open>about to load the references of the head\<close>
  | GCas fl_node uint32                             \<comment> \<open>about to increment them\<close>
  | GNext fl_node                                   \<comment> \<open>about to load \<open>freeListNext\<close>\<close>
  | GHead fl_node "fl_node option"                  \<comment> \<open>about to exchange the head\<close>
  | GTake fl_node                                   \<comment> \<open>taken off: about to subtract two references\<close>
  | GDrop fl_node "fl_node option"                  \<comment> \<open>the exchange failed: about to subtract one\<close>

record fl_sys =
  freeListHead :: "fl_node option"
  freeListRefs :: "fl_node \<Rightarrow> uint32"
  freeListNext :: "fl_node \<Rightarrow> fl_node option"
  fl_pcs :: "fl_pc list"
  fl_list :: "fl_node list"     \<comment> \<open>ghost: the nodes on the list\<close>
  fl_owned :: "fl_node set"     \<comment> \<open>ghost: the nodes in the hands of the clients\<close>

definition fl_at :: "nat \<Rightarrow> fl_pc \<Rightarrow> fl_sys \<Rightarrow> bool" where
  "fl_at i pc s \<longleftrightarrow> i < length (fl_pcs s) \<and> fl_pcs s ! i = pc"

definition fl_goto :: "nat \<Rightarrow> fl_pc \<Rightarrow> fl_sys \<Rightarrow> fl_sys" where
  "fl_goto i pc s = s\<lparr>fl_pcs := (fl_pcs s)[i := pc]\<rparr>"

definition set_refs :: "fl_node \<Rightarrow> uint32 \<Rightarrow> fl_sys \<Rightarrow> fl_sys" where
  "set_refs n r s = s\<lparr>freeListRefs := (freeListRefs s)(n := r)\<rparr>"

fun loop_pc :: "fl_node option \<Rightarrow> fl_pc" where
  "loop_pc None = FIdle"
| "loop_pc (Some h) = GRefs h"

fun resume :: "fl_cont \<Rightarrow> fl_pc" where
  "resume FromAdd = FIdle"
| "resume (FromGet h) = loop_pc h"

inductive fl_step :: "fl_sys \<Rightarrow> fl_sys \<Rightarrow> bool" where
  call_add: "fl_at i FIdle s \<Longrightarrow> n \<in> fl_owned s \<Longrightarrow> fl_step s (fl_goto i (FAdd n) (s\<lparr>fl_owned := fl_owned s - {n}\<rparr>))"
| add_bit: "fl_at i (FAdd n) s \<Longrightarrow>
    fl_step s (fl_goto i (if freeListRefs s n = 0 then AkLoad n FromAdd else FIdle) (set_refs n (freeListRefs s n + SHOULD_BE_ON_FREELIST) s))"
| ak_load: "fl_at i (AkLoad n k) s \<Longrightarrow> fl_step s (fl_goto i (AkNext n (freeListHead s) k) s)"
| ak_next: "fl_at i (AkNext n h k) s \<Longrightarrow> fl_step s (fl_goto i (AkRefs n h k) (s\<lparr>freeListNext := (freeListNext s)(n := h)\<rparr>))"
| ak_refs: "fl_at i (AkRefs n h k) s \<Longrightarrow> fl_step s (fl_goto i (AkCas n h k) (set_refs n 1 s))"
| ak_cas: "fl_at i (AkCas n h k) s \<Longrightarrow> freeListHead s = h \<Longrightarrow>
    fl_step s (fl_goto i (resume k) (s\<lparr>freeListHead := Some n, fl_list := n # fl_list s\<rparr>))"
| ak_cas_fails: "fl_at i (AkCas n h k) s \<Longrightarrow> freeListHead s \<noteq> h \<Longrightarrow> fl_step s (fl_goto i (AkFail n (freeListHead s) k) s)"
| ak_fail: "fl_at i (AkFail n h k) s \<Longrightarrow>
    fl_step s (fl_goto i (if freeListRefs s n = 1 then AkNext n h k else resume k) (set_refs n (freeListRefs s n + (SHOULD_BE_ON_FREELIST - 1)) s))"
| call_get: "fl_at i FIdle s \<Longrightarrow> fl_step s (fl_goto i GLoad s)"
| g_load: "fl_at i GLoad s \<Longrightarrow> fl_step s (fl_goto i (loop_pc (freeListHead s)) s)"
| g_refs: "fl_at i (GRefs h) s \<Longrightarrow> fl_step s (fl_goto i (GCas h (freeListRefs s h)) s)"
| g_cas_fails: "fl_at i (GCas h r) s \<Longrightarrow> r AND REFS_MASK = 0 \<or> freeListRefs s h \<noteq> r \<Longrightarrow> fl_step s (fl_goto i GLoad s)"
| g_cas: "fl_at i (GCas h r) s \<Longrightarrow> \<not> (r AND REFS_MASK = 0 \<or> freeListRefs s h \<noteq> r) \<Longrightarrow> fl_step s (fl_goto i (GNext h) (set_refs h (r + 1) s))"
| g_next: "fl_at i (GNext h) s \<Longrightarrow> fl_step s (fl_goto i (GHead h (freeListNext s h)) s)"
| g_head: "fl_at i (GHead h nx) s \<Longrightarrow> freeListHead s = Some h \<Longrightarrow>
    fl_step s (fl_goto i (GTake h) (s\<lparr>freeListHead := nx, fl_list := tl (fl_list s)\<rparr>))"
| g_head_fails: "fl_at i (GHead h nx) s \<Longrightarrow> freeListHead s \<noteq> Some h \<Longrightarrow> fl_step s (fl_goto i (GDrop h (freeListHead s)) s)"
| g_take: "fl_at i (GTake h) s \<Longrightarrow>
    fl_step s (fl_goto i FIdle (set_refs h (freeListRefs s h - 2) (s\<lparr>fl_owned := insert h (fl_owned s)\<rparr>)))"
| g_drop: "fl_at i (GDrop h hd') s \<Longrightarrow>
    fl_step s (fl_goto i (if freeListRefs s h = SHOULD_BE_ON_FREELIST + 1 then AkLoad h (FromGet hd') else loop_pc hd') (set_refs h (freeListRefs s h - 1) s))"

text \<open>At the beginning the list is empty and the nodes, newly constructed, are in the hands of the clients.\<close>

definition start_fl :: "fl_sys \<Rightarrow> bool" where
  "start_fl s \<longleftrightarrow> freeListHead s = None \<and> (\<forall>n. freeListRefs s n = 0) \<and> (\<forall>pc \<in> set (fl_pcs s). pc = FIdle) \<and>
     length (fl_pcs s) < 2 ^ 29 \<and> fl_list s = [] \<and> fl_owned s = UNIV"

section \<open>The word of a node\<close>

definition refs_word :: "nat \<Rightarrow> bool \<Rightarrow> uint32" where
  "refs_word c b = of_nat c + (if b then SHOULD_BE_ON_FREELIST else 0)"

lemma unat_refs_word: "c < 2 ^ 31 \<Longrightarrow> unat (refs_word c b) = c + (if b then 2 ^ 31 else 0)"
  by (simp add: refs_word_def SHOULD_BE_ON_FREELIST_def unat_word_ariths unat_of_nat take_bit_nat_eq_self)

lemma refs_word_mask: "c < 2 ^ 31 \<Longrightarrow> refs_word c b AND REFS_MASK = 0 \<longleftrightarrow> c = 0"
proof -
  assume c: "c < 2 ^ 31"
  have "refs_word c b AND REFS_MASK = take_bit 31 (refs_word c b)" by (simp add: REFS_MASK_def take_bit_eq_mask mask_eq_exp_minus_1)
  then have "unat (refs_word c b AND REFS_MASK) = take_bit 31 (c + (if b then 2 ^ 31 else 0))" using c by (simp add: unsigned_take_bit_eq unat_refs_word)
  also have "\<dots> = c" using c by (simp add: take_bit_eq_mod)
  finally show ?thesis by (metis unat_eq_zero)
qed

lemma refs_word_tests:
  assumes "c < 2 ^ 31"
  shows "refs_word c b = 0 \<longleftrightarrow> c = 0 \<and> \<not> b" "refs_word c b = 1 \<longleftrightarrow> c = 1 \<and> \<not> b" "refs_word c b = SHOULD_BE_ON_FREELIST + 1 \<longleftrightarrow> c = 1 \<and> b"
proof -
  have "unat (SHOULD_BE_ON_FREELIST + 1) = 2 ^ 31 + 1" by (simp add: SHOULD_BE_ON_FREELIST_def)
  with unat_refs_word [OF assms, of b] assms
  show "refs_word c b = 0 \<longleftrightarrow> c = 0 \<and> \<not> b" "refs_word c b = 1 \<longleftrightarrow> c = 1 \<and> \<not> b" "refs_word c b = SHOULD_BE_ON_FREELIST + 1 \<longleftrightarrow> c = 1 \<and> b"
    by (auto simp flip: word_unat_eq_iff simp: word_unat_eq_iff split: if_splits)
qed

lemma refs_word_arith:
  "refs_word c b + 1 = refs_word (Suc c) b" "refs_word (Suc c) b - 1 = refs_word c b" "refs_word (Suc (Suc c)) b - 2 = refs_word c b"
  "refs_word c False + SHOULD_BE_ON_FREELIST = refs_word c True" "refs_word (Suc c) False + (SHOULD_BE_ON_FREELIST - 1) = refs_word c True"
  "refs_word (Suc 0) False = 1"
  by (simp_all add: refs_word_def)

section \<open>Where a node is\<close>

text \<open>What a thread holds of a node: references, the node itself, and the node with no reference left, about to be put on the list.\<close>

fun fl_held :: "fl_node \<Rightarrow> fl_pc \<Rightarrow> nat" where
  "fl_held n (AkCas m h k) = of_bool (m = n)"
| "fl_held n (AkFail m h k) = of_bool (m = n)"
| "fl_held n (GNext m) = of_bool (m = n)"
| "fl_held n (GHead m nx) = of_bool (m = n)"
| "fl_held n (GDrop m h) = of_bool (m = n)"
| "fl_held n (GTake m) = 2 * of_bool (m = n)"
| "fl_held n _ = 0"

fun fl_keeps :: "fl_node \<Rightarrow> fl_pc \<Rightarrow> nat" where
  "fl_keeps n (FAdd m) = of_bool (m = n)"
| "fl_keeps n (AkLoad m k) = of_bool (m = n)"
| "fl_keeps n (AkNext m h k) = of_bool (m = n)"
| "fl_keeps n (AkRefs m h k) = of_bool (m = n)"
| "fl_keeps n (AkCas m h k) = of_bool (m = n)"
| "fl_keeps n (AkFail m h k) = of_bool (m = n)"
| "fl_keeps n (GTake m) = of_bool (m = n)"
| "fl_keeps n _ = 0"

fun adding :: "fl_node \<Rightarrow> fl_pc \<Rightarrow> nat" where
  "adding n (AkLoad m k) = of_bool (m = n)"
| "adding n (AkNext m h k) = of_bool (m = n)"
| "adding n (AkRefs m h k) = of_bool (m = n)"
| "adding n _ = 0"

text \<open>The books of one node: \<open>l\<close> and \<open>w\<close> say that it is on the list and in the hands of a client, \<open>c\<close>, \<open>p\<close> and \<open>e\<close> are the
  sums of the above.  The node is in one place, or nowhere while it waits for its references to go.\<close>

definition fl_node_ok :: "uint32 \<Rightarrow> nat \<Rightarrow> nat \<Rightarrow> nat \<Rightarrow> nat \<Rightarrow> nat \<Rightarrow> bool" where
  "fl_node_ok r l w c p e \<longleftrightarrow> l + w + p \<le> 1 \<and> (l + w + p = 0 \<longrightarrow> l + c > 0) \<and> (e > 0 \<longrightarrow> l + c = 0) \<and> e \<le> p \<and>
     r = refs_word (l + c) (l + w + p = 0 \<or> e > 0)"

definition total :: "(fl_node \<Rightarrow> fl_pc \<Rightarrow> nat) \<Rightarrow> fl_node \<Rightarrow> fl_sys \<Rightarrow> nat" where
  "total f n s = sum_list (map (f n) (fl_pcs s))"

definition fl_node_inv :: "fl_node \<Rightarrow> fl_sys \<Rightarrow> bool" where
  "fl_node_inv n s \<longleftrightarrow> fl_node_ok (freeListRefs s n) (of_bool (n \<in> set (fl_list s))) (of_bool (n \<in> fl_owned s)) (total fl_held n s) (total fl_keeps n s) (total adding n s)"

fun fl_chain :: "(fl_node \<Rightarrow> fl_node option) \<Rightarrow> fl_node option \<Rightarrow> fl_node list \<Rightarrow> bool" where
  "fl_chain nx h [] \<longleftrightarrow> h = None"
| "fl_chain nx h (n # ns) \<longleftrightarrow> h = Some n \<and> fl_chain nx (nx n) ns"

fun next_ok :: "(fl_node \<Rightarrow> fl_node option) \<Rightarrow> fl_pc \<Rightarrow> bool" where
  "next_ok nx (AkRefs n h k) \<longleftrightarrow> nx n = h"
| "next_ok nx (AkCas n h k) \<longleftrightarrow> nx n = h"
| "next_ok nx (GHead n h) \<longleftrightarrow> nx n = h"
| "next_ok nx _ \<longleftrightarrow> True"

definition fl_inv :: "fl_sys \<Rightarrow> bool" where
  "fl_inv s \<longleftrightarrow> length (fl_pcs s) < 2 ^ 29 \<and> (\<forall>n. fl_node_inv n s) \<and> fl_chain (freeListNext s) (freeListHead s) (fl_list s) \<and> distinct (fl_list s) \<and>
     list_all (next_ok (freeListNext s)) (fl_pcs s)"

lemma fl_simps [simp]:
  "freeListHead (fl_goto i pc s) = freeListHead s" "freeListRefs (fl_goto i pc s) = freeListRefs s" "freeListNext (fl_goto i pc s) = freeListNext s"
  "fl_pcs (fl_goto i pc s) = (fl_pcs s)[i := pc]" "fl_list (fl_goto i pc s) = fl_list s" "fl_owned (fl_goto i pc s) = fl_owned s"
  "freeListHead (set_refs n r s) = freeListHead s" "freeListRefs (set_refs n r s) = (freeListRefs s)(n := r)" "freeListNext (set_refs n r s) = freeListNext s"
  "fl_pcs (set_refs n r s) = fl_pcs s" "fl_list (set_refs n r s) = fl_list s" "fl_owned (set_refs n r s) = fl_owned s"
  by (simp_all add: fl_goto_def set_refs_def)

lemma chain_update: "n \<notin> set ns \<Longrightarrow> fl_chain (nx(n := h)) h' ns \<longleftrightarrow> fl_chain nx h' ns"
  by (induction ns arbitrary: h') auto

lemma held_le: "fl_held n pc \<le> 2"
  by (cases "(n, pc)" rule: fl_held.cases) auto

lemma total_held_le: "total fl_held n s \<le> 2 * length (fl_pcs s)"
proof -
  have "sum_list (map (fl_held n) pcs) \<le> 2 * length pcs" for pcs
  proof (induction pcs)
    case (Cons pc pcs)
    then show ?case using held_le [of n pc] by simp
  qed simp
  then show ?thesis by (simp add: total_def)
qed

lemma total_idle: "\<forall>pc \<in> set (fl_pcs s). pc = FIdle \<Longrightarrow> f n FIdle = 0 \<Longrightarrow> total f n s = 0"
  by (auto simp: total_def)

lemma adding_keeps: "adding n pc \<le> fl_keeps n pc"
  by (cases "(n, pc)" rule: adding.cases) auto

text \<open>What the threads other than \<open>i\<close> hold.\<close>

definition rest :: "(fl_node \<Rightarrow> fl_pc \<Rightarrow> nat) \<Rightarrow> fl_node \<Rightarrow> nat \<Rightarrow> fl_sys \<Rightarrow> nat" where
  "rest f n i s = sum_list (map (f n) ((fl_pcs s)[i := FIdle]))"

lemma rest_le:
  assumes "fl_inv s"
  shows "rest adding n i s \<le> rest fl_keeps n i s" "rest fl_held n i s \<le> 2 * length (fl_pcs s)"
  using total_held_le [of n "s\<lparr>fl_pcs := (fl_pcs s)[i := FIdle]\<rparr>"]
  by (auto simp: rest_def total_def intro!: sum_list_mono adding_keeps)

lemma total_rest:
  assumes "fl_at i pc s" "f n FIdle = 0"
  shows "total f n s = rest f n i s + f n pc" "fl_pcs s' = (fl_pcs s)[i := pc'] \<Longrightarrow> total f n s' = rest f n i s + f n pc'"
proof -
  have i: "i < length (fl_pcs s)" "fl_pcs s ! i = pc" using assms(1) by (simp_all add: fl_at_def)
  from sum_list_at [OF i(1), of "f n" FIdle] i(2) assms(2) show eq: "total f n s = rest f n i s + f n pc" by (simp add: rest_def total_def)
  from sum_list_at [OF i(1), of "f n" pc'] i(2) eq show "fl_pcs s' = (fl_pcs s)[i := pc'] \<Longrightarrow> total f n s' = rest f n i s + f n pc'" by (simp add: total_def)
qed

lemma rest_other: "rest f n i s = 0 \<Longrightarrow> fl_at j pc s \<Longrightarrow> j \<noteq> i \<Longrightarrow> f n pc = 0"
  using nth_mem [of j "(fl_pcs s)[i := FIdle]"] by (auto simp: rest_def fl_at_def)

lemma fl_inv_node:
  assumes "fl_inv s" "fl_at i pc s"
  shows "fl_node_ok (freeListRefs s n) (of_bool (n \<in> set (fl_list s))) (of_bool (n \<in> fl_owned s))
     (rest fl_held n i s + fl_held n pc) (rest fl_keeps n i s + fl_keeps n pc) (rest adding n i s + adding n pc)"
proof -
  have "fl_node_inv n s" using assms(1) by (simp add: fl_inv_def)
  moreover have "total fl_held n s = rest fl_held n i s + fl_held n pc" "total fl_keeps n s = rest fl_keeps n i s + fl_keeps n pc"
    "total adding n s = rest adding n i s + adding n pc"
    by (rule total_rest(1) [OF assms(2)]; simp)+
  ultimately show ?thesis by (simp only: fl_node_inv_def)
qed

text \<open>One thread moves, and one node changes its word or its place: the books of that node have to be right again.\<close>

lemma fl_inv_move:
  assumes inv: "fl_inv s" and i: "fl_at i pc s" and pcs: "fl_pcs s' = (fl_pcs s)[i := pc']"
    and other: "\<And>m. m \<noteq> n \<Longrightarrow> fl_held m pc = fl_held m pc' \<and> fl_keeps m pc = fl_keeps m pc' \<and> adding m pc = adding m pc' \<and>
      freeListRefs s' m = freeListRefs s m \<and> (m \<in> set (fl_list s') \<longleftrightarrow> m \<in> set (fl_list s)) \<and> (m \<in> fl_owned s' \<longleftrightarrow> m \<in> fl_owned s)"
    and node: "\<And>c p e. fl_node_ok (freeListRefs s n) (of_bool (n \<in> set (fl_list s))) (of_bool (n \<in> fl_owned s)) (c + fl_held n pc) (p + fl_keeps n pc) (e + adding n pc) \<Longrightarrow>
      c + fl_held n pc + 1 < 2 ^ 31 \<Longrightarrow> e \<le> p \<Longrightarrow>
      fl_node_ok (freeListRefs s' n) (of_bool (n \<in> set (fl_list s'))) (of_bool (n \<in> fl_owned s')) (c + fl_held n pc') (p + fl_keeps n pc') (e + adding n pc')"
    and next': "list_all (next_ok (freeListNext s')) ((fl_pcs s)[i := pc'])"
    and fl_chain: "fl_chain (freeListNext s') (freeListHead s') (fl_list s')" "distinct (fl_list s')"
  shows "fl_inv s'"
proof -
  have after: "total fl_held m s' = rest fl_held m i s + fl_held m pc'" "total fl_keeps m s' = rest fl_keeps m i s + fl_keeps m pc'"
    "total adding m s' = rest adding m i s + adding m pc'" for m
    by (rule total_rest(2) [OF i _ pcs]; simp)+
  have "fl_node_inv m s'" for m
  proof (cases "m = n")
    case False
    from fl_inv_node [OF inv i, of m] other [OF False] show ?thesis by (simp only: fl_node_inv_def after)
  next
    case True
    have "rest fl_held n i s + fl_held n pc + 1 < 2 ^ 31" using rest_le(2) [OF inv, of n i] held_le [of n pc] inv by (simp add: fl_inv_def)
    from node [OF fl_inv_node [OF inv i] this rest_le(1) [OF inv]] True show ?thesis by (simp only: fl_node_inv_def after)
  qed
  then show ?thesis using inv pcs next' fl_chain by (simp add: fl_inv_def)
qed

lemma fl_next_same: "fl_inv s \<Longrightarrow> next_ok (freeListNext s) pc' \<Longrightarrow> list_all (next_ok (freeListNext s)) ((fl_pcs s)[i := pc'])"
  using set_update_subset_insert [of "fl_pcs s" i pc'] by (auto simp: fl_inv_def list_all_iff)

lemma loop_pc_free [simp]: "fl_held n (loop_pc h) = 0" "fl_keeps n (loop_pc h) = 0" "adding n (loop_pc h) = 0" "next_ok nx (loop_pc h)"
  by (cases h; simp)+

lemma resume_free [simp]: "fl_held n (resume k) = 0" "fl_keeps n (resume k) = 0" "adding n (resume k) = 0" "next_ok nx (resume k)"
  by (cases k; simp)+

lemma fl_invD:
  assumes "fl_inv s"
  shows "fl_chain (freeListNext s) (freeListHead s) (fl_list s)" "distinct (fl_list s)" "fl_at i pc s \<Longrightarrow> next_ok (freeListNext s) pc"
  using assms by (auto simp: fl_inv_def fl_at_def list_all_length)

lemma fl_step_inv: "fl_step s s' \<Longrightarrow> fl_inv s \<Longrightarrow> fl_inv s'"
proof (induction rule: fl_step.induct)
  case (call_add i s n)
  then show ?case
    by (intro fl_inv_move [OF call_add(3,1), where n = n and pc' = "FAdd n"]) (auto simp: fl_invD fl_next_same fl_node_ok_def)
next
  case (add_bit i n s)
  show ?case
    by (rule fl_inv_move [OF add_bit(2,1), where n = n and pc' = "if freeListRefs s n = 0 then AkLoad n FromAdd else FIdle"])
      (auto simp: fl_invD [OF add_bit(2)] fl_next_same [OF add_bit(2)] fl_node_ok_def refs_word_tests refs_word_arith)
next
  case (ak_load i n k s)
  then show ?case
    by (intro fl_inv_move [OF ak_load(2,1), where n = n and pc' = "AkNext n (freeListHead s) k"]) (auto simp: fl_invD fl_next_same fl_node_ok_def)
next
  case (ak_refs i n h k s)
  then show ?case
    by (intro fl_inv_move [OF ak_refs(2,1), where n = n and pc' = "AkCas n h k"])
      (use fl_invD(3) [OF ak_refs(2,1)] in \<open>auto simp: fl_invD fl_next_same fl_node_ok_def refs_word_arith\<close>)
next
  case (ak_cas i n h k s)
  have "n \<notin> set (fl_list s)" using fl_inv_node [OF ak_cas(3,1), of n] by (auto simp: fl_node_ok_def)
  with ak_cas show ?case
    by (intro fl_inv_move [OF ak_cas(3,1), where n = n and pc' = "resume k"])
      (use fl_invD(3) [OF ak_cas(3,1)] in \<open>auto simp: fl_invD fl_next_same fl_node_ok_def\<close>)
next
  case (ak_cas_fails i n h k s)
  then show ?case
    by (intro fl_inv_move [OF ak_cas_fails(3,1), where n = n and pc' = "AkFail n (freeListHead s) k"]) (auto simp: fl_invD fl_next_same fl_node_ok_def)
next
  case (ak_fail i n h k s)
  show ?case
    by (rule fl_inv_move [OF ak_fail(2,1), where n = n and pc' = "if freeListRefs s n = 1 then AkNext n h k else resume k"])
      (auto simp: fl_invD [OF ak_fail(2)] fl_next_same [OF ak_fail(2)] fl_node_ok_def refs_word_tests refs_word_arith)
next
  case (call_get i s)
  then show ?case by (intro fl_inv_move [OF call_get(2,1), where n = 0 and pc' = GLoad]) (auto simp: fl_invD fl_next_same)
next
  case (g_load i s)
  then show ?case by (intro fl_inv_move [OF g_load(2,1), where n = 0 and pc' = "loop_pc (freeListHead s)"]) (auto simp: fl_invD fl_next_same)
next
  case (g_refs i h s)
  then show ?case by (intro fl_inv_move [OF g_refs(2,1), where n = h and pc' = "GCas h (freeListRefs s h)"]) (auto simp: fl_invD fl_next_same)
next
  case (g_cas_fails i h r s)
  then show ?case by (intro fl_inv_move [OF g_cas_fails(3,1), where n = h and pc' = GLoad]) (auto simp: fl_invD fl_next_same)
next
  case (g_cas i h r s)
  show ?case
    by (rule fl_inv_move [OF g_cas(3,1), where n = h and pc' = "GNext h"])
      (use g_cas in \<open>auto simp: fl_invD fl_next_same fl_node_ok_def refs_word_mask refs_word_arith\<close>)
next
  case (g_next i h s)
  then show ?case by (intro fl_inv_move [OF g_next(2,1), where n = h and pc' = "GHead h (freeListNext s h)"]) (auto simp: fl_invD fl_next_same)
next
  case (g_head i h nx s)
  then obtain ns where l: "fl_list s = h # ns" "fl_chain (freeListNext s) (freeListNext s h) ns" "distinct (h # ns)"
    using fl_invD(1,2) [OF g_head(3)] by (cases "fl_list s") auto
  with g_head show ?case
    by (intro fl_inv_move [OF g_head(3,1), where n = h and pc' = "GTake h"])
      (use fl_invD(3) [OF g_head(3,1)] in \<open>auto simp: fl_next_same fl_node_ok_def\<close>)
next
  case (g_head_fails i h nx s)
  then show ?case by (intro fl_inv_move [OF g_head_fails(3,1), where n = h and pc' = "GDrop h (freeListHead s)"]) (auto simp: fl_invD fl_next_same)
next
  case (g_take i h s)
  show ?case
    by (rule fl_inv_move [OF g_take(2,1), where n = h and pc' = FIdle])
      (auto simp: fl_invD [OF g_take(2)] fl_next_same [OF g_take(2)] fl_node_ok_def refs_word_arith)
next
  case (g_drop i h hd' s)
  show ?case
    by (rule fl_inv_move [OF g_drop(2,1), where n = h and pc' = "if freeListRefs s h = SHOULD_BE_ON_FREELIST + 1 then AkLoad h (FromGet hd') else loop_pc hd'"])
      (auto simp: fl_invD [OF g_drop(2)] fl_next_same [OF g_drop(2)] fl_node_ok_def refs_word_tests refs_word_arith)
next
  case (ak_next i n h k s)
  have n: "n \<notin> set (fl_list s)" "rest fl_held n i s = 0" "rest fl_keeps n i s = 0" using fl_inv_node [OF ak_next(2,1), of n] by (auto simp: fl_node_ok_def)
  have "next_ok ((freeListNext s)(n := h)) pc" if "pc \<in> set ((fl_pcs s)[i := AkRefs n h k])" for pc
  proof -
    from that obtain j where j: "j < length (fl_pcs s)" "pc = (fl_pcs s)[i := AkRefs n h k] ! j" by (auto simp: in_set_conv_nth)
    show ?thesis
    proof (cases "j = i")
      case False
      have "fl_held n pc = 0" "fl_keeps n pc = 0" using rest_other [OF n(2)] rest_other [OF n(3)] False j by (auto simp: fl_at_def)
      moreover have "next_ok (freeListNext s) pc" using False j fl_invD(3) [OF ak_next(2), of j pc] by (simp add: fl_at_def)
      ultimately show ?thesis by (cases pc) auto
    qed (use j in simp)
  qed
  with ak_next n show ?case
    by (intro fl_inv_move [OF ak_next(2,1), where n = n and pc' = "AkRefs n h k"])
      (auto simp: fl_invD chain_update fl_node_ok_def list_all_iff)
qed

interpretation free_list_run: invariant_run start_fl fl_step fl_inv
proof
  show "fl_inv s" if "start_fl s" for s
    using that total_idle [of s fl_held] total_idle [of s fl_keeps] total_idle [of s adding]
    by (auto simp: start_fl_def fl_inv_def fl_node_inv_def fl_node_ok_def refs_word_def list_all_iff)
qed (rule fl_step_inv)

section \<open>What the queues rely on\<close>

text \<open>C30: whatever the interleaving, no block is handed out twice: a block that \<open>try_get\<close> is about to return is in the hands of no client, not on the
  list and not about to be returned to another thread; and no block is on the list twice or while a client has it.\<close>

theorem free_list_hands_out_once:
  assumes "start_fl s0" "fl_step\<^sup>*\<^sup>* s0 s"
  shows "distinct (fl_list s) \<and> set (fl_list s) \<inter> fl_owned s = {} \<and>
    (\<forall>i n. fl_at i (GTake n) s \<longrightarrow> n \<notin> fl_owned s \<and> n \<notin> set (fl_list s) \<and> (\<forall>j. fl_at j (GTake n) s \<longrightarrow> j = i))"
proof -
  have inv: "fl_inv s" using free_list_run.reachable_inv [OF assms(2,1)] .
  have "n \<notin> fl_owned s" if "n \<in> set (fl_list s)" for n
  proof -
    have "fl_node_inv n s" using inv by (simp add: fl_inv_def)
    with that show ?thesis by (auto simp: fl_node_inv_def fl_node_ok_def)
  qed
  then have "set (fl_list s) \<inter> fl_owned s = {}" by blast
  moreover have "n \<notin> fl_owned s \<and> n \<notin> set (fl_list s) \<and> (\<forall>j. fl_at j (GTake n) s \<longrightarrow> j = i)" if "fl_at i (GTake n) s" for i n
  proof -
    have "n \<notin> fl_owned s" "n \<notin> set (fl_list s)" "rest fl_keeps n i s = 0" using fl_inv_node [OF inv that, of n] by (auto simp: fl_node_ok_def)
    with rest_other [OF this(3)] show ?thesis by fastforce
  qed
  ultimately show ?thesis using fl_invD(2) [OF inv] by blast
qed

text \<open>No block is lost: whenever all threads have returned from their calls, the blocks that no client has are exactly those that the head and the
  next pointers lead to, each with one reference, and all the others have none.\<close>

lemma free_list_at_rest_complete:
  assumes "start_fl s0" "fl_step\<^sup>*\<^sup>* s0 s" "\<forall>pc \<in> set (fl_pcs s). pc = FIdle"
  shows "fl_chain (freeListNext s) (freeListHead s) (fl_list s) \<and> set (fl_list s) = - fl_owned s \<and>
    (\<forall>n. freeListRefs s n = (if n \<in> fl_owned s then 0 else 1))"
proof -
  have inv: "fl_inv s" using free_list_run.reachable_inv [OF assms(2,1)] .
  have "fl_node_ok (freeListRefs s n) (of_bool (n \<in> set (fl_list s))) (of_bool (n \<in> fl_owned s)) 0 0 0" for n
  proof -
    have "fl_node_inv n s" using inv by (simp add: fl_inv_def)
    then show ?thesis using total_idle [OF assms(3)] by (simp only: fl_node_inv_def fl_held.simps fl_keeps.simps adding.simps)
  qed
  note books = this
  have "(n \<in> set (fl_list s) \<longleftrightarrow> n \<notin> fl_owned s) \<and> freeListRefs s n = (if n \<in> fl_owned s then 0 else 1)" for n
    using books [of n] by (cases "n \<in> set (fl_list s)"; cases "n \<in> fl_owned s") (auto simp: fl_node_ok_def refs_word_def)
  then show ?thesis using fl_invD(1) [OF inv] by auto
qed

text \<open>One thread has put a block on the list, and another one is about to take it.\<close>

definition fl_sample :: "fl_node option \<Rightarrow> (fl_node \<Rightarrow> uint32) \<Rightarrow> fl_node list \<Rightarrow> fl_pc \<Rightarrow> fl_pc \<Rightarrow> fl_sys" where
  "fl_sample h r l pc0 pc1 = \<lparr>freeListHead = h, freeListRefs = r, freeListNext = (\<lambda>_. None), fl_pcs = [pc0, pc1], fl_list = l, fl_owned = UNIV - {5}\<rparr>"

definition fl_fresh :: fl_sys where
  "fl_fresh = \<lparr>freeListHead = None, freeListRefs = (\<lambda>_. 0), freeListNext = (\<lambda>_. None), fl_pcs = [FIdle, FIdle], fl_list = [], fl_owned = UNIV\<rparr>"

lemma start_fl_fresh: "start_fl fl_fresh"
  by (simp add: start_fl_def fl_fresh_def)

lemmas fl_sample_defs = fl_at_def fl_goto_def set_refs_def fl_sample_def fl_fresh_def SHOULD_BE_ON_FREELIST_def REFS_MASK_def

lemma fl_sample_added: "fl_step\<^sup>*\<^sup>* fl_fresh (fl_sample (Some 5) ((\<lambda>_. 0)(5 := 1)) [5] FIdle FIdle)"
proof -
  let ?z = "\<lambda>_ :: fl_node. 0 :: uint32"
  let ?r = "?z(5 := 0x80000000)"
  note [trans] = rtranclp.rtrancl_into_rtrancl [of fl_step]
  have "fl_step\<^sup>*\<^sup>* fl_fresh (fl_sample None ?z [] (FAdd 5) FIdle)"
    using fl_step.call_add [of 0 fl_fresh 5] by (intro r_into_rtranclp) (simp add: fl_sample_defs)
  also have "fl_step \<dots> (fl_sample None ?r [] (AkLoad 5 FromAdd) FIdle)"
    using fl_step.add_bit [of 0 5 "fl_sample None ?z [] (FAdd 5) FIdle"] by (simp add: fl_sample_defs)
  also have "fl_step \<dots> (fl_sample None ?r [] (AkNext 5 None FromAdd) FIdle)"
    using fl_step.ak_load [of 0 5 FromAdd "fl_sample None ?r [] (AkLoad 5 FromAdd) FIdle"] by (simp add: fl_sample_defs)
  also have "fl_step \<dots> (fl_sample None ?r [] (AkRefs 5 None FromAdd) FIdle)"
    using fl_step.ak_next [of 0 5 None FromAdd "fl_sample None ?r [] (AkNext 5 None FromAdd) FIdle"] by (simp add: fl_sample_defs fun_upd_idem)
  also have "fl_step \<dots> (fl_sample None (?z(5 := 1)) [] (AkCas 5 None FromAdd) FIdle)"
    using fl_step.ak_refs [of 0 5 None FromAdd "fl_sample None ?r [] (AkRefs 5 None FromAdd) FIdle"] by (simp add: fl_sample_defs)
  also have "fl_step \<dots> (fl_sample (Some 5) (?z(5 := 1)) [5] FIdle FIdle)"
    using fl_step.ak_cas [of 0 5 None FromAdd "fl_sample None (?z(5 := 1)) [] (AkCas 5 None FromAdd) FIdle"] by (simp add: fl_sample_defs)
  finally show ?thesis .
qed

lemma fl_sample_taking: "fl_step\<^sup>*\<^sup>* fl_fresh (fl_sample None ((\<lambda>_. 0)(5 := 2)) [] FIdle (GTake 5))"
proof -
  let ?r = "(\<lambda>_ :: fl_node. 0 :: uint32)(5 := 1)"
  let ?r2 = "(\<lambda>_ :: fl_node. 0 :: uint32)(5 := 2)"
  note [trans] = rtranclp.rtrancl_into_rtrancl [of fl_step]
  note fl_sample_added
  also have "fl_step (fl_sample (Some 5) ?r [5] FIdle FIdle) (fl_sample (Some 5) ?r [5] FIdle GLoad)"
    using fl_step.call_get [of 1 "fl_sample (Some 5) ?r [5] FIdle FIdle"] by (simp add: fl_sample_defs)
  also have "fl_step \<dots> (fl_sample (Some 5) ?r [5] FIdle (GRefs 5))"
    using fl_step.g_load [of 1 "fl_sample (Some 5) ?r [5] FIdle GLoad"] by (simp add: fl_sample_defs)
  also have "fl_step \<dots> (fl_sample (Some 5) ?r [5] FIdle (GCas 5 1))"
    using fl_step.g_refs [of 1 5 "fl_sample (Some 5) ?r [5] FIdle (GRefs 5)"] by (simp add: fl_sample_defs)
  also have "fl_step \<dots> (fl_sample (Some 5) ?r2 [5] FIdle (GNext 5))"
    using fl_step.g_cas [of 1 5 1 "fl_sample (Some 5) ?r [5] FIdle (GCas 5 1)"] by (simp add: fl_sample_defs)
  also have "fl_step \<dots> (fl_sample (Some 5) ?r2 [5] FIdle (GHead 5 None))"
    using fl_step.g_next [of 1 5 "fl_sample (Some 5) ?r2 [5] FIdle (GNext 5)"] by (simp add: fl_sample_defs)
  also have "fl_step \<dots> (fl_sample None ?r2 [] FIdle (GTake 5))"
    using fl_step.g_head [of 1 5 None "fl_sample (Some 5) ?r2 [5] FIdle (GHead 5 None)"] by (simp add: fl_sample_defs)
  finally show ?thesis .
qed

theorem free_list_hands_out_once_witness:
  "set (fl_list (fl_sample None ((\<lambda>_. 0)(5 := 2)) [] FIdle (GTake 5))) \<inter> fl_owned (fl_sample None ((\<lambda>_. 0)(5 := 2)) [] FIdle (GTake 5)) = {} \<and>
   5 \<notin> fl_owned (fl_sample None ((\<lambda>_. 0)(5 := 2)) [] FIdle (GTake 5))"
  using free_list_hands_out_once [OF start_fl_fresh fl_sample_taking] by (auto simp: fl_at_def fl_sample_def)

lemma free_list_at_rest_complete_example:
  "fl_chain (\<lambda>_. None) (Some 5) [5] \<and> set (fl_list (fl_sample (Some 5) ((\<lambda>_. 0)(5 := 1)) [5] FIdle FIdle)) = - (UNIV - {5})"
  using free_list_at_rest_complete [OF start_fl_fresh fl_sample_added] by (simp add: fl_sample_def)

end
