(* ===== verification/Sub_Queue.thy ===== *)
theory Sub_Queue
  imports Prelude "HOL-Library.Multiset"
begin

text \<open>
  The queue of one producer inside the lock-free queue of \<open>concurrentqueue.h\<close> (\<open>ProducerBase\<close>, \<open>ImplicitProducer\<close>): one thread enqueues and any
  number of threads dequeue.  (Theory \<open>Producer_Hash\<close> shows that no two threads have the same producer.)  A step is one atomic operation of one thread on the four 64-bit indices, or the construction or the
  removal of one element.  The place of an element is the cell of its index, as \<open>(*block)[index]\<close> for the block of that index; how blocks are found is the subject of theory
  \<open>Block_Index\<close>, how they are recycled that of theory \<open>Free_List\<close>.  Memory is sequentially consistent.
\<close>

unbundle bit_operations_syntax

section \<open>Indices\<close>

definition BLOCK_SIZE :: uint64 where "BLOCK_SIZE = 32"

definition circular_less_than :: "uint64 \<Rightarrow> uint64 \<Rightarrow> bool" where
  "circular_less_than a b \<longleftrightarrow> a - b > push_bit 63 1"

lemma circular_less_than_nat:
  assumes "x < 2 ^ 63" "y < 2 ^ 63"
  shows "circular_less_than (of_nat x) (of_nat y) \<longleftrightarrow> x < y"
  using assms by (auto simp: circular_less_than_def word_less_nat_alt unat_sub_if' unat_of_nat take_bit_nat_eq_self)

section \<open>Threads\<close>

datatype 'a enq_pc =
    PIdle
  | PNew 'a          \<comment> \<open>at the end of a block: about to load \<open>headIndex\<close> and get a new block\<close>
  | PStore 'a        \<comment> \<open>about to construct the element\<close>
  | PPublish 'a      \<comment> \<open>about to store \<open>tailIndex\<close>\<close>

datatype deq_pc =
    DIdle
  | DOver uint64            \<comment> \<open>with \<open>tail\<close>: about to load \<open>dequeueOvercommit\<close>\<close>
  | DOpt uint64 uint64      \<comment> \<open>with \<open>tail\<close> and \<open>overcommit\<close>: about to load \<open>dequeueOptimisticCount\<close>\<close>
  | DAdd uint64             \<comment> \<open>with \<open>overcommit\<close>: about to increment \<open>dequeueOptimisticCount\<close>\<close>
  | DCheck uint64 uint64    \<comment> \<open>with \<open>overcommit\<close> and \<open>myDequeueCount\<close>: about to load \<open>tailIndex\<close> again\<close>
  | DHead                   \<comment> \<open>about to increment \<open>headIndex\<close>\<close>
  | DUndo uint64            \<comment> \<open>about to increment \<open>dequeueOvercommit\<close>\<close>
  | DRead uint64            \<comment> \<open>with \<open>index\<close>: about to move the element out\<close>

record 'a sq_sys =
  tailIndex :: uint64
  headIndex :: uint64
  dequeueOptimisticCount :: uint64
  dequeueOvercommit :: uint64
  sq_cells :: "uint64 \<Rightarrow> 'a option"
  p_pc :: "'a enq_pc"
  d_pcs :: "deq_pc list"
  sq_sent :: "'a list"      \<comment> \<open>ghost: what was enqueued\<close>
  sq_tries :: nat           \<comment> \<open>ghost: the increments of \<open>dequeueOptimisticCount\<close>\<close>
  sq_wins :: "nat set"      \<comment> \<open>ghost: the counts that passed the second test\<close>
  sq_fails :: "nat set"     \<comment> \<open>ghost: the counts that were given back\<close>
  sq_read :: "nat set"      \<comment> \<open>ghost: the indices whose elements were moved out\<close>
  sq_got :: "'a multiset"   \<comment> \<open>ghost: those elements\<close>

definition d_at :: "nat \<Rightarrow> deq_pc \<Rightarrow> 'a sq_sys \<Rightarrow> bool" where
  "d_at i pc s \<longleftrightarrow> i < length (d_pcs s) \<and> d_pcs s ! i = pc"

definition d_goto :: "nat \<Rightarrow> deq_pc \<Rightarrow> 'a sq_sys \<Rightarrow> 'a sq_sys" where
  "d_goto i pc s = s\<lparr>d_pcs := (d_pcs s)[i := pc]\<rparr>"

text \<open>A new block is refused when the indices are half the range of a word apart, or when there is no memory for it.\<close>

inductive sq_step :: "'a sq_sys \<Rightarrow> 'a sq_sys \<Rightarrow> bool" where
  enqueue: "p_pc s = PIdle \<Longrightarrow> sq_step s (s\<lparr>p_pc := (if tailIndex s AND (BLOCK_SIZE - 1) = 0 then PNew x else PStore x)\<rparr>)"
| enqueue_refused: "p_pc s = PNew x \<Longrightarrow> sq_step s (s\<lparr>p_pc := PIdle\<rparr>)"
| enqueue_block: "p_pc s = PNew x \<Longrightarrow> circular_less_than (headIndex s) (tailIndex s + BLOCK_SIZE) \<Longrightarrow> sq_step s (s\<lparr>p_pc := PStore x\<rparr>)"
| enqueue_store: "p_pc s = PStore x \<Longrightarrow> sq_step s (s\<lparr>p_pc := PPublish x, sq_cells := (sq_cells s)(tailIndex s := Some x)\<rparr>)"
| enqueue_publish: "p_pc s = PPublish x \<Longrightarrow> sq_step s (s\<lparr>p_pc := PIdle, tailIndex := tailIndex s + 1, sq_sent := sq_sent s @ [x]\<rparr>)"
| dequeue: "d_at i DIdle s \<Longrightarrow> sq_step s (d_goto i (DOver (tailIndex s)) s)"
| load_overcommit: "d_at i (DOver t) s \<Longrightarrow> sq_step s (d_goto i (DOpt t (dequeueOvercommit s)) s)"
| first_test: "d_at i (DOpt t ov) s \<Longrightarrow>
    sq_step s (d_goto i (if circular_less_than (dequeueOptimisticCount s - ov) t then DAdd ov else DIdle) s)"
| add_optimistic: "d_at i (DAdd ov) s \<Longrightarrow>
    sq_step s (d_goto i (DCheck ov (dequeueOptimisticCount s)) (s\<lparr>dequeueOptimisticCount := dequeueOptimisticCount s + 1, sq_tries := Suc (sq_tries s)\<rparr>))"
| second_test: "d_at i (DCheck ov m) s \<Longrightarrow> circular_less_than (m - ov) (tailIndex s) \<Longrightarrow>
    sq_step s (d_goto i DHead (s\<lparr>sq_wins := insert (unat m) (sq_wins s)\<rparr>))"
| second_test_fails: "d_at i (DCheck ov m) s \<Longrightarrow> \<not> circular_less_than (m - ov) (tailIndex s) \<Longrightarrow> sq_step s (d_goto i (DUndo m) s)"
| undo: "d_at i (DUndo m) s \<Longrightarrow>
    sq_step s (d_goto i DIdle (s\<lparr>dequeueOvercommit := dequeueOvercommit s + 1, sq_fails := insert (unat m) (sq_fails s)\<rparr>))"
| take_index: "d_at i DHead s \<Longrightarrow> sq_step s (d_goto i (DRead (headIndex s)) (s\<lparr>headIndex := headIndex s + 1\<rparr>))"
| read: "d_at i (DRead k) s \<Longrightarrow> sq_cells s k = Some x \<Longrightarrow>
    sq_step s (d_goto i DIdle (s\<lparr>sq_cells := (sq_cells s)(k := None), sq_read := insert (unat k) (sq_read s), sq_got := add_mset x (sq_got s)\<rparr>))"

definition start_sq :: "'a sq_sys \<Rightarrow> bool" where
  "start_sq s \<longleftrightarrow> tailIndex s = 0 \<and> headIndex s = 0 \<and> dequeueOptimisticCount s = 0 \<and> dequeueOvercommit s = 0 \<and> p_pc s = PIdle \<and>
     (\<forall>pc \<in> set (d_pcs s). pc = DIdle) \<and> sq_sent s = [] \<and> sq_tries s = 0 \<and> sq_wins s = {} \<and> sq_fails s = {} \<and> sq_read s = {} \<and> sq_got s = {#}"

text \<open>\<open>ProducerBase::size_approx\<close>\<close>

definition size_approx :: "'a sq_sys \<Rightarrow> uint64" where
  "size_approx s = (if circular_less_than (headIndex s) (tailIndex s) then tailIndex s - headIndex s else 0)"

lemma d_goto_simps [simp]:
  "tailIndex (d_goto i pc s) = tailIndex s" "headIndex (d_goto i pc s) = headIndex s" "dequeueOptimisticCount (d_goto i pc s) = dequeueOptimisticCount s"
  "dequeueOvercommit (d_goto i pc s) = dequeueOvercommit s" "sq_cells (d_goto i pc s) = sq_cells s" "p_pc (d_goto i pc s) = p_pc s"
  "d_pcs (d_goto i pc s) = (d_pcs s)[i := pc]" "sq_sent (d_goto i pc s) = sq_sent s" "sq_tries (d_goto i pc s) = sq_tries s" "sq_wins (d_goto i pc s) = sq_wins s"
  "sq_fails (d_goto i pc s) = sq_fails s" "sq_read (d_goto i pc s) = sq_read s" "sq_got (d_goto i pc s) = sq_got s"
  by (simp_all add: d_goto_def)

section \<open>The books\<close>

text \<open>The counts that are neither won nor given back, the winners without an index, the indices that are being read.\<close>

fun open_count :: "deq_pc \<Rightarrow> nat multiset" where
  "open_count (DCheck ov m) = {#unat m#}"
| "open_count (DUndo m) = {#unat m#}"
| "open_count _ = {#}"

fun claiming :: "deq_pc \<Rightarrow> nat" where
  "claiming DHead = 1"
| "claiming _ = 0"

fun reading :: "deq_pc \<Rightarrow> nat multiset" where
  "reading (DRead k) = {#unat k#}"
| "reading _ = {#}"

definition all_pcs :: "(deq_pc \<Rightarrow> 'm :: comm_monoid_add) \<Rightarrow> 'a sq_sys \<Rightarrow> 'm" where
  "all_pcs f s = sum_list (map f (d_pcs s))"

definition sq_head :: "'a sq_sys \<Rightarrow> nat" where
  "sq_head s = card (sq_wins s) - all_pcs claiming s"

text \<open>What a thread knows from the value of \<open>dequeueOvercommit\<close> it has loaded.\<close>

fun over_ok :: "nat set \<Rightarrow> deq_pc \<Rightarrow> bool" where
  "over_ok F (DOpt t ov) \<longleftrightarrow> unat ov \<le> card F"
| "over_ok F (DAdd ov) \<longleftrightarrow> unat ov \<le> card F"
| "over_ok F (DCheck ov m) \<longleftrightarrow> unat ov \<le> card {f \<in> F. f < unat m}"
| "over_ok F _ \<longleftrightarrow> True"

definition sq_counts :: "'a sq_sys \<Rightarrow> bool" where
  "sq_counts s \<longleftrightarrow> tailIndex s = of_nat (length (sq_sent s)) \<and> dequeueOptimisticCount s = of_nat (sq_tries s) \<and>
     dequeueOvercommit s = of_nat (card (sq_fails s)) \<and> headIndex s = of_nat (sq_head s) \<and> all_pcs claiming s \<le> card (sq_wins s) \<and>
     finite (sq_wins s) \<and> finite (sq_fails s) \<and>
     mset_set (sq_wins s) + mset_set (sq_fails s) + all_pcs open_count s = mset_set {..<sq_tries s} \<and>
     list_all (over_ok (sq_fails s)) (d_pcs s) \<and>
     (\<forall>x \<in> sq_wins s. x + 1 \<le> length (sq_sent s) + card {f \<in> sq_fails s. f < x})"

definition sq_elements :: "'a sq_sys \<Rightarrow> bool" where
  "sq_elements s \<longleftrightarrow> finite (sq_read s) \<and> mset_set (sq_read s) + all_pcs reading s = mset_set {..<sq_head s} \<and>
     (\<forall>k < length (sq_sent s). k \<notin> sq_read s \<longrightarrow> sq_cells s (of_nat k) = Some (sq_sent s ! k)) \<and>
     (\<forall>x. p_pc s = PPublish x \<longrightarrow> sq_cells s (tailIndex s) = Some x) \<and>
     sq_got s = image_mset (\<lambda>k. sq_sent s ! k) (mset_set (sq_read s))"

text \<open>Less than half of the range of a word was used.\<close>

definition sq_small :: "'a sq_sys \<Rightarrow> bool" where
  "sq_small s \<longleftrightarrow> sq_tries s < 2 ^ 63 \<and> length (sq_sent s) < 2 ^ 63"

definition sq_inv :: "'a sq_sys \<Rightarrow> bool" where
  "sq_inv s \<longleftrightarrow> (sq_small s \<longrightarrow> sq_counts s \<and> sq_elements s)"

lemma all_pcs_move:
  assumes "d_at i pc s" "d_pcs s' = (d_pcs s)[i := pc']"
  shows "all_pcs f s' + f pc = all_pcs f s + f pc'"
  using assms sum_list_at [of i "d_pcs s" f pc'] by (simp add: all_pcs_def d_at_def)

lemma sq_step_small: "sq_step s s' \<Longrightarrow> sq_small s' \<Longrightarrow> sq_small s"
  by (induction rule: sq_step.induct) (auto simp: sq_small_def)

lemma small_unat: "n < 2 ^ 63 \<Longrightarrow> unat (of_nat n :: uint64) = n"
  by (simp add: unat_of_nat take_bit_nat_eq_self)

text \<open>No more winners than elements: the largest winning count bounds them all.\<close>

lemma wins_le_sent:
  assumes "finite W" "finite F" "W \<inter> F = {}" "\<forall>x \<in> W. x + 1 \<le> n + card {f \<in> F. f < x}"
  shows "card W \<le> n"
proof (cases "W = {}")
  case False
  define x where "x = Max W"
  have x: "x \<in> W" "\<forall>w \<in> W. w \<le> x" using assms(1) False by (simp_all add: x_def)
  have "card W + card {f \<in> F. f < x} = card (W \<union> {f \<in> F. f < x})" using assms(1-3) by (subst card_Un_disjoint) auto
  also have "\<dots> \<le> card {..x}" using x(2) by (intro card_mono) auto
  finally show ?thesis using assms(4) x(1) by force
qed simp

lemma card_below_insert:
  "finite F \<Longrightarrow> card {f \<in> F. f < x} \<le> card {f \<in> insert m F. f < x}"
  by (intro card_mono) auto

text \<open>What the other threads add to a sum.\<close>

lemma all_pcs_split:
  assumes "d_at i pc s" "f DIdle = 0"
  obtains R where "all_pcs f s = R + f pc" "\<And>s' :: 'a sq_sys. \<And>pc'. d_pcs s' = (d_pcs s)[i := pc'] \<Longrightarrow> all_pcs f s' = R + f pc'"
proof
  let ?R = "all_pcs f (d_goto i DIdle s)"
  show eq: "all_pcs f s = ?R + f pc" using all_pcs_move [OF assms(1), of "d_goto i DIdle s" DIdle f] assms(2) by simp
  fix s' :: "'a sq_sys" and pc'
  assume "d_pcs s' = (d_pcs s)[i := pc']"
  then show "all_pcs f s' = ?R + f pc'"
    using all_pcs_move [of i DIdle "d_goto i DIdle s" s' pc' f] assms by (simp add: d_at_def)
qed

lemma mset_set_parts:
  fixes n :: nat
  assumes "finite A" "finite B" "mset_set A + mset_set B + M = mset_set {..<n}"
  shows "A \<inter> B = {}" "A \<subseteq> {..<n}" "B \<subseteq> {..<n}" "x \<in># M \<Longrightarrow> x < n \<and> x \<notin> A \<and> x \<notin> B"
proof -
  have c: "count (mset_set A) y + count (mset_set B) y + count M y = (if y < n then 1 else 0)" for y
    using arg_cong [OF assms(3), of "\<lambda>N. count N y"] by (simp add: count_mset_set')
  have a: "y \<in> A \<Longrightarrow> y \<notin> B \<and> y < n" for y using c [of y] assms(1,2) by (cases "y \<in> B") (auto split: if_splits)
  have b: "y \<in> B \<Longrightarrow> y < n" for y using c [of y] assms(1,2) by (cases "y < n") (auto split: if_splits)
  show "A \<inter> B = {}" "A \<subseteq> {..<n}" "B \<subseteq> {..<n}" using a b by auto
  assume "x \<in># M"
  then have "count M x > 0" by simp
  with c [of x] assms(1,2) show "x < n \<and> x \<notin> A \<and> x \<notin> B" by (cases "x \<in> A"; cases "x \<in> B"; cases "x < n") auto
qed

lemma sq_countsD:
  assumes "sq_counts s"
  shows "sq_wins s \<inter> sq_fails s = {}" "sq_wins s \<subseteq> {..<sq_tries s}" "sq_fails s \<subseteq> {..<sq_tries s}" "card (sq_wins s) \<le> length (sq_sent s)"
    "card (sq_fails s) \<le> sq_tries s" "sq_head s \<le> length (sq_sent s)"
    "x \<in># all_pcs open_count s \<Longrightarrow> x < sq_tries s \<and> x \<notin> sq_wins s \<and> x \<notin> sq_fails s"
proof -
  note c = assms [unfolded sq_counts_def]
  have f: "finite (sq_wins s)" "finite (sq_fails s)" and e: "mset_set (sq_wins s) + mset_set (sq_fails s) + all_pcs open_count s = mset_set {..<sq_tries s}"
    using c by auto
  show d: "sq_wins s \<inter> sq_fails s = {}" "sq_wins s \<subseteq> {..<sq_tries s}" "sq_fails s \<subseteq> {..<sq_tries s}" using mset_set_parts(1-3) [OF f e] .
  show le: "card (sq_wins s) \<le> length (sq_sent s)" using c d(1) by (intro wins_le_sent) auto
  then show "sq_head s \<le> length (sq_sent s)" by (simp add: sq_head_def)
  show "card (sq_fails s) \<le> sq_tries s" using card_mono [OF _ d(3)] by simp
  show "x \<in># all_pcs open_count s \<Longrightarrow> x < sq_tries s \<and> x \<notin> sq_wins s \<and> x \<notin> sq_fails s" using mset_set_parts(4) [OF f e] .
qed

lemma sq_elementsD:
  assumes "sq_elements s"
  shows "sq_read s \<subseteq> {..<sq_head s}" "x \<in># all_pcs reading s \<Longrightarrow> x < sq_head s \<and> x \<notin> sq_read s"
  using assms mset_set_parts(2,4) [of "sq_read s" "{}" "all_pcs reading s" "sq_head s"] by (auto simp: sq_elements_def)

lemma list_all_update: "list_all P xs \<Longrightarrow> P y \<Longrightarrow> list_all P (xs[i := y])"
  using set_update_subset_insert [of xs i y] by (auto simp: list_all_iff)

lemma over_ok_mono:
  assumes "finite F" "over_ok F pc"
  shows "over_ok (insert m F) pc"
proof (cases pc)
  case (DCheck ov n)
  with assms card_below_insert [OF assms(1), of "unat n" m] show ?thesis by simp
qed (use assms card_insert_le [of F m] in \<open>auto intro: order_trans\<close>)

text \<open>The invariant of the indices, step by step.\<close>

lemma sq_counts_move:
  assumes "sq_counts s" "d_at i pc s" "d_pcs s' = (d_pcs s)[i := pc']" "open_count pc' = open_count pc" "claiming pc' = claiming pc"
    "over_ok (sq_fails s) pc'" "tailIndex s' = tailIndex s" "headIndex s' = headIndex s" "dequeueOptimisticCount s' = dequeueOptimisticCount s"
    "dequeueOvercommit s' = dequeueOvercommit s" "sq_sent s' = sq_sent s" "sq_tries s' = sq_tries s" "sq_wins s' = sq_wins s" "sq_fails s' = sq_fails s"
  shows "sq_counts s' \<and> sq_head s' = sq_head s"
proof -
  have "all_pcs open_count s' = all_pcs open_count s" "all_pcs claiming s' = all_pcs claiming s"
    using all_pcs_move [OF assms(2,3), of open_count] all_pcs_move [OF assms(2,3), of claiming] assms(4,5) by simp_all
  with assms show ?thesis by (simp add: sq_counts_def sq_head_def list_all_update)
qed

lemma counts_add:
  assumes "sq_counts s" "d_at i (DAdd ov) s" "sq_small s"
    "s' = d_goto i (DCheck ov (dequeueOptimisticCount s)) (s\<lparr>dequeueOptimisticCount := dequeueOptimisticCount s + 1, sq_tries := Suc (sq_tries s)\<rparr>)"
  shows "sq_counts s' \<and> sq_head s' = sq_head s"
proof -
  have n: "unat (dequeueOptimisticCount s) = sq_tries s" using assms(1,3) by (simp add: sq_counts_def sq_small_def small_unat)
  have "all_pcs open_count s' = add_mset (sq_tries s) (all_pcs open_count s)" "all_pcs claiming s' = all_pcs claiming s"
    using all_pcs_move [OF assms(2), of s' "DCheck ov (dequeueOptimisticCount s)" open_count]
      all_pcs_move [OF assms(2), of s' "DCheck ov (dequeueOptimisticCount s)" claiming] assms(4) n by simp_all
  moreover have "over_ok (sq_fails s) (DAdd ov)" using assms(1,2) by (auto simp: sq_counts_def list_all_length d_at_def)
  moreover have "{f \<in> sq_fails s. f < sq_tries s} = sq_fails s" using sq_countsD(3) [OF assms(1)] by auto
  ultimately show ?thesis
    using assms(1,4) n by (auto simp: sq_counts_def sq_head_def lessThan_Suc intro: list_all_update)
qed

lemma counts_win:
  assumes "sq_counts s" "d_at i (DCheck ov m) s" "sq_small s" "circular_less_than (m - ov) (tailIndex s)"
    "s' = d_goto i DHead (s\<lparr>sq_wins := insert (unat m) (sq_wins s)\<rparr>)"
  shows "sq_counts s' \<and> sq_head s' = sq_head s"
proof -
  note c = assms(1) [unfolded sq_counts_def]
  have pcs: "all_pcs open_count s = add_mset (unat m) (all_pcs open_count s')" "all_pcs claiming s' = Suc (all_pcs claiming s)"
    using all_pcs_move [OF assms(2), of s' DHead open_count] all_pcs_move [OF assms(2), of s' DHead claiming] assms(5) by simp_all
  have m: "unat m < sq_tries s" "unat m \<notin> sq_wins s" using sq_countsD(7) [OF assms(1), of "unat m"] pcs(1) by simp_all
  have ov: "unat ov \<le> card {f \<in> sq_fails s. f < unat m}" using c assms(2) by (auto simp: list_all_length d_at_def)
  also have "\<dots> \<le> card {..<unat m}" by (rule card_mono) auto
  finally have le: "unat ov \<le> unat m" by simp
  then have "m - ov = of_nat (unat m - unat ov)" by (simp add: of_nat_diff)
  moreover have "unat m - unat ov < 2 ^ 63" using assms(3) m(1) unfolding sq_small_def by linarith
  ultimately have "unat m - unat ov < length (sq_sent s)"
    using assms(3,4) c circular_less_than_nat [of "unat m - unat ov" "length (sq_sent s)"] by (simp add: sq_small_def)
  then have "unat m + 1 \<le> length (sq_sent s) + card {f \<in> sq_fails s. f < unat m}" using ov le by linarith
  moreover have "list_all (over_ok (sq_fails s)) (d_pcs s')" using c assms(5) by (simp add: list_all_update)
  moreover have "mset_set (sq_wins s') + mset_set (sq_fails s') + all_pcs open_count s' = mset_set {..<sq_tries s'}"
    using c m(2) pcs(1) assms(5) by simp
  ultimately show ?thesis using c m(2) pcs(2) assms(5) by (auto simp: sq_counts_def sq_head_def)
qed

lemma counts_undo:
  assumes "sq_counts s" "d_at i (DUndo m) s"
    "s' = d_goto i DIdle (s\<lparr>dequeueOvercommit := dequeueOvercommit s + 1, sq_fails := insert (unat m) (sq_fails s)\<rparr>)"
  shows "sq_counts s' \<and> sq_head s' = sq_head s"
proof -
  note c = assms(1) [unfolded sq_counts_def]
  have pcs: "all_pcs open_count s = add_mset (unat m) (all_pcs open_count s')" "all_pcs claiming s' = all_pcs claiming s"
    using all_pcs_move [OF assms(2), of s' DIdle open_count] all_pcs_move [OF assms(2), of s' DIdle claiming] assms(3) by simp_all
  have m: "unat m \<notin> sq_fails s" using sq_countsD(7) [OF assms(1), of "unat m"] pcs(1) by simp
  have "list_all (over_ok (insert (unat m) (sq_fails s))) (d_pcs s)"
    using c over_ok_mono by (auto simp: list_all_iff)
  then have "list_all (over_ok (sq_fails s')) (d_pcs s')" using assms(3) by (simp add: list_all_update)
  moreover have "\<forall>x \<in> sq_wins s. x + 1 \<le> length (sq_sent s) + card {f \<in> insert (unat m) (sq_fails s). f < x}"
    using c card_below_insert [of "sq_fails s" _ "unat m"] by (metis (no_types, lifting) add_left_mono order_trans)
  moreover have "mset_set (sq_wins s') + mset_set (sq_fails s') + all_pcs open_count s' = mset_set {..<sq_tries s'}"
  proof -
    have "mset_set (sq_wins s) + mset_set (sq_fails s) + all_pcs open_count s = mset_set {..<sq_tries s}" "finite (sq_fails s)" using c by blast+
    moreover have "sq_wins s' = sq_wins s" "sq_fails s' = insert (unat m) (sq_fails s)" "sq_tries s' = sq_tries s" using assms(3) by simp_all
    ultimately show ?thesis using m pcs(1) by simp
  qed
  ultimately show ?thesis using c m pcs(2) assms(3) by (auto simp: sq_counts_def sq_head_def)
qed

lemma counts_take:
  assumes "sq_counts s" "d_at i DHead s" "s' = d_goto i (DRead (headIndex s)) (s\<lparr>headIndex := headIndex s + 1\<rparr>)"
  shows "sq_counts s' \<and> sq_head s' = Suc (sq_head s)"
proof -
  note c = assms(1) [unfolded sq_counts_def]
  have pcs: "all_pcs open_count s' = all_pcs open_count s" "Suc (all_pcs claiming s') = all_pcs claiming s"
    using all_pcs_move [OF assms(2), of s' "DRead (headIndex s)" open_count] all_pcs_move [OF assms(2), of s' "DRead (headIndex s)" claiming] assms(3) by simp_all
  have "sq_wins s' = sq_wins s" using assms(3) by simp
  moreover have "all_pcs claiming s \<le> card (sq_wins s)" using c by blast
  ultimately have "sq_head s' = Suc (sq_head s)" using pcs(2) by (simp add: sq_head_def)
  with c pcs assms(3) show ?thesis by (auto simp: sq_counts_def intro: list_all_update)
qed

lemma sq_elements_move:
  assumes "sq_elements s" "all_pcs reading s' = all_pcs reading s" "sq_head s' = sq_head s" "sq_sent s' = sq_sent s" "sq_read s' = sq_read s"
    "sq_got s' = sq_got s" "sq_cells s' = sq_cells s" "p_pc s' = p_pc s" "tailIndex s' = tailIndex s"
  shows "sq_elements s'"
  using assms by (simp add: sq_elements_def)

lemma reading_move: "d_at i pc s \<Longrightarrow> d_pcs s' = (d_pcs s)[i := pc'] \<Longrightarrow> reading pc = {#} \<Longrightarrow> reading pc' = {#} \<Longrightarrow> all_pcs reading s' = all_pcs reading s"
  using all_pcs_move [of i pc s s' pc' reading] by simp

lemma elements_take:
  assumes "sq_elements s" "sq_counts s" "sq_small s" "d_at i DHead s" "s' = d_goto i (DRead (headIndex s)) (s\<lparr>headIndex := headIndex s + 1\<rparr>)"
  shows "sq_elements s'"
proof -
  have "sq_head s < 2 ^ 63" using sq_countsD(6) [OF assms(2)] assms(3) by (simp add: sq_small_def)
  then have "unat (headIndex s) = sq_head s" using assms(2) small_unat by (simp add: sq_counts_def)
  then have "all_pcs reading s' = add_mset (sq_head s) (all_pcs reading s)"
    using all_pcs_move [OF assms(4), of s' "DRead (headIndex s)" reading] assms(5) by simp
  moreover have "sq_head s' = Suc (sq_head s)" using counts_take [OF assms(2,4,5)] by simp
  ultimately show ?thesis using assms(1,5) by (simp add: sq_elements_def lessThan_Suc)
qed

lemma reader_cell:
  assumes "sq_elements s" "sq_counts s" "d_at i (DRead k) s"
  shows "unat k < sq_head s" "unat k \<notin> sq_read s" "sq_cells s k = Some (sq_sent s ! unat k)"
proof -
  have "unat k \<in># all_pcs reading s" using all_pcs_move [OF assms(3), of "d_goto i DIdle s" DIdle reading] by (auto dest: sym)
  from sq_elementsD(2) [OF assms(1) this] show k: "unat k < sq_head s" "unat k \<notin> sq_read s" by simp_all
  have "unat k < length (sq_sent s)" using k(1) sq_countsD(6) [OF assms(2)] by linarith
  then have "sq_cells s (of_nat (unat k)) = Some (sq_sent s ! unat k)" using k(2) assms(1) unfolding sq_elements_def by blast
  then show "sq_cells s k = Some (sq_sent s ! unat k)" by simp
qed

lemma elements_read:
  assumes "sq_elements s" "sq_counts s" "sq_small s" "d_at i (DRead k) s" "sq_cells s k = Some x"
    "s' = d_goto i DIdle (s\<lparr>sq_cells := (sq_cells s)(k := None), sq_read := insert (unat k) (sq_read s), sq_got := add_mset x (sq_got s)\<rparr>)"
  shows "sq_elements s'"
proof -
  note k = reader_cell [OF assms(1,2,4)]
  have len: "unat k < length (sq_sent s)" "length (sq_sent s) < 2 ^ 63" using k(1) sq_countsD(6) [OF assms(2)] assms(3) by (simp_all add: sq_small_def)
  have pcs: "all_pcs reading s = add_mset (unat k) (all_pcs reading s')" "all_pcs claiming s' = all_pcs claiming s"
    using all_pcs_move [OF assms(4), of s' DIdle reading] all_pcs_move [OF assms(4), of s' DIdle claiming] assms(6) by simp_all
  have f: "sq_read s' = insert (unat k) (sq_read s)" "sq_sent s' = sq_sent s" "sq_cells s' = (sq_cells s)(k := None)" "p_pc s' = p_pc s" "tailIndex s' = tailIndex s"
    "sq_got s' = add_mset x (sq_got s)" "sq_wins s' = sq_wins s"
    using assms(6) by simp_all
  have head: "sq_head s' = sq_head s" using f(7) pcs(2) by (simp add: sq_head_def)
  have "finite (sq_read s')" "mset_set (sq_read s') + all_pcs reading s' = mset_set {..<sq_head s'}"
    using assms(1) k(2) pcs(1) by (simp_all add: sq_elements_def f head)
  moreover have "sq_cells s' (of_nat j) = Some (sq_sent s' ! j)" if "j < length (sq_sent s')" "j \<notin> sq_read s'" for j
  proof -
    have "of_nat j \<noteq> k" using that len small_unat [of j] by (auto simp: f)
    with that assms(1) show ?thesis by (simp add: f sq_elements_def)
  qed
  moreover have "sq_cells s' (tailIndex s') = Some y" if "p_pc s' = PPublish y" for y
  proof -
    have "tailIndex s \<noteq> k" using len small_unat [of "length (sq_sent s)"] assms(2) by (auto simp: sq_counts_def)
    with that assms(1) show ?thesis by (simp add: f sq_elements_def)
  qed
  moreover have "sq_got s' = image_mset (\<lambda>k. sq_sent s' ! k) (mset_set (sq_read s'))"
    using assms(1,5) k(2,3) by (simp add: sq_elements_def f)
  ultimately show ?thesis by (simp add: sq_elements_def)
qed

lemma publish_inv:
  assumes "sq_elements s" "sq_counts s" "sq_small s" "p_pc s = PPublish x"
    "s' = s\<lparr>p_pc := PIdle, tailIndex := tailIndex s + 1, sq_sent := sq_sent s @ [x]\<rparr>"
  shows "sq_counts s' \<and> sq_elements s'"
proof
  have f: "all_pcs open_count s' = all_pcs open_count s" "all_pcs claiming s' = all_pcs claiming s" "all_pcs reading s' = all_pcs reading s" "sq_head s' = sq_head s"
    using assms(5) by (simp_all add: all_pcs_def sq_head_def)
  show "sq_counts s'" using assms(2,5) f by (auto simp: sq_counts_def)
  have "sq_read s \<subseteq> {..<length (sq_sent s)}" using sq_elementsD(1) [OF assms(1)] sq_countsD(6) [OF assms(2)] by auto
  then have "image_mset (\<lambda>k. (sq_sent s @ [x]) ! k) (mset_set (sq_read s)) = image_mset (\<lambda>k. sq_sent s ! k) (mset_set (sq_read s))"
    using assms(1) by (intro image_mset_cong) (auto simp: sq_elements_def nth_append)
  moreover have "sq_cells s (of_nat (length (sq_sent s))) = Some x" using assms(1,2,4) by (simp add: sq_elements_def sq_counts_def)
  ultimately show "sq_elements s'" using assms(1,5) f by (auto simp: sq_elements_def nth_append less_Suc_eq)
qed

lemma store_inv:
  assumes "sq_elements s" "sq_counts s" "sq_small s" "s' = s\<lparr>p_pc := PPublish x, sq_cells := (sq_cells s)(tailIndex s := Some x)\<rparr>"
  shows "sq_counts s' \<and> sq_elements s'"
proof -
  have f: "all_pcs open_count s' = all_pcs open_count s" "all_pcs claiming s' = all_pcs claiming s" "all_pcs reading s' = all_pcs reading s" "sq_head s' = sq_head s"
    using assms(4) by (simp_all add: all_pcs_def sq_head_def)
  have "of_nat k \<noteq> tailIndex s" if "k < length (sq_sent s)" for k
    using that assms(2,3) small_unat [of k] small_unat [of "length (sq_sent s)"] by (auto simp: sq_counts_def sq_small_def)
  with f assms show ?thesis by (auto simp: sq_elements_def sq_counts_def)
qed

lemma producer_moves:
  assumes "sq_elements s" "sq_counts s" "\<And>y. pc \<noteq> PPublish y"
  shows "sq_counts (s\<lparr>p_pc := pc\<rparr>) \<and> sq_elements (s\<lparr>p_pc := pc\<rparr>)"
proof -
  have "all_pcs f (s\<lparr>p_pc := pc\<rparr>) = all_pcs f s" for f :: "deq_pc \<Rightarrow> 'b :: comm_monoid_add" by (simp add: all_pcs_def)
  moreover have "all_pcs open_count (s\<lparr>p_pc := pc\<rparr>) = all_pcs open_count s" "all_pcs claiming (s\<lparr>p_pc := pc\<rparr>) = all_pcs claiming s"
    "all_pcs reading (s\<lparr>p_pc := pc\<rparr>) = all_pcs reading s" by (simp_all add: all_pcs_def)
  ultimately show ?thesis using assms by (auto simp: sq_counts_def sq_elements_def sq_head_def)
qed

lemma consumer_moves:
  assumes "sq_elements s" "sq_counts s" "d_at i pc s" "open_count pc' = open_count pc" "claiming pc' = claiming pc" "reading pc = {#}" "reading pc' = {#}"
    "over_ok (sq_fails s) pc'"
  shows "sq_counts (d_goto i pc' s) \<and> sq_elements (d_goto i pc' s)"
proof -
  have c: "sq_counts (d_goto i pc' s) \<and> sq_head (d_goto i pc' s) = sq_head s" using assms by (intro sq_counts_move [OF assms(2,3)]) simp_all
  with sq_elements_move [OF assms(1) reading_move [OF assms(3) _ assms(6,7)]] show ?thesis by simp
qed

lemma over_ok_at: "sq_counts s \<Longrightarrow> d_at i pc s \<Longrightarrow> over_ok (sq_fails s) pc"
  by (auto simp: sq_counts_def d_at_def list_all_length)

lemma sq_step_inv: "sq_step s s' \<Longrightarrow> sq_inv s \<Longrightarrow> sq_inv s'"
proof -
  assume step: "sq_step s s'" and inv: "sq_inv s"
  have "sq_counts s' \<and> sq_elements s'" if small': "sq_small s'"
  proof -
    have small: "sq_small s" using sq_step_small [OF step small'] .
    with inv have c: "sq_counts s" and e: "sq_elements s" by (simp_all add: sq_inv_def)
    from step show ?thesis
    proof cases
      case (enqueue x)
      then show ?thesis using producer_moves [OF e c] by simp
    next
      case (enqueue_refused x)
      then show ?thesis using producer_moves [OF e c, of PIdle] by simp
    next
      case (enqueue_block x)
      then show ?thesis using producer_moves [OF e c, of "PStore x"] by simp
    next
      case (enqueue_store x)
      then show ?thesis using store_inv [OF e c small] by blast
    next
      case (enqueue_publish x)
      then show ?thesis using publish_inv [OF e c small] by blast
    next
      case (dequeue i)
      then show ?thesis using consumer_moves [OF e c dequeue(2)] by simp
    next
      case (load_overcommit i t)
      have "card (sq_fails s) < 2 ^ 63" using sq_countsD(5) [OF c] small unfolding sq_small_def by linarith
      then have "unat (dequeueOvercommit s) = card (sq_fails s)" using c small_unat by (simp add: sq_counts_def)
      with load_overcommit show ?thesis using consumer_moves [OF e c load_overcommit(2)] by simp
    next
      case (first_test i t ov)
      then show ?thesis using consumer_moves [OF e c first_test(2)] over_ok_at [OF c first_test(2)] by simp
    next
      case (add_optimistic i ov)
      note a = counts_add [OF c add_optimistic(2) small add_optimistic(1)]
      have "all_pcs reading s' = all_pcs reading s"
        by (rule reading_move [OF add_optimistic(2), where pc' = "DCheck ov (dequeueOptimisticCount s)"]) (simp_all add: add_optimistic(1))
      then show ?thesis using a sq_elements_move [OF e] by (simp add: add_optimistic(1))
    next
      case (second_test i ov m)
      note a = counts_win [OF c second_test(2) small second_test(3,1)]
      have "all_pcs reading s' = all_pcs reading s" by (rule reading_move [OF second_test(2), where pc' = DHead]) (simp_all add: second_test(1))
      then show ?thesis using a sq_elements_move [OF e] by (simp add: second_test(1))
    next
      case (second_test_fails i ov m)
      then show ?thesis using consumer_moves [OF e c second_test_fails(2)] by simp
    next
      case (undo i m)
      note a = counts_undo [OF c undo(2,1)]
      have "all_pcs reading s' = all_pcs reading s" by (rule reading_move [OF undo(2), where pc' = DIdle]) (simp_all add: undo(1))
      then show ?thesis using a sq_elements_move [OF e] by (simp add: undo(1))
    next
      case (take_index i)
      then show ?thesis using counts_take [OF c take_index(2,1)] elements_take [OF e c small take_index(2,1)] by simp
    next
      case (read i k x)
      have "sq_counts s'" using sq_counts_move [OF c read(2), of s' DIdle] by (simp add: read(1))
      then show ?thesis using elements_read [OF e c small read(2,3,1)] by simp
    qed
  qed
  then show "sq_inv s'" by (simp add: sq_inv_def)
qed

lemma all_pcs_idle: "\<forall>pc \<in> set (d_pcs s). pc = DIdle \<Longrightarrow> f DIdle = 0 \<Longrightarrow> all_pcs f s = (0 :: 'm :: comm_monoid_add)"
proof -
  have "\<forall>pc \<in> set xs. pc = DIdle \<Longrightarrow> f DIdle = 0 \<Longrightarrow> sum_list (map f xs) = 0" for xs by (induction xs) auto
  then show "\<forall>pc \<in> set (d_pcs s). pc = DIdle \<Longrightarrow> f DIdle = 0 \<Longrightarrow> all_pcs f s = 0" by (simp add: all_pcs_def)
qed

interpretation sub_queue_run: invariant_run start_sq sq_step sq_inv
proof
  show "sq_inv s" if "start_sq s" for s :: "'a sq_sys"
  proof -
    have "all_pcs open_count s = {#}" "all_pcs claiming s = 0" "all_pcs reading s = {#}"
      using that by (auto simp: start_sq_def intro!: all_pcs_idle [where 'm = "nat multiset", simplified zero_multiset_def] all_pcs_idle)
    moreover have "list_all (over_ok {}) (d_pcs s)" using that by (auto simp: start_sq_def list_all_iff)
    ultimately show ?thesis using that by (auto simp: start_sq_def sq_inv_def sq_counts_def sq_elements_def sq_head_def)
  qed
qed (rule sq_step_inv)

section \<open>A first-in first-out queue\<close>

definition fifo :: "'a sq_sys \<Rightarrow> 'a list" where
  "fifo s = drop (sq_head s) (sq_sent s)"

lemma sub_queue_inv:
  assumes "start_sq s0" "sq_step\<^sup>*\<^sup>* s0 s" "sq_small s"
  shows "sq_counts s" "sq_elements s"
  using sub_queue_run.reachable_inv [OF assms(2,1)] assms(3) by (simp_all add: sq_inv_def)

lemma head_same: "d_at i pc s \<Longrightarrow> d_pcs s' = (d_pcs s)[i := pc'] \<Longrightarrow> claiming pc' = claiming pc \<Longrightarrow> sq_wins s' = sq_wins s \<Longrightarrow> sq_sent s' = sq_sent s \<Longrightarrow> fifo s' = fifo s"
  using all_pcs_move [of i pc s s' pc' claiming] by (simp add: fifo_def sq_head_def)

lemma take_index_takes_first:
  assumes "sq_counts s" "sq_elements s" "sq_small s" "d_at i DHead s" "s' = d_goto i (DRead (headIndex s)) (s\<lparr>headIndex := headIndex s + 1\<rparr>)"
  shows "\<exists>x. fifo s = x # fifo s' \<and> d_at i (DRead (headIndex s)) s' \<and> sq_cells s' (headIndex s) = Some x"
proof -
  note c = counts_take [OF assms(1,4,5)]
  have at: "d_at i (DRead (headIndex s)) s'" using assms(4,5) by (simp add: d_at_def)
  have "Suc (sq_head s) \<le> length (sq_sent s)" using sq_countsD(6) [of s'] c assms(5) by simp
  moreover from this have "unat (headIndex s) = sq_head s" using assms(1,3) small_unat by (simp add: sq_counts_def sq_small_def)
  ultimately show ?thesis
    using reader_cell(3) [OF elements_take [OF assms(2,1,3,4,5)] conjunct1 [OF c] at] at c assms(5)
    by (simp add: fifo_def Cons_nth_drop_Suc)
qed

text \<open>C27: the queue of one producer is first in, first out, whatever the interleaving: each step leaves the queue as it is, or appends the element that
  the producer publishes, or takes the first element, whose place then is the one the dequeuing thread goes on to read.\<close>

theorem sub_queue_refines_fifo:
  assumes "start_sq s0" "sq_step\<^sup>*\<^sup>* s0 s" "sq_step s s'" "sq_small s'"
  shows "fifo s' = fifo s \<or> (\<exists>x. p_pc s = PPublish x \<and> fifo s' = fifo s @ [x]) \<or>
    (\<exists>i x. d_at i DHead s \<and> fifo s = x # fifo s' \<and> d_at i (DRead (headIndex s)) s' \<and> sq_cells s' (headIndex s) = Some x)"
proof -
  have small: "sq_small s" using sq_step_small [OF assms(3,4)] .
  note inv = sub_queue_inv [OF assms(1,2) small]
  have same: "fifo (s\<lparr>p_pc := pc\<rparr>) = fifo s" "fifo (s\<lparr>p_pc := pc, sq_cells := cs\<rparr>) = fifo s" for pc cs
    by (simp_all add: fifo_def sq_head_def all_pcs_def)
  from assms(3) show ?thesis
  proof cases
    case (enqueue_publish x)
    have "sq_head s' = sq_head s" using enqueue_publish(1) by (simp add: sq_head_def all_pcs_def)
    then have "fifo s' = fifo s @ [x]" using sq_countsD(6) [OF inv(1)] enqueue_publish(1) by (simp add: fifo_def)
    with enqueue_publish show ?thesis by blast
  next
    case (take_index i)
    then show ?thesis using take_index_takes_first [OF inv small take_index(2,1)] by blast
  next
    case (second_test i ov m)
    then have "sq_head s' = sq_head s" using counts_win [OF inv(1) second_test(2) small second_test(3,1)] by simp
    then show ?thesis using second_test(1) by (simp add: fifo_def)
  next
    case (first_test i t ov)
    then have "fifo s' = fifo s"
      by (intro head_same [OF first_test(2), where pc' = "if circular_less_than (dequeueOptimisticCount s - ov) t then DAdd ov else DIdle"]) auto
    then show ?thesis by blast
  next
    case (dequeue i)
    then have "fifo s' = fifo s" by (intro head_same [OF dequeue(2), where pc' = "DOver (tailIndex s)"]) auto
    then show ?thesis by blast
  next
    case (load_overcommit i t)
    then have "fifo s' = fifo s" by (intro head_same [OF load_overcommit(2), where pc' = "DOpt t (dequeueOvercommit s)"]) auto
    then show ?thesis by blast
  next
    case (add_optimistic i ov)
    then have "fifo s' = fifo s" by (intro head_same [OF add_optimistic(2), where pc' = "DCheck ov (dequeueOptimisticCount s)"]) auto
    then show ?thesis by blast
  next
    case (second_test_fails i ov m)
    then have "fifo s' = fifo s" by (intro head_same [OF second_test_fails(2), where pc' = "DUndo m"]) auto
    then show ?thesis by blast
  next
    case (undo i m)
    then have "fifo s' = fifo s" by (intro head_same [OF undo(2), where pc' = DIdle]) auto
    then show ?thesis by blast
  next
    case (read i k x)
    then have "fifo s' = fifo s" by (intro head_same [OF read(2), where pc' = DIdle]) auto
    then show ?thesis by blast
  qed (simp_all add: same)
qed

text \<open>No element is lost or read twice, and none before it was constructed: what was enqueued is what was read, what some thread is about to read and
  what is in the queue; and the place that a thread is about to read holds an element.\<close>

lemma sub_queue_conserves_elements:
  assumes "start_sq s0" "sq_step\<^sup>*\<^sup>* s0 s" "sq_small s"
  shows "mset (sq_sent s) = sq_got s + image_mset (\<lambda>k. sq_sent s ! k) (all_pcs reading s) + mset (fifo s) \<and>
    (\<forall>i k. d_at i (DRead k) s \<longrightarrow> sq_cells s k = Some (sq_sent s ! unat k)) \<and> size_approx s = of_nat (length (fifo s))"
proof -
  note inv = sub_queue_inv [OF assms]
  have le: "sq_head s \<le> length (sq_sent s)" using sq_countsD(6) [OF inv(1)] .
  have "sq_got s + image_mset (\<lambda>k. sq_sent s ! k) (all_pcs reading s) = image_mset (\<lambda>k. sq_sent s ! k) (mset_set {..<sq_head s})"
    using inv(2) by (simp add: sq_elements_def flip: image_mset_union)
  also have "\<dots> = mset (take (sq_head s) (sq_sent s))"
  proof -
    have "mset_set {..<sq_head s} = mset [0..<sq_head s]" by (simp add: mset_upt lessThan_atLeast0)
    moreover have "map (\<lambda>k. sq_sent s ! k) [0..<sq_head s] = take (sq_head s) (sq_sent s)" using le by (simp add: take_map map_nth list_eq_iff_nth_eq)
    ultimately show ?thesis by (metis mset_map)
  qed
  finally have "mset (sq_sent s) = sq_got s + image_mset (\<lambda>k. sq_sent s ! k) (all_pcs reading s) + mset (fifo s)"
    by (simp add: fifo_def flip: mset_append)
  moreover have "size_approx s = of_nat (length (fifo s))"
    using inv(1) assms(3) le circular_less_than_nat [of "sq_head s" "length (sq_sent s)"]
    by (auto simp: size_approx_def fifo_def sq_counts_def sq_small_def of_nat_diff)
  ultimately show ?thesis using reader_cell(3) [OF inv(2,1)] by blast
qed

text \<open>A dequeue that nobody disturbs.\<close>

lemma seven_steps:
  assumes "R s0 s1" "R s1 s2" "R s2 s3" "R s3 s4" "R s4 s5" "R s5 s6" "R s6 s7"
  shows "(R ^^ 7) s0 s7"
  using assms by (auto simp: numeral_eq_Suc intro!: relcomppI)

lemma at_rest_counts:
  assumes "sq_counts s" "\<forall>pc \<in> set (d_pcs s). pc = DIdle"
  shows "sq_head s = card (sq_wins s)" "card (sq_wins s) + card (sq_fails s) = sq_tries s" "dequeueOptimisticCount s - dequeueOvercommit s = headIndex s"
proof -
  have pcs: "all_pcs open_count s = {#}" "all_pcs claiming s = 0"
    using all_pcs_idle [OF assms(2), of open_count] all_pcs_idle [OF assms(2), of claiming] by simp_all
  then show head: "sq_head s = card (sq_wins s)" by (simp add: sq_head_def)
  have "size (mset_set (sq_wins s) + mset_set (sq_fails s)) = size (mset_set {..<sq_tries s})" using assms(1) pcs(1) by (simp add: sq_counts_def)
  then show sum: "card (sq_wins s) + card (sq_fails s) = sq_tries s" by simp
  then have "(of_nat (sq_tries s) :: uint64) = of_nat (card (sq_wins s)) + of_nat (card (sq_fails s))" by (metis of_nat_add)
  then show "dequeueOptimisticCount s - dequeueOvercommit s = headIndex s" using assms(1) head by (simp add: sq_counts_def)
qed

lemma undisturbed_dequeue:
  assumes "sq_counts s" "sq_elements s" "sq_small s" "\<forall>pc \<in> set (d_pcs s). pc = DIdle" "i < length (d_pcs s)" "fifo s = x # xs"
  shows "\<exists>s'. (sq_step ^^ 7) s s' \<and> fifo s' = xs \<and> sq_got s' = add_mset x (sq_got s) \<and> d_pcs s' = d_pcs s"
proof -
  note rest = at_rest_counts [OF assms(1,4)]
  let ?ov = "dequeueOvercommit s" and ?m = "dequeueOptimisticCount s" and ?h = "headIndex s"
  have idle: "d_pcs s ! i = DIdle" using assms(4,5) by simp
  have "sq_head s < length (sq_sent s)" using assms(6) by (metis drop_all fifo_def list.distinct(1) not_le)
  with Cons_nth_drop_Suc [OF this] assms(6) have len: "sq_head s < length (sq_sent s)" "x = sq_sent s ! sq_head s" "xs = drop (Suc (sq_head s)) (sq_sent s)"
    by (simp_all add: fifo_def)
  have test: "circular_less_than (?m - ?ov) (tailIndex s)"
    using rest(3) assms(1,3) len(1) circular_less_than_nat [of "sq_head s" "length (sq_sent s)"] by (simp add: sq_counts_def sq_small_def)
  have h: "unat ?h = sq_head s" using assms(1,3) len(1) small_unat [of "sq_head s"] by (simp add: sq_counts_def sq_small_def)
  have m: "unat ?m = sq_tries s" using assms(1,3) small_unat by (simp add: sq_counts_def sq_small_def)
  have "sq_head s \<notin> sq_read s" using sq_elementsD(1) [OF assms(2)] by auto
  then have cell: "sq_cells s ?h = Some x" using assms(1,2) len(1,2) by (simp add: sq_counts_def sq_elements_def)
  let ?s3 = "s\<lparr>dequeueOptimisticCount := ?m + 1, sq_tries := Suc (sq_tries s)\<rparr>"
  let ?s4 = "?s3\<lparr>sq_wins := insert (unat ?m) (sq_wins s)\<rparr>"
  let ?s5 = "?s4\<lparr>headIndex := ?h + 1\<rparr>"
  let ?s6 = "?s5\<lparr>sq_cells := (sq_cells s)(?h := None), sq_read := insert (unat ?h) (sq_read s), sq_got := add_mset x (sq_got s)\<rparr>"
  note defs = d_at_def d_goto_def
  have "(sq_step ^^ 7) s (d_goto i DIdle ?s6)"
  proof (rule seven_steps)
    show "sq_step s (d_goto i (DOver (tailIndex s)) s)" using sq_step.dequeue [of i s] assms(5) idle by (simp add: defs)
    show "sq_step (d_goto i (DOver (tailIndex s)) s) (d_goto i (DOpt (tailIndex s) ?ov) s)"
      using sq_step.load_overcommit [of i "tailIndex s" "d_goto i (DOver (tailIndex s)) s"] assms(5) by (simp add: defs)
    show "sq_step (d_goto i (DOpt (tailIndex s) ?ov) s) (d_goto i (DAdd ?ov) s)"
      using sq_step.first_test [of i "tailIndex s" ?ov "d_goto i (DOpt (tailIndex s) ?ov) s"] assms(5) test by (simp add: defs)
    show "sq_step (d_goto i (DAdd ?ov) s) (d_goto i (DCheck ?ov ?m) ?s3)"
      using sq_step.add_optimistic [of i ?ov "d_goto i (DAdd ?ov) s"] assms(5) by (simp add: defs)
    show "sq_step (d_goto i (DCheck ?ov ?m) ?s3) (d_goto i DHead ?s4)"
      using sq_step.second_test [of i ?ov ?m "d_goto i (DCheck ?ov ?m) ?s3"] assms(5) test by (simp add: defs)
    show "sq_step (d_goto i DHead ?s4) (d_goto i (DRead ?h) ?s5)"
      using sq_step.take_index [of i "d_goto i DHead ?s4"] assms(5) by (simp add: defs)
    show "sq_step (d_goto i (DRead ?h) ?s5) (d_goto i DIdle ?s6)"
      using sq_step.read [of i ?h "d_goto i (DRead ?h) ?s5" x] assms(5) cell by (simp add: defs)
  qed
  moreover have pcs: "d_pcs (d_goto i DIdle ?s6) = d_pcs s" using idle by (simp add: defs) (metis list_update_id)
  moreover have "fifo (d_goto i DIdle ?s6) = xs"
  proof -
    have "all_pcs claiming (d_goto i DIdle ?s6) = 0" using all_pcs_idle [of "d_goto i DIdle ?s6" claiming] assms(4) pcs by simp
    moreover have "sq_tries s \<notin> sq_wins s" "finite (sq_wins s)" using sq_countsD(2) [OF assms(1)] assms(1) by (auto simp: sq_counts_def)
    ultimately have "sq_head (d_goto i DIdle ?s6) = Suc (sq_head s)" using rest(1) m by (simp add: sq_head_def)
    then show ?thesis using len(3) by (simp add: fifo_def)
  qed
  ultimately show ?thesis by (intro exI [of _ "d_goto i DIdle ?s6"]) simp
qed

text \<open>A queue at rest gives its elements: when no dequeue is running, the first test of a dequeue succeeds exactly when the queue is not empty, and its
  seven steps then take the first element.\<close>

lemma sub_queue_at_rest_delivers:
  assumes "start_sq s0" "sq_step\<^sup>*\<^sup>* s0 s" "sq_small s" "\<forall>pc \<in> set (d_pcs s). pc = DIdle" "i < length (d_pcs s)"
  shows "(circular_less_than (dequeueOptimisticCount s - dequeueOvercommit s) (tailIndex s) \<longleftrightarrow> fifo s \<noteq> []) \<and>
    (\<forall>x xs. fifo s = x # xs \<longrightarrow> (\<exists>s'. (sq_step ^^ 7) s s' \<and> fifo s' = xs \<and> sq_got s' = add_mset x (sq_got s) \<and> d_pcs s' = d_pcs s))"
proof -
  note inv = sub_queue_inv [OF assms(1-3)]
  have "sq_head s < 2 ^ 63" "length (sq_sent s) < 2 ^ 63" using sq_countsD(6) [OF inv(1)] assms(3) by (auto simp: sq_small_def)
  then have "circular_less_than (headIndex s) (tailIndex s) \<longleftrightarrow> fifo s \<noteq> []"
    using inv(1) circular_less_than_nat [of "sq_head s" "length (sq_sent s)"] by (auto simp: sq_counts_def fifo_def)
  then show ?thesis using at_rest_counts(3) [OF inv(1) assms(4)] undisturbed_dequeue [OF inv assms(3-5)] by simp
qed

text \<open>The producer has enqueued one element, and one of two consumers is about to take its index.\<close>

definition sq_fresh :: "nat sq_sys" where
  "sq_fresh = \<lparr>tailIndex = 0, headIndex = 0, dequeueOptimisticCount = 0, dequeueOvercommit = 0, sq_cells = (\<lambda>_. None), p_pc = PIdle, d_pcs = [DIdle, DIdle],
     sq_sent = [], sq_tries = 0, sq_wins = {}, sq_fails = {}, sq_read = {}, sq_got = {#}\<rparr>"

definition sq_sample :: "nat \<Rightarrow> nat set \<Rightarrow> deq_pc \<Rightarrow> nat sq_sys" where
  "sq_sample n w pc = sq_fresh\<lparr>tailIndex := 1, dequeueOptimisticCount := of_nat n, sq_cells := (\<lambda>_. None)(0 := Some 42), d_pcs := [DIdle, pc], sq_sent := [42],
     sq_tries := n, sq_wins := w\<rparr>"

lemma start_sq_fresh: "start_sq sq_fresh"
  by (simp add: start_sq_def sq_fresh_def)

lemmas sq_sample_defs = d_at_def d_goto_def sq_sample_def sq_fresh_def BLOCK_SIZE_def circular_less_than_def

lemma sq_sample_enqueued: "sq_step\<^sup>*\<^sup>* sq_fresh (sq_sample 0 {} DIdle)"
proof -
  let ?c = "(\<lambda>_ :: uint64. None)(0 := Some (42 :: nat))"
  note [trans] = rtranclp.rtrancl_into_rtrancl [of sq_step]
  have "sq_step\<^sup>*\<^sup>* sq_fresh (sq_fresh\<lparr>p_pc := PNew 42\<rparr>)"
    using sq_step.enqueue [of sq_fresh 42] by (intro r_into_rtranclp) (simp add: sq_sample_defs)
  also have "sq_step \<dots> (sq_fresh\<lparr>p_pc := PStore 42\<rparr>)"
    using sq_step.enqueue_block [of "sq_fresh\<lparr>p_pc := PNew 42\<rparr>" 42] by (simp add: sq_sample_defs)
  also have "sq_step \<dots> (sq_fresh\<lparr>p_pc := PPublish 42, sq_cells := ?c\<rparr>)"
    using sq_step.enqueue_store [of "sq_fresh\<lparr>p_pc := PStore 42\<rparr>" 42] by (simp add: sq_sample_defs)
  also have "sq_step \<dots> (sq_sample 0 {} DIdle)"
    using sq_step.enqueue_publish [of "sq_fresh\<lparr>p_pc := PPublish 42, sq_cells := ?c\<rparr>" 42] by (simp add: sq_sample_defs)
  finally show ?thesis .
qed

lemma sq_sample_claiming: "sq_step\<^sup>*\<^sup>* sq_fresh (sq_sample 1 {0} DHead)"
proof -
  note [trans] = rtranclp.rtrancl_into_rtrancl [of sq_step]
  note sq_sample_enqueued
  also have "sq_step (sq_sample 0 {} DIdle) (sq_sample 0 {} (DOver 1))"
    using sq_step.dequeue [of 1 "sq_sample 0 {} DIdle"] by (simp add: sq_sample_defs)
  also have "sq_step \<dots> (sq_sample 0 {} (DOpt 1 0))"
    using sq_step.load_overcommit [of 1 1 "sq_sample 0 {} (DOver 1)"] by (simp add: sq_sample_defs)
  also have "sq_step \<dots> (sq_sample 0 {} (DAdd 0))"
    using sq_step.first_test [of 1 1 0 "sq_sample 0 {} (DOpt 1 0)"] by (simp add: sq_sample_defs)
  also have "sq_step \<dots> (sq_sample 1 {} (DCheck 0 0))"
    using sq_step.add_optimistic [of 1 0 "sq_sample 0 {} (DAdd 0)"] by (simp add: sq_sample_defs)
  also have "sq_step \<dots> (sq_sample 1 {0} DHead)"
    using sq_step.second_test [of 1 0 0 "sq_sample 1 {} (DCheck 0 0)"] by (simp add: sq_sample_defs)
  finally show ?thesis .
qed

lemma sq_sample_takes: "sq_step (sq_sample 1 {0} DHead) ((sq_sample 1 {0} (DRead 0))\<lparr>headIndex := 1\<rparr>)"
  using sq_step.take_index [of 1 "sq_sample 1 {0} DHead"] by (simp add: sq_sample_defs)

theorem sub_queue_refines_fifo_witness:
  "fifo ((sq_sample 1 {0} (DRead 0))\<lparr>headIndex := 1\<rparr>) = [] \<and> fifo (sq_sample 1 {0} DHead) = [42]"
  using sub_queue_refines_fifo [OF start_sq_fresh sq_sample_claiming sq_sample_takes]
  by (simp add: sq_sample_def sq_fresh_def sq_small_def fifo_def sq_head_def all_pcs_def d_at_def)

lemma sub_queue_conserves_elements_example:
  "mset (sq_sent (sq_sample 1 {0} DHead)) = sq_got (sq_sample 1 {0} DHead) +
     image_mset (\<lambda>k. sq_sent (sq_sample 1 {0} DHead) ! k) (all_pcs reading (sq_sample 1 {0} DHead)) + mset (fifo (sq_sample 1 {0} DHead)) \<and>
   size_approx (sq_sample 1 {0} DHead) = of_nat (length (fifo (sq_sample 1 {0} DHead)))"
proof -
  have "sq_small (sq_sample 1 {0} DHead)" by (simp add: sq_small_def sq_sample_def)
  from sub_queue_conserves_elements [OF start_sq_fresh sq_sample_claiming this] show ?thesis by blast
qed

lemma sub_queue_at_rest_delivers_example:
  "\<exists>s'. (sq_step ^^ 7) (sq_sample 0 {} DIdle) s' \<and> fifo s' = [] \<and> sq_got s' = add_mset 42 (sq_got (sq_sample 0 {} DIdle)) \<and> d_pcs s' = [DIdle, DIdle]"
proof -
  have "sq_small (sq_sample 0 {} DIdle)" "fifo (sq_sample 0 {} DIdle) = [42]"
    by (simp_all add: sq_small_def sq_sample_def sq_fresh_def fifo_def sq_head_def)
  with sub_queue_at_rest_delivers [OF start_sq_fresh sq_sample_enqueued, of 0] show ?thesis by (simp add: sq_sample_def sq_fresh_def)
qed

end
