(* ===== verification/Block_Index.thy ===== *)
theory Block_Index
  imports Sub_Queue
begin

text \<open>
  The block index of \<open>ImplicitProducer\<close> in \<open>concurrentqueue.h\<close>: where the queue of one producer finds the block of an index.  A header holds a
  circular array of pointers to entries, whose size is a power of two, and the position of the newest one; an entry pairs the first index of a block with the block,
  and survives in the next, larger header.  The operations are the ones of the producer (a new block, which may fail) and of a dequeuer (the lookup,
  and the release of an emptied block); each runs as one step.
\<close>

unbundle bit_operations_syntax

section \<open>Headers and entries\<close>

definition INVALID_BLOCK_BASE :: uint64 where "INVALID_BLOCK_BASE = 1"

definition IMPLICIT_INITIAL_INDEX_SIZE :: uint64 where "IMPLICIT_INITIAL_INDEX_SIZE = 32"

type_synonym 'b bi_entry = "uint64 \<times> 'b option"   \<comment> \<open>\<open>key\<close> and \<open>value\<close>\<close>

record bi_header =
  bi_capacity :: uint64
  bi_tail :: uint64
  bi_index :: "nat list"      \<comment> \<open>pointers to entries\<close>

record 'b block_index =
  nextBlockIndexCapacity :: uint64
  blockIndex :: "bi_header option"
  bi_entries :: "'b bi_entry list"   \<comment> \<open>all entries that were allocated, by address\<close>

definition set_entry :: "nat \<Rightarrow> 'b bi_entry \<Rightarrow> 'b block_index \<Rightarrow> 'b block_index" where
  "set_entry a e st = st\<lparr>bi_entries := (bi_entries st)[a := e]\<rparr>"

text \<open>The loop that copies the pointers of the old header, oldest first; the number bounds its turns.\<close>

primrec gather :: "bi_header \<Rightarrow> nat \<Rightarrow> uint64 \<Rightarrow> nat list" where
  "gather h 0 pos = []"
| "gather h (Suc n) pos =
     (let p = (pos + 1) AND (bi_capacity h - 1)
      in bi_index h ! unat p # (if p = bi_tail h then [] else gather h n p))"

text \<open>\<open>new_block_index\<close>.  \<open>junk i\<close> is what the memory holds where the value of the new entry \<open>i\<close> will be.\<close>

definition new_block_index :: "bool \<Rightarrow> (nat \<Rightarrow> 'b option) \<Rightarrow> 'b block_index \<Rightarrow> bool \<times> 'b block_index" where
  "new_block_index memory junk st =
     (let prevCapacity = (case blockIndex st of None \<Rightarrow> 0 | Some h \<Rightarrow> bi_capacity h);
          entryCount = (case blockIndex st of None \<Rightarrow> nextBlockIndexCapacity st | Some h \<Rightarrow> prevCapacity);
          old = (case blockIndex st of None \<Rightarrow> [] | Some h \<Rightarrow> gather h (unat prevCapacity) (bi_tail h));
          n = length (bi_entries st)
      in if \<not> memory then (False, st)
         else (True, st\<lparr>
           bi_entries := bi_entries st @ map (\<lambda>i. (INVALID_BLOCK_BASE, junk i)) [0 ..< unat entryCount],
           blockIndex := Some \<lparr>bi_capacity = nextBlockIndexCapacity st,
                              bi_tail = (prevCapacity - 1) AND (nextBlockIndexCapacity st - 1),
                              bi_index = old @ [n ..< n + unat entryCount]\<rparr>,
           nextBlockIndexCapacity := push_bit 1 (nextBlockIndexCapacity st)\<rparr>))"

definition bi_newTail :: "bi_header \<Rightarrow> uint64" where
  "bi_newTail h = (bi_tail h + 1) AND (bi_capacity h - 1)"

text \<open>The key of the next entry is written and the entry becomes the newest one.\<close>

definition bi_claim :: "uint64 \<Rightarrow> bi_header \<Rightarrow> 'b block_index \<Rightarrow> nat \<times> 'b block_index" where
  "bi_claim blockStartIndex h st =
     (let a = bi_index h ! unat (bi_newTail h)
      in (a, (set_entry a (blockStartIndex, snd (bi_entries st ! a)) st)\<lparr>blockIndex := Some (h\<lparr>bi_tail := bi_newTail h\<rparr>)\<rparr>))"

definition insert_block_index_entry :: "bool \<Rightarrow> bool \<Rightarrow> (nat \<Rightarrow> 'b option) \<Rightarrow> uint64 \<Rightarrow> 'b block_index \<Rightarrow> nat option \<times> 'b block_index" where
  "insert_block_index_entry canAlloc memory junk blockStartIndex st =
     (case blockIndex st of
        None \<Rightarrow> (None, st)
      | Some h \<Rightarrow>
          let e = bi_entries st ! (bi_index h ! unat (bi_newTail h))
          in if fst e = INVALID_BLOCK_BASE \<or> snd e = None
             then (case bi_claim blockStartIndex h st of (a, st1) \<Rightarrow> (Some a, st1))
             else if \<not> canAlloc then (None, st)
             else case new_block_index memory junk st of (ok, st1) \<Rightarrow>
               if \<not> ok then (None, st1)
               else case blockIndex st1 of
                 None \<Rightarrow> (None, st1)
               | Some h1 \<Rightarrow> (case bi_claim blockStartIndex h1 st1 of (a, st2) \<Rightarrow> (Some a, st2)))"

definition rewind_block_index_tail :: "'b block_index \<Rightarrow> 'b block_index" where
  "rewind_block_index_tail st =
     st\<lparr>blockIndex := map_option (\<lambda>h. h\<lparr>bi_tail := (bi_tail h - 1) AND (bi_capacity h - 1)\<rparr>) (blockIndex st)\<rparr>"

text \<open>The start of a new block in \<open>enqueue\<close>: \<open>newBlock\<close> is what \<open>requisition_block\<close> returns.\<close>

definition start_block :: "bool \<Rightarrow> bool \<Rightarrow> (nat \<Rightarrow> 'b option) \<Rightarrow> 'b option \<Rightarrow> uint64 \<Rightarrow> 'b block_index \<Rightarrow> bool \<times> 'b block_index" where
  "start_block canAlloc memory junk newBlock currentTailIndex st =
     (case insert_block_index_entry canAlloc memory junk currentTailIndex st of
        (None, st1) \<Rightarrow> (False, st1)
      | (Some a, st1) \<Rightarrow>
          (case newBlock of
             None \<Rightarrow> (let st2 = rewind_block_index_tail st1 in (False, set_entry a (fst (bi_entries st2 ! a), None) st2))
           | Some b \<Rightarrow> (True, set_entry a (fst (bi_entries st1 ! a), Some b) st1)))"

text \<open>The division is one of unsigned words: \<open>BLOCK_SIZE\<close> has the type \<open>size_t\<close>.\<close>

definition get_block_index_index_for_index :: "uint64 \<Rightarrow> bi_header \<Rightarrow> 'b block_index \<Rightarrow> uint64" where
  "get_block_index_index_for_index index h st =
     (let index1 = index AND NOT (BLOCK_SIZE - 1);
          tailBase = fst (bi_entries st ! (bi_index h ! unat (bi_tail h)));
          offset = (index1 - tailBase) div BLOCK_SIZE
      in (bi_tail h + offset) AND (bi_capacity h - 1))"

definition get_block_index_entry_for_index :: "uint64 \<Rightarrow> 'b block_index \<Rightarrow> nat option" where
  "get_block_index_entry_for_index index st =
     map_option (\<lambda>h. bi_index h ! unat (get_block_index_index_for_index index h st)) (blockIndex st)"

text \<open>The end of a dequeue that has emptied the block of its index.\<close>

definition release_block :: "uint64 \<Rightarrow> 'b block_index \<Rightarrow> 'b block_index" where
  "release_block index st =
     (case get_block_index_entry_for_index index st of
        None \<Rightarrow> st
      | Some a \<Rightarrow> set_entry a (fst (bi_entries st ! a), None) st)"

definition new_producer_index :: "bool \<Rightarrow> (nat \<Rightarrow> 'b option) \<Rightarrow> 'b block_index" where
  "new_producer_index memory junk =
     snd (new_block_index memory junk \<lparr>nextBlockIndexCapacity = IMPLICIT_INITIAL_INDEX_SIZE, blockIndex = None, bi_entries = []\<rparr>)"

section \<open>Circular arrays\<close>

text \<open>The elements from position \<open>t\<close> backwards, and round the end.\<close>

definition ring :: "nat \<Rightarrow> 'a list \<Rightarrow> 'a list" where
  "ring t xs = rev (take (Suc t) xs) @ rev (drop (Suc t) xs)"

lemma length_ring [simp]: "length (ring t xs) = length xs"
  by (simp add: ring_def)

lemma set_ring [simp]: "set (ring t xs) = set xs"
  unfolding ring_def set_append set_rev by (metis append_take_drop_id set_append)

lemma distinct_ring [simp]: "distinct (ring t xs) \<longleftrightarrow> distinct xs"
  unfolding ring_def distinct_append distinct_rev set_rev by (metis append_take_drop_id distinct_append)

lemma ring_nth:
  assumes "j < length xs" "t < length xs"
  shows "ring t xs ! j = xs ! (if j \<le> t then t - j else t + length xs - j)"
proof (cases "j \<le> t")
  case True
  with assms show ?thesis by (simp add: ring_def nth_append rev_nth min_absorb2)
next
  case False
  have "Suc t + (length xs - Suc t - Suc (j - Suc t)) = t + length xs - j" using False assms by simp
  with False assms show ?thesis by (simp add: ring_def nth_append rev_nth min_absorb2 del: add_Suc)
qed

lemma ring_inc:
  assumes "t < length xs"
  shows "ring (if Suc t = length xs then 0 else Suc t) xs = last (ring t xs) # butlast (ring t xs)"
proof (cases "Suc t = length xs")
  case True
  moreover obtain x ys where "xs = x # ys" using assms by (cases xs) auto
  ultimately show ?thesis by (simp add: ring_def)
next
  case False
  with assms have "Suc t < length xs" by simp
  then have "drop (Suc t) xs = xs ! Suc t # drop (Suc (Suc t)) xs" by (simp add: Cons_nth_drop_Suc)
  moreover have "take (Suc (Suc t)) xs = take (Suc t) xs @ [xs ! Suc t]" using \<open>Suc t < length xs\<close> by (simp add: take_Suc_conv_app_nth)
  ultimately show ?thesis using False by (simp add: ring_def butlast_append)
qed

lemma ring_dec:
  assumes "t < length xs"
  shows "ring (if t = 0 then length xs - 1 else t - 1) xs = tl (ring t xs) @ [hd (ring t xs)]"
proof -
  define s where "s = (if t = 0 then length xs - 1 else t - 1)"
  have s: "s < length xs" "t = (if Suc s = length xs then 0 else Suc s)" using assms by (auto simp: s_def)
  have "ring t xs = last (ring s xs) # butlast (ring s xs)" using ring_inc [OF s(1)] unfolding s(2) [symmetric] .
  moreover have "ring s xs \<noteq> []" using \<open>s < length xs\<close> by (metis length_ring list.size(3) not_less0)
  ultimately show ?thesis unfolding s_def [symmetric] by simp
qed

lemma ring_double:
  assumes "xs \<noteq> []"
  shows "ring (length xs - 1) (rev (ring t xs) @ ys) = ring t xs @ rev ys"
proof -
  have "Suc (length xs - 1) = length xs" using assms by simp
  then show ?thesis unfolding ring_def [of "length xs - 1"] by simp
qed

lemma ring_full: "ring (length xs - 1) xs = rev xs"
  by (cases xs) (simp_all add: ring_def)

section \<open>Positions as words\<close>

text \<open>The capacity is a power of two, so that the mask is a remainder.\<close>

lemma unat_and_mask:
  fixes x :: uint64
  assumes "c = 2 ^ k" "k < 64"
  shows "unat (x AND (c - 1)) = unat x mod 2 ^ k"
proof -
  have "c - 1 = mask k" using assms(1) by (simp add: mask_eq_exp_minus_1)
  then have "x AND (c - 1) = take_bit k x" by (simp add: take_bit_eq_mask)
  then show ?thesis using unsigned_take_bit_eq [of k x, where ?'a = nat] by (simp only: take_bit_eq_mod)
qed

lemma unat_cap:
  fixes c :: uint64
  assumes "c = 2 ^ k" "k < 64" shows "unat c = 2 ^ k"
proof -
  have "(2 :: nat) ^ k < 2 ^ 64" using assms(2) by (intro power_strict_increasing) auto
  moreover have "c = of_nat (2 ^ k)" using assms(1) by simp
  ultimately show ?thesis using unat_of_nat64 by metis
qed

lemma unat_inc_mask:
  fixes t :: uint64
  assumes "c = 2 ^ k" "k < 64" "unat t < 2 ^ k"
  shows "unat ((t + 1) AND (c - 1)) = (if Suc (unat t) = 2 ^ k then 0 else Suc (unat t))"
proof -
  have "(2 :: nat) ^ k \<le> 2 ^ 63" using assms(2) by (intro power_increasing) auto
  then have "unat (t + 1) = Suc (unat t)" using assms(3) by (simp add: unat_word_ariths)
  then show ?thesis using unat_and_mask [OF assms(1,2), of "t + 1"] assms(3) by (auto simp: mod_if)
qed

text \<open>Going back \<open>j\<close> places is adding a multiple of the capacity less \<open>j\<close>.\<close>

lemma mod_back:
  fixes t j :: nat
  assumes "t < 2 ^ k" "j < 2 ^ k" "k \<le> l"
  shows "(t + (2 ^ l - j)) mod 2 ^ k = (if j \<le> t then t - j else t + 2 ^ k - j)"
proof -
  have "(2 :: nat) ^ l = 2 ^ (l - k) * 2 ^ k" using assms(3) by (simp flip: power_add)
  moreover have "(2 :: nat) ^ (l - k) = Suc (2 ^ (l - k) - 1)" by simp
  ultimately obtain q where q: "(2 :: nat) ^ l = 2 ^ k + q * 2 ^ k" by (metis mult_Suc)
  show ?thesis
  proof (cases "j \<le> t")
    case True
    then have "t + (2 ^ l - j) = (t - j) + (Suc q) * 2 ^ k" unfolding q using assms(2) by simp
    then have "(t + (2 ^ l - j)) mod 2 ^ k = (t - j) mod 2 ^ k" by (metis mod_mult_self1)
    with True assms(1) show ?thesis by simp
  next
    case False
    then have "t + (2 ^ l - j) = (t + 2 ^ k - j) + q * 2 ^ k" unfolding q using assms(2) by simp
    then have "(t + (2 ^ l - j)) mod 2 ^ k = (t + 2 ^ k - j) mod 2 ^ k" by (metis mod_mult_self1)
    moreover have "(t + 2 ^ k - j) mod 2 ^ k = t + 2 ^ k - j" using False assms(2) by (intro mod_less) simp
    ultimately show ?thesis using False by simp
  qed
qed

lemma unat_add_mask:
  fixes t x :: uint64
  assumes "c = 2 ^ k" "k \<le> l" "l \<le> 64" "k < 64" "unat t < 2 ^ k" "j < 2 ^ k" "unat x = (if j = 0 then 0 else 2 ^ l - j)"
  shows "unat ((t + x) AND (c - 1)) = (if j \<le> unat t then unat t - j else unat t + 2 ^ k - j)"
proof -
  have d: "(2 :: nat) ^ k dvd 2 ^ 64" using assms(4) by (intro le_imp_power_dvd) simp
  have "unat ((t + x) AND (c - 1)) = (unat t + unat x) mod 2 ^ 64 mod 2 ^ k"
    unfolding unat_and_mask [OF assms(1,4)] by (simp add: unat_word_ariths)
  also have "\<dots> = (unat t + unat x) mod 2 ^ k" using d by (rule mod_mod_cancel)
  also have "\<dots> = (if j \<le> unat t then unat t - j else unat t + 2 ^ k - j)"
    using mod_back [OF assms(5,6,2)] assms(5,7) by (cases "j = 0") simp_all
  finally show ?thesis .
qed

lemma unat_dec_mask:
  fixes t :: uint64
  assumes "c = 2 ^ k" "0 < k" "k < 64" "unat t < 2 ^ k"
  shows "unat ((t - 1) AND (c - 1)) = (if unat t = 0 then 2 ^ k - 1 else unat t - 1)"
proof -
  have "unat (- 1 :: uint64) = 2 ^ 64 - 1" by (simp add: unsigned_minus_1_eq_mask mask_eq_exp_minus_1)
  moreover have "(1 :: nat) < 2 ^ k" by (rule one_less_power) (use assms(2) in simp_all)
  ultimately show ?thesis using unat_add_mask [of c k 64 t 1 "- 1"] assms by simp
qed

text \<open>The unsigned quotient of a negative distance of \<open>j\<close> blocks.\<close>

lemma unat_block_offset:
  assumes "j < 2 ^ 59"
  shows "unat ((- (BLOCK_SIZE * of_nat j)) div BLOCK_SIZE) = (if j = 0 then 0 else 2 ^ 59 - j)"
proof -
  have "BLOCK_SIZE * of_nat j = of_nat (32 * j)" by (simp add: BLOCK_SIZE_def)
  moreover have "unat (of_nat (32 * j) :: uint64) = 32 * j" using assms by (intro unat_of_nat64) simp
  ultimately have x: "unat (BLOCK_SIZE * of_nat j) = 32 * j" by metis
  have "unat (- (BLOCK_SIZE * of_nat j)) = (if j = 0 then 0 else 32 * (2 ^ 59 - j))"
  proof (cases "j = 0")
    case False
    then have "unat (0 - BLOCK_SIZE * of_nat j) = 2 ^ 64 - 32 * j" unfolding unat_sub_if' x by (simp add: word_le_nat_alt x)
    then show ?thesis using False by simp
  qed simp
  then show ?thesis by (simp add: unat_div BLOCK_SIZE_def)
qed

section \<open>Live blocks\<close>

text \<open>The entries of the current header, the newest first, and the map from block starts to blocks that they stand for.\<close>

definition dead :: "'b bi_entry \<Rightarrow> bool" where
  "dead e \<longleftrightarrow> fst e = INVALID_BLOCK_BASE \<or> snd e = None"

fun live_entries :: "'b bi_entry list \<Rightarrow> uint64 \<rightharpoonup> 'b" where
  "live_entries [] = Map.empty"
| "live_entries ((k, v) # es) = (case v of Some b \<Rightarrow> if k = INVALID_BLOCK_BASE then live_entries es else (live_entries es)(k \<mapsto> b) | None \<Rightarrow> live_entries es)"

definition header_ring :: "'b block_index \<Rightarrow> nat list" where
  "header_ring st = (case blockIndex st of None \<Rightarrow> [] | Some h \<Rightarrow> ring (unat (bi_tail h)) (bi_index h))"

definition entry_ring :: "'b block_index \<Rightarrow> 'b bi_entry list" where
  "entry_ring st = map (\<lambda>a. bi_entries st ! a) (header_ring st)"

definition live_blocks :: "'b block_index \<Rightarrow> uint64 \<rightharpoonup> 'b" where
  "live_blocks st = live_entries (entry_ring st)"

text \<open>The newest \<open>m\<close> entries have consecutive keys below \<open>next\<close>, and no other one is in use.\<close>

definition bi_chain :: "uint64 \<Rightarrow> nat \<Rightarrow> 'b bi_entry list \<Rightarrow> bool" where
  "bi_chain start m es \<longleftrightarrow> m \<le> length es \<and> (\<forall>j < m. fst (es ! j) = start - BLOCK_SIZE * of_nat (Suc j)) \<and>
     (\<forall>j. m \<le> j \<longrightarrow> j < length es \<longrightarrow> dead (es ! j))"

definition header_ok :: "bi_header \<Rightarrow> nat \<Rightarrow> bool" where
  "header_ok h k \<longleftrightarrow> 0 < k \<and> k \<le> 58 \<and> bi_capacity h = 2 ^ k \<and> unat (bi_tail h) < 2 ^ k \<and> length (bi_index h) = 2 ^ k \<and> distinct (bi_index h)"

lemma live_append_dead: "dead e \<Longrightarrow> live_entries (es @ [e]) = live_entries es"
  by (induction es rule: live_entries.induct) (cases e; auto simp: dead_def split: option.splits)+

lemma live_butlast: "es \<noteq> [] \<Longrightarrow> dead (last es) \<Longrightarrow> live_entries (butlast es) = live_entries es"
  using live_append_dead [of "last es" "butlast es"] by simp

lemma live_all_dead: "list_all dead es \<Longrightarrow> live_entries es = Map.empty"
  by (induction es rule: live_entries.induct) (auto simp: dead_def split: option.splits)

lemma live_append_all_dead: "list_all dead fs \<Longrightarrow> live_entries (es @ fs) = live_entries es"
  by (induction es rule: live_entries.induct) (auto simp: live_all_dead split: option.splits)

lemma live_in: "live_entries es i = Some b \<Longrightarrow> (i, Some b) \<in> set es \<and> i \<noteq> INVALID_BLOCK_BASE"
  by (induction es rule: live_entries.induct) (auto split: option.splits if_splits)

lemma block_start_inj:
  assumes "j < 2 ^ 58" "j' < 2 ^ 58" "start - BLOCK_SIZE * of_nat (Suc j) = start - BLOCK_SIZE * of_nat (Suc j')"
  shows "j = j'"
proof -
  have "BLOCK_SIZE * of_nat (Suc n) = of_nat (32 * Suc n)" for n by (simp add: BLOCK_SIZE_def)
  then have "(of_nat (32 * Suc j) :: uint64) = of_nat (32 * Suc j')" using assms(3) by simp
  then have "unat (of_nat (32 * Suc j) :: uint64) = unat (of_nat (32 * Suc j') :: uint64)" by simp
  then have "32 * Suc j = 32 * Suc j'" using assms(1,2) by (subst (asm) (1 2) unat_of_nat64) auto
  then show ?thesis by simp
qed

lemma chain_live:
  assumes "bi_chain start m es" "live_entries es i = Some b"
  obtains j where "j < m" "es ! j = (i, Some b)" "i = start - BLOCK_SIZE * of_nat (Suc j)"
proof -
  from live_in [OF assms(2)] obtain j where j: "j < length es" "es ! j = (i, Some b)" "i \<noteq> INVALID_BLOCK_BASE"
    by (auto simp: in_set_conv_nth)
  then have "\<not> dead (es ! j)" by (simp add: dead_def)
  with assms(1) j(1) have "j < m" unfolding bi_chain_def by (metis not_le)
  with assms(1) j(2) that show thesis unfolding bi_chain_def by fastforce
qed

section \<open>The operations on the ring\<close>

lemma entry_ring_set:
  assumes "distinct (header_ring st)" "j < length (header_ring st)" "header_ring st ! j < length (bi_entries st)"
  shows "entry_ring (set_entry (header_ring st ! j) e st) = (entry_ring st)[j := e]"
proof (rule nth_equalityI)
  show "length (entry_ring (set_entry (header_ring st ! j) e st)) = length ((entry_ring st)[j := e])"
    by (simp add: entry_ring_def set_entry_def header_ring_def)
  fix i assume "i < length (entry_ring (set_entry (header_ring st ! j) e st))"
  then have "i < length (header_ring st)" by (simp add: entry_ring_def set_entry_def header_ring_def)
  moreover have "header_ring (set_entry (header_ring st ! j) e st) = header_ring st" by (simp add: set_entry_def header_ring_def)
  ultimately show "entry_ring (set_entry (header_ring st ! j) e st) ! i = (entry_ring st)[j := e] ! i"
    using assms by (cases "i = j") (simp_all add: entry_ring_def set_entry_def nth_eq_iff_index_eq)
qed

lemma header_ring_claim:
  assumes "blockIndex st = Some h" "header_ok h k"
  shows "header_ring (snd (bi_claim x h st)) = last (header_ring st) # butlast (header_ring st)"
    "fst (bi_claim x h st) = last (header_ring st)"
proof -
  have t: "unat (bi_newTail h) = (if Suc (unat (bi_tail h)) = length (bi_index h) then 0 else Suc (unat (bi_tail h)))"
    using unat_inc_mask [of "bi_capacity h" k "bi_tail h"] assms(2) by (simp add: bi_newTail_def header_ok_def)
  have l: "unat (bi_tail h) < length (bi_index h)" using assms(2) by (simp add: header_ok_def)
  note r = ring_inc [OF l, folded t]
  then show "header_ring (snd (bi_claim x h st)) = last (header_ring st) # butlast (header_ring st)"
    using assms(1) by (simp add: header_ring_def bi_claim_def set_entry_def Let_def)
  have "unat (bi_newTail h) < length (bi_index h)" using t l by (auto split: if_splits)
  then have "bi_index h ! unat (bi_newTail h) = ring (unat (bi_newTail h)) (bi_index h) ! 0"
    by (subst ring_nth) auto
  also have "\<dots> = last (header_ring st)" unfolding r using assms(1) by (simp add: header_ring_def)
  finally show "fst (bi_claim x h st) = last (header_ring st)" by (simp add: bi_claim_def Let_def)
qed

text \<open>A header whose pointers are to entries.\<close>

definition ring_ok :: "'b block_index \<Rightarrow> nat \<Rightarrow> bool" where
  "ring_ok st k \<longleftrightarrow> (\<exists>h. blockIndex st = Some h \<and> header_ok h k \<and> nextBlockIndexCapacity st = 2 * bi_capacity h \<and>
     (\<forall>a \<in> set (bi_index h). a < length (bi_entries st)))"

lemma ring_okE:
  assumes "ring_ok st k"
  obtains h where "blockIndex st = Some h" "header_ok h k" "nextBlockIndexCapacity st = 2 * bi_capacity h"
    "distinct (header_ring st)" "\<forall>a \<in> set (header_ring st). a < length (bi_entries st)" "length (header_ring st) = 2 ^ k"
    "header_ring st \<noteq> []" "length (entry_ring st) = 2 ^ k" "entry_ring st \<noteq> []"
proof -
  from assms obtain h where h: "blockIndex st = Some h" "header_ok h k" "nextBlockIndexCapacity st = 2 * bi_capacity h"
     "\<forall>a \<in> set (bi_index h). a < length (bi_entries st)" unfolding ring_ok_def by blast
  have "length (header_ring st) = 2 ^ k" using h(1,2) by (simp add: header_ring_def header_ok_def)
  moreover from this have "header_ring st \<noteq> []" by force
  ultimately show thesis using that [OF h(1-3)] h by (simp add: header_ring_def header_ok_def entry_ring_def)
qed

lemma entry_ring_claim:
  assumes "blockIndex st = Some h" "ring_ok st k"
  shows "entry_ring (snd (bi_claim x h st)) = (x, snd (last (entry_ring st))) # butlast (entry_ring st)" "ring_ok (snd (bi_claim x h st)) k"
proof -
  from ring_okE [OF assms(2)] assms(1) have h: "header_ok h k" "distinct (header_ring st)" "\<forall>a \<in> set (header_ring st). a < length (bi_entries st)"
    "header_ring st \<noteq> []" "nextBlockIndexCapacity st = 2 * bi_capacity h" by (metis option.inject)+
  let ?a = "last (header_ring st)"
  have d: "?a \<notin> set (butlast (header_ring st))" using h(2,4) by (metis append_butlast_last_id distinct_butlast not_distinct_conv_prefix)
  have a: "?a < length (bi_entries st)" using h(3,4) by simp
  have e: "bi_entries (snd (bi_claim x h st)) = (bi_entries st)[?a := (x, snd (bi_entries st ! ?a))]"
    using header_ring_claim(2) [OF assms(1) h(1), of x] by (auto simp: bi_claim_def set_entry_def Let_def)
  have "map (\<lambda>b. (bi_entries st)[?a := (x, snd (bi_entries st ! ?a))] ! b) (butlast (header_ring st)) = butlast (entry_ring st)"
    unfolding entry_ring_def map_butlast [symmetric] using d by (intro map_cong) (auto intro: nth_list_update_neq)
  then show "entry_ring (snd (bi_claim x h st)) = (x, snd (last (entry_ring st))) # butlast (entry_ring st)"
    using a h(4) unfolding entry_ring_def [of "snd (bi_claim x h st)"] header_ring_claim(1) [OF assms(1) h(1)] e
    by (simp add: entry_ring_def last_map)
  have "unat (bi_newTail h) < 2 ^ k"
    using unat_inc_mask [of "bi_capacity h" k "bi_tail h"] h(1) by (auto simp: bi_newTail_def header_ok_def)
  then have "header_ok (h\<lparr>bi_tail := bi_newTail h\<rparr>) k" using h(1) by (simp add: header_ok_def)
  then show "ring_ok (snd (bi_claim x h st)) k"
    using h(3,5) assms(1) by (auto simp: ring_ok_def bi_claim_def set_entry_def Let_def header_ring_def)
qed

lemma last_entry:
  assumes "blockIndex st = Some h" "ring_ok st k"
  shows "bi_entries st ! (bi_index h ! unat (bi_newTail h)) = last (entry_ring st)"
proof -
  from ring_okE [OF assms(2)] assms(1) have h: "header_ok h k" "header_ring st \<noteq> []" by (metis option.inject)+
  have "bi_index h ! unat (bi_newTail h) = last (header_ring st)"
    using header_ring_claim(2) [OF assms(1) h(1), of 0] by (simp add: bi_claim_def Let_def)
  then show ?thesis using h(2) by (simp add: entry_ring_def last_map)
qed

text \<open>The value of the newest entry, and the step back.\<close>

lemma entry_ring_hd:
  assumes "ring_ok st k" "a = hd (header_ring st)"
  shows "entry_ring (set_entry a e st) = e # tl (entry_ring st)" "ring_ok (set_entry a e st) k" "bi_entries st ! a = hd (entry_ring st)"
proof -
  from ring_okE [OF assms(1)] have h: "distinct (header_ring st)" "\<forall>a \<in> set (header_ring st). a < length (bi_entries st)"
    "header_ring st \<noteq> []" "entry_ring st \<noteq> []" by metis+
  have a: "a = header_ring st ! 0" using assms(2) h(3) by (simp add: hd_conv_nth)
  have "entry_ring (set_entry a e st) = (entry_ring st)[0 := e]" unfolding a using h by (intro entry_ring_set) auto
  then show "entry_ring (set_entry a e st) = e # tl (entry_ring st)" using h(4) by (cases "entry_ring st") auto
  show "ring_ok (set_entry a e st) k" using assms(1) by (auto simp: ring_ok_def set_entry_def)
  show "bi_entries st ! a = hd (entry_ring st)" using assms(2) h(3) by (simp add: entry_ring_def hd_map)
qed

lemma entry_ring_rewind:
  assumes "ring_ok st k"
  shows "header_ring (rewind_block_index_tail st) = tl (header_ring st) @ [hd (header_ring st)]"
    "entry_ring (rewind_block_index_tail st) = tl (entry_ring st) @ [hd (entry_ring st)]" "ring_ok (rewind_block_index_tail st) k"
proof -
  from ring_okE [OF assms] obtain h where h: "blockIndex st = Some h" "header_ok h k" "header_ring st \<noteq> []" by metis
  let ?t = "(bi_tail h - 1) AND (bi_capacity h - 1)"
  have t: "unat ?t = (if unat (bi_tail h) = 0 then length (bi_index h) - 1 else unat (bi_tail h) - 1)"
    using unat_dec_mask [of "bi_capacity h" k "bi_tail h"] h(2) by (simp add: header_ok_def)
  have l: "unat (bi_tail h) < length (bi_index h)" using h(2) by (simp add: header_ok_def)
  show r: "header_ring (rewind_block_index_tail st) = tl (header_ring st) @ [hd (header_ring st)]"
    using h(1) ring_dec [OF l, folded t] by (simp add: header_ring_def rewind_block_index_tail_def)
  have e: "bi_entries (rewind_block_index_tail st) = bi_entries st" by (simp add: rewind_block_index_tail_def)
  show "entry_ring (rewind_block_index_tail st) = tl (entry_ring st) @ [hd (entry_ring st)]"
    unfolding entry_ring_def r e using h(3) by (simp add: map_tl hd_map)
  have "unat ?t < length (bi_index h)" using t l by auto
  then have "header_ok (h\<lparr>bi_tail := ?t\<rparr>) k" using h(2) by (simp add: header_ok_def)
  then show "ring_ok (rewind_block_index_tail st) k" using assms h(1) by (auto simp: ring_ok_def rewind_block_index_tail_def)
qed

section \<open>A larger header\<close>

lemma gather_back:
  assumes h: "header_ok h k" and t: "t = unat (bi_tail h)"
  shows "0 < r \<Longrightarrow> r \<le> n \<Longrightarrow> r \<le> 2 ^ k \<Longrightarrow>
    unat ((pos + 1) AND (bi_capacity h - 1)) = (if r \<le> Suc t then Suc t - r else Suc t + 2 ^ k - r) \<Longrightarrow>
    gather h n pos = rev (take r (ring t (bi_index h)))"
proof (induction n arbitrary: r pos)
  case (Suc n)
  have l: "t < length (bi_index h)" "length (bi_index h) = 2 ^ k" using h t by (simp_all add: header_ok_def)
  obtain r1 where r: "r = Suc r1" using Suc.prems(1) by (cases r) auto
  let ?p = "(pos + 1) AND (bi_capacity h - 1)"
  have p: "unat ?p = (if r1 \<le> t then t - r1 else t + length (bi_index h) - r1)"
    using Suc.prems(4) unfolding r l by simp
  have e: "bi_index h ! unat ?p = ring t (bi_index h) ! r1" unfolding p
    using Suc.prems(3) l r by (intro ring_nth [symmetric]) simp_all
  have tk: "rev (take r (ring t (bi_index h))) = ring t (bi_index h) ! r1 # rev (take r1 (ring t (bi_index h)))"
    using Suc.prems(3) l by (simp add: r take_Suc_conv_app_nth)
  have z: "?p = bi_tail h \<longleftrightarrow> r1 = 0"
  proof -
    have "?p = bi_tail h \<longleftrightarrow> unat ?p = t" by (simp add: t word_unat_eq_iff)
    also have "\<dots> \<longleftrightarrow> r1 = 0" unfolding p l using l(1) Suc.prems(3) r by (auto simp: l)
    finally show ?thesis .
  qed
  show ?case
  proof (cases "r1 = 0")
    case True
    with z e tk show ?thesis by (simp add: Let_def)
  next
    case False
    have "unat ?p < 2 ^ k" using p l Suc.prems(3) r by auto
    then have "unat ((?p + 1) AND (bi_capacity h - 1)) = (if r1 \<le> Suc t then Suc t - r1 else Suc t + 2 ^ k - r1)"
      using unat_inc_mask [of "bi_capacity h" k ?p] h False l Suc.prems(3) r unfolding p by (auto simp: header_ok_def)
    then have "gather h n ?p = rev (take r1 (ring t (bi_index h)))"
      using Suc.prems False by (intro Suc.IH) (simp_all add: r)
    with z False e tk show ?thesis by (simp add: Let_def)
  qed
qed simp

lemma gather_all:
  assumes h: "header_ok h k" shows "gather h (unat (bi_capacity h)) (bi_tail h) = rev (ring (unat (bi_tail h)) (bi_index h))"
proof -
  have l: "length (bi_index h) = 2 ^ k" "unat (bi_tail h) < 2 ^ k" "unat (bi_capacity h) = 2 ^ k"
    using h unat_cap [of "bi_capacity h" k] by (simp_all add: header_ok_def)
  have "unat ((bi_tail h + 1) AND (bi_capacity h - 1)) = (if 2 ^ k \<le> Suc (unat (bi_tail h)) then Suc (unat (bi_tail h)) - 2 ^ k else Suc (unat (bi_tail h)) + 2 ^ k - 2 ^ k)"
    using unat_inc_mask [of "bi_capacity h" k "bi_tail h"] h l by (auto simp: header_ok_def)
  from gather_back [OF h refl _ _ _ this] l show ?thesis by simp
qed

lemma new_block_index_grows:
  assumes "ring_ok st k" "k < 58"
  shows "fst (new_block_index True junk st)"
    "entry_ring (snd (new_block_index True junk st)) = entry_ring st @ rev (map (\<lambda>i. (INVALID_BLOCK_BASE, junk i)) [0 ..< 2 ^ k])"
    "ring_ok (snd (new_block_index True junk st)) (Suc k)"
proof -
  from ring_okE [OF assms(1)] obtain h where h: "blockIndex st = Some h" "header_ok h k" "nextBlockIndexCapacity st = 2 * bi_capacity h"
    "distinct (header_ring st)" "\<forall>a \<in> set (header_ring st). a < length (bi_entries st)" "length (header_ring st) = 2 ^ k" by metis
  let ?n = "length (bi_entries st)" and ?st = "snd (new_block_index True junk st)"
  have c: "bi_capacity h = 2 ^ k" "unat (bi_capacity h) = 2 ^ k" using h(2) unat_cap [of "bi_capacity h" k] by (simp_all add: header_ok_def)
  have t: "unat ((bi_capacity h - 1) AND (2 * bi_capacity h - 1)) = 2 ^ k - 1"
  proof -
    have "unat (bi_capacity h - 1) = 2 ^ k - 1" using c by (subst unat_minus_one) (auto simp flip: unat_eq_zero)
    moreover have "(2 ^ k - 1 :: nat) mod 2 ^ Suc k = 2 ^ k - 1" by (rule mod_less) (simp add: less_imp_diff_less)
    ultimately show ?thesis using unat_and_mask [of "2 * bi_capacity h" "Suc k" "bi_capacity h - 1"] c assms(2) by simp
  qed
  let ?h = "\<lparr>bi_capacity = 2 * bi_capacity h, bi_tail = (bi_capacity h - 1) AND (2 * bi_capacity h - 1), bi_index = rev (header_ring st) @ [?n ..< ?n + 2 ^ k]\<rparr>"
  have st: "blockIndex ?st = Some ?h" "bi_entries ?st = bi_entries st @ map (\<lambda>i. (INVALID_BLOCK_BASE, junk i)) [0 ..< 2 ^ k]"
    "nextBlockIndexCapacity ?st = 2 * (2 * bi_capacity h)" "fst (new_block_index True junk st)"
    using h(1,3) c(2) gather_all [OF h(2)] by (simp_all add: new_block_index_def header_ring_def push_bit_eq_mult Let_def)
  show "fst (new_block_index True junk st)" by (rule st(4))
  have "header_ring ?st = ring (2 ^ k - 1) (rev (ring (unat (bi_tail h)) (bi_index h)) @ [?n ..< ?n + 2 ^ k])"
    unfolding header_ring_def [of ?st] st(1) using h(1) t by (simp add: header_ring_def)
  also have "\<dots> = header_ring st @ rev [?n ..< ?n + 2 ^ k]"
    using ring_double [of "bi_index h" "unat (bi_tail h)" "[?n ..< ?n + 2 ^ k]"] h(1,2) by (simp add: header_ring_def header_ok_def flip: length_greater_0_conv)
  finally have r: "header_ring ?st = header_ring st @ rev [?n ..< ?n + 2 ^ k]" .
  have "map (\<lambda>a. bi_entries ?st ! a) (header_ring st) = entry_ring st"
    unfolding entry_ring_def st(2) using h(5) by (intro map_cong) (auto simp: nth_append)
  moreover have "map (\<lambda>a. bi_entries ?st ! a) (rev [?n ..< ?n + 2 ^ k]) = rev (map (\<lambda>i. (INVALID_BLOCK_BASE, junk i)) [0 ..< 2 ^ k])"
    unfolding st(2) by (rule nth_equalityI) (auto simp: rev_map [symmetric] rev_nth nth_append)
  ultimately show "entry_ring ?st = entry_ring st @ rev (map (\<lambda>i. (INVALID_BLOCK_BASE, junk i)) [0 ..< 2 ^ k])"
    unfolding entry_ring_def [of ?st] r by simp
  have "header_ok ?h (Suc k)" using h(2,4,5,6) c t assms(2) by (auto simp: header_ok_def)
  then show "ring_ok ?st (Suc k)" using h(5) st by (auto simp: ring_ok_def)
qed

section \<open>The contract of the index\<close>

text \<open>\<open>start\<close> is the first index of the next block.\<close>

definition index_ok :: "uint64 \<Rightarrow> 'b block_index \<Rightarrow> bool" where
  "index_ok start st \<longleftrightarrow> even start \<and> (\<exists>k m. ring_ok st k \<and> bi_chain start m (entry_ring st))"

lemma dead_invalid: "dead (INVALID_BLOCK_BASE, v)"
  by (simp add: dead_def)

lemma chain_grow: "bi_chain start m es \<Longrightarrow> bi_chain start m (es @ rev (map (\<lambda>i. (INVALID_BLOCK_BASE, junk i)) [0 ..< n]))"
  unfolding bi_chain_def by (auto simp: nth_append rev_nth dead_invalid)

lemma chain_new:
  assumes "bi_chain start m es" "es \<noteq> []"
  shows "bi_chain (start + BLOCK_SIZE) (min (Suc m) (length es)) ((start, Some b) # butlast es)"
proof -
  have "fst (((start, Some b) # butlast es) ! j) = start + BLOCK_SIZE - BLOCK_SIZE * of_nat (Suc j)" if "j < min (Suc m) (length es)" for j
    using that assms(1) by (cases j) (auto simp: bi_chain_def nth_butlast algebra_simps)
  moreover have "dead (((start, Some b) # butlast es) ! j)" if "min (Suc m) (length es) \<le> j" "j < length es" for j
    using that assms by (cases j) (auto simp: bi_chain_def nth_butlast min_def split: if_splits)
  ultimately show ?thesis using assms(2) unfolding bi_chain_def by simp
qed

lemma chain_failed:
  assumes "bi_chain start m es" "es \<noteq> []"
  shows "bi_chain start (min m (length es - 1)) (butlast es @ [(x, None)])"
  using assms by (auto simp: bi_chain_def nth_append nth_butlast dead_def)

lemma insert_cases:
  assumes "ring_ok st k" "k < 58" "insert_block_index_entry canAlloc memory junk x st = (r, st1)"
  obtains "r = None" "st1 = st" "\<not> canAlloc \<or> \<not> memory"
  | a es k' where "r = Some a" "ring_ok st1 k'" "a = hd (header_ring st1)" "entry_ring st1 = (x, snd (last es)) # butlast es" "es \<noteq> []"
    "dead (last es)" "live_entries es = live_entries (entry_ring st)" "\<And>start m. bi_chain start m (entry_ring st) \<Longrightarrow> bi_chain start m es"
proof -
  from ring_okE [OF assms(1)] obtain h where h: "blockIndex st = Some h" "header_ok h k" "entry_ring st \<noteq> []" by metis
  show thesis
  proof (cases "dead (last (entry_ring st))")
    case True
    then have "(r, st1) = (Some (fst (bi_claim x h st)), snd (bi_claim x h st))"
      using assms(3) unfolding insert_block_index_entry_def h(1) option.case last_entry [OF h(1) assms(1)] Let_def dead_def
      by (simp add: case_prod_unfold)
    then show thesis using that(2) [OF _ _ _ _ h(3) True refl] entry_ring_claim [OF h(1) assms(1), of x] header_ring_claim [OF h(1,2), of x]
      by simp
  next
    case False
    let ?st = "snd (new_block_index True junk st)" and ?es = "entry_ring st @ rev (map (\<lambda>i. (INVALID_BLOCK_BASE, junk i)) [0 ..< 2 ^ k])"
    show thesis
    proof (cases "canAlloc \<and> memory")
      case alloc: True
      note g = new_block_index_grows [OF assms(1,2), of junk]
      from ring_okE [OF g(3)] obtain h1 where h1: "blockIndex ?st = Some h1" "header_ok h1 (Suc k)" by metis
      have "(r, st1) = (Some (fst (bi_claim x h1 ?st)), snd (bi_claim x h1 ?st))"
        using assms(3) False alloc g(1) h1(1)
        unfolding insert_block_index_entry_def h(1) option.case last_entry [OF h(1) assms(1)] Let_def dead_def
        by (simp add: case_prod_unfold)
      then have r: "r = Some (last (header_ring ?st))" "st1 = snd (bi_claim x h1 ?st)" using header_ring_claim(2) [OF h1] by simp_all
      show thesis
      proof (rule that(2) [OF r(1)])
        show "ring_ok st1 (Suc k)" "entry_ring st1 = (x, snd (last ?es)) # butlast ?es"
          unfolding r(2) g(2) [symmetric] by (rule entry_ring_claim [OF h1(1) g(3)])+
        show "last (header_ring ?st) = hd (header_ring st1)" unfolding r(2) header_ring_claim(1) [OF h1] by simp
        show "live_entries ?es = live_entries (entry_ring st)" by (rule live_append_all_dead) (simp add: list_all_iff dead_invalid)
        show "bi_chain start m ?es" if "bi_chain start m (entry_ring st)" for start m using that by (rule chain_grow)
      qed (simp_all add: dead_invalid last_rev hd_map)
    next
      case noalloc: False
      then have "(r, st1) = (None, st)"
        using assms(3) False noalloc
        unfolding insert_block_index_entry_def h(1) option.case last_entry [OF h(1) assms(1)] Let_def dead_def
        by (cases canAlloc) (simp_all add: new_block_index_def Let_def)
      then show thesis using that(1) noalloc by blast
    qed
  qed
qed

lemma start_block_spec:
  assumes "index_ok start st" "length (header_ring st) < 2 ^ 58" "start_block canAlloc memory junk nb start st = (ok, st')"
  shows "if ok then \<exists>b. nb = Some b \<and> index_ok (start + BLOCK_SIZE) st' \<and> live_blocks st' = (live_blocks st)(start \<mapsto> b)
    else (nb = None \<or> \<not> canAlloc \<or> \<not> memory) \<and> index_ok start st' \<and> live_blocks st' = live_blocks st"
proof -
  from assms(1) obtain k m where k: "even start" "ring_ok st k" "bi_chain start m (entry_ring st)" unfolding index_ok_def by blast
  have "(2 :: nat) ^ k < 2 ^ 58" using assms(2) ring_okE [OF k(2)] by metis
  then have k58: "k < 58" by (rule power_less_imp_less_exp [rotated]) simp
  obtain r st1 where i: "insert_block_index_entry canAlloc memory junk start st = (r, st1)" by fastforce
  have odd1: "start \<noteq> INVALID_BLOCK_BASE" using k(1) by (auto simp: INVALID_BLOCK_BASE_def)
  from k(2) k58 i show ?thesis
  proof (cases rule: insert_cases)
    case 1
    then show ?thesis using assms(1,3) i by (auto simp: start_block_def)
  next
    case (2 a es k')
    note hd = entry_ring_hd [OF 2(2,3)]
    have fst: "fst (bi_entries st1 ! a) = start" unfolding hd(3) 2(4) by simp
    show ?thesis
    proof (cases nb)
      case (Some b)
      have "entry_ring st' = (start, Some b) # butlast es" "ring_ok st' k'" "ok"
        using assms(3) i 2(1) Some hd(1,2) fst 2(4) by (auto simp: start_block_def)
      moreover have "even (start + BLOCK_SIZE)" using k(1) by (simp add: BLOCK_SIZE_def)
      moreover have "live_entries (butlast es) = live_blocks st" using 2(5,6,7) live_butlast unfolding live_blocks_def by metis
      ultimately show ?thesis using Some odd1 chain_new [OF 2(8) [OF k(3)] 2(5)] unfolding index_ok_def live_blocks_def by auto
    next
      case None
      let ?s = "rewind_block_index_tail st1"
      note rw = entry_ring_rewind [OF 2(2)]
      have s': "st' = set_entry a (start, None) ?s" "\<not> ok" using assms(3) i 2(1) None fst by (auto simp: start_block_def Let_def rewind_block_index_tail_def)
      from ring_okE [OF rw(3)] have d: "distinct (header_ring ?s)" "\<forall>a \<in> set (header_ring ?s). a < length (bi_entries ?s)" "header_ring ?s \<noteq> []" by metis+
      have "a = header_ring ?s ! (length (header_ring ?s) - 1)" using 2(3) rw(1) by (simp add: nth_append)
      then have "entry_ring st' = (entry_ring ?s)[length (header_ring ?s) - 1 := (start, None)]"
        unfolding s' using d entry_ring_set [OF d(1), of "length (header_ring ?s) - 1" "(start, None)"] by simp
      also have "\<dots> = butlast es @ [(start, None)]"
      proof -
        have "length (header_ring ?s) - 1 = length (butlast es)" using arg_cong [OF rw(2), of length] 2(4) by (simp add: entry_ring_def [of ?s])
        then show ?thesis unfolding rw(2) 2(4) by (simp only: list.sel list_update_length)
      qed
      finally have e: "entry_ring st' = butlast es @ [(start, None)]" .
      have "live_entries (entry_ring st') = live_blocks st" unfolding e
        using live_append_dead [of "(start, None)" "butlast es"] live_butlast [OF 2(5,6)] 2(7) by (simp add: dead_def live_blocks_def)
      moreover have "ring_ok st' k'" unfolding s' using rw(3) by (auto simp: ring_ok_def set_entry_def)
      ultimately show ?thesis
        using s'(2) None k(1) chain_failed [OF 2(8) [OF k(3)] 2(5), of start] unfolding index_ok_def live_blocks_def e [symmetric] by auto
    qed
  qed
qed

lemma lookup_position:
  assumes "ring_ok st k" "bi_chain start m (entry_ring st)" "j < m" "index AND NOT (BLOCK_SIZE - 1) = start - BLOCK_SIZE * of_nat (Suc j)"
  shows "get_block_index_entry_for_index index st = Some (header_ring st ! j)" "j < length (header_ring st)"
proof -
  from ring_okE [OF assms(1)] obtain h where h: "blockIndex st = Some h" "header_ok h k" "length (header_ring st) = 2 ^ k" "length (entry_ring st) = 2 ^ k"
    by metis
  have j: "j < 2 ^ k" using assms(2,3) h(4) by (simp add: bi_chain_def)
  then show "j < length (header_ring st)" using h(3) by simp
  have "(2 :: nat) ^ k \<le> 2 ^ 58" using h(2) by (intro power_increasing) (auto simp: header_ok_def)
  then have j59: "j < 2 ^ 59" using j by simp
  have t: "unat (bi_tail h) < length (bi_index h)" "length (bi_index h) = 2 ^ k" using h(2) by (simp_all add: header_ok_def)
  have "bi_index h ! unat (bi_tail h) = header_ring st ! 0" using h(1) t ring_nth [of 0 "bi_index h" "unat (bi_tail h)"] by (simp add: header_ring_def)
  moreover have "0 < length (header_ring st)" using j h(3) by simp
  ultimately have "fst (bi_entries st ! (bi_index h ! unat (bi_tail h))) = fst (entry_ring st ! 0)" by (simp add: entry_ring_def)
  also have "\<dots> = start - BLOCK_SIZE" using assms(2,3) by (force simp: bi_chain_def)
  finally have b: "fst (bi_entries st ! (bi_index h ! unat (bi_tail h))) = start - BLOCK_SIZE" .
  have o: "start - BLOCK_SIZE * of_nat (Suc j) - (start - BLOCK_SIZE) = - (BLOCK_SIZE * of_nat j)" by (simp add: algebra_simps)
  have "get_block_index_index_for_index index h st = (bi_tail h + (- (BLOCK_SIZE * of_nat j)) div BLOCK_SIZE) AND (bi_capacity h - 1)"
    unfolding get_block_index_index_for_index_def Let_def assms(4) b o ..
  then have "unat (get_block_index_index_for_index index h st) = (if j \<le> unat (bi_tail h) then unat (bi_tail h) - j else unat (bi_tail h) + 2 ^ k - j)"
    using unat_add_mask [OF _ _ _ _ _ j unat_block_offset [OF j59], of "bi_capacity h" "bi_tail h"] h(2) by (simp add: header_ok_def)
  then show "get_block_index_entry_for_index index st = Some (header_ring st ! j)"
    using h(1) j t ring_nth [of j "bi_index h" "unat (bi_tail h)"] by (simp add: get_block_index_entry_for_index_def header_ring_def)
qed

lemma live_unique:
  "(i, Some b) \<in> set es \<Longrightarrow> i \<noteq> INVALID_BLOCK_BASE \<Longrightarrow> (\<And>b'. (i, Some b') \<in> set es \<Longrightarrow> b' = b) \<Longrightarrow> live_entries es i = Some b"
proof (induction es)
  case (Cons e es)
  obtain k v where e: "e = (k, v)" by (cases e)
  show ?case
  proof (cases "k = i \<and> v \<noteq> None")
    case True
    then obtain v' where v: "v = Some v'" "k = i" by blast
    have "v' = b" by (rule Cons.prems(3)) (simp add: e v)
    with v Cons.prems(2) e show ?thesis by simp
  next
    case False
    have "live_entries es i = Some b"
    proof (rule Cons.IH)
      show "(i, Some b) \<in> set es" using Cons.prems(1) False e by auto
      show "b' = b" if "(i, Some b') \<in> set es" for b' by (rule Cons.prems(3)) (simp add: that)
    qed (rule Cons.prems(2))
    with False e show ?thesis by (auto split: option.splits)
  qed
qed simp

lemma live_iff:
  assumes "bi_chain start m es" "even start" "m \<le> 2 ^ 58"
  shows "live_entries es i = Some b \<longleftrightarrow> (\<exists>j < m. es ! j = (i, Some b))"
proof
  assume "\<exists>j < m. es ! j = (i, Some b)"
  then obtain j where j: "j < m" "es ! j = (i, Some b)" by blast
  have i: "i = start - BLOCK_SIZE * of_nat (Suc j)" using assms(1) j unfolding bi_chain_def by fastforce
  have "even (BLOCK_SIZE * of_nat (Suc j))" by (simp add: BLOCK_SIZE_def)
  then have "even i" unfolding i using assms(2) by (metis dvd_diff)
  then have n: "i \<noteq> INVALID_BLOCK_BASE" by (auto simp: INVALID_BLOCK_BASE_def)
  show "live_entries es i = Some b"
  proof (rule live_unique [OF _ n])
    show "(i, Some b) \<in> set es" using j assms(1) unfolding bi_chain_def by (metis nth_mem order_less_le_trans)
    fix b' assume "(i, Some b') \<in> set es"
    then obtain j' where j': "j' < length es" "es ! j' = (i, Some b')" by (auto simp: in_set_conv_nth)
    then have "\<not> dead (es ! j')" using n by (simp add: dead_def)
    then have m: "j' < m" using assms(1) j'(1) unfolding bi_chain_def by (metis not_le)
    then have "i = start - BLOCK_SIZE * of_nat (Suc j')" using assms(1) j'(2) unfolding bi_chain_def by fastforce
    with i have e: "start - BLOCK_SIZE * of_nat (Suc j') = start - BLOCK_SIZE * of_nat (Suc j)" by metis
    have "j' = j" by (rule block_start_inj [OF _ _ e]) (use m j(1) assms(3) in linarith)+
    then show "b' = b" using j(2) j'(2) by simp
  qed
next
  assume "live_entries es i = Some b"
  from chain_live [OF assms(1) this] show "\<exists>j < m. es ! j = (i, Some b)" by blast
qed

lemma release_spec:
  assumes "index_ok start st" "i = index AND NOT (BLOCK_SIZE - 1)" "live_blocks st i = Some b"
  shows "\<exists>a. get_block_index_entry_for_index index st = Some a \<and> bi_entries st ! a = (i, Some b) \<and>
    index_ok start (release_block index st) \<and> live_blocks (release_block index st) = (live_blocks st)(i := None)"
proof -
  from assms(1) obtain k m where k: "even start" "ring_ok st k" "bi_chain start m (entry_ring st)" unfolding index_ok_def by blast
  from ring_okE [OF k(2)] obtain h where h: "header_ok h k" "distinct (header_ring st)" "\<forall>a \<in> set (header_ring st). a < length (bi_entries st)"
    "length (entry_ring st) = 2 ^ k" by metis
  have "(2 :: nat) ^ k \<le> 2 ^ 58" using h(1) by (intro power_increasing) (auto simp: header_ok_def)
  then have m: "m \<le> 2 ^ 58" using k(3) h(4) by (simp add: bi_chain_def)
  from chain_live [OF k(3) assms(3) [unfolded live_blocks_def]] obtain j where
    j: "j < m" "entry_ring st ! j = (i, Some b)" "i = start - BLOCK_SIZE * of_nat (Suc j)" by metis
  note p = lookup_position [OF k(2,3) j(1) j(3) [unfolded assms(2)]]
  have e: "bi_entries st ! (header_ring st ! j) = (i, Some b)" using j(2) p(2) by (simp add: entry_ring_def)
  let ?st = "release_block index st"
  have st: "?st = set_entry (header_ring st ! j) (i, None) st" using p(1) e by (simp add: release_block_def)
  have r: "entry_ring ?st = (entry_ring st)[j := (i, None)]" unfolding st using h(2,3) p(2) by (intro entry_ring_set) auto
  have c: "bi_chain start m (entry_ring ?st)" using k(3) j unfolding r bi_chain_def by (auto simp: nth_list_update)
  have "live_entries (entry_ring ?st) x = ((live_blocks st)(i := None)) x" for x
  proof -
    have jl: "j < length (entry_ring st)" using p(2) by (simp add: entry_ring_def)
    have uniq: "j' = j" if "j' < m" "entry_ring st ! j' = (i, Some b')" for j' b'
      using block_start_inj [of j' j start] that j(1,3) m k(3) unfolding bi_chain_def by force
    have "live_entries (entry_ring ?st) x = Some v \<longleftrightarrow> ((live_blocks st)(i := None)) x = Some v" for v
    proof (cases "x = i")
      case True
      have "\<not> (\<exists>j' < m. (entry_ring st)[j := (i, None)] ! j' = (i, Some v))" using uniq jl by (auto simp: nth_list_update)
      then have "live_entries (entry_ring ?st) i \<noteq> Some v" using live_iff [OF c k(1) m, of i v] unfolding r by blast
      with True show ?thesis by simp
    next
      case False
      have "(\<exists>j' < m. (entry_ring st)[j := (i, None)] ! j' = (x, Some v)) \<longleftrightarrow> (\<exists>j' < m. entry_ring st ! j' = (x, Some v))"
        using False jl j(2) by (metis fst_conv nth_list_update_eq nth_list_update_neq)
      then show ?thesis using False live_iff [OF c k(1) m, of x v] live_iff [OF k(3,1) m, of x v] unfolding r by (simp add: live_blocks_def)
    qed
    then show "live_entries (entry_ring ?st) x = ((live_blocks st)(i := None)) x" by (metis not_Some_eq)
  qed
  then have "live_blocks ?st = (live_blocks st)(i := None)" unfolding live_blocks_def [of ?st] by blast
  moreover have "index_ok start ?st" using k(1,2) c unfolding index_ok_def st by (auto simp: ring_ok_def set_entry_def)
  ultimately show ?thesis using p(1) e by blast
qed

lemma new_producer_index_ok: "index_ok 0 (new_producer_index True junk) \<and> live_blocks (new_producer_index True junk) = Map.empty"
proof -
  let ?st = "new_producer_index True junk"
  have n: "unat (32 :: uint64) = 32" by simp
  have t: "unat ((0 - 1 :: uint64) AND (32 - 1)) = 31" using unat_dec_mask [of 32 5 0] by simp
  have st: "blockIndex ?st = Some \<lparr>bi_capacity = 32, bi_tail = (0 - 1) AND (32 - 1), bi_index = [0 ..< 32]\<rparr>"
    "bi_entries ?st = map (\<lambda>i. (INVALID_BLOCK_BASE, junk i)) [0 ..< 32]" "nextBlockIndexCapacity ?st = 64"
    by (simp_all add: new_producer_index_def new_block_index_def Let_def IMPLICIT_INITIAL_INDEX_SIZE_def del: upt_Suc)
  have r: "header_ring ?st = rev [0 ..< 32]"
    unfolding header_ring_def st(1) using t ring_full [of "[0 ..< 32]"] by (simp del: upt_Suc)
  have d: "list_all dead (entry_ring ?st)"
    unfolding entry_ring_def r st(2) list_all_iff by (auto simp: dead_invalid simp del: upt_Suc)
  have l: "length (entry_ring ?st) = 32" by (simp add: entry_ring_def r)
  have "bi_chain 0 0 (entry_ring ?st)" using d unfolding bi_chain_def list_all_length by simp
  moreover have "ring_ok ?st 5" unfolding ring_ok_def using st t by (auto simp: header_ok_def simp del: upt_Suc)
  ultimately show ?thesis using live_all_dead [OF d] unfolding index_ok_def live_blocks_def by blast
qed

section \<open>Runs\<close>

text \<open>The operations one after the other, from a new producer whose first index could be allocated.  The first component of a state is the first index of the next
  block.  An index of \<open>2 ^ 58\<close> entries, which is more than any memory holds, is not grown.\<close>

inductive bi_step :: "uint64 \<times> 'b block_index \<Rightarrow> uint64 \<times> 'b block_index \<Rightarrow> bool" where
  new_block: "length (header_ring st) < 2 ^ 58 \<Longrightarrow> start_block canAlloc memory junk newBlock start st = (ok, st') \<Longrightarrow>
    bi_step (start, st) (if ok then start + BLOCK_SIZE else start, st')"
| emptied: "live_blocks st (index AND NOT (BLOCK_SIZE - 1)) = Some b \<Longrightarrow> bi_step (start, st) (start, release_block index st)"

definition start_bi :: "uint64 \<times> 'b block_index \<Rightarrow> bool" where
  "start_bi s \<longleftrightarrow> (\<exists>junk. s = (0, new_producer_index True junk))"

interpretation block_index_run: invariant_run start_bi bi_step "\<lambda>(start, st). index_ok start st"
proof
  show "case s of (start, st) \<Rightarrow> index_ok start st" if "start_bi s" for s :: "uint64 \<times> 'b block_index"
    using that new_producer_index_ok by (auto simp: start_bi_def)
  show "case s' of (start, st) \<Rightarrow> index_ok start st" if "bi_step s s'" "case s of (start, st) \<Rightarrow> index_ok start st" for s s' :: "uint64 \<times> 'b block_index"
    using that
  proof cases
    case (new_block st canAlloc memory junk newBlock start ok st')
    with start_block_spec [OF _ new_block(3,4)] that(2) show ?thesis by (auto split: if_splits)
  next
    case (emptied st index b start)
    with release_spec [OF _ refl emptied(3)] that(2) show ?thesis by auto
  qed
qed

text \<open>C29: the block index of a producer is a map from the first indices of its blocks to the blocks, in every state that its operations can reach from the empty map: a new block is entered under
  the next first index, in a larger index when the oldest entry is still in use, and a failure to get the entry or the block leaves the map as it
  was; and the lookup of an index finds the entry of its block, as the code asserts, whether the indices have wrapped round or not, so that releasing an emptied block removes it
  and no other.\<close>

theorem block_index_refines_map:
  assumes "start_bi s0" "bi_step\<^sup>*\<^sup>* s0 (start, st)" "length (header_ring st) < 2 ^ 58"
  shows "live_blocks (snd s0) = Map.empty \<and>
    (case start_block canAlloc memory junk newBlock start st of (ok, st') \<Rightarrow>
      if ok then \<exists>b. newBlock = Some b \<and> live_blocks st' = (live_blocks st)(start \<mapsto> b)
      else (newBlock = None \<or> \<not> canAlloc \<or> \<not> memory) \<and> live_blocks st' = live_blocks st) \<and>
    (\<forall>index b. live_blocks st (index AND NOT (BLOCK_SIZE - 1)) = Some b \<longrightarrow>
      (\<exists>a. get_block_index_entry_for_index index st = Some a \<and> bi_entries st ! a = (index AND NOT (BLOCK_SIZE - 1), Some b)) \<and>
      live_blocks (release_block index st) = (live_blocks st)(index AND NOT (BLOCK_SIZE - 1) := None))"
proof -
  have ok: "index_ok start st" using block_index_run.reachable_inv [OF assms(2,1)] by simp
  obtain r st' where "start_block canAlloc memory junk newBlock start st = (r, st')" by fastforce
  moreover have "live_blocks (snd s0) = Map.empty" using assms(1) by (auto simp: start_bi_def new_producer_index_ok)
  ultimately show ?thesis using start_block_spec [OF ok assms(3)] release_spec [OF ok refl] by fastforce
qed

theorem block_index_refines_map_witness:
  "case start_block True True (\<lambda>_. None) (Some ''block'') 0 (new_producer_index True (\<lambda>_. None)) of (ok, st) \<Rightarrow>
     ok \<and> live_blocks st = [0 \<mapsto> ''block''] \<and> map_option (\<lambda>a. bi_entries st ! a) (get_block_index_entry_for_index 7 st) = Some (0, Some ''block'')"
proof -
  let ?st = "new_producer_index True (\<lambda>_. None :: string option)"
  have start: "start_bi (0, ?st)" by (auto simp: start_bi_def)
  obtain ok st where s: "start_block True True (\<lambda>_. None) (Some ''block'') 0 ?st = (ok, st)" by fastforce
  have h: "length (header_ring ?st) < 2 ^ 58"
    by (simp add: header_ring_def new_producer_index_def new_block_index_def IMPLICIT_INITIAL_INDEX_SIZE_def Let_def del: upt_Suc)
  from block_index_refines_map [OF start rtranclp.rtrancl_refl h, where canAlloc = True and memory = True and junk = "\<lambda>_. None" and newBlock = "Some ''block''"] s
  have o: "ok" "live_blocks st = [0 \<mapsto> ''block'']" by (auto split: if_splits)
  have "bi_step (0, ?st) (if ok then 0 + BLOCK_SIZE else 0, st)" by (rule bi_step.new_block [OF h s])
  then have run: "bi_step\<^sup>*\<^sup>* (0, ?st) (BLOCK_SIZE, st)" using o(1) by (simp add: r_into_rtranclp)
  have "length (header_ring (snd (start_block True True (\<lambda>_. None) (Some ''block'') 0 ?st))) = 32" by code_simp
  then have "length (header_ring st) < 2 ^ 58" using s by simp
  note found = block_index_refines_map [OF start run this, THEN conjunct2, THEN conjunct2, THEN spec, of 7, THEN spec, of "''block''"]
  have "\<exists>a. get_block_index_entry_for_index 7 st = Some a \<and> bi_entries st ! a = (0, Some ''block'')"
    using found o(2) by (simp add: BLOCK_SIZE_def)
  with s o show ?thesis by auto
qed

end
