(* ===== verification/Spec2Isabelle.thy ===== *)
theory Spec2Isabelle
  imports Transactions Subscriptions Anomalies Queue_Threads Semaphore Blocking_Queue Storage_Index Worker_Threads
    Scheduler_Threads Selector_Grammar Free_List Block_Index Producer_Hash
begin

text \<open>
  tiny-mq is a message broker in the style of JMS, as a C++ library: clients open a connection and
  sessions, create queues and topics, send messages and receive them; persistent messages survive a
  restart.  This development models the broker in HOL and proves what its parts promise each other and
  what the clients get.

  \<^bold>\<open>The program.\<close>  A \<open>Producer\<close> fills the provider headers of a message and gives it to its
  \<open>Destination\<close>, which pushes a copy to one consumer of a queue or to all consumers of a topic.
  \<open>Consumer::push\<close> appends a persistent message to a \<open>Storage\<close> through its worker thread
  (\<open>ConcurrentLinearStorage\<close>), or hands it to the \<open>TransactionBuffer\<close> of an open transaction, and puts the
  message into a ten-band priority queue, directly or through the \<open>DeliveryScheduler\<close> when it has a delivery
  time.  \<open>Consumer::recv\<close> takes it out, restores it, drops it when it has expired, and tracks it in an
  intrusive list until it is acknowledged, recovered or rolled back; a message that was redelivered too
  often goes to the dead-letter queue.  A \<open>Selector\<close> filters what a consumer gets.  After a restart the
  records of a storage are replayed into the queue of a new consumer.

  \<^bold>\<open>The theories\<close>, in the order in which they build on each other:
  \<^item> \<open>Prelude\<close>: words as bytes, association lists as hash maps, loops that may throw, and the contract of a
    run with an invariant (locale \<open>invariant_run\<close>).
  \<^item> \<open>Message_Property\<close> (\<open>MessageProperty.h\<close>, \<open>.cpp\<close>): typed properties and value streams and their JSON form.
  \<^item> \<open>Message\<close> (\<open>Message.h\<close>, \<open>.cpp\<close> and the five message classes): the headers, the wire format and the
    readers of stored records by offset.  A stored message reads back, but for empty byte arrays; one with a null value does not.
  \<^item> \<open>Message_Body\<close> (the same files): what a client calls on a message, the typed properties, the accessors of
    the five classes and the JSON dump.
  \<^item> \<open>Priority_Queue\<close> (\<open>PriorityQueueT\<close> of \<open>Message.h\<close>): bands, occupancy mask and semaphore; for calls that do not
    overlap it refines a list sorted by priority (locale \<open>priority_fifo\<close>).
  \<^item> \<open>Semaphore\<close> (\<open>lightweightsemaphore.h\<close>): the semaphore on which the receivers block, as steps of any number of
    threads; it refines a counter of tokens and loses no wake-up.
  \<^item> \<open>Queue_Threads\<close> (\<open>PriorityQueueT\<close> again): the priority queue as steps of any number of threads; no message is
    lost, doubled or stranded, but its mask can hide one.
  \<^item> \<open>Blocking_Queue\<close> (\<open>blockingconcurrentqueue.h\<close>): the queue in front of the storage worker; the operations of
    one producer stay in order, and the loop of a dequeue can always end.
  \<^item> \<open>Sub_Queue\<close> (\<open>concurrentqueue.h\<close>): the queue of one producer inside the lock-free queue, at the level of its four atomic
    indices; for less than half of the range of a word it is first in, first out, and no element is lost or read twice.
  \<^item> \<open>Producer_Hash\<close> (\<open>concurrentqueue.h\<close>): the hash of threads and the choice of a sub-queue; two threads never have the same sub-queue, and
    a dequeue finds an element when there is one.
  \<^item> \<open>Block_Index\<close> (\<open>concurrentqueue.h\<close>): where a sub-queue finds the block of an index; a circular array that refines a map.
  \<^item> \<open>Free_List\<close> (\<open>concurrentqueue.h\<close>): the lock-free list of free blocks with its reference counts; no block is handed out twice.
  \<^item> \<open>Btree\<close> (\<open>btree.h\<close>): the B-tree under the index of the storage, with the splits, rotations and merges of its
    nodes; every operation returns and keeps the invariants that the code asserts.
  \<^item> \<open>Linear_Storage\<close> (\<open>LinearStorage.h\<close>, \<open>.cpp\<close>): append-only files of records with an index and scans;
    what is appended is scanned until it is removed, also after reopening (locale \<open>record_store\<close>).
  \<^item> \<open>Storage_Index\<close> (\<open>LinearStorage.cpp\<close>, \<open>disk_btree.h\<close>): the contract of an index (locale \<open>index_map\<close>), the B-tree as
    its instance, and the storage as its client: the B-tree resolves what the map of \<open>Linear_Storage\<close> does.
  \<^item> \<open>Concurrent_Storage\<close> (\<open>ConcurrentLinearStorage.h\<close>, \<open>.cpp\<close>): the worker, its operation queue and the
    expiry sweep; the contract the broker uses is the locale \<open>durable_store\<close>.
  \<^item> \<open>Worker_Threads\<close> (\<open>ConcurrentLinearStorage\<close> again): the worker and any number of client threads as steps; the
    calls take effect one after the other, and \<open>stop\<close> can always end, unless it comes before the new thread has reached \<open>run\<close>.
  \<^item> \<open>Transaction_Buffer\<close> (\<open>TransactionBuffer.h\<close>, \<open>.cpp\<close>): the maps and the log; the log tells which
    transactions are open as long as its lines can be written whole, and what happens when they cannot.
  \<^item> \<open>Delivery_Scheduler\<close> (\<open>DeliveryScheduler.h\<close>, \<open>.cpp\<close>): pending deliveries, the clamp, the wait.
  \<^item> \<open>Scheduler_Threads\<close> (\<open>DeliveryScheduler\<close> again): the worker with its condition variable and any number of clients as steps; every
    message is delivered once and not early, the worker never oversleeps, and \<open>stop\<close> ends.
  \<^item> \<open>Selector\<close> (\<open>Selector.h\<close>, \<open>.cpp\<close>): tokenizer, parser, evaluation, doubles, and LIKE on the fragment of \<open>std::regex\<close> it is translated to.
  \<^item> \<open>Selector_Grammar\<close> (\<open>Selector.cpp\<close> again): the grammar of the selectors as an inductive relation; the parser accepts exactly its
    texts, with the expressions it derives; the types of expressions.
  \<^item> \<open>Broker_State\<close>: the objects of all other classes in one store, and the actions on it with their rules of
    partial correctness.
  \<^item> \<open>Dead_Letter\<close>, \<open>Consumer\<close>, \<open>Destination\<close>, \<open>Producer\<close>, \<open>Session\<close> (\<open>Destination.cpp\<close>, \<open>Consumer.cpp\<close>,
    \<open>Producer.cpp\<close>, \<open>Session.cpp\<close>, \<open>Exchange.cpp\<close>, \<open>Connection.cpp\<close>): one action per method.
  \<^item> \<open>Ownership\<close>, \<open>Broker_Run\<close>: every message is in one place at most, shown for every operation, and the
    step relation of the clients' calls, the schedulers and the sweeps.
  \<^item> \<open>Settlement\<close>: acknowledgement, recovery, backoff and dead letters.
  \<^item> \<open>Delivery\<close>: the way of a message from \<open>send\<close> to \<open>recv\<close> and through a restart.
  \<^item> \<open>Routing\<close>: expiry, topics and selectors, send options.
  \<^item> \<open>Transactions\<close>: what a transacted send hides, a commit delivers and a rollback discards.
  \<^item> \<open>Subscriptions\<close>: what a topic stores for durable subscribers that are away.
  \<^item> \<open>Anomalies\<close>: behaviour that departs from the comments of the code, from JMS or from SQL, on the model.

  \<^bold>\<open>How state and effects are modelled.\<close>  A class is a record, an enumeration a datatype.  Integers have
  their width (\<open>int64\<close>, \<open>uint32\<close>, ...), doubles are rationals rounded to nearest even with infinities and NaN.
  Objects that are shared by pointer live in the record \<open>broker\<close> and are known by an address.  A method is
  a function of the store that returns a value or an exception with the new store in both cases; \<open>None\<close> is
  a call that never returns, which is the case of a wait for a message without a timeout on an empty queue,
  of a call of a storage whose worker is not running, and of a loop that does not end.  Such loops (the scan
  of a file, \<open>recv\<close>, the walk along the in-flight list, draining a queue) are partial functions in the option
  monad; the theorems about them say that they return.  The parser of the selectors recurs on fuel, the
  length of its input and five more, and is shown never to run out of it.  The clock and the random
  UUIDs are sequences that are read one after the other.  The loops that go down a B-tree recur on a bound on
  the levels; the operations start them with one more than the height of the root, which is shown to be enough.
  The searches in the hash of the threads and the copying of the block index recur on the size of their tables, which is shown to be enough as well.
  The steps of concurrent threads are inductive relations on a record that holds the shared variables and the
  program point of every thread; one step is one atomic operation.

  \<^bold>\<open>What is a parameter.\<close>  Poco's JSON reader and writer, its value conversions and UUID texts (\<open>poco\<close>), its
  tokenizer and hash, the iteration order of the hash maps, and whether a file can be written (\<open>io\<close>).  What
  a theorem needs of them is a hypothesis with a name: \<open>props_text_ok\<close> and \<open>stream_text_ok\<close> (the text of this one document gives back the names
  and, through \<open>getValue\<close>, the values that were written; Poco need not keep the order of the names or the kind of a JSON value, and a float that
  loses digits in the text is not covered), \<open>tokenizer_ok\<close>,
  \<open>uuid_text_ok\<close>, \<open>iter_ok\<close>; the examples instantiate them.

  \<^bold>\<open>What is not modelled.\<close>  In the theories of the broker (from \<open>Broker_State\<close> on) threads run to completion
  between the steps of other threads: a client call, a delivery of a scheduler, a turn of a storage worker and a
  sweep are atomic, as the mutexes make them for the exchange, the connection, the transaction buffer and the
  scheduler.  Inside the priority queue, the semaphore, the queue of the storage worker, the worker itself and the scheduler
  the interleavings are those of \<open>Queue_Threads\<close>, \<open>Semaphore\<close>, \<open>Blocking_Queue\<close>, \<open>Worker_Threads\<close> and \<open>Scheduler_Threads\<close>, with sequentially consistent
  atomic operations; weaker memory orders and interleavings inside the other unlocked parts of a call are left out.  To its clients the
  lock-free queue of \<open>concurrentqueue.h\<close> is one first-in first-out queue per producer.  Of the code behind that, the indices of a sub-queue and the free list are
  steps of threads (\<open>Sub_Queue\<close>, \<open>Free_List\<close>), and the block index and the hash of the threads are functions, whose calls do not overlap
  (\<open>Block_Index\<close>, \<open>Producer_Hash\<close>); explicit producers and tokens, bulk operations, the recycling of the blocks of one sub-queue by another,
  moving, swapping and destroying whole queues are left out; the broker calls no bulk operation, gives no token to the lock-free queue and moves no queue.  The hash map is a finite map, and so is the index in the theories of the
  broker.  Of the B-tree, the operations that the storage does not call (joining and splitting of trees, ranges,
  ranks, serialization) are left out, and the allocation of its nodes does not fail.  The \<open>meta.info\<close>
  files, log output and the demonstration program change no state of the broker.  \<open>dataFromMessagePath\<close> and
  \<open>propertiesFromMessagePath\<close> read the files of an older layout and are not called.  Memory does not run out, and the counters of the semaphore do not reach the bounds of
  their types.  An operation with no
  defined result in C++ (a list iterator of another list or at its end, an index outside a vector, a null
  pointer) returns an error value of its own, so no theorem says anything of what the machine does then.
\<close>

section \<open>The broker as a whole\<close>

text \<open>C1: in every state that calls of the clients, deliveries of the schedulers and sweeps of the storage
  workers can reach from the start of the broker, in any order and whether they succeed or throw, the
  messages that every consumer has received and not yet settled form one well-linked list with that
  consumer as its owner; and a message that is in some queue or pending in some scheduler is there once, in
  no other queue and in no other scheduler, and in flight at no consumer.\<close>

theorem every_message_in_one_place:
  assumes "start_broker b0" "(broker_step io)\<^sup>*\<^sup>* b0 b"
  shows "(\<forall>c. \<exists>as. in_flight b c as) \<and>
    (\<forall>h a. a \<in># held b h \<longrightarrow> count (held b h) a = 1 \<and> (\<forall>h'. a \<in># held b h' \<longrightarrow> h' = h) \<and>
       (\<forall>c as. in_flight b c as \<longrightarrow> a \<notin> set as))"
proof -
  have "own b" using broker_run.reachable_inv assms by blast
  then obtain N L H where b: "base N L H {} b" "chains L H" by (rule ownE)
  have "a \<notin> set as" if "a \<in># held b h" "in_flight b c as" for a h c as
    using baseD(4) [OF b(1) that(1)] in_flight_owner [OF that(2), of a] by (auto simp: no_link_def)
  moreover have "\<exists>as. in_flight b c as" for c using chains_in_flight [OF b] .
  moreover have "count (held b h) a = 1" if "a \<in># held b h" for a h using baseD(2) [OF b(1) that] .
  moreover have "h' = h" if "a \<in># held b h" "a \<in># held b h'" for a h h' using baseD(5) [OF b(1) that] by simp
  ultimately show ?thesis by blast
qed

theorem every_message_in_one_place_witness: "\<exists>as. in_flight sample_with_message 0 as"
  using every_message_in_one_place [OF sample_start sample_run] by blast

text \<open>C2: a client sends a persistent message with a UUID, without a delay or an expiration and outside a transaction,
  through a producer without defaults of its own, to a queue whose next consumer has no selector, no transaction and an
  empty queue; the disk can be written, the storage has room for the record, and the message can be stored and read
  again (it has no null-valued property and no null entry in a map body, Poco's JSON text gives back its values, and its
  strings are shorter than \<open>2 ^ 32\<close> bytes).  Then the message is on disk when the call returns, and the consumer's
  next \<open>recv\<close> returns it: with the id, the reliability, all headers (as the provider filled them in), the
  properties and the body of the message that was sent (read again as \<open>reread_body\<close> says: a map or stream body loses empty byte
  arrays, a stream stands at its end), and the running number of the destination.  In the
  acknowledging modes it joins the consumer's unsettled messages.\<close>

theorem sent_message_is_stored_and_received:
  fixes b :: broker and a :: maddr and io :: io
  assumes "prod_default (producer_at b p) = None" "d = prod_destination (producer_at b p)" "isQueueFamily (dest_at b d)"
    "dest_targets io d b = [c]" "transactionId b p = []" "con_selector (consumer_at b c) = None" "con_transactQueue (consumer_at b c) = None"
    "isPersistent (msg b a)" "uuid (msg b a) \<noteq> 0" "deliveryTime (jmsHeaders (msg b a)) = 0" "expiration (jmsHeaders (msg b a)) = 0"
    "a < next_msg b" "queues_ok (heap b)" "queue_abs (heap b) (con_queue (consumer_at b c)) = []" "write_ok io"
    "s = con_storage (consumer_at b c)" "cs_holds (storage_at b s) rs"
    "F = filled io (producer_at b p) (to_ms (clock b (clock_reads b))) (msg b a)" "wire_ok (services io) F" "readable F"
    "M = pushed (messageCounter (dest_at b d)) F" "cs_room (storage_bytes (services io) M) (storage_at b s)"
  shows "\<exists>b1 b2 k r xs ys. send io p a b = Some (Inr (), b1) \<and> msg b1 a = F \<and>
    rs = xs @ ys \<and> cs_holds (storage_at b1 s) (xs @ (r, storage_bytes (services io) M) # ys) \<and>
    recv io c t b1 = Some (Inr (Some k), b2) \<and> k \<noteq> a \<and> number (msg b2 k) = messageCounter (dest_at b d) \<and> uuid (msg b2 k) = uuid (msg b a) \<and>
    reliability (msg b2 k) = reliability F \<and> jmsHeaders (msg b2 k) = jmsHeaders F \<and> props (msg b2 k) = props (msg b a) \<and>
    same_body (body (msg b2 k)) (reread_body (services io) (body_copy (body (msg b a)))) \<and>
    (\<forall>as. con_mode b c \<noteq> AUTO_ACKNOWLEDGE \<longrightarrow> in_flight b1 c as \<longrightarrow> in_flight b2 c (as @ [k]))"
proof -
  let ?P = "services io" and ?k = "next_msg b"
  from send_to_queue [OF assms(1-6,8-10,13,15,16) refl assms(17,18,21,22)] obtain b1 r cs xs ys where
    sv: "send io p a b = Some (Inr (), b1)" and cs: "storage_at b1 = (storage_at b)(s := cs)" "rs = xs @ ys" "cs_holds cs (xs @ (r, storage_bytes ?P M) # ys)" and
    m: "msg b1 = (msg b)(a := F, ?k := M\<lparr>cachedStorageBytes := storage_bytes ?P M, storageTomId := tomId r, storageOffset := offset r\<rparr>)" and
    q: "queue_abs (heap b1) (con_queue (consumer_at b c)) =
      spec_enqueue (band_of (Some (priority (jmsHeaders (msg b a))))) ?k (queue_abs (heap b) (con_queue (consumer_at b c)))"
      "queues_ok (heap b1)" and c: "consumer_at b1 = consumer_at b" "session_at b1 = session_at b" by blast
  have w: "wire_ok ?P M" "readable M" using assms(19-21) by (simp_all add: wire_ok_def readable_def)
  have q1: "queue_abs (heap b1) (con_queue (consumer_at b1 c)) = [(band_of (Some (priority (jmsHeaders (msg b a)))), ?k)]"
    using q(1) c assms(14) by (simp add: spec_enqueue_def)
  have k: "isPersistent (msg b1 ?k)" "cachedStorageBytes (msg b1 ?k) = storage_bytes ?P M" "expiration (jmsHeaders M) = 0" "con_transactQueue (consumer_at b1 c) = None" "lk b1 ?k = no_link"
    "props (msg b1 ?k) = props M" "body (msg b1 ?k) = body M"
    using m c assms(7,8,11,18,21) by (simp_all add: isPersistent_def lk_def) (simp_all add: pushed_def message_copy_def)
  from w k(6,7) obtain B where B: "reads_into ?P M (msg b1 ?k) (props M) B" "same_body B (reread_body ?P (body M))" by (rule reads_into_self)
  from recv_first [OF q(2) q1 k(1,2) w(1) B(1) k(3,4), of t] obtain b2 where
    r2: "recv io c t b1 = Some (Inr (Some ?k), b2)" "unlinked (msg b2 ?k) = unlinked (reread M (props M) B (msg b1 ?k))"
    "\<forall>as. con_mode b1 c \<noteq> AUTO_ACKNOWLEDGE \<longrightarrow> in_flight b1 c as \<longrightarrow> lk b1 ?k = no_link \<longrightarrow> in_flight b2 c (as @ [?k])" by blast
  have md: "con_mode b1 c = con_mode b c" using c by (simp add: con_mode_def)
  have n: "number (msg b2 ?k) = messageCounter (dest_at b d)"
    using arg_cong [OF r2(2), of number] assms(21) by (simp add: unlinked_def reread_def)
  have a: "?k \<noteq> a" "msg b1 a = F" using assms(12) m by simp_all
  show ?thesis using sv cs a r2(1,3) copy_fields [OF r2(2)] n assms(18,21) k(5) md B(2)
    by (intro exI [of _ b1] exI [of _ b2] exI [of _ ?k] exI [of _ r] exI [of _ xs] exI [of _ ys]) (simp add: reread_def)
qed

theorem sent_message_is_stored_and_received_witness:
  "\<exists>b1 b2 k. send sample_io 0 0 sample_queue = Some (Inr (), b1) \<and> recv sample_io 0 0 b1 = Some (Inr (Some k), b2) \<and> k \<noteq> 0 \<and>
     uuid (msg b2 k) = 7 \<and> body (msg b2 k) = TextBody ''hi''"
proof -
  define F where "F = filled sample_io sample_producer (to_ms (clock sample_queue (clock_reads sample_queue))) (new_message (TextBody ''hi'') 7 PERSISTENT)"
  define M where "M = pushed 0 F"
  have u: "length (uuid_toString (sample_poco JNull) 7) = 128" by (simp add: sample_poco_def del: upt_Suc)
  have F: "F = (new_message (TextBody ''hi'') 7 PERSISTENT)\<lparr>jmsHeaders := default_headers\<lparr>messageId := ''ID:'' @ uuid_toString (sample_poco JNull) 7,
      timestamp := 1000\<rparr>\<rparr>"
    by (simp add: F_def filled_def fill_messageId_def sample_producer_def sample_io_def sample_queue_def sample_broker_def new_message_def
        default_headers_def to_ms_def upd_dest_def upd_msg_def)
  have w: "wire_ok (services sample_io) F" "readable F"
    using u by (simp_all add: F wire_ok_def readable_def null_free_def sample_io_def headers_ok_def props_ok_def new_message_def default_headers_def)
  have "cs_room (storage_bytes (services sample_io) M) sample_worker"
  proof (rule sample_worker_room)
    show "length (storage_bytes (services sample_io) M) < 10000"
    proof -
      have M: "wire_ok (services sample_io) M" using w(1) by (simp add: M_def wire_ok_def)
      have h: "headers_ok (jmsHeaders M)" using M by (simp add: wire_ok_def)
      show ?thesis using u unfolding storage_bytes_def toBytes_eq [OF M]
        by (simp add: length_string_block [OF h]) (simp add: M_def F fixed_block_def propsJson_def new_message_def default_headers_def sample_io_def)
    qed
  qed
  with w sample_queue_target have "\<exists>b1 b2 k r xs ys. send sample_io 0 0 sample_queue = Some (Inr (), b1) \<and> msg b1 0 = F \<and>
    [(the_record, [10, 20, 30])] = xs @ ys \<and> cs_holds (storage_at b1 0) (xs @ (r, storage_bytes (services sample_io) M) # ys) \<and>
    recv sample_io 0 0 b1 = Some (Inr (Some k), b2) \<and> k \<noteq> 0 \<and> number (msg b2 k) = messageCounter (dest_at sample_queue 0) \<and>
    uuid (msg b2 k) = uuid (msg sample_queue 0) \<and> reliability (msg b2 k) = reliability F \<and> jmsHeaders (msg b2 k) = jmsHeaders F \<and>
    props (msg b2 k) = props (msg sample_queue 0) \<and> same_body (body (msg b2 k)) (reread_body (services sample_io) (body_copy (body (msg sample_queue 0)))) \<and>
    (\<forall>as. con_mode sample_queue 0 \<noteq> AUTO_ACKNOWLEDGE \<longrightarrow> in_flight b1 0 as \<longrightarrow> in_flight b2 0 (as @ [k]))"
    by (intro sent_message_is_stored_and_received)
      (simp_all add: F_def M_def sample_producer_def sample_consumer_def sample_destination_def isQueueFamily_def new_message_def
        default_headers_def isPersistent_def sample_io_def cs_holds_idle one_record_store_ok)
  then obtain b1 b2 k where "send sample_io 0 0 sample_queue = Some (Inr (), b1)" "recv sample_io 0 0 b1 = Some (Inr (Some k), b2)" "k \<noteq> 0"
    "uuid (msg b2 k) = uuid (msg sample_queue 0)" "same_body (body (msg b2 k)) (reread_body (services sample_io) (body_copy (body (msg sample_queue 0))))" by blast
  then show ?thesis by (intro exI [of _ b1] exI [of _ b2] exI [of _ k]) (simp add: new_message_def reread_body_def)
qed

text \<open>C3: what was stored before a restart is delivered after it: when a consumer with an empty queue and outside a
  transaction is created on a storage of at least one record, every one written by the broker for a message without a
  delay and without an expiration, with no null-valued property and no null entry in a map body, whose values Poco's
  JSON text gives back and whose strings are shorter than \<open>2 ^ 32\<close> bytes, and the disk can be written, then replay puts one message for every record into the consumer's
  queue, in the order of the records within each priority, and the next \<open>recv\<close> returns one of them with
  the number, the id, the reliability, all headers, the properties (but empty byte arrays) and the body (as \<open>stored_body\<close> says) that the message had when
  it was stored.\<close>

theorem replay_after_restart_delivers:
  fixes b :: broker and io :: io and M :: "srecord \<Rightarrow> message"
  assumes "cs_holds (storage_at b s) rs" "rs \<noteq> []" "write_ok io" "queues_ok (heap b)" "queue_abs (heap b) q = []"
    "\<forall>(r, dat) \<in> set rs. dat = storage_bytes (services io) (M r) \<and> wire_ok (services io) (M r) \<and> readable (M r) \<and>
       deliveryTime (jmsHeaders (M r)) = 0 \<and> expiration (jmsHeaders (M r)) = 0"
    "q = con_queue (consumer_at b c)" "con_transactQueue (consumer_at b c) = None"
  shows "\<exists>b1 b2 r k. replayFromStorage io q s d b = Some (Inr (), b1) \<and>
    queue_abs (heap b1) q = fold (\<lambda>(k, r). spec_enqueue (band_of (Some (priority (jmsHeaders (M r))))) k)
      (zip [next_msg b ..< next_msg b + length rs] (map fst rs)) [] \<and>
    r \<in> fst ` set rs \<and> recv io c t b1 = Some (Inr (Some k), b2) \<and>
    number (msg b2 k) = number (M r) \<and> uuid (msg b2 k) = uuid (M r) \<and> reliability (msg b2 k) = reliability (M r) \<and>
    jmsHeaders (msg b2 k) = jmsHeaders (M r) \<and> map_of (props (msg b2 k)) = map_of (kept_props (props (M r))) \<and>
    same_body (body (msg b2 k)) (stored_body (body (M r)))"
proof -
  let ?P = "services io"
  from worker.scan_holds [OF assms(1)] obtain cs where cs: "cs_scan True (storage_at b s) = Some (rs, cs)" by blast
  define b0 where "b0 = b\<lparr>storage_at := (storage_at b)(s := cs)\<rparr>"
  have b0: "heap b0 = heap b" "next_msg b0 = next_msg b" "consumer_at b0 = consumer_at b" by (simp_all add: b0_def)
  have rp: "replayFromStorage io q s d b = each rs (replay_record q d) b0"
    using cs assms(3) by (simp add: replayFromStorage_def andThen_def on_storage_def b0_def)
  have "\<forall>(r, dat) \<in> set rs. dat = storage_bytes ?P (M r) \<and> deliveryTime (jmsHeaders (M r)) = 0" using assms(6) by auto
  from replay_all [OF this, of b0 q d] assms(4) obtain b1 where
    r: "replayFromStorage io q s d b = Some (Inr (), b1)" and b1: "queues_ok (heap b1)" "consumer_at b1 = consumer_at b"
      "\<forall>i < length rs. msg b1 (next_msg b + i) = replayed ?P (fst (rs ! i)) (M (fst (rs ! i)))" and
    q: "queue_abs (heap b1) q = fold (\<lambda>(k, r). spec_enqueue (band_of (Some (priority (jmsHeaders (M r))))) k)
         (zip [next_msg b ..< next_msg b + length rs] (map fst rs)) []"
    unfolding rp b0 using assms(5) by auto
  have "snd ` set (queue_abs (heap b1) q) = {next_msg b ..< next_msg b + length rs}"
    unfolding q fold_spec_enqueue_set using arg_cong [OF map_fst_zip [of "[next_msg b ..< next_msg b + length rs]" "map fst rs"], of set]
    by (simp del: map_fst_zip)
  then have ks: "snd ` set (queue_abs (heap b1) q) = {next_msg b ..< next_msg b + length rs}" "queue_abs (heap b1) q \<noteq> []" using assms(2) by auto
  then obtain p k l where kl: "queue_abs (heap b1) q = (p, k) # l" by (cases "queue_abs (heap b1) q") auto
  with ks(1) have "k \<in> {next_msg b ..< next_msg b + length rs}" by (metis image_eqI list.set_intros(1) snd_conv)
  then obtain i where i: "i < length rs" "k = next_msg b + i" by (auto simp: nat_le_iff_add)
  define r where "r = fst (rs ! i)"
  have rm: "r \<in> fst ` set rs" "wire_ok ?P (M r)" "readable (M r)" "deliveryTime (jmsHeaders (M r)) = 0" "expiration (jmsHeaders (M r)) = 0"
    using assms(6) nth_mem [OF i(1)] by (force simp: r_def)+
  have mk: "msg b1 k = replayed ?P r (M r)" using b1(3) i by (simp add: r_def)
  note f = replayed_fields [OF rm(4), of ?P r, folded mk]
  from rm(2,3) f(3,4) obtain Q B where Q: "reads_into ?P (M r) (msg b1 k) Q B" "map_of Q = map_of (kept_props (props (M r)))"
    "same_body B (stored_body (body (M r)))" by (rule reads_into_shell)
  from recv_first [OF b1(1) kl(1) [unfolded assms(7) b1(2) [symmetric]] f(1,2) rm(2) Q(1) rm(5), of t] b1(2) assms(8)
  obtain b2 where b2: "recv io c t b1 = Some (Inr (Some k), b2)"
    "unlinked (msg b2 k) = unlinked (reread (M r) Q B (msg b1 k))" by auto
  have "number (msg b2 k) = number (M r)" using arg_cong [OF b2(2), of number] by (simp add: unlinked_def reread_def)
  then show ?thesis using r q rm(1) b2(1) copy_fields [OF b2(2)] Q(2,3)
    by (intro exI [of _ b1] exI [of _ b2] exI [of _ "r"] exI [of _ k]) (simp add: reread_def)
qed

theorem replay_after_restart_delivers_witness:
  "\<exists>b1 b2 k. replayFromStorage sample_io 0 0 0 sample_restarted = Some (Inr (), b1) \<and> recv sample_io 0 0 b1 = Some (Inr (Some k), b2) \<and>
     uuid (msg b2 k) = 7 \<and> body (msg b2 k) = TextBody ''hi''"
proof -
  let ?r = "fst sample_append"
  have "\<exists>b1 b2 r k. replayFromStorage sample_io 0 0 0 sample_restarted = Some (Inr (), b1) \<and>
    queue_abs (heap b1) 0 = fold (\<lambda>(k, r). spec_enqueue (band_of (Some (priority (jmsHeaders ((\<lambda>_. sample_message7) r))))) k)
      (zip [next_msg sample_restarted ..< next_msg sample_restarted + length [(?r, storage_bytes (services sample_io) sample_message7)]]
        (map fst [(?r, storage_bytes (services sample_io) sample_message7)])) [] \<and>
    r \<in> fst ` set [(?r, storage_bytes (services sample_io) sample_message7)] \<and> recv sample_io 0 0 b1 = Some (Inr (Some k), b2) \<and>
    number (msg b2 k) = number sample_message7 \<and> uuid (msg b2 k) = uuid sample_message7 \<and> reliability (msg b2 k) = reliability sample_message7 \<and>
    jmsHeaders (msg b2 k) = jmsHeaders sample_message7 \<and> map_of (props (msg b2 k)) = map_of (kept_props (props sample_message7)) \<and>
    same_body (body (msg b2 k)) (stored_body (body sample_message7))"
    by (rule replay_after_restart_delivers [where s = 0 and M = "\<lambda>_. sample_message7"])
      (simp_all add: sample_restarted_def sample_append_holds queues_ok_def queue_abs_def pq.invar_empty pq.abs_empty,
       simp_all add: sample_io_def sample_broker_def sample_consumer_def pq.invar_empty pq.abs_empty sample_message7_def new_message_def default_headers_def
         wire_ok_def headers_ok_def props_ok_def readable_def null_free_def)
  then obtain b1 b2 k where "replayFromStorage sample_io 0 0 0 sample_restarted = Some (Inr (), b1)" "recv sample_io 0 0 b1 = Some (Inr (Some k), b2)"
    "uuid (msg b2 k) = uuid sample_message7" "same_body (body (msg b2 k)) (stored_body (body sample_message7))" by blast
  then show ?thesis by (intro exI [of _ b1] exI [of _ b2] exI [of _ k]) (simp add: sample_message7_def new_message_def)
qed

end
